(* ===== verification/Sync_Prelude.thy ===== *)
theory Sync_Prelude
  imports Main "HOL-Library.Word" "HOL-Library.While_Combinator" "HOL-Library.Code_Target_Nat"
begin

text \<open>
  What every component shares: the status codes of include/sync_kgraph/sync.h, the result type
  they give, pointers that may be NULL, the width of \<open>size_t\<close>, and a few lemmas on lists and
  folds. A fallible function of the code returns \<open>'a res\<close>: \<open>Inl\<close> of the error status, or
  \<open>Inr\<close> of what the code stores through its output pointers when it returns \<open>SG_OK\<close>.
\<close>

section \<open>Status codes and results\<close>

datatype sg_status =
    SG_OK
  | SG_ERR_ALLOC
  | SG_ERR_INVALID_ARGUMENT
  | SG_ERR_DUPLICATE
  | SG_ERR_NOT_FOUND
  | SG_ERR_INCOMPLETE
  | SG_ERR_NONDETERMINISTIC
  | SG_ERR_INVALID_MODEL
  | SG_ERR_RESOURCE_BOUND
  | SG_ERR_STALE_GENERATION

type_synonym 'a res = "sg_status + 'a"

text \<open>A pointer that the code compares with NULL is an option.\<close>

type_synonym 'a ptr = "'a option"

abbreviation NULL :: "'a ptr" where
  "NULL \<equiv> None"

abbreviation Ref :: "'a \<Rightarrow> 'a ptr" where
  "Ref \<equiv> Some"

text \<open>Sequencing: the code's \<open>if (status != SG_OK) return status;\<close>.\<close>

definition rbind :: "'a res \<Rightarrow> ('a \<Rightarrow> 'b res) \<Rightarrow> 'b res" where
  "rbind m f = (case m of Inl e \<Rightarrow> Inl e | Inr x \<Rightarrow> f x)"

lemma rbind_simps [simp]:
  "rbind (Inl e) f = Inl e"
  "rbind (Inr x) f = f x"
  by (simp_all add: rbind_def)

lemma rbind_eq_Inr: "rbind m f = Inr y \<longleftrightarrow> (\<exists>x. m = Inr x \<and> f x = Inr y)"
  by (cases m) auto

lemma rbind_eq_InrE [elim!]:
  assumes "rbind m f = Inr y"
  obtains x where "m = Inr x" and "f x = Inr y"
  using assms by (auto simp: rbind_eq_Inr)

text \<open>A loop that stops at the first error.\<close>

fun fold_res :: "('a \<Rightarrow> 's \<Rightarrow> 's res) \<Rightarrow> 'a list \<Rightarrow> 's \<Rightarrow> 's res" where
  "fold_res f [] s = Inr s"
| "fold_res f (x # xs) s = rbind (f x s) (fold_res f xs)"

lemma fold_res_append [simp]:
  "fold_res f (xs @ ys) s = rbind (fold_res f xs s) (fold_res f ys)"
  by (induction xs arbitrary: s) (auto simp: rbind_def split: sum.splits)

lemma fold_res_Inr:
  assumes "\<And>x s. x \<in> set xs \<Longrightarrow> f x s = Inr (g x s)"
  shows "fold_res f xs s = Inr (fold g xs s)"
  using assms by (induction xs arbitrary: s) auto

section \<open>The width of size_t\<close>

definition SIZE_MAX :: nat where
  "SIZE_MAX = 18446744073709551615"

abbreviation SG_INDEX_NONE :: nat where
  "SG_INDEX_NONE \<equiv> SIZE_MAX"

lemma SIZE_MAX_eq: "SIZE_MAX = 2 ^ 64 - 1"
  by (simp add: SIZE_MAX_def)

text \<open>
  A count of things each of which takes at least eight bytes of one object: such a count is at
  most \<open>SIZE_MAX div 8\<close>.
\<close>

definition size_ok :: "nat \<Rightarrow> bool" where
  "size_ok n \<longleftrightarrow> 0 < n \<and> n \<le> SIZE_MAX div 8"

lemma size_okD: "size_ok n \<Longrightarrow> 0 < n" "size_ok n \<Longrightarrow> n < SIZE_MAX"
  by (auto simp: size_ok_def SIZE_MAX_def)

section \<open>Tables and loops that fill them\<close>

text \<open>A table of \<open>n\<close> rows and \<open>m\<close> columns is one array; the cell of row \<open>s\<close> and column \<open>a\<close> is \<open>s * m + a\<close>.\<close>

lemma cell_less: "s < n \<Longrightarrow> a < m \<Longrightarrow> s * m + a < n * (m::nat)"
proof -
  assume "s < n" "a < m"
  then have "s * m + a < Suc s * m" by simp
  also have "\<dots> \<le> n * m" using \<open>s < n\<close> by (intro mult_le_mono1) simp
  finally show ?thesis .
qed

lemma cell_inj:
  "a < m \<Longrightarrow> a' < (m::nat) \<Longrightarrow> s * m + a = s' * m + a' \<longleftrightarrow> s = s' \<and> a = a'"
  by (metis add_diff_cancel_left' add_diff_cancel_right' div_mult_self3 div_less add_0
      mod_less mod_mult_self3 mult.commute not_less0)

lemma cell_cases:
  assumes "c < n * (m::nat)"
  obtains s a where "s < n" "a < m" "c = s * m + a"
proof -
  have "m > 0" using assms by (cases m) auto
  then show ?thesis
    using assms that[of "c div m" "c mod m"] by (simp add: less_mult_imp_div_less)
qed

text \<open>A loop that writes entry after entry.\<close>

definition writes :: "(nat \<Rightarrow> 'a) \<Rightarrow> 'a list \<Rightarrow> nat \<Rightarrow> 'a list" where
  "writes f xs k = foldl (\<lambda>xs i. xs[i := f i]) xs [0..<k]"

lemma writes_simps [simp]:
  "writes f xs 0 = xs"
  "writes f xs (Suc k) = (writes f xs k)[k := f k]"
  by (simp_all add: writes_def)

lemma length_writes [simp]: "length (writes f xs k) = length xs"
  by (induction k) simp_all

lemma nth_writes: "i < length xs \<Longrightarrow> writes f xs k ! i = (if i < k then f i else xs ! i)"
  by (induction k) (auto simp: nth_list_update less_Suc_eq)

definition row_writes :: "nat \<Rightarrow> (nat \<Rightarrow> 'a) \<Rightarrow> nat \<Rightarrow> 'a list \<Rightarrow> nat \<Rightarrow> 'a list" where
  "row_writes p f m xs k = foldl (\<lambda>xs a. xs[p * m + a := f a]) xs [0..<k]"

lemma row_writes_simps [simp]:
  "row_writes p f m xs 0 = xs"
  "row_writes p f m xs (Suc k) = (row_writes p f m xs k)[p * m + k := f k]"
  by (simp_all add: row_writes_def)

lemma length_row_writes [simp]: "length (row_writes p f m xs k) = length xs"
  by (induction k) simp_all

lemma nth_row_writes:
  "k \<le> m \<Longrightarrow> a < m \<Longrightarrow> q * m + a < length xs \<Longrightarrow>
   row_writes p f m xs k ! (q * m + a) = (if q = p \<and> a < k then f a else xs ! (q * m + a))"
  by (induction k) (auto simp: nth_list_update cell_inj less_Suc_eq)

definition table_writes :: "(nat \<Rightarrow> nat \<Rightarrow> 'a) \<Rightarrow> nat \<Rightarrow> 'a list \<Rightarrow> nat \<Rightarrow> 'a list" where
  "table_writes f m xs k = foldl (\<lambda>xs p. row_writes p (f p) m xs m) xs [0..<k]"

lemma table_writes_simps [simp]:
  "table_writes f m xs 0 = xs"
  "table_writes f m xs (Suc k) = row_writes k (f k) m (table_writes f m xs k) m"
  by (simp_all add: table_writes_def)

lemma length_table_writes [simp]: "length (table_writes f m xs k) = length xs"
  by (induction k) simp_all

lemma nth_table_writes:
  "a < m \<Longrightarrow> q * m + a < length xs \<Longrightarrow>
   table_writes f m xs k ! (q * m + a) = (if q < k then f q a else xs ! (q * m + a))"
  by (induction k) (auto simp: nth_row_writes less_Suc_eq)

text \<open>Two nested loops over the rows and the columns are one loop over the cells.\<close>

lemma foldl_row_cells:
  "k \<le> m \<Longrightarrow> foldl (\<lambda>s a. F p a s) s [0..<k] = foldl (\<lambda>s e. F (e div m) (e mod m) s) s [p * m..<p * m + k]"
  by (induction k) simp_all

lemma foldl_cells:
  "foldl (\<lambda>s p. foldl (\<lambda>s a. F p a s) s [0..<m]) s [0..<P] =
   foldl (\<lambda>s e. F (e div m) (e mod m) s) s [0..<P * m]"
proof (induction P)
  case (Suc P)
  have "[0..<Suc P * m] = [0..<P * m] @ [P * m..<P * m + m]"
    by (metis add.commute mult_Suc upt_add_eq_append zero_le)
  with Suc foldl_row_cells[of m m F P] show ?case by simp
qed simp

lemma foldl_concat_map:
  "foldl (\<lambda>s x. foldl (\<lambda>s y. F s (x, y)) s (g x)) s xs =
   foldl F s (concat (map (\<lambda>x. map (Pair x) (g x)) xs))"
proof -
  have inner: "foldl (\<lambda>s y. F s (x, y)) s ys = foldl F s (map (Pair x) ys)" for s x ys
    by (induction ys arbitrary: s) simp_all
  show ?thesis by (induction xs arbitrary: s) (simp_all add: inner)
qed

section \<open>Counting sort\<close>

text \<open>
  Keys below \<open>P\<close>: \<open>sort_offset\<close> is where the bucket of a key begins, \<open>sort_position\<close> the place of
  an entry: in its bucket after the earlier entries with the same key.
\<close>

definition sort_offset :: "nat list \<Rightarrow> nat \<Rightarrow> nat" where
  "sort_offset keys t = sum_list (map (count_list keys) [0..<t])"

definition sort_position :: "nat list \<Rightarrow> nat \<Rightarrow> nat" where
  "sort_position keys e = sort_offset keys (keys ! e) + count_list (take e keys) (keys ! e)"

lemma sort_offset_simps [simp]:
  "sort_offset keys 0 = 0"
  "sort_offset keys (Suc t) = sort_offset keys t + count_list keys t"
  by (simp_all add: sort_offset_def)

lemma sort_offset_mono: "t \<le> u \<Longrightarrow> sort_offset keys t \<le> sort_offset keys u"
  by (induction u rule: dec_induct) simp_all

lemma sort_offset_all: "set keys \<subseteq> {..<P} \<Longrightarrow> sort_offset keys P = length keys"
proof (induction keys)
  case Nil
  have "sort_offset [] t = 0" for t by (induction t) simp_all
  then show ?case by simp
next
  case (Cons k keys)
  have "sort_offset (k # keys) t = sort_offset keys t + (if k < t then 1 else 0)" for t
    by (induction t) auto
  with Cons show ?case by simp
qed

lemma count_list_take_Suc:
  "e < length keys \<Longrightarrow> count_list (take (Suc e) keys) t = count_list (take e keys) t + (if keys ! e = t then 1 else 0)"
  by (simp add: take_Suc_conv_app_nth)

lemma count_list_take_mono: "e \<le> e' \<Longrightarrow> count_list (take e keys) t \<le> count_list (take e' keys) t"
proof -
  assume "e \<le> e'"
  then have "take e' keys = take e keys @ take (e' - e) (drop e keys)"
    by (metis le_add_diff_inverse take_add)
  then show ?thesis by simp
qed

lemma count_list_take_less:
  assumes "e < e'" "e < length keys"
  shows "count_list (take e keys) (keys ! e) < count_list (take e' keys) (keys ! e)"
  using count_list_take_Suc[OF assms(2), of "keys ! e"] count_list_take_mono[of "Suc e" e' keys "keys ! e"]
    assms(1) by simp

lemma sort_position_range:
  assumes "e < length keys"
  shows "sort_offset keys (keys ! e) \<le> sort_position keys e"
    "sort_position keys e < sort_offset keys (Suc (keys ! e))"
  using count_list_take_less[OF assms assms] by (simp_all add: sort_position_def)

lemma sort_position_less:
  assumes "e < length keys" "set keys \<subseteq> {..<P}"
  shows "sort_position keys e < length keys"
proof -
  have "keys ! e < P" using assms nth_mem by blast
  then have "sort_offset keys (Suc (keys ! e)) \<le> sort_offset keys P" by (intro sort_offset_mono) simp
  with sort_position_range(2)[OF assms(1)] sort_offset_all[OF assms(2)] show ?thesis by simp
qed

lemma sort_position_inj:
  assumes "e < length keys" "e' < length keys" "sort_position keys e = sort_position keys e'"
  shows "e = e'"
proof -
  have key: "keys ! x \<le> keys ! y" if "x < length keys" "y < length keys"
    "sort_position keys x = sort_position keys y" for x y
  proof (rule ccontr)
    assume "\<not> keys ! x \<le> keys ! y"
    then have "sort_offset keys (Suc (keys ! y)) \<le> sort_offset keys (keys ! x)"
      by (intro sort_offset_mono) simp
    with sort_position_range[OF that(1)] sort_position_range[OF that(2)] that(3) show False by simp
  qed
  have same: "keys ! e = keys ! e'" using key[of e e'] key[of e' e] assms by simp
  then have "count_list (take e keys) (keys ! e) = count_list (take e' keys) (keys ! e)"
    using assms(3) by (simp add: sort_position_def)
  then show ?thesis
    using count_list_take_less[of e e' keys] count_list_take_less[of e' e keys] assms(1,2) same
    by (cases e e' rule: linorder_cases) auto
qed

lemma sort_position_surj:
  assumes "sort_offset keys t \<le> i" "i < sort_offset keys (Suc t)"
  shows "\<exists>e < length keys. keys ! e = t \<and> sort_position keys e = i"
proof -
  have "\<exists>e < length keys. keys ! e = t \<and> count_list (take e keys) t = r" if "r < count_list keys t" for r keys
    using that
  proof (induction keys rule: rev_induct)
    case (snoc k keys)
    show ?case
    proof (cases "r < count_list keys t")
      case True
      with snoc.IH obtain e where "e < length keys" "keys ! e = t" "count_list (take e keys) t = r" by blast
      then show ?thesis by (intro exI[of _ e]) (simp add: nth_append)
    next
      case False
      with snoc.prems have "k = t" "r = count_list keys t" by (auto split: if_splits)
      then show ?thesis by (intro exI[of _ "length keys"]) simp
    qed
  qed simp
  moreover have "i - sort_offset keys t < count_list keys t" using assms by simp
  ultimately obtain e where
    "e < length keys" "keys ! e = t" "count_list (take e keys) t = i - sort_offset keys t" by blast
  with assms(1) show ?thesis by (auto simp: sort_position_def)
qed

end
