(* ===== verification/Sync_Automaton.thy ===== *)
theory Sync_Automaton
  imports Sync_Prelude
begin

text \<open>
  src/sync.c and the automaton of src/sync_internal.h: the builder with its growing arrays, the
  resolution of keys into the transition and observation tables, and the accessors every other
  component reads the automaton through. Keys are strings without NUL; a NULL pointer is an
  option, and a function that takes a possibly NULL automaton takes a \<open>sg_automaton ptr\<close>.
\<close>

section \<open>Checked sizes and growing arrays\<close>

definition sg_size_multiply :: "nat \<Rightarrow> nat \<Rightarrow> nat option" where
  "sg_size_multiply first second =
     (if first \<noteq> 0 \<and> second > SIZE_MAX div first then None
      else Some ((first * second) mod 2 ^ 64))"

text \<open>
  The growth step of the dynamic arrays: the capacity doubles when the array is full, and the
  byte size of the new array is checked. The result is the new capacity.
\<close>

definition sg_grow :: "nat \<Rightarrow> nat \<Rightarrow> nat \<Rightarrow> nat \<Rightarrow> nat res" where
  "sg_grow initial element_size count capacity =
     (if count = capacity
      then let next_capacity = (if capacity = 0 then initial else (capacity * 2) mod 2 ^ 64)
           in if next_capacity < capacity then Inl SG_ERR_ALLOC
              else (case sg_size_multiply next_capacity element_size of
                      None \<Rightarrow> Inl SG_ERR_ALLOC
                    | Some bytes \<Rightarrow> Inr next_capacity)
      else Inr capacity)"

lemma sg_size_multiply_Some:
  "sg_size_multiply a b = Some c \<longleftrightarrow> a * b \<le> SIZE_MAX \<and> c = a * b"
proof (cases "a = 0")
  case True
  then show ?thesis by (auto simp: sg_size_multiply_def)
next
  case False
  have "b \<le> SIZE_MAX div a \<longleftrightarrow> a * b \<le> SIZE_MAX"
    using False by (simp add: less_eq_div_iff_mult_less_eq mult.commute)
  with False show ?thesis
    by (auto simp: sg_size_multiply_def not_less SIZE_MAX_def)
qed

lemma sg_size_multiply_if:
  "sg_size_multiply a b = (if a * b \<le> SIZE_MAX then Some (a * b) else None)"
proof (cases "sg_size_multiply a b")
  case None
  then have "\<not> a * b \<le> SIZE_MAX" using sg_size_multiply_Some[of a b "a * b"] by auto
  with None show ?thesis by simp
qed (simp add: sg_size_multiply_Some)

section \<open>The builder\<close>

record sg_builder_entry =
  be_source :: string
  be_action :: string
  be_value :: string

record sg_automaton_builder =
  ab_states :: "string list"
  ab_state_capacity :: nat
  ab_actions :: "string list"
  ab_action_capacity :: nat
  ab_outputs :: "string list"
  ab_output_capacity :: nat
  ab_transitions :: "sg_builder_entry list"
  ab_transition_capacity :: nat
  ab_observations :: "sg_builder_entry list"
  ab_observation_capacity :: nat

definition sg_automaton_builder_init :: sg_automaton_builder where
  "sg_automaton_builder_init =
     \<lparr>ab_states = [], ab_state_capacity = 0, ab_actions = [], ab_action_capacity = 0,
      ab_outputs = [], ab_output_capacity = 0, ab_transitions = [], ab_transition_capacity = 0,
      ab_observations = [], ab_observation_capacity = 0\<rparr>"

fun sg_string_array_find_from :: "nat \<Rightarrow> string list \<Rightarrow> string \<Rightarrow> nat" where
  "sg_string_array_find_from index [] value = SG_INDEX_NONE"
| "sg_string_array_find_from index (key # keys) value =
     (if key = value then index else sg_string_array_find_from (Suc index) keys value)"

definition sg_string_array_find :: "string list \<Rightarrow> string \<Rightarrow> nat" where
  "sg_string_array_find values value = sg_string_array_find_from 0 values value"

definition sg_string_array_add :: "string list \<Rightarrow> nat \<Rightarrow> string ptr \<Rightarrow> (string list \<times> nat) res" where
  "sg_string_array_add values capacity value =
     (case value of
        NULL \<Rightarrow> Inl SG_ERR_INVALID_ARGUMENT
      | Ref key \<Rightarrow>
          if key = [] then Inl SG_ERR_INVALID_ARGUMENT
          else if sg_string_array_find values key \<noteq> SG_INDEX_NONE then Inl SG_ERR_DUPLICATE
          else rbind (sg_grow 8 8 (length values) capacity)
                 (\<lambda>capacity'. Inr (values @ [key], capacity')))"

definition sg_automaton_builder_add_state ::
  "sg_automaton_builder ptr \<Rightarrow> string ptr \<Rightarrow> sg_automaton_builder res" where
  "sg_automaton_builder_add_state builder state_key =
     (case builder of
        NULL \<Rightarrow> Inl SG_ERR_INVALID_ARGUMENT
      | Ref b \<Rightarrow> rbind (sg_string_array_add (ab_states b) (ab_state_capacity b) state_key)
          (\<lambda>(states, capacity). Inr (b\<lparr>ab_states := states, ab_state_capacity := capacity\<rparr>)))"

definition sg_automaton_builder_add_action ::
  "sg_automaton_builder ptr \<Rightarrow> string ptr \<Rightarrow> sg_automaton_builder res" where
  "sg_automaton_builder_add_action builder action_key =
     (case builder of
        NULL \<Rightarrow> Inl SG_ERR_INVALID_ARGUMENT
      | Ref b \<Rightarrow> rbind (sg_string_array_add (ab_actions b) (ab_action_capacity b) action_key)
          (\<lambda>(actions, capacity). Inr (b\<lparr>ab_actions := actions, ab_action_capacity := capacity\<rparr>)))"

definition sg_automaton_builder_add_output ::
  "sg_automaton_builder ptr \<Rightarrow> string ptr \<Rightarrow> sg_automaton_builder res" where
  "sg_automaton_builder_add_output builder output_key =
     (case builder of
        NULL \<Rightarrow> Inl SG_ERR_INVALID_ARGUMENT
      | Ref b \<Rightarrow> rbind (sg_string_array_add (ab_outputs b) (ab_output_capacity b) output_key)
          (\<lambda>(outputs, capacity). Inr (b\<lparr>ab_outputs := outputs, ab_output_capacity := capacity\<rparr>)))"

definition sg_builder_entry_add ::
  "sg_builder_entry list \<Rightarrow> nat \<Rightarrow> string ptr \<Rightarrow> string ptr \<Rightarrow> string ptr \<Rightarrow>
     (sg_builder_entry list \<times> nat) res" where
  "sg_builder_entry_add entries capacity source action value =
     (case (source, action, value) of
        (Ref s, Ref a, Ref v) \<Rightarrow>
          if s = [] \<or> a = [] \<or> v = [] then Inl SG_ERR_INVALID_ARGUMENT
          else rbind (sg_grow 16 24 (length entries) capacity)
                 (\<lambda>capacity'. Inr (entries @ [\<lparr>be_source = s, be_action = a, be_value = v\<rparr>],
                                  capacity'))
      | _ \<Rightarrow> Inl SG_ERR_INVALID_ARGUMENT)"

definition sg_automaton_builder_add_transition ::
  "sg_automaton_builder ptr \<Rightarrow> string ptr \<Rightarrow> string ptr \<Rightarrow> string ptr \<Rightarrow> sg_automaton_builder res" where
  "sg_automaton_builder_add_transition builder source_key action_key target_key =
     (case builder of
        NULL \<Rightarrow> Inl SG_ERR_INVALID_ARGUMENT
      | Ref b \<Rightarrow> rbind (sg_builder_entry_add (ab_transitions b) (ab_transition_capacity b)
                         source_key action_key target_key)
          (\<lambda>(entries, capacity).
             Inr (b\<lparr>ab_transitions := entries, ab_transition_capacity := capacity\<rparr>)))"

definition sg_automaton_builder_add_observation ::
  "sg_automaton_builder ptr \<Rightarrow> string ptr \<Rightarrow> string ptr \<Rightarrow> string ptr \<Rightarrow> sg_automaton_builder res" where
  "sg_automaton_builder_add_observation builder source_key action_key output_key =
     (case builder of
        NULL \<Rightarrow> Inl SG_ERR_INVALID_ARGUMENT
      | Ref b \<Rightarrow> rbind (sg_builder_entry_add (ab_observations b) (ab_observation_capacity b)
                         source_key action_key output_key)
          (\<lambda>(entries, capacity).
             Inr (b\<lparr>ab_observations := entries, ab_observation_capacity := capacity\<rparr>)))"

section \<open>The automaton\<close>

record sg_automaton =
  au_generation :: "64 word"
  au_state_count :: nat
  au_action_count :: nat
  au_output_count :: nat
  au_state_keys :: "string list"
  au_action_keys :: "string list"
  au_output_keys :: "string list"
  au_transitions :: "nat list"
  au_observations :: "nat list"

fun sg_resolve_entries ::
  "sg_automaton_builder \<Rightarrow> sg_builder_entry list \<Rightarrow> string list \<Rightarrow> nat list \<Rightarrow> nat list res" where
  "sg_resolve_entries builder [] value_keys table = Inr table"
| "sg_resolve_entries builder (entry # entries) value_keys table =
     (let source = sg_string_array_find (ab_states builder) (be_source entry);
          action = sg_string_array_find (ab_actions builder) (be_action entry);
          value = sg_string_array_find value_keys (be_value entry)
      in if source = SG_INDEX_NONE \<or> action = SG_INDEX_NONE \<or> value = SG_INDEX_NONE
         then Inl SG_ERR_NOT_FOUND
         else let cell = source * length (ab_actions builder) + action
              in if table ! cell \<noteq> SG_INDEX_NONE
                 then Inl (if table ! cell = value then SG_ERR_DUPLICATE
                           else SG_ERR_NONDETERMINISTIC)
                 else sg_resolve_entries builder entries value_keys (table[cell := value]))"

definition sg_automaton_allocate :: "sg_automaton_builder \<Rightarrow> 64 word \<Rightarrow> sg_automaton res" where
  "sg_automaton_allocate builder generation =
     (case sg_size_multiply (length (ab_states builder)) (length (ab_actions builder)) of
        None \<Rightarrow> Inl SG_ERR_ALLOC
      | Some cells \<Rightarrow>
          Inr \<lparr>au_generation = generation,
               au_state_count = length (ab_states builder),
               au_action_count = length (ab_actions builder),
               au_output_count = length (ab_outputs builder),
               au_state_keys = [], au_action_keys = [], au_output_keys = [],
               au_transitions = replicate cells SG_INDEX_NONE,
               au_observations = replicate cells SG_INDEX_NONE\<rparr>)"

definition sg_automaton_builder_build ::
  "sg_automaton_builder ptr \<Rightarrow> 64 word \<Rightarrow> sg_automaton res" where
  "sg_automaton_builder_build builder generation =
     (case builder of
        NULL \<Rightarrow> Inl SG_ERR_INVALID_ARGUMENT
      | Ref b \<Rightarrow>
          if ab_states b = [] \<or> ab_actions b = [] \<or> ab_outputs b = [] then Inl SG_ERR_INCOMPLETE
          else rbind (sg_automaton_allocate b generation) (\<lambda>created0.
            let created = created0\<lparr>au_state_keys := ab_states b, au_action_keys := ab_actions b,
                                   au_output_keys := ab_outputs b\<rparr>
            in rbind (sg_resolve_entries b (ab_transitions b) (ab_states b)
                        (au_transitions created)) (\<lambda>transitions.
               rbind (sg_resolve_entries b (ab_observations b) (ab_outputs b)
                        (au_observations created)) (\<lambda>observations.
               if list_ex (\<lambda>cell. transitions ! cell = SG_INDEX_NONE \<or>
                                  observations ! cell = SG_INDEX_NONE)
                    [0..<length (au_transitions created)]
               then Inl SG_ERR_INCOMPLETE
               else Inr (created\<lparr>au_transitions := transitions,
                                 au_observations := observations\<rparr>)))))"

definition sg_automaton_clone_generation ::
  "sg_automaton ptr \<Rightarrow> 64 word \<Rightarrow> sg_automaton res" where
  "sg_automaton_clone_generation source generation =
     (case source of
        NULL \<Rightarrow> Inl SG_ERR_INVALID_ARGUMENT
      | Ref a \<Rightarrow>
          if au_state_count a = 0 \<or> au_action_count a = 0 \<or> au_output_count a = 0
          then Inl SG_ERR_INVALID_MODEL
          else (case sg_size_multiply (au_state_count a) (au_action_count a) of
                  None \<Rightarrow> Inl SG_ERR_ALLOC
                | Some cells \<Rightarrow>
                    if cells = 0 then Inl SG_ERR_INVALID_MODEL
                    else Inr \<lparr>au_generation = generation,
                              au_state_count = au_state_count a,
                              au_action_count = au_action_count a,
                              au_output_count = au_output_count a,
                              au_state_keys = au_state_keys a,
                              au_action_keys = au_action_keys a,
                              au_output_keys = au_output_keys a,
                              au_transitions = take cells (au_transitions a),
                              au_observations = take cells (au_observations a)\<rparr>))"

definition sg_automaton_set_cell ::
  "sg_automaton ptr \<Rightarrow> nat \<Rightarrow> nat \<Rightarrow> nat \<Rightarrow> nat \<Rightarrow> sg_automaton res" where
  "sg_automaton_set_cell automaton state action target output =
     (case automaton of
        NULL \<Rightarrow> Inl SG_ERR_INVALID_ARGUMENT
      | Ref a \<Rightarrow>
          if state \<ge> au_state_count a \<or> action \<ge> au_action_count a \<or>
             target \<ge> au_state_count a \<or> output \<ge> au_output_count a
          then Inl SG_ERR_INVALID_ARGUMENT
          else let cell = state * au_action_count a + action
               in Inr (a\<lparr>au_transitions := (au_transitions a)[cell := target],
                         au_observations := (au_observations a)[cell := output]\<rparr>))"

definition sg_automaton_generation :: "sg_automaton ptr \<Rightarrow> 64 word" where
  "sg_automaton_generation automaton = (case automaton of NULL \<Rightarrow> 0 | Ref a \<Rightarrow> au_generation a)"

definition sg_automaton_state_count :: "sg_automaton ptr \<Rightarrow> nat" where
  "sg_automaton_state_count automaton = (case automaton of NULL \<Rightarrow> 0 | Ref a \<Rightarrow> au_state_count a)"

definition sg_automaton_action_count :: "sg_automaton ptr \<Rightarrow> nat" where
  "sg_automaton_action_count automaton = (case automaton of NULL \<Rightarrow> 0 | Ref a \<Rightarrow> au_action_count a)"

definition sg_automaton_output_count :: "sg_automaton ptr \<Rightarrow> nat" where
  "sg_automaton_output_count automaton = (case automaton of NULL \<Rightarrow> 0 | Ref a \<Rightarrow> au_output_count a)"

definition sg_automaton_transition_count :: "sg_automaton ptr \<Rightarrow> nat" where
  "sg_automaton_transition_count automaton =
     (case automaton of NULL \<Rightarrow> 0 | Ref a \<Rightarrow> (au_state_count a * au_action_count a) mod 2 ^ 64)"

definition sg_automaton_state_key :: "sg_automaton ptr \<Rightarrow> nat \<Rightarrow> string ptr" where
  "sg_automaton_state_key automaton state =
     (case automaton of
        NULL \<Rightarrow> NULL
      | Ref a \<Rightarrow> if state \<ge> au_state_count a then NULL else Ref (au_state_keys a ! state))"

definition sg_automaton_action_key :: "sg_automaton ptr \<Rightarrow> nat \<Rightarrow> string ptr" where
  "sg_automaton_action_key automaton action =
     (case automaton of
        NULL \<Rightarrow> NULL
      | Ref a \<Rightarrow> if action \<ge> au_action_count a then NULL else Ref (au_action_keys a ! action))"

definition sg_automaton_output_key :: "sg_automaton ptr \<Rightarrow> nat \<Rightarrow> string ptr" where
  "sg_automaton_output_key automaton output =
     (case automaton of
        NULL \<Rightarrow> NULL
      | Ref a \<Rightarrow> if output \<ge> au_output_count a then NULL else Ref (au_output_keys a ! output))"

definition sg_automaton_transition :: "sg_automaton ptr \<Rightarrow> nat \<Rightarrow> nat \<Rightarrow> nat" where
  "sg_automaton_transition automaton state action =
     (case automaton of
        NULL \<Rightarrow> SG_INDEX_NONE
      | Ref a \<Rightarrow>
          if state \<ge> au_state_count a \<or> action \<ge> au_action_count a then SG_INDEX_NONE
          else au_transitions a ! (state * au_action_count a + action))"

definition sg_automaton_observation :: "sg_automaton ptr \<Rightarrow> nat \<Rightarrow> nat \<Rightarrow> nat" where
  "sg_automaton_observation automaton state action =
     (case automaton of
        NULL \<Rightarrow> SG_INDEX_NONE
      | Ref a \<Rightarrow>
          if state \<ge> au_state_count a \<or> action \<ge> au_action_count a then SG_INDEX_NONE
          else au_observations a ! (state * au_action_count a + action))"

definition sg_find_key :: "string list ptr \<Rightarrow> string ptr \<Rightarrow> nat res" where
  "sg_find_key keys key =
     (case (keys, key) of
        (Ref ks, Ref k) \<Rightarrow>
          let found = sg_string_array_find ks k
          in if found = SG_INDEX_NONE then Inl SG_ERR_NOT_FOUND else Inr found
      | _ \<Rightarrow> Inl SG_ERR_INVALID_ARGUMENT)"

definition sg_automaton_find_state :: "sg_automaton ptr \<Rightarrow> string ptr \<Rightarrow> nat res" where
  "sg_automaton_find_state automaton state_key =
     (case automaton of NULL \<Rightarrow> Inl SG_ERR_INVALID_ARGUMENT
      | Ref a \<Rightarrow> sg_find_key (Ref (au_state_keys a)) state_key)"

definition sg_automaton_find_action :: "sg_automaton ptr \<Rightarrow> string ptr \<Rightarrow> nat res" where
  "sg_automaton_find_action automaton action_key =
     (case automaton of NULL \<Rightarrow> Inl SG_ERR_INVALID_ARGUMENT
      | Ref a \<Rightarrow> sg_find_key (Ref (au_action_keys a)) action_key)"

definition sg_automaton_find_output :: "sg_automaton ptr \<Rightarrow> string ptr \<Rightarrow> nat res" where
  "sg_automaton_find_output automaton output_key =
     (case automaton of NULL \<Rightarrow> Inl SG_ERR_INVALID_ARGUMENT
      | Ref a \<Rightarrow> sg_find_key (Ref (au_output_keys a)) output_key)"

section \<open>Well-formedness\<close>

definition keys_ok :: "string list \<Rightarrow> bool" where
  "keys_ok keys \<longleftrightarrow> distinct keys \<and> [] \<notin> set keys"

definition wf_automaton :: "sg_automaton \<Rightarrow> bool" where
  "wf_automaton a \<longleftrightarrow>
     size_ok (au_state_count a) \<and> size_ok (au_action_count a) \<and> size_ok (au_output_count a) \<and>
     au_state_count a * au_action_count a \<le> SIZE_MAX \<and>
     length (au_state_keys a) = au_state_count a \<and> keys_ok (au_state_keys a) \<and>
     length (au_action_keys a) = au_action_count a \<and> keys_ok (au_action_keys a) \<and>
     length (au_output_keys a) = au_output_count a \<and> keys_ok (au_output_keys a) \<and>
     length (au_transitions a) = au_state_count a * au_action_count a \<and>
     length (au_observations a) = au_state_count a * au_action_count a \<and>
     (\<forall>t \<in> set (au_transitions a). t < au_state_count a) \<and>
     (\<forall>o' \<in> set (au_observations a). o' < au_output_count a)"

definition entries_ok :: "sg_builder_entry list \<Rightarrow> nat \<Rightarrow> bool" where
  "entries_ok entries capacity \<longleftrightarrow> length entries \<le> capacity \<and> capacity \<le> SIZE_MAX div 24"

definition array_ok :: "string list \<Rightarrow> nat \<Rightarrow> bool" where
  "array_ok keys capacity \<longleftrightarrow> keys_ok keys \<and> length keys \<le> capacity \<and> capacity \<le> SIZE_MAX div 8"

definition builder_ok :: "sg_automaton_builder \<Rightarrow> bool" where
  "builder_ok b \<longleftrightarrow>
     array_ok (ab_states b) (ab_state_capacity b) \<and>
     array_ok (ab_actions b) (ab_action_capacity b) \<and>
     array_ok (ab_outputs b) (ab_output_capacity b) \<and>
     entries_ok (ab_transitions b) (ab_transition_capacity b) \<and>
     entries_ok (ab_observations b) (ab_observation_capacity b)"

lemma transition_less:
  "wf_automaton A \<Longrightarrow> s < au_state_count A \<Longrightarrow> a < au_action_count A \<Longrightarrow>
   sg_automaton_transition (Ref A) s a < au_state_count A"
  using cell_less[of s "au_state_count A" a "au_action_count A"]
  by (simp add: sg_automaton_transition_def wf_automaton_def)

lemma observation_less:
  "wf_automaton A \<Longrightarrow> s < au_state_count A \<Longrightarrow> a < au_action_count A \<Longrightarrow>
   sg_automaton_observation (Ref A) s a < au_output_count A"
  using cell_less[of s "au_state_count A" a "au_action_count A"]
  by (simp add: sg_automaton_observation_def wf_automaton_def)

lemma wf_automatonD:
  assumes "wf_automaton A"
  shows "size_ok (au_state_count A)" "size_ok (au_action_count A)" "size_ok (au_output_count A)"
    "0 < au_state_count A" "0 < au_action_count A" "au_state_count A < SIZE_MAX"
    "au_action_count A < SIZE_MAX"
  using assms by (auto simp: wf_automaton_def dest: size_okD)

section \<open>Key lookup\<close>

lemma sg_string_array_find_from_spec:
  "sg_string_array_find_from i keys v = (if v \<in> set keys then i + (LEAST k. k < length keys \<and> keys ! k = v)
     else SG_INDEX_NONE)"
proof (induction i keys v rule: sg_string_array_find_from.induct)
  case (2 i key keys v)
  show ?case
  proof (cases "key = v")
    case True
    then have "(LEAST k. k < length (key # keys) \<and> (key # keys) ! k = v) = 0"
      by (intro Least_equality) auto
    with True show ?thesis by simp
  next
    case False
    have "(LEAST k. k < length (key # keys) \<and> (key # keys) ! k = v) =
        Suc (LEAST k. k < length keys \<and> keys ! k = v)" if v: "v \<in> set keys"
    proof -
      from v obtain k where "k < length keys \<and> keys ! k = v" by (auto simp: in_set_conv_nth)
      then have "Suc k < length (key # keys) \<and> (key # keys) ! Suc k = v" by simp
      from Least_Suc[where P = "\<lambda>k. k < length (key # keys) \<and> (key # keys) ! k = v", OF this] False
      show ?thesis by simp
    qed
    with "2" False show ?thesis by auto
  qed
qed simp

lemma sg_string_array_find_cases:
  assumes "length keys \<le> SIZE_MAX"
  obtains "v \<notin> set keys" "sg_string_array_find keys v = SG_INDEX_NONE"
  | i where "i < length keys" "keys ! i = v" "sg_string_array_find keys v = i" "i \<noteq> SG_INDEX_NONE"
proof (cases "v \<in> set keys")
  case False
  then show ?thesis
    using that(1) by (simp add: sg_string_array_find_def sg_string_array_find_from_spec)
next
  case True
  define i where "i = (LEAST k. k < length keys \<and> keys ! k = v)"
  from True obtain k where "k < length keys \<and> keys ! k = v" by (auto simp: in_set_conv_nth)
  then have "i < length keys \<and> keys ! i = v" unfolding i_def by (rule LeastI)
  moreover have "sg_string_array_find keys v = i"
    using True by (simp add: sg_string_array_find_def sg_string_array_find_from_spec i_def)
  ultimately show ?thesis using that(2) assms by auto
qed

lemma sg_string_array_find_nth:
  assumes "distinct keys" "length keys \<le> SIZE_MAX" "i < length keys"
  shows "sg_string_array_find keys (keys ! i) = i"
proof (rule sg_string_array_find_cases[OF assms(2), of "keys ! i"])
  assume "keys ! i \<notin> set keys"
  with assms(3) show ?thesis by simp
next
  fix j assume "j < length keys" "keys ! j = keys ! i" "sg_string_array_find keys (keys ! i) = j"
  with assms show ?thesis by (simp add: nth_eq_iff_index_eq)
qed

lemma sg_string_array_find_none:
  "length keys \<le> SIZE_MAX \<Longrightarrow> sg_string_array_find keys v = SG_INDEX_NONE \<longleftrightarrow> v \<notin> set keys"
  by (rule sg_string_array_find_cases[of keys v]) (auto intro: nth_mem)

end
