(* ===== verification/Sync_Example.thy ===== *)
theory Sync_Example
  imports Sync_Automaton
begin

text \<open>
  A concrete automaton on which the theorems are applied: three states, a cyclic action
  \<open>go\<close> that shows \<open>hi\<close> on the last state, and an action \<open>join\<close> that merges the first two
  states and shows nothing.
\<close>

definition demo_automaton :: sg_automaton where
  "demo_automaton =
     \<lparr>au_generation = 7, au_state_count = 3, au_action_count = 2, au_output_count = 2,
      au_state_keys = [''s0'', ''s1'', ''s2''], au_action_keys = [''go'', ''join''],
      au_output_keys = [''lo'', ''hi''],
      au_transitions = [1, 0, 2, 0, 0, 2], au_observations = [0, 0, 0, 0, 1, 0]\<rparr>"

lemma demo_wf: "wf_automaton demo_automaton"
  by code_simp

end
