(* ===== verification/Sync_Builder.thy ===== *)
theory Sync_Builder
  imports Sync_Example
begin

text \<open>
  What the builder of src/sync.c promises: its arrays keep unique non-empty keys within their
  capacity, and \<open>sg_automaton_builder_build\<close> succeeds only on a complete deterministic
  description, of which the automaton's tables are the function.
\<close>

section \<open>The growing arrays\<close>

lemma sg_grow_Inr:
  assumes "sg_grow initial e count capacity = Inr c'" "count \<le> capacity"
    "capacity \<le> SIZE_MAX div e" "0 < initial" "initial * e \<le> SIZE_MAX" "8 \<le> e"
  shows "Suc count \<le> c'" "c' \<le> SIZE_MAX div e"
proof -
  have "capacity * e \<le> SIZE_MAX"
    using assms(3,6) by (simp add: less_eq_div_iff_mult_less_eq)
  then have "capacity * 8 \<le> SIZE_MAX"
    using assms(6) mult_le_mono2[of 8 e capacity] by linarith
  then have cap: "(capacity * 2) mod 2 ^ 64 = capacity * 2" by (simp add: SIZE_MAX_def)
  have le: "c * e \<le> SIZE_MAX \<Longrightarrow> c \<le> SIZE_MAX div e" for c
    using assms(6) by (simp add: less_eq_div_iff_mult_less_eq)
  show "Suc count \<le> c'" "c' \<le> SIZE_MAX div e"
    using assms le cap unfolding sg_grow_def Let_def
    by (auto simp: sg_size_multiply_Some split: if_splits option.splits)
qed

lemma array_ok_find_none:
  "array_ok keys capacity \<Longrightarrow> sg_string_array_find keys v = SG_INDEX_NONE \<longleftrightarrow> v \<notin> set keys"
  by (rule sg_string_array_find_none) (auto simp: array_ok_def SIZE_MAX_def)

lemma sg_string_array_add_Inr:
  assumes "array_ok keys capacity" "sg_string_array_add keys capacity value = Inr (keys', capacity')"
  shows "array_ok keys' capacity'" "\<exists>key. value = Ref key \<and> key \<noteq> [] \<and> key \<notin> set keys \<and> keys' = keys @ [key]"
proof -
  from assms(2) obtain key where key: "value = Ref key" "key \<noteq> []"
      "sg_string_array_find keys key = SG_INDEX_NONE" "keys' = keys @ [key]"
      and grow: "sg_grow 8 8 (length keys) capacity = Inr capacity'"
    by (auto simp: sg_string_array_add_def split: option.splits if_splits)
  have "key \<notin> set keys" using array_ok_find_none[OF assms(1)] key(3) by simp
  moreover have "Suc (length keys) \<le> capacity'" "capacity' \<le> SIZE_MAX div 8"
    using sg_grow_Inr[OF grow] assms(1) by (auto simp: array_ok_def SIZE_MAX_def)
  ultimately show "array_ok keys' capacity'"
    and "\<exists>key. value = Ref key \<and> key \<noteq> [] \<and> key \<notin> set keys \<and> keys' = keys @ [key]"
    using assms(1) key by (auto simp: array_ok_def keys_ok_def)
qed

lemma sg_builder_entry_add_Inr:
  assumes "entries_ok es capacity" "sg_builder_entry_add es capacity s a v = Inr (es', capacity')"
  shows "entries_ok es' capacity'"
proof -
  from assms(2) have "length es' = Suc (length es)"
      and grow: "sg_grow 16 24 (length es) capacity = Inr capacity'"
    by (auto simp: sg_builder_entry_add_def split: option.splits if_splits)
  with sg_grow_Inr[OF grow] assms(1) show ?thesis by (auto simp: entries_ok_def SIZE_MAX_def)
qed

lemma builder_init_ok [simp]: "builder_ok sg_automaton_builder_init"
  by (simp add: builder_ok_def sg_automaton_builder_init_def array_ok_def keys_ok_def entries_ok_def)

text \<open>One builder call: which array it appends to.\<close>

datatype builder_call =
    Add_state "string ptr"
  | Add_action "string ptr"
  | Add_output "string ptr"
  | Add_transition "string ptr" "string ptr" "string ptr"
  | Add_observation "string ptr" "string ptr" "string ptr"

fun apply_builder_call :: "builder_call \<Rightarrow> sg_automaton_builder \<Rightarrow> sg_automaton_builder res" where
  "apply_builder_call (Add_state k) b = sg_automaton_builder_add_state (Ref b) k"
| "apply_builder_call (Add_action k) b = sg_automaton_builder_add_action (Ref b) k"
| "apply_builder_call (Add_output k) b = sg_automaton_builder_add_output (Ref b) k"
| "apply_builder_call (Add_transition s a t) b = sg_automaton_builder_add_transition (Ref b) s a t"
| "apply_builder_call (Add_observation s a v) b = sg_automaton_builder_add_observation (Ref b) s a v"

lemma builder_call_ok:
  assumes "builder_ok b" "apply_builder_call c b = Inr b'"
  shows "builder_ok b'"
  using assms
  by (cases c)
    (auto simp: builder_ok_def sg_automaton_builder_add_state_def sg_automaton_builder_add_action_def
      sg_automaton_builder_add_output_def sg_automaton_builder_add_transition_def
      sg_automaton_builder_add_observation_def
      dest: sg_string_array_add_Inr(1) sg_builder_entry_add_Inr)

lemma builder_calls_ok: "builder_ok b \<Longrightarrow> fold_res apply_builder_call cs b = Inr b' \<Longrightarrow> builder_ok b'"
  by (induction cs arbitrary: b) (auto dest: builder_call_ok)

section \<open>Resolving the entries\<close>

definition entry_cell :: "sg_automaton_builder \<Rightarrow> sg_builder_entry \<Rightarrow> nat" where
  "entry_cell b e = sg_string_array_find (ab_states b) (be_source e) * length (ab_actions b) +
     sg_string_array_find (ab_actions b) (be_action e)"

definition entry_known :: "sg_automaton_builder \<Rightarrow> string list \<Rightarrow> sg_builder_entry \<Rightarrow> bool" where
  "entry_known b value_keys e \<longleftrightarrow>
     be_source e \<in> set (ab_states b) \<and> be_action e \<in> set (ab_actions b) \<and> be_value e \<in> set value_keys"

text \<open>
  The description a list of entries gives: every entry names known keys, and every pair of a
  state and an action has exactly one entry.
\<close>

definition complete_description :: "sg_automaton_builder \<Rightarrow> string list \<Rightarrow> sg_builder_entry list \<Rightarrow> bool" where
  "complete_description b value_keys es \<longleftrightarrow>
     list_all (entry_known b value_keys) es \<and>
     distinct (map (\<lambda>e. (be_source e, be_action e)) es) \<and>
     list_all (\<lambda>s. list_all (\<lambda>a. list_ex (\<lambda>e. be_source e = s \<and> be_action e = a) es) (ab_actions b))
       (ab_states b)"

lemma resolve_step:
  "sg_resolve_entries b (e # es) vk table =
     (if sg_string_array_find (ab_states b) (be_source e) = SG_INDEX_NONE \<or>
         sg_string_array_find (ab_actions b) (be_action e) = SG_INDEX_NONE \<or>
         sg_string_array_find vk (be_value e) = SG_INDEX_NONE
      then Inl SG_ERR_NOT_FOUND
      else if table ! entry_cell b e \<noteq> SG_INDEX_NONE
      then Inl (if table ! entry_cell b e = sg_string_array_find vk (be_value e)
                then SG_ERR_DUPLICATE else SG_ERR_NONDETERMINISTIC)
      else sg_resolve_entries b es vk
             (table[entry_cell b e := sg_string_array_find vk (be_value e)]))"
  by (simp add: entry_cell_def Let_def)

declare sg_resolve_entries.simps(2) [simp del]

lemma entry_known_iff:
  assumes "builder_ok b" "array_ok vk capacity"
  shows "(sg_string_array_find (ab_states b) (be_source e) = SG_INDEX_NONE \<or>
    sg_string_array_find (ab_actions b) (be_action e) = SG_INDEX_NONE \<or>
    sg_string_array_find vk (be_value e) = SG_INDEX_NONE) \<longleftrightarrow> \<not> entry_known b vk e"
  using assms by (auto simp: builder_ok_def entry_known_def array_ok_find_none)

lemma array_ok_find_less:
  assumes "array_ok keys capacity" "v \<in> set keys"
  shows "sg_string_array_find keys v < length keys" "keys ! sg_string_array_find keys v = v"
proof -
  have "length keys \<le> SIZE_MAX" using assms(1) by (auto simp: array_ok_def SIZE_MAX_def)
  then show "sg_string_array_find keys v < length keys" "keys ! sg_string_array_find keys v = v"
    using assms(2) by (cases rule: sg_string_array_find_cases[of keys v]; simp)+
qed

lemma array_ok_find_nth:
  "array_ok keys capacity \<Longrightarrow> i < length keys \<Longrightarrow> sg_string_array_find keys (keys ! i) = i"
  by (rule sg_string_array_find_nth) (auto simp: array_ok_def keys_ok_def SIZE_MAX_def)

lemma entry_cell_less:
  assumes "builder_ok b" "entry_known b vk e"
  shows "entry_cell b e < length (ab_states b) * length (ab_actions b)"
  unfolding entry_cell_def using assms
  by (intro cell_less) (auto simp: builder_ok_def entry_known_def array_ok_find_less)

lemma entry_cell_eq_iff:
  assumes "builder_ok b" "entry_known b vk e" "entry_known b vk' e'"
  shows "entry_cell b e = entry_cell b e' \<longleftrightarrow>
    be_source e = be_source e' \<and> be_action e = be_action e'"
proof -
  let ?f = sg_string_array_find
  have inj: "?f keys v = ?f keys v' \<longleftrightarrow> v = v'"
    if "array_ok keys c" "v \<in> set keys" "v' \<in> set keys" for keys c v v'
    using array_ok_find_less(2)[OF that(1)] that(2,3) by metis
  have "entry_cell b e = entry_cell b e' \<longleftrightarrow>
      ?f (ab_states b) (be_source e) = ?f (ab_states b) (be_source e') \<and>
      ?f (ab_actions b) (be_action e) = ?f (ab_actions b) (be_action e')"
    unfolding entry_cell_def using assms
    by (intro cell_inj) (auto simp: builder_ok_def entry_known_def array_ok_find_less)
  also have "\<dots> \<longleftrightarrow> be_source e = be_source e' \<and> be_action e = be_action e'"
    using assms by (auto simp: builder_ok_def entry_known_def inj)
  finally show ?thesis .
qed

lemma resolve_Inr_iff:
  assumes ok: "builder_ok b" "array_ok vk capacity"
    and len: "length table = length (ab_states b) * length (ab_actions b)"
  shows "sg_resolve_entries b es vk table = Inr table' \<longleftrightarrow>
    list_all (entry_known b vk) es \<and> distinct (map (entry_cell b) es) \<and>
    (\<forall>e \<in> set es. table ! entry_cell b e = SG_INDEX_NONE) \<and>
    table' = foldl (\<lambda>t e. t[entry_cell b e := sg_string_array_find vk (be_value e)]) table es"
  using len
proof (induction es arbitrary: table)
  case Nil
  then show ?case by auto
next
  case (Cons e es)
  show ?case
  proof (cases "entry_known b vk e \<and> table ! entry_cell b e = SG_INDEX_NONE")
    case False
    then show ?thesis by (auto simp: resolve_step entry_known_iff[OF ok])
  next
    case True
    let ?t = "table[entry_cell b e := sg_string_array_find vk (be_value e)]"
    have v: "sg_string_array_find vk (be_value e) \<noteq> SG_INDEX_NONE"
      using True array_ok_find_none[OF ok(2)] by (simp add: entry_known_def)
    have "(\<forall>e' \<in> set es. ?t ! entry_cell b e' = SG_INDEX_NONE) \<longleftrightarrow>
        (\<forall>e' \<in> set es. entry_cell b e' \<noteq> entry_cell b e \<and> table ! entry_cell b e' = SG_INDEX_NONE)"
      using v entry_cell_less[OF ok(1), of vk e] True Cons.prems by (auto simp: nth_list_update)
    moreover have "sg_resolve_entries b (e # es) vk table = sg_resolve_entries b es vk ?t"
      using True by (simp add: resolve_step entry_known_iff[OF ok])
    ultimately show ?thesis using True Cons.IH[of ?t] Cons.prems by (simp add: image_iff) metis
  qed
qed

lemma foldl_update_length [simp]: "length (foldl (\<lambda>t e. t[f e := g e]) table es) = length table"
  by (induction es arbitrary: table) simp_all

lemma foldl_update_other:
  "c \<notin> f ` set es \<Longrightarrow> foldl (\<lambda>t e. t[f e := g e]) table es ! c = table ! c"
  by (induction es arbitrary: table) auto

lemma foldl_update_at:
  "distinct (map f es) \<Longrightarrow> e \<in> set es \<Longrightarrow> f e < length table \<Longrightarrow>
   foldl (\<lambda>t e. t[f e := g e]) table es ! f e = g e"
  by (induction es arbitrary: table) (auto simp: foldl_update_other)

lemma resolve_table:
  assumes ok: "builder_ok b" "array_ok vk capacity"
    and table: "table = replicate (length (ab_states b) * length (ab_actions b)) SG_INDEX_NONE"
    and res: "sg_resolve_entries b es vk table = Inr table'"
  shows "length table' = length table"
    and "e \<in> set es \<Longrightarrow> entry_known b vk e"
    and "e \<in> set es \<Longrightarrow> table' ! entry_cell b e = sg_string_array_find vk (be_value e)"
    and "c < length table \<Longrightarrow> table' ! c \<noteq> SG_INDEX_NONE \<longleftrightarrow> c \<in> entry_cell b ` set es"
proof -
  have len: "length table = length (ab_states b) * length (ab_actions b)" by (simp add: table)
  note r = res[unfolded resolve_Inr_iff[OF ok len]]
  show "length table' = length table" using r by simp
  show known: "entry_known b vk e" if "e \<in> set es" for e using r that by (simp add: list_all_iff)
  show at: "table' ! entry_cell b e = sg_string_array_find vk (be_value e)" if "e \<in> set es" for e
    using r that entry_cell_less[OF ok(1) known[OF that]]
      foldl_update_at[of "entry_cell b" es e table "\<lambda>e. sg_string_array_find vk (be_value e)"]
    by (simp add: len)
  show "table' ! c \<noteq> SG_INDEX_NONE \<longleftrightarrow> c \<in> entry_cell b ` set es" if "c < length table"
  proof (cases "c \<in> entry_cell b ` set es")
    case True
    then obtain e where e: "e \<in> set es" "c = entry_cell b e" by blast
    have "sg_string_array_find vk (be_value e) \<noteq> SG_INDEX_NONE"
      using known[OF e(1)] array_ok_find_none[OF ok(2)] by (simp add: entry_known_def)
    with True e at[OF e(1)] show ?thesis by simp
  next
    case False
    with r that show ?thesis by (simp add: foldl_update_other table)
  qed
qed

section \<open>What build promises\<close>

lemma build_Inr:
  assumes "sg_automaton_builder_build (Ref b) g = Inr A"
  obtains ts os where
    "ab_states b \<noteq> []" "ab_actions b \<noteq> []" "ab_outputs b \<noteq> []"
    "length (ab_states b) * length (ab_actions b) \<le> SIZE_MAX"
    "sg_resolve_entries b (ab_transitions b) (ab_states b)
       (replicate (length (ab_states b) * length (ab_actions b)) SG_INDEX_NONE) = Inr ts"
    "sg_resolve_entries b (ab_observations b) (ab_outputs b)
       (replicate (length (ab_states b) * length (ab_actions b)) SG_INDEX_NONE) = Inr os"
    "\<forall>c < length (ab_states b) * length (ab_actions b). ts ! c \<noteq> SG_INDEX_NONE \<and> os ! c \<noteq> SG_INDEX_NONE"
    "A = \<lparr>au_generation = g, au_state_count = length (ab_states b),
          au_action_count = length (ab_actions b), au_output_count = length (ab_outputs b),
          au_state_keys = ab_states b, au_action_keys = ab_actions b, au_output_keys = ab_outputs b,
          au_transitions = ts, au_observations = os\<rparr>"
  using assms
  by (auto simp: sg_automaton_builder_build_def sg_automaton_allocate_def Let_def list_ex_iff
      sg_size_multiply_Some split: if_splits option.splits)

lemma table_values:
  assumes ok: "builder_ok b" "array_ok vk capacity"
    and res: "sg_resolve_entries b es vk
      (replicate (length (ab_states b) * length (ab_actions b)) SG_INDEX_NONE) = Inr ts"
    and total: "\<forall>c < length (ab_states b) * length (ab_actions b). ts ! c \<noteq> SG_INDEX_NONE"
  shows "\<forall>t \<in> set ts. t < length vk"
proof
  note r = resolve_table[OF ok refl res]
  fix t assume "t \<in> set ts"
  then obtain c where c: "c < length ts" "ts ! c = t" by (auto simp: in_set_conv_nth)
  then obtain e where "e \<in> set es" "c = entry_cell b e" using r(1,4) total by auto
  with c r(2,3) show "t < length vk"
    using array_ok_find_less(1)[OF ok(2)] by (metis entry_known_def)
qed

lemma build_ok_wf:
  assumes ok: "builder_ok b" and build: "sg_automaton_builder_build (Ref b) g = Inr A"
  shows "wf_automaton A"
proof -
  have arrays: "array_ok (ab_states b) (ab_state_capacity b)"
      "array_ok (ab_actions b) (ab_action_capacity b)"
      "array_ok (ab_outputs b) (ab_output_capacity b)"
    using ok by (auto simp: builder_ok_def)
  have sizes: "keys \<noteq> [] \<Longrightarrow> array_ok keys c \<Longrightarrow> size_ok (length keys)" for keys c
    by (auto simp: array_ok_def size_ok_def)
  from build show ?thesis
  proof (rule build_Inr)
    fix ts os
    assume ne: "ab_states b \<noteq> []" "ab_actions b \<noteq> []" "ab_outputs b \<noteq> []"
      and le: "length (ab_states b) * length (ab_actions b) \<le> SIZE_MAX"
      and ts: "sg_resolve_entries b (ab_transitions b) (ab_states b)
        (replicate (length (ab_states b) * length (ab_actions b)) SG_INDEX_NONE) = Inr ts"
      and os: "sg_resolve_entries b (ab_observations b) (ab_outputs b)
        (replicate (length (ab_states b) * length (ab_actions b)) SG_INDEX_NONE) = Inr os"
      and total: "\<forall>c < length (ab_states b) * length (ab_actions b).
        ts ! c \<noteq> SG_INDEX_NONE \<and> os ! c \<noteq> SG_INDEX_NONE"
      and A: "A = \<lparr>au_generation = g, au_state_count = length (ab_states b),
        au_action_count = length (ab_actions b), au_output_count = length (ab_outputs b),
        au_state_keys = ab_states b, au_action_keys = ab_actions b, au_output_keys = ab_outputs b,
        au_transitions = ts, au_observations = os\<rparr>"
    show "wf_automaton A"
      using ne le sizes arrays table_values[OF ok arrays(1) ts] table_values[OF ok arrays(3) os]
        resolve_table(1)[OF ok arrays(1) refl ts] resolve_table(1)[OF ok arrays(3) refl os] total
      by (auto simp: A wf_automaton_def array_ok_def)
  qed
qed

lemma table_entry:
  assumes ok: "builder_ok b" "array_ok vk capacity"
    and res: "sg_resolve_entries b es vk
      (replicate (length (ab_states b) * length (ab_actions b)) SG_INDEX_NONE) = Inr ts"
    and total: "\<forall>c < length (ab_states b) * length (ab_actions b). ts ! c \<noteq> SG_INDEX_NONE"
    and s: "s < length (ab_states b)" and a: "a < length (ab_actions b)"
  obtains e where "e \<in> set es" "be_source e = ab_states b ! s" "be_action e = ab_actions b ! a"
    "be_value e = vk ! (ts ! (s * length (ab_actions b) + a))"
proof -
  note r = resolve_table[OF ok refl res]
  have arrays: "array_ok (ab_states b) (ab_state_capacity b)"
      "array_ok (ab_actions b) (ab_action_capacity b)"
    using ok by (auto simp: builder_ok_def)
  let ?c = "s * length (ab_actions b) + a"
  have "?c < length (ab_states b) * length (ab_actions b)" using s a by (rule cell_less)
  then obtain e where e: "e \<in> set es" "?c = entry_cell b e" using r(4) total by auto
  have known: "entry_known b vk e" by (rule r(2)) fact
  then have "s = sg_string_array_find (ab_states b) (be_source e) \<and>
      a = sg_string_array_find (ab_actions b) (be_action e)"
    using e(2) a arrays by (simp add: entry_cell_def cell_inj entry_known_def array_ok_find_less)
  then show ?thesis
    using that[OF e(1)] e r(3)[OF e(1)] known arrays ok(2)
    by (simp add: entry_known_def array_ok_find_less)
qed

lemma resolve_complete_iff:
  assumes ok: "builder_ok b" "array_ok vk capacity"
  shows "(\<exists>ts. sg_resolve_entries b es vk
      (replicate (length (ab_states b) * length (ab_actions b)) SG_INDEX_NONE) = Inr ts \<and>
      (\<forall>c < length (ab_states b) * length (ab_actions b). ts ! c \<noteq> SG_INDEX_NONE)) \<longleftrightarrow>
    complete_description b vk es"
    (is "?succeeds \<longleftrightarrow> _")
proof -
  let ?N = "length (ab_states b) * length (ab_actions b)"
  let ?key = "\<lambda>e. (be_source e, be_action e)"
  have distinct: "distinct (map (entry_cell b) es) \<longleftrightarrow> distinct (map ?key es)"
    if "list_all (entry_known b vk) es"
  proof -
    have eq: "entry_cell b e = entry_cell b e' \<longleftrightarrow> ?key e = ?key e'"
      if "e \<in> set es" "e' \<in> set es" for e e'
      using that \<open>list_all (entry_known b vk) es\<close> entry_cell_eq_iff[OF ok(1), of vk e vk e']
      by (simp add: list_all_iff)
    have "inj_on (entry_cell b) (set es) \<longleftrightarrow> inj_on ?key (set es)"
      unfolding inj_on_def by (simp only: eq cong: ball_cong)
    then show ?thesis by (simp only: distinct_map)
  qed
  show ?thesis
  proof
    assume ?succeeds
    then obtain ts where ts: "sg_resolve_entries b es vk (replicate ?N SG_INDEX_NONE) = Inr ts"
      and total: "\<forall>c < ?N. ts ! c \<noteq> SG_INDEX_NONE" by blast
    have known: "list_all (entry_known b vk) es"
      using resolve_table(2)[OF ok refl ts] by (simp add: list_all_iff)
    moreover have "distinct (map (entry_cell b) es)"
      using ts resolve_Inr_iff[OF ok] by simp
    moreover have "list_ex (\<lambda>e. be_source e = s \<and> be_action e = a) es"
      if sa: "s \<in> set (ab_states b)" "a \<in> set (ab_actions b)" for s a
    proof -
      from sa obtain i j where "i < length (ab_states b)" "j < length (ab_actions b)"
        "s = ab_states b ! i" "a = ab_actions b ! j" by (auto simp: in_set_conv_nth)
      then show ?thesis
        using table_entry[OF ok ts total, of i j] by (auto simp: list_ex_iff)
    qed
    ultimately show "complete_description b vk es"
      using distinct by (simp add: complete_description_def list_all_iff)
  next
    assume c: "complete_description b vk es"
    then have known: "list_all (entry_known b vk) es" by (simp add: complete_description_def)
    have "\<forall>e \<in> set es. replicate ?N SG_INDEX_NONE ! entry_cell b e = SG_INDEX_NONE"
      using known entry_cell_less[OF ok(1)] by (auto simp: list_all_iff)
    then obtain ts where ts: "sg_resolve_entries b es vk (replicate ?N SG_INDEX_NONE) = Inr ts"
      using resolve_Inr_iff[OF ok] known distinct[OF known] c
      by (auto simp: complete_description_def)
    have "ts ! c' \<noteq> SG_INDEX_NONE" if "c' < ?N" for c'
    proof -
      from that obtain s a where sa: "s < length (ab_states b)" "a < length (ab_actions b)"
        "c' = s * length (ab_actions b) + a" by (rule cell_cases)
      have "\<forall>s \<in> set (ab_states b). \<forall>a \<in> set (ab_actions b).
          \<exists>e \<in> set es. be_source e = s \<and> be_action e = a"
        using c by (simp add: complete_description_def list_all_iff list_ex_iff)
      with sa obtain e where e: "e \<in> set es" "be_source e = ab_states b ! s"
          "be_action e = ab_actions b ! a"
        by (meson nth_mem)
      have "entry_cell b e = c'"
        using ok(1) sa e by (auto simp: entry_cell_def builder_ok_def array_ok_find_nth)
      then show ?thesis using resolve_table(4)[OF ok refl ts, of c'] that e(1) by auto
    qed
    with ts show ?succeeds by blast
  qed
qed

text \<open>C9. A build that succeeds yields a well-formed automaton of the requested generation with the
  builder's keys, whose tables are exactly the description: every cell is backed by an added entry
  naming the same three keys, and every added entry is the content of its cell.\<close>

theorem build_tables:
  assumes ok: "builder_ok b" and build: "sg_automaton_builder_build (Ref b) g = Inr A"
  shows "wf_automaton A \<and> au_generation A = g \<and> au_state_keys A = ab_states b \<and>
    au_action_keys A = ab_actions b \<and> au_output_keys A = ab_outputs b \<and>
    (\<forall>s < au_state_count A. \<forall>a < au_action_count A.
       (\<exists>e \<in> set (ab_transitions b). be_source e = ab_states b ! s \<and> be_action e = ab_actions b ! a \<and>
          be_value e = ab_states b ! sg_automaton_transition (Ref A) s a) \<and>
       (\<exists>e \<in> set (ab_observations b). be_source e = ab_states b ! s \<and> be_action e = ab_actions b ! a \<and>
          be_value e = ab_outputs b ! sg_automaton_observation (Ref A) s a)) \<and>
    (\<forall>e \<in> set (ab_transitions b).
       sg_automaton_transition (Ref A) (sg_string_array_find (ab_states b) (be_source e))
         (sg_string_array_find (ab_actions b) (be_action e)) =
       sg_string_array_find (ab_states b) (be_value e)) \<and>
    (\<forall>e \<in> set (ab_observations b).
       sg_automaton_observation (Ref A) (sg_string_array_find (ab_states b) (be_source e))
         (sg_string_array_find (ab_actions b) (be_action e)) =
       sg_string_array_find (ab_outputs b) (be_value e))"
  using build
proof (rule build_Inr)
  fix ts os
  let ?N = "length (ab_states b) * length (ab_actions b)"
  have arrays: "array_ok (ab_states b) (ab_state_capacity b)"
      "array_ok (ab_actions b) (ab_action_capacity b)"
      "array_ok (ab_outputs b) (ab_output_capacity b)"
    using ok by (auto simp: builder_ok_def)
  assume ts: "sg_resolve_entries b (ab_transitions b) (ab_states b) (replicate ?N SG_INDEX_NONE) = Inr ts"
    and os: "sg_resolve_entries b (ab_observations b) (ab_outputs b) (replicate ?N SG_INDEX_NONE) = Inr os"
    and total: "\<forall>c < ?N. ts ! c \<noteq> SG_INDEX_NONE \<and> os ! c \<noteq> SG_INDEX_NONE"
    and A: "A = \<lparr>au_generation = g, au_state_count = length (ab_states b),
        au_action_count = length (ab_actions b), au_output_count = length (ab_outputs b),
        au_state_keys = ab_states b, au_action_keys = ab_actions b, au_output_keys = ab_outputs b,
        au_transitions = ts, au_observations = os\<rparr>"
  have T: "\<exists>e \<in> set (ab_transitions b). be_source e = ab_states b ! s \<and> be_action e = ab_actions b ! a \<and>
      be_value e = ab_states b ! (ts ! (s * length (ab_actions b) + a))"
    if "s < length (ab_states b)" "a < length (ab_actions b)" for s a
    using table_entry[OF ok arrays(1) ts _ that] total by blast
  have O: "\<exists>e \<in> set (ab_observations b). be_source e = ab_states b ! s \<and> be_action e = ab_actions b ! a \<and>
      be_value e = ab_outputs b ! (os ! (s * length (ab_actions b) + a))"
    if "s < length (ab_states b)" "a < length (ab_actions b)" for s a
    using table_entry[OF ok arrays(3) os _ that] total by blast
  have find: "sg_string_array_find (ab_states b) (be_source e) < length (ab_states b)"
      "sg_string_array_find (ab_actions b) (be_action e) < length (ab_actions b)"
    if "entry_known b vk e" for e vk
    using that arrays by (auto simp: entry_known_def array_ok_find_less)
  note rt = resolve_table[OF ok arrays(1) refl ts] and ro = resolve_table[OF ok arrays(3) refl os]
  show ?thesis
    using build_ok_wf[OF ok build] T O find[OF rt(2)] find[OF ro(2)] rt(3) ro(3)
    by (auto simp: A sg_automaton_transition_def sg_automaton_observation_def entry_cell_def
        simp flip: not_less)
qed

text \<open>C17. Build succeeds exactly when the three key sets are non-empty, the table size fits and both
  entry lists are complete deterministic descriptions.\<close>

theorem build_succeeds_iff:
  assumes ok: "builder_ok b"
  shows "(\<exists>A. sg_automaton_builder_build (Ref b) g = Inr A) \<longleftrightarrow>
    ab_states b \<noteq> [] \<and> ab_actions b \<noteq> [] \<and> ab_outputs b \<noteq> [] \<and>
    length (ab_states b) * length (ab_actions b) \<le> SIZE_MAX \<and>
    complete_description b (ab_states b) (ab_transitions b) \<and>
    complete_description b (ab_outputs b) (ab_observations b)"
proof -
  let ?N = "length (ab_states b) * length (ab_actions b)"
  let ?t0 = "replicate ?N SG_INDEX_NONE"
  have arrays: "array_ok (ab_states b) (ab_state_capacity b)"
      "array_ok (ab_outputs b) (ab_output_capacity b)"
    using ok by (auto simp: builder_ok_def)
  show ?thesis
    unfolding resolve_complete_iff[OF ok arrays(1), symmetric]
      resolve_complete_iff[OF ok arrays(2), symmetric]
  proof (intro iffI; elim exE conjE)
    fix A assume "sg_automaton_builder_build (Ref b) g = Inr A"
    then show "ab_states b \<noteq> [] \<and> ab_actions b \<noteq> [] \<and> ab_outputs b \<noteq> [] \<and> ?N \<le> SIZE_MAX \<and>
      (\<exists>ts. sg_resolve_entries b (ab_transitions b) (ab_states b) ?t0 = Inr ts \<and>
        (\<forall>c<?N. ts ! c \<noteq> SG_INDEX_NONE)) \<and>
      (\<exists>ts. sg_resolve_entries b (ab_observations b) (ab_outputs b) ?t0 = Inr ts \<and>
        (\<forall>c<?N. ts ! c \<noteq> SG_INDEX_NONE))"
      by (rule build_Inr) blast
  next
    fix ts os
    assume le: "?N \<le> SIZE_MAX"
    then have "sg_size_multiply (length (ab_states b)) (length (ab_actions b)) = Some ?N"
      by (simp add: sg_size_multiply_Some)
    moreover assume "ab_states b \<noteq> []" "ab_actions b \<noteq> []" "ab_outputs b \<noteq> []"
      "sg_resolve_entries b (ab_transitions b) (ab_states b) ?t0 = Inr ts"
      "\<forall>c<?N. ts ! c \<noteq> SG_INDEX_NONE"
      "sg_resolve_entries b (ab_observations b) (ab_outputs b) ?t0 = Inr os"
      "\<forall>c<?N. os ! c \<noteq> SG_INDEX_NONE"
    ultimately show "\<exists>A. sg_automaton_builder_build (Ref b) g = Inr A"
      by (simp add: sg_automaton_builder_build_def sg_automaton_allocate_def Let_def list_ex_iff)
  qed
qed

section \<open>A concrete description\<close>

definition demo_entry :: "string \<Rightarrow> string \<Rightarrow> string \<Rightarrow> sg_builder_entry" where
  "demo_entry s a v = \<lparr>be_source = s, be_action = a, be_value = v\<rparr>"

definition demo_builder :: sg_automaton_builder where
  "demo_builder =
     \<lparr>ab_states = [''s0'', ''s1'', ''s2''], ab_state_capacity = 8,
      ab_actions = [''go'', ''join''], ab_action_capacity = 8,
      ab_outputs = [''lo'', ''hi''], ab_output_capacity = 8,
      ab_transitions = [demo_entry ''s0'' ''go'' ''s1'', demo_entry ''s1'' ''go'' ''s2'',
        demo_entry ''s2'' ''go'' ''s0'', demo_entry ''s0'' ''join'' ''s0'',
        demo_entry ''s1'' ''join'' ''s0'', demo_entry ''s2'' ''join'' ''s2''],
      ab_transition_capacity = 16,
      ab_observations = [demo_entry ''s0'' ''go'' ''lo'', demo_entry ''s1'' ''go'' ''lo'',
        demo_entry ''s2'' ''go'' ''hi'', demo_entry ''s0'' ''join'' ''lo'',
        demo_entry ''s1'' ''join'' ''lo'', demo_entry ''s2'' ''join'' ''lo''],
      ab_observation_capacity = 16\<rparr>"

lemma demo_builder_ok: "builder_ok demo_builder"
  by code_simp

lemma demo_build: "sg_automaton_builder_build (Ref demo_builder) 7 = Inr demo_automaton"
  by code_simp

theorem build_tables_witness: "wf_automaton demo_automaton \<and> au_generation demo_automaton = 7"
  using build_tables[OF demo_builder_ok demo_build] by blast

theorem build_succeeds_iff_witness:
  "complete_description demo_builder (ab_states demo_builder) (ab_transitions demo_builder)"
  using build_succeeds_iff[OF demo_builder_ok, of 7] demo_build by blast

end
