(* ===== verification/Sync_Result.thy ===== *)
theory Sync_Result
  imports Sync_Automaton
begin

text \<open>
  The public result types of include/sync_kgraph/sync.h and their names, the growing action word
  of src/sync.c with its capacity, and the clock the planners read.
\<close>

section \<open>Outcomes, methods, decisions\<close>

datatype sg_plan_outcome =
    SG_OUTCOME_PLAN
  | SG_OUTCOME_ALREADY_SATISFIED
  | SG_OUTCOME_NO_PLAN
  | SG_OUTCOME_RESOURCE_BOUND

datatype sg_plan_method =
    SG_METHOD_NONE
  | SG_METHOD_PAIR_MERGE
  | SG_METHOD_PAIR_RESOLUTION
  | SG_METHOD_PARTITION_BFS
  | SG_METHOD_SUBSET_BFS
  | SG_METHOD_BELIEF_BFS

datatype sg_monitor_decision =
    SG_MONITOR_CONTINUE
  | SG_MONITOR_REPLAN
  | SG_MONITOR_MODEL_VIOLATION
  | SG_MONITOR_STALE_GENERATION
  | SG_MONITOR_WAIT

fun sg_status_name :: "sg_status \<Rightarrow> string" where
  "sg_status_name SG_OK = ''OK''"
| "sg_status_name SG_ERR_ALLOC = ''ALLOC''"
| "sg_status_name SG_ERR_INVALID_ARGUMENT = ''INVALID_ARGUMENT''"
| "sg_status_name SG_ERR_DUPLICATE = ''DUPLICATE''"
| "sg_status_name SG_ERR_NOT_FOUND = ''NOT_FOUND''"
| "sg_status_name SG_ERR_INCOMPLETE = ''INCOMPLETE''"
| "sg_status_name SG_ERR_NONDETERMINISTIC = ''NONDETERMINISTIC''"
| "sg_status_name SG_ERR_INVALID_MODEL = ''INVALID_MODEL''"
| "sg_status_name SG_ERR_RESOURCE_BOUND = ''RESOURCE_BOUND''"
| "sg_status_name SG_ERR_STALE_GENERATION = ''STALE_GENERATION''"

fun sg_plan_outcome_name :: "sg_plan_outcome \<Rightarrow> string" where
  "sg_plan_outcome_name SG_OUTCOME_PLAN = ''PLAN''"
| "sg_plan_outcome_name SG_OUTCOME_ALREADY_SATISFIED = ''ALREADY_SATISFIED''"
| "sg_plan_outcome_name SG_OUTCOME_NO_PLAN = ''NO_PLAN''"
| "sg_plan_outcome_name SG_OUTCOME_RESOURCE_BOUND = ''RESOURCE_BOUND''"

fun sg_plan_method_name :: "sg_plan_method \<Rightarrow> string" where
  "sg_plan_method_name SG_METHOD_NONE = ''NONE''"
| "sg_plan_method_name SG_METHOD_PAIR_MERGE = ''PAIR_MERGE''"
| "sg_plan_method_name SG_METHOD_PAIR_RESOLUTION = ''PAIR_RESOLUTION''"
| "sg_plan_method_name SG_METHOD_PARTITION_BFS = ''PARTITION_BFS''"
| "sg_plan_method_name SG_METHOD_SUBSET_BFS = ''SUBSET_BFS''"
| "sg_plan_method_name SG_METHOD_BELIEF_BFS = ''BELIEF_BFS''"

fun sg_monitor_decision_name :: "sg_monitor_decision \<Rightarrow> string" where
  "sg_monitor_decision_name SG_MONITOR_CONTINUE = ''CONTINUE''"
| "sg_monitor_decision_name SG_MONITOR_REPLAN = ''REPLAN''"
| "sg_monitor_decision_name SG_MONITOR_MODEL_VIOLATION = ''MODEL_VIOLATION''"
| "sg_monitor_decision_name SG_MONITOR_STALE_GENERATION = ''STALE_GENERATION''"
| "sg_monitor_decision_name SG_MONITOR_WAIT = ''WAIT''"

lemma names_injective:
  "inj sg_status_name" "inj sg_plan_outcome_name" "inj sg_plan_method_name"
  "inj sg_monitor_decision_name"
proof -
  show "inj sg_status_name" by (rule injI) (case_tac x; case_tac y; simp)
  show "inj sg_plan_outcome_name" by (rule injI) (case_tac x; case_tac y; simp)
  show "inj sg_plan_method_name" by (rule injI) (case_tac x; case_tac y; simp)
  show "inj sg_monitor_decision_name" by (rule injI) (case_tac x; case_tac y; simp)
qed

section \<open>Words of actions\<close>

text \<open>
  \<open>wd_actions\<close> is the used part of the array, so \<open>length\<close> of the code is its length. The planners
  use the list alone; \<open>sg_word_append_refines\<close> and \<open>sg_word_extend_refines\<close> justify it for words
  whose byte size fits, which every allocated word satisfies.
\<close>

record sg_word =
  wd_actions :: "nat list"
  wd_capacity :: nat

definition sg_word_init :: sg_word where
  "sg_word_init = \<lparr>wd_actions = [], wd_capacity = 0\<rparr>"

definition sg_word_reserve :: "sg_word \<Rightarrow> nat \<Rightarrow> sg_word res" where
  "sg_word_reserve word capacity =
     (if capacity \<le> wd_capacity word then Inr word
      else (case sg_size_multiply capacity 8 of
              None \<Rightarrow> Inl SG_ERR_ALLOC
            | Some bytes \<Rightarrow> Inr (word\<lparr>wd_capacity := capacity\<rparr>)))"

definition sg_word_append :: "sg_word ptr \<Rightarrow> nat \<Rightarrow> sg_word res" where
  "sg_word_append word action =
     (case word of
        NULL \<Rightarrow> Inl SG_ERR_INVALID_ARGUMENT
      | Ref w \<Rightarrow>
          rbind
            (if length (wd_actions w) = wd_capacity w
             then let capacity = (if wd_capacity w = 0 then 8 else (wd_capacity w * 2) mod 2 ^ 64)
                  in if capacity < wd_capacity w then Inl SG_ERR_ALLOC
                     else sg_word_reserve w capacity
             else Inr w)
            (\<lambda>w'. Inr (w'\<lparr>wd_actions := wd_actions w' @ [action]\<rparr>)))"

definition sg_word_extend :: "sg_word ptr \<Rightarrow> sg_word ptr \<Rightarrow> sg_word res" where
  "sg_word_extend destination source =
     (case (destination, source) of
        (Ref d, Ref s) \<Rightarrow>
          if length (wd_actions s) > SIZE_MAX - length (wd_actions d) then Inl SG_ERR_ALLOC
          else rbind (sg_word_reserve d (length (wd_actions d) + length (wd_actions s)))
                 (\<lambda>d'. Inr (d'\<lparr>wd_actions := wd_actions d' @ wd_actions s\<rparr>))
      | _ \<Rightarrow> Inl SG_ERR_INVALID_ARGUMENT)"

text \<open>The representation invariant: what is used fits, and what is allocated fits in \<open>size_t\<close>.\<close>

definition sg_word_ok :: "sg_word \<Rightarrow> bool" where
  "sg_word_ok w \<longleftrightarrow> length (wd_actions w) \<le> wd_capacity w \<and> wd_capacity w \<le> SIZE_MAX div 8"

text \<open>
  The in-place reversal the searches end with: two cursors, the upper one decremented before
  the swap.
\<close>

function sg_reverse_loop :: "nat list \<Rightarrow> nat \<Rightarrow> nat \<Rightarrow> nat list" where
  "sg_reverse_loop actions first second =
     (if first < second \<and> second \<noteq> 0
      then let second' = second - 1
           in sg_reverse_loop
                (actions[first := actions ! second', second' := actions ! first])
                (Suc first) second'
      else actions)"
  by pat_completeness auto
termination
  by (relation "measure (\<lambda>(actions, first, second). second)") auto

declare sg_reverse_loop.simps [simp del]

section \<open>Plan results\<close>

record sg_plan_result =
  pr_outcome :: sg_plan_outcome
  pr_method :: sg_plan_method
  pr_word :: "nat list"
  pr_final_state :: nat
  pr_final_support_size :: nat
  pr_best_support_size :: nat
  pr_worst_support_size :: nat
  pr_branch_count :: nat
  pr_expansions :: nat
  pr_homing :: bool
  pr_generation :: "64 word"
  pr_planning_time_us :: "64 word"

definition sg_plan_result_init :: "sg_automaton \<Rightarrow> sg_plan_result" where
  "sg_plan_result_init automaton =
     \<lparr>pr_outcome = SG_OUTCOME_NO_PLAN, pr_method = SG_METHOD_NONE, pr_word = [],
      pr_final_state = SG_INDEX_NONE, pr_final_support_size = 0, pr_best_support_size = 0,
      pr_worst_support_size = 0, pr_branch_count = 0, pr_expansions = 0, pr_homing = False,
      pr_generation = au_generation automaton, pr_planning_time_us = 0\<rparr>"

text \<open>
  The clock. \<open>clock_gettime\<close> gives seconds and nanoseconds or fails (\<open>None\<close>); the readings at
  the start and the end of a query are arguments of the planners.
\<close>

definition sg_monotonic_time_us :: "(64 word \<times> 64 word) option \<Rightarrow> 64 word" where
  "sg_monotonic_time_us value =
     (case value of
        None \<Rightarrow> 0
      | Some (seconds, nanoseconds) \<Rightarrow>
          if seconds > (- 1) div 1000000 then - 1
          else seconds * 1000000 + nanoseconds div 1000)"

definition sg_elapsed_us :: "64 word \<Rightarrow> 64 word \<Rightarrow> 64 word" where
  "sg_elapsed_us start end_time = (if end_time \<ge> start then end_time - start else 0)"

section \<open>The word refines a list\<close>

lemma sg_word_ok_init [simp]: "sg_word_ok sg_word_init"
  by (simp add: sg_word_ok_def sg_word_init_def)

lemma sg_reverse_loop_length [simp]: "length (sg_reverse_loop xs i j) = length xs"
  by (induction xs i j rule: sg_reverse_loop.induct) (subst sg_reverse_loop.simps, simp add: Let_def)

lemma sg_word_reserve_Inr:
  assumes "sg_word_ok w" "sg_word_reserve w capacity = Inr w'"
  shows "sg_word_ok w'" "wd_actions w' = wd_actions w" "capacity \<le> wd_capacity w'"
  using assms
  by (auto simp: sg_word_reserve_def sg_word_ok_def sg_size_multiply_if SIZE_MAX_def
      split: if_splits)

lemma sg_word_append_Inr:
  assumes "sg_word_ok w" "sg_word_append (Ref w) action = Inr w'"
  shows "sg_word_ok w'" "wd_actions w' = wd_actions w @ [action]"
proof -
  have double: "(wd_capacity w * 2) mod 2 ^ 64 = wd_capacity w * 2"
    using assms(1) by (simp add: sg_word_ok_def SIZE_MAX_def)
  have "sg_word_ok w' \<and> wd_actions w' = wd_actions w @ [action]"
  proof (cases "length (wd_actions w) = wd_capacity w")
    case True
    with assms(2) obtain w'' where
      w'': "sg_word_reserve w (if wd_capacity w = 0 then 8 else wd_capacity w * 2) = Inr w''"
      "w' = w''\<lparr>wd_actions := wd_actions w'' @ [action]\<rparr>"
      by (auto simp: sg_word_append_def double[simplified] Let_def split: if_splits)
    show ?thesis using sg_word_reserve_Inr[OF assms(1) w''(1)] w''(2) True
      by (auto simp: sg_word_ok_def split: if_splits)
  next
    case False
    with assms show ?thesis by (auto simp: sg_word_append_def sg_word_ok_def)
  qed
  then show "sg_word_ok w'" "wd_actions w' = wd_actions w @ [action]" by auto
qed

text \<open>C20. The growing word refines a list: on a well-formed word \<open>sg_word_append\<close> succeeds while
  fewer than 2^59 actions are stored, appends the action at the end and keeps the representation
  invariant (used length within capacity, byte size within \<open>size_t\<close>).\<close>

theorem sg_word_append_refines:
  assumes "sg_word_ok w" and "length (wd_actions w) < 2 ^ 59"
  shows "\<exists>w'. sg_word_append (Ref w) action = Inr w' \<and> sg_word_ok w' \<and>
    wd_actions w' = wd_actions w @ [action]"
proof -
  have "\<exists>w'. sg_word_append (Ref w) action = Inr w'"
    using assms
    by (auto simp: sg_word_append_def sg_word_reserve_def sg_word_ok_def sg_size_multiply_if
        Let_def SIZE_MAX_def)
  then show ?thesis using sg_word_append_Inr[OF assms(1)] by blast
qed

theorem sg_word_append_refines_witness:
  "\<exists>w'. sg_word_append (Ref \<lparr>wd_actions = [4, 5], wd_capacity = 2\<rparr>) 7 = Inr w' \<and> sg_word_ok w' \<and>
    wd_actions w' = [4, 5] @ [7]"
  using sg_word_append_refines[of "\<lparr>wd_actions = [4, 5], wd_capacity = 2\<rparr>" 7]
  by (simp add: sg_word_ok_def SIZE_MAX_def)

lemma sg_word_extend_refines:
  assumes "sg_word_ok d" "sg_word_ok s" "sg_word_extend (Ref d) (Ref s) = Inr d'"
  shows "sg_word_ok d' \<and> wd_actions d' = wd_actions d @ wd_actions s"
proof -
  from assms(3) obtain d'' where
    d'': "sg_word_reserve d (length (wd_actions d) + length (wd_actions s)) = Inr d''"
    "d' = d''\<lparr>wd_actions := wd_actions d'' @ wd_actions s\<rparr>"
    by (auto simp: sg_word_extend_def split: if_splits)
  with sg_word_reserve_Inr[OF assms(1) d''(1)] show ?thesis by (simp add: sg_word_ok_def)
qed

section \<open>Reversal\<close>

lemma sg_reverse_loop_nth:
  "i + j = length xs \<Longrightarrow> k < length xs \<Longrightarrow>
   sg_reverse_loop xs i j ! k = (if i \<le> k \<and> k < j then xs ! (length xs - 1 - k) else xs ! k)"
proof (induction xs i j rule: sg_reverse_loop.induct)
  case (1 xs i j)
  show ?case
  proof (cases "i < j \<and> j \<noteq> 0")
    case False
    then show ?thesis using "1.prems" by (subst sg_reverse_loop.simps) auto
  next
    case True
    let ?ys = "xs[i := xs ! (j - 1), j - 1 := xs ! i]"
    have "sg_reverse_loop xs i j ! k = sg_reverse_loop ?ys (Suc i) (j - 1) ! k"
      using True by (subst sg_reverse_loop.simps) (simp add: Let_def)
    also have "\<dots> = (if Suc i \<le> k \<and> k < j - 1 then ?ys ! (length xs - 1 - k) else ?ys ! k)"
      using "1.IH"[OF True refl] "1.prems" True by simp
    also have "\<dots> = (if i \<le> k \<and> k < j then xs ! (length xs - 1 - k) else xs ! k)"
    proof -
      consider "k < i \<or> j \<le> k" | "k = i" | "k = j - 1" | "i < k" "k < j - 1" using True by linarith
      then show ?thesis
      proof cases
        case 4
        then have "length xs - 1 - k \<noteq> i" "length xs - 1 - k \<noteq> j - 1" "k < j"
          using "1.prems" by linarith+
        with 4 show ?thesis by (simp add: nth_list_update)
      next
        case 2
        then have "length xs - 1 - k = j - 1" using "1.prems" by linarith
        with 2 True "1.prems" show ?thesis by (simp add: nth_list_update)
      next
        case 3
        then have "length xs - 1 - k = i" "i \<le> k" using "1.prems" True by linarith+
        with 3 True "1.prems" show ?thesis by (simp add: nth_list_update)
      qed (use True in \<open>auto simp: nth_list_update\<close>)
    qed
    finally show ?thesis .
  qed
qed

lemma sg_reverse_loop_rev: "sg_reverse_loop xs 0 (length xs) = rev xs"
  by (rule nth_equalityI) (simp_all add: sg_reverse_loop_nth rev_nth)

end
