(* ===== verification/Sync_Search.thy ===== *)
theory Sync_Search
  imports Sync_Result
begin

text \<open>
  The breadth-first searches of src/planner.c share one shape: an array of nodes, each with a
  payload, the index of its parent and the action from it, expanded in order from a head. The node
  record and the reconstruction loop are those of the code; the locale \<open>forward_search\<close> holds what
  the three searches have in common: found words reach their node and are shortest, and an exhausted
  frontier has seen every word.
\<close>

section \<open>Nodes and reconstruction\<close>

record 'p sg_node =
  nd_payload :: 'p
  nd_parent :: nat
  nd_action :: nat

text \<open>The loop that follows the parents to the root, appending the actions, and the reversal.\<close>

definition sg_follow_parents :: "('p, 'z) sg_node_scheme list \<Rightarrow> nat list \<Rightarrow> nat \<Rightarrow> nat list" where
  "sg_follow_parents nodes word cursor =
     fst (while (\<lambda>(word, cursor). nd_parent (nodes ! cursor) \<noteq> SG_INDEX_NONE)
            (\<lambda>(word, cursor). (word @ [nd_action (nodes ! cursor)], nd_parent (nodes ! cursor)))
            (word, cursor))"

definition sg_reverse_word :: "nat list \<Rightarrow> nat list" where
  "sg_reverse_word word = sg_reverse_loop word 0 (length word)"

lemma sg_reverse_word_rev [simp]: "sg_reverse_word word = rev word"
  by (simp add: sg_reverse_word_def sg_reverse_loop_rev)

section \<open>The tree and the frontier\<close>

text \<open>\<open>words ! i\<close> is the word of the path from the root to node \<open>i\<close>.\<close>

definition search_tree ::
  "('p \<Rightarrow> nat \<Rightarrow> 'p) \<Rightarrow> nat set \<Rightarrow> 'p \<Rightarrow> 'p sg_node list \<Rightarrow> nat list list \<Rightarrow> bool" where
  "search_tree step letters root nodes words \<longleftrightarrow>
     nodes \<noteq> [] \<and> length words = length nodes \<and>
     nd_payload (nodes ! 0) = root \<and> nd_parent (nodes ! 0) = SG_INDEX_NONE \<and> words ! 0 = [] \<and>
     (\<forall>i < length nodes. 0 < i \<longrightarrow>
        nd_parent (nodes ! i) < i \<and> nd_parent (nodes ! i) \<noteq> SG_INDEX_NONE \<and>
        nd_action (nodes ! i) \<in> letters \<and>
        words ! i = words ! nd_parent (nodes ! i) @ [nd_action (nodes ! i)] \<and>
        nd_payload (nodes ! i) = step (nd_payload (nodes ! nd_parent (nodes ! i))) (nd_action (nodes ! i)))"

definition payloads :: "'p sg_node list \<Rightarrow> 'p list" where
  "payloads nodes = map nd_payload nodes"

text \<open>The successor of node \<open>i\<close> under \<open>a\<close> is a node, at most one step deeper.\<close>

definition has_successor ::
  "('p \<Rightarrow> nat \<Rightarrow> 'p) \<Rightarrow> 'p sg_node list \<Rightarrow> nat list list \<Rightarrow> nat \<Rightarrow> nat \<Rightarrow> bool" where
  "has_successor step nodes words i a \<longleftrightarrow>
     (\<exists>j < length nodes. nd_payload (nodes ! j) = step (nd_payload (nodes ! i)) a \<and>
        length (words ! j) \<le> Suc (length (words ! i)))"

text \<open>The nodes before the head are expanded, the head for the letters in \<open>handled\<close>.\<close>

definition search_front ::
  "('p \<Rightarrow> nat \<Rightarrow> 'p) \<Rightarrow> nat set \<Rightarrow> ('p \<Rightarrow> bool) \<Rightarrow> 'p sg_node list \<Rightarrow> nat list list \<Rightarrow> nat \<Rightarrow> nat set \<Rightarrow> bool" where
  "search_front step letters goal nodes words head handled \<longleftrightarrow>
     distinct (payloads nodes) \<and> sorted (map length words) \<and> head \<le> length nodes \<and>
     (head < length nodes \<longrightarrow> (\<forall>i < length nodes. length (words ! i) \<le> Suc (length (words ! head)))) \<and>
     (\<forall>p \<in> set (payloads nodes). \<not> goal p) \<and>
     (\<forall>i < length nodes. \<forall>a \<in> letters. i < head \<or> i = head \<and> a \<in> handled \<longrightarrow>
        has_successor step nodes words i a)"

lemma search_tree_root:
  "search_tree step letters p [\<lparr>nd_payload = p, nd_parent = SG_INDEX_NONE, nd_action = a\<rparr>] [[]]"
  by (simp add: search_tree_def)

lemma search_front_root:
  "\<not> goal p \<Longrightarrow>
   search_front step letters goal [\<lparr>nd_payload = p, nd_parent = SG_INDEX_NONE, nd_action = a\<rparr>] [[]] 0 {}"
  by (simp add: search_front_def payloads_def)

lemma search_tree_word:
  assumes T: "search_tree step letters root nodes words"
  shows "i < length nodes \<Longrightarrow> set (words ! i) \<subseteq> letters \<and> nd_payload (nodes ! i) = foldl step root (words ! i)"
proof (induction i rule: less_induct)
  case (less i)
  show ?case
  proof (cases "i = 0")
    case True
    with T show ?thesis by (simp add: search_tree_def)
  next
    case False
    let ?j = "nd_parent (nodes ! i)" and ?a = "nd_action (nodes ! i)"
    have j: "?j < i" "?a \<in> letters" and w: "words ! i = words ! ?j @ [?a]"
      and p: "nd_payload (nodes ! i) = step (nd_payload (nodes ! ?j)) ?a"
      using T False less.prems by (simp_all add: search_tree_def)
    have "set (words ! ?j) \<subseteq> letters \<and> nd_payload (nodes ! ?j) = foldl step root (words ! ?j)"
      using less.IH[OF j(1)] j(1) less.prems by simp
    with j(2) p show ?thesis unfolding w by simp
  qed
qed

lemma search_tree_follow:
  assumes T: "search_tree step letters root nodes words"
  shows "i < length nodes \<Longrightarrow> sg_follow_parents nodes word i = word @ rev (words ! i)"
proof (induction i arbitrary: word rule: less_induct)
  case (less i)
  show ?case
  proof (cases "i = 0")
    case True
    with T show ?thesis by (simp add: search_tree_def sg_follow_parents_def while_unfold)
  next
    case False
    let ?j = "nd_parent (nodes ! i)" and ?a = "nd_action (nodes ! i)"
    have j: "?j < i" "?j \<noteq> SG_INDEX_NONE" and w: "words ! i = words ! ?j @ [?a]"
      using T False less.prems by (simp_all add: search_tree_def)
    have "sg_follow_parents nodes word i = sg_follow_parents nodes (word @ [?a]) ?j"
      unfolding sg_follow_parents_def using j(2) by (subst while_unfold) simp
    also have "\<dots> = (word @ [?a]) @ rev (words ! ?j)"
      using less.IH[OF j(1)] j(1) less.prems by simp
    finally show ?thesis unfolding w by simp
  qed
qed

lemma search_frontD:
  assumes "search_front step letters goal nodes words head handled"
  shows "distinct (payloads nodes)" "sorted (map length words)" "head \<le> length nodes"
    "head < length nodes \<Longrightarrow> i < length nodes \<Longrightarrow> length (words ! i) \<le> Suc (length (words ! head))"
    "p \<in> set (payloads nodes) \<Longrightarrow> \<not> goal p"
    "i < length nodes \<Longrightarrow> a \<in> letters \<Longrightarrow> i < head \<or> i = head \<and> a \<in> handled \<Longrightarrow>
       has_successor step nodes words i a"
  using assms unfolding search_front_def by blast+

text \<open>Adding the successor of the head.\<close>

lemma search_tree_add:
  assumes T: "search_tree step letters root nodes words"
    and "head < length nodes" "head \<noteq> SG_INDEX_NONE" "a \<in> letters" "p = step (nd_payload (nodes ! head)) a"
  shows "search_tree step letters root
    (nodes @ [\<lparr>nd_payload = p, nd_parent = head, nd_action = a\<rparr>]) (words @ [words ! head @ [a]])"
  using assms by (auto simp: search_tree_def nth_append less_Suc_eq)

lemma sorted_snoc_le: "sorted xs \<Longrightarrow> \<forall>i < length xs. xs ! i \<le> y \<Longrightarrow> sorted (xs @ [y :: nat])"
  by (auto simp: sorted_append in_set_conv_nth)

lemma has_successor_mono:
  "has_successor step nodes words i a \<Longrightarrow> i < length nodes \<Longrightarrow> length words = length nodes \<Longrightarrow>
   has_successor step (nodes @ [n]) (words @ [w]) i a"
  unfolding has_successor_def by (force simp: nth_append)

lemma search_front_add:
  assumes T: "search_tree step letters root nodes words"
    and F: "search_front step letters goal nodes words head handled"
    and h: "head < length nodes" and p: "p = step (nd_payload (nodes ! head)) a"
    and new: "p \<notin> set (payloads nodes)" "\<not> goal p"
  shows "search_front step letters goal
    (nodes @ [\<lparr>nd_payload = p, nd_parent = head, nd_action = a\<rparr>]) (words @ [words ! head @ [a]])
    head (insert a handled)"
proof -
  let ?n = "\<lparr>nd_payload = p, nd_parent = head, nd_action = a\<rparr>" and ?w = "words ! head @ [a]"
  have len: "length words = length nodes" using T by (simp add: search_tree_def)
  have deep: "\<forall>i < length nodes. length (words ! i) \<le> Suc (length (words ! head))"
    using F h by (simp add: search_front_def)
  have "sorted (map length (words @ [?w]))"
    using F deep len by (auto simp: search_front_def intro!: sorted_snoc_le)
  moreover have "has_successor step (nodes @ [?n]) (words @ [?w]) i b"
    if "i < length (nodes @ [?n])" "b \<in> letters" "i < head \<or> i = head \<and> b \<in> insert a handled" for i b
  proof (cases "i = head \<and> b = a")
    case True
    with h p len show ?thesis
      unfolding has_successor_def by (intro exI[of _ "length nodes"]) (simp add: nth_append)
  next
    case False
    with that h have "i < length nodes" "i < head \<or> i = head \<and> b \<in> handled" by auto
    with search_frontD(6)[OF F] that(2) have "has_successor step nodes words i b" by blast
    with \<open>i < length nodes\<close> len show ?thesis by (intro has_successor_mono)
  qed
  moreover have "\<forall>i < length (nodes @ [?n]). length ((words @ [?w]) ! i) \<le> Suc (length ((words @ [?w]) ! head))"
    using deep len h by (auto simp: nth_append less_Suc_eq)
  ultimately show ?thesis
    using F new h by (auto simp: search_front_def payloads_def)
qed

text \<open>A successor that is known already is skipped.\<close>

lemma search_front_skip:
  assumes F: "search_front step letters goal nodes words head handled" and h: "head < length nodes"
    and known: "step (nd_payload (nodes ! head)) a \<in> set (payloads nodes)"
  shows "search_front step letters goal nodes words head (insert a handled)"
proof -
  obtain j where j: "j < length nodes" "nd_payload (nodes ! j) = step (nd_payload (nodes ! head)) a"
    using known by (auto simp: payloads_def in_set_conv_nth)
  then have "has_successor step nodes words head a"
    using F h by (auto simp: has_successor_def search_front_def)
  with F show ?thesis by (auto simp: search_front_def)
qed

lemma search_front_advance:
  assumes T: "search_tree step letters root nodes words"
    and F: "search_front step letters goal nodes words head letters" and h: "head < length nodes"
  shows "search_front step letters goal nodes words (Suc head) {}"
proof -
  have len: "length words = length nodes" using T by (simp add: search_tree_def)
  have deep: "length (words ! i) \<le> Suc (length (words ! Suc head))" if "Suc head < length nodes" "i < length nodes" for i
  proof -
    have "length (words ! head) \<le> length (words ! Suc head)"
      using F that len sorted_nth_mono[of "map length words" head "Suc head"] by (simp add: search_front_def)
    moreover have "length (words ! i) \<le> Suc (length (words ! head))" using F h that by (simp add: search_front_def)
    ultimately show ?thesis by linarith
  qed
  with F h show ?thesis by (auto simp: search_front_def less_Suc_eq)
qed

text \<open>Every word shorter than the head's, and every word once the frontier is empty, leads to a node.\<close>

lemma search_front_reaches:
  assumes T: "search_tree step letters root nodes words"
    and F: "search_front step letters goal nodes words head handled"
    and w: "set w \<subseteq> letters" "head < length nodes \<Longrightarrow> length w \<le> length (words ! head)"
  shows "\<exists>j < length nodes. nd_payload (nodes ! j) = foldl step root w \<and> length (words ! j) \<le> length w"
  using w
proof (induction w rule: rev_induct)
  case Nil
  with T show ?case by (intro exI[of _ 0]) (simp add: search_tree_def)
next
  case (snoc a w)
  have len: "length words = length nodes" using T by (simp add: search_tree_def)
  from snoc.IH snoc.prems obtain j where j: "j < length nodes" "nd_payload (nodes ! j) = foldl step root w"
    "length (words ! j) \<le> length w" by force
  have "j < head"
  proof (rule ccontr)
    assume n: "\<not> j < head"
    then have "head < length nodes" using j(1) by simp
    with snoc.prems(2) have "length w < length (words ! head)" by simp
    moreover have "length (words ! head) \<le> length (words ! j)"
      using F n j(1) len sorted_nth_mono[of "map length words" head j] by (simp add: search_front_def)
    ultimately show False using j(3) by linarith
  qed
  then have "has_successor step nodes words j a" using search_frontD(6)[OF F j(1)] snoc.prems(1) by simp
  then obtain k where "k < length nodes" "nd_payload (nodes ! k) = step (nd_payload (nodes ! j)) a"
    "length (words ! k) \<le> Suc (length (words ! j))" by (auto simp: has_successor_def)
  with j show ?case by (intro exI[of _ k]) simp
qed

lemma search_front_no_goal:
  assumes "search_tree step letters root nodes words"
    and F: "search_front step letters goal nodes words head handled"
    and "set w \<subseteq> letters" "head < length nodes \<Longrightarrow> length w \<le> length (words ! head)"
  shows "\<not> goal (foldl step root w)"
proof -
  from search_front_reaches[OF assms] obtain j where "j < length nodes" "nd_payload (nodes ! j) = foldl step root w"
    by blast
  then have "foldl step root w \<in> set (payloads nodes)" by (auto simp: payloads_def intro!: image_eqI[of _ _ "nodes ! j"])
  with F show ?thesis by (simp add: search_front_def)
qed

text \<open>A word that leads from the head to a goal in one step is a shortest one.\<close>

definition shortest_goal_word ::
  "('p \<Rightarrow> nat \<Rightarrow> 'p) \<Rightarrow> nat set \<Rightarrow> ('p \<Rightarrow> bool) \<Rightarrow> 'p \<Rightarrow> nat list \<Rightarrow> bool" where
  "shortest_goal_word step letters goal root w \<longleftrightarrow>
     set w \<subseteq> letters \<and> goal (foldl step root w) \<and>
     (\<forall>v. set v \<subseteq> letters \<and> goal (foldl step root v) \<longrightarrow> length w \<le> length v)"

lemma search_goal_shortest:
  assumes T: "search_tree step letters root nodes words"
    and F: "search_front step letters goal nodes words head handled" and h: "head < length nodes"
    and a: "a \<in> letters" "goal (step (nd_payload (nodes ! head)) a)"
  shows "shortest_goal_word step letters goal root (words ! head @ [a])"
proof -
  have "\<not> goal (foldl step root v)" if "set v \<subseteq> letters" "\<not> Suc (length (words ! head)) \<le> length v" for v
    using search_front_no_goal[OF T F that(1)] that(2) by simp
  then show ?thesis
    using search_tree_word[OF T h] a by (auto simp: shortest_goal_word_def)
qed

text \<open>What a search from \<open>root\<close> with \<open>used\<close> of \<open>budget\<close> expansions may report.\<close>

definition search_outcome ::
  "('p \<Rightarrow> nat \<Rightarrow> 'p) \<Rightarrow> nat set \<Rightarrow> ('p \<Rightarrow> bool) \<Rightarrow> 'p \<Rightarrow> nat \<Rightarrow> nat \<Rightarrow> nat \<Rightarrow>
     sg_plan_outcome \<Rightarrow> nat list \<Rightarrow> nat \<Rightarrow> bool" where
  "search_outcome step letters goal root bound used budget outcome word expansions \<longleftrightarrow>
     used \<le> expansions \<and> expansions \<le> budget \<and>
     (case outcome of
        SG_OUTCOME_PLAN \<Rightarrow> shortest_goal_word step letters goal root word
      | SG_OUTCOME_NO_PLAN \<Rightarrow> (\<forall>v. set v \<subseteq> letters \<longrightarrow> \<not> goal (foldl step root v))
      | SG_OUTCOME_RESOURCE_BOUND \<Rightarrow> expansions = budget \<and> budget < used + bound
      | SG_OUTCOME_ALREADY_SATISFIED \<Rightarrow> False)"

lemma search_outcome_simps [simp]:
  "search_outcome step L goal root b u B SG_OUTCOME_PLAN w e \<longleftrightarrow>
     u \<le> e \<and> e \<le> B \<and> shortest_goal_word step L goal root w"
  "search_outcome step L goal root b u B SG_OUTCOME_NO_PLAN w e \<longleftrightarrow>
     u \<le> e \<and> e \<le> B \<and> (\<forall>v. set v \<subseteq> L \<longrightarrow> \<not> goal (foldl step root v))"
  "search_outcome step L goal root b u B SG_OUTCOME_RESOURCE_BOUND w e \<longleftrightarrow>
     u \<le> e \<and> e = B \<and> B < u + b"
  "\<not> search_outcome step L goal root b u B SG_OUTCOME_ALREADY_SATISFIED w e"
  by (auto simp: search_outcome_def)

section \<open>The search that tests a new node\<close>

text \<open>
  Two of the searches test a node for the goal when it is new. What they compute, with the payloads
  compared exactly: \<open>expand_node\<close> is the loop over the letters of one expansion, \<open>run_search\<close> the loop
  over the frontier, whose result tells the goal node, if any, and whether the budget ended it.
\<close>

fun expand_node ::
  "('p \<Rightarrow> nat \<Rightarrow> 'p) \<Rightarrow> ('p \<Rightarrow> bool) \<Rightarrow> nat \<Rightarrow> nat list \<Rightarrow> 'p sg_node list \<Rightarrow> 'p sg_node list \<times> nat option" where
  "expand_node step goal head [] nodes = (nodes, None)"
| "expand_node step goal head (a # as) nodes =
     (let p = step (nd_payload (nodes ! head)) a;
          nodes' = nodes @ [\<lparr>nd_payload = p, nd_parent = head, nd_action = a\<rparr>]
      in if p \<in> set (payloads nodes) then expand_node step goal head as nodes
         else if goal p then (nodes', Some (length nodes))
         else expand_node step goal head as nodes')"

function run_search ::
  "('p \<Rightarrow> nat \<Rightarrow> 'p) \<Rightarrow> ('p \<Rightarrow> bool) \<Rightarrow> nat list \<Rightarrow> nat \<Rightarrow> 'p sg_node list \<Rightarrow> nat \<Rightarrow> nat \<Rightarrow>
     'p sg_node list \<times> nat option \<times> bool \<times> nat" where
  "run_search step goal letters budget nodes head expansions =
     (if \<not> head < length nodes then (nodes, None, False, expansions)
      else if expansions \<ge> budget then (nodes, None, True, expansions)
      else case expand_node step goal head letters nodes of
             (nodes', Some k) \<Rightarrow> (nodes', Some k, False, expansions + 1)
           | (nodes', None) \<Rightarrow> run_search step goal letters budget nodes' (head + 1) (expansions + 1))"
  by pat_completeness auto
termination
  by (relation "measure (\<lambda>(step, goal, letters, budget, nodes, head, expansions). budget - expansions)") auto

declare run_search.simps [simp del]

text \<open>The node \<open>k\<close> is a goal and its path is a shortest one.\<close>

definition goal_found ::
  "('p \<Rightarrow> nat \<Rightarrow> 'p) \<Rightarrow> nat set \<Rightarrow> ('p \<Rightarrow> bool) \<Rightarrow> 'p \<Rightarrow> 'p sg_node list \<Rightarrow> nat \<Rightarrow> bool" where
  "goal_found step letters goal root nodes k \<longleftrightarrow>
     (\<exists>words. k < length nodes \<and> search_tree step letters root nodes words \<and>
        shortest_goal_word step letters goal root (words ! k))"

lemma goal_found_word:
  assumes "goal_found step letters goal root nodes k"
  shows "shortest_goal_word step letters goal root (rev (sg_follow_parents nodes [] k))"
  using assms search_tree_follow by (fastforce simp: goal_found_def)

lemma expand_node_ok:
  assumes h: "head \<noteq> SG_INDEX_NONE"
  shows "search_tree step letters root nodes words \<Longrightarrow>
    search_front step letters goal nodes words head handled \<Longrightarrow> head < length nodes \<Longrightarrow> set as \<subseteq> letters \<Longrightarrow>
    \<exists>nodes' found. expand_node step goal head as nodes = (nodes', found) \<and>
      (case found of
         Some k \<Rightarrow> goal_found step letters goal root nodes' k
       | None \<Rightarrow> \<exists>words'. search_tree step letters root nodes' words' \<and> head < length nodes' \<and>
           search_front step letters goal nodes' words' head (set as \<union> handled))"
proof (induction as arbitrary: nodes words handled)
  case Nil
  then show ?case by auto
next
  case (Cons a as)
  note T = Cons.prems(1) and F = Cons.prems(2) and lt = Cons.prems(3)
  let ?p = "step (nd_payload (nodes ! head)) a"
  let ?nodes = "nodes @ [\<lparr>nd_payload = ?p, nd_parent = head, nd_action = a\<rparr>]"
  let ?words = "words @ [words ! head @ [a]]"
  have a: "a \<in> letters" and as: "set as \<subseteq> letters" using Cons.prems(4) by auto
  have sets: "set as \<union> insert a handled = set (a # as) \<union> handled" by auto
  have T': "search_tree step letters root ?nodes ?words" by (rule search_tree_add[OF T lt h a refl])
  consider "?p \<in> set (payloads nodes)" | "?p \<notin> set (payloads nodes)" "goal ?p"
    | "?p \<notin> set (payloads nodes)" "\<not> goal ?p" by blast
  then show ?case
  proof cases
    case 1
    from Cons.IH[OF T search_front_skip[OF F lt 1] lt as, unfolded sets] 1 show ?thesis by (simp add: Let_def)
  next
    case 2
    have "length words = length nodes" using T by (simp add: search_tree_def)
    then have "goal_found step letters goal root ?nodes (length nodes)"
      unfolding goal_found_def using T' search_goal_shortest[of _ _ _ _ _ goal, OF T F lt a 2(2)]
      by (intro exI[of _ ?words]) (simp add: nth_append)
    with 2 show ?thesis by (simp add: Let_def)
  next
    case 3
    have "head < length ?nodes" using lt by simp
    from Cons.IH[OF T' search_front_add[OF T F lt refl 3] this as, unfolded sets] 3 show ?thesis
      by (simp add: Let_def)
  qed
qed

section \<open>The interface of a search\<close>

text \<open>
  \<open>valid\<close> payloads are kept by the steps, compared exactly by \<open>same\<close>, and at most \<open>bound\<close> many.
\<close>

locale forward_search =
  fixes ok :: "'i \<Rightarrow> bool"
    and valid :: "'i \<Rightarrow> 'p \<Rightarrow> bool"
    and letter :: "'i \<Rightarrow> nat \<Rightarrow> bool"
    and step :: "'i \<Rightarrow> 'p \<Rightarrow> nat \<Rightarrow> 'p"
    and same :: "'p \<Rightarrow> 'p \<Rightarrow> bool"
    and bound :: "'i \<Rightarrow> nat"
  assumes step_valid: "ok i \<Longrightarrow> valid i p \<Longrightarrow> letter i a \<Longrightarrow> valid i (step i p a)"
    and same_eq: "ok i \<Longrightarrow> valid i p \<Longrightarrow> valid i q \<Longrightarrow> same p q \<longleftrightarrow> p = q"
    and finitely_many: "ok i \<Longrightarrow> finite {p. valid i p} \<and> card {p. valid i p} \<le> bound i"
begin

lemma word_valid: "ok i \<Longrightarrow> valid i p \<Longrightarrow> \<forall>a \<in> set w. letter i a \<Longrightarrow> valid i (foldl (step i) p w)"
  by (induction w arbitrary: p) (auto simp: step_valid)

lemma tree_valid:
  assumes "ok i" "valid i root" "\<forall>a \<in> letters. letter i a"
    and T: "search_tree (step i) letters root nodes words" and "k < length nodes"
  shows "valid i (nd_payload (nodes ! k))"
  using search_tree_word[OF T \<open>k < length nodes\<close>] word_valid[OF assms(1,2), of "words ! k"] assms(3) by auto

lemma tree_all_valid:
  assumes "ok i" "valid i root" "\<forall>a \<in> letters. letter i a"
    and T: "search_tree (step i) letters root nodes words"
  shows "\<forall>n \<in> set nodes. valid i (nd_payload n)"
  using tree_valid[OF assms] by (auto simp: in_set_conv_nth)

lemma known_valid_iff:
  assumes "ok i" "\<forall>n \<in> set nodes. valid i (nd_payload n)" and q: "valid i q"
  shows "list_ex (\<lambda>n. same (nd_payload n) q) nodes \<longleftrightarrow> q \<in> set (payloads nodes)"
proof -
  have "same (nd_payload n) q \<longleftrightarrow> nd_payload n = q" if "n \<in> set nodes" for n
    using that assms(2) by (intro same_eq[OF assms(1) _ q]) blast
  then have "list_ex (\<lambda>n. same (nd_payload n) q) nodes \<longleftrightarrow> (\<exists>n \<in> set nodes. nd_payload n = q)"
    by (metis list_ex_iff)
  also have "\<dots> \<longleftrightarrow> q \<in> set (payloads nodes)" unfolding payloads_def set_map by blast
  finally show ?thesis .
qed

lemma known_iff:
  assumes "ok i" "valid i root" "\<forall>a \<in> letters. letter i a"
    and T: "search_tree (step i) letters root nodes words" and q: "valid i q"
  shows "list_ex (\<lambda>n. same (nd_payload n) q) nodes \<longleftrightarrow> q \<in> set (payloads nodes)"
  by (rule known_valid_iff[OF assms(1) tree_all_valid[OF assms(1-4)] q])

lemma nodes_bound:
  assumes "ok i" "valid i root" "\<forall>a \<in> letters. letter i a"
    and T: "search_tree (step i) letters root nodes words" and d: "distinct (payloads nodes)"
  shows "length nodes \<le> bound i"
proof -
  have "set (payloads nodes) \<subseteq> {p. valid i p}"
  proof
    fix q assume "q \<in> set (payloads nodes)"
    then obtain k where "k < length nodes" "q = nd_payload (nodes ! k)" by (auto simp: payloads_def in_set_conv_nth)
    then show "q \<in> {p. valid i p}" using tree_valid[OF assms(1-4)] by simp
  qed
  then have "card (set (payloads nodes)) \<le> bound i"
    using finitely_many[OF assms(1)] card_mono[of "{p. valid i p}" "set (payloads nodes)"] by linarith
  moreover have "card (set (payloads nodes)) = length nodes"
    using distinct_card[OF d] by (simp add: payloads_def)
  ultimately show ?thesis by simp
qed

text \<open>The two ways the loop of a search ends without a goal.\<close>

lemma exhausted_outcome:
  assumes T: "search_tree (step i) letters root nodes words"
    and F: "search_front (step i) letters goal nodes words (length nodes) handled"
    and "used \<le> expansions" "expansions \<le> budget"
  shows "search_outcome (step i) letters goal root (bound i) used budget SG_OUTCOME_NO_PLAN w expansions"
  using search_front_no_goal[OF T F] assms(3,4) by simp

lemma stopped_outcome:
  assumes "ok i" "valid i root" "\<forall>a \<in> letters. letter i a"
    and T: "search_tree (step i) letters root nodes words"
    and F: "search_front (step i) letters goal nodes words head handled" and h: "head < length nodes"
    and "expansions = used + head" "expansions = budget"
  shows "search_outcome (step i) letters goal root (bound i) used budget SG_OUTCOME_RESOURCE_BOUND w expansions"
  using nodes_bound[OF assms(1-4) search_frontD(1)[OF F]] h assms(7,8) by simp

text \<open>What the loop over the frontier reports.\<close>

lemma run_search_ok:
  assumes "ok i" "valid i root" "\<forall>a \<in> set L. letter i a" and B: "budget \<le> SIZE_MAX"
  shows "search_tree (step i) (set L) root nodes words \<Longrightarrow>
    search_front (step i) (set L) goal nodes words head {} \<Longrightarrow> expansions = used + head \<Longrightarrow>
    expansions \<le> budget \<Longrightarrow>
    \<exists>nodes' found bounded expansions'.
      run_search (step i) goal L budget nodes head expansions = (nodes', found, bounded, expansions') \<and>
      search_outcome (step i) (set L) goal root (bound i) used budget
        (if found \<noteq> None then SG_OUTCOME_PLAN
         else if bounded then SG_OUTCOME_RESOURCE_BOUND else SG_OUTCOME_NO_PLAN)
        (case found of Some k \<Rightarrow> rev (sg_follow_parents nodes' [] k) | None \<Rightarrow> []) expansions'"
proof (induction "budget - expansions" arbitrary: nodes words head expansions rule: less_induct)
  case (less expansions nodes words head)
  note T = less.prems(1) and F = less.prems(2)
  consider "head = length nodes" | "head < length nodes" "expansions = budget"
    | "head < length nodes" "expansions < budget"
    using search_frontD(3)[OF F] less.prems(4) by linarith
  then show ?case
  proof cases
    case 1
    with exhausted_outcome[OF T, of goal "{}" used expansions budget "[]"] F less.prems(3,4)
    show ?thesis by (simp add: run_search.simps) blast
  next
    case 2
    with stopped_outcome[OF assms(1-3) T F 2(1) less.prems(3) 2(2), of "[]"]
    show ?thesis by (simp add: run_search.simps) blast
  next
    case 3
    with less.prems(3) have h: "head \<noteq> SG_INDEX_NONE" using B by linarith
    obtain nodes' found where run: "expand_node (step i) goal head L nodes = (nodes', found)"
      and found: "case found of
         Some k \<Rightarrow> goal_found (step i) (set L) goal root nodes' k
       | None \<Rightarrow> \<exists>words'. search_tree (step i) (set L) root nodes' words' \<and> head < length nodes' \<and>
           search_front (step i) (set L) goal nodes' words' head (set L)"
      using expand_node_ok[OF h T F 3(1) subset_refl, unfolded Un_empty_right] by blast
    show ?thesis
    proof (cases found)
      case (Some k)
      with found goal_found_word have "shortest_goal_word (step i) (set L) goal root (rev (sg_follow_parents nodes' [] k))"
        by fastforce
      with Some run 3 less.prems(3,4) show ?thesis by (simp add: run_search.simps) blast
    next
      case None
      then obtain words' where T': "search_tree (step i) (set L) root nodes' words'"
        and F': "search_front (step i) (set L) goal nodes' words' (Suc head) {}"
        using found by (auto intro: search_front_advance)
      have "run_search (step i) goal L budget nodes head expansions =
          run_search (step i) goal L budget nodes' (Suc head) (Suc expansions)"
        using None run 3 by (simp add: run_search.simps[of _ _ _ _ nodes])
      with less.hyps[OF _ T' F', of "Suc expansions"] 3 less.prems(3,4) show ?thesis by simp
    qed
  qed
qed

lemma search_from_root:
  assumes "ok i" "valid i root" "\<forall>a \<in> set L. letter i a" "budget \<le> SIZE_MAX" "\<not> goal root" "used \<le> budget"
  shows "\<exists>nodes found bounded expansions.
      run_search (step i) goal L budget
        [\<lparr>nd_payload = root, nd_parent = SG_INDEX_NONE, nd_action = SG_INDEX_NONE\<rparr>] 0 used =
        (nodes, found, bounded, expansions) \<and>
      search_outcome (step i) (set L) goal root (bound i) used budget
        (if found \<noteq> None then SG_OUTCOME_PLAN
         else if bounded then SG_OUTCOME_RESOURCE_BOUND else SG_OUTCOME_NO_PLAN)
        (case found of Some k \<Rightarrow> rev (sg_follow_parents nodes [] k) | None \<Rightarrow> []) expansions"
  using run_search_ok[OF assms(1-4) search_tree_root[where a = SG_INDEX_NONE]
      search_front_root[of goal, OF assms(5)] _ assms(6), of used] by simp

text \<open>Every payload that an expansion adds is valid.\<close>

lemma expand_node_valid:
  assumes "ok i"
  shows "\<forall>n \<in> set nodes. valid i (nd_payload n) \<Longrightarrow> head < length nodes \<Longrightarrow> \<forall>a \<in> set as. letter i a \<Longrightarrow>
    expand_node (step i) goal head as nodes = (nodes', found) \<Longrightarrow> \<forall>n \<in> set nodes'. valid i (nd_payload n)"
proof (induction as arbitrary: nodes)
  case (Cons a as)
  let ?p = "step i (nd_payload (nodes ! head)) a"
  let ?nodes = "nodes @ [\<lparr>nd_payload = ?p, nd_parent = head, nd_action = a\<rparr>]"
  have "valid i ?p" using Cons.prems by (intro step_valid[OF assms]) auto
  with Cons.prems(1,2) have all: "\<forall>n \<in> set ?nodes. valid i (nd_payload n)" "head < length ?nodes" by auto
  show ?case
    using Cons.prems Cons.IH[OF Cons.prems(1,2)] Cons.IH[OF all] all(1)
    by (cases "?p \<in> set (payloads nodes)"; cases "goal ?p") (simp_all add: Let_def)
qed simp

end

end
