(* ===== verification/Sync_Bitset.thy ===== *)
theory Sync_Bitset
  imports Sync_Prelude
begin

text \<open>
  The state sets of src/planner.c: a \<open>sg_bitset\<close> is an array of 64-bit words, one bit per
  state, in canonical form (the bits from \<open>state_count\<close> on are zero). The operations work on the
  words as the code does; \<open>bitset_set\<close> reads the set off the bits. The locale \<open>state_set\<close> is the
  interface the planners rely on, and it is interpreted on the operations of this theory.
\<close>

unbundle bit_operations_syntax

section \<open>The words of a bitset\<close>

record sg_bitset =
  bs_words :: "64 word list"
  bs_word_count :: nat
  bs_state_count :: nat

definition sg_bitset_zero :: "nat \<Rightarrow> sg_bitset" where
  "sg_bitset_zero state_count =
     (let word_count = ((state_count + 63) mod 2 ^ 64) div 64
      in \<lparr>bs_words = replicate word_count 0, bs_word_count = word_count,
          bs_state_count = state_count\<rparr>)"

definition sg_bitset_init :: "nat \<Rightarrow> sg_bitset res" where
  "sg_bitset_init state_count =
     (if state_count = 0 then Inl SG_ERR_INVALID_ARGUMENT
      else Inr (sg_bitset_zero state_count))"

definition sg_bitset_clear :: "sg_bitset \<Rightarrow> sg_bitset" where
  "sg_bitset_clear bs = bs\<lparr>bs_words := replicate (bs_word_count bs) 0\<rparr>"

definition sg_bitset_add :: "sg_bitset \<Rightarrow> nat \<Rightarrow> sg_bitset" where
  "sg_bitset_add bs state =
     bs\<lparr>bs_words := (bs_words bs)
       [state div 64 := (bs_words bs ! (state div 64)) OR push_bit (state mod 64) 1]\<rparr>"

definition sg_bitset_has :: "sg_bitset \<Rightarrow> nat \<Rightarrow> bool" where
  "sg_bitset_has bs state \<longleftrightarrow>
     (bs_words bs ! (state div 64)) AND push_bit (state mod 64) 1 \<noteq> 0"

lemma word_and_dec_less:
  assumes "v \<noteq> 0"
  shows "unat (v AND (v - 1)) < unat (v :: 64 word)"
proof -
  have "v AND (v - 1) \<le> v - 1" by (simp add: word_and_le1)
  then have "unat (v AND (v - 1)) \<le> unat (v - 1)" by (simp add: word_le_nat_alt)
  also have "\<dots> < unat v" using assms by (simp add: unat_minus_one unat_gt_0)
  finally show ?thesis .
qed

function sg_popcount :: "64 word \<Rightarrow> nat" where
  "sg_popcount value = (if value \<noteq> 0 then Suc (sg_popcount (value AND (value - 1))) else 0)"
  by pat_completeness auto
termination
  by (relation "measure unat") (auto simp: word_and_dec_less)

declare sg_popcount.simps [simp del]

definition sg_bitset_count :: "sg_bitset \<Rightarrow> nat" where
  "sg_bitset_count bs = foldl (\<lambda>count w. count + sg_popcount w) 0 (take (bs_word_count bs) (bs_words bs))"

definition sg_bitset_equal :: "sg_bitset \<Rightarrow> sg_bitset \<Rightarrow> bool" where
  "sg_bitset_equal first second \<longleftrightarrow>
     bs_state_count first = bs_state_count second \<and> bs_word_count first = bs_word_count second \<and>
     take (bs_word_count first) (bs_words first) = take (bs_word_count first) (bs_words second)"

definition sg_bitset_subset :: "sg_bitset \<Rightarrow> sg_bitset \<Rightarrow> bool" where
  "sg_bitset_subset first second \<longleftrightarrow>
     (if bs_state_count first \<noteq> bs_state_count second \<or> bs_word_count first \<noteq> bs_word_count second
      then False
      else list_all (\<lambda>index. (bs_words first ! index) AND NOT (bs_words second ! index) = 0)
             [0..<bs_word_count first])"

fun sg_bitset_compare_from :: "nat \<Rightarrow> sg_bitset \<Rightarrow> sg_bitset \<Rightarrow> int" where
  "sg_bitset_compare_from 0 first second = 0"
| "sg_bitset_compare_from (Suc index) first second =
     (if bs_words first ! index < bs_words second ! index then -1
      else if bs_words first ! index > bs_words second ! index then 1
      else sg_bitset_compare_from index first second)"

definition sg_bitset_compare :: "sg_bitset \<Rightarrow> sg_bitset \<Rightarrow> int" where
  "sg_bitset_compare first second = sg_bitset_compare_from (bs_word_count first) first second"

definition sg_bitset_copy :: "sg_bitset \<Rightarrow> sg_bitset res" where
  "sg_bitset_copy source =
     rbind (sg_bitset_init (bs_state_count source))
       (\<lambda>destination. Inr (destination\<lparr>bs_words := take (bs_word_count source) (bs_words source)\<rparr>))"

fun sg_bitset_add_ids :: "nat \<Rightarrow> nat list \<Rightarrow> sg_bitset \<Rightarrow> sg_bitset res" where
  "sg_bitset_add_ids state_count [] bs = Inr bs"
| "sg_bitset_add_ids state_count (state # states) bs =
     (if state \<ge> state_count then Inl SG_ERR_INVALID_ARGUMENT
      else sg_bitset_add_ids state_count states (sg_bitset_add bs state))"

definition sg_bitset_from_ids :: "nat \<Rightarrow> nat list ptr \<Rightarrow> sg_bitset res" where
  "sg_bitset_from_ids state_count states =
     (case states of
        NULL \<Rightarrow> Inl SG_ERR_INVALID_ARGUMENT
      | Ref ids \<Rightarrow>
          if ids = [] then Inl SG_ERR_INVALID_ARGUMENT
          else rbind (sg_bitset_init state_count) (sg_bitset_add_ids state_count ids))"

definition sg_bitset_to_ids :: "sg_bitset \<Rightarrow> nat list" where
  "sg_bitset_to_ids bs = filter (sg_bitset_has bs) [0..<bs_state_count bs]"

section \<open>The set a bitset stands for\<close>

definition words_set :: "64 word list \<Rightarrow> nat set" where
  "words_set ws = {s. s div 64 < length ws \<and> bit (ws ! (s div 64)) (s mod 64)}"

definition bitset_set :: "sg_bitset \<Rightarrow> nat set" where
  "bitset_set bs = words_set (bs_words bs)"

definition bitset_ok :: "nat \<Rightarrow> sg_bitset \<Rightarrow> bool" where
  "bitset_ok n bs \<longleftrightarrow>
     size_ok n \<and> bs_state_count bs = n \<and> bs_word_count bs = (n + 63) div 64 \<and>
     length (bs_words bs) = bs_word_count bs \<and> bitset_set bs \<subseteq> {..<n}"

lemma bitset_okD:
  assumes "bitset_ok n bs"
  shows "size_ok n" "bs_state_count bs = n" "bs_word_count bs = (n + 63) div 64"
    "length (bs_words bs) = bs_word_count bs" "bitset_set bs \<subseteq> {..<n}"
  using assms by (auto simp: bitset_ok_def)

lemma bitset_set_finite: "bitset_ok n bs \<Longrightarrow> finite (bitset_set bs)"
  by (metis bitset_okD(5) finite_lessThan finite_subset)

lemma index_in_words: "s < n \<Longrightarrow> s div 64 < (n + 63) div (64::nat)"
  using div_le_mono[of "s + 64" "n + 63" 64] by simp

lemma bit_exp_64: "k < 64 \<Longrightarrow> bit (2 ^ k :: 64 word) i \<longleftrightarrow> i = k"
  by (auto simp: bit_exp_iff dest: bit_imp_le_length)

lemma and_exp_eq_0: "k < 64 \<Longrightarrow> w AND 2 ^ k \<noteq> (0 :: 64 word) \<longleftrightarrow> bit w k"
  using bit_eq_iff[of "w AND 2 ^ k" 0] bit_imp_le_length[of w k]
  by (simp add: bit_and_iff bit_exp_64)

lemma sg_bitset_has_iff:
  "bitset_ok n bs \<Longrightarrow> s < n \<Longrightarrow> sg_bitset_has bs s \<longleftrightarrow> s \<in> bitset_set bs"
  using index_in_words[of s n]
  by (simp add: sg_bitset_has_def and_exp_eq_0 bitset_set_def words_set_def bitset_ok_def)

lemma words_set_replicate [simp]: "words_set (replicate k 0) = {}"
  by (auto simp: words_set_def)

lemma size_ok_word_count [simp]: "size_ok n \<Longrightarrow> (n + 63) mod 18446744073709551616 = n + 63"
  by (simp add: size_ok_def SIZE_MAX_def)

lemma sg_bitset_zero_ok [simp]: "size_ok n \<Longrightarrow> bitset_ok n (sg_bitset_zero n)"
  by (simp add: sg_bitset_zero_def Let_def bitset_ok_def bitset_set_def)

lemma sg_bitset_zero_set [simp]: "bitset_set (sg_bitset_zero n) = {}"
  by (simp add: sg_bitset_zero_def Let_def bitset_set_def)

lemma sg_bitset_init_ok [simp]: "size_ok n \<Longrightarrow> sg_bitset_init n = Inr (sg_bitset_zero n)"
  by (simp add: sg_bitset_init_def size_ok_def)

lemma sg_bitset_clear_eq: "bitset_ok n bs \<Longrightarrow> sg_bitset_clear bs = sg_bitset_zero n"
  by (cases bs) (auto simp: sg_bitset_clear_def sg_bitset_zero_def Let_def bitset_ok_def)

lemma words_set_add:
  assumes "s div 64 < length ws"
  shows "words_set (ws[s div 64 := (ws ! (s div 64)) OR 2 ^ (s mod 64)]) = insert s (words_set ws)"
proof (rule set_eqI)
  fix t
  show "t \<in> words_set (ws[s div 64 := (ws ! (s div 64)) OR 2 ^ (s mod 64)]) \<longleftrightarrow>
        t \<in> insert s (words_set ws)"
  proof (cases "t div 64 = s div 64")
    case True
    then have "t mod 64 = s mod 64 \<longleftrightarrow> t = s" by (metis div_mult_mod_eq)
    with True assms show ?thesis
      by (auto simp: words_set_def nth_list_update bit_or_iff bit_exp_64)
  next
    case False
    then show ?thesis by (auto simp: words_set_def nth_list_update)
  qed
qed

lemma sg_bitset_add_set:
  "bitset_ok n bs \<Longrightarrow> s < n \<Longrightarrow> bitset_set (sg_bitset_add bs s) = insert s (bitset_set bs)"
  using index_in_words[of s n]
  by (simp add: sg_bitset_add_def bitset_set_def words_set_add bitset_ok_def)

lemma sg_bitset_add_ok:
  assumes "bitset_ok n bs" "s < n"
  shows "bitset_ok n (sg_bitset_add bs s)"
  using sg_bitset_add_set[OF assms] assms unfolding bitset_ok_def by (simp add: sg_bitset_add_def)

section \<open>Counting, comparing, copying\<close>

text \<open>
  Kernighan's loop counts the one bits of a word: clearing the lowest one bit of a number
  removes one from the number of its bits.
\<close>

definition nat_bits :: "nat \<Rightarrow> nat set" where
  "nat_bits n = {i. bit n i}"

lemma nat_bits_double: "nat_bits (2 * n) = Suc ` nat_bits n"
proof (rule set_eqI)
  fix i show "i \<in> nat_bits (2 * n) \<longleftrightarrow> i \<in> Suc ` nat_bits n"
    by (cases i) (auto simp: nat_bits_def bit_Suc bit_0 image_iff)
qed

lemma nat_bits_odd: "nat_bits (Suc (2 * n)) = insert 0 (Suc ` nat_bits n)"
proof (rule set_eqI)
  fix i show "i \<in> nat_bits (Suc (2 * n)) \<longleftrightarrow> i \<in> insert 0 (Suc ` nat_bits n)"
    by (cases i) (auto simp: nat_bits_def bit_Suc bit_0 image_iff)
qed

lemma finite_nat_bits [simp]: "finite (nat_bits n)"
proof (rule finite_subset)
  show "nat_bits n \<subseteq> {..<n}"
  proof
    fix i assume "i \<in> nat_bits n"
    then have "odd (n div 2 ^ i)" by (simp add: nat_bits_def bit_iff_odd)
    then have "n div 2 ^ i \<noteq> 0" by (metis even_zero)
    then have "2 ^ i \<le> n" by (simp add: div_eq_0_iff)
    with less_exp[of i] show "i \<in> {..<n}" by (simp only: lessThan_iff order_less_le_trans)
  qed
qed simp

lemma card_nat_bits_double: "card (nat_bits (2 * n)) = card (nat_bits n)"
  by (simp add: nat_bits_double card_image)

lemma card_nat_bits_odd: "card (nat_bits (Suc (2 * n))) = Suc (card (nat_bits n))"
  by (simp add: nat_bits_odd card_image)

lemma card_nat_bits_step: "0 < n \<Longrightarrow> Suc (card (nat_bits (n AND (n - 1)))) = card (nat_bits n)"
proof (induction n rule: less_induct)
  case (less n)
  show ?case
  proof (cases "even n")
    case True
    then obtain m where n: "n = 2 * m" by (elim evenE)
    with less.prems obtain m' where m: "m = Suc m'" by (cases m) auto
    have "n AND (n - 1) = 2 * (m AND (m - 1))"
      by (subst and_rec) (simp add: n m)
    then have "card (nat_bits (n AND (n - 1))) = card (nat_bits (m AND (m - 1)))"
      by (simp only: card_nat_bits_double)
    moreover have "card (nat_bits n) = card (nat_bits m)"
      by (simp only: n card_nat_bits_double)
    moreover have "m < n" "0 < m" by (simp_all add: n m)
    ultimately show ?thesis using less.IH[of m] by simp
  next
    case False
    then obtain m where n: "n = Suc (2 * m)" by (elim oddE) simp
    have "n AND (n - 1) = 2 * m"
      by (subst and_rec) (simp add: n)
    then show ?thesis by (simp add: n card_nat_bits_double card_nat_bits_odd)
  qed
qed

lemma sg_popcount_card: "sg_popcount w = card {i. bit w i}"
proof -
  have bits: "{i. bit v i} = nat_bits (unat v)" for v :: "64 word"
    by (simp add: nat_bits_def bit_unsigned_iff)
  have "sg_popcount w = card (nat_bits (unat w))"
  proof (induction w rule: sg_popcount.induct)
    case (1 w)
    show ?case
    proof (cases "w = 0")
      case True
      then show ?thesis by (simp add: sg_popcount.simps[of 0] nat_bits_def)
    next
      case False
      then have "unat (w AND (w - 1)) = unat w AND (unat w - 1)"
        by (simp add: unsigned_and_eq unat_minus_one)
      with False "1" card_nat_bits_step[of "unat w"] show ?thesis
        by (simp add: sg_popcount.simps[of w] unat_gt_0)
    qed
  qed
  then show ?thesis by (simp add: bits)
qed

lemma words_set_snoc:
  "words_set (ws @ [w]) = words_set ws \<union> (\<lambda>k. 64 * length ws + k) ` {k. bit w k}"
proof (rule set_eqI)
  fix s
  show "s \<in> words_set (ws @ [w]) \<longleftrightarrow>
        s \<in> words_set ws \<union> (\<lambda>k. 64 * length ws + k) ` {k. bit w k}"
  proof (cases "s div 64 = length ws")
    case True
    then have s: "s = 64 * length ws + s mod 64" by (metis mult.commute div_mult_mod_eq)
    have "s \<in> words_set (ws @ [w]) \<longleftrightarrow> bit w (s mod 64)"
      using True by (simp add: words_set_def)
    also have "\<dots> \<longleftrightarrow> s \<in> (\<lambda>k. 64 * length ws + k) ` {k. bit w k}"
    proof
      assume "bit w (s mod 64)"
      with s show "s \<in> (\<lambda>k. 64 * length ws + k) ` {k. bit w k}" by blast
    next
      assume "s \<in> (\<lambda>k. 64 * length ws + k) ` {k. bit w k}"
      then obtain k where "s = 64 * length ws + k" "bit w k" by blast
      with s show "bit w (s mod 64)" by (metis add_left_cancel)
    qed
    finally show ?thesis using True by (auto simp: words_set_def)
  next
    case False
    have "s div 64 = length ws" if "s = 64 * length ws + k" "bit w k" for k
      using that bit_imp_le_length[of w k] by simp
    with False show ?thesis by (auto simp: words_set_def nth_append)
  qed
qed

lemma finite_words_set: "finite (words_set ws)"
proof (rule finite_subset)
  show "words_set ws \<subseteq> {..<64 * length ws}"
    by (auto simp: words_set_def div_less_iff_less_mult mult.commute)
qed simp

lemma card_words_set: "card (words_set ws) = sum_list (map sg_popcount ws)"
proof (induction ws rule: rev_induct)
  case Nil
  show ?case by (simp add: words_set_def)
next
  case (snoc w ws)
  have "words_set ws \<inter> (\<lambda>k. 64 * length ws + k) ` {k. bit w k} = {}"
    by (auto simp: words_set_def)
  moreover have "card ((\<lambda>k. 64 * length ws + k) ` {k. bit w k}) = sg_popcount w"
    by (simp add: card_image inj_on_def sg_popcount_card)
  moreover have "finite {k. bit w k}"
    by (rule finite_subset[of _ "{..<64}"]) (auto dest: bit_imp_le_length)
  ultimately show ?case
    by (simp add: words_set_snoc card_Un_disjoint finite_words_set snoc.IH)
qed

lemma foldl_add: "foldl (\<lambda>c w. c + f w) (a :: nat) ws = a + sum_list (map f ws)"
  by (induction ws arbitrary: a) simp_all

lemma sg_bitset_count_card: "bitset_ok n bs \<Longrightarrow> sg_bitset_count bs = card (bitset_set bs)"
  by (simp add: sg_bitset_count_def bitset_ok_def bitset_set_def card_words_set foldl_add)

lemma words_set_nth: "k < 64 \<Longrightarrow> 64 * i + k \<in> words_set ws \<longleftrightarrow> i < length ws \<and> bit (ws ! i) k"
  by (simp add: words_set_def)

lemma words_set_inj:
  assumes "length ws = length vs" "words_set ws = words_set vs"
  shows "ws = vs"
proof (rule nth_equalityI)
  fix i assume i: "i < length ws"
  show "ws ! i = vs ! i"
  proof (rule bit_eqI)
    fix k assume "possible_bit TYPE(64 word) k"
    then have "k < 64" by simp
    with i assms show "bit (ws ! i) k \<longleftrightarrow> bit (vs ! i) k" by (metis words_set_nth)
  qed
qed (fact assms(1))

lemma bitset_ok_eq_iff:
  "bitset_ok n a \<Longrightarrow> bitset_ok n b \<Longrightarrow> a = b \<longleftrightarrow> bitset_set a = bitset_set b"
  by (cases a; cases b) (auto simp: bitset_ok_def bitset_set_def intro: words_set_inj)

lemma sg_bitset_equal_iff:
  "bitset_ok n a \<Longrightarrow> bitset_ok n b \<Longrightarrow> sg_bitset_equal a b \<longleftrightarrow> a = b"
  by (cases a; cases b) (auto simp: sg_bitset_equal_def bitset_ok_def)

lemma words_and_not_eq_0:
  "(v AND NOT w = 0) \<longleftrightarrow> (\<forall>k<64. bit v k \<longrightarrow> bit w k)" for v w :: "64 word"
  using bit_eq_iff[of "v AND NOT w" 0] by (auto simp: bit_and_iff bit_not_iff)

lemma sg_bitset_subset_iff:
  assumes "bitset_ok n a" "bitset_ok n b"
  shows "sg_bitset_subset a b \<longleftrightarrow> bitset_set a \<subseteq> bitset_set b"
proof -
  have "sg_bitset_subset a b \<longleftrightarrow>
      (\<forall>i < (n + 63) div 64. \<forall>k<64. bit (bs_words a ! i) k \<longrightarrow> bit (bs_words b ! i) k)"
    using assms by (auto simp: sg_bitset_subset_def bitset_ok_def list_all_iff words_and_not_eq_0)
  also have "\<dots> \<longleftrightarrow> bitset_set a \<subseteq> bitset_set b"
  proof
    assume *: "\<forall>i < (n + 63) div 64. \<forall>k<64. bit (bs_words a ! i) k \<longrightarrow> bit (bs_words b ! i) k"
    then show "bitset_set a \<subseteq> bitset_set b"
      using assms by (auto simp: bitset_set_def words_set_def bitset_ok_def)
  next
    assume *: "bitset_set a \<subseteq> bitset_set b"
    show "\<forall>i < (n + 63) div 64. \<forall>k<64. bit (bs_words a ! i) k \<longrightarrow> bit (bs_words b ! i) k"
    proof (intro allI impI)
      fix i k :: nat
      assume "i < (n + 63) div 64" and k: "k < 64" and "bit (bs_words a ! i) k"
      with assms have "64 * i + k \<in> words_set (bs_words a)"
        by (simp add: words_set_nth bitset_ok_def)
      with * have "64 * i + k \<in> words_set (bs_words b)" by (auto simp: bitset_set_def)
      with k show "bit (bs_words b ! i) k" by (simp add: words_set_nth)
    qed
  qed
  finally show ?thesis .
qed

lemma sg_bitset_copy_ok [simp]: "bitset_ok n bs \<Longrightarrow> sg_bitset_copy bs = Inr bs"
  by (cases bs) (auto simp: sg_bitset_copy_def sg_bitset_zero_def Let_def bitset_ok_def)

lemma sg_bitset_add_ids_iff:
  assumes "bitset_ok n bs"
  shows "sg_bitset_add_ids n ids bs = Inr bs' \<longleftrightarrow>
    set ids \<subseteq> {..<n} \<and> bitset_ok n bs' \<and> bitset_set bs' = bitset_set bs \<union> set ids"
  using assms
proof (induction ids arbitrary: bs)
  case Nil
  then show ?case using bitset_ok_eq_iff[of n bs bs'] by auto
next
  case (Cons s ids)
  then show ?case by (auto simp: sg_bitset_add_set sg_bitset_add_ok)
qed

lemma sg_bitset_add_ids_exists:
  "bitset_ok n bs \<Longrightarrow> set ids \<subseteq> {..<n} \<Longrightarrow> \<exists>bs'. sg_bitset_add_ids n ids bs = Inr bs'"
  by (induction ids arbitrary: bs) (auto simp: sg_bitset_add_ok)

lemma sg_bitset_from_ids_iff:
  assumes "size_ok n"
  shows "sg_bitset_from_ids n ids = Inr bs \<longleftrightarrow>
    (\<exists>xs. ids = Ref xs \<and> xs \<noteq> [] \<and> set xs \<subseteq> {..<n} \<and> bitset_ok n bs \<and> bitset_set bs = set xs)"
  using assms
  by (auto simp: sg_bitset_from_ids_def sg_bitset_add_ids_iff split: option.splits)

lemma sg_bitset_to_ids_eq:
  assumes "bitset_ok n bs"
  shows "sg_bitset_to_ids bs = sorted_list_of_set (bitset_set bs)"
proof (rule sorted_distinct_set_unique)
  have "set (sg_bitset_to_ids bs) = bitset_set bs"
    using assms bitset_okD(5)[OF assms]
    by (auto simp: sg_bitset_to_ids_def sg_bitset_has_iff bitset_okD(2)[OF assms])
  then show "set (sg_bitset_to_ids bs) = set (sorted_list_of_set (bitset_set bs))"
    by (simp add: bitset_set_finite[OF assms])
qed (simp_all add: sg_bitset_to_ids_def sorted_wrt_filter)

section \<open>The order the partitions are sorted by\<close>

text \<open>
  Comparing from the top word down is comparing the numbers the words spell in base
  \<open>2 ^ 64\<close>, so \<open>sg_bitset_compare\<close> is a linear order on bitsets of one size.
\<close>

fun words_value :: "nat \<Rightarrow> sg_bitset \<Rightarrow> nat" where
  "words_value 0 bs = 0"
| "words_value (Suc i) bs = unat (bs_words bs ! i) * 2 ^ (64 * i) + words_value i bs"

lemma words_value_less: "words_value i bs < 2 ^ (64 * i)"
proof (induction i)
  case (Suc i)
  have "unat (bs_words bs ! i) \<le> 2 ^ 64 - 1" using unsigned_less[of "bs_words bs ! i", where ?'a = nat] by simp
  then have "unat (bs_words bs ! i) * 2 ^ (64 * i) \<le> (2 ^ 64 - 1) * 2 ^ (64 * i)"
    by (rule mult_le_mono1)
  with Suc.IH have "words_value (Suc i) bs < (2 ^ 64 - 1) * 2 ^ (64 * i) + 2 ^ (64 * i)"
    by (simp only: words_value.simps)
  then show ?case by (simp add: power_add)
qed simp

lemma words_value_top_less:
  assumes "bs_words a ! i < bs_words b ! i"
  shows "words_value (Suc i) a < words_value (Suc i) b"
proof -
  have "Suc (unat (bs_words a ! i)) \<le> unat (bs_words b ! i)"
    using assms by (simp add: word_less_nat_alt)
  then have "Suc (unat (bs_words a ! i)) * 2 ^ (64 * i) \<le> unat (bs_words b ! i) * 2 ^ (64 * i)"
    by (rule mult_le_mono1)
  with words_value_less[of i a] show ?thesis by simp
qed

lemma sg_bitset_compare_from_sgn:
  "sg_bitset_compare_from i a b = sgn (int (words_value i a) - int (words_value i b))"
proof (induction i)
  case (Suc i)
  consider "bs_words a ! i < bs_words b ! i" | "bs_words b ! i < bs_words a ! i"
    | "bs_words a ! i = bs_words b ! i" by fastforce
  then show ?case
  proof cases
    case 1
    with words_value_top_less[OF 1] show ?thesis by (simp del: words_value.simps)
  next
    case 2
    with words_value_top_less[OF 2] show ?thesis by (simp del: words_value.simps)
  next
    case 3
    with Suc.IH show ?thesis by simp
  qed
qed simp

section \<open>The interface of a state set\<close>

text \<open>
  What the planners use of a set of states: the operations, the set they stand for and the
  canonical-form invariant. Everything proved below holds of any implementation of these laws.
\<close>

locale state_set =
  fixes ok :: "nat \<Rightarrow> 's \<Rightarrow> bool"
    and elems :: "'s \<Rightarrow> nat set"
    and zero :: "nat \<Rightarrow> 's"
    and add :: "'s \<Rightarrow> nat \<Rightarrow> 's"
    and has :: "'s \<Rightarrow> nat \<Rightarrow> bool"
    and count :: "'s \<Rightarrow> nat"
  assumes zero_ok: "size_ok n \<Longrightarrow> ok n (zero n)"
    and zero_elems: "size_ok n \<Longrightarrow> elems (zero n) = {}"
    and add_ok: "ok n d \<Longrightarrow> s < n \<Longrightarrow> ok n (add d s)"
    and add_elems: "ok n d \<Longrightarrow> s < n \<Longrightarrow> elems (add d s) = insert s (elems d)"
    and has_iff: "ok n d \<Longrightarrow> s < n \<Longrightarrow> has d s \<longleftrightarrow> s \<in> elems d"
    and count_card: "ok n d \<Longrightarrow> count d = card (elems d)"
    and elems_bound: "ok n d \<Longrightarrow> elems d \<subseteq> {..<n}"
    and ok_size: "ok n d \<Longrightarrow> size_ok n"
    and extensional: "ok n d \<Longrightarrow> ok n e \<Longrightarrow> elems d = elems e \<Longrightarrow> d = e"
begin

lemma finite_elems: "ok n d \<Longrightarrow> finite (elems d)"
  using elems_bound finite_subset by blast

lemma fold_add:
  assumes "ok n d" and "\<And>x. x \<in> set xs \<Longrightarrow> P x \<Longrightarrow> f x < n"
  shows "ok n (foldl (\<lambda>d x. if P x then add d (f x) else d) d xs)"
    and "elems (foldl (\<lambda>d x. if P x then add d (f x) else d) d xs) =
         elems d \<union> f ` {x \<in> set xs. P x}"
  using assms by (induction xs arbitrary: d) (auto simp: add_ok add_elems)

text \<open>The image of a set under a map, kept to the members that satisfy a test.\<close>

lemma image_fold:
  assumes "ok n src" and "\<And>s. s < n \<Longrightarrow> P s \<Longrightarrow> f s < n"
  shows "ok n (foldl (\<lambda>d s. if has src s \<and> P s then add d (f s) else d) (zero n) [0..<n])"
    and "elems (foldl (\<lambda>d s. if has src s \<and> P s then add d (f s) else d) (zero n) [0..<n]) =
         f ` {s \<in> elems src. P s}"
proof -
  have sz: "size_ok n" using assms(1) by (rule ok_size)
  have eq: "{x \<in> set [0..<n]. has src x \<and> P x} = {s \<in> elems src. P s}"
    using elems_bound[OF assms(1)] by (auto simp: has_iff[OF assms(1)])
  show "ok n (foldl (\<lambda>d s. if has src s \<and> P s then add d (f s) else d) (zero n) [0..<n])"
    by (rule fold_add(1)[where n = n]) (auto simp: zero_ok[OF sz] assms(2))
  have "elems (foldl (\<lambda>d s. if has src s \<and> P s then add d (f s) else d) (zero n) [0..<n]) =
      elems (zero n) \<union> f ` {x \<in> set [0..<n]. has src x \<and> P x}"
    by (rule fold_add(2)[where n = n]) (auto simp: zero_ok[OF sz] assms(2))
  then show "elems (foldl (\<lambda>d s. if has src s \<and> P s then add d (f s) else d) (zero n) [0..<n]) =
      f ` {s \<in> elems src. P s}"
    by (simp only: eq zero_elems[OF sz] Un_empty_left)
qed

lemma count_1_iff: "ok n d \<Longrightarrow> count d = 1 \<longleftrightarrow> (\<exists>s. elems d = {s})"
  by (simp add: count_card card_1_singleton_iff)

lemma count_0_iff: "ok n d \<Longrightarrow> count d = 0 \<longleftrightarrow> elems d = {}"
  by (simp add: count_card finite_elems)

lemma count_le: "ok n d \<Longrightarrow> count d \<le> n"
  using elems_bound[of n d] card_mono[of "{..<n}" "elems d"] by (simp add: count_card)

end

interpretation bits: state_set bitset_ok bitset_set sg_bitset_zero sg_bitset_add sg_bitset_has
  sg_bitset_count
proof unfold_locales
  fix n d e
  show "bitset_ok n d \<Longrightarrow> bitset_ok n e \<Longrightarrow> bitset_set d = bitset_set e \<Longrightarrow> d = e"
    by (simp add: bitset_ok_eq_iff)
qed (auto simp: sg_bitset_add_ok sg_bitset_add_set sg_bitset_has_iff sg_bitset_count_card
      dest: bitset_okD)

end
