(* ===== verification/Sync_Motion.thy ===== *)
theory Sync_Motion
  imports Sync_Bitset Sync_Example
begin

text \<open>
  The motion semantics. \<open>run_word\<close> and \<open>output_trace\<close> are the automaton's behaviour from one
  state; \<open>motion_image\<close> is the image of a set. The operations of src/planner.c that move a bitset
  along an action or a word are modelled over the words of the bitset and shown to compute it.
\<close>

abbreviation delta :: "sg_automaton \<Rightarrow> nat \<Rightarrow> nat \<Rightarrow> nat" where
  "delta A s a \<equiv> sg_automaton_transition (Ref A) s a"

abbreviation eta :: "sg_automaton \<Rightarrow> nat \<Rightarrow> nat \<Rightarrow> nat" where
  "eta A s a \<equiv> sg_automaton_observation (Ref A) s a"

fun run_word :: "sg_automaton \<Rightarrow> nat \<Rightarrow> nat list \<Rightarrow> nat" where
  "run_word A s [] = s"
| "run_word A s (a # w) = run_word A (delta A s a) w"

fun output_trace :: "sg_automaton \<Rightarrow> nat \<Rightarrow> nat list \<Rightarrow> nat list" where
  "output_trace A s [] = []"
| "output_trace A s (a # w) = eta A s a # output_trace A (delta A s a) w"

definition word_ok :: "sg_automaton \<Rightarrow> nat list \<Rightarrow> bool" where
  "word_ok A w \<longleftrightarrow> list_all (\<lambda>a. a < au_action_count A) w"

definition motion_image :: "sg_automaton \<Rightarrow> nat set \<Rightarrow> nat list \<Rightarrow> nat set" where
  "motion_image A H w = (\<lambda>s. run_word A s w) ` H"

definition support_ok :: "sg_automaton \<Rightarrow> sg_bitset \<Rightarrow> bool" where
  "support_ok A bs \<longleftrightarrow> bitset_ok (au_state_count A) bs"

lemma word_ok_simps [simp]:
  "word_ok A []"
  "word_ok A (a # w) \<longleftrightarrow> a < au_action_count A \<and> word_ok A w"
  "word_ok A (v @ w) \<longleftrightarrow> word_ok A v \<and> word_ok A w"
  by (simp_all add: word_ok_def)

lemma run_word_append [simp]: "run_word A s (v @ w) = run_word A (run_word A s v) w"
  by (induction v arbitrary: s) simp_all

lemma output_trace_append [simp]:
  "output_trace A s (v @ w) = output_trace A s v @ output_trace A (run_word A s v) w"
  by (induction v arbitrary: s) simp_all

lemma length_output_trace [simp]: "length (output_trace A s w) = length w"
  by (induction w arbitrary: s) simp_all

lemma run_word_less:
  "wf_automaton A \<Longrightarrow> s < au_state_count A \<Longrightarrow> word_ok A w \<Longrightarrow> run_word A s w < au_state_count A"
  by (induction w arbitrary: s) (auto simp: transition_less)

lemma motion_image_simps [simp]:
  "motion_image A H [] = H"
  "motion_image A H (a # w) = motion_image A ((\<lambda>s. delta A s a) ` H) w"
  by (simp_all add: motion_image_def image_image)

lemma motion_image_append: "motion_image A H (v @ w) = motion_image A (motion_image A H v) w"
  by (simp add: motion_image_def image_image)

lemma motion_image_mono: "H \<subseteq> K \<Longrightarrow> motion_image A H w \<subseteq> motion_image A K w"
  by (auto simp: motion_image_def)

lemma motion_image_bound:
  "wf_automaton A \<Longrightarrow> H \<subseteq> {..<au_state_count A} \<Longrightarrow> word_ok A w \<Longrightarrow>
   motion_image A H w \<subseteq> {..<au_state_count A}"
  by (auto simp: motion_image_def run_word_less)

section \<open>Moving a bitset\<close>

definition sg_apply_action_set :: "sg_automaton \<Rightarrow> sg_bitset \<Rightarrow> nat \<Rightarrow> sg_bitset \<Rightarrow> sg_bitset" where
  "sg_apply_action_set automaton source action destination =
     foldl (\<lambda>dest state. if sg_bitset_has source state
                          then sg_bitset_add dest (delta automaton state action) else dest)
       (sg_bitset_clear destination) [0..<au_state_count automaton]"

definition sg_apply_observed_action_set ::
  "sg_automaton \<Rightarrow> sg_bitset \<Rightarrow> nat \<Rightarrow> nat \<Rightarrow> sg_bitset \<Rightarrow> sg_bitset" where
  "sg_apply_observed_action_set automaton source action output destination =
     foldl (\<lambda>dest state. if sg_bitset_has source state \<and> eta automaton state action = output
                          then sg_bitset_add dest (delta automaton state action) else dest)
       (sg_bitset_clear destination) [0..<au_state_count automaton]"

text \<open>The loop of \<open>sg_apply_word_set\<close>: the two buffers are swapped after every action.\<close>

fun sg_apply_word_loop ::
  "sg_automaton \<Rightarrow> nat list \<Rightarrow> sg_bitset \<Rightarrow> sg_bitset \<Rightarrow> sg_bitset res" where
  "sg_apply_word_loop automaton [] current next = Inr current"
| "sg_apply_word_loop automaton (action # word) current next =
     (if action \<ge> au_action_count automaton then Inl SG_ERR_INVALID_ARGUMENT
      else sg_apply_word_loop automaton word
             (sg_apply_action_set automaton current action next) current)"

definition sg_apply_word_set :: "sg_automaton \<Rightarrow> sg_bitset \<Rightarrow> nat list \<Rightarrow> sg_bitset res" where
  "sg_apply_word_set automaton source word =
     rbind (sg_bitset_copy source) (\<lambda>current.
     rbind (sg_bitset_init (au_state_count automaton)) (\<lambda>next.
     sg_apply_word_loop automaton word current next))"

definition sg_apply_word :: "sg_automaton ptr \<Rightarrow> nat list ptr \<Rightarrow> nat list ptr \<Rightarrow> nat list res" where
  "sg_apply_word automaton initial_states word =
     (case (automaton, initial_states, word) of
        (Ref a, Ref ids, Ref w) \<Rightarrow>
          if ids = [] then Inl SG_ERR_INVALID_ARGUMENT
          else rbind (sg_bitset_from_ids (au_state_count a) (Ref ids)) (\<lambda>initial.
               rbind (sg_apply_word_set a initial w) (\<lambda>final.
               Inr (sg_bitset_to_ids final)))
      | _ \<Rightarrow> Inl SG_ERR_INVALID_ARGUMENT)"


lemma support_okD:
  assumes "support_ok A bs"
  shows "bitset_ok (au_state_count A) bs" "bitset_set bs \<subseteq> {..<au_state_count A}"
    "finite (bitset_set bs)"
  using assms bits.elems_bound bits.finite_elems by (auto simp: support_ok_def)

lemma sg_apply_observed_action_set:
  assumes "wf_automaton A" "support_ok A src" "support_ok A dst" "a < au_action_count A"
  shows "support_ok A (sg_apply_observed_action_set A src a out dst)"
    and "bitset_set (sg_apply_observed_action_set A src a out dst) =
      (\<lambda>s. delta A s a) ` {s \<in> bitset_set src. eta A s a = out}"
proof -
  have clear: "sg_bitset_clear dst = sg_bitset_zero (au_state_count A)"
    using assms(3) by (simp add: support_ok_def sg_bitset_clear_eq)
  show "support_ok A (sg_apply_observed_action_set A src a out dst)"
    unfolding sg_apply_observed_action_set_def support_ok_def clear
    by (rule bits.image_fold(1)) (use assms in \<open>auto simp: support_ok_def transition_less\<close>)
  show "bitset_set (sg_apply_observed_action_set A src a out dst) =
      (\<lambda>s. delta A s a) ` {s \<in> bitset_set src. eta A s a = out}"
    unfolding sg_apply_observed_action_set_def clear
    by (rule bits.image_fold(2)) (use assms in \<open>auto simp: support_ok_def transition_less\<close>)
qed

lemma sg_apply_action_set:
  assumes "wf_automaton A" "support_ok A src" "support_ok A dst" "a < au_action_count A"
  shows "support_ok A (sg_apply_action_set A src a dst)"
    and "bitset_set (sg_apply_action_set A src a dst) = (\<lambda>s. delta A s a) ` bitset_set src"
proof -
  have clear: "sg_bitset_clear dst = sg_bitset_zero (au_state_count A)"
    using assms(3) by (simp add: support_ok_def sg_bitset_clear_eq)
  note fold = bits.image_fold[where P = "\<lambda>_. True", simplified]
  show "support_ok A (sg_apply_action_set A src a dst)"
    unfolding sg_apply_action_set_def support_ok_def clear
    by (rule fold(1)) (use assms in \<open>auto simp: support_ok_def transition_less\<close>)
  show "bitset_set (sg_apply_action_set A src a dst) = (\<lambda>s. delta A s a) ` bitset_set src"
    unfolding sg_apply_action_set_def clear
    by (rule fold(2)) (use assms in \<open>auto simp: support_ok_def transition_less\<close>)
qed

lemma sg_apply_word_loop:
  assumes "wf_automaton A" "support_ok A cur" "support_ok A nxt"
  shows "sg_apply_word_loop A w cur nxt = Inr res \<longleftrightarrow>
    word_ok A w \<and> support_ok A res \<and> bitset_set res = motion_image A (bitset_set cur) w"
  using assms(2,3)
proof (induction w arbitrary: cur nxt)
  case Nil
  then show ?case using bitset_ok_eq_iff[of "au_state_count A" cur res] by (auto simp: support_ok_def)
next
  case (Cons a w)
  then show ?case using sg_apply_action_set[OF assms(1) Cons.prems, of a] by auto
qed

lemma support_ok_zero [simp]:
  "wf_automaton A \<Longrightarrow> support_ok A (sg_bitset_zero (au_state_count A))"
  by (simp add: support_ok_def wf_automatonD)

lemma sg_apply_word_set_iff:
  assumes "wf_automaton A" "support_ok A src"
  shows "sg_apply_word_set A src w = Inr res \<longleftrightarrow>
    word_ok A w \<and> support_ok A res \<and> bitset_set res = motion_image A (bitset_set src) w"
  using assms sg_apply_word_loop[OF assms support_ok_zero[OF assms(1)]]
  by (simp add: sg_apply_word_set_def support_ok_def wf_automatonD)

lemma sg_apply_word_loop_exists:
  "word_ok A w \<Longrightarrow> \<exists>res. sg_apply_word_loop A w cur nxt = Inr res"
  by (induction w arbitrary: cur nxt) auto

lemma sg_apply_word_set_exists:
  "wf_automaton A \<Longrightarrow> support_ok A src \<Longrightarrow> word_ok A w \<Longrightarrow> \<exists>res. sg_apply_word_set A src w = Inr res"
  using sg_apply_word_loop_exists by (simp add: sg_apply_word_set_def support_ok_def wf_automatonD)

lemma sg_apply_word_loop_error:
  "\<not> word_ok A w \<Longrightarrow> sg_apply_word_loop A w cur nxt = Inl SG_ERR_INVALID_ARGUMENT"
  by (induction w arbitrary: cur nxt) auto

lemma sg_bitset_from_ids_ok:
  assumes "wf_automaton A"
  shows "sg_bitset_from_ids (au_state_count A) (Ref ids) = Inr bs \<longleftrightarrow>
    ids \<noteq> [] \<and> set ids \<subseteq> {..<au_state_count A} \<and> support_ok A bs \<and> bitset_set bs = set ids"
  using sg_bitset_from_ids_iff[OF wf_automatonD(1)[OF assms], of "Ref ids" bs]
  by (auto simp: support_ok_def)

text \<open>C18. \<open>sg_apply_word\<close> succeeds exactly on non-NULL arguments with a non-empty list of valid
  states and a word of valid actions, and then returns the image of the states in ascending order.\<close>

theorem apply_word_image:
  assumes wf: "wf_automaton A"
  shows "sg_apply_word (Ref A) initial word = Inr out \<longleftrightarrow>
    (\<exists>H w. initial = Ref H \<and> word = Ref w \<and> H \<noteq> [] \<and> set H \<subseteq> {..<au_state_count A} \<and> word_ok A w \<and>
       out = sorted_list_of_set (motion_image A (set H) w))"
proof -
  have "(\<exists>b. sg_bitset_from_ids (au_state_count A) (Ref H) = Inr b \<and>
        (\<exists>f. sg_apply_word_set A b w = Inr f \<and> sg_bitset_to_ids f = out)) \<longleftrightarrow>
      H \<noteq> [] \<and> set H \<subseteq> {..<au_state_count A} \<and> word_ok A w \<and>
       out = sorted_list_of_set (motion_image A (set H) w)" for H w
  proof
    assume "\<exists>b. sg_bitset_from_ids (au_state_count A) (Ref H) = Inr b \<and>
        (\<exists>f. sg_apply_word_set A b w = Inr f \<and> sg_bitset_to_ids f = out)"
    then show "H \<noteq> [] \<and> set H \<subseteq> {..<au_state_count A} \<and> word_ok A w \<and>
       out = sorted_list_of_set (motion_image A (set H) w)"
      using sg_apply_word_set_iff[OF wf] sg_bitset_to_ids_eq
      by (fastforce simp: sg_bitset_from_ids_ok[OF wf] support_ok_def)
  next
    assume *: "H \<noteq> [] \<and> set H \<subseteq> {..<au_state_count A} \<and> word_ok A w \<and>
       out = sorted_list_of_set (motion_image A (set H) w)"
    have ok: "bitset_ok (au_state_count A) (sg_bitset_zero (au_state_count A))"
      using wf by (simp add: wf_automatonD)
    obtain b where b: "sg_bitset_from_ids (au_state_count A) (Ref H) = Inr b"
      using * sg_bitset_add_ids_exists[OF ok, of H] wf
      by (auto simp: sg_bitset_from_ids_def wf_automatonD)
    then have sb: "support_ok A b" "bitset_set b = set H" by (auto simp: sg_bitset_from_ids_ok[OF wf])
    obtain f where f: "sg_apply_word_set A b w = Inr f"
      using sg_apply_word_set_exists[OF wf sb(1)] * by blast
    then have "sg_bitset_to_ids f = out"
      using * sb sg_apply_word_set_iff[OF wf sb(1)] sg_bitset_to_ids_eq[of "au_state_count A" f]
      by (auto simp: support_ok_def)
    with b f show "\<exists>b. sg_bitset_from_ids (au_state_count A) (Ref H) = Inr b \<and>
        (\<exists>f. sg_apply_word_set A b w = Inr f \<and> sg_bitset_to_ids f = out)" by blast
  qed
  then show ?thesis
    by (auto simp: sg_apply_word_def rbind_eq_Inr split: option.splits)
qed

theorem apply_word_image_witness:
  "sg_apply_word (Ref demo_automaton) (Ref [2, 0, 1]) (Ref [1, 0]) = Inr [0, 1]"
proof -
  have "sg_apply_word (Ref demo_automaton) (Ref [2, 0, 1]) (Ref [1, 0]) = Inr [0, 1] \<longleftrightarrow>
      ([2, 0, 1] :: nat list) \<noteq> [] \<and> set [2, 0, 1] \<subseteq> {..<au_state_count demo_automaton} \<and>
      word_ok demo_automaton [1, 0] \<and>
      [0, 1] = sorted_list_of_set (motion_image demo_automaton (set [2, 0, 1]) [1, 0])"
    using apply_word_image[OF demo_wf, of "Ref [2, 0, 1]" "Ref [1, 0]" "[0, 1]"] by blast
  also have "\<dots>" by code_simp
  finally show ?thesis by simp
qed

end
