(* ===== verification/Sync_Subset.thy ===== *)
theory Sync_Subset
  imports Sync_Search Sync_Motion
begin

text \<open>
  The breadth-first search over images of a support (src/planner.c): \<open>sg_subset_bfs\<close> looks for a
  word that leaves one state. The array of nodes is a list; its capacity is not modelled.
\<close>

section \<open>The search of the code\<close>

type_synonym sg_subset_node = "sg_bitset sg_node"

definition sg_subset_search_add ::
  "sg_subset_node list \<Rightarrow> sg_bitset \<Rightarrow> nat \<Rightarrow> nat \<Rightarrow> sg_subset_node list res" where
  "sg_subset_search_add nodes support parent action =
     rbind (sg_bitset_copy support) (\<lambda>copy.
     Inr (nodes @ [\<lparr>nd_payload = copy, nd_parent = parent, nd_action = action\<rparr>]))"

definition sg_subset_search_contains :: "sg_subset_node list \<Rightarrow> sg_bitset \<Rightarrow> bool" where
  "sg_subset_search_contains nodes support \<longleftrightarrow>
     list_ex (\<lambda>node. sg_bitset_equal (nd_payload node) support) nodes"

definition sg_subset_reconstruct ::
  "sg_subset_node list \<Rightarrow> nat \<Rightarrow> nat \<Rightarrow> nat list \<Rightarrow> nat list" where
  "sg_subset_reconstruct nodes parent final_action word =
     sg_reverse_word (sg_follow_parents nodes (word @ [final_action]) parent)"

text \<open>The loop over the letters of one expansion. \<open>next\<close> is the buffer that every letter reuses.\<close>

fun sg_subset_letters ::
  "sg_automaton \<Rightarrow> nat \<Rightarrow> nat list \<Rightarrow> nat list \<Rightarrow> sg_subset_node list \<Rightarrow> sg_bitset \<Rightarrow>
     (sg_subset_node list \<times> sg_bitset \<times> nat list option) res" where
  "sg_subset_letters automaton parent word [] nodes next = Inr (nodes, next, None)"
| "sg_subset_letters automaton parent word (action # actions) nodes next =
     (let next = sg_apply_action_set automaton (nd_payload (nodes ! parent)) action next
      in if sg_bitset_count next = 1
         then Inr (nodes, next, Some (sg_subset_reconstruct nodes parent action word))
         else if \<not> sg_subset_search_contains nodes next
         then rbind (sg_subset_search_add nodes next parent action) (\<lambda>nodes.
              sg_subset_letters automaton parent word actions nodes next)
         else sg_subset_letters automaton parent word actions nodes next)"

text \<open>The loop over the frontier; every round counts an expansion, so the budget ends it.\<close>

function sg_subset_loop ::
  "sg_automaton \<Rightarrow> nat list \<Rightarrow> nat \<Rightarrow> nat list \<Rightarrow> sg_subset_node list \<Rightarrow> sg_bitset \<Rightarrow> nat \<Rightarrow> nat \<Rightarrow>
     (sg_plan_outcome \<times> nat list \<times> nat) res" where
  "sg_subset_loop automaton actions budget word nodes next head expansions =
     (if \<not> head < length nodes then Inr (SG_OUTCOME_NO_PLAN, word, expansions)
      else if expansions \<ge> budget then Inr (SG_OUTCOME_RESOURCE_BOUND, word, expansions)
      else case sg_subset_letters automaton head word actions nodes next of
             Inl status \<Rightarrow> Inl status
           | Inr (nodes, next, Some plan) \<Rightarrow> Inr (SG_OUTCOME_PLAN, plan, expansions + 1)
           | Inr (nodes, next, None) \<Rightarrow>
               sg_subset_loop automaton actions budget word nodes next (head + 1) (expansions + 1))"
  by pat_completeness auto
termination
  by (relation "measure (\<lambda>(automaton, actions, budget, word, nodes, next, head, expansions).
        budget - expansions)") auto

declare sg_subset_loop.simps [simp del]

definition sg_subset_bfs ::
  "sg_automaton \<Rightarrow> sg_bitset \<Rightarrow> nat list ptr \<Rightarrow> nat \<Rightarrow> sg_plan_result \<Rightarrow> sg_plan_result res" where
  "sg_subset_bfs automaton initial allowed_actions budget result =
     (if pr_expansions result \<ge> budget then Inr (result\<lparr>pr_outcome := SG_OUTCOME_RESOURCE_BOUND\<rparr>)
      else rbind (sg_subset_search_add [] initial SG_INDEX_NONE SG_INDEX_NONE) (\<lambda>nodes.
           rbind (sg_bitset_init (au_state_count automaton)) (\<lambda>next.
           let actions = (case allowed_actions of NULL \<Rightarrow> [0..<au_action_count automaton]
                          | Ref allowed \<Rightarrow> allowed)
           in rbind (sg_subset_loop automaton actions budget (pr_word result) nodes next 0
                       (pr_expansions result)) (\<lambda>(outcome, word, expansions).
              Inr (result\<lparr>pr_outcome := outcome, pr_word := word, pr_expansions := expansions,
                          pr_method := (if outcome = SG_OUTCOME_PLAN then SG_METHOD_SUBSET_BFS
                                        else pr_method result)\<rparr>)))))"

section \<open>Supports as payloads\<close>

definition support_step :: "sg_automaton \<Rightarrow> sg_bitset \<Rightarrow> nat \<Rightarrow> sg_bitset" where
  "support_step A s a = sg_apply_action_set A s a (sg_bitset_zero (au_state_count A))"

definition action_ok :: "sg_automaton \<Rightarrow> nat \<Rightarrow> bool" where
  "action_ok A a \<longleftrightarrow> a < au_action_count A"

lemma support_eq_iff: "support_ok A s \<Longrightarrow> support_ok A t \<Longrightarrow> s = t \<longleftrightarrow> bitset_set s = bitset_set t"
  by (simp add: support_ok_def bitset_ok_eq_iff)

lemma support_step_ok:
  assumes "wf_automaton A" "support_ok A s" "a < au_action_count A"
  shows "support_ok A (support_step A s a)"
    and "bitset_set (support_step A s a) = (\<lambda>s. delta A s a) ` bitset_set s"
  using sg_apply_action_set[OF assms(1,2) support_ok_zero[OF assms(1)] assms(3)]
  by (simp_all add: support_step_def)

lemma sg_apply_action_set_step:
  assumes "wf_automaton A" "support_ok A s" "support_ok A dst" "a < au_action_count A"
  shows "sg_apply_action_set A s a dst = support_step A s a"
proof (rule support_eq_iff[THEN iffD2])
  show "support_ok A (sg_apply_action_set A s a dst)" "support_ok A (support_step A s a)"
    by (rule sg_apply_action_set(1)[OF assms], rule support_step_ok(1)[OF assms(1,2,4)])
  show "bitset_set (sg_apply_action_set A s a dst) = bitset_set (support_step A s a)"
    by (simp only: sg_apply_action_set(2)[OF assms] support_step_ok(2)[OF assms(1,2,4)])
qed

lemma finitely_many_supports: "finite {s. support_ok A s} \<and> card {s. support_ok A s} \<le> 2 ^ au_state_count A"
proof -
  have "inj_on bitset_set {s. support_ok A s}"
    by (rule inj_onI) (use support_eq_iff in blast)
  moreover have sub: "bitset_set ` {s. support_ok A s} \<subseteq> Pow {..<au_state_count A}"
    using support_okD(2) by blast
  ultimately show ?thesis
    using inj_on_finite[OF _ sub] card_inj_on_le[OF _ sub] by (simp add: card_Pow)
qed

interpretation supports: forward_search wf_automaton support_ok action_ok support_step sg_bitset_equal
  "\<lambda>A. 2 ^ au_state_count A"
proof unfold_locales
  show "support_ok A (support_step A s a)" if "wf_automaton A" "support_ok A s" "action_ok A a" for A s a
    using that support_step_ok(1) by (simp add: action_ok_def)
  show "sg_bitset_equal s t \<longleftrightarrow> s = t" if "support_ok A s" "support_ok A t" for A s t
    using that by (simp add: support_ok_def sg_bitset_equal_iff)
qed (rule finitely_many_supports)

lemma support_word:
  assumes "wf_automaton A"
  shows "support_ok A s \<Longrightarrow> word_ok A w \<Longrightarrow>
    support_ok A (foldl (support_step A) s w) \<and>
    bitset_set (foldl (support_step A) s w) = motion_image A (bitset_set s) w"
proof (induction w arbitrary: s)
  case (Cons a w)
  then have a: "a < au_action_count A" by simp
  from Cons.IH[OF support_step_ok(1)[OF assms Cons.prems(1) a]] Cons.prems
  show ?case by (simp add: support_step_ok(2)[OF assms Cons.prems(1) a])
qed simp

text \<open>Reading the states of a query.\<close>

lemma sg_bitset_add_ids_error:
  "\<not> set ids \<subseteq> {..<n} \<Longrightarrow> sg_bitset_add_ids n ids bs = Inl SG_ERR_INVALID_ARGUMENT"
  by (induction ids arbitrary: bs) auto

lemma from_ids_cases:
  assumes "wf_automaton A"
  shows "if ids \<noteq> [] \<and> set ids \<subseteq> {..<au_state_count A}
    then \<exists>s. sg_bitset_from_ids (au_state_count A) (Ref ids) = Inr s \<and> support_ok A s \<and> bitset_set s = set ids \<and>
      bitset_set s \<noteq> {} \<and> sg_bitset_copy s = Inr s \<and> sg_bitset_count s = card (set ids)
    else sg_bitset_from_ids (au_state_count A) (Ref ids) = Inl SG_ERR_INVALID_ARGUMENT"
proof (cases "ids \<noteq> [] \<and> set ids \<subseteq> {..<au_state_count A}")
  case True
  then obtain s where s: "sg_bitset_from_ids (au_state_count A) (Ref ids) = Inr s"
    using sg_bitset_add_ids_exists[of "au_state_count A" "sg_bitset_zero (au_state_count A)" ids] assms
    by (auto simp: sg_bitset_from_ids_def wf_automatonD)
  then have "support_ok A s" "bitset_set s = set ids" using sg_bitset_from_ids_ok[OF assms] by auto
  with s True show ?thesis using sg_bitset_count_card by (simp add: support_ok_def)
next
  case False
  then show ?thesis
    using assms sg_bitset_add_ids_error[of ids "au_state_count A"]
    by (auto simp: sg_bitset_from_ids_def wf_automatonD)
qed

section \<open>Correctness of the search\<close>

lemma letters_ok: "set L \<subseteq> {..<au_action_count A} \<Longrightarrow> \<forall>a \<in> set L. action_ok A a"
  by (auto simp: action_ok_def)

lemma sg_subset_letters_ok:
  assumes wf: "wf_automaton A" and root: "support_ok A root" and L: "set L \<subseteq> {..<au_action_count A}"
    and h: "head \<noteq> SG_INDEX_NONE"
  shows "search_tree (support_step A) (set L) root nodes words \<Longrightarrow>
    search_front (support_step A) (set L) (\<lambda>s. sg_bitset_count s = 1) nodes words head handled \<Longrightarrow>
    head < length nodes \<Longrightarrow> support_ok A next \<Longrightarrow> set actions \<subseteq> set L \<Longrightarrow>
    \<exists>nodes' next' found words'. sg_subset_letters A head [] actions nodes next = Inr (nodes', next', found) \<and>
      (case found of
         Some w \<Rightarrow> shortest_goal_word (support_step A) (set L) (\<lambda>s. sg_bitset_count s = 1) root w
       | None \<Rightarrow> search_tree (support_step A) (set L) root nodes' words' \<and>
           search_front (support_step A) (set L) (\<lambda>s. sg_bitset_count s = 1) nodes' words' head (set actions \<union> handled) \<and>
           head < length nodes' \<and> support_ok A next')"
proof (induction actions arbitrary: nodes words handled "next")
  case Nil
  then show ?case by auto
next
  case (Cons a as)
  note T = Cons.prems(1) and F = Cons.prems(2) and lt = Cons.prems(3)
  let ?p = "nd_payload (nodes ! head)"
  let ?q = "support_step A ?p a"
  have a: "a \<in> set L" "a < au_action_count A" using Cons.prems(5) L by auto
  have p: "support_ok A ?p" by (rule supports.tree_valid[OF wf root letters_ok[OF L] T lt])
  have q: "sg_apply_action_set A ?p a next = ?q" "support_ok A ?q"
    by (rule sg_apply_action_set_step[OF wf p Cons.prems(4) a(2)], rule support_step_ok(1)[OF wf p a(2)])
  have sets: "set as \<union> insert a handled = set (a # as) \<union> handled" by auto
  have known: "sg_subset_search_contains nodes ?q \<longleftrightarrow> ?q \<in> set (payloads nodes)"
    unfolding sg_subset_search_contains_def by (rule supports.known_iff[OF wf root letters_ok[OF L] T q(2)])
  show ?case
  proof (cases "sg_bitset_count ?q = 1")
    case True
    have "sg_subset_reconstruct nodes head a [] = words ! head @ [a]"
      using search_tree_follow[OF T lt] by (simp add: sg_subset_reconstruct_def)
    with True search_goal_shortest[OF T F lt a(1), OF True] show ?thesis by (simp add: q(1))
  next
    case goal: False
    show ?thesis
    proof (cases "sg_subset_search_contains nodes ?q")
      case True
      with known have "search_front (support_step A) (set L) (\<lambda>s. sg_bitset_count s = 1) nodes words head (insert a handled)"
        by (intro search_front_skip[OF F lt]) simp
      from Cons.IH[OF T this lt q(2), unfolded sets] Cons.prems(5) True goal show ?thesis by (simp add: q(1) Let_def)
    next
      case False
      let ?n = "\<lparr>nd_payload = ?q, nd_parent = head, nd_action = a\<rparr>"
      have add: "sg_subset_search_add nodes ?q head a = Inr (nodes @ [?n])"
        using q(2) by (simp add: sg_subset_search_add_def support_ok_def)
      have T': "search_tree (support_step A) (set L) root (nodes @ [?n]) (words @ [words ! head @ [a]])"
        by (rule search_tree_add[OF T lt h a(1) refl])
      have F': "search_front (support_step A) (set L) (\<lambda>s. sg_bitset_count s = 1)
          (nodes @ [?n]) (words @ [words ! head @ [a]]) head (insert a handled)"
        using False known goal by (intro search_front_add[OF T F lt refl]) simp_all
      have lt': "head < length (nodes @ [?n])" using lt by simp
      from Cons.IH[OF T' F' lt' q(2), unfolded sets] Cons.prems(5) False goal add show ?thesis by (simp add: q(1) Let_def)
    qed
  qed
qed

lemma sg_subset_loop_ok:
  assumes wf: "wf_automaton A" and root: "support_ok A root" and L: "set L \<subseteq> {..<au_action_count A}"
    and B: "budget \<le> SIZE_MAX"
  shows "search_tree (support_step A) (set L) root nodes words \<Longrightarrow>
    search_front (support_step A) (set L) (\<lambda>s. sg_bitset_count s = 1) nodes words head {} \<Longrightarrow>
    support_ok A next \<Longrightarrow> expansions = used + head \<Longrightarrow> expansions \<le> budget \<Longrightarrow>
    \<exists>outcome word' expansions'.
      sg_subset_loop A L budget [] nodes next head expansions = Inr (outcome, word', expansions') \<and>
      search_outcome (support_step A) (set L) (\<lambda>s. sg_bitset_count s = 1) root (2 ^ au_state_count A) used budget
        outcome word' expansions' \<and> (outcome \<noteq> SG_OUTCOME_PLAN \<longrightarrow> word' = [])"
proof (induction "budget - expansions" arbitrary: nodes words "next" head expansions rule: less_induct)
  case (less expansions nodes words "next" head)
  note T = less.prems(1) and F = less.prems(2)
  show ?case
  proof (cases "head < length nodes")
    case False
    with search_frontD(3)[OF F] have "head = length nodes" by simp
    with supports.exhausted_outcome[OF T, of "\<lambda>s. sg_bitset_count s = 1" "{}" used expansions budget "[]"] F less.prems(4,5)
    show ?thesis by (simp add: sg_subset_loop.simps)
  next
    case lt: True
    show ?thesis
    proof (cases "expansions = budget")
      case True
      with supports.stopped_outcome[OF wf root letters_ok[OF L] T F lt less.prems(4) True, of "[]"] lt
      show ?thesis by (simp add: sg_subset_loop.simps)
    next
      case False
      with less.prems(4,5) have small: "expansions < budget" "head \<noteq> SG_INDEX_NONE" using B by linarith+
      obtain nodes' next' found words' where run: "sg_subset_letters A head [] L nodes next = Inr (nodes', next', found)"
        and found: "case found of
         Some w \<Rightarrow> shortest_goal_word (support_step A) (set L) (\<lambda>s. sg_bitset_count s = 1) root w
       | None \<Rightarrow> search_tree (support_step A) (set L) root nodes' words' \<and>
           search_front (support_step A) (set L) (\<lambda>s. sg_bitset_count s = 1) nodes' words' head (set L) \<and>
           head < length nodes' \<and> support_ok A next'"
        using sg_subset_letters_ok[OF wf root L small(2) T F lt less.prems(3) subset_refl, unfolded Un_empty_right] by blast
      show ?thesis
      proof (cases found)
        case (Some w)
        with found run lt small less.prems(4,5) show ?thesis by (simp add: sg_subset_loop.simps)
      next
        case None
        then have T': "search_tree (support_step A) (set L) root nodes' words'"
          and F': "search_front (support_step A) (set L) (\<lambda>s. sg_bitset_count s = 1) nodes' words' (Suc head) {}"
          and n': "support_ok A next'"
          using found by (auto intro: search_front_advance)
        have "sg_subset_loop A L budget [] nodes next head expansions =
            sg_subset_loop A L budget [] nodes' next' (Suc head) (Suc expansions)"
          using None run lt small by (simp add: sg_subset_loop.simps[of _ _ _ _ nodes])
        with less.hyps[OF _ T' F' n', of "Suc expansions"] small less.prems(4,5) show ?thesis by simp
      qed
    qed
  qed
qed

text \<open>In terms of the automaton: a synchronizing word over the letters.\<close>

definition sync_word :: "sg_automaton \<Rightarrow> nat set \<Rightarrow> nat set \<Rightarrow> nat list \<Rightarrow> bool" where
  "sync_word A L H w \<longleftrightarrow> set w \<subseteq> L \<and> card (motion_image A H w) = 1"

lemma word_ok_set: "word_ok A w \<longleftrightarrow> set w \<subseteq> {..<au_action_count A}"
  by (auto simp: word_ok_def list_all_iff)

lemma support_goal:
  assumes "wf_automaton A" "support_ok A s" "set w \<subseteq> {..<au_action_count A}"
  shows "sg_bitset_count (foldl (support_step A) s w) = card (motion_image A (bitset_set s) w)"
  using support_word[OF assms(1,2)] assms(3) sg_bitset_count_card
  by (metis support_ok_def word_ok_set)

definition allowed_letters :: "sg_automaton \<Rightarrow> nat list ptr \<Rightarrow> nat list" where
  "allowed_letters A allowed = (case allowed of NULL \<Rightarrow> [0..<au_action_count A] | Ref as \<Rightarrow> as)"

text \<open>What the search reports for the states \<open>H\<close>.\<close>

definition sync_search_ok ::
  "sg_automaton \<Rightarrow> nat set \<Rightarrow> nat set \<Rightarrow> nat \<Rightarrow> sg_plan_result \<Rightarrow> sg_plan_result \<Rightarrow> bool" where
  "sync_search_ok A L H budget r r' \<longleftrightarrow>
     pr_expansions r \<le> pr_expansions r' \<and> pr_expansions r' \<le> budget \<and>
     pr_generation r' = pr_generation r \<and>
     (case pr_outcome r' of
        SG_OUTCOME_PLAN \<Rightarrow> sync_word A L H (pr_word r') \<and> pr_method r' = SG_METHOD_SUBSET_BFS \<and>
          (\<forall>v. sync_word A L H v \<longrightarrow> length (pr_word r') \<le> length v)
      | SG_OUTCOME_NO_PLAN \<Rightarrow> pr_word r' = [] \<and> pr_method r' = pr_method r \<and> (\<forall>v. \<not> sync_word A L H v)
      | SG_OUTCOME_RESOURCE_BOUND \<Rightarrow> pr_word r' = [] \<and> pr_method r' = pr_method r \<and>
          pr_expansions r' = budget \<and> budget < pr_expansions r + 2 ^ au_state_count A
      | SG_OUTCOME_ALREADY_SATISFIED \<Rightarrow> False)"

lemma sg_subset_bfs_ok:
  assumes wf: "wf_automaton A" and init: "support_ok A init" "sg_bitset_count init \<noteq> 1"
    and L: "set (allowed_letters A allowed) \<subseteq> {..<au_action_count A}"
    and B: "budget \<le> SIZE_MAX" "pr_expansions r \<le> budget" and w: "pr_word r = []"
  shows "\<exists>r'. sg_subset_bfs A init allowed budget r = Inr r' \<and>
    sync_search_ok A (set (allowed_letters A allowed)) (bitset_set init) budget r r'"
proof (cases "pr_expansions r = budget")
  case True
  then show ?thesis using w by (simp add: sg_subset_bfs_def sync_search_ok_def)
next
  case False
  let ?L = "allowed_letters A allowed" and ?goal = "\<lambda>s. sg_bitset_count s = 1"
  let ?root = "\<lparr>nd_payload = init, nd_parent = SG_INDEX_NONE, nd_action = SG_INDEX_NONE\<rparr>"
  have add: "sg_subset_search_add [] init SG_INDEX_NONE SG_INDEX_NONE = Inr [?root]"
    using init(1) by (simp add: sg_subset_search_add_def support_ok_def)
  have zero: "support_ok A (sg_bitset_zero (au_state_count A))" by (rule support_ok_zero[OF wf])
  obtain outcome word expansions where
    loop: "sg_subset_loop A ?L budget [] [?root] (sg_bitset_zero (au_state_count A)) 0 (pr_expansions r) =
      Inr (outcome, word, expansions)"
    and out: "search_outcome (support_step A) (set ?L) ?goal init (2 ^ au_state_count A) (pr_expansions r) budget
        outcome word expansions" "outcome \<noteq> SG_OUTCOME_PLAN \<longrightarrow> word = []"
    using sg_subset_loop_ok[OF wf init(1) L B(1) search_tree_root[where a = SG_INDEX_NONE]
          search_front_root[of ?goal, OF init(2)] zero, of "pr_expansions r" "pr_expansions r"]
      B(2) by auto
  have init_bits: "sg_bitset_init (au_state_count A) = Inr (sg_bitset_zero (au_state_count A))"
    using wf by (simp add: wf_automatonD)
  have goal: "?goal (foldl (support_step A) init v) \<longleftrightarrow> sync_word A (set ?L) (bitset_set init) v" if "set v \<subseteq> set ?L" for v
    using support_goal[OF wf init(1), of v] that L by (auto simp: sync_word_def)
  have letters: "\<And>v. sync_word A (set ?L) (bitset_set init) v \<Longrightarrow> set v \<subseteq> set ?L" by (simp add: sync_word_def)
  let ?r = "r\<lparr>pr_outcome := outcome, pr_word := word, pr_expansions := expansions,
      pr_method := (if outcome = SG_OUTCOME_PLAN then SG_METHOD_SUBSET_BFS else pr_method r)\<rparr>"
  have "sg_subset_bfs A init allowed budget r = Inr ?r"
    using False B(2) add init_bits loop w by (simp add: sg_subset_bfs_def allowed_letters_def)
  moreover have "sync_search_ok A (set ?L) (bitset_set init) budget r ?r"
    using out goal letters
    by (cases outcome) (auto simp: sync_search_ok_def shortest_goal_word_def)
  ultimately show ?thesis by blast
qed

end
