(* ===== verification/Sync_Pairs.thy ===== *)
theory Sync_Pairs
  imports Sync_Motion
begin

text \<open>
  The numbering of unordered state pairs (src/oracle.c): \<open>sg_pair_index\<close> on \<open>size_t\<close>, the checked
  pair count, and the proof that the index enumerates the pairs row by row without wrapping.
\<close>

section \<open>The index of a pair\<close>

text \<open>The expression of the code, every operation reduced modulo \<open>2 ^ 64\<close>.\<close>

definition sg_pair_index :: "nat \<Rightarrow> nat \<Rightarrow> nat \<Rightarrow> nat" where
  "sg_pair_index state_count first second =
     (let (first, second) = (if first > second then (second, first) else (first, second));
          row = (first * state_count) mod 2 ^ 64;
          triangle = ((first * ((first + 1) mod 2 ^ 64)) mod 2 ^ 64) div 2
      in ((row + 2 ^ 64 - triangle) mod 2 ^ 64 + second) mod 2 ^ 64)"

definition sg_pair_count :: "nat \<Rightarrow> nat option" where
  "sg_pair_count state_count =
     (if state_count = SIZE_MAX then None
      else case sg_size_multiply state_count (state_count + 1) of
             None \<Rightarrow> None
           | Some product \<Rightarrow> Some (product div 2))"

text \<open>The same with the power as a literal, which evaluates faster.\<close>

lemma sg_pair_index_code [code]:
  "sg_pair_index state_count first second =
     (let (first, second) = (if first > second then (second, first) else (first, second));
          row = (first * state_count) mod 18446744073709551616;
          triangle = ((first * ((first + 1) mod 18446744073709551616)) mod 18446744073709551616) div 2
      in ((row + 18446744073709551616 - triangle) mod 18446744073709551616 + second) mod 18446744073709551616)"
  by (simp add: sg_pair_index_def)

text \<open>The pairs in index order: the two nested loops of \<open>sg_oracle_fill_pairs\<close>.\<close>

definition state_pairs :: "nat \<Rightarrow> (nat \<times> nat) list" where
  "state_pairs n = concat (map (\<lambda>first. map (Pair first) [first..<n]) [0..<n])"

section \<open>No wrap-around\<close>

lemma sg_pair_count_Some:
  "sg_pair_count n = Some c \<longleftrightarrow> n \<noteq> SIZE_MAX \<and> n * (n + 1) \<le> SIZE_MAX \<and> c = n * (n + 1) div 2"
  by (auto simp: sg_pair_count_def sg_size_multiply_Some split: option.splits)
    (auto simp: sg_size_multiply_if split: if_splits)

lemma triangle_le: "f \<le> n \<Longrightarrow> f * (f + 1) div 2 \<le> f * (n :: nat)"
proof (cases f)
  case (Suc g)
  assume "f \<le> n"
  have "f * (f + 1) \<le> f * (2 * f)" using Suc by (intro mult_le_mono2) simp
  then have "f * (f + 1) \<le> 2 * (f * f)" by (simp only: mult.left_commute)
  then have "f * (f + 1) div 2 \<le> 2 * (f * f) div 2" by (rule div_le_mono)
  then have "f * (f + 1) div 2 \<le> f * f" by simp
  also have "\<dots> \<le> f * n" using \<open>f \<le> n\<close> by (rule mult_le_mono2)
  finally show ?thesis .
qed simp

lemma sg_pair_index_commute: "sg_pair_index n s t = sg_pair_index n t s"
  by (cases s t rule: linorder_cases) (simp_all add: sg_pair_index_def)

lemma sg_pair_index_exact:
  assumes n: "n * (n + 1) \<le> SIZE_MAX" and fs: "f \<le> s" "s < n"
  shows "sg_pair_index n f s = f * n - f * (f + 1) div 2 + s"
proof -
  have max: "SIZE_MAX < 2 ^ 64" by (simp add: SIZE_MAX_def)
  have fn: "f < n" using fs by simp
  have nn: "f * n \<le> n * (n + 1)" using fn by (intro mult_le_mono) auto
  have ff: "f * (f + 1) \<le> n * (n + 1)" using fn by (intro mult_le_mono) auto
  have "f + 1 \<le> n * (n + 1)" using fn by (cases n) auto
  then have small: "f * n < 2 ^ 64" "f * (f + 1) < 2 ^ 64" "f + 1 < 2 ^ 64"
    using nn ff n max by linarith+
  have tri: "f * (f + 1) div 2 \<le> f * n" using fn by (intro triangle_le) simp
  then have "f * n + 2 ^ 64 - f * (f + 1) div 2 = f * n - f * (f + 1) div 2 + 2 ^ 64" by simp
  moreover have "(f * n - f * (f + 1) div 2 + 2 ^ 64) mod 2 ^ 64 = f * n - f * (f + 1) div 2"
    using small(1) by (simp only: mod_add_self2) (simp add: less_imp_diff_less)
  ultimately have "(f * n + 2 ^ 64 - f * (f + 1) div 2) mod 2 ^ 64 = f * n - f * (f + 1) div 2"
    by (simp only:)
  moreover have "f * n - f * (f + 1) div 2 + s < 2 ^ 64"
  proof -
    have "f * n + s \<le> n * n + n" using fn fs(2) by (intro add_mono mult_le_mono) auto
    then show ?thesis using n max by (simp add: algebra_simps)
  qed
  moreover have "(f * n) mod 2 ^ 64 = f * n" "(f + 1) mod 2 ^ 64 = f + 1"
      "(f * (f + 1)) mod 2 ^ 64 = f * (f + 1)"
    using small by (simp_all only: mod_less)
  moreover have "\<not> f > s" using fs(1) by simp
  ultimately show ?thesis
    unfolding sg_pair_index_def Let_def by (simp only: if_False prod.case mod_less)
qed

section \<open>The enumeration\<close>

definition pair_row :: "nat \<Rightarrow> nat \<Rightarrow> nat" where
  "pair_row n k = length (concat (map (\<lambda>first. map (Pair first) [first..<n]) [0..<k]))"

lemma pair_row_simps [simp]: "pair_row n 0 = 0" "pair_row n (Suc k) = pair_row n k + (n - k)"
  by (simp_all add: pair_row_def)

lemma pair_row_closed: "k \<le> n \<Longrightarrow> pair_row n k + k * (k + 1) div 2 = k * n + k"
proof (induction k)
  case (Suc k)
  have "Suc k * (Suc k + 1) = k * (k + 1) + 2 * Suc k" by simp
  then have "Suc k * (Suc k + 1) div 2 = k * (k + 1) div 2 + Suc k" by simp
  with Suc show ?case by simp
qed simp

lemma length_state_pairs: "length (state_pairs n) = n * (n + 1) div 2"
proof -
  have "pair_row n n + n * (n + 1) div 2 = n * (n + 1)"
    using pair_row_closed[of n n] by simp
  moreover have "n * (n + 1) div 2 + n * (n + 1) div 2 = n * (n + 1)"
    by (cases "even n") (auto elim!: evenE oddE)
  ultimately have "pair_row n n = n * (n + 1) div 2" by linarith
  then show ?thesis by (simp add: state_pairs_def pair_row_def)
qed

lemma state_pairs_split:
  assumes "k < n"
  shows "\<exists>rest. state_pairs n =
    concat (map (\<lambda>first. map (Pair first) [first..<n]) [0..<k]) @ map (Pair k) [k..<n] @ rest"
proof -
  have "[0..<n] = [0..<k] @ k # [Suc k..<n]" using assms by (metis less_imp_add_positive upt_add_eq_append upt_rec zero_le)
  then show ?thesis by (simp add: state_pairs_def)
qed

text \<open>The position of a pair in the enumeration, without the arithmetic of the code.\<close>

lemma nth_state_pairs:
  assumes "f \<le> s" "s < n"
  shows "pair_row n f + (s - f) < length (state_pairs n)"
    and "state_pairs n ! (pair_row n f + (s - f)) = (f, s)"
proof -
  from assms state_pairs_split[of f n] obtain rest where
    split: "state_pairs n = concat (map (\<lambda>first. map (Pair first) [first..<n]) [0..<f]) @
      map (Pair f) [f..<n] @ rest" by auto
  define pre where "pre = concat (map (\<lambda>first. map (Pair first) [first..<n]) [0..<f])"
  have row: "pair_row n f = length pre" by (simp add: pre_def pair_row_def)
  have pairs: "state_pairs n = pre @ map (Pair f) [f..<n] @ rest" by (simp add: split pre_def)
  show "pair_row n f + (s - f) < length (state_pairs n)"
    using assms by (simp add: pairs row)
  show "state_pairs n ! (pair_row n f + (s - f)) = (f, s)"
    using assms diff_less_mono[of s n f] unfolding pairs row nth_append_length_plus
    by (simp add: nth_append)
qed

lemma sg_pair_index_row:
  assumes "n * (n + 1) \<le> SIZE_MAX" "f \<le> s" "s < n"
  shows "sg_pair_index n f s = pair_row n f + (s - f)"
proof -
  have "f * (f + 1) div 2 \<le> f * n" using assms by (intro triangle_le) simp
  then show ?thesis
    using pair_row_closed[of f n] assms sg_pair_index_exact[OF assms] by simp
qed

lemma set_state_pairs: "set (state_pairs n) = {(f, s). f \<le> s \<and> s < n}"
  by (force simp: state_pairs_def)

lemma distinct_state_pairs: "distinct (state_pairs n)"
proof -
  have "distinct (concat (map (\<lambda>first. map (Pair first) [first..<n]) [0..<k]))" for k
    by (induction k) (auto simp: distinct_map inj_on_def)
  then show ?thesis by (simp add: state_pairs_def)
qed

lemma pair_index_position:
  assumes "sg_pair_count n = Some c" and "s < n" "t < n"
  shows "sg_pair_index n s t < c" "state_pairs n ! sg_pair_index n s t = (min s t, max s t)"
    "length (state_pairs n) = c"
proof -
  have n: "n * (n + 1) \<le> SIZE_MAX" "c = length (state_pairs n)"
    using assms(1) by (auto simp: sg_pair_count_Some length_state_pairs)
  have "sg_pair_index n s t = sg_pair_index n (min s t) (max s t)"
    using sg_pair_index_commute[of n s t] by (simp add: min_def max_def)
  also have "\<dots> = pair_row n (min s t) + (max s t - min s t)"
    using assms by (intro sg_pair_index_row n) auto
  finally have "sg_pair_index n s t = pair_row n (min s t) + (max s t - min s t)" .
  moreover have "min s t \<le> max s t" "max s t < n" using assms by auto
  note nth_state_pairs[OF this]
  ultimately show "sg_pair_index n s t < c" "state_pairs n ! sg_pair_index n s t = (min s t, max s t)"
    "length (state_pairs n) = c"
    using n(2) by metis+
qed

lemmas pair_index_less = pair_index_position(1)

text \<open>C22. The pair index enumerates the unordered pairs of states: on a state count whose pair count
  fits, no operation of \<open>sg_pair_index\<close> wraps, the index is symmetric, below the pair count, and is
  the position of the pair in the order the table is filled in.\<close>

theorem pair_index_enumerates:
  assumes "sg_pair_count n = Some c" and "s < n" "t < n"
  shows "sg_pair_index n s t < c \<and> sg_pair_index n s t = sg_pair_index n t s \<and>
    state_pairs n ! sg_pair_index n s t = (min s t, max s t) \<and> length (state_pairs n) = c \<and>
    distinct (state_pairs n)"
  using pair_index_position[OF assms] sg_pair_index_commute distinct_state_pairs by blast

theorem pair_index_enumerates_witness:
  "sg_pair_index 3 2 1 < 6 \<and> state_pairs 3 ! sg_pair_index 3 2 1 = (min 2 1, max 2 1)"
proof -
  have "sg_pair_count 3 = Some 6" by code_simp
  moreover have "(2 :: nat) < 3" "(1 :: nat) < 3" by simp_all
  ultimately show ?thesis using pair_index_enumerates by blast
qed

end
