(* ===== verification/Sync_Oracle.thy ===== *)
theory Sync_Oracle
  imports Sync_Pairs Sync_Result
begin

text \<open>
  The pair oracle of src/oracle.c: for every unordered pair of states the successor pairs, whether
  the outputs differ, and the exact distances to a merge and to a resolution with their first
  witness action, next pair and support count. The oracle holds its automaton by value.
\<close>

section \<open>The table\<close>

record sg_pair_oracle =
  po_automaton :: sg_automaton
  po_pair_count :: nat
  po_first :: "nat list"
  po_second :: "nat list"
  po_next :: "nat list"
  po_outputs_differ :: "bool list"
  po_merge_distance :: "nat list"
  po_merge_action :: "nat list"
  po_merge_next :: "nat list"
  po_merge_support_count :: "nat list"
  po_resolution_distance :: "nat list"
  po_resolution_action :: "nat list"
  po_resolution_next :: "nat list"
  po_resolution_support_count :: "nat list"

record sg_pair_record =
  rec_pair :: nat
  rec_mergeable :: bool
  rec_merge_distance :: nat
  rec_merge_action :: nat
  rec_merge_next_pair :: nat
  rec_merge_support_count :: nat
  rec_resolvable :: bool
  rec_resolution_distance :: nat
  rec_resolution_action :: nat
  rec_resolution_next_pair :: nat
  rec_resolution_support_count :: nat

text \<open>The arrays that \<open>calloc\<close> zeroes and \<open>sg_oracle_arrays_initialize\<close> fills.\<close>

definition sg_oracle_allocate :: "sg_automaton \<Rightarrow> sg_pair_oracle res" where
  "sg_oracle_allocate automaton =
     (case sg_pair_count (au_state_count automaton) of
        None \<Rightarrow> Inl SG_ERR_ALLOC
      | Some pair_count \<Rightarrow>
          (case sg_size_multiply pair_count (au_action_count automaton) of
             None \<Rightarrow> Inl SG_ERR_ALLOC
           | Some edge_count \<Rightarrow>
               Inr \<lparr>po_automaton = automaton, po_pair_count = pair_count,
                    po_first = replicate pair_count 0, po_second = replicate pair_count 0,
                    po_next = replicate edge_count 0,
                    po_outputs_differ = replicate edge_count False,
                    po_merge_distance = replicate pair_count SG_INDEX_NONE,
                    po_merge_action = replicate pair_count SG_INDEX_NONE,
                    po_merge_next = replicate pair_count SG_INDEX_NONE,
                    po_merge_support_count = replicate pair_count 0,
                    po_resolution_distance = replicate pair_count SG_INDEX_NONE,
                    po_resolution_action = replicate pair_count SG_INDEX_NONE,
                    po_resolution_next = replicate pair_count SG_INDEX_NONE,
                    po_resolution_support_count = replicate pair_count 0\<rparr>))"

text \<open>The three loops of \<open>sg_oracle_fill_pairs\<close>; the running pair number is part of the state.\<close>

definition sg_oracle_fill_edge ::
  "nat \<Rightarrow> nat \<Rightarrow> nat \<Rightarrow> sg_pair_oracle \<Rightarrow> nat \<Rightarrow> sg_pair_oracle" where
  "sg_oracle_fill_edge pair first second oracle action =
     (let automaton = po_automaton oracle;
          first_next = delta automaton first action;
          second_next = delta automaton second action;
          edge = pair * au_action_count automaton + action
      in oracle\<lparr>po_next := (po_next oracle)
                  [edge := sg_pair_index (au_state_count automaton) first_next second_next],
                po_outputs_differ := (po_outputs_differ oracle)
                  [edge := (eta automaton first action \<noteq> eta automaton second action)]\<rparr>)"

definition sg_oracle_fill_pair :: "sg_pair_oracle \<times> nat \<Rightarrow> nat \<times> nat \<Rightarrow> sg_pair_oracle \<times> nat" where
  "sg_oracle_fill_pair state states =
     (let (oracle, pair) = state; (first, second) = states
      in (foldl (sg_oracle_fill_edge pair first second)
            (oracle\<lparr>po_first := (po_first oracle)[pair := first],
                    po_second := (po_second oracle)[pair := second]\<rparr>)
            [0..<au_action_count (po_automaton oracle)],
          pair + 1))"

definition sg_oracle_fill_pairs :: "sg_pair_oracle \<Rightarrow> sg_pair_oracle" where
  "sg_oracle_fill_pairs oracle =
     (let states = au_state_count (po_automaton oracle)
      in fst (foldl (\<lambda>state first.
                foldl (\<lambda>state second. sg_oracle_fill_pair state (first, second)) state [first..<states])
              (oracle, 0) [0..<states]))"

section \<open>The reverse edges\<close>

record sg_predecessors =
  pd_offsets :: "nat list"
  pd_pairs :: "nat list"
  pd_actions :: "nat list"

text \<open>The counting sort of the edges by their target.\<close>

definition sg_predecessors_place ::
  "nat list \<Rightarrow> nat \<Rightarrow> nat \<Rightarrow> sg_predecessors \<times> nat list \<Rightarrow> nat \<Rightarrow> sg_predecessors \<times> nat list" where
  "sg_predecessors_place next_pairs actions pair state action =
     (let (preds, counts) = state;
          target = next_pairs ! (pair * actions + action);
          position = counts ! target
      in (preds\<lparr>pd_pairs := (pd_pairs preds)[position := pair],
                pd_actions := (pd_actions preds)[position := action]\<rparr>,
          counts[target := counts ! target + 1]))"

definition sg_predecessors_build :: "sg_pair_oracle \<Rightarrow> sg_predecessors" where
  "sg_predecessors_build oracle =
     (let actions = au_action_count (po_automaton oracle);
          pairs = po_pair_count oracle;
          edge_count = (pairs * actions) mod 2 ^ 64;
          counts = foldl (\<lambda>counts edge.
              counts[po_next oracle ! edge := counts ! (po_next oracle ! edge) + 1])
            (replicate pairs 0) [0..<edge_count];
          (offsets, counts) = foldl (\<lambda>(offsets, counts) pair.
              let offsets = offsets[pair + 1 := offsets ! pair + counts ! pair]
              in (offsets, counts[pair := offsets ! pair]))
            (replicate (pairs + 1) 0, counts) [0..<pairs];
          (preds, counts) = foldl (\<lambda>state pair.
              foldl (sg_predecessors_place (po_next oracle) actions pair) state [0..<actions])
            (\<lparr>pd_offsets = offsets, pd_pairs = replicate edge_count 0,
              pd_actions = replicate edge_count 0\<rparr>, counts) [0..<pairs]
      in preds)"

section \<open>Distances\<close>

text \<open>
  The search state is the distance array, the used part of the queue and the head. An increment
  below is guarded by a comparison with \<open>SG_INDEX_NONE\<close>, the largest \<open>size_t\<close>, so it cannot wrap.
\<close>

type_synonym distance_search = "nat list \<times> nat list \<times> nat"

definition sg_merge_seed :: "sg_pair_oracle \<Rightarrow> nat list \<times> nat list \<Rightarrow> nat \<Rightarrow> nat list \<times> nat list" where
  "sg_merge_seed oracle state pair =
     (let (distance, queue) = state
      in if po_first oracle ! pair = po_second oracle ! pair
         then (distance[pair := 0], queue @ [pair]) else (distance, queue))"

definition sg_merge_visit ::
  "sg_predecessors \<Rightarrow> nat \<Rightarrow> nat list \<times> nat list \<Rightarrow> nat \<Rightarrow> nat list \<times> nat list" where
  "sg_merge_visit preds target state index =
     (let (distance, queue) = state; source = pd_pairs preds ! index
      in if distance ! source = SG_INDEX_NONE
         then (distance[source := distance ! target + 1], queue @ [source])
         else (distance, queue))"

definition sg_merge_step :: "sg_predecessors \<Rightarrow> distance_search \<Rightarrow> distance_search" where
  "sg_merge_step preds state =
     (let (distance, queue, head) = state;
          target = queue ! head;
          (distance, queue) = foldl (sg_merge_visit preds target) (distance, queue)
            [pd_offsets preds ! target..<pd_offsets preds ! (target + 1)]
      in (distance, queue, head + 1))"

definition sg_merge_distances :: "sg_pair_oracle \<Rightarrow> sg_predecessors \<Rightarrow> sg_pair_oracle" where
  "sg_merge_distances oracle preds =
     (let (distance, queue) = foldl (sg_merge_seed oracle) (po_merge_distance oracle, [])
            [0..<po_pair_count oracle];
          (distance, queue, head) = while (\<lambda>(distance, queue, head). head < length queue)
            (sg_merge_step preds) (distance, queue, 0)
      in oracle\<lparr>po_merge_distance := distance\<rparr>)"

definition sg_resolution_seed ::
  "sg_pair_oracle \<Rightarrow> nat list \<times> nat list \<Rightarrow> nat \<Rightarrow> nat list \<times> nat list" where
  "sg_resolution_seed oracle state pair =
     (let (distance, queue) = state;
          actions = au_action_count (po_automaton oracle)
      in if distance ! pair \<noteq> SG_INDEX_NONE then (distance, queue)
         else if list_ex (\<lambda>action. po_outputs_differ oracle ! (pair * actions + action)) [0..<actions]
         then (distance[pair := 1], queue @ [pair])
         else (distance, queue))"

definition sg_resolution_visit ::
  "sg_pair_oracle \<Rightarrow> sg_predecessors \<Rightarrow> nat \<Rightarrow> nat list \<times> nat list \<Rightarrow> nat \<Rightarrow> nat list \<times> nat list" where
  "sg_resolution_visit oracle preds target state index =
     (let (distance, queue) = state;
          source = pd_pairs preds ! index;
          action = pd_actions preds ! index;
          actions = au_action_count (po_automaton oracle)
      in if \<not> po_outputs_differ oracle ! (source * actions + action) \<and>
            distance ! source = SG_INDEX_NONE
         then (distance[source := distance ! target + 1], queue @ [source])
         else (distance, queue))"

definition sg_resolution_step ::
  "sg_pair_oracle \<Rightarrow> sg_predecessors \<Rightarrow> distance_search \<Rightarrow> distance_search" where
  "sg_resolution_step oracle preds state =
     (let (distance, queue, head) = state;
          target = queue ! head;
          (distance, queue) = foldl (sg_resolution_visit oracle preds target) (distance, queue)
            [pd_offsets preds ! target..<pd_offsets preds ! (target + 1)]
      in (distance, queue, head + 1))"

definition sg_resolution_distances :: "sg_pair_oracle \<Rightarrow> sg_predecessors \<Rightarrow> sg_pair_oracle" where
  "sg_resolution_distances oracle preds =
     (let (distance, queue) = foldl (sg_merge_seed oracle) (po_resolution_distance oracle, [])
            [0..<po_pair_count oracle];
          (distance, queue) = foldl (sg_resolution_seed oracle) (distance, queue)
            [0..<po_pair_count oracle];
          (distance, queue, head) = while (\<lambda>(distance, queue, head). head < length queue)
            (sg_resolution_step oracle preds) (distance, queue, 0)
      in oracle\<lparr>po_resolution_distance := distance\<rparr>)"

section \<open>Witness choices\<close>

definition sg_merge_supports :: "sg_pair_oracle \<Rightarrow> nat \<Rightarrow> nat \<Rightarrow> bool" where
  "sg_merge_supports oracle pair action \<longleftrightarrow>
     (let actions = au_action_count (po_automaton oracle);
          next = po_next oracle ! (pair * actions + action)
      in po_merge_distance oracle ! next \<noteq> SG_INDEX_NONE \<and>
         po_merge_distance oracle ! next + 1 = po_merge_distance oracle ! pair)"

definition sg_choose_merge_action :: "nat \<Rightarrow> sg_pair_oracle \<Rightarrow> nat \<Rightarrow> sg_pair_oracle" where
  "sg_choose_merge_action pair oracle action =
     (let next = po_next oracle ! (pair * au_action_count (po_automaton oracle) + action)
      in if sg_merge_supports oracle pair action
         then let oracle = (if po_merge_support_count oracle ! pair = 0
                then oracle\<lparr>po_merge_action := (po_merge_action oracle)[pair := action],
                            po_merge_next := (po_merge_next oracle)[pair := next]\<rparr>
                else oracle)
              in oracle\<lparr>po_merge_support_count := (po_merge_support_count oracle)
                          [pair := po_merge_support_count oracle ! pair + 1]\<rparr>
         else oracle)"

definition sg_resolution_immediate :: "sg_pair_oracle \<Rightarrow> nat \<Rightarrow> nat \<Rightarrow> bool" where
  "sg_resolution_immediate oracle pair action \<longleftrightarrow>
     po_resolution_distance oracle ! pair = 1 \<and>
     po_outputs_differ oracle ! (pair * au_action_count (po_automaton oracle) + action)"

definition sg_resolution_via_next :: "sg_pair_oracle \<Rightarrow> nat \<Rightarrow> nat \<Rightarrow> bool" where
  "sg_resolution_via_next oracle pair action \<longleftrightarrow>
     (let edge = pair * au_action_count (po_automaton oracle) + action;
          next = po_next oracle ! edge
      in \<not> po_outputs_differ oracle ! edge \<and> po_resolution_distance oracle ! next \<noteq> SG_INDEX_NONE \<and>
         po_resolution_distance oracle ! next + 1 = po_resolution_distance oracle ! pair)"

definition sg_choose_resolution_action :: "nat \<Rightarrow> sg_pair_oracle \<Rightarrow> nat \<Rightarrow> sg_pair_oracle" where
  "sg_choose_resolution_action pair oracle action =
     (let next = po_next oracle ! (pair * au_action_count (po_automaton oracle) + action);
          immediate = sg_resolution_immediate oracle pair action
      in if immediate \<or> sg_resolution_via_next oracle pair action
         then let oracle = (if po_resolution_support_count oracle ! pair = 0
                then oracle\<lparr>po_resolution_action := (po_resolution_action oracle)[pair := action],
                            po_resolution_next := (po_resolution_next oracle)
                              [pair := if immediate then SG_INDEX_NONE else next]\<rparr>
                else oracle)
              in oracle\<lparr>po_resolution_support_count := (po_resolution_support_count oracle)
                          [pair := po_resolution_support_count oracle ! pair + 1]\<rparr>
         else oracle)"

definition sg_choose_pair_witnesses :: "sg_pair_oracle \<Rightarrow> nat \<Rightarrow> sg_pair_oracle" where
  "sg_choose_pair_witnesses oracle pair =
     (let actions = [0..<au_action_count (po_automaton oracle)];
          oracle = (if po_merge_distance oracle ! pair \<noteq> SG_INDEX_NONE \<and>
                       po_merge_distance oracle ! pair \<noteq> 0
                    then foldl (sg_choose_merge_action pair) oracle actions else oracle)
      in if po_resolution_distance oracle ! pair = SG_INDEX_NONE \<or>
            po_resolution_distance oracle ! pair = 0
         then oracle
         else foldl (sg_choose_resolution_action pair) oracle actions)"

definition sg_choose_witnesses :: "sg_pair_oracle \<Rightarrow> sg_pair_oracle" where
  "sg_choose_witnesses oracle = foldl sg_choose_pair_witnesses oracle [0..<po_pair_count oracle]"

definition sg_pair_oracle_build :: "sg_automaton ptr \<Rightarrow> sg_pair_oracle res" where
  "sg_pair_oracle_build automaton =
     (case automaton of
        NULL \<Rightarrow> Inl SG_ERR_INVALID_ARGUMENT
      | Ref a \<Rightarrow> rbind (sg_oracle_allocate a) (\<lambda>created.
          let created = sg_oracle_fill_pairs created;
              preds = sg_predecessors_build created;
              created = sg_merge_distances created preds;
              created = sg_resolution_distances created preds
          in Inr (sg_choose_witnesses created)))"

section \<open>Reading the oracle\<close>

definition sg_pair_oracle_pair_count :: "sg_pair_oracle ptr \<Rightarrow> nat" where
  "sg_pair_oracle_pair_count oracle = (case oracle of NULL \<Rightarrow> 0 | Ref orc \<Rightarrow> po_pair_count orc)"

definition sg_pair_oracle_pair_edge_count :: "sg_pair_oracle ptr \<Rightarrow> nat" where
  "sg_pair_oracle_pair_edge_count oracle =
     (case oracle of NULL \<Rightarrow> 0
      | Ref orc \<Rightarrow> (po_pair_count orc * au_action_count (po_automaton orc)) mod 2 ^ 64)"

definition sg_reachable_pair_count :: "sg_pair_oracle \<Rightarrow> nat list \<Rightarrow> nat" where
  "sg_reachable_pair_count oracle distances =
     foldl (\<lambda>count pair. if distances ! pair \<noteq> SG_INDEX_NONE then count + 1 else count) 0
       [0..<po_pair_count oracle]"

definition sg_pair_oracle_mergeable_pair_count :: "sg_pair_oracle ptr \<Rightarrow> nat" where
  "sg_pair_oracle_mergeable_pair_count oracle =
     (case oracle of NULL \<Rightarrow> 0 | Ref orc \<Rightarrow> sg_reachable_pair_count orc (po_merge_distance orc))"

definition sg_pair_oracle_resolvable_pair_count :: "sg_pair_oracle ptr \<Rightarrow> nat" where
  "sg_pair_oracle_resolvable_pair_count oracle =
     (case oracle of NULL \<Rightarrow> 0 | Ref orc \<Rightarrow> sg_reachable_pair_count orc (po_resolution_distance orc))"

definition sg_pair_oracle_pair_states :: "sg_pair_oracle ptr \<Rightarrow> nat \<Rightarrow> (nat \<times> nat) res" where
  "sg_pair_oracle_pair_states oracle pair =
     (case oracle of
        NULL \<Rightarrow> Inl SG_ERR_INVALID_ARGUMENT
      | Ref orc \<Rightarrow> if pair \<ge> po_pair_count orc then Inl SG_ERR_INVALID_ARGUMENT
                  else Inr (po_first orc ! pair, po_second orc ! pair))"

definition sg_pair_oracle_pair_step :: "sg_pair_oracle ptr \<Rightarrow> nat \<Rightarrow> nat \<Rightarrow> (nat \<times> bool) res" where
  "sg_pair_oracle_pair_step oracle pair action =
     (case oracle of
        NULL \<Rightarrow> Inl SG_ERR_INVALID_ARGUMENT
      | Ref orc \<Rightarrow>
          if pair \<ge> po_pair_count orc \<or> action \<ge> au_action_count (po_automaton orc)
          then Inl SG_ERR_INVALID_ARGUMENT
          else let edge = pair * au_action_count (po_automaton orc) + action
               in Inr (po_next orc ! edge, po_outputs_differ orc ! edge))"

definition sg_pair_oracle_record :: "sg_pair_oracle ptr \<Rightarrow> nat \<Rightarrow> sg_pair_record res" where
  "sg_pair_oracle_record oracle pair =
     (case oracle of
        NULL \<Rightarrow> Inl SG_ERR_INVALID_ARGUMENT
      | Ref orc \<Rightarrow>
          if pair \<ge> po_pair_count orc then Inl SG_ERR_INVALID_ARGUMENT
          else Inr \<lparr>rec_pair = pair,
                    rec_mergeable = (po_merge_distance orc ! pair \<noteq> SG_INDEX_NONE),
                    rec_merge_distance = po_merge_distance orc ! pair,
                    rec_merge_action = po_merge_action orc ! pair,
                    rec_merge_next_pair = po_merge_next orc ! pair,
                    rec_merge_support_count = po_merge_support_count orc ! pair,
                    rec_resolvable = (po_resolution_distance orc ! pair \<noteq> SG_INDEX_NONE),
                    rec_resolution_distance = po_resolution_distance orc ! pair,
                    rec_resolution_action = po_resolution_action orc ! pair,
                    rec_resolution_next_pair = po_resolution_next orc ! pair,
                    rec_resolution_support_count = po_resolution_support_count orc ! pair\<rparr>)"

section \<open>Restoring a persisted oracle\<close>

definition sg_merge_record_valid :: "sg_pair_oracle \<Rightarrow> nat \<Rightarrow> bool" where
  "sg_merge_record_valid oracle pair \<longleftrightarrow>
     (let distance = po_merge_distance oracle ! pair;
          action = po_merge_action oracle ! pair;
          next = po_merge_next oracle ! pair;
          actions = au_action_count (po_automaton oracle)
      in if distance = SG_INDEX_NONE
         then action = SG_INDEX_NONE \<and> next = SG_INDEX_NONE \<and> po_merge_support_count oracle ! pair = 0
         else if distance = 0
         then po_first oracle ! pair = po_second oracle ! pair \<and> action = SG_INDEX_NONE \<and>
              next = SG_INDEX_NONE \<and> po_merge_support_count oracle ! pair = 0
         else let support_count = foldl (\<lambda>count candidate.
                    if sg_merge_supports oracle pair candidate then count + 1 else count) 0 [0..<actions]
              in action < actions \<and> next < po_pair_count oracle \<and>
                 po_next oracle ! (pair * actions + action) = next \<and>
                 po_merge_distance oracle ! next \<noteq> SG_INDEX_NONE \<and>
                 po_merge_distance oracle ! next + 1 = distance \<and> support_count \<noteq> 0 \<and>
                 po_merge_support_count oracle ! pair = support_count)"

definition sg_resolution_record_valid :: "sg_pair_oracle \<Rightarrow> nat \<Rightarrow> bool" where
  "sg_resolution_record_valid oracle pair \<longleftrightarrow>
     (let distance = po_resolution_distance oracle ! pair;
          action = po_resolution_action oracle ! pair;
          next = po_resolution_next oracle ! pair;
          actions = au_action_count (po_automaton oracle)
      in if distance = SG_INDEX_NONE
         then action = SG_INDEX_NONE \<and> next = SG_INDEX_NONE \<and>
              po_resolution_support_count oracle ! pair = 0
         else if distance = 0
         then po_first oracle ! pair = po_second oracle ! pair \<and> action = SG_INDEX_NONE \<and>
              next = SG_INDEX_NONE \<and> po_resolution_support_count oracle ! pair = 0
         else if action \<ge> actions then False
         else let support_count = foldl (\<lambda>count candidate.
                    if sg_resolution_immediate oracle pair candidate \<or>
                       sg_resolution_via_next oracle pair candidate then count + 1 else count) 0 [0..<actions];
                  edge = pair * actions + action
              in if support_count = 0 \<or> po_resolution_support_count oracle ! pair \<noteq> support_count
                 then False
                 else if next = SG_INDEX_NONE then distance = 1 \<and> po_outputs_differ oracle ! edge
                 else next < po_pair_count oracle \<and> \<not> po_outputs_differ oracle ! edge \<and>
                      po_next oracle ! edge = next \<and>
                      po_resolution_distance oracle ! next \<noteq> SG_INDEX_NONE \<and>
                      po_resolution_distance oracle ! next + 1 = distance)"

definition sg_restore_record ::
  "sg_pair_record \<Rightarrow> sg_pair_oracle \<times> bool list \<Rightarrow> (sg_pair_oracle \<times> bool list) res" where
  "sg_restore_record record state =
     (let (created, seen) = state; pair = rec_pair record
      in if pair \<ge> po_pair_count created \<or> seen ! pair then Inl SG_ERR_INVALID_MODEL
         else Inr (created\<lparr>
           po_merge_distance := (po_merge_distance created)
             [pair := if rec_mergeable record then rec_merge_distance record else SG_INDEX_NONE],
           po_merge_action := (po_merge_action created)
             [pair := if rec_mergeable record then rec_merge_action record else SG_INDEX_NONE],
           po_merge_next := (po_merge_next created)
             [pair := if rec_mergeable record then rec_merge_next_pair record else SG_INDEX_NONE],
           po_merge_support_count := (po_merge_support_count created)
             [pair := rec_merge_support_count record],
           po_resolution_distance := (po_resolution_distance created)
             [pair := if rec_resolvable record then rec_resolution_distance record else SG_INDEX_NONE],
           po_resolution_action := (po_resolution_action created)
             [pair := if rec_resolvable record then rec_resolution_action record else SG_INDEX_NONE],
           po_resolution_next := (po_resolution_next created)
             [pair := if rec_resolvable record then rec_resolution_next_pair record else SG_INDEX_NONE],
           po_resolution_support_count := (po_resolution_support_count created)
             [pair := rec_resolution_support_count record]\<rparr>,
           seen[pair := True]))"

definition sg_pair_oracle_restore ::
  "sg_automaton ptr \<Rightarrow> sg_pair_record list ptr \<Rightarrow> sg_pair_oracle res" where
  "sg_pair_oracle_restore automaton records =
     (case (automaton, records) of
        (Ref a, Ref rs) \<Rightarrow>
          rbind (sg_oracle_allocate a) (\<lambda>created.
          if length rs \<noteq> po_pair_count created then Inl SG_ERR_INVALID_MODEL
          else rbind (fold_res sg_restore_record rs
                        (sg_oracle_fill_pairs created, replicate (po_pair_count created) False))
                 (\<lambda>(created, seen).
                    if list_all (\<lambda>pair. seen ! pair \<and> sg_merge_record_valid created pair \<and>
                                       sg_resolution_record_valid created pair)
                         [0..<po_pair_count created]
                    then Inr created else Inl SG_ERR_INVALID_MODEL))
      | _ \<Rightarrow> Inl SG_ERR_INVALID_ARGUMENT)"

section \<open>Witness words\<close>

text \<open>
  The loop follows the next pairs until a distance is zero; on an arbitrary table it need not end,
  which is the value \<open>None\<close>.
\<close>

definition sg_witness_distances :: "sg_pair_oracle \<Rightarrow> bool \<Rightarrow> nat list" where
  "sg_witness_distances oracle resolution =
     (if resolution then po_resolution_distance oracle else po_merge_distance oracle)"

definition sg_witness_actions :: "sg_pair_oracle \<Rightarrow> bool \<Rightarrow> nat list" where
  "sg_witness_actions oracle resolution =
     (if resolution then po_resolution_action oracle else po_merge_action oracle)"

definition sg_witness_next_pairs :: "sg_pair_oracle \<Rightarrow> bool \<Rightarrow> nat list" where
  "sg_witness_next_pairs oracle resolution =
     (if resolution then po_resolution_next oracle else po_merge_next oracle)"

partial_function (option) sg_witness_loop ::
  "sg_pair_oracle \<Rightarrow> bool \<Rightarrow> nat \<Rightarrow> nat list \<Rightarrow> nat list res option" where
  "sg_witness_loop oracle resolution pair word =
     (if sg_witness_distances oracle resolution ! pair = 0 then Some (Inr word)
      else if sg_witness_actions oracle resolution ! pair = SG_INDEX_NONE
      then Some (Inl SG_ERR_INVALID_MODEL)
      else if resolution \<and> sg_witness_next_pairs oracle resolution ! pair = SG_INDEX_NONE
      then Some (Inr (word @ [sg_witness_actions oracle resolution ! pair]))
      else if sg_witness_next_pairs oracle resolution ! pair \<ge> po_pair_count oracle
      then Some (Inl SG_ERR_INVALID_MODEL)
      else sg_witness_loop oracle resolution (sg_witness_next_pairs oracle resolution ! pair)
             (word @ [sg_witness_actions oracle resolution ! pair]))"

definition sg_witness_word ::
  "sg_pair_oracle ptr \<Rightarrow> nat \<Rightarrow> nat \<Rightarrow> bool \<Rightarrow> nat list res option" where
  "sg_witness_word oracle first second resolution =
     (case oracle of
        NULL \<Rightarrow> Some (Inl SG_ERR_INVALID_ARGUMENT)
      | Ref orc \<Rightarrow>
          if first \<ge> au_state_count (po_automaton orc) \<or> second \<ge> au_state_count (po_automaton orc)
          then Some (Inl SG_ERR_INVALID_ARGUMENT)
          else let pair = sg_pair_index (au_state_count (po_automaton orc)) first second
               in if sg_witness_distances orc resolution ! pair = SG_INDEX_NONE
                  then Some (Inl SG_ERR_NOT_FOUND)
                  else sg_witness_loop orc resolution pair [])"

definition sg_pair_oracle_merge_word ::
  "sg_pair_oracle ptr \<Rightarrow> nat \<Rightarrow> nat \<Rightarrow> nat list res option" where
  "sg_pair_oracle_merge_word oracle first second = sg_witness_word oracle first second False"

definition sg_pair_oracle_resolution_word ::
  "sg_pair_oracle ptr \<Rightarrow> nat \<Rightarrow> nat \<Rightarrow> nat list res option" where
  "sg_pair_oracle_resolution_word oracle first second = sg_witness_word oracle first second True"

end
