(* ===== verification/Sync_Oracle_Tables.thy ===== *)
theory Sync_Oracle_Tables
  imports Sync_Oracle
begin

text \<open>
  What the filling loops of src/oracle.c compute: the pair tables hold the successor pair and the
  output difference of every pair and action, and the counting sort of the edges lists, for every
  pair, exactly its predecessors.
\<close>

section \<open>The pair graph\<close>

definition pair_next :: "sg_automaton \<Rightarrow> nat \<Rightarrow> nat \<Rightarrow> nat" where
  "pair_next A p a = (let (f, s) = state_pairs (au_state_count A) ! p
     in sg_pair_index (au_state_count A) (delta A f a) (delta A s a))"

definition pair_differ :: "sg_automaton \<Rightarrow> nat \<Rightarrow> nat \<Rightarrow> bool" where
  "pair_differ A p a = (let (f, s) = state_pairs (au_state_count A) ! p in eta A f a \<noteq> eta A s a)"

text \<open>The sizes an oracle needs: its pairs and its edges are counted by \<open>size_t\<close>.\<close>

definition oracle_size_ok :: "sg_automaton \<Rightarrow> bool" where
  "oracle_size_ok A \<longleftrightarrow>
     au_state_count A * (au_state_count A + 1) \<le> SIZE_MAX \<and>
     length (state_pairs (au_state_count A)) * au_action_count A \<le> SIZE_MAX"

abbreviation pair_total :: "sg_automaton \<Rightarrow> nat" where
  "pair_total A \<equiv> length (state_pairs (au_state_count A))"

definition oracle_lengths :: "nat \<Rightarrow> sg_pair_oracle \<Rightarrow> bool" where
  "oracle_lengths c oracle \<longleftrightarrow>
     length (po_merge_distance oracle) = c \<and> length (po_merge_action oracle) = c \<and>
     length (po_merge_next oracle) = c \<and> length (po_merge_support_count oracle) = c \<and>
     length (po_resolution_distance oracle) = c \<and> length (po_resolution_action oracle) = c \<and>
     length (po_resolution_next oracle) = c \<and> length (po_resolution_support_count oracle) = c"

definition oracle_tables :: "sg_automaton \<Rightarrow> sg_pair_oracle \<Rightarrow> bool" where
  "oracle_tables A oracle \<longleftrightarrow>
     wf_automaton A \<and> oracle_size_ok A \<and> po_automaton oracle = A \<and> po_pair_count oracle = pair_total A \<and>
     po_first oracle = map fst (state_pairs (au_state_count A)) \<and>
     po_second oracle = map snd (state_pairs (au_state_count A)) \<and>
     length (po_next oracle) = pair_total A * au_action_count A \<and>
     length (po_outputs_differ oracle) = pair_total A * au_action_count A \<and>
     (\<forall>p < pair_total A. \<forall>a < au_action_count A.
        po_next oracle ! (p * au_action_count A + a) = pair_next A p a \<and>
        po_outputs_differ oracle ! (p * au_action_count A + a) = pair_differ A p a)"

lemma sg_pair_count_eq:
  assumes "wf_automaton A" "oracle_size_ok A"
  shows "sg_pair_count (au_state_count A) = Some (pair_total A)"
  using assms wf_automatonD(6)[OF assms(1)]
  by (simp add: sg_pair_count_Some length_state_pairs oracle_size_ok_def)

lemma state_pairs_nth:
  assumes "p < length (state_pairs n)"
  obtains f s where "state_pairs n ! p = (f, s)" "f \<le> s" "s < n"
proof -
  obtain f s where fs: "state_pairs n ! p = (f, s)" by (rule prod.exhaust)
  moreover have "(f, s) \<in> set (state_pairs n)" using nth_mem[OF assms] by (simp only: fs)
  ultimately show ?thesis using that by (simp add: set_state_pairs)
qed

lemma pair_next_less:
  assumes "wf_automaton A" "oracle_size_ok A" "p < pair_total A" "a < au_action_count A"
  shows "pair_next A p a < pair_total A"
proof -
  obtain f s where fs: "state_pairs (au_state_count A) ! p = (f, s)" "f \<le> s" "s < au_state_count A"
    using assms(3) by (rule state_pairs_nth)
  then show ?thesis
    using pair_index_less[OF sg_pair_count_eq[OF assms(1,2)]] assms(1,4)
    by (simp add: pair_next_def transition_less)
qed

section \<open>Allocation\<close>

lemma sg_oracle_allocate_ok:
  assumes "wf_automaton A" "oracle_size_ok A"
  shows "\<exists>o0. sg_oracle_allocate A = Inr o0 \<and> po_automaton o0 = A \<and> po_pair_count o0 = pair_total A \<and>
    length (po_first o0) = pair_total A \<and> length (po_second o0) = pair_total A \<and>
    length (po_next o0) = pair_total A * au_action_count A \<and>
    length (po_outputs_differ o0) = pair_total A * au_action_count A \<and>
    po_merge_distance o0 = replicate (pair_total A) SG_INDEX_NONE \<and>
    po_merge_action o0 = replicate (pair_total A) SG_INDEX_NONE \<and>
    po_merge_next o0 = replicate (pair_total A) SG_INDEX_NONE \<and>
    po_merge_support_count o0 = replicate (pair_total A) 0 \<and>
    po_resolution_distance o0 = replicate (pair_total A) SG_INDEX_NONE \<and>
    po_resolution_action o0 = replicate (pair_total A) SG_INDEX_NONE \<and>
    po_resolution_next o0 = replicate (pair_total A) SG_INDEX_NONE \<and>
    po_resolution_support_count o0 = replicate (pair_total A) 0"
  using assms sg_pair_count_eq[OF assms]
  by (simp add: sg_oracle_allocate_def sg_size_multiply_if oracle_size_ok_def)

lemma sg_oracle_allocate_Inr:
  assumes "wf_automaton A" "sg_oracle_allocate A = Inr o0"
  shows "oracle_size_ok A"
  using assms
  by (auto simp: sg_oracle_allocate_def oracle_size_ok_def sg_pair_count_Some sg_size_multiply_Some
      length_state_pairs split: option.splits)

section \<open>Filling\<close>

lemma fill_edges:
  "foldl (sg_oracle_fill_edge p f s) oracle [0..<k] = oracle\<lparr>
     po_next := row_writes p (\<lambda>a. sg_pair_index (au_state_count (po_automaton oracle))
        (delta (po_automaton oracle) f a) (delta (po_automaton oracle) s a))
        (au_action_count (po_automaton oracle)) (po_next oracle) k,
     po_outputs_differ := row_writes p (\<lambda>a. eta (po_automaton oracle) f a \<noteq> eta (po_automaton oracle) s a)
        (au_action_count (po_automaton oracle)) (po_outputs_differ oracle) k\<rparr>"
  by (induction k) (simp_all add: sg_oracle_fill_edge_def Let_def)

lemma fill_prefix:
  assumes "po_automaton oracle = A" "k \<le> pair_total A"
  shows "foldl sg_oracle_fill_pair (oracle, 0) (take k (state_pairs (au_state_count A))) = (oracle\<lparr>
     po_first := writes (\<lambda>p. fst (state_pairs (au_state_count A) ! p)) (po_first oracle) k,
     po_second := writes (\<lambda>p. snd (state_pairs (au_state_count A) ! p)) (po_second oracle) k,
     po_next := table_writes (pair_next A) (au_action_count A) (po_next oracle) k,
     po_outputs_differ := table_writes (pair_differ A) (au_action_count A) (po_outputs_differ oracle) k\<rparr>, k)"
  using assms(2)
proof (induction k)
  case (Suc k)
  obtain f s where fs: "state_pairs (au_state_count A) ! k = (f, s)" by fastforce
  have "take (Suc k) (state_pairs (au_state_count A)) =
      take k (state_pairs (au_state_count A)) @ [(f, s)]"
    using Suc.prems by (simp add: take_Suc_conv_app_nth fs)
  with Suc show ?case
    by (simp add: sg_oracle_fill_pair_def fill_edges assms(1) fs pair_next_def pair_differ_def cong: if_cong)
qed simp

lemma sg_oracle_fill_pairs_eq:
  assumes "po_automaton oracle = A"
  shows "sg_oracle_fill_pairs oracle = oracle\<lparr>
     po_first := writes (\<lambda>p. fst (state_pairs (au_state_count A) ! p)) (po_first oracle) (pair_total A),
     po_second := writes (\<lambda>p. snd (state_pairs (au_state_count A) ! p)) (po_second oracle) (pair_total A),
     po_next := table_writes (pair_next A) (au_action_count A) (po_next oracle) (pair_total A),
     po_outputs_differ := table_writes (pair_differ A) (au_action_count A) (po_outputs_differ oracle) (pair_total A)\<rparr>"
proof -
  have "sg_oracle_fill_pairs oracle =
      fst (foldl sg_oracle_fill_pair (oracle, 0) (state_pairs (au_state_count A)))"
    unfolding sg_oracle_fill_pairs_def Let_def state_pairs_def assms
      foldl_concat_map[of sg_oracle_fill_pair "\<lambda>first. [first..<au_state_count A]"] ..
  also have "state_pairs (au_state_count A) = take (pair_total A) (state_pairs (au_state_count A))" by simp
  finally show ?thesis using fill_prefix[OF assms order_refl] by simp
qed

lemma writes_all: "length xs = length ys \<Longrightarrow> writes (\<lambda>p. g (ys ! p)) xs (length ys) = map g ys"
  by (rule nth_equalityI) (simp_all add: nth_writes)

lemma sg_oracle_fill_pairs_tables:
  assumes "wf_automaton A" "oracle_size_ok A" "po_automaton o0 = A" "po_pair_count o0 = pair_total A"
    "length (po_first o0) = pair_total A" "length (po_second o0) = pair_total A"
    "length (po_next o0) = pair_total A * au_action_count A"
    "length (po_outputs_differ o0) = pair_total A * au_action_count A"
  shows "oracle_tables A (sg_oracle_fill_pairs o0)"
  using assms
  by (simp add: sg_oracle_fill_pairs_eq[OF assms(3)] oracle_tables_def writes_all nth_table_writes cell_less)

section \<open>The reverse edges\<close>

definition predecessors_ok :: "sg_pair_oracle \<Rightarrow> sg_predecessors \<Rightarrow> bool" where
  "predecessors_ok oracle preds \<longleftrightarrow>
     (\<forall>t < po_pair_count oracle.
        set (map (\<lambda>i. (pd_pairs preds ! i, pd_actions preds ! i))
               [pd_offsets preds ! t..<pd_offsets preds ! (t + 1)]) =
        {(q, a). q < po_pair_count oracle \<and> a < au_action_count (po_automaton oracle) \<and>
           po_next oracle ! (q * au_action_count (po_automaton oracle) + a) = t})"

lemma length_count_loop [simp]:
  "length (foldl (\<lambda>counts e. counts[f e := g counts e]) xs es) = length xs"
  by (induction es arbitrary: xs) simp_all

lemma count_loop:
  assumes "set keys \<subseteq> {..<P}" "k \<le> length keys" "t < P"
  shows "foldl (\<lambda>counts e. counts[keys ! e := counts ! (keys ! e) + 1]) (replicate P 0) [0..<k] ! t =
      count_list (take k keys) t"
  using assms(2)
proof (induction k)
  case (Suc k)
  have "keys ! k \<in> set keys" using Suc.prems by simp
  then have "keys ! k < P" using assms(1) by blast
  with Suc assms(3) show ?case
    by (simp add: count_list_take_Suc nth_list_update)
qed (use assms(3) in simp)

lemma offset_loop:
  fixes keys :: "nat list"
  assumes "length counts = P" "\<forall>t < P. counts ! t = count_list keys t" "k \<le> P"
  shows "\<exists>offs cs. foldl (\<lambda>(offs, cs) pair.
        let offs = offs[pair + 1 := offs ! pair + cs ! pair] in (offs, cs[pair := offs ! pair]))
      (replicate (P + 1) 0, counts) [0..<k] = (offs, cs) \<and>
    length offs = P + 1 \<and> length cs = P \<and> (\<forall>j \<le> k. offs ! j = sort_offset keys j) \<and>
    (\<forall>t < P. cs ! t = (if t < k then sort_offset keys t else count_list keys t))"
  using assms(3)
proof (induction k)
  case 0
  then show ?case using assms(1,2) by simp
next
  case (Suc k)
  then obtain offs cs where IH: "foldl (\<lambda>(offs, cs) pair.
        let offs = offs[pair + 1 := offs ! pair + cs ! pair] in (offs, cs[pair := offs ! pair]))
      (replicate (P + 1) 0, counts) [0..<k] = (offs, cs)"
    "length offs = P + 1" "length cs = P" "\<forall>j \<le> k. offs ! j = sort_offset keys j"
    "\<forall>t < P. cs ! t = (if t < k then sort_offset keys t else count_list keys t)" by auto
  let ?offs = "offs[k + 1 := offs ! k + cs ! k]"
  let ?cs = "cs[k := ?offs ! k]"
  have "\<forall>j \<le> Suc k. ?offs ! j = sort_offset keys j"
    using IH(2,4,5) Suc.prems by (auto simp: le_Suc_eq)
  moreover have "?cs ! t = (if t < Suc k then sort_offset keys t else count_list keys t)" if "t < P" for t
    using IH(2-5) Suc.prems that by (cases "t = k") auto
  ultimately show ?case using IH(1-3) by (simp add: Let_def)
qed

lemma place_loop:
  assumes keys: "set keys \<subseteq> {..<P}" and m: "length keys = P * m"
    and init: "length (pd_pairs p0) = length keys" "length (pd_actions p0) = length keys"
      "length cs0 = P" "\<forall>t < P. cs0 ! t = sort_offset keys t"
    and k: "k \<le> length keys"
  shows "\<exists>p cs. foldl (\<lambda>s e. sg_predecessors_place keys m (e div m) s (e mod m)) (p0, cs0) [0..<k] = (p, cs) \<and>
    pd_offsets p = pd_offsets p0 \<and> length (pd_pairs p) = length keys \<and> length (pd_actions p) = length keys \<and>
    length cs = P \<and> (\<forall>t < P. cs ! t = sort_offset keys t + count_list (take k keys) t) \<and>
    (\<forall>e < k. pd_pairs p ! sort_position keys e = e div m \<and> pd_actions p ! sort_position keys e = e mod m)"
  using k
proof (induction k)
  case 0
  then show ?case using init by simp
next
  case (Suc k)
  then obtain p cs where IH:
    "foldl (\<lambda>s e. sg_predecessors_place keys m (e div m) s (e mod m)) (p0, cs0) [0..<k] = (p, cs)"
    "pd_offsets p = pd_offsets p0" "length (pd_pairs p) = length keys" "length (pd_actions p) = length keys"
    "length cs = P" "\<forall>t < P. cs ! t = sort_offset keys t + count_list (take k keys) t"
    "\<forall>e < k. pd_pairs p ! sort_position keys e = e div m \<and> pd_actions p ! sort_position keys e = e mod m"
    by auto
  have kl: "k < length keys" using Suc.prems by simp
  have key: "keys ! k < P" using keys nth_mem[OF kl] by blast
  have pos: "cs ! (keys ! k) = sort_position keys k" using IH(6) key by (simp add: sort_position_def)
  have less: "sort_position keys k < length keys" by (rule sort_position_less[OF kl keys])
  have other: "sort_position keys e \<noteq> sort_position keys k" if "e < k" for e
    using sort_position_inj[of e keys k] that kl by auto
  let ?p = "p\<lparr>pd_pairs := (pd_pairs p)[sort_position keys k := k div m],
              pd_actions := (pd_actions p)[sort_position keys k := k mod m]\<rparr>"
  let ?cs = "cs[keys ! k := cs ! (keys ! k) + 1]"
  have cell: "k div m * m + k mod m = k" by (rule div_mult_mod_eq)
  have "foldl (\<lambda>s e. sg_predecessors_place keys m (e div m) s (e mod m)) (p0, cs0) [0..<Suc k] = (?p, ?cs)"
    using IH(1) by (simp add: sg_predecessors_place_def Let_def pos cell)
  moreover have "\<forall>t < P. ?cs ! t = sort_offset keys t + count_list (take (Suc k) keys) t"
    using IH(5,6) key by (auto simp: count_list_take_Suc[OF kl] nth_list_update)
  moreover have "pd_pairs ?p ! sort_position keys e = e div m \<and> pd_actions ?p ! sort_position keys e = e mod m"
    if "e < Suc k" for e
  proof (cases "e = k")
    case True
    then show ?thesis using IH(3,4) less by simp
  next
    case False
    then have "e < k" using that by simp
    then have "sort_position keys k \<noteq> sort_position keys e" using other by metis
    with IH(7) \<open>e < k\<close> show ?thesis by simp
  qed
  ultimately show ?case using IH(2-5) by auto
qed

lemma sg_predecessors_build_ok:
  assumes tables: "oracle_tables A oracle"
  shows "predecessors_ok oracle (sg_predecessors_build oracle)"
proof -
  define keys where "keys = po_next oracle"
  define P where "P = po_pair_count oracle"
  define m where "m = au_action_count A"
  have A: "wf_automaton A" "oracle_size_ok A" "po_automaton oracle = A" "P = pair_total A"
    using tables by (auto simp: oracle_tables_def P_def)
  have len: "length keys = P * m" using tables A(4) by (simp add: oracle_tables_def keys_def m_def)
  have keys: "set keys \<subseteq> {..<P}"
  proof
    fix x assume "x \<in> set keys"
    then obtain e where e: "e < P * m" "x = keys ! e" by (auto simp: in_set_conv_nth len)
    obtain q a where "q < P" "a < m" "e = q * m + a" using e(1) by (rule cell_cases)
    then show "x \<in> {..<P}"
      using e(2) tables pair_next_less[OF A(1,2)] by (simp add: oracle_tables_def keys_def m_def A(4))
  qed
  have edge_count: "(P * m) mod 2 ^ 64 = P * m"
    using A(2,4) by (simp add: oracle_size_ok_def m_def SIZE_MAX_def)
  define counts where "counts = foldl (\<lambda>counts e. counts[keys ! e := counts ! (keys ! e) + 1])
      (replicate P (0 :: nat)) [0..<P * m]"
  have counts: "length counts = P" "\<forall>t < P. counts ! t = count_list keys t"
    using count_loop[OF keys order_refl] by (simp_all add: counts_def len)
  obtain offs cs where offs: "foldl (\<lambda>(offs, cs) pair.
        let offs = offs[pair + 1 := offs ! pair + cs ! pair] in (offs, cs[pair := offs ! pair]))
      (replicate (P + 1) 0, counts) [0..<P] = (offs, cs)"
    "length cs = P" "\<forall>j \<le> P. offs ! j = sort_offset keys j" "\<forall>t < P. cs ! t = sort_offset keys t"
    using offset_loop[OF counts order_refl] by auto
  let ?p0 = "\<lparr>pd_offsets = offs, pd_pairs = replicate (P * m) 0, pd_actions = replicate (P * m) 0\<rparr>"
  obtain p cs' where p: "foldl (\<lambda>s e. sg_predecessors_place keys m (e div m) s (e mod m)) (?p0, cs) [0..<P * m] = (p, cs')"
    "pd_offsets p = offs"
    "\<forall>e < P * m. pd_pairs p ! sort_position keys e = e div m \<and> pd_actions p ! sort_position keys e = e mod m"
    using place_loop[OF keys len, of ?p0 cs "P * m"] offs(2,4) len by auto
  have build: "sg_predecessors_build oracle = p"
    using p(1) offs(1)[unfolded counts_def]
    by (simp add: sg_predecessors_build_def Let_def A(3) keys_def[symmetric] P_def[symmetric]
        m_def[symmetric] edge_count[simplified] foldl_cells)
  have "set (map (\<lambda>i. (pd_pairs p ! i, pd_actions p ! i)) [offs ! t..<offs ! (t + 1)]) =
      {(q, a). q < P \<and> a < m \<and> keys ! (q * m + a) = t}" if t: "t < P" for t
  proof -
    have off: "offs ! t = sort_offset keys t" "offs ! (t + 1) = sort_offset keys (Suc t)"
      using offs(3) t by auto
    have "sort_position keys ` {e. e < P * m \<and> keys ! e = t} = {sort_offset keys t..<sort_offset keys (Suc t)}"
      using sort_position_range[of _ keys] sort_position_surj[of keys t] len by (fastforce simp del: sort_offset_simps)
    then have "set [offs ! t..<offs ! (t + 1)] = sort_position keys ` {e. e < P * m \<and> keys ! e = t}"
      by (simp only: off set_upt)
    then have "set (map (\<lambda>i. (pd_pairs p ! i, pd_actions p ! i)) [offs ! t..<offs ! (t + 1)]) =
        (\<lambda>e. (e div m, e mod m)) ` {e. e < P * m \<and> keys ! e = t}"
      using p(3) by (auto simp: image_image intro!: image_cong)
    also have "\<dots> = {(q, a). q < P \<and> a < m \<and> keys ! (q * m + a) = t}"
    proof (intro set_eqI iffI)
      fix x assume "x \<in> (\<lambda>e. (e div m, e mod m)) ` {e. e < P * m \<and> keys ! e = t}"
      then obtain e where e: "e < P * m" "keys ! e = t" "x = (e div m, e mod m)" by auto
      obtain q a where "q < P" "a < m" "e = q * m + a" using e(1) by (rule cell_cases)
      with e show "x \<in> {(q, a). q < P \<and> a < m \<and> keys ! (q * m + a) = t}" by simp
    next
      fix x assume "x \<in> {(q, a). q < P \<and> a < m \<and> keys ! (q * m + a) = t}"
      then obtain q a where "x = (q, a)" "q < P" "a < m" "keys ! (q * m + a) = t" by auto
      then have "x = ((q * m + a) div m, (q * m + a) mod m)" "q * m + a \<in> {e. e < P * m \<and> keys ! e = t}"
        by (simp_all add: cell_less)
      then show "x \<in> (\<lambda>e. (e div m, e mod m)) ` {e. e < P * m \<and> keys ! e = t}" by blast
    qed
    finally show ?thesis .
  qed
  then show ?thesis
    unfolding predecessors_ok_def build p(2) by (simp only: P_def m_def keys_def A(3)) simp
qed

end
