(* ===== verification/Sync_Levels.thy ===== *)
theory Sync_Levels
  imports Sync_Prelude
begin

text \<open>
  Level-wise search over a reverse graph, shared by the two distance searches of src/oracle.c: a
  queue of discovered nodes, a distance per node with \<open>SG_INDEX_NONE\<close> for undiscovered ones, and
  some nodes that start with a distance. The locale states what the search needs of the graph;
  its lemmas show that the distances it ends with are the exact ones.
\<close>

section \<open>Paths to a seed\<close>

inductive level_path :: "(nat \<Rightarrow> nat list) \<Rightarrow> (nat \<Rightarrow> nat option) \<Rightarrow> nat \<Rightarrow> nat \<Rightarrow> bool"
  for src :: "nat \<Rightarrow> nat list" and seed :: "nat \<Rightarrow> nat option" where
  path_seed: "seed p = Some d \<Longrightarrow> level_path src seed p d"
| path_step: "level_path src seed q k \<Longrightarrow> p \<in> set (src q) \<Longrightarrow> level_path src seed p (Suc k)"

definition exact_distances :: "nat \<Rightarrow> (nat \<Rightarrow> nat \<Rightarrow> bool) \<Rightarrow> nat list \<Rightarrow> bool" where
  "exact_distances n path dist \<longleftrightarrow>
     length dist = n \<and>
     (\<forall>p < n. if dist ! p = SG_INDEX_NONE then \<forall>k. \<not> path p k
              else path p (dist ! p) \<and> (\<forall>k. path p k \<longrightarrow> dist ! p \<le> k))"

text \<open>Distances to paths are distances to anything that is as far.\<close>

lemma exact_distances_cong:
  assumes "exact_distances n path dist"
    and "\<And>p k. p < n \<Longrightarrow> path p k \<Longrightarrow> path' p k"
    and "\<And>p k. p < n \<Longrightarrow> path' p k \<Longrightarrow> \<exists>k' \<le> k. path p k'"
  shows "exact_distances n path' dist"
  unfolding exact_distances_def
proof (intro conjI allI impI)
  fix p assume p: "p < n"
  show "if dist ! p = SG_INDEX_NONE then \<forall>k. \<not> path' p k
      else path' p (dist ! p) \<and> (\<forall>k. path' p k \<longrightarrow> dist ! p \<le> k)"
  proof (cases "dist ! p = SG_INDEX_NONE")
    case True
    then have "\<not> path p k" for k using assms(1) p by (simp add: exact_distances_def)
    with True assms(3)[OF p] show ?thesis by auto
  next
    case False
    then have "path p (dist ! p)" "\<And>k. path p k \<Longrightarrow> dist ! p \<le> k"
      using assms(1) p by (simp_all add: exact_distances_def)
    moreover have "dist ! p \<le> k" if "path' p k" for k
      using assms(3)[OF p that] calculation(2) le_trans by blast
    ultimately show ?thesis using False assms(2)[OF p] by simp
  qed
qed (use assms(1) in \<open>simp add: exact_distances_def\<close>)

section \<open>The search\<close>

definition level_visit :: "nat \<Rightarrow> nat list \<times> nat list \<Rightarrow> nat \<Rightarrow> nat list \<times> nat list" where
  "level_visit target state source =
     (let (dist, queue) = state
      in if dist ! source = SG_INDEX_NONE
         then (dist[source := dist ! target + 1], queue @ [source]) else (dist, queue))"

definition level_step :: "(nat \<Rightarrow> nat list) \<Rightarrow> nat list \<times> nat list \<times> nat \<Rightarrow> nat list \<times> nat list \<times> nat" where
  "level_step src state =
     (let (dist, queue, head) = state;
          (dist, queue) = foldl (level_visit (queue ! head)) (dist, queue) (src (queue ! head))
      in (dist, queue, head + 1))"

abbreviation level_pending :: "nat list \<times> nat list \<times> nat \<Rightarrow> bool" where
  "level_pending \<equiv> \<lambda>(dist, queue, head). head < length queue"

text \<open>A start: every seed has its distance and is queued, smaller distances first.\<close>

definition level_start :: "nat \<Rightarrow> (nat \<Rightarrow> nat option) \<Rightarrow> nat list \<Rightarrow> nat list \<Rightarrow> bool" where
  "level_start n seed dist queue \<longleftrightarrow>
     length dist = n \<and> distinct queue \<and> set queue = {p. p < n \<and> seed p \<noteq> None} \<and>
     (\<forall>p < n. dist ! p = (case seed p of None \<Rightarrow> SG_INDEX_NONE | Some d \<Rightarrow> d)) \<and>
     sorted (map ((!) dist) queue)"

locale level_search =
  fixes ok :: "'i \<Rightarrow> bool"
    and nodes :: "'i \<Rightarrow> nat"
    and sources :: "'i \<Rightarrow> nat \<Rightarrow> nat list"
    and seed :: "'i \<Rightarrow> nat \<Rightarrow> nat option"
  assumes sources_bound: "ok i \<Longrightarrow> q < nodes i \<Longrightarrow> p \<in> set (sources i q) \<Longrightarrow> p < nodes i"
    and seed_bound: "ok i \<Longrightarrow> seed i p = Some d \<Longrightarrow> p < nodes i \<and> d \<le> 1"
    and nodes_small: "ok i \<Longrightarrow> nodes i + 1 < SIZE_MAX"
begin

abbreviation path :: "'i \<Rightarrow> nat \<Rightarrow> nat \<Rightarrow> bool" where
  "path i \<equiv> level_path (sources i) (seed i)"

definition known :: "'i \<Rightarrow> nat list \<Rightarrow> nat set" where
  "known i dist = {p. p < nodes i \<and> dist ! p \<noteq> SG_INDEX_NONE}"

definition inv :: "'i \<Rightarrow> nat list \<Rightarrow> nat list \<Rightarrow> nat \<Rightarrow> bool" where
  "inv i dist queue head \<longleftrightarrow>
     length dist = nodes i \<and> head \<le> length queue \<and> distinct queue \<and> set queue = known i dist \<and>
     (\<forall>p \<in> known i dist. path i p (dist ! p)) \<and>
     (\<forall>j < length queue. dist ! (queue ! j) \<le> Suc j) \<and>
     sorted (map ((!) dist) queue) \<and>
     (head < length queue \<longrightarrow> (\<forall>p \<in> known i dist. dist ! p \<le> dist ! (queue ! head) + 1)) \<and>
     (\<forall>j < head. \<forall>p \<in> set (sources i (queue ! j)). p \<in> known i dist \<and> dist ! p \<le> dist ! (queue ! j) + 1) \<and>
     (\<forall>p d. seed i p = Some d \<longrightarrow> p \<in> known i dist \<and> dist ! p \<le> d)"

lemma path_bound: "path i p k \<Longrightarrow> ok i \<Longrightarrow> p < nodes i"
  by (induction rule: level_path.induct) (use seed_bound sources_bound in blast)+

text \<open>What one visit may change: it only adds.\<close>

definition extends :: "'i \<Rightarrow> nat list \<times> nat list \<Rightarrow> nat list \<times> nat list \<Rightarrow> bool" where
  "extends i s s' \<longleftrightarrow>
     (\<forall>p \<in> known i (fst s). p \<in> known i (fst s') \<and> fst s' ! p = fst s ! p) \<and>
     (\<exists>r. snd s' = snd s @ r)"

lemma extends_refl: "extends i s s"
  by (simp add: extends_def)

lemma extends_trans: "extends i s s' \<Longrightarrow> extends i s' s'' \<Longrightarrow> extends i s s''"
  unfolding extends_def by (metis append.assoc)

lemma queue_length:
  assumes "inv i dist queue head"
  shows "length queue \<le> nodes i"
proof -
  have "distinct queue" using assms by (simp add: inv_def)
  then have "length queue = card (set queue)" by (simp add: distinct_card)
  also have "\<dots> \<le> card {..<nodes i}"
    using assms by (intro card_mono) (auto simp: inv_def known_def)
  finally show ?thesis by simp
qed

lemma visit:
  assumes ok: "ok i" and inv: "inv i dist queue head" and head: "head < length queue"
    and src: "source \<in> set (sources i (queue ! head))"
    and res: "level_visit (queue ! head) (dist, queue) source = (dist', queue')"
  shows "inv i dist' queue' head" "extends i (dist, queue) (dist', queue')"
    "source \<in> known i dist'" "dist' ! source \<le> dist' ! (queue ! head) + 1"
proof -
  define target where "target = queue ! head"
  have target: "target \<in> known i dist"
    using inv head nth_mem[OF head] by (auto simp: inv_def target_def)
  have len: "length dist = nodes i" using inv by (simp add: inv_def)
  have source: "source < nodes i"
    using sources_bound[OF ok _ src] target by (simp add: target_def known_def)
  have "inv i dist' queue' head \<and> extends i (dist, queue) (dist', queue') \<and>
    source \<in> known i dist' \<and> dist' ! source \<le> dist' ! (queue ! head) + 1"
  proof (cases "dist ! source = SG_INDEX_NONE")
    case False
    then have eq: "dist' = dist" "queue' = queue" using res by (simp_all add: level_visit_def)
    have sk: "source \<in> known i dist" using False source by (simp add: known_def)
    have "dist ! source \<le> dist ! (queue ! head) + 1"
      using inv head sk by (simp add: inv_def)
    with inv sk eq show ?thesis by (simp add: extends_refl)
  next
    case True
    have eq: "dist' = dist[source := dist ! target + 1]" "queue' = queue @ [source]"
      using res True by (simp_all add: level_visit_def target_def)
    have ne: "target \<noteq> source" using True target by (auto simp: known_def)
    have old: "dist' ! p = dist ! p" if "p \<noteq> source" for p using that by (simp add: eq)
    have new: "dist' ! source = dist ! target + 1" using source len by (simp add: eq)
    have bound: "dist ! target \<le> Suc head" using inv head by (simp add: inv_def target_def)
    have small: "dist ! target + 1 < SIZE_MAX"
      using bound head queue_length[OF inv] nodes_small[OF ok] by linarith
    have nk: "source \<notin> known i dist" using True by (simp add: known_def)
    have known': "known i dist' = insert source (known i dist)"
    proof (rule set_eqI)
      fix p show "p \<in> known i dist' \<longleftrightarrow> p \<in> insert source (known i dist)"
      proof (cases "p = source")
        case True
        then show ?thesis using new small source by (simp add: known_def)
      next
        case False
        then show ?thesis using old[OF False] by (simp add: known_def)
      qed
    qed
    have keep: "dist' ! p = dist ! p" if "p \<in> known i dist" for p
      by (rule old) (use that nk in blast)
    have qset: "set queue = known i dist" using inv by (simp add: inv_def)
    have qkeep: "dist' ! (queue ! j) = dist ! (queue ! j)" if "j < length queue" for j
      by (rule keep) (use nth_mem[OF that] qset in blast)
    have qmap: "map ((!) dist') queue = map ((!) dist) queue"
      by (rule map_cong[OF refl], rule keep) (use qset in blast)
    have front: "dist ! p \<le> dist ! target + 1" if "p \<in> known i dist" for p
      using inv head that by (simp add: inv_def target_def)
    have nth: "queue' ! j = queue ! j" if "j < length queue" for j
      using that by (simp add: eq nth_append)
    have head': "head \<le> length queue" using head by simp
    have "inv i dist' queue' head"
      unfolding inv_def
    proof (intro conjI)
      show "length dist' = nodes i" using len by (simp add: eq)
      show "head \<le> length queue'" using head by (simp add: eq)
      show "distinct queue'" using inv nk qset by (simp add: eq inv_def)
      show "set queue' = known i dist'" using qset known' by (simp add: eq)
      show "\<forall>p \<in> known i dist'. path i p (dist' ! p)"
      proof
        fix p assume "p \<in> known i dist'"
        then consider "p = source" | "p \<in> known i dist" using known' by auto
        then show "path i p (dist' ! p)"
        proof cases
          case 1
          have "path i target (dist ! target)" using inv target by (simp add: inv_def)
          from path_step[OF this] src 1 show ?thesis by (simp add: new target_def)
        next
          case 2
          with inv show ?thesis by (simp add: keep inv_def)
        qed
      qed
      show "\<forall>j < length queue'. dist' ! (queue' ! j) \<le> Suc j"
      proof (intro allI impI)
        fix j assume "j < length queue'"
        then consider "j = length queue" | "j < length queue" by (auto simp: eq less_Suc_eq)
        then show "dist' ! (queue' ! j) \<le> Suc j"
        proof cases
          case 1
          then show ?thesis using new bound head by (simp add: eq(2))
        next
          case 2
          with inv show ?thesis by (simp add: nth qkeep inv_def)
        qed
      qed
      show "sorted (map ((!) dist') queue')"
      proof -
        have "sorted (map ((!) dist) queue)" using inv by (simp add: inv_def)
        then show ?thesis
          unfolding eq(2) map_append qmap sorted_append using front qset new by auto
      qed
      show "head < length queue' \<longrightarrow> (\<forall>p \<in> known i dist'. dist' ! p \<le> dist' ! (queue' ! head) + 1)"
        using front keep new known' qkeep[OF head] nth[OF head] by (auto simp: target_def)
      show "\<forall>j < head. \<forall>p \<in> set (sources i (queue' ! j)).
          p \<in> known i dist' \<and> dist' ! p \<le> dist' ! (queue' ! j) + 1"
      proof (intro allI impI ballI)
        fix j p assume j: "j < head" and p: "p \<in> set (sources i (queue' ! j))"
        have jl: "j < length queue" using j head by simp
        have "p \<in> known i dist \<and> dist ! p \<le> dist ! (queue ! j) + 1"
          using inv j p nth[OF jl] by (auto simp: inv_def)
        then show "p \<in> known i dist' \<and> dist' ! p \<le> dist' ! (queue' ! j) + 1"
          using known' by (auto simp: keep nth[OF jl] qkeep[OF jl])
      qed
      show "\<forall>p d. seed i p = Some d \<longrightarrow> p \<in> known i dist' \<and> dist' ! p \<le> d"
      proof (intro allI impI)
        fix p d assume "seed i p = Some d"
        then have "p \<in> known i dist \<and> dist ! p \<le> d" using inv by (simp add: inv_def)
        then show "p \<in> known i dist' \<and> dist' ! p \<le> d" using known' by (auto simp: keep)
      qed
    qed
    moreover have "extends i (dist, queue) (dist', queue')"
      using known' keep by (simp add: extends_def eq(2))
    moreover have "source \<in> known i dist'" using known' by simp
    moreover have "dist' ! source \<le> dist' ! (queue ! head) + 1"
      using new keep[OF target] by (simp add: target_def)
    ultimately show ?thesis by blast
  qed
  then show "inv i dist' queue' head" "extends i (dist, queue) (dist', queue')"
    "source \<in> known i dist'" "dist' ! source \<le> dist' ! (queue ! head) + 1" by blast+
qed

lemma visits:
  assumes ok: "ok i"
  shows "inv i dist queue head \<Longrightarrow> head < length queue \<Longrightarrow> set L \<subseteq> set (sources i (queue ! head)) \<Longrightarrow>
    foldl (level_visit (queue ! head)) (dist, queue) L = (dist', queue') \<Longrightarrow>
    inv i dist' queue' head \<and> extends i (dist, queue) (dist', queue') \<and>
    (\<forall>p \<in> set L. p \<in> known i dist' \<and> dist' ! p \<le> dist' ! (queue ! head) + 1)"
proof (induction L arbitrary: dist queue)
  case Nil
  then show ?case by (simp add: extends_refl)
next
  case (Cons source L)
  obtain d1 q1 where v: "level_visit (queue ! head) (dist, queue) source = (d1, q1)" by (rule prod.exhaust)
  have "source \<in> set (sources i (queue ! head))" using Cons.prems(3) by simp
  note v1 = visit[OF ok Cons.prems(1,2) this v]
  obtain r where r: "q1 = queue @ r" using v1(2) by (auto simp: extends_def)
  then have qh: "q1 ! head = queue ! head" "head < length q1" using Cons.prems(2) by (auto simp: nth_append)
  have IH: "inv i dist' queue' head \<and> extends i (d1, q1) (dist', queue') \<and>
      (\<forall>p \<in> set L. p \<in> known i dist' \<and> dist' ! p \<le> dist' ! (queue ! head) + 1)"
    using Cons.IH[OF v1(1) qh(2)] Cons.prems(3,4) v by (simp add: qh(1))
  have th: "queue ! head \<in> known i dist"
    using Cons.prems(1,2) nth_mem[OF Cons.prems(2)] by (auto simp: inv_def)
  have "queue ! head \<in> known i d1" using v1(2) th by (simp add: extends_def)
  with IH v1(3,4) have "source \<in> known i dist' \<and> dist' ! source \<le> dist' ! (queue ! head) + 1"
    by (simp add: extends_def)
  with IH extends_trans[OF v1(2)] show ?case by auto
qed

lemma step:
  assumes ok: "ok i" and inv: "inv i dist queue head" and head: "head < length queue"
    and res: "level_step (sources i) (dist, queue, head) = (dist', queue', head')"
  shows "inv i dist' queue' head'" "head' = head + 1"
proof -
  have fold: "foldl (level_visit (queue ! head)) (dist, queue) (sources i (queue ! head)) = (dist', queue')"
    and h: "head' = head + 1"
    using res by (auto simp: level_step_def Let_def split: prod.splits)
  note v = visits[OF ok inv head order_refl fold]
  obtain r where r: "queue' = queue @ r" using v by (auto simp: extends_def)
  have inv': "inv i dist' queue' head" using v by blast
  have nh: "queue' ! head = queue ! head" using head r by (simp add: nth_append)
  show "head' = head + 1" by (rule h)
  have front: "\<forall>p \<in> known i dist'. dist' ! p \<le> dist' ! (queue' ! (head + 1)) + 1" if hl: "head + 1 < length queue'"
  proof -
    have "sorted (map ((!) dist') queue')" using inv' by (simp add: inv_def)
    then have "map ((!) dist') queue' ! head \<le> map ((!) dist') queue' ! (head + 1)"
      using hl by (intro sorted_nth_mono) auto
    then have "dist' ! (queue' ! head) \<le> dist' ! (queue' ! (head + 1))" using hl by simp
    moreover have "\<forall>p \<in> known i dist'. dist' ! p \<le> dist' ! (queue' ! head) + 1"
      using inv' hl by (simp add: inv_def)
    ultimately show ?thesis by (meson add_le_mono1 le_trans)
  qed
  have closed: "\<forall>p \<in> set (sources i (queue' ! j)). p \<in> known i dist' \<and> dist' ! p \<le> dist' ! (queue' ! j) + 1"
    if "j < head + 1" for j
    using that v inv' by (cases "j = head") (auto simp: nh inv_def less_Suc_eq)
  show "inv i dist' queue' head'"
    using inv' front closed head r unfolding inv_def h by auto
qed

lemma start:
  assumes ok: "ok i" and st: "level_start (nodes i) (seed i) dist queue"
  shows "inv i dist queue 0"
proof -
  have d: "dist ! p = d" if "seed i p = Some d" for p d
    using that st seed_bound[OF ok that] by (simp add: level_start_def)
  have max: "1 < SIZE_MAX" by (simp add: SIZE_MAX_def)
  have known: "p \<in> known i dist \<longleftrightarrow> (\<exists>d. seed i p = Some d)" for p
    using st seed_bound[OF ok, of p] max
    by (cases "seed i p") (auto simp: known_def level_start_def)
  have one: "dist ! p \<le> 1" if "p \<in> known i dist" for p
    using that known d seed_bound[OF ok] by auto
  have set: "set queue = known i dist"
    using st known seed_bound[OF ok] by (auto simp: level_start_def)
  show ?thesis
    unfolding inv_def
  proof (intro conjI)
    show "length dist = nodes i" "distinct queue" "sorted (map ((!) dist) queue)"
      using st by (auto simp: level_start_def)
    show "\<forall>p\<in>known i dist. path i p (dist ! p)" using known d by (auto intro: path_seed)
    show "\<forall>j<length queue. dist ! (queue ! j) \<le> Suc j"
    proof (intro allI impI)
      fix j assume "j < length queue"
      then have "queue ! j \<in> known i dist" using set nth_mem by blast
      from one[OF this] show "dist ! (queue ! j) \<le> Suc j" by simp
    qed
    show "0 < length queue \<longrightarrow> (\<forall>p\<in>known i dist. dist ! p \<le> dist ! (queue ! 0) + 1)"
      using one by (auto intro: le_trans)
    show "\<forall>p d. seed i p = Some d \<longrightarrow> p \<in> known i dist \<and> dist ! p \<le> d" using known d by auto
  qed (use set in auto)
qed

lemma finished:
  assumes ok: "ok i" and inv: "inv i dist queue (length queue)"
  shows "exact_distances (nodes i) (path i) dist"
proof -
  have complete: "p \<in> known i dist \<and> dist ! p \<le> k" if "path i p k" for p k
    using that
  proof (induction rule: level_path.induct)
    case (path_seed p d)
    then show ?case using inv by (simp add: inv_def)
  next
    case (path_step q k p)
    then have "q \<in> set queue" using inv by (simp add: inv_def)
    then obtain j where "j < length queue" "queue ! j = q" by (auto simp: in_set_conv_nth)
    then have "p \<in> known i dist \<and> dist ! p \<le> dist ! q + 1" using inv path_step.hyps by (auto simp: inv_def)
    with path_step.IH show ?case by auto
  qed
  moreover have "path i p (dist ! p)" if "p \<in> known i dist" for p
    using inv that by (simp add: inv_def)
  moreover have "length dist = nodes i" using inv by (simp add: inv_def)
  ultimately show ?thesis
    by (auto simp: exact_distances_def known_def)
qed

text \<open>The search ends, since every node is queued once, and its distances are exact.\<close>

lemma search_exact:
  assumes ok: "ok i" and st: "level_start (nodes i) (seed i) dist queue"
    and res: "while level_pending (level_step (sources i)) (dist, queue, 0) = (dist', queue', head')"
  shows "exact_distances (nodes i) (path i) dist'"
proof -
  let ?I = "\<lambda>(dist, queue, head). inv i dist queue head"
  let ?Q = "\<lambda>(dist, queue, head). exact_distances (nodes i) (path i) dist"
  have "?Q (while level_pending (level_step (sources i)) (dist, queue, 0))"
  proof (rule while_rule[where P = ?I and r = "measure (\<lambda>(dist, queue, head). nodes i - head)"])
    show "?I (dist, queue, 0)" using start[OF ok st] by simp
  next
    fix s assume s: "?I s" "level_pending s"
    obtain d q h where sd: "s = (d, q, h)" by (cases s)
    obtain d' q' h' where sd': "level_step (sources i) s = (d', q', h')" by (rule prod_cases3)
    have "inv i d' q' h'" "h' = h + 1" using step[OF ok, of d q h d' q' h'] s sd sd' by auto
    then show "?I (level_step (sources i) s)" by (simp add: sd')
    have "h < nodes i" using s queue_length[of i d q h] by (simp add: sd)
    with \<open>h' = h + 1\<close> show "(level_step (sources i) s, s) \<in> measure (\<lambda>(dist, queue, head). nodes i - head)"
      unfolding sd' by (simp add: sd)
  next
    fix s assume s: "?I s" "\<not> level_pending s"
    obtain d q h where sd: "s = (d, q, h)" by (cases s)
    have "h = length q" using s by (simp add: sd inv_def)
    with s show "?Q s" using finished[OF ok] by (simp add: sd)
  qed simp
  then show ?thesis by (simp add: res)
qed

end

end
