(* ===== verification/Sync_Oracle_Exact.thy ===== *)
theory Sync_Oracle_Exact
  imports Sync_Oracle_Tables Sync_Levels
begin

text \<open>
  The oracle built by src/oracle.c is exact: the merge distance of a pair is the length of its
  shortest merging word, the resolution distance that of its shortest resolving word, and the
  stored witness is the first action on a shortest word, with the number of such actions.
\<close>

section \<open>Merging and resolving words\<close>

definition merging_word :: "sg_automaton \<Rightarrow> nat \<Rightarrow> nat \<Rightarrow> nat list \<Rightarrow> bool" where
  "merging_word A s t w \<longleftrightarrow> word_ok A w \<and> run_word A s w = run_word A t w"

definition resolving_word :: "sg_automaton \<Rightarrow> nat \<Rightarrow> nat \<Rightarrow> nat list \<Rightarrow> bool" where
  "resolving_word A s t w \<longleftrightarrow>
     word_ok A w \<and> (output_trace A s w \<noteq> output_trace A t w \<or> run_word A s w = run_word A t w)"

definition pair_merges :: "sg_automaton \<Rightarrow> nat \<Rightarrow> nat list \<Rightarrow> bool" where
  "pair_merges A p w = (let (s, t) = state_pairs (au_state_count A) ! p in merging_word A s t w)"

definition pair_resolves :: "sg_automaton \<Rightarrow> nat \<Rightarrow> nat list \<Rightarrow> bool" where
  "pair_resolves A p w = (let (s, t) = state_pairs (au_state_count A) ! p in resolving_word A s t w)"

definition pair_equal :: "sg_automaton \<Rightarrow> nat \<Rightarrow> bool" where
  "pair_equal A p = (let (s, t) = state_pairs (au_state_count A) ! p in s = t)"

lemma merging_word_commute: "merging_word A s t w \<longleftrightarrow> merging_word A t s w"
  by (auto simp: merging_word_def)

lemma resolving_word_commute: "resolving_word A s t w \<longleftrightarrow> resolving_word A t s w"
  by (auto simp: resolving_word_def)

lemma pair_of_index:
  assumes "wf_automaton A" "oracle_size_ok A" "s < au_state_count A" "t < au_state_count A"
  shows "sg_pair_index (au_state_count A) s t < pair_total A"
    "state_pairs (au_state_count A) ! sg_pair_index (au_state_count A) s t = (min s t, max s t)"
  using pair_index_position[OF sg_pair_count_eq[OF assms(1,2)] assms(3,4)] by simp_all

lemma pair_merges_index:
  assumes "wf_automaton A" "oracle_size_ok A" "s < au_state_count A" "t < au_state_count A"
  shows "pair_merges A (sg_pair_index (au_state_count A) s t) w \<longleftrightarrow> merging_word A s t w"
  using pair_of_index[OF assms] merging_word_commute[of A s t] by (simp add: pair_merges_def min_def max_def)

lemma pair_resolves_index:
  assumes "wf_automaton A" "oracle_size_ok A" "s < au_state_count A" "t < au_state_count A"
  shows "pair_resolves A (sg_pair_index (au_state_count A) s t) w \<longleftrightarrow> resolving_word A s t w"
  using pair_of_index[OF assms] resolving_word_commute[of A s t] by (simp add: pair_resolves_def min_def max_def)

lemma pair_merges_Nil [simp]: "pair_merges A p [] \<longleftrightarrow> pair_equal A p"
  by (simp add: pair_merges_def pair_equal_def merging_word_def split: prod.split)

lemma pair_resolves_Nil [simp]: "pair_resolves A p [] \<longleftrightarrow> pair_equal A p"
  by (simp add: pair_resolves_def pair_equal_def resolving_word_def split: prod.split)

lemma pair_merges_Cons:
  assumes "wf_automaton A" "oracle_size_ok A" "p < pair_total A"
  shows "pair_merges A p (a # w) \<longleftrightarrow> a < au_action_count A \<and> pair_merges A (pair_next A p a) w"
proof -
  obtain s t where st: "state_pairs (au_state_count A) ! p = (s, t)" "s \<le> t" "t < au_state_count A"
    using assms(3) by (rule state_pairs_nth)
  show ?thesis
  proof (cases "a < au_action_count A")
    case True
    with st assms(1) have "delta A s a < au_state_count A" "delta A t a < au_state_count A"
      by (simp_all add: transition_less)
    from pair_merges_index[OF assms(1,2) this, of w] True st show ?thesis
      by (simp add: pair_next_def pair_merges_def[of A p] merging_word_def)
  qed (simp add: pair_merges_def st merging_word_def)
qed

lemma pair_resolves_Cons:
  assumes "wf_automaton A" "oracle_size_ok A" "p < pair_total A"
  shows "pair_resolves A p (a # w) \<longleftrightarrow>
    a < au_action_count A \<and> word_ok A w \<and> (pair_differ A p a \<or> pair_resolves A (pair_next A p a) w)"
proof -
  obtain s t where st: "state_pairs (au_state_count A) ! p = (s, t)" "s \<le> t" "t < au_state_count A"
    using assms(3) by (rule state_pairs_nth)
  show ?thesis
  proof (cases "a < au_action_count A")
    case True
    with st assms(1) have "delta A s a < au_state_count A" "delta A t a < au_state_count A"
      by (simp_all add: transition_less)
    from pair_resolves_index[OF assms(1,2) this, of w] True st show ?thesis
      by (auto simp: pair_next_def pair_differ_def pair_resolves_def[of A p] resolving_word_def)
  qed (simp add: pair_resolves_def st resolving_word_def)
qed

lemma pair_resolves_word_ok: "pair_resolves A p w \<Longrightarrow> word_ok A w"
  by (auto simp: pair_resolves_def resolving_word_def split: prod.splits)

lemma pair_equal_iff:
  "oracle_tables A oracle \<Longrightarrow> p < pair_total A \<Longrightarrow>
   po_first oracle ! p = po_second oracle ! p \<longleftrightarrow> pair_equal A p"
  by (simp add: oracle_tables_def pair_equal_def split: prod.split)

lemma pair_equal_not_differ: "pair_equal A p \<Longrightarrow> \<not> pair_differ A p a"
  by (auto simp: pair_equal_def pair_differ_def split: prod.splits)

section \<open>Both searches are level searches\<close>

text \<open>An instance of the search is an oracle whose tables are filled, with its reverse edges.\<close>

type_synonym pair_graph = "sg_pair_oracle \<times> sg_predecessors"

definition graph_ok :: "pair_graph \<Rightarrow> bool" where
  "graph_ok g \<longleftrightarrow> oracle_tables (po_automaton (fst g)) (fst g) \<and> predecessors_ok (fst g) (snd g)"

definition graph_nodes :: "pair_graph \<Rightarrow> nat" where
  "graph_nodes g = po_pair_count (fst g)"

definition edge_range :: "sg_predecessors \<Rightarrow> nat \<Rightarrow> nat list" where
  "edge_range preds t = [pd_offsets preds ! t..<pd_offsets preds ! (t + 1)]"

definition merge_sources :: "pair_graph \<Rightarrow> nat \<Rightarrow> nat list" where
  "merge_sources g t = map (\<lambda>i. pd_pairs (snd g) ! i) (edge_range (snd g) t)"

definition merge_seed :: "pair_graph \<Rightarrow> nat \<Rightarrow> nat option" where
  "merge_seed g p = (if p < graph_nodes g \<and> pair_equal (po_automaton (fst g)) p then Some 0 else None)"

definition edge_silent :: "pair_graph \<Rightarrow> nat \<Rightarrow> bool" where
  "edge_silent g i \<longleftrightarrow> \<not> po_outputs_differ (fst g) !
     (pd_pairs (snd g) ! i * au_action_count (po_automaton (fst g)) + pd_actions (snd g) ! i)"

definition resolution_sources :: "pair_graph \<Rightarrow> nat \<Rightarrow> nat list" where
  "resolution_sources g t =
     map (\<lambda>i. pd_pairs (snd g) ! i) (filter (edge_silent g) (edge_range (snd g) t))"

definition resolution_seed :: "pair_graph \<Rightarrow> nat \<Rightarrow> nat option" where
  "resolution_seed g p =
     (if p < graph_nodes g \<and> pair_equal (po_automaton (fst g)) p then Some 0
      else if p < graph_nodes g \<and>
              (\<exists>a < au_action_count (po_automaton (fst g)). pair_differ (po_automaton (fst g)) p a)
      then Some 1 else None)"

lemma fst_image_Collect: "x \<in> fst ` {(q, a). Q q a} \<longleftrightarrow> (\<exists>a. Q x a)"
  by (auto simp: image_iff)

lemma graph_edges:
  assumes "graph_ok g" "t < graph_nodes g"
  defines "A \<equiv> po_automaton (fst g)"
  shows "q \<in> set (merge_sources g t) \<longleftrightarrow>
      q < graph_nodes g \<and> (\<exists>a < au_action_count A. pair_next A q a = t)"
    and "q \<in> set (resolution_sources g t) \<longleftrightarrow>
      q < graph_nodes g \<and> (\<exists>a < au_action_count A. pair_next A q a = t \<and> \<not> pair_differ A q a)"
proof -
  let ?E = "\<lambda>i. (pd_pairs (snd g) ! i, pd_actions (snd g) ! i)"
  have T: "oracle_tables A (fst g)" using assms by (simp add: graph_ok_def)
  then have P: "graph_nodes g = pair_total A" by (simp add: oracle_tables_def graph_nodes_def)
  have nx: "po_next (fst g) ! (q * au_action_count A + a) = pair_next A q a"
      "po_outputs_differ (fst g) ! (q * au_action_count A + a) = pair_differ A q a"
    if "q < graph_nodes g" "a < au_action_count A" for q a
    using T that by (simp_all add: oracle_tables_def P)
  have E: "?E ` set (edge_range (snd g) t) =
      {(q, a). q < graph_nodes g \<and> a < au_action_count A \<and> pair_next A q a = t}"
    using assms(1,2) nx by (auto simp: graph_ok_def predecessors_ok_def edge_range_def graph_nodes_def A_def)
  have sources: "set (merge_sources g t) = fst ` ?E ` set (edge_range (snd g) t)"
    by (simp add: merge_sources_def image_image)
  show "q \<in> set (merge_sources g t) \<longleftrightarrow>
      q < graph_nodes g \<and> (\<exists>a < au_action_count A. pair_next A q a = t)"
    unfolding sources E fst_image_Collect by blast
  have *: "set (resolution_sources g t) =
      fst ` {x \<in> ?E ` set (edge_range (snd g) t). \<not> po_outputs_differ (fst g) ! (fst x * au_action_count A + snd x)}"
  proof -
    define R where "R x \<longleftrightarrow> \<not> po_outputs_differ (fst g) ! (fst x * au_action_count A + snd x)" for x :: "nat \<times> nat"
    have silent: "edge_silent g i \<longleftrightarrow> R (?E i)" for i by (simp add: edge_silent_def R_def A_def)
    have "set (resolution_sources g t) = (\<lambda>i. fst (?E i)) ` {i \<in> set (edge_range (snd g) t). R (?E i)}"
      by (simp add: resolution_sources_def silent)
    also have "\<dots> = fst ` {x \<in> ?E ` set (edge_range (snd g) t). R x}"
      unfolding image_image[symmetric, where f = fst and g = ?E] by (rule arg_cong[where f = "image fst"]) blast
    finally show ?thesis by (simp add: R_def)
  qed
  show "q \<in> set (resolution_sources g t) \<longleftrightarrow>
      q < graph_nodes g \<and> (\<exists>a < au_action_count A. pair_next A q a = t \<and> \<not> pair_differ A q a)"
  proof -
    have "{x \<in> ?E ` set (edge_range (snd g) t). \<not> po_outputs_differ (fst g) ! (fst x * au_action_count A + snd x)} =
        {(q, a). q < graph_nodes g \<and> a < au_action_count A \<and> pair_next A q a = t \<and> \<not> pair_differ A q a}"
      unfolding E using nx by auto
    with * show ?thesis by (simp only: fst_image_Collect) blast
  qed
qed

lemma graph_nodes_small:
  assumes "graph_ok g"
  shows "graph_nodes g + 1 < SIZE_MAX"
proof -
  define n where "n = au_state_count (po_automaton (fst g))"
  have "graph_nodes g = n * (n + 1) div 2" "n * (n + 1) \<le> SIZE_MAX"
    using assms by (simp_all add: graph_ok_def oracle_tables_def graph_nodes_def oracle_size_ok_def
        length_state_pairs n_def)
  then have "graph_nodes g \<le> SIZE_MAX div 2" using div_le_mono by metis
  then show ?thesis by (simp add: SIZE_MAX_def)
qed

interpretation merge_search: level_search graph_ok graph_nodes merge_sources merge_seed
proof
  fix g q p assume "graph_ok g" "q < graph_nodes g" "p \<in> set (merge_sources g q)"
  then show "p < graph_nodes g" by (simp add: graph_edges)
next
  fix g p d assume "graph_ok g" "merge_seed g p = Some d"
  then show "p < graph_nodes g \<and> d \<le> 1" by (auto simp: merge_seed_def split: if_splits)
qed (rule graph_nodes_small)

interpretation resolution_search: level_search graph_ok graph_nodes resolution_sources resolution_seed
proof
  fix g q p assume "graph_ok g" "q < graph_nodes g" "p \<in> set (resolution_sources g q)"
  then show "p < graph_nodes g" by (simp add: graph_edges)
next
  fix g p d assume "graph_ok g" "resolution_seed g p = Some d"
  then show "p < graph_nodes g \<and> d \<le> 1" by (auto simp: resolution_seed_def split: if_splits)
qed (rule graph_nodes_small)

section \<open>The loops of the code are the level search\<close>

lemma sg_merge_step_level: "sg_merge_step preds = level_step (merge_sources (oracle, preds))"
proof (rule ext)
  fix st :: distance_search
  obtain d q h where st: "st = (d, q, h)" by (cases st)
  have "foldl (sg_merge_visit preds t) s xs = foldl (level_visit t) s (map (\<lambda>i. pd_pairs preds ! i) xs)" for t s xs
    by (induction xs arbitrary: s) (simp_all add: sg_merge_visit_def level_visit_def Let_def)
  then show "sg_merge_step preds st = level_step (merge_sources (oracle, preds)) st"
    by (simp add: st sg_merge_step_def level_step_def merge_sources_def edge_range_def Let_def)
qed

lemma sg_resolution_step_level:
  "sg_resolution_step oracle preds = level_step (resolution_sources (oracle, preds))"
proof (rule ext)
  fix st :: distance_search
  obtain d q h where st: "st = (d, q, h)" by (cases st)
  have "foldl (sg_resolution_visit oracle preds t) s xs =
      foldl (level_visit t) s (map (\<lambda>i. pd_pairs preds ! i) (filter (edge_silent (oracle, preds)) xs))" for t s xs
    by (induction xs arbitrary: s)
      (auto simp: sg_resolution_visit_def level_visit_def edge_silent_def Let_def split: prod.split)
  then show "sg_resolution_step oracle preds st = level_step (resolution_sources (oracle, preds)) st"
    by (simp add: st sg_resolution_step_def level_step_def resolution_sources_def edge_range_def Let_def)
qed

lemma seed_loop:
  assumes "k \<le> n"
  shows "\<exists>d. foldl (sg_merge_seed oracle) (replicate n SG_INDEX_NONE, []) [0..<k] =
      (d, filter (\<lambda>p. po_first oracle ! p = po_second oracle ! p) [0..<k]) \<and> length d = n \<and>
    (\<forall>p < n. d ! p = (if p < k \<and> po_first oracle ! p = po_second oracle ! p then 0 else SG_INDEX_NONE))"
  using assms
proof (induction k)
  case (Suc k)
  then obtain d where d: "foldl (sg_merge_seed oracle) (replicate n SG_INDEX_NONE, []) [0..<k] =
      (d, filter (\<lambda>p. po_first oracle ! p = po_second oracle ! p) [0..<k])" "length d = n"
    "\<forall>p < n. d ! p = (if p < k \<and> po_first oracle ! p = po_second oracle ! p then 0 else SG_INDEX_NONE)"
    by auto
  have "sg_merge_seed oracle (d, q) k = (if po_first oracle ! k = po_second oracle ! k
      then (d[k := 0], q @ [k]) else (d, q))" for q
    by (simp add: sg_merge_seed_def)
  with d Suc.prems show ?case by (auto simp: nth_list_update less_Suc_eq)
qed simp

lemma resolution_seed_loop:
  fixes d0 :: "nat list"
  defines "R \<equiv> \<lambda>oracle p. list_ex (\<lambda>a. po_outputs_differ oracle ! (p * au_action_count (po_automaton oracle) + a))
      [0..<au_action_count (po_automaton oracle)]"
  assumes "k \<le> n" "length d0 = n"
  shows "\<exists>d. foldl (sg_resolution_seed oracle) (d0, q0) [0..<k] =
      (d, q0 @ filter (\<lambda>p. d0 ! p = SG_INDEX_NONE \<and> R oracle p) [0..<k]) \<and> length d = n \<and>
    (\<forall>p < n. d ! p = (if d0 ! p = SG_INDEX_NONE \<and> p < k \<and> R oracle p then 1 else d0 ! p))"
  using assms(2)
proof (induction k)
  case 0
  then show ?case using assms(3) by simp
next
  case (Suc k)
  then obtain d where d: "foldl (sg_resolution_seed oracle) (d0, q0) [0..<k] =
      (d, q0 @ filter (\<lambda>p. d0 ! p = SG_INDEX_NONE \<and> R oracle p) [0..<k])" "length d = n"
    "\<forall>p < n. d ! p = (if d0 ! p = SG_INDEX_NONE \<and> p < k \<and> R oracle p then 1 else d0 ! p)"
    by auto
  have "d ! k = d0 ! k" using d(3) Suc.prems by simp
  then have "sg_resolution_seed oracle (d, q) k =
      (if d0 ! k = SG_INDEX_NONE \<and> R oracle k then (d[k := 1], q @ [k]) else (d, q))" for q
    by (simp add: sg_resolution_seed_def R_def Let_def)
  with d Suc.prems show ?case by (auto simp: nth_list_update less_Suc_eq)
qed

lemma sorted_map_const: "\<forall>x \<in> set xs. f x = c \<Longrightarrow> sorted (map f xs)"
  by (induction xs) auto

lemma sorted_map_two:
  assumes "\<forall>x \<in> set xs. f x = c" "\<forall>y \<in> set ys. f y = d" "c \<le> d"
  shows "sorted (map f (xs @ ys))"
  using assms sorted_map_const[OF assms(1)] sorted_map_const[OF assms(2)] by (simp add: sorted_append)

lemma merge_start:
  assumes "graph_ok g" "oracle = fst g"
  shows "\<exists>d q. foldl (sg_merge_seed oracle) (replicate (po_pair_count oracle) SG_INDEX_NONE, [])
      [0..<po_pair_count oracle] = (d, q) \<and> level_start (graph_nodes g) (merge_seed g) d q"
proof -
  have T: "oracle_tables (po_automaton oracle) oracle" using assms by (simp add: graph_ok_def)
  let ?n = "po_pair_count oracle"
  have eq: "po_first oracle ! p = po_second oracle ! p \<longleftrightarrow> merge_seed g p = Some 0" if "p < ?n" for p
    using that T pair_equal_iff[OF T, of p] assms(2) by (simp add: merge_seed_def graph_nodes_def oracle_tables_def)
  obtain d where d: "foldl (sg_merge_seed oracle) (replicate ?n SG_INDEX_NONE, []) [0..<?n] =
      (d, filter (\<lambda>p. po_first oracle ! p = po_second oracle ! p) [0..<?n])" "length d = ?n"
    "\<forall>p < ?n. d ! p = (if p < ?n \<and> po_first oracle ! p = po_second oracle ! p then 0 else SG_INDEX_NONE)"
    using seed_loop[OF order_refl] by blast
  have cases: "merge_seed g p = None \<or> merge_seed g p = Some 0" for p by (auto simp: merge_seed_def)
  have "level_start ?n (merge_seed g) d (filter (\<lambda>p. po_first oracle ! p = po_second oracle ! p) [0..<?n])"
    unfolding level_start_def
  proof (intro conjI)
    show "set (filter (\<lambda>p. po_first oracle ! p = po_second oracle ! p) [0..<?n]) = {p. p < ?n \<and> merge_seed g p \<noteq> None}"
      using eq cases by force
    show "\<forall>p < ?n. d ! p = (case merge_seed g p of None \<Rightarrow> SG_INDEX_NONE | Some d \<Rightarrow> d)"
    proof (intro allI impI)
      fix p assume "p < ?n"
      with d(3) eq[of p] cases[of p] show "d ! p = (case merge_seed g p of None \<Rightarrow> SG_INDEX_NONE | Some d \<Rightarrow> d)"
        by auto
    qed
    show "sorted (map ((!) d) (filter (\<lambda>p. po_first oracle ! p = po_second oracle ! p) [0..<?n]))"
      by (rule sorted_map_const[where c = 0]) (use d(3) in auto)
  qed (use d(2) in auto)
  with d(1) assms(2) show ?thesis by (simp add: graph_nodes_def)
qed

lemma resolution_start:
  assumes "graph_ok g" "oracle = fst g"
  shows "\<exists>d0 q0 d q. foldl (sg_merge_seed oracle) (replicate (po_pair_count oracle) SG_INDEX_NONE, [])
      [0..<po_pair_count oracle] = (d0, q0) \<and>
    foldl (sg_resolution_seed oracle) (d0, q0) [0..<po_pair_count oracle] = (d, q) \<and>
    level_start (graph_nodes g) (resolution_seed g) d q"
proof -
  define A where "A = po_automaton oracle"
  have T: "oracle_tables A oracle" using assms by (simp add: graph_ok_def A_def)
  let ?n = "po_pair_count oracle"
  let ?D = "\<lambda>p. po_first oracle ! p = po_second oracle ! p"
  let ?R = "\<lambda>p. list_ex (\<lambda>a. po_outputs_differ oracle ! (p * au_action_count A + a)) [0..<au_action_count A]"
  have D: "?D p \<longleftrightarrow> pair_equal A p" if "p < ?n" for p
    using that T pair_equal_iff[OF T, of p] by (simp add: oracle_tables_def)
  have R: "?R p \<longleftrightarrow> (\<exists>a < au_action_count A. pair_differ A p a)" if "p < ?n" for p
    using that T by (auto simp: list_ex_iff oracle_tables_def)
  have seed: "resolution_seed g p = (if ?D p then Some 0 else if ?R p then Some 1 else None)" if "p < ?n" for p
    using that D[OF that] R[OF that] assms(2) by (simp add: resolution_seed_def graph_nodes_def A_def)
  obtain d0 where d0: "foldl (sg_merge_seed oracle) (replicate ?n SG_INDEX_NONE, []) [0..<?n] =
      (d0, filter ?D [0..<?n])" "length d0 = ?n"
    "\<forall>p < ?n. d0 ! p = (if p < ?n \<and> ?D p then 0 else SG_INDEX_NONE)"
    using seed_loop[OF order_refl] by blast
  have ne: "(0 :: nat) \<noteq> SG_INDEX_NONE" "(1 :: nat) \<noteq> SG_INDEX_NONE" by (simp_all add: SIZE_MAX_def)
  obtain d where d: "foldl (sg_resolution_seed oracle) (d0, filter ?D [0..<?n]) [0..<?n] =
      (d, filter ?D [0..<?n] @ filter (\<lambda>p. d0 ! p = SG_INDEX_NONE \<and> ?R p) [0..<?n])" "length d = ?n"
    "\<forall>p < ?n. d ! p = (if d0 ! p = SG_INDEX_NONE \<and> p < ?n \<and> ?R p then 1 else d0 ! p)"
    using resolution_seed_loop[OF order_refl d0(2), of "oracle" "filter ?D [0..<?n]"] unfolding A_def by blast
  have dd: "d ! p = (if ?D p then 0 else if ?R p then 1 else SG_INDEX_NONE)" if "p < ?n" for p
    using d0(3) d(3) that ne by auto
  have q: "filter (\<lambda>p. d0 ! p = SG_INDEX_NONE \<and> ?R p) [0..<?n] = filter (\<lambda>p. \<not> ?D p \<and> ?R p) [0..<?n]"
    by (rule filter_cong[OF refl]) (use d0(3) ne in auto)
  have "level_start ?n (resolution_seed g) d (filter ?D [0..<?n] @ filter (\<lambda>p. \<not> ?D p \<and> ?R p) [0..<?n])"
    unfolding level_start_def
  proof (intro conjI)
    show "distinct (filter ?D [0..<?n] @ filter (\<lambda>p. \<not> ?D p \<and> ?R p) [0..<?n])" by auto
    show "set (filter ?D [0..<?n] @ filter (\<lambda>p. \<not> ?D p \<and> ?R p) [0..<?n]) =
        {p. p < ?n \<and> resolution_seed g p \<noteq> None}"
      using seed by (auto split: if_splits)
    show "\<forall>p < ?n. d ! p = (case resolution_seed g p of None \<Rightarrow> SG_INDEX_NONE | Some d \<Rightarrow> d)"
      using seed dd by auto
    show "sorted (map ((!) d) (filter ?D [0..<?n] @ filter (\<lambda>p. \<not> ?D p \<and> ?R p) [0..<?n]))"
      by (rule sorted_map_two[where c = 0 and d = 1]) (use dd in auto)
  qed (use d(2) in auto)
  with d0(1) d(1) q assms(2) show ?thesis by (auto simp: graph_nodes_def)
qed

section \<open>Paths are words\<close>

lemma graph_okD:
  assumes "graph_ok g"
  shows "oracle_tables (po_automaton (fst g)) (fst g)" "wf_automaton (po_automaton (fst g))"
    "oracle_size_ok (po_automaton (fst g))" "graph_nodes g = pair_total (po_automaton (fst g))"
  using assms by (auto simp: graph_ok_def oracle_tables_def graph_nodes_def)

lemma merge_path_word:
  assumes g: "graph_ok g" and p: "p < graph_nodes g"
  shows "merge_search.path g p k \<longleftrightarrow> (\<exists>w. length w = k \<and> pair_merges (po_automaton (fst g)) p w)"
proof
  define A where "A = po_automaton (fst g)"
  note A = graph_okD[OF g, folded A_def]
  show "\<exists>w. length w = k \<and> pair_merges A p w" if "merge_search.path g p k"
    using that p
  proof (induction rule: level_path.induct)
    case (path_seed p d)
    then show ?case by (intro exI[of _ "[]"]) (auto simp: merge_seed_def A_def split: if_splits)
  next
    case (path_step q k p)
    have q: "q < graph_nodes g" by (rule merge_search.path_bound[OF path_step.hyps(1) g])
    with path_step.IH obtain w where w: "length w = k" "pair_merges A q w" by blast
    obtain a where "a < au_action_count A" "pair_next A p a = q"
      using graph_edges(1)[OF g q, folded A_def] path_step.hyps(2) by blast
    with w pair_merges_Cons[OF A(2,3), of p a w] path_step.prems A(4) show ?case
      by (intro exI[of _ "a # w"]) simp
  qed
  have "merge_search.path g p (length w)" if "p < graph_nodes g" "pair_merges A p w" for p w
    using that
  proof (induction w arbitrary: p)
    case Nil
    then show ?case by (auto intro!: path_seed simp: merge_seed_def A_def)
  next
    case (Cons a w)
    then have a: "a < au_action_count A" "pair_merges A (pair_next A p a) w"
      using pair_merges_Cons[OF A(2,3)] A(4) by auto
    have n: "pair_next A p a < graph_nodes g" using pair_next_less[OF A(2,3)] a(1) Cons.prems(1) A(4) by simp
    have "p \<in> set (merge_sources g (pair_next A p a))"
      using graph_edges(1)[OF g n, folded A_def] Cons.prems(1) a(1) by blast
    with Cons.IH[OF n a(2)] show ?case by (auto intro: path_step)
  qed
  then show "merge_search.path g p k" if "\<exists>w. length w = k \<and> pair_merges A p w"
    using that p by auto
qed

lemma resolution_path_word:
  assumes g: "graph_ok g" and p: "p < graph_nodes g" and path: "resolution_search.path g p k"
  shows "\<exists>w. length w = k \<and> pair_resolves (po_automaton (fst g)) p w"
proof -
  define A where "A = po_automaton (fst g)"
  note A = graph_okD[OF g, folded A_def]
  have "\<exists>w. length w = k \<and> pair_resolves A p w"
    using path p
  proof (induction rule: level_path.induct)
    case (path_seed p d)
    show ?case
    proof (cases "pair_equal A p")
      case True
      with path_seed have "d = 0" by (simp add: resolution_seed_def A_def)
      with True show ?thesis by (intro exI[of _ "[]"]) simp
    next
      case False
      with path_seed obtain a where "d = 1" "a < au_action_count A" "pair_differ A p a"
        by (auto simp: resolution_seed_def A_def split: if_splits)
      with path_seed.prems A(4) pair_resolves_Cons[OF A(2,3), of p a "[]"] show ?thesis
        by (intro exI[of _ "[a]"]) simp
    qed
  next
    case (path_step q k p)
    have q: "q < graph_nodes g" by (rule resolution_search.path_bound[OF path_step.hyps(1) g])
    with path_step.IH obtain w where w: "length w = k" "pair_resolves A q w" by blast
    obtain a where "a < au_action_count A" "pair_next A p a = q"
      using graph_edges(2)[OF g q, folded A_def] path_step.hyps(2) by blast
    with w pair_resolves_Cons[OF A(2,3), of p a w] pair_resolves_word_ok[OF w(2)] path_step.prems A(4)
    show ?case by (intro exI[of _ "a # w"]) simp
  qed
  then show ?thesis by (simp add: A_def)
qed

lemma resolution_word_path:
  assumes g: "graph_ok g"
  shows "p < graph_nodes g \<Longrightarrow> pair_resolves (po_automaton (fst g)) p w \<Longrightarrow>
    \<exists>k \<le> length w. resolution_search.path g p k"
proof (induction w arbitrary: p)
  case Nil
  then show ?case by (intro exI[of _ 0]) (auto intro!: path_seed simp: resolution_seed_def)
next
  case (Cons a w)
  define A where "A = po_automaton (fst g)"
  note A = graph_okD[OF g, folded A_def]
  have a: "a < au_action_count A" "pair_differ A p a \<or> pair_resolves A (pair_next A p a) w"
    using pair_resolves_Cons[OF A(2,3), of p a w] A(4) Cons.prems by (auto simp: A_def)
  have n: "pair_next A p a < graph_nodes g" using pair_next_less[OF A(2,3)] a(1) Cons.prems(1) A(4) by simp
  consider "pair_equal A p" | "\<not> pair_equal A p" "pair_differ A p a" | "\<not> pair_differ A p a" by blast
  then show ?case
  proof cases
    case 1
    with Cons.prems(1) show ?thesis
      by (intro exI[of _ 0]) (auto intro!: path_seed simp: resolution_seed_def A_def)
  next
    case 2
    with Cons.prems(1) a(1) show ?thesis
      by (intro exI[of _ 1]) (auto intro!: path_seed simp: resolution_seed_def A_def)
  next
    case 3
    with a(2) Cons.IH[OF n] obtain k where k: "k \<le> length w" "resolution_search.path g (pair_next A p a) k"
      by (auto simp: A_def)
    have "p \<in> set (resolution_sources g (pair_next A p a))"
      using graph_edges(2)[OF g n, folded A_def] Cons.prems(1) a(1) 3 by blast
    from path_step[OF k(2) this] k(1) show ?thesis by (intro exI[of _ "Suc k"]) simp
  qed
qed

section \<open>Exact distances\<close>

definition merge_exact :: "sg_automaton \<Rightarrow> nat list \<Rightarrow> bool" where
  "merge_exact A dist \<longleftrightarrow> exact_distances (pair_total A) (\<lambda>p k. \<exists>w. length w = k \<and> pair_merges A p w) dist"

definition resolution_exact :: "sg_automaton \<Rightarrow> nat list \<Rightarrow> bool" where
  "resolution_exact A dist \<longleftrightarrow> exact_distances (pair_total A) (\<lambda>p k. \<exists>w. length w = k \<and> pair_resolves A p w) dist"

lemma sg_merge_distances_exact:
  assumes T: "oracle_tables A oracle"
    and init: "po_merge_distance oracle = replicate (po_pair_count oracle) SG_INDEX_NONE"
  shows "\<exists>d. sg_merge_distances oracle (sg_predecessors_build oracle) = oracle\<lparr>po_merge_distance := d\<rparr> \<and>
    merge_exact A d"
proof -
  let ?g = "(oracle, sg_predecessors_build oracle)"
  have A: "po_automaton oracle = A" using T by (simp add: oracle_tables_def)
  have g: "graph_ok ?g" using T sg_predecessors_build_ok[OF T] by (simp add: graph_ok_def A)
  obtain d q where start: "foldl (sg_merge_seed oracle) (replicate (po_pair_count oracle) SG_INDEX_NONE, [])
      [0..<po_pair_count oracle] = (d, q)" "level_start (graph_nodes ?g) (merge_seed ?g) d q"
    using merge_start[OF g] by auto
  obtain d' q' h' where res: "while level_pending (level_step (merge_sources ?g)) (d, q, 0) = (d', q', h')"
    by (rule prod_cases3)
  have "exact_distances (graph_nodes ?g) (merge_search.path ?g) d'"
    by (rule merge_search.search_exact[OF g start(2) res])
  then have "merge_exact A d'"
    unfolding merge_exact_def graph_okD(4)[OF g, simplified, unfolded A]
    by (rule exact_distances_cong)
      (use merge_path_word[OF g] graph_okD(4)[OF g] A in auto)
  moreover have "sg_merge_distances oracle (sg_predecessors_build oracle) = oracle\<lparr>po_merge_distance := d'\<rparr>"
    using start(1) res by (simp add: sg_merge_distances_def init sg_merge_step_level[of _ "oracle"])
  ultimately show ?thesis by blast
qed

lemma sg_resolution_distances_exact:
  assumes T: "oracle_tables A oracle" and preds: "predecessors_ok oracle preds"
    and init: "po_resolution_distance oracle = replicate (po_pair_count oracle) SG_INDEX_NONE"
  shows "\<exists>d. sg_resolution_distances oracle preds = oracle\<lparr>po_resolution_distance := d\<rparr> \<and>
    resolution_exact A d"
proof -
  let ?g = "(oracle, preds)"
  have A: "po_automaton oracle = A" using T by (simp add: oracle_tables_def)
  have g: "graph_ok ?g" using T preds by (simp add: graph_ok_def A)
  obtain d0 q0 d q where start: "foldl (sg_merge_seed oracle) (replicate (po_pair_count oracle) SG_INDEX_NONE, [])
      [0..<po_pair_count oracle] = (d0, q0)"
    "foldl (sg_resolution_seed oracle) (d0, q0) [0..<po_pair_count oracle] = (d, q)"
    "level_start (graph_nodes ?g) (resolution_seed ?g) d q"
    using resolution_start[OF g] by auto
  obtain d' q' h' where res: "while level_pending (level_step (resolution_sources ?g)) (d, q, 0) = (d', q', h')"
    by (rule prod_cases3)
  have "exact_distances (graph_nodes ?g) (resolution_search.path ?g) d'"
    by (rule resolution_search.search_exact[OF g start(3) res])
  then have "resolution_exact A d'"
    unfolding resolution_exact_def graph_okD(4)[OF g, simplified, unfolded A]
    by (rule exact_distances_cong)
      (use resolution_path_word[OF g] resolution_word_path[OF g] graph_okD(4)[OF g] A in auto)
  moreover have "sg_resolution_distances oracle preds = oracle\<lparr>po_resolution_distance := d'\<rparr>"
    using start(1,2) res by (simp add: sg_resolution_distances_def init sg_resolution_step_level)
  ultimately show ?thesis by blast
qed

end
