(* ===== verification/Sync_Oracle_Build.thy ===== *)
theory Sync_Oracle_Build
  imports Sync_Oracle_Exact
begin

text \<open>
  The oracle as a whole: the witness choices of src/oracle.c, the build, its records and the exact
  meaning of both. \<open>oracle_exact\<close> is the invariant of a built oracle.
\<close>

section \<open>Witness choices\<close>

definition sg_resolution_supports :: "sg_pair_oracle \<Rightarrow> nat \<Rightarrow> nat \<Rightarrow> bool" where
  "sg_resolution_supports oracle pair action \<longleftrightarrow>
     sg_resolution_immediate oracle pair action \<or> sg_resolution_via_next oracle pair action"

definition merge_choices :: "sg_pair_oracle \<Rightarrow> nat \<Rightarrow> nat list" where
  "merge_choices oracle p =
     (if po_merge_distance oracle ! p = SG_INDEX_NONE \<or> po_merge_distance oracle ! p = 0 then []
      else filter (sg_merge_supports oracle p) [0..<au_action_count (po_automaton oracle)])"

definition resolution_choices :: "sg_pair_oracle \<Rightarrow> nat \<Rightarrow> nat list" where
  "resolution_choices oracle p =
     (if po_resolution_distance oracle ! p = SG_INDEX_NONE \<or> po_resolution_distance oracle ! p = 0 then []
      else filter (sg_resolution_supports oracle p) [0..<au_action_count (po_automaton oracle)])"

definition chosen_action :: "nat list \<Rightarrow> nat" where
  "chosen_action choices = (case choices of [] \<Rightarrow> SG_INDEX_NONE | a # _ \<Rightarrow> a)"

definition merge_chosen_next :: "sg_pair_oracle \<Rightarrow> nat \<Rightarrow> nat" where
  "merge_chosen_next oracle p =
     (case merge_choices oracle p of [] \<Rightarrow> SG_INDEX_NONE
      | a # _ \<Rightarrow> po_next oracle ! (p * au_action_count (po_automaton oracle) + a))"

definition resolution_chosen_next :: "sg_pair_oracle \<Rightarrow> nat \<Rightarrow> nat" where
  "resolution_chosen_next oracle p =
     (case resolution_choices oracle p of [] \<Rightarrow> SG_INDEX_NONE
      | a # _ \<Rightarrow> if sg_resolution_immediate oracle p a then SG_INDEX_NONE
                else po_next oracle ! (p * au_action_count (po_automaton oracle) + a))"

text \<open>The oracle with the entries of one pair, and with those of the first \<open>k\<close> pairs, chosen.\<close>

definition with_choice :: "sg_pair_oracle \<Rightarrow> nat \<Rightarrow> sg_pair_oracle \<Rightarrow> sg_pair_oracle" where
  "with_choice base p oracle = oracle\<lparr>
     po_merge_action := (po_merge_action oracle)[p := chosen_action (merge_choices base p)],
     po_merge_next := (po_merge_next oracle)[p := merge_chosen_next base p],
     po_merge_support_count := (po_merge_support_count oracle)[p := length (merge_choices base p)],
     po_resolution_action := (po_resolution_action oracle)[p := chosen_action (resolution_choices base p)],
     po_resolution_next := (po_resolution_next oracle)[p := resolution_chosen_next base p],
     po_resolution_support_count := (po_resolution_support_count oracle)[p := length (resolution_choices base p)]\<rparr>"

definition same_base :: "sg_pair_oracle \<Rightarrow> sg_pair_oracle \<Rightarrow> bool" where
  "same_base base oracle \<longleftrightarrow>
     po_automaton oracle = po_automaton base \<and> po_pair_count oracle = po_pair_count base \<and>
     po_next oracle = po_next base \<and> po_outputs_differ oracle = po_outputs_differ base \<and>
     po_merge_distance oracle = po_merge_distance base \<and>
     po_resolution_distance oracle = po_resolution_distance base"

definition unchosen :: "nat \<Rightarrow> sg_pair_oracle \<Rightarrow> bool" where
  "unchosen p oracle \<longleftrightarrow>
     p < length (po_merge_action oracle) \<and> po_merge_action oracle ! p = SG_INDEX_NONE \<and>
     p < length (po_merge_next oracle) \<and> po_merge_next oracle ! p = SG_INDEX_NONE \<and>
     p < length (po_merge_support_count oracle) \<and> po_merge_support_count oracle ! p = 0 \<and>
     p < length (po_resolution_action oracle) \<and> po_resolution_action oracle ! p = SG_INDEX_NONE \<and>
     p < length (po_resolution_next oracle) \<and> po_resolution_next oracle ! p = SG_INDEX_NONE \<and>
     p < length (po_resolution_support_count oracle) \<and> po_resolution_support_count oracle ! p = 0"

lemma same_base_supports:
  assumes "same_base base oracle"
  shows "sg_merge_supports oracle = sg_merge_supports base"
    "sg_resolution_supports oracle = sg_resolution_supports base"
    "sg_resolution_immediate oracle = sg_resolution_immediate base"
  using assms
  by (auto simp: same_base_def sg_merge_supports_def sg_resolution_supports_def sg_resolution_immediate_def
      sg_resolution_via_next_def Let_def fun_eq_iff)

lemma list_update_keep: "xs ! i = x \<Longrightarrow> xs[i := x] = xs"
  by auto

lemma choose_merge_loop:
  assumes "same_base base oracle" "unchosen p oracle"
  defines "F \<equiv> \<lambda>k. filter (sg_merge_supports base p) [0..<k]"
  shows "foldl (sg_choose_merge_action p) oracle [0..<k] = oracle\<lparr>
     po_merge_action := (po_merge_action oracle)[p := chosen_action (F k)],
     po_merge_next := (po_merge_next oracle)[p := (case F k of [] \<Rightarrow> SG_INDEX_NONE
        | a # _ \<Rightarrow> po_next base ! (p * au_action_count (po_automaton base) + a))],
     po_merge_support_count := (po_merge_support_count oracle)[p := length (F k)]\<rparr>"
proof (induction k)
  case 0
  then show ?case
    using assms(2) by (simp add: F_def chosen_action_def unchosen_def list_update_keep)
next
  case (Suc k)
  let ?o = "oracle\<lparr>
     po_merge_action := (po_merge_action oracle)[p := chosen_action (F k)],
     po_merge_next := (po_merge_next oracle)[p := (case F k of [] \<Rightarrow> SG_INDEX_NONE
        | a # _ \<Rightarrow> po_next base ! (p * au_action_count (po_automaton base) + a))],
     po_merge_support_count := (po_merge_support_count oracle)[p := length (F k)]\<rparr>"
  have base: "same_base base ?o" using assms(1) by (simp add: same_base_def)
  have count: "po_merge_support_count ?o ! p = length (F k)" using assms(2) by (simp add: unchosen_def)
  have nx: "po_next ?o = po_next base" "po_automaton ?o = po_automaton base"
    using assms(1) by (simp_all add: same_base_def)
  have "sg_choose_merge_action p ?o k = oracle\<lparr>
     po_merge_action := (po_merge_action oracle)[p := chosen_action (F (Suc k))],
     po_merge_next := (po_merge_next oracle)[p := (case F (Suc k) of [] \<Rightarrow> SG_INDEX_NONE
        | a # _ \<Rightarrow> po_next base ! (p * au_action_count (po_automaton base) + a))],
     po_merge_support_count := (po_merge_support_count oracle)[p := length (F (Suc k))]\<rparr>"
  proof (cases "sg_merge_supports base p k")
    case False
    then have "F (Suc k) = F k" by (simp add: F_def)
    with False same_base_supports(1)[OF base] show ?thesis by (simp add: sg_choose_merge_action_def Let_def)
  next
    case True
    then have F: "F (Suc k) = F k @ [k]" by (simp add: F_def)
    show ?thesis
    proof (cases "F k")
      case Nil
      with True F count nx same_base_supports(1)[OF base] show ?thesis
        by (simp add: sg_choose_merge_action_def Let_def chosen_action_def)
    next
      case (Cons b bs)
      with True F count nx same_base_supports(1)[OF base] show ?thesis
        by (simp add: sg_choose_merge_action_def Let_def chosen_action_def)
    qed
  qed
  with Suc show ?case by simp
qed

lemma choose_resolution_loop:
  assumes "same_base base oracle" "p < length (po_resolution_support_count oracle)"
    "p < length (po_resolution_action oracle)" "p < length (po_resolution_next oracle)"
    "po_resolution_action oracle ! p = SG_INDEX_NONE" "po_resolution_next oracle ! p = SG_INDEX_NONE"
    "po_resolution_support_count oracle ! p = 0"
  defines "F \<equiv> \<lambda>k. filter (sg_resolution_supports base p) [0..<k]"
  shows "foldl (sg_choose_resolution_action p) oracle [0..<k] = oracle\<lparr>
     po_resolution_action := (po_resolution_action oracle)[p := chosen_action (F k)],
     po_resolution_next := (po_resolution_next oracle)[p := (case F k of [] \<Rightarrow> SG_INDEX_NONE
        | a # _ \<Rightarrow> if sg_resolution_immediate base p a then SG_INDEX_NONE
                  else po_next base ! (p * au_action_count (po_automaton base) + a))],
     po_resolution_support_count := (po_resolution_support_count oracle)[p := length (F k)]\<rparr>"
proof (induction k)
  case 0
  then show ?case
    using assms(2-7) by (simp add: F_def chosen_action_def list_update_keep)
next
  case (Suc k)
  let ?o = "oracle\<lparr>
     po_resolution_action := (po_resolution_action oracle)[p := chosen_action (F k)],
     po_resolution_next := (po_resolution_next oracle)[p := (case F k of [] \<Rightarrow> SG_INDEX_NONE
        | a # _ \<Rightarrow> if sg_resolution_immediate base p a then SG_INDEX_NONE
                  else po_next base ! (p * au_action_count (po_automaton base) + a))],
     po_resolution_support_count := (po_resolution_support_count oracle)[p := length (F k)]\<rparr>"
  have base: "same_base base ?o" using assms(1) by (simp add: same_base_def)
  have count: "po_resolution_support_count ?o ! p = length (F k)" using assms(2) by simp
  have nx: "po_next ?o = po_next base" "po_automaton ?o = po_automaton base"
    using assms(1) by (simp_all add: same_base_def)
  have sup: "sg_resolution_immediate ?o p k \<or> sg_resolution_via_next ?o p k \<longleftrightarrow> sg_resolution_supports base p k"
    using same_base_supports(2)[OF base] unfolding sg_resolution_supports_def[of ?o, symmetric] by simp
  have imm: "sg_resolution_immediate ?o p k \<longleftrightarrow> sg_resolution_immediate base p k"
    using same_base_supports(3)[OF base] by simp
  have "sg_choose_resolution_action p ?o k = oracle\<lparr>
     po_resolution_action := (po_resolution_action oracle)[p := chosen_action (F (Suc k))],
     po_resolution_next := (po_resolution_next oracle)[p := (case F (Suc k) of [] \<Rightarrow> SG_INDEX_NONE
        | a # _ \<Rightarrow> if sg_resolution_immediate base p a then SG_INDEX_NONE
                  else po_next base ! (p * au_action_count (po_automaton base) + a))],
     po_resolution_support_count := (po_resolution_support_count oracle)[p := length (F (Suc k))]\<rparr>"
  proof (cases "sg_resolution_supports base p k")
    case False
    then have "F (Suc k) = F k" by (simp add: F_def)
    with False sup show ?thesis by (simp add: sg_choose_resolution_action_def Let_def)
  next
    case True
    then have F: "F (Suc k) = F k @ [k]" by (simp add: F_def)
    have step: "sg_choose_resolution_action p ?o k =
       (let o1 = (if po_resolution_support_count ?o ! p = 0
                then ?o\<lparr>po_resolution_action := (po_resolution_action ?o)[p := k],
                        po_resolution_next := (po_resolution_next ?o)
                          [p := if sg_resolution_immediate base p k then SG_INDEX_NONE
                                else po_next base ! (p * au_action_count (po_automaton base) + k)]\<rparr>
                else ?o)
        in o1\<lparr>po_resolution_support_count := (po_resolution_support_count o1)
                [p := po_resolution_support_count o1 ! p + 1]\<rparr>)"
      unfolding sg_choose_resolution_action_def Let_def nx imm[symmetric] sup[symmetric]
      using True sup by (simp only: if_True simp_thms)
    show ?thesis
      unfolding step count by (cases "F k") (simp_all add: F Let_def chosen_action_def assms(2))
  qed
  with Suc show ?case by simp
qed

lemma sg_choose_pair_witnesses_eq:
  assumes "same_base base oracle" "unchosen p oracle"
  shows "sg_choose_pair_witnesses oracle p = with_choice base p oracle"
proof -
  let ?m = "[0..<au_action_count (po_automaton base)]"
  have eq: "po_automaton oracle = po_automaton base" "po_merge_distance oracle = po_merge_distance base"
    "po_resolution_distance oracle = po_resolution_distance base"
    using assms(1) by (simp_all add: same_base_def)
  define o1 where "o1 = oracle\<lparr>
     po_merge_action := (po_merge_action oracle)[p := chosen_action (merge_choices base p)],
     po_merge_next := (po_merge_next oracle)[p := merge_chosen_next base p],
     po_merge_support_count := (po_merge_support_count oracle)[p := length (merge_choices base p)]\<rparr>"
  have o1: "(if po_merge_distance oracle ! p \<noteq> SG_INDEX_NONE \<and> po_merge_distance oracle ! p \<noteq> 0
      then foldl (sg_choose_merge_action p) oracle ?m else oracle) = o1"
  proof (cases "po_merge_distance base ! p = SG_INDEX_NONE \<or> po_merge_distance base ! p = 0")
    case True
    then have "merge_choices base p = []" by (simp add: merge_choices_def)
    moreover from this have "merge_chosen_next base p = SG_INDEX_NONE" by (simp add: merge_chosen_next_def)
    ultimately have "o1 = oracle"
      using assms(2) by (simp add: o1_def chosen_action_def unchosen_def list_update_keep)
    with True eq show ?thesis by auto
  next
    case False
    then have "merge_choices base p = filter (sg_merge_supports base p) ?m" by (simp add: merge_choices_def)
    with False eq choose_merge_loop[OF assms] show ?thesis by (simp add: o1_def merge_chosen_next_def)
  qed
  have b1: "same_base base o1" using assms(1) by (simp add: same_base_def o1_def)
  have u1: "p < length (po_resolution_support_count o1)" "p < length (po_resolution_action o1)"
    "p < length (po_resolution_next o1)" "po_resolution_action o1 ! p = SG_INDEX_NONE"
    "po_resolution_next o1 ! p = SG_INDEX_NONE" "po_resolution_support_count o1 ! p = 0"
    using assms(2) by (simp_all add: unchosen_def o1_def)
  have wc: "with_choice base p oracle = o1\<lparr>
     po_resolution_action := (po_resolution_action o1)[p := chosen_action (resolution_choices base p)],
     po_resolution_next := (po_resolution_next o1)[p := resolution_chosen_next base p],
     po_resolution_support_count := (po_resolution_support_count o1)[p := length (resolution_choices base p)]\<rparr>"
    by (simp add: with_choice_def o1_def)
  have o2: "(if po_resolution_distance base ! p = SG_INDEX_NONE \<or> po_resolution_distance base ! p = 0
      then o1 else foldl (sg_choose_resolution_action p) o1 ?m) = with_choice base p oracle"
  proof (cases "po_resolution_distance base ! p = SG_INDEX_NONE \<or> po_resolution_distance base ! p = 0")
    case True
    then have "resolution_choices base p = []" by (simp add: resolution_choices_def)
    moreover from this have "resolution_chosen_next base p = SG_INDEX_NONE" by (simp add: resolution_chosen_next_def)
    ultimately have "with_choice base p oracle = o1"
      unfolding wc using u1 by (simp add: chosen_action_def list_update_keep)
    with True show ?thesis by simp
  next
    case False
    then have "resolution_choices base p = filter (sg_resolution_supports base p) ?m"
      by (simp add: resolution_choices_def)
    with False choose_resolution_loop[OF b1 u1] show ?thesis by (simp add: wc resolution_chosen_next_def)
  qed
  have "po_resolution_distance o1 = po_resolution_distance base" using b1 by (simp add: same_base_def)
  with o1 o2 eq show ?thesis by (simp only: sg_choose_pair_witnesses_def Let_def)
qed

text \<open>Every pair is handled once, so the choices of the whole table are those of each pair.\<close>

definition with_choices :: "sg_pair_oracle \<Rightarrow> nat \<Rightarrow> sg_pair_oracle" where
  "with_choices base k = base\<lparr>
     po_merge_action := writes (\<lambda>p. chosen_action (merge_choices base p)) (po_merge_action base) k,
     po_merge_next := writes (merge_chosen_next base) (po_merge_next base) k,
     po_merge_support_count := writes (\<lambda>p. length (merge_choices base p)) (po_merge_support_count base) k,
     po_resolution_action := writes (\<lambda>p. chosen_action (resolution_choices base p)) (po_resolution_action base) k,
     po_resolution_next := writes (resolution_chosen_next base) (po_resolution_next base) k,
     po_resolution_support_count := writes (\<lambda>p. length (resolution_choices base p))
       (po_resolution_support_count base) k\<rparr>"

lemma sg_choose_witnesses_eq:
  assumes "\<And>p. p < po_pair_count base \<Longrightarrow> unchosen p base"
  shows "sg_choose_witnesses base = with_choices base (po_pair_count base)"
proof -
  have "foldl sg_choose_pair_witnesses base [0..<k] = with_choices base k" if "k \<le> po_pair_count base" for k
    using that
  proof (induction k)
    case 0
    then show ?case by (simp add: with_choices_def)
  next
    case (Suc k)
    have "same_base base (with_choices base k)" by (simp add: same_base_def with_choices_def)
    moreover have "unchosen k (with_choices base k)"
      using assms[of k] Suc.prems by (simp add: unchosen_def with_choices_def nth_writes)
    ultimately have "sg_choose_pair_witnesses (with_choices base k) k = with_choices base (Suc k)"
      by (simp add: sg_choose_pair_witnesses_eq) (simp add: with_choice_def with_choices_def)
    with Suc show ?case by simp
  qed
  then show ?thesis by (simp add: sg_choose_witnesses_def)
qed

section \<open>The built oracle\<close>

definition oracle_exact :: "sg_automaton \<Rightarrow> sg_pair_oracle \<Rightarrow> bool" where
  "oracle_exact A oracle \<longleftrightarrow>
     oracle_tables A oracle \<and> oracle_lengths (pair_total A) oracle \<and>
     merge_exact A (po_merge_distance oracle) \<and> resolution_exact A (po_resolution_distance oracle) \<and>
     (\<forall>p < pair_total A.
        po_merge_action oracle ! p = chosen_action (merge_choices oracle p) \<and>
        po_merge_next oracle ! p = merge_chosen_next oracle p \<and>
        po_merge_support_count oracle ! p = length (merge_choices oracle p) \<and>
        po_resolution_action oracle ! p = chosen_action (resolution_choices oracle p) \<and>
        po_resolution_next oracle ! p = resolution_chosen_next oracle p \<and>
        po_resolution_support_count oracle ! p = length (resolution_choices oracle p))"

lemma same_base_choices:
  assumes "same_base base oracle"
  shows "merge_choices oracle = merge_choices base" "resolution_choices oracle = resolution_choices base"
    "merge_chosen_next oracle = merge_chosen_next base"
    "resolution_chosen_next oracle = resolution_chosen_next base"
proof -
  have eq: "po_automaton oracle = po_automaton base" "po_merge_distance oracle = po_merge_distance base"
    "po_resolution_distance oracle = po_resolution_distance base" "po_next oracle = po_next base"
    using assms by (simp_all add: same_base_def)
  show m: "merge_choices oracle = merge_choices base"
    by (rule ext) (simp add: merge_choices_def eq same_base_supports[OF assms])
  show r: "resolution_choices oracle = resolution_choices base"
    by (rule ext) (simp add: resolution_choices_def eq same_base_supports[OF assms])
  show "merge_chosen_next oracle = merge_chosen_next base"
    by (rule ext) (simp add: merge_chosen_next_def eq m split: list.split)
  show "resolution_chosen_next oracle = resolution_chosen_next base"
    by (rule ext) (simp add: resolution_chosen_next_def eq r same_base_supports[OF assms] split: list.split)
qed

text \<open>The part of an oracle that only depends on the automaton.\<close>

definition oracle_base :: "sg_pair_oracle \<Rightarrow> sg_pair_oracle" where
  "oracle_base oracle = oracle\<lparr>po_merge_distance := [], po_merge_action := [], po_merge_next := [],
     po_merge_support_count := [], po_resolution_distance := [], po_resolution_action := [],
     po_resolution_next := [], po_resolution_support_count := []\<rparr>"

lemma oracle_build_ok:
  assumes wf: "wf_automaton A" and size: "oracle_size_ok A"
  shows "\<exists>orc o0. sg_pair_oracle_build (Ref A) = Inr orc \<and> oracle_exact A orc \<and>
    sg_oracle_allocate A = Inr o0 \<and> oracle_base orc = oracle_base (sg_oracle_fill_pairs o0)"
proof -
  let ?c = "pair_total A"
  obtain o0 where o0: "sg_oracle_allocate A = Inr o0" "po_automaton o0 = A" "po_pair_count o0 = ?c"
    "length (po_first o0) = ?c" "length (po_second o0) = ?c"
    "length (po_next o0) = ?c * au_action_count A"
    "length (po_outputs_differ o0) = ?c * au_action_count A"
    and init: "po_merge_distance o0 = replicate ?c SG_INDEX_NONE"
    "po_merge_action o0 = replicate ?c SG_INDEX_NONE"
    "po_merge_next o0 = replicate ?c SG_INDEX_NONE"
    "po_merge_support_count o0 = replicate ?c 0"
    "po_resolution_distance o0 = replicate ?c SG_INDEX_NONE"
    "po_resolution_action o0 = replicate ?c SG_INDEX_NONE"
    "po_resolution_next o0 = replicate ?c SG_INDEX_NONE"
    "po_resolution_support_count o0 = replicate ?c 0"
    using sg_oracle_allocate_ok[OF wf size] by blast
  define o1 where "o1 = sg_oracle_fill_pairs o0"
  have T1: "oracle_tables A o1"
    unfolding o1_def by (rule sg_oracle_fill_pairs_tables[OF wf size o0(2-7)])
  have i1: "po_merge_distance o1 = po_merge_distance o0" "po_merge_action o1 = po_merge_action o0"
    "po_merge_next o1 = po_merge_next o0" "po_merge_support_count o1 = po_merge_support_count o0"
    "po_resolution_distance o1 = po_resolution_distance o0" "po_resolution_action o1 = po_resolution_action o0"
    "po_resolution_next o1 = po_resolution_next o0" "po_resolution_support_count o1 = po_resolution_support_count o0"
    "po_pair_count o1 = ?c"
    by (simp_all add: o1_def sg_oracle_fill_pairs_eq[OF o0(2)] o0(3))
  define preds where "preds = sg_predecessors_build o1"
  obtain d where d: "sg_merge_distances o1 preds = o1\<lparr>po_merge_distance := d\<rparr>" "merge_exact A d"
    using sg_merge_distances_exact[OF T1] i1(1,9) init(1) by (auto simp: preds_def)
  define o2 where "o2 = o1\<lparr>po_merge_distance := d\<rparr>"
  have T2: "oracle_tables A o2" using T1 by (simp add: oracle_tables_def o2_def)
  have P2: "predecessors_ok o2 preds"
    using sg_predecessors_build_ok[OF T1] by (simp add: predecessors_ok_def o2_def preds_def)
  obtain r where r: "sg_resolution_distances o2 preds = o2\<lparr>po_resolution_distance := r\<rparr>" "resolution_exact A r"
    using sg_resolution_distances_exact[OF T2 P2] i1(5,9) init(5) by (auto simp: o2_def)
  define o3 where "o3 = o2\<lparr>po_resolution_distance := r\<rparr>"
  have c3: "po_pair_count o3 = ?c" using i1(9) by (simp add: o3_def o2_def)
  have un: "unchosen p o3" if "p < ?c" for p
    using that i1 init by (simp add: unchosen_def o3_def o2_def)
  define o4 where "o4 = with_choices o3 ?c"
  have build: "sg_pair_oracle_build (Ref A) = Inr o4"
    using sg_choose_witnesses_eq[of o3] un
    by (simp add: sg_pair_oracle_build_def o0(1) Let_def o1_def[symmetric] preds_def[symmetric] d(1)
        o2_def[symmetric] r(1) o3_def[symmetric] o4_def c3)
  have base: "same_base o3 o4" by (simp add: same_base_def o4_def with_choices_def)
  have lens: "length d = ?c" "length r = ?c"
    using d(2) r(2) by (simp_all add: merge_exact_def resolution_exact_def exact_distances_def)
  have exact: "oracle_exact A o4"
    unfolding oracle_exact_def same_base_choices[OF base]
  proof (intro conjI allI impI)
    show "oracle_tables A o4" using T2 by (simp add: oracle_tables_def o4_def with_choices_def o3_def)
    show "oracle_lengths ?c o4"
      using lens i1 init by (simp add: oracle_lengths_def o4_def with_choices_def o3_def o2_def)
    show "merge_exact A (po_merge_distance o4)" "resolution_exact A (po_resolution_distance o4)"
      using d(2) r(2) by (simp_all add: o4_def with_choices_def o3_def o2_def)
  qed (use un in \<open>auto simp: o4_def with_choices_def nth_writes unchosen_def\<close>)
  have "oracle_base o4 = oracle_base (sg_oracle_fill_pairs o0)"
    by (simp add: oracle_base_def o4_def with_choices_def o3_def o2_def o1_def)
  with build exact o0(1) show ?thesis by blast
qed

section \<open>What exactness says\<close>

lemma merge_exactD:
  assumes "merge_exact A dist" "p < pair_total A"
  shows "dist ! p \<noteq> SG_INDEX_NONE \<Longrightarrow> \<exists>w. length w = dist ! p \<and> pair_merges A p w"
    and "pair_merges A p w \<Longrightarrow> dist ! p \<noteq> SG_INDEX_NONE \<and> dist ! p \<le> length w"
  using assms by (auto simp: merge_exact_def exact_distances_def split: if_splits)

lemma resolution_exactD:
  assumes "resolution_exact A dist" "p < pair_total A"
  shows "dist ! p \<noteq> SG_INDEX_NONE \<Longrightarrow> \<exists>w. length w = dist ! p \<and> pair_resolves A p w"
    and "pair_resolves A p w \<Longrightarrow> dist ! p \<noteq> SG_INDEX_NONE \<and> dist ! p \<le> length w"
  using assms by (auto simp: resolution_exact_def exact_distances_def split: if_splits)

lemma merge_supports_word:
  assumes T: "oracle_tables A oracle" and E: "merge_exact A (po_merge_distance oracle)"
    and p: "p < pair_total A" "po_merge_distance oracle ! p \<noteq> SG_INDEX_NONE" and a: "a < au_action_count A"
  shows "sg_merge_supports oracle p a \<longleftrightarrow>
    (\<exists>w. pair_merges A p (a # w) \<and> length (a # w) = po_merge_distance oracle ! p)"
proof -
  have A: "wf_automaton A" "oracle_size_ok A" "po_automaton oracle = A"
    "po_next oracle ! (p * au_action_count A + a) = pair_next A p a"
    using T p a by (auto simp: oracle_tables_def)
  have n: "pair_next A p a < pair_total A" by (rule pair_next_less[OF A(1,2) p(1) a])
  note cons = pair_merges_Cons[OF A(1,2) p(1), of a]
  let ?d = "po_merge_distance oracle"
  show ?thesis
  proof
    assume "sg_merge_supports oracle p a"
    then have s: "?d ! pair_next A p a \<noteq> SG_INDEX_NONE" "?d ! pair_next A p a + 1 = ?d ! p"
      by (simp_all add: sg_merge_supports_def Let_def A(3,4))
    from merge_exactD(1)[OF E n s(1)] obtain w where "length w = ?d ! pair_next A p a" "pair_merges A (pair_next A p a) w"
      by blast
    with s(2) a cons show "\<exists>w. pair_merges A p (a # w) \<and> length (a # w) = ?d ! p" by auto
  next
    assume "\<exists>w. pair_merges A p (a # w) \<and> length (a # w) = ?d ! p"
    then obtain w where w: "pair_merges A (pair_next A p a) w" "Suc (length w) = ?d ! p" using cons by auto
    note next_le = merge_exactD(2)[OF E n w(1)]
    obtain v where v: "length v = ?d ! pair_next A p a" "pair_merges A (pair_next A p a) v"
      using merge_exactD(1)[OF E n] next_le by blast
    have "pair_merges A p (a # v)" using cons v(2) a by simp
    from merge_exactD(2)[OF E p(1) this] v(1) next_le w(2)
    show "sg_merge_supports oracle p a" by (simp add: sg_merge_supports_def Let_def A(3,4))
  qed
qed

lemma resolution_supports_word:
  assumes T: "oracle_tables A oracle" and E: "resolution_exact A (po_resolution_distance oracle)"
    and p: "p < pair_total A" "po_resolution_distance oracle ! p \<noteq> SG_INDEX_NONE" and a: "a < au_action_count A"
  shows "sg_resolution_supports oracle p a \<longleftrightarrow>
    (\<exists>w. pair_resolves A p (a # w) \<and> length (a # w) = po_resolution_distance oracle ! p)"
proof -
  have A: "wf_automaton A" "oracle_size_ok A" "po_automaton oracle = A"
    "po_next oracle ! (p * au_action_count A + a) = pair_next A p a"
    "po_outputs_differ oracle ! (p * au_action_count A + a) = pair_differ A p a"
    using T p a by (auto simp: oracle_tables_def)
  have n: "pair_next A p a < pair_total A" by (rule pair_next_less[OF A(1,2) p(1) a])
  note cons = pair_resolves_Cons[OF A(1,2) p(1), of a]
  let ?d = "po_resolution_distance oracle"
  have sup: "sg_resolution_supports oracle p a \<longleftrightarrow>
      ?d ! p = 1 \<and> pair_differ A p a \<or>
      \<not> pair_differ A p a \<and> ?d ! pair_next A p a \<noteq> SG_INDEX_NONE \<and> ?d ! pair_next A p a + 1 = ?d ! p"
    by (simp add: sg_resolution_supports_def sg_resolution_immediate_def sg_resolution_via_next_def Let_def A(3-5))
  show ?thesis
  proof
    assume "sg_resolution_supports oracle p a"
    then consider "?d ! p = 1" "pair_differ A p a"
      | "\<not> pair_differ A p a" "?d ! pair_next A p a \<noteq> SG_INDEX_NONE" "?d ! pair_next A p a + 1 = ?d ! p"
      using sup by blast
    then show "\<exists>w. pair_resolves A p (a # w) \<and> length (a # w) = ?d ! p"
    proof cases
      case 1
      with cons[of "[]"] a show ?thesis by (intro exI[of _ "[]"]) simp
    next
      case 2
      from resolution_exactD(1)[OF E n 2(2)] obtain w where
        "length w = ?d ! pair_next A p a" "pair_resolves A (pair_next A p a) w" by blast
      with 2 a cons[of w] pair_resolves_word_ok[of A "pair_next A p a" w] show ?thesis
        by (intro exI[of _ w]) simp
    qed
  next
    assume "\<exists>w. pair_resolves A p (a # w) \<and> length (a # w) = ?d ! p"
    then obtain w where w: "pair_resolves A p (a # w)" "Suc (length w) = ?d ! p" by auto
    show "sg_resolution_supports oracle p a"
    proof (cases "pair_differ A p a")
      case True
      then have "pair_resolves A p [a]" using cons[of "[]"] a by simp
      from resolution_exactD(2)[OF E p(1) this] w(2) True show ?thesis by (simp add: sup)
    next
      case False
      then have nw: "pair_resolves A (pair_next A p a) w" using w(1) cons[of w] by blast
      note next_le = resolution_exactD(2)[OF E n nw]
      obtain v where v: "length v = ?d ! pair_next A p a" "pair_resolves A (pair_next A p a) v"
        using resolution_exactD(1)[OF E n] next_le by blast
      have "pair_resolves A p (a # v)" using cons[of v] v(2) a pair_resolves_word_ok[OF v(2)] by simp
      from resolution_exactD(2)[OF E p(1) this] v(1) next_le w(2) False show ?thesis by (simp add: sup)
    qed
  qed
qed

end
