(* ===== verification/Sync_Oracle_Records.thy ===== *)
theory Sync_Oracle_Records
  imports Sync_Oracle_Build
begin

text \<open>
  Records, restoring and witness words of src/oracle.c. A restored table is \<open>oracle_valid\<close>: its
  records are consistent with one another, which is less than exact but enough for every witness
  word to end and to do what it promises.
\<close>

section \<open>Exact records\<close>

definition shortest_length :: "(nat list \<Rightarrow> bool) \<Rightarrow> nat \<Rightarrow> bool" where
  "shortest_length P k \<longleftrightarrow> (\<exists>w. P w \<and> length w = k) \<and> (\<forall>w. P w \<longrightarrow> k \<le> length w)"

text \<open>The letters that the words of \<open>P\<close> of length \<open>d\<close> begin with.\<close>

definition first_letters :: "(nat list \<Rightarrow> bool) \<Rightarrow> nat \<Rightarrow> nat set" where
  "first_letters P d = {a. \<exists>w. P (a # w) \<and> length (a # w) = d}"

lemma chosen_action_Min:
  assumes "sorted choices"
  shows "chosen_action choices = (if set choices = {} then SG_INDEX_NONE else Min (set choices))"
proof (cases choices)
  case (Cons a as)
  with assms have "Min (set choices) = a" by (intro Min_eqI) auto
  with Cons show ?thesis by (simp add: chosen_action_def)
qed (simp add: chosen_action_def)

lemma choices_sorted [simp]:
  "sorted (merge_choices orc p)" "distinct (merge_choices orc p)"
  "sorted (resolution_choices orc p)" "distinct (resolution_choices orc p)"
  by (simp_all add: merge_choices_def resolution_choices_def sorted_wrt_filter)

text \<open>The choices of an exact table are the letters that shortest words begin with.\<close>

lemma exact_choices:
  assumes exact: "oracle_exact A orc" and p: "p < pair_total A"
  shows "set (merge_choices orc p) = first_letters (pair_merges A p) (po_merge_distance orc ! p)"
    and "set (resolution_choices orc p) = first_letters (pair_resolves A p) (po_resolution_distance orc ! p)"
proof -
  have T: "oracle_tables A orc" and M: "merge_exact A (po_merge_distance orc)"
    and R: "resolution_exact A (po_resolution_distance orc)"
    using exact by (simp_all add: oracle_exact_def)
  have A: "wf_automaton A" "oracle_size_ok A" "po_automaton orc = A" using T by (simp_all add: oracle_tables_def)
  show "set (merge_choices orc p) = first_letters (pair_merges A p) (po_merge_distance orc ! p)"
  proof (cases "po_merge_distance orc ! p = SG_INDEX_NONE")
    case True
    then show ?thesis using merge_exactD(2)[OF M p] by (auto simp: merge_choices_def first_letters_def)
  next
    case False
    then show ?thesis
      using merge_supports_word[OF T M p False] pair_merges_Cons[OF A(1,2) p]
      by (auto simp: merge_choices_def first_letters_def A(3))
  qed
  show "set (resolution_choices orc p) = first_letters (pair_resolves A p) (po_resolution_distance orc ! p)"
  proof (cases "po_resolution_distance orc ! p = SG_INDEX_NONE")
    case True
    then show ?thesis using resolution_exactD(2)[OF R p] by (auto simp: resolution_choices_def first_letters_def)
  next
    case False
    then show ?thesis
      using resolution_supports_word[OF T R p False] pair_resolves_Cons[OF A(1,2) p]
      by (auto simp: resolution_choices_def first_letters_def A(3))
  qed
qed

lemma exact_record_values:
  assumes exact: "oracle_exact A orc" and p: "p < pair_total A"
  shows "po_merge_distance orc ! p \<noteq> SG_INDEX_NONE \<longleftrightarrow> (\<exists>w. pair_merges A p w)"
    and "po_merge_distance orc ! p \<noteq> SG_INDEX_NONE \<Longrightarrow>
      shortest_length (pair_merges A p) (po_merge_distance orc ! p)"
    and "po_resolution_distance orc ! p \<noteq> SG_INDEX_NONE \<longleftrightarrow> (\<exists>w. pair_resolves A p w)"
    and "po_resolution_distance orc ! p \<noteq> SG_INDEX_NONE \<Longrightarrow>
      shortest_length (pair_resolves A p) (po_resolution_distance orc ! p)"
proof -
  have M: "merge_exact A (po_merge_distance orc)" and R: "resolution_exact A (po_resolution_distance orc)"
    using exact by (simp_all add: oracle_exact_def)
  note m = merge_exactD[OF M p] and r = resolution_exactD[OF R p]
  show "po_merge_distance orc ! p \<noteq> SG_INDEX_NONE \<longleftrightarrow> (\<exists>w. pair_merges A p w)" using m by blast
  show "po_resolution_distance orc ! p \<noteq> SG_INDEX_NONE \<longleftrightarrow> (\<exists>w. pair_resolves A p w)" using r by blast
  show "shortest_length (pair_merges A p) (po_merge_distance orc ! p)"
    if "po_merge_distance orc ! p \<noteq> SG_INDEX_NONE"
    using m(1)[OF that] m(2) by (auto simp: shortest_length_def)
  show "shortest_length (pair_resolves A p) (po_resolution_distance orc ! p)"
    if "po_resolution_distance orc ! p \<noteq> SG_INDEX_NONE"
    using r(1)[OF that] r(2) by (auto simp: shortest_length_def)
qed

text \<open>The witness fields of an exact table: how many first letters there are, the least one and its successor.\<close>

lemma exact_merge_witness:
  assumes exact: "oracle_exact A orc" and p: "p < pair_total A"
  defines "L \<equiv> first_letters (pair_merges A p) (po_merge_distance orc ! p)"
  shows "po_merge_support_count orc ! p = card L"
    "po_merge_action orc ! p = (if L = {} then SG_INDEX_NONE else Min L)"
    "po_merge_next orc ! p = (if L = {} then SG_INDEX_NONE else pair_next A p (Min L))"
proof -
  have L: "set (merge_choices orc p) = L" using exact_choices(1)[OF exact p] by (simp add: L_def)
  have f: "po_merge_support_count orc ! p = length (merge_choices orc p)"
    "po_merge_action orc ! p = chosen_action (merge_choices orc p)" "po_merge_next orc ! p = merge_chosen_next orc p"
    and T: "oracle_tables A orc" using exact p by (simp_all add: oracle_exact_def)
  show "po_merge_support_count orc ! p = card L" using f(1) L distinct_card[OF choices_sorted(2)] by metis
  show action: "po_merge_action orc ! p = (if L = {} then SG_INDEX_NONE else Min L)"
    using f(2) chosen_action_Min[OF choices_sorted(1), of orc p] by (simp add: L)
  show "po_merge_next orc ! p = (if L = {} then SG_INDEX_NONE else pair_next A p (Min L))"
  proof (cases "merge_choices orc p")
    case Nil
    with L f(3) show ?thesis by (simp add: merge_chosen_next_def)
  next
    case (Cons a as)
    then have "a \<in> set (merge_choices orc p)" by simp
    then have "a < au_action_count (po_automaton orc)" by (simp add: merge_choices_def split: if_splits)
    moreover have "L \<noteq> {}" using Cons L by auto
    moreover from this have "Min L = a" using action f(2) Cons by (simp add: chosen_action_def)
    ultimately show ?thesis using f(3) Cons T p by (simp add: merge_chosen_next_def oracle_tables_def)
  qed
qed

lemma exact_resolution_witness:
  assumes exact: "oracle_exact A orc" and p: "p < pair_total A"
  defines "L \<equiv> first_letters (pair_resolves A p) (po_resolution_distance orc ! p)"
  shows "po_resolution_support_count orc ! p = card L"
    "po_resolution_action orc ! p = (if L = {} then SG_INDEX_NONE else Min L)"
    "po_resolution_next orc ! p =
      (if L = {} \<or> pair_differ A p (Min L) then SG_INDEX_NONE else pair_next A p (Min L))"
proof -
  have L: "set (resolution_choices orc p) = L" using exact_choices(2)[OF exact p] by (simp add: L_def)
  have f: "po_resolution_support_count orc ! p = length (resolution_choices orc p)"
    "po_resolution_action orc ! p = chosen_action (resolution_choices orc p)"
    "po_resolution_next orc ! p = resolution_chosen_next orc p"
    and T: "oracle_tables A orc" using exact p by (simp_all add: oracle_exact_def)
  show "po_resolution_support_count orc ! p = card L" using f(1) L distinct_card[OF choices_sorted(4)] by metis
  show action: "po_resolution_action orc ! p = (if L = {} then SG_INDEX_NONE else Min L)"
    using f(2) chosen_action_Min[OF choices_sorted(3), of orc p] by (simp add: L)
  show "po_resolution_next orc ! p =
      (if L = {} \<or> pair_differ A p (Min L) then SG_INDEX_NONE else pair_next A p (Min L))"
  proof (cases "resolution_choices orc p")
    case Nil
    with L f(3) show ?thesis by (simp add: resolution_chosen_next_def)
  next
    case (Cons a as)
    then have "a \<in> set (resolution_choices orc p)" by simp
    then have a: "a < au_action_count A" "sg_resolution_supports orc p a"
      using T by (simp_all add: resolution_choices_def oracle_tables_def split: if_splits)
    then have "sg_resolution_immediate orc p a \<longleftrightarrow> pair_differ A p a"
      using T p by (auto simp: sg_resolution_supports_def sg_resolution_immediate_def sg_resolution_via_next_def
          oracle_tables_def Let_def)
    moreover have "L \<noteq> {}" using Cons L by auto
    moreover from this have "Min L = a" using action f(2) Cons by (simp add: chosen_action_def)
    ultimately show ?thesis using f(3) Cons T p a(1) by (simp add: resolution_chosen_next_def oracle_tables_def)
  qed
qed

lemma pair_step_index:
  assumes "wf_automaton A" "oracle_size_ok A" "s < au_state_count A" "t < au_state_count A"
  shows "pair_next A (sg_pair_index (au_state_count A) s t) a = sg_pair_index (au_state_count A) (delta A s a) (delta A t a)"
    "pair_differ A (sg_pair_index (au_state_count A) s t) a \<longleftrightarrow> eta A s a \<noteq> eta A t a"
  using pair_of_index(2)[OF assms] sg_pair_index_commute[of "au_state_count A" "delta A s a" "delta A t a"]
  by (auto simp: pair_next_def pair_differ_def min_def max_def)

lemma build_exact:
  assumes "wf_automaton A" "sg_pair_oracle_build (Ref A) = Inr orc"
  shows "oracle_exact A orc"
proof -
  from assms(2) obtain o0 where "sg_oracle_allocate A = Inr o0"
    by (auto simp: sg_pair_oracle_build_def)
  then have "oracle_size_ok A" by (rule sg_oracle_allocate_Inr[OF assms(1)])
  from oracle_build_ok[OF assms(1) this] assms(2) show ?thesis by auto
qed

text \<open>C2. A built oracle is exact. Its record for two states says whether some word merges them and gives
  the length of a shortest one, the number of actions a shortest merging word can begin with, the first
  (least) such action, and the pair that this action leads to; both are SG_INDEX_NONE if there is no such
  action. Likewise for resolving words, which tell the two states apart by outputs or merge them, where the
  next pair is also SG_INDEX_NONE if the outputs of that action already differ.\<close>

theorem pair_oracle_exact:
  assumes wf: "wf_automaton A" and build: "sg_pair_oracle_build (Ref A) = Inr orc"
    and st: "s < au_state_count A" "t < au_state_count A"
  shows "\<exists>r. sg_pair_oracle_record (Ref orc) (sg_pair_index (au_state_count A) s t) = Inr r \<and>
    rec_pair r = sg_pair_index (au_state_count A) s t \<and>
    (rec_mergeable r \<longleftrightarrow> (\<exists>w. merging_word A s t w)) \<and>
    (rec_mergeable r \<longrightarrow> shortest_length (merging_word A s t) (rec_merge_distance r)) \<and>
    (let first = first_letters (merging_word A s t) (rec_merge_distance r)
     in rec_merge_support_count r = card first \<and>
        (if first = {} then rec_merge_action r = SG_INDEX_NONE \<and> rec_merge_next_pair r = SG_INDEX_NONE
         else rec_merge_action r = Min first \<and>
           rec_merge_next_pair r = sg_pair_index (au_state_count A) (delta A s (Min first)) (delta A t (Min first)))) \<and>
    (rec_resolvable r \<longleftrightarrow> (\<exists>w. resolving_word A s t w)) \<and>
    (rec_resolvable r \<longrightarrow> shortest_length (resolving_word A s t) (rec_resolution_distance r)) \<and>
    (let first = first_letters (resolving_word A s t) (rec_resolution_distance r)
     in rec_resolution_support_count r = card first \<and>
        (if first = {} then rec_resolution_action r = SG_INDEX_NONE \<and> rec_resolution_next_pair r = SG_INDEX_NONE
         else rec_resolution_action r = Min first \<and>
           rec_resolution_next_pair r =
             (if eta A s (Min first) \<noteq> eta A t (Min first) then SG_INDEX_NONE
              else sg_pair_index (au_state_count A) (delta A s (Min first)) (delta A t (Min first)))))"
proof -
  have exact: "oracle_exact A orc" by (rule build_exact[OF wf build])
  then have size: "oracle_size_ok A" "po_pair_count orc = pair_total A"
    by (auto simp: oracle_exact_def oracle_tables_def)
  note pair = pair_of_index[OF wf size(1) st]
  have m: "pair_merges A (sg_pair_index (au_state_count A) s t) = merging_word A s t"
    using pair_merges_index[OF wf size(1) st] by blast
  have r: "pair_resolves A (sg_pair_index (au_state_count A) s t) = resolving_word A s t"
    using pair_resolves_index[OF wf size(1) st] by blast
  note v = exact_record_values[OF exact pair(1), unfolded m r]
  note mw = exact_merge_witness[OF exact pair(1), unfolded m pair_step_index[OF wf size(1) st]]
  note rw = exact_resolution_witness[OF exact pair(1), unfolded r pair_step_index[OF wf size(1) st]]
  show ?thesis
    using pair(1) v(1,3) v(2,4) by (simp add: sg_pair_oracle_record_def size(2) mw rw Let_def)
qed

lemma demo_size: "oracle_size_ok demo_automaton"
  by (simp add: oracle_size_ok_def length_state_pairs demo_automaton_def SIZE_MAX_def)

theorem pair_oracle_exact_witness:
  "\<exists>orc r. sg_pair_oracle_build (Ref demo_automaton) = Inr orc \<and>
    sg_pair_oracle_record (Ref orc) (sg_pair_index (au_state_count demo_automaton) 1 2) = Inr r \<and>
    rec_mergeable r"
proof -
  obtain orc where orc: "sg_pair_oracle_build (Ref demo_automaton) = Inr orc"
    using oracle_build_ok[OF demo_wf demo_size] by blast
  have "merging_word demo_automaton 1 2 [0, 0, 1]" by code_simp
  moreover have "1 < au_state_count demo_automaton" "2 < au_state_count demo_automaton"
    by (simp_all add: demo_automaton_def)
  ultimately show ?thesis using pair_oracle_exact[OF demo_wf orc, of 1 2] orc by blast
qed

section \<open>Valid tables\<close>

definition oracle_valid :: "sg_automaton \<Rightarrow> sg_pair_oracle \<Rightarrow> bool" where
  "oracle_valid A orc \<longleftrightarrow>
     oracle_tables A orc \<and> oracle_lengths (pair_total A) orc \<and>
     (\<forall>p < pair_total A. sg_merge_record_valid orc p \<and> sg_resolution_record_valid orc p)"

lemma foldl_count: "foldl (\<lambda>c x. if P x then c + 1 else c) n xs = n + length (filter P xs)" for n :: nat
  by (induction xs arbitrary: n) simp_all

lemma choices_Cons:
  assumes "filter P [0..<m] \<noteq> []"
  obtains a F where "filter P [0..<m] = a # F" "a < m" "P a"
proof -
  obtain a F where F: "filter P [0..<m] = a # F" using assms by (cases "filter P [0..<m]") auto
  then have "a \<in> set (filter P [0..<m])" by simp
  then have "a < m" "P a" by simp_all
  with F that show ?thesis by blast
qed

lemma exact_merge_record_valid:
  assumes exact: "oracle_exact A orc" and p: "p < pair_total A"
  shows "sg_merge_record_valid orc p"
proof -
  have T: "oracle_tables A orc" and M: "merge_exact A (po_merge_distance orc)"
    and ch: "po_merge_action orc ! p = chosen_action (merge_choices orc p)"
    "po_merge_next orc ! p = merge_chosen_next orc p"
    "po_merge_support_count orc ! p = length (merge_choices orc p)"
    using exact p by (simp_all add: oracle_exact_def)
  have A: "wf_automaton A" "oracle_size_ok A" "po_automaton orc = A" "po_pair_count orc = pair_total A"
    using T by (simp_all add: oracle_tables_def)
  consider "po_merge_distance orc ! p = SG_INDEX_NONE" | "po_merge_distance orc ! p = 0"
    | "po_merge_distance orc ! p \<noteq> SG_INDEX_NONE" "po_merge_distance orc ! p \<noteq> 0" by blast
  then show ?thesis
  proof cases
    case 1
    then have "merge_choices orc p = []" by (simp add: merge_choices_def)
    with 1 ch show ?thesis by (simp add: sg_merge_record_valid_def chosen_action_def merge_chosen_next_def)
  next
    case 2
    then have c: "merge_choices orc p = []" by (simp add: merge_choices_def)
    have ne: "(0 :: nat) \<noteq> SG_INDEX_NONE" by (simp add: SIZE_MAX_def)
    then have "pair_merges A p []" using merge_exactD(1)[OF M p] 2 by force
    then have "po_first orc ! p = po_second orc ! p" using pair_equal_iff[OF T p] by simp
    with 2 ch c ne show ?thesis by (simp add: sg_merge_record_valid_def chosen_action_def merge_chosen_next_def)
  next
    case 3
    obtain w where w: "length w = po_merge_distance orc ! p" "pair_merges A p w"
      using merge_exactD(1)[OF M p 3(1)] by blast
    with 3(2) obtain b v where "w = b # v" by (cases w) auto
    then have "b < au_action_count A" "sg_merge_supports orc p b"
      using w merge_supports_word[OF T M p 3(1)] pair_merges_Cons[OF A(1,2) p] by auto
    then have "filter (sg_merge_supports orc p) [0..<au_action_count A] \<noteq> []"
      by (auto simp: filter_empty_conv)
    then obtain a F where F: "filter (sg_merge_supports orc p) [0..<au_action_count A] = a # F"
      "a < au_action_count A" "sg_merge_supports orc p a" by (rule choices_Cons)
    have c: "merge_choices orc p = a # F" using 3 F(1) A(3) by (simp add: merge_choices_def)
    have nx: "po_next orc ! (p * au_action_count A + a) < pair_total A"
      using T p F(2) pair_next_less[OF A(1,2) p F(2)] by (simp add: oracle_tables_def)
    show ?thesis
      using 3 ch c F nx A(3,4)
      by (simp add: sg_merge_record_valid_def Let_def foldl_count chosen_action_def merge_chosen_next_def
          sg_merge_supports_def[of orc p a])
  qed
qed

lemma pair_total_small: "oracle_size_ok A \<Longrightarrow> pair_total A < SIZE_MAX"
proof -
  assume "oracle_size_ok A"
  then have "au_state_count A * (au_state_count A + 1) \<le> SIZE_MAX" by (simp add: oracle_size_ok_def)
  from div_le_mono[OF this, of 2] have "pair_total A \<le> SIZE_MAX div 2" by (simp only: length_state_pairs)
  then show ?thesis by (simp add: SIZE_MAX_def)
qed

lemma supports_filter:
  "filter (\<lambda>a. sg_resolution_immediate orc p a \<or> sg_resolution_via_next orc p a) xs =
   filter (sg_resolution_supports orc p) xs"
  by (rule filter_cong) (simp_all add: sg_resolution_supports_def)

lemma exact_resolution_record_valid:
  assumes exact: "oracle_exact A orc" and p: "p < pair_total A"
  shows "sg_resolution_record_valid orc p"
proof -
  have T: "oracle_tables A orc" and R: "resolution_exact A (po_resolution_distance orc)"
    and ch: "po_resolution_action orc ! p = chosen_action (resolution_choices orc p)"
    "po_resolution_next orc ! p = resolution_chosen_next orc p"
    "po_resolution_support_count orc ! p = length (resolution_choices orc p)"
    using exact p by (simp_all add: oracle_exact_def)
  have A: "wf_automaton A" "oracle_size_ok A" "po_automaton orc = A" "po_pair_count orc = pair_total A"
    using T by (simp_all add: oracle_tables_def)
  have ne: "(0 :: nat) \<noteq> SG_INDEX_NONE" by (simp add: SIZE_MAX_def)
  consider "po_resolution_distance orc ! p = SG_INDEX_NONE" | "po_resolution_distance orc ! p = 0"
    | "po_resolution_distance orc ! p \<noteq> SG_INDEX_NONE" "po_resolution_distance orc ! p \<noteq> 0" by blast
  then show ?thesis
  proof cases
    case 1
    then have "resolution_choices orc p = []" by (simp add: resolution_choices_def)
    with 1 ch show ?thesis by (simp add: sg_resolution_record_valid_def chosen_action_def resolution_chosen_next_def)
  next
    case 2
    then have c: "resolution_choices orc p = []" by (simp add: resolution_choices_def)
    from ne have "pair_resolves A p []" using resolution_exactD(1)[OF R p] 2 by force
    then have "po_first orc ! p = po_second orc ! p" using pair_equal_iff[OF T p] by simp
    with 2 ch c ne show ?thesis
      by (simp add: sg_resolution_record_valid_def chosen_action_def resolution_chosen_next_def)
  next
    case 3
    obtain w where w: "length w = po_resolution_distance orc ! p" "pair_resolves A p w"
      using resolution_exactD(1)[OF R p 3(1)] by blast
    with 3(2) obtain b v where "w = b # v" by (cases w) auto
    then have "b < au_action_count A" "sg_resolution_supports orc p b"
      using w resolution_supports_word[OF T R p 3(1)] pair_resolves_Cons[OF A(1,2) p] by auto
    then have "filter (sg_resolution_supports orc p) [0..<au_action_count A] \<noteq> []"
      by (auto simp: filter_empty_conv)
    then obtain a F where F: "filter (sg_resolution_supports orc p) [0..<au_action_count A] = a # F"
      "a < au_action_count A" "sg_resolution_supports orc p a" by (rule choices_Cons)
    have c: "resolution_choices orc p = a # F" using 3 F(1) A(3) by (simp add: resolution_choices_def)
    have nx: "po_next orc ! (p * au_action_count A + a) < pair_total A"
      using T p F(2) pair_next_less[OF A(1,2) p F(2)] by (simp add: oracle_tables_def)
    then have nn: "po_next orc ! (p * au_action_count A + a) \<noteq> SG_INDEX_NONE"
      using pair_total_small[OF A(2)] by simp
    show ?thesis
    proof (cases "sg_resolution_immediate orc p a")
      case True
      with 3 ch c F A(3,4) show ?thesis
        by (simp add: sg_resolution_record_valid_def Let_def foldl_count supports_filter chosen_action_def
            resolution_chosen_next_def sg_resolution_immediate_def[of orc p a])
    next
      case False
      with F(3) have "sg_resolution_via_next orc p a" by (simp add: sg_resolution_supports_def)
      with False 3 ch c F A(3,4) nx nn show ?thesis
        by (simp add: sg_resolution_record_valid_def Let_def foldl_count supports_filter chosen_action_def
            resolution_chosen_next_def sg_resolution_via_next_def[of orc p a])
    qed
  qed
qed

lemma oracle_exact_valid: "oracle_exact A orc \<Longrightarrow> oracle_valid A orc"
  using exact_merge_record_valid exact_resolution_record_valid
  by (simp add: oracle_valid_def) (simp add: oracle_exact_def)

section \<open>Witness words\<close>

lemma valid_merge_step:
  assumes V: "oracle_valid A orc" and p: "p < pair_total A"
    "po_merge_distance orc ! p \<noteq> SG_INDEX_NONE" "po_merge_distance orc ! p \<noteq> 0"
  shows "po_merge_action orc ! p < au_action_count A"
    "po_merge_next orc ! p = pair_next A p (po_merge_action orc ! p)"
    "po_merge_distance orc ! (po_merge_next orc ! p) \<noteq> SG_INDEX_NONE"
    "po_merge_distance orc ! (po_merge_next orc ! p) + 1 = po_merge_distance orc ! p"
    "po_merge_next orc ! p < pair_total A" "po_merge_support_count orc ! p \<noteq> 0"
proof -
  have T: "oracle_tables A orc" and "sg_merge_record_valid orc p" using V p(1) by (simp_all add: oracle_valid_def)
  then show a: "po_merge_action orc ! p < au_action_count A"
    and "po_merge_distance orc ! (po_merge_next orc ! p) \<noteq> SG_INDEX_NONE"
    "po_merge_distance orc ! (po_merge_next orc ! p) + 1 = po_merge_distance orc ! p"
    "po_merge_next orc ! p < pair_total A" "po_merge_support_count orc ! p \<noteq> 0"
    using p(2,3) by (auto simp: sg_merge_record_valid_def Let_def oracle_tables_def)
  show "po_merge_next orc ! p = pair_next A p (po_merge_action orc ! p)"
    using \<open>sg_merge_record_valid orc p\<close> T p a by (auto simp: sg_merge_record_valid_def Let_def oracle_tables_def)
qed

lemma valid_merge_zero:
  assumes V: "oracle_valid A orc" and p: "p < pair_total A" "po_merge_distance orc ! p = 0"
  shows "pair_equal A p" "po_merge_action orc ! p = SG_INDEX_NONE" "po_merge_next orc ! p = SG_INDEX_NONE"
    "po_merge_support_count orc ! p = 0"
proof -
  have T: "oracle_tables A orc" and v: "sg_merge_record_valid orc p" using V p(1) by (simp_all add: oracle_valid_def)
  have ne: "(0 :: nat) \<noteq> SG_INDEX_NONE" by (simp add: SIZE_MAX_def)
  show "pair_equal A p" "po_merge_action orc ! p = SG_INDEX_NONE" "po_merge_next orc ! p = SG_INDEX_NONE"
    "po_merge_support_count orc ! p = 0"
    using v p(2) ne pair_equal_iff[OF T p(1)] by (simp_all add: sg_merge_record_valid_def)
qed

lemma valid_resolution_step:
  assumes V: "oracle_valid A orc" and p: "p < pair_total A"
    "po_resolution_distance orc ! p \<noteq> SG_INDEX_NONE" "po_resolution_distance orc ! p \<noteq> 0"
  defines "a \<equiv> po_resolution_action orc ! p" and "nx \<equiv> po_resolution_next orc ! p"
  shows "a < au_action_count A" "po_resolution_support_count orc ! p \<noteq> 0"
    "nx = SG_INDEX_NONE \<Longrightarrow> po_resolution_distance orc ! p = 1 \<and> pair_differ A p a"
    "nx \<noteq> SG_INDEX_NONE \<Longrightarrow> nx = pair_next A p a \<and> \<not> pair_differ A p a \<and> nx < pair_total A \<and>
      po_resolution_distance orc ! nx \<noteq> SG_INDEX_NONE \<and>
      po_resolution_distance orc ! nx + 1 = po_resolution_distance orc ! p"
proof -
  have T: "oracle_tables A orc" and v: "sg_resolution_record_valid orc p" using V p(1) by (simp_all add: oracle_valid_def)
  have A: "po_automaton orc = A" "po_pair_count orc = pair_total A" using T by (simp_all add: oracle_tables_def)
  show a: "a < au_action_count A"
    using v p(2,3) A by (auto simp: sg_resolution_record_valid_def Let_def a_def split: if_splits)
  have e: "po_next orc ! (p * au_action_count A + a) = pair_next A p a"
    "po_outputs_differ orc ! (p * au_action_count A + a) = pair_differ A p a"
    using T p(1) a by (simp_all add: oracle_tables_def)
  show "po_resolution_support_count orc ! p \<noteq> 0"
    using v p(2,3) A by (auto simp: sg_resolution_record_valid_def Let_def split: if_splits)
  show "nx = SG_INDEX_NONE \<Longrightarrow> po_resolution_distance orc ! p = 1 \<and> pair_differ A p a"
    using v p(2,3) A e a by (auto simp: sg_resolution_record_valid_def Let_def nx_def a_def split: if_splits)
  show "nx \<noteq> SG_INDEX_NONE \<Longrightarrow> nx = pair_next A p a \<and> \<not> pair_differ A p a \<and> nx < pair_total A \<and>
      po_resolution_distance orc ! nx \<noteq> SG_INDEX_NONE \<and>
      po_resolution_distance orc ! nx + 1 = po_resolution_distance orc ! p"
    using v p(2,3) A e a by (auto simp: sg_resolution_record_valid_def Let_def nx_def a_def split: if_splits)
qed

lemma valid_resolution_zero:
  assumes V: "oracle_valid A orc" and p: "p < pair_total A" "po_resolution_distance orc ! p = 0"
  shows "pair_equal A p"
proof -
  have T: "oracle_tables A orc" and v: "sg_resolution_record_valid orc p" using V p(1) by (simp_all add: oracle_valid_def)
  have ne: "(0 :: nat) \<noteq> SG_INDEX_NONE" by (simp add: SIZE_MAX_def)
  show "pair_equal A p" using v p(2) ne pair_equal_iff[OF T p(1)] by (simp add: sg_resolution_record_valid_def)
qed

lemma merge_loop_word:
  assumes V: "oracle_valid A orc"
  shows "p < pair_total A \<Longrightarrow> po_merge_distance orc ! p = d \<Longrightarrow> d \<noteq> SG_INDEX_NONE \<Longrightarrow>
    \<exists>w. sg_witness_loop orc False p word = Some (Inr (word @ w)) \<and> pair_merges A p w \<and> length w = d"
proof (induction d arbitrary: p word)
  case 0
  then show ?case
    using valid_merge_zero(1)[OF V] by (simp add: sg_witness_loop.simps[of orc] sg_witness_distances_def)
next
  case (Suc d)
  have A: "wf_automaton A" "oracle_size_ok A" "po_pair_count orc = pair_total A"
    using V by (auto simp: oracle_valid_def oracle_tables_def)
  let ?a = "po_merge_action orc ! p" and ?q = "po_merge_next orc ! p"
  have dp: "po_merge_distance orc ! p \<noteq> SG_INDEX_NONE" "po_merge_distance orc ! p \<noteq> 0"
    using Suc.prems by simp_all
  note s = valid_merge_step[OF V Suc.prems(1) dp]
  have "?a \<noteq> SG_INDEX_NONE" using s(1) wf_automatonD(7)[OF A(1)] by simp
  then have loop: "sg_witness_loop orc False p word = sg_witness_loop orc False ?q (word @ [?a])"
    using dp(2) s(5) A(3)
    by (subst sg_witness_loop.simps)
      (simp add: sg_witness_distances_def sg_witness_actions_def sg_witness_next_pairs_def)
  have "po_merge_distance orc ! ?q = d" using s(4) Suc.prems(2) by simp
  with Suc.IH[OF s(5), of "word @ [?a]"] s(3) obtain w where
    w: "sg_witness_loop orc False ?q (word @ [?a]) = Some (Inr (word @ [?a] @ w))"
    "pair_merges A ?q w" "length w = d" by auto
  with loop s(1,2) pair_merges_Cons[OF A(1,2) Suc.prems(1), of ?a w] show ?case
    by (intro exI[of _ "?a # w"]) simp
qed

lemma resolution_loop_word:
  assumes V: "oracle_valid A orc"
  shows "p < pair_total A \<Longrightarrow> po_resolution_distance orc ! p = d \<Longrightarrow> d \<noteq> SG_INDEX_NONE \<Longrightarrow>
    \<exists>w. sg_witness_loop orc True p word = Some (Inr (word @ w)) \<and> pair_resolves A p w \<and> length w = d"
proof (induction d arbitrary: p word)
  case 0
  then show ?case
    using valid_resolution_zero[OF V] by (simp add: sg_witness_loop.simps[of orc] sg_witness_distances_def)
next
  case (Suc d)
  have A: "wf_automaton A" "oracle_size_ok A" "po_pair_count orc = pair_total A"
    using V by (auto simp: oracle_valid_def oracle_tables_def)
  let ?a = "po_resolution_action orc ! p" and ?q = "po_resolution_next orc ! p"
  have dp: "po_resolution_distance orc ! p \<noteq> SG_INDEX_NONE" "po_resolution_distance orc ! p \<noteq> 0"
    using Suc.prems by simp_all
  note s = valid_resolution_step[OF V Suc.prems(1) dp]
  have an: "?a \<noteq> SG_INDEX_NONE" using s(1) wf_automatonD(7)[OF A(1)] by simp
  note cons = pair_resolves_Cons[OF A(1,2) Suc.prems(1), of ?a]
  show ?case
  proof (cases "?q = SG_INDEX_NONE")
    case True
    then have "sg_witness_loop orc True p word = Some (Inr (word @ [?a]))"
      using dp(2) an by (subst sg_witness_loop.simps)
        (simp add: sg_witness_distances_def sg_witness_actions_def sg_witness_next_pairs_def)
    with s(1) s(3)[OF True] cons[of "[]"] Suc.prems(2) show ?thesis by (intro exI[of _ "[?a]"]) simp
  next
    case False
    note q = s(4)[OF False]
    have loop: "sg_witness_loop orc True p word = sg_witness_loop orc True ?q (word @ [?a])"
      using dp(2) an False q A(3)
      by (subst sg_witness_loop.simps)
        (simp add: sg_witness_distances_def sg_witness_actions_def sg_witness_next_pairs_def)
    have "po_resolution_distance orc ! ?q + 1 = po_resolution_distance orc ! p" using q by (elim conjE)
    with Suc.prems(2) have "po_resolution_distance orc ! ?q = d" by simp
    moreover have "?q < pair_total A" "d \<noteq> SG_INDEX_NONE" using q calculation by auto
    ultimately obtain w where
      w: "sg_witness_loop orc True ?q (word @ [?a]) = Some (Inr (word @ [?a] @ w))"
      "pair_resolves A ?q w" "length w = d" using Suc.IH[of ?q "word @ [?a]"] by auto
    with loop s(1) q cons[of w] pair_resolves_word_ok[OF w(2)] show ?thesis
      by (intro exI[of _ "?a # w"]) simp
  qed
qed

lemma merge_word_valid:
  assumes V: "oracle_valid A orc" and st: "s < au_state_count A" "t < au_state_count A"
  defines "p \<equiv> sg_pair_index (au_state_count A) s t"
  shows "if po_merge_distance orc ! p = SG_INDEX_NONE
    then sg_pair_oracle_merge_word (Ref orc) s t = Some (Inl SG_ERR_NOT_FOUND)
    else \<exists>w. sg_pair_oracle_merge_word (Ref orc) s t = Some (Inr w) \<and> merging_word A s t w \<and>
           length w = po_merge_distance orc ! p"
proof -
  have A: "wf_automaton A" "oracle_size_ok A" "po_automaton orc = A"
    using V by (auto simp: oracle_valid_def oracle_tables_def)
  have p: "p < pair_total A" unfolding p_def by (rule pair_of_index(1)[OF A(1,2) st])
  have m: "pair_merges A p w = merging_word A s t w" for w
    unfolding p_def by (rule pair_merges_index[OF A(1,2) st])
  show ?thesis
    using merge_loop_word[OF V p refl, of "[]"] st
    by (auto simp: sg_pair_oracle_merge_word_def sg_witness_word_def Let_def A(3) p_def[symmetric] m
        sg_witness_distances_def)
qed

lemma resolution_word_valid:
  assumes V: "oracle_valid A orc" and st: "s < au_state_count A" "t < au_state_count A"
  defines "p \<equiv> sg_pair_index (au_state_count A) s t"
  shows "if po_resolution_distance orc ! p = SG_INDEX_NONE
    then sg_pair_oracle_resolution_word (Ref orc) s t = Some (Inl SG_ERR_NOT_FOUND)
    else \<exists>w. sg_pair_oracle_resolution_word (Ref orc) s t = Some (Inr w) \<and> resolving_word A s t w \<and>
           length w = po_resolution_distance orc ! p"
proof -
  have A: "wf_automaton A" "oracle_size_ok A" "po_automaton orc = A"
    using V by (auto simp: oracle_valid_def oracle_tables_def)
  have p: "p < pair_total A" unfolding p_def by (rule pair_of_index(1)[OF A(1,2) st])
  have m: "pair_resolves A p w = resolving_word A s t w" for w
    unfolding p_def by (rule pair_resolves_index[OF A(1,2) st])
  show ?thesis
    using resolution_loop_word[OF V p refl, of "[]"] st
    by (auto simp: sg_pair_oracle_resolution_word_def sg_witness_word_def Let_def A(3) p_def[symmetric] m
        sg_witness_distances_def)
qed

text \<open>C14. On a built oracle the merge-word loop returns, with a shortest merging word of the two
  states when one exists and with \<open>NOT_FOUND\<close> exactly when none does; it never fails otherwise.\<close>

theorem merge_word_shortest:
  assumes wf: "wf_automaton A" and build: "sg_pair_oracle_build (Ref A) = Inr orc"
    and st: "s < au_state_count A" "t < au_state_count A"
  shows "(\<exists>w. sg_pair_oracle_merge_word (Ref orc) s t = Some (Inr w) \<and> merging_word A s t w \<and>
       (\<forall>v. merging_word A s t v \<longrightarrow> length w \<le> length v)) \<or>
    sg_pair_oracle_merge_word (Ref orc) s t = Some (Inl SG_ERR_NOT_FOUND) \<and> \<not> (\<exists>w. merging_word A s t w)"
proof -
  have exact: "oracle_exact A orc" by (rule build_exact[OF wf build])
  then have size: "oracle_size_ok A" by (auto simp: oracle_exact_def oracle_tables_def)
  note pair = pair_of_index[OF wf size st]
  have m: "pair_merges A (sg_pair_index (au_state_count A) s t) = merging_word A s t"
    using pair_merges_index[OF wf size st] by blast
  note v = exact_record_values(1,2)[OF exact pair(1), unfolded m]
  show ?thesis
    using merge_word_valid[OF oracle_exact_valid[OF exact] st] v
    by (auto simp: shortest_length_def split: if_splits)
qed

theorem merge_word_shortest_witness:
  "\<exists>orc w. sg_pair_oracle_build (Ref demo_automaton) = Inr orc \<and>
    sg_pair_oracle_merge_word (Ref orc) 1 2 = Some (Inr w) \<and> merging_word demo_automaton 1 2 w"
proof -
  obtain orc where orc: "sg_pair_oracle_build (Ref demo_automaton) = Inr orc"
    using oracle_build_ok[OF demo_wf demo_size] by blast
  have "merging_word demo_automaton 1 2 [0, 0, 1]" by code_simp
  moreover have "1 < au_state_count demo_automaton" "2 < au_state_count demo_automaton"
    by (simp_all add: demo_automaton_def)
  ultimately show ?thesis using merge_word_shortest[OF demo_wf orc, of 1 2] orc by blast
qed

text \<open>C15. On a built oracle the resolution-word loop returns, with a shortest word that merges the two
  states or tells them apart by their outputs when one exists, and with \<open>NOT_FOUND\<close> exactly when
  none does.\<close>

theorem resolution_word_shortest:
  assumes wf: "wf_automaton A" and build: "sg_pair_oracle_build (Ref A) = Inr orc"
    and st: "s < au_state_count A" "t < au_state_count A"
  shows "(\<exists>w. sg_pair_oracle_resolution_word (Ref orc) s t = Some (Inr w) \<and> resolving_word A s t w \<and>
       (\<forall>v. resolving_word A s t v \<longrightarrow> length w \<le> length v)) \<or>
    sg_pair_oracle_resolution_word (Ref orc) s t = Some (Inl SG_ERR_NOT_FOUND) \<and>
       \<not> (\<exists>w. resolving_word A s t w)"
proof -
  have exact: "oracle_exact A orc" by (rule build_exact[OF wf build])
  then have size: "oracle_size_ok A" by (auto simp: oracle_exact_def oracle_tables_def)
  note pair = pair_of_index[OF wf size st]
  have m: "pair_resolves A (sg_pair_index (au_state_count A) s t) = resolving_word A s t"
    using pair_resolves_index[OF wf size st] by blast
  note v = exact_record_values(3,4)[OF exact pair(1), unfolded m]
  show ?thesis
    using resolution_word_valid[OF oracle_exact_valid[OF exact] st] v
    by (auto simp: shortest_length_def split: if_splits)
qed

theorem resolution_word_shortest_witness:
  "\<exists>orc w. sg_pair_oracle_build (Ref demo_automaton) = Inr orc \<and>
    sg_pair_oracle_resolution_word (Ref orc) 1 2 = Some (Inr w) \<and> resolving_word demo_automaton 1 2 w"
proof -
  obtain orc where orc: "sg_pair_oracle_build (Ref demo_automaton) = Inr orc"
    using oracle_build_ok[OF demo_wf demo_size] by blast
  have "resolving_word demo_automaton 1 2 [0]" by code_simp
  moreover have "1 < au_state_count demo_automaton" "2 < au_state_count demo_automaton"
    by (simp_all add: demo_automaton_def)
  ultimately show ?thesis using resolution_word_shortest[OF demo_wf orc, of 1 2] orc by blast
qed

section \<open>Restoring\<close>

lemma oracle_baseD:
  assumes "oracle_base a = oracle_base b"
  shows "po_automaton a = po_automaton b" "po_pair_count a = po_pair_count b" "po_first a = po_first b"
    "po_second a = po_second b" "po_next a = po_next b" "po_outputs_differ a = po_outputs_differ b"
proof -
  have e: "f (oracle_base a) = f (oracle_base b)" for f :: "sg_pair_oracle \<Rightarrow> 'z" using assms by simp
  show "po_automaton a = po_automaton b" using e[of po_automaton] by (simp add: oracle_base_def)
  show "po_pair_count a = po_pair_count b" using arg_cong[OF assms, of po_pair_count] by (simp add: oracle_base_def)
  show "po_first a = po_first b" using arg_cong[OF assms, of po_first] by (simp add: oracle_base_def)
  show "po_second a = po_second b" using arg_cong[OF assms, of po_second] by (simp add: oracle_base_def)
  show "po_next a = po_next b" using arg_cong[OF assms, of po_next] by (simp add: oracle_base_def)
  show "po_outputs_differ a = po_outputs_differ b"
    using arg_cong[OF assms, of po_outputs_differ] by (simp add: oracle_base_def)
qed

lemma oracle_tables_base: "oracle_base a = oracle_base b \<Longrightarrow> oracle_tables A a \<longleftrightarrow> oracle_tables A b"
  using oracle_baseD[of a b] by (simp add: oracle_tables_def)

lemma restore_record_frame:
  assumes "sg_restore_record r (cr, seen) = Inr (cr', seen')"
  shows "oracle_base cr' = oracle_base cr" "oracle_lengths c cr' = oracle_lengths c cr"
  using assms by (auto simp: sg_restore_record_def Let_def oracle_base_def oracle_lengths_def split: if_splits)

lemma restore_loop_frame:
  "fold_res sg_restore_record rs (cr, seen) = Inr (cr', seen') \<Longrightarrow>
   oracle_base cr' = oracle_base cr \<and> oracle_lengths c cr' = oracle_lengths c cr"
proof (induction rs arbitrary: cr seen)
  case (Cons r rs)
  then obtain cr1 seen1 where 1: "sg_restore_record r (cr, seen) = Inr (cr1, seen1)"
    "fold_res sg_restore_record rs (cr1, seen1) = Inr (cr', seen')" by auto
  from Cons.IH[OF 1(2)] restore_record_frame[OF 1(1)] show ?case by simp
qed simp

lemma restore_valid:
  assumes wf: "wf_automaton A" and res: "sg_pair_oracle_restore (Ref A) (Ref rs) = Inr orc"
  shows "oracle_valid A orc"
proof -
  from res obtain o0 seen where r: "sg_oracle_allocate A = Inr o0"
    "fold_res sg_restore_record rs (sg_oracle_fill_pairs o0, replicate (po_pair_count o0) False) = Inr (orc, seen)"
    "\<forall>p < po_pair_count orc. sg_merge_record_valid orc p \<and> sg_resolution_record_valid orc p"
    by (auto simp: sg_pair_oracle_restore_def list_all_iff split: if_splits)
  note size = sg_oracle_allocate_Inr[OF wf r(1)]
  let ?o1 = "sg_oracle_fill_pairs o0"
  obtain o0' where o0': "sg_oracle_allocate A = Inr o0'" "po_automaton o0' = A" "po_pair_count o0' = pair_total A"
    "length (po_first o0') = pair_total A" "length (po_second o0') = pair_total A"
    "length (po_next o0') = pair_total A * au_action_count A"
    "length (po_outputs_differ o0') = pair_total A * au_action_count A"
    "oracle_lengths (pair_total A) o0'"
    using sg_oracle_allocate_ok[OF wf size] by (auto simp: oracle_lengths_def)
  then have o0: "o0' = o0" using r(1) by simp
  have T: "oracle_tables A ?o1"
    using sg_oracle_fill_pairs_tables[OF wf size] o0' o0 by simp
  have L: "oracle_lengths (pair_total A) ?o1"
    using o0' o0 by (simp add: sg_oracle_fill_pairs_eq oracle_lengths_def)
  have F: "oracle_base orc = oracle_base ?o1" "oracle_lengths (pair_total A) orc"
    using restore_loop_frame[OF r(2), of "pair_total A"] L by auto
  then have T': "oracle_tables A orc" using oracle_tables_base T by blast
  with r(3) F(2) show ?thesis by (simp add: oracle_valid_def oracle_tables_def)
qed

text \<open>C11. Whatever records are restored, a restore that succeeds gives a table whose witness words end
  and keep their promise: where the restored record says mergeable (resolvable), the word loop
  returns a merging (resolving) word of exactly the recorded length; elsewhere it reports
  \<open>NOT_FOUND\<close>. (The recorded length need not be the shortest.)\<close>

theorem restored_witness_words:
  assumes wf: "wf_automaton A" and res: "sg_pair_oracle_restore (Ref A) (Ref rs) = Inr orc"
    and st: "s < au_state_count A" "t < au_state_count A"
  defines "p \<equiv> sg_pair_index (au_state_count A) s t"
  shows "(if po_merge_distance orc ! p = SG_INDEX_NONE
      then sg_pair_oracle_merge_word (Ref orc) s t = Some (Inl SG_ERR_NOT_FOUND)
      else \<exists>w. sg_pair_oracle_merge_word (Ref orc) s t = Some (Inr w) \<and> merging_word A s t w \<and>
             length w = po_merge_distance orc ! p) \<and>
    (if po_resolution_distance orc ! p = SG_INDEX_NONE
      then sg_pair_oracle_resolution_word (Ref orc) s t = Some (Inl SG_ERR_NOT_FOUND)
      else \<exists>w. sg_pair_oracle_resolution_word (Ref orc) s t = Some (Inr w) \<and> resolving_word A s t w \<and>
             length w = po_resolution_distance orc ! p)"
  using merge_word_valid[OF restore_valid[OF wf res] st] resolution_word_valid[OF restore_valid[OF wf res] st]
  by (simp add: p_def)

text \<open>The records of an oracle, as \<open>sg_pair_oracle_record\<close> reads them.\<close>

definition oracle_record :: "sg_pair_oracle \<Rightarrow> nat \<Rightarrow> sg_pair_record" where
  "oracle_record orc p = (case sg_pair_oracle_record (Ref orc) p of Inr r \<Rightarrow> r)"

definition restored :: "sg_pair_oracle \<Rightarrow> nat set \<Rightarrow> sg_pair_oracle \<Rightarrow> bool list \<Rightarrow> bool" where
  "restored orc S cr seen \<longleftrightarrow>
     oracle_base cr = oracle_base orc \<and> oracle_lengths (po_pair_count orc) cr \<and>
     length seen = po_pair_count orc \<and>
     (\<forall>p < po_pair_count orc. (seen ! p \<longleftrightarrow> p \<in> S) \<and>
        (p \<in> S \<longrightarrow>
           po_merge_distance cr ! p = po_merge_distance orc ! p \<and>
           po_merge_action cr ! p = po_merge_action orc ! p \<and>
           po_merge_next cr ! p = po_merge_next orc ! p \<and>
           po_merge_support_count cr ! p = po_merge_support_count orc ! p \<and>
           po_resolution_distance cr ! p = po_resolution_distance orc ! p \<and>
           po_resolution_action cr ! p = po_resolution_action orc ! p \<and>
           po_resolution_next cr ! p = po_resolution_next orc ! p \<and>
           po_resolution_support_count cr ! p = po_resolution_support_count orc ! p))"

lemma restore_step:
  assumes V: "oracle_valid A orc" and R: "restored orc S cr seen"
    and p: "p < po_pair_count orc" "p \<notin> S"
  shows "\<exists>cr' seen'. sg_restore_record (oracle_record orc p) (cr, seen) = Inr (cr', seen') \<and>
    restored orc (insert p S) cr' seen'"
proof -
  have P: "po_pair_count orc = pair_total A" using V by (simp add: oracle_valid_def oracle_tables_def)
  have v: "sg_merge_record_valid orc p" "sg_resolution_record_valid orc p"
    using V p(1) P by (auto simp: oracle_valid_def)
  have none: "po_merge_distance orc ! p = SG_INDEX_NONE \<Longrightarrow>
      po_merge_action orc ! p = SG_INDEX_NONE \<and> po_merge_next orc ! p = SG_INDEX_NONE"
    "po_resolution_distance orc ! p = SG_INDEX_NONE \<Longrightarrow>
      po_resolution_action orc ! p = SG_INDEX_NONE \<and> po_resolution_next orc ! p = SG_INDEX_NONE"
    using v by (simp_all add: sg_merge_record_valid_def sg_resolution_record_valid_def)
  have base: "oracle_base cr = oracle_base orc" and len: "oracle_lengths (po_pair_count orc) cr"
    and seen: "length seen = po_pair_count orc" "\<not> seen ! p"
    using R p by (auto simp: restored_def)
  have pc: "po_pair_count cr = po_pair_count orc" by (rule oracle_baseD(2)[OF base])
  obtain cr' seen' where step: "sg_restore_record (oracle_record orc p) (cr, seen) = Inr (cr', seen')"
    "seen' = seen[p := True]"
    and cr': "po_merge_distance cr' = (po_merge_distance cr)[p := po_merge_distance orc ! p]"
    "po_merge_action cr' = (po_merge_action cr)[p := po_merge_action orc ! p]"
    "po_merge_next cr' = (po_merge_next cr)[p := po_merge_next orc ! p]"
    "po_merge_support_count cr' = (po_merge_support_count cr)[p := po_merge_support_count orc ! p]"
    "po_resolution_distance cr' = (po_resolution_distance cr)[p := po_resolution_distance orc ! p]"
    "po_resolution_action cr' = (po_resolution_action cr)[p := po_resolution_action orc ! p]"
    "po_resolution_next cr' = (po_resolution_next cr)[p := po_resolution_next orc ! p]"
    "po_resolution_support_count cr' = (po_resolution_support_count cr)[p := po_resolution_support_count orc ! p]"
    using none p(1) seen(2) pc
    by (simp add: sg_restore_record_def oracle_record_def sg_pair_oracle_record_def Let_def)
  note frame = restore_record_frame[OF step(1)]
  have "restored orc (insert p S) cr' seen'"
    unfolding restored_def
  proof (intro conjI allI impI)
    show "oracle_base cr' = oracle_base orc" using frame(1) base by simp
    show "oracle_lengths (po_pair_count orc) cr'" using frame(2) len by simp
    show "length seen' = po_pair_count orc" using step(2) seen by simp
  next
    fix q assume q: "q < po_pair_count orc"
    show "seen' ! q \<longleftrightarrow> q \<in> insert p S"
      using R q step(2) seen by (cases "q = p") (auto simp: restored_def)
    assume qi: "q \<in> insert p S"
    have all: "xs' ! q = ys ! q" if "xs' = xs[p := ys ! p]" "length xs = po_pair_count orc" "q \<in> S \<Longrightarrow> xs ! q = ys ! q"
      for xs xs' ys :: "nat list"
      using that q qi by (cases "q = p") auto
    show "po_merge_distance cr' ! q = po_merge_distance orc ! q"
      by (rule all[OF cr'(1)]) (use len R q in \<open>auto simp: oracle_lengths_def restored_def\<close>)
    show "po_merge_action cr' ! q = po_merge_action orc ! q"
      by (rule all[OF cr'(2)]) (use len R q in \<open>auto simp: oracle_lengths_def restored_def\<close>)
    show "po_merge_next cr' ! q = po_merge_next orc ! q"
      by (rule all[OF cr'(3)]) (use len R q in \<open>auto simp: oracle_lengths_def restored_def\<close>)
    show "po_merge_support_count cr' ! q = po_merge_support_count orc ! q"
      by (rule all[OF cr'(4)]) (use len R q in \<open>auto simp: oracle_lengths_def restored_def\<close>)
    show "po_resolution_distance cr' ! q = po_resolution_distance orc ! q"
      by (rule all[OF cr'(5)]) (use len R q in \<open>auto simp: oracle_lengths_def restored_def\<close>)
    show "po_resolution_action cr' ! q = po_resolution_action orc ! q"
      by (rule all[OF cr'(6)]) (use len R q in \<open>auto simp: oracle_lengths_def restored_def\<close>)
    show "po_resolution_next cr' ! q = po_resolution_next orc ! q"
      by (rule all[OF cr'(7)]) (use len R q in \<open>auto simp: oracle_lengths_def restored_def\<close>)
    show "po_resolution_support_count cr' ! q = po_resolution_support_count orc ! q"
      by (rule all[OF cr'(8)]) (use len R q in \<open>auto simp: oracle_lengths_def restored_def\<close>)
  qed
  with step(1) show ?thesis by blast
qed

lemma restore_loop:
  assumes V: "oracle_valid A orc"
  shows "restored orc S cr seen \<Longrightarrow> set ps \<subseteq> {..<po_pair_count orc} \<Longrightarrow> distinct ps \<Longrightarrow> set ps \<inter> S = {} \<Longrightarrow>
    \<exists>cr' seen'. fold_res sg_restore_record (map (oracle_record orc) ps) (cr, seen) = Inr (cr', seen') \<and>
      restored orc (S \<union> set ps) cr' seen'"
proof (induction ps arbitrary: S cr seen)
  case (Cons p ps)
  obtain cr1 seen1 where 1: "sg_restore_record (oracle_record orc p) (cr, seen) = Inr (cr1, seen1)"
    "restored orc (insert p S) cr1 seen1"
    using restore_step[OF V Cons.prems(1), of p] Cons.prems(2,4) by auto
  from Cons.IH[OF 1(2)] Cons.prems(2-4) 1(1) show ?case by auto
qed simp

lemma restored_all:
  assumes "oracle_lengths (po_pair_count orc) orc" "restored orc {..<po_pair_count orc} cr seen"
  shows "cr = orc"
proof -
  note b = oracle_baseD[of cr orc]
  have base: "oracle_base cr = oracle_base orc" and len: "oracle_lengths (po_pair_count orc) cr"
    using assms(2) by (simp_all add: restored_def)
  have eq: "xs = ys" if "length xs = po_pair_count orc" "length ys = po_pair_count orc"
    "\<And>p. p < po_pair_count orc \<Longrightarrow> xs ! p = ys ! p" for xs ys :: "nat list"
    using that by (intro nth_equalityI) auto
  have "po_merge_distance cr = po_merge_distance orc" "po_merge_action cr = po_merge_action orc"
    "po_merge_next cr = po_merge_next orc" "po_merge_support_count cr = po_merge_support_count orc"
    "po_resolution_distance cr = po_resolution_distance orc" "po_resolution_action cr = po_resolution_action orc"
    "po_resolution_next cr = po_resolution_next orc"
    "po_resolution_support_count cr = po_resolution_support_count orc"
    by (rule eq; use assms len in \<open>simp add: oracle_lengths_def restored_def\<close>)+
  with b[OF base] show ?thesis by simp
qed

lemma restore_records:
  assumes wf: "wf_automaton A" and build: "sg_pair_oracle_build (Ref A) = Inr orc"
    and ps: "distinct ps" "set ps = {..<po_pair_count orc}"
  shows "sg_pair_oracle_restore (Ref A) (Ref (map (oracle_record orc) ps)) = Inr orc"
proof -
  have exact: "oracle_exact A orc" by (rule build_exact[OF wf build])
  then have size: "oracle_size_ok A" and pc: "po_pair_count orc = pair_total A"
    and L: "oracle_lengths (po_pair_count orc) orc"
    by (auto simp: oracle_exact_def oracle_tables_def)
  note V = oracle_exact_valid[OF exact]
  obtain o0 where o0: "sg_oracle_allocate A = Inr o0" "oracle_base orc = oracle_base (sg_oracle_fill_pairs o0)"
    using oracle_build_ok[OF wf size] build by auto
  obtain o0' where o0': "sg_oracle_allocate A = Inr o0'" "po_automaton o0' = A" "po_pair_count o0' = pair_total A"
    "oracle_lengths (pair_total A) o0'"
    using sg_oracle_allocate_ok[OF wf size] by (auto simp: oracle_lengths_def)
  then have eq: "o0' = o0" using o0(1) by simp
  have "oracle_lengths (pair_total A) (sg_oracle_fill_pairs o0)"
    using o0' eq by (simp add: sg_oracle_fill_pairs_eq oracle_lengths_def)
  then have "restored orc {} (sg_oracle_fill_pairs o0) (replicate (po_pair_count o0) False)"
    using o0(2) o0'(3) eq pc by (simp add: restored_def)
  from restore_loop[OF V this, of ps] ps obtain cr seen where
    loop: "fold_res sg_restore_record (map (oracle_record orc) ps)
      (sg_oracle_fill_pairs o0, replicate (po_pair_count o0) False) = Inr (cr, seen)"
    and R: "restored orc {..<po_pair_count orc} cr seen" by auto
  have cr: "cr = orc" by (rule restored_all[OF L R])
  have "length ps = po_pair_count o0"
    using distinct_card[OF ps(1)] ps(2) pc o0'(3) eq by simp
  moreover have "list_all (\<lambda>pair. seen ! pair \<and> sg_merge_record_valid orc pair \<and>
      sg_resolution_record_valid orc pair) [0..<po_pair_count orc]"
    using R V pc by (auto simp: list_all_iff restored_def oracle_valid_def)
  ultimately show ?thesis
    by (simp add: sg_pair_oracle_restore_def o0(1) loop cr)
qed

text \<open>C21. Restoring is the inverse of recording: the records of a built oracle, in any order, restore to
  the oracle they were read from.\<close>

theorem restore_roundtrip:
  assumes wf: "wf_automaton A" and build: "sg_pair_oracle_build (Ref A) = Inr orc"
    and ps: "distinct ps" "set ps = {..<po_pair_count orc}"
  shows "sg_pair_oracle_restore (Ref A) (Ref (map (oracle_record orc) ps)) = Inr orc"
  by (rule restore_records[OF wf build ps])

theorem restore_roundtrip_witness:
  "\<exists>orc. sg_pair_oracle_build (Ref demo_automaton) = Inr orc \<and>
    sg_pair_oracle_restore (Ref demo_automaton) (Ref (map (oracle_record orc) (rev [0..<po_pair_count orc]))) = Inr orc"
proof -
  obtain orc where orc: "sg_pair_oracle_build (Ref demo_automaton) = Inr orc"
    using oracle_build_ok[OF demo_wf demo_size] by blast
  have "distinct (rev [0..<po_pair_count orc])" "set (rev [0..<po_pair_count orc]) = {..<po_pair_count orc}"
    by auto
  from restore_roundtrip[OF demo_wf orc this] orc show ?thesis by blast
qed

theorem restored_witness_words_witness:
  "\<exists>orc rs w. sg_pair_oracle_restore (Ref demo_automaton) (Ref rs) = Inr orc \<and>
    sg_pair_oracle_merge_word (Ref orc) 1 2 = Some (Inr w) \<and> merging_word demo_automaton 1 2 w"
proof -
  obtain orc where orc: "sg_pair_oracle_build (Ref demo_automaton) = Inr orc"
    using oracle_build_ok[OF demo_wf demo_size] by blast
  have exact: "oracle_exact demo_automaton orc" by (rule build_exact[OF demo_wf orc])
  let ?rs = "map (oracle_record orc) [0..<po_pair_count orc]"
  have rs: "sg_pair_oracle_restore (Ref demo_automaton) (Ref ?rs) = Inr orc"
    by (rule restore_records[OF demo_wf orc]) auto
  have st: "1 < au_state_count demo_automaton" "2 < au_state_count demo_automaton"
    by (simp_all add: demo_automaton_def)
  have "merging_word demo_automaton 1 2 [0, 0, 1]" by code_simp
  then have "pair_merges demo_automaton (sg_pair_index (au_state_count demo_automaton) 1 2) [0, 0, 1]"
    by (simp only: pair_merges_index[OF demo_wf demo_size st])
  then have "po_merge_distance orc ! sg_pair_index (au_state_count demo_automaton) 1 2 \<noteq> SG_INDEX_NONE"
    using exact_record_values(1)[OF exact pair_of_index(1)[OF demo_wf demo_size st]] by blast
  with restored_witness_words[OF demo_wf rs st] rs show ?thesis by auto
qed

section \<open>A restored table need not be exact\<close>

text \<open>One state, one action, and a record that calls the equal pair unmergeable.\<close>

definition point_automaton :: sg_automaton where
  "point_automaton =
     \<lparr>au_generation = 1, au_state_count = 1, au_action_count = 1, au_output_count = 1,
      au_state_keys = [''s''], au_action_keys = [''a''], au_output_keys = [''o''],
      au_transitions = [0], au_observations = [0]\<rparr>"

definition unreachable_record :: "nat \<Rightarrow> sg_pair_record" where
  "unreachable_record p = \<lparr>rec_pair = p, rec_mergeable = False, rec_merge_distance = SG_INDEX_NONE,
     rec_merge_action = SG_INDEX_NONE, rec_merge_next_pair = SG_INDEX_NONE, rec_merge_support_count = 0,
     rec_resolvable = False, rec_resolution_distance = SG_INDEX_NONE, rec_resolution_action = SG_INDEX_NONE,
     rec_resolution_next_pair = SG_INDEX_NONE, rec_resolution_support_count = 0\<rparr>"

text \<open>The consistency is less than exactness: on a one-state automaton the record that declares
  the only pair unmergeable and unresolvable is restored without an error, although the empty word
  merges the pair.\<close>

theorem restore_accepts_inexact:
  "\<exists>orc. sg_pair_oracle_restore (Ref point_automaton) (Ref [unreachable_record 0]) = Inr orc \<and>
    sg_pair_oracle_merge_word (Ref orc) 0 0 = Some (Inl SG_ERR_NOT_FOUND) \<and>
    merging_word point_automaton 0 0 []"
proof -
  have "case sg_pair_oracle_restore (Ref point_automaton) (Ref [unreachable_record 0]) of
      Inl e \<Rightarrow> False
    | Inr orc \<Rightarrow> po_automaton orc = point_automaton \<and> po_merge_distance orc = [SG_INDEX_NONE]" by code_simp
  then obtain orc where orc: "sg_pair_oracle_restore (Ref point_automaton) (Ref [unreachable_record 0]) = Inr orc"
    "po_automaton orc = point_automaton" "po_merge_distance orc = [SG_INDEX_NONE]"
    by (auto split: sum.splits)
  moreover have "sg_pair_index 1 0 0 = 0" by code_simp
  moreover have "merging_word point_automaton 0 0 []" by (simp add: merging_word_def)
  ultimately show ?thesis
    by (intro exI[of _ orc])
      (simp add: sg_pair_oracle_merge_word_def sg_witness_word_def sg_witness_distances_def
        point_automaton_def)
qed

end
