(* ===== verification/Sync_Record_Source.thy ===== *)
theory Sync_Record_Source
  imports Sync_Oracle_Records
begin

text \<open>
  Pair records from a source (src/planner.c): a source answers a list of pair numbers with one
  record each. \<open>sg_pair_words_load\<close> follows the witness actions of many pairs at once, asking the
  source once per round, and checks every record against the automaton. The locale
  \<open>record_source\<close> states what is asked of a source; the words it loads are right whatever else the
  records say.
\<close>

section \<open>Sources\<close>

type_synonym sg_pair_record_source = "nat list \<Rightarrow> sg_pair_record list res"

datatype sg_witness_kind = SG_WITNESS_MERGE | SG_WITNESS_RESOLUTION

fun sg_oracle_record_reader :: "sg_pair_oracle \<Rightarrow> sg_pair_record_source" where
  "sg_oracle_record_reader oracle [] = Inr []"
| "sg_oracle_record_reader oracle (pair # pairs) =
     rbind (sg_pair_oracle_record (Ref oracle) pair) (\<lambda>record.
     rbind (sg_oracle_record_reader oracle pairs) (\<lambda>records.
     Inr (record # records)))"

text \<open>\<open>sg_planner_pair_count\<close> is the pair count of the oracle, written a second time.\<close>

definition sg_planner_pair_count :: "nat \<Rightarrow> nat option" where
  "sg_planner_pair_count state_count =
     (if state_count = SIZE_MAX then None
      else map_option (\<lambda>product. product div 2) (sg_size_multiply state_count (state_count + 1)))"

section \<open>Following the witnesses of a list of pairs\<close>

text \<open>The entries that the parallel arrays of \<open>sg_pair_words_load\<close> hold for one candidate.\<close>

record sg_candidate =
  cd_first :: nat
  cd_second :: nat
  cd_expected :: nat
  cd_word :: "nat list"
  cd_available :: bool
  cd_active :: bool

definition sg_candidate_init :: "nat \<times> nat \<Rightarrow> sg_candidate" where
  "sg_candidate_init states = \<lparr>cd_first = fst states, cd_second = snd states,
     cd_expected = SG_INDEX_NONE, cd_word = [], cd_available = True, cd_active = True\<rparr>"

text \<open>The body of the inner loop: one candidate and the record read for its current pair.\<close>

definition sg_candidate_step ::
  "sg_automaton \<Rightarrow> sg_witness_kind \<Rightarrow> nat \<Rightarrow> sg_pair_record \<Rightarrow> sg_candidate \<Rightarrow> sg_candidate res" where
  "sg_candidate_step automaton kind pair record cand =
     (let merge = (kind = SG_WITNESS_MERGE);
          reachable = (if merge then rec_mergeable record else rec_resolvable record);
          distance = (if merge then rec_merge_distance record else rec_resolution_distance record);
          action = (if merge then rec_merge_action record else rec_resolution_action record);
          next = (if merge then rec_merge_next_pair record else rec_resolution_next_pair record);
          supports = (if merge then rec_merge_support_count record
                      else rec_resolution_support_count record)
      in if rec_pair record \<noteq> pair then Inl SG_ERR_INVALID_MODEL
         else if \<not> reachable
         then (if cd_word cand \<noteq> [] \<or> distance \<noteq> SG_INDEX_NONE \<or> action \<noteq> SG_INDEX_NONE \<or>
                  next \<noteq> SG_INDEX_NONE \<or> supports \<noteq> 0
               then Inl SG_ERR_INVALID_MODEL
               else Inr (cand\<lparr>cd_available := False, cd_active := False\<rparr>))
         else if (cd_expected cand \<noteq> SG_INDEX_NONE \<and> distance \<noteq> cd_expected cand) \<or>
                 (distance = 0 \<and> cd_first cand \<noteq> cd_second cand)
         then Inl SG_ERR_INVALID_MODEL
         else if distance = 0
         then (if action \<noteq> SG_INDEX_NONE \<or> next \<noteq> SG_INDEX_NONE \<or> supports \<noteq> 0
               then Inl SG_ERR_INVALID_MODEL
               else Inr (cand\<lparr>cd_active := False\<rparr>))
         else if action \<ge> au_action_count automaton \<or> supports = 0 then Inl SG_ERR_INVALID_MODEL
         else let word = cd_word cand @ [action];
                  first_next = delta automaton (cd_first cand) action;
                  second_next = delta automaton (cd_second cand) action;
                  expected_next = sg_pair_index (au_state_count automaton) first_next second_next;
                  outputs_differ = (eta automaton (cd_first cand) action \<noteq>
                                    eta automaton (cd_second cand) action)
              in if kind = SG_WITNESS_RESOLUTION \<and> next = SG_INDEX_NONE
                 then (if distance \<noteq> 1 \<or> \<not> outputs_differ then Inl SG_ERR_INVALID_MODEL
                       else Inr (cand\<lparr>cd_word := word, cd_active := False\<rparr>))
                 else if next \<noteq> expected_next \<or> (kind = SG_WITNESS_RESOLUTION \<and> outputs_differ)
                 then Inl SG_ERR_INVALID_MODEL
                 else Inr (cand\<lparr>cd_word := word, cd_first := first_next, cd_second := second_next,
                                cd_expected := distance - 1\<rparr>))"

text \<open>One round: the pairs of the active candidates, one read, and the step of each.\<close>

definition sg_candidate_pair :: "sg_automaton \<Rightarrow> sg_candidate \<Rightarrow> nat" where
  "sg_candidate_pair automaton cand =
     sg_pair_index (au_state_count automaton) (cd_first cand) (cd_second cand)"

definition sg_pair_words_round ::
  "sg_automaton \<Rightarrow> sg_pair_record_source \<Rightarrow> sg_witness_kind \<Rightarrow> sg_candidate list \<Rightarrow>
     sg_candidate list res" where
  "sg_pair_words_round automaton read kind cands =
     (let positions = filter (\<lambda>index. cd_active (cands ! index)) [0..<length cands];
          pair_ids = map (\<lambda>index. sg_candidate_pair automaton (cands ! index)) positions
      in rbind (read pair_ids) (\<lambda>records.
         fold_res (\<lambda>request cands.
             rbind (sg_candidate_step automaton kind (pair_ids ! request) (records ! request)
                      (cands ! (positions ! request)))
               (\<lambda>cand. Inr (cands[positions ! request := cand])))
           [0..<length positions] cands))"

text \<open>The rounds: \<open>depth\<close> of the code runs from 0 to the pair count, \<open>rounds\<close> counts them down. The
  test after the last round overwrites the status of a failed round, whose candidates are active.\<close>

fun sg_pair_words_rounds ::
  "sg_automaton \<Rightarrow> sg_pair_record_source \<Rightarrow> sg_witness_kind \<Rightarrow> nat \<Rightarrow> sg_candidate list \<Rightarrow>
     sg_candidate list res" where
  "sg_pair_words_rounds automaton read kind 0 cands = Inr cands"
| "sg_pair_words_rounds automaton read kind (Suc rounds) cands =
     (if list_ex cd_active cands
      then case sg_pair_words_round automaton read kind cands of
             Inl status \<Rightarrow> Inl (if rounds = 0 then SG_ERR_INVALID_MODEL else status)
           | Inr cands \<Rightarrow>
               if rounds = 0 \<and> list_ex cd_active cands then Inl SG_ERR_INVALID_MODEL
               else sg_pair_words_rounds automaton read kind rounds cands
      else Inr cands)"

definition sg_pair_words_load ::
  "sg_automaton \<Rightarrow> sg_pair_record_source ptr \<Rightarrow> (nat \<times> nat) list \<Rightarrow> sg_witness_kind \<Rightarrow>
     sg_candidate list res" where
  "sg_pair_words_load automaton source states kind =
     (case source of
        NULL \<Rightarrow> Inl SG_ERR_INVALID_ARGUMENT
      | Ref read \<Rightarrow>
          (case sg_planner_pair_count (au_state_count automaton) of
             None \<Rightarrow> Inl SG_ERR_ALLOC
           | Some pair_count \<Rightarrow>
               sg_pair_words_rounds automaton read kind (Suc pair_count)
                 (map sg_candidate_init states)))"

section \<open>What a loaded word is\<close>

definition witness_word :: "sg_automaton \<Rightarrow> sg_witness_kind \<Rightarrow> nat \<times> nat \<Rightarrow> nat list \<Rightarrow> bool" where
  "witness_word A kind st w =
     (if kind = SG_WITNESS_MERGE then merging_word A (fst st) (snd st) w
      else resolving_word A (fst st) (snd st) w)"

text \<open>A candidate followed from the states \<open>st\<close>: where it stands while active, and what its word
  does when it is done.\<close>

definition candidate_ok :: "sg_automaton \<Rightarrow> sg_witness_kind \<Rightarrow> nat \<times> nat \<Rightarrow> sg_candidate \<Rightarrow> bool" where
  "candidate_ok A kind st c \<longleftrightarrow>
     fst st < au_state_count A \<and> snd st < au_state_count A \<and> word_ok A (cd_word c) \<and>
     (cd_active c \<longrightarrow>
        cd_available c \<and> cd_first c = run_word A (fst st) (cd_word c) \<and>
        cd_second c = run_word A (snd st) (cd_word c) \<and>
        (kind = SG_WITNESS_RESOLUTION \<longrightarrow>
           output_trace A (fst st) (cd_word c) = output_trace A (snd st) (cd_word c))) \<and>
     (\<not> cd_active c \<and> cd_available c \<longrightarrow> witness_word A kind st (cd_word c))"

lemma candidate_init_ok:
  "fst st < au_state_count A \<Longrightarrow> snd st < au_state_count A \<Longrightarrow> candidate_ok A kind st (sg_candidate_init st)"
  by (simp add: candidate_ok_def sg_candidate_init_def)

lemma candidate_step_ok:
  assumes c: "candidate_ok A kind st c" "cd_active c"
    and step: "sg_candidate_step A kind pair r c = Inr c'"
  shows "candidate_ok A kind st c'"
proof (cases kind)
  case SG_WITNESS_MERGE
  then show ?thesis
    using assms
    by (auto simp: sg_candidate_step_def Let_def candidate_ok_def witness_word_def merging_word_def
        split: if_splits)
next
  case SG_WITNESS_RESOLUTION
  then show ?thesis
    using assms
    by (auto simp: sg_candidate_step_def Let_def candidate_ok_def witness_word_def resolving_word_def
        split: if_splits)
qed

lemma round_step:
  assumes "sg_pair_words_round A read kind cands = Inr cands'"
  shows "length cands' = length cands \<and>
    (\<forall>i < length cands. if cd_active (cands ! i)
       then \<exists>r. sg_candidate_step A kind (sg_candidate_pair A (cands ! i)) r (cands ! i) = Inr (cands' ! i)
       else cands' ! i = cands ! i)"
proof -
  define P where "P = filter (\<lambda>index. cd_active (cands ! index)) [0..<length cands]"
  have P: "distinct P" "set P = {i. i < length cands \<and> cd_active (cands ! i)}" by (auto simp: P_def)
  from assms obtain rs where rs: "fold_res (\<lambda>request cs.
      rbind (sg_candidate_step A kind (map (\<lambda>index. sg_candidate_pair A (cands ! index)) P ! request)
          (rs ! request) (cs ! (P ! request)))
        (\<lambda>c. Inr (cs[P ! request := c]))) [0..<length P] cands = Inr cands'"
    by (auto simp: sg_pair_words_round_def Let_def P_def[symmetric])
  have "length cs = length cands \<and> (\<forall>i < length cands. if i \<in> set (take k P)
      then \<exists>r. sg_candidate_step A kind (sg_candidate_pair A (cands ! i)) r (cands ! i) = Inr (cs ! i)
      else cs ! i = cands ! i)"
    if "k \<le> length P" "fold_res (\<lambda>request cs.
      rbind (sg_candidate_step A kind (map (\<lambda>index. sg_candidate_pair A (cands ! index)) P ! request)
          (rs ! request) (cs ! (P ! request)))
        (\<lambda>c. Inr (cs[P ! request := c]))) [0..<k] cands = Inr cs" for k cs
    using that
  proof (induction k arbitrary: cs)
    case (Suc k)
    from Suc.prems obtain cs0 c where 0: "fold_res (\<lambda>request cs.
      rbind (sg_candidate_step A kind (map (\<lambda>index. sg_candidate_pair A (cands ! index)) P ! request)
          (rs ! request) (cs ! (P ! request)))
        (\<lambda>c. Inr (cs[P ! request := c]))) [0..<k] cands = Inr cs0"
      "sg_candidate_step A kind (map (\<lambda>index. sg_candidate_pair A (cands ! index)) P ! k) (rs ! k) (cs0 ! (P ! k)) = Inr c"
      "cs = cs0[P ! k := c]" by auto
    note IH = Suc.IH[OF _ 0(1)]
    have k: "k < length P" using Suc.prems by simp
    have take: "take (Suc k) P = take k P @ [P ! k]" using k by (rule take_Suc_conv_app_nth)
    have fresh: "P ! k \<notin> set (take k P)"
      using P(1) k by (auto simp: in_set_conv_nth nth_eq_iff_index_eq)
    have "P ! k \<in> set P" using k by simp
    then have Pk: "P ! k < length cands" using P(2) by blast
    have "cs0 ! (P ! k) = cands ! (P ! k)" using IH k fresh Pk by simp
    then show ?case
      using IH k 0(2,3) Pk unfolding take by (auto simp: nth_list_update)
  qed simp
  from this[OF order_refl rs] P(2) show ?thesis by auto
qed

lemma rounds_ok:
  assumes "\<forall>i < length cands. candidate_ok A kind (states i) (cands ! i)"
    and "sg_pair_words_rounds A read kind rounds cands = Inr cands'" and "rounds \<noteq> 0"
  shows "length cands' = length cands \<and>
    (\<forall>i < length cands. candidate_ok A kind (states i) (cands' ! i) \<and> \<not> cd_active (cands' ! i))"
  using assms
proof (induction rounds arbitrary: cands)
  case (Suc rounds)
  show ?case
  proof (cases "list_ex cd_active cands")
    case False
    with Suc.prems(2) have "cands' = cands" by simp
    with False Suc.prems(1) show ?thesis by (auto simp: list_ex_length)
  next
    case True
    with Suc.prems(2) obtain cs where cs: "sg_pair_words_round A read kind cands = Inr cs"
      "\<not> (rounds = 0 \<and> list_ex cd_active cs)" "sg_pair_words_rounds A read kind rounds cs = Inr cands'"
      by (auto split: if_splits sum.splits)
    note r = round_step[OF cs(1)]
    have ok: "\<forall>i < length cs. candidate_ok A kind (states i) (cs ! i)"
      using r Suc.prems(1) candidate_step_ok by (metis (no_types, lifting))
    show ?thesis
    proof (cases "rounds = 0")
      case True
      with cs r ok show ?thesis by (auto simp: list_ex_length)
    next
      case False
      with Suc.IH[OF ok cs(3)] r show ?thesis by simp
    qed
  qed
qed simp

text \<open>Soundness for every source: an available word is a witness for its pair.\<close>

lemma words_load_sound:
  assumes "set states \<subseteq> {..<au_state_count A} \<times> {..<au_state_count A}"
    and "sg_pair_words_load A source states kind = Inr cands" and "i < length states"
  shows "length cands = length states" "word_ok A (cd_word (cands ! i))"
    "cd_available (cands ! i) \<Longrightarrow> witness_word A kind (states ! i) (cd_word (cands ! i))"
proof -
  from assms(2) obtain read c where r: "sg_pair_words_rounds A read kind (Suc c) (map sg_candidate_init states) = Inr cands"
    by (auto simp: sg_pair_words_load_def split: option.splits)
  have "\<forall>i < length (map sg_candidate_init states).
      candidate_ok A kind (states ! i) (map sg_candidate_init states ! i)"
  proof (intro allI impI)
    fix i assume "i < length (map sg_candidate_init states)"
    then have "states ! i \<in> set states" by simp
    then have "states ! i \<in> {..<au_state_count A} \<times> {..<au_state_count A}" using assms(1) by blast
    with \<open>i < length _\<close> show "candidate_ok A kind (states ! i) (map sg_candidate_init states ! i)"
      by (simp add: candidate_init_ok mem_Times_iff)
  qed
  from rounds_ok[OF this r] have "length cands = length states"
      "candidate_ok A kind (states ! i) (cands ! i)" "\<not> cd_active (cands ! i)"
    using assms(3) by auto
  then show "length cands = length states" "word_ok A (cd_word (cands ! i))"
    "cd_available (cands ! i) \<Longrightarrow> witness_word A kind (states ! i) (cd_word (cands ! i))"
    by (auto simp: candidate_ok_def)
qed

section \<open>Sources that read a valid table\<close>

locale record_source =
  fixes ok :: "'i \<Rightarrow> bool"
    and table :: "'i \<Rightarrow> sg_pair_oracle"
    and read :: "'i \<Rightarrow> sg_pair_record_source"
  assumes table_valid: "ok i \<Longrightarrow> oracle_valid (po_automaton (table i)) (table i)"
    and read_table: "ok i \<Longrightarrow> set ids \<subseteq> {..<po_pair_count (table i)} \<Longrightarrow>
      read i ids = Inr (map (oracle_record (table i)) ids)"

definition kind_distance :: "sg_pair_oracle \<Rightarrow> sg_witness_kind \<Rightarrow> nat \<Rightarrow> nat" where
  "kind_distance orc kind p =
     (if kind = SG_WITNESS_MERGE then po_merge_distance orc ! p else po_resolution_distance orc ! p)"

text \<open>The progress of a candidate on a valid table: while active its distance is below the rounds
  left, and when done it is available exactly if the first pair, at distance \<open>d\<close>, has a word.\<close>

definition candidate_progress ::
  "sg_automaton \<Rightarrow> sg_pair_oracle \<Rightarrow> sg_witness_kind \<Rightarrow> nat \<Rightarrow> nat \<Rightarrow> sg_candidate \<Rightarrow> bool" where
  "candidate_progress A orc kind d k c \<longleftrightarrow>
     (if cd_active c
      then cd_first c < au_state_count A \<and> cd_second c < au_state_count A \<and> cd_available c \<and>
        (if kind_distance orc kind (sg_candidate_pair A c) = SG_INDEX_NONE
         then cd_word c = [] \<and> cd_expected c = SG_INDEX_NONE \<and> d = SG_INDEX_NONE \<and> 0 < k
         else kind_distance orc kind (sg_candidate_pair A c) < k \<and> d \<noteq> SG_INDEX_NONE \<and>
              (cd_expected c = SG_INDEX_NONE \<or>
               cd_expected c = kind_distance orc kind (sg_candidate_pair A c)))
      else cd_available c \<longleftrightarrow> d \<noteq> SG_INDEX_NONE)"

lemma oracle_record_simps:
  assumes "p < po_pair_count orc"
  shows "rec_pair (oracle_record orc p) = p"
    "rec_mergeable (oracle_record orc p) \<longleftrightarrow> po_merge_distance orc ! p \<noteq> SG_INDEX_NONE"
    "rec_merge_distance (oracle_record orc p) = po_merge_distance orc ! p"
    "rec_merge_action (oracle_record orc p) = po_merge_action orc ! p"
    "rec_merge_next_pair (oracle_record orc p) = po_merge_next orc ! p"
    "rec_merge_support_count (oracle_record orc p) = po_merge_support_count orc ! p"
    "rec_resolvable (oracle_record orc p) \<longleftrightarrow> po_resolution_distance orc ! p \<noteq> SG_INDEX_NONE"
    "rec_resolution_distance (oracle_record orc p) = po_resolution_distance orc ! p"
    "rec_resolution_action (oracle_record orc p) = po_resolution_action orc ! p"
    "rec_resolution_next_pair (oracle_record orc p) = po_resolution_next orc ! p"
    "rec_resolution_support_count (oracle_record orc p) = po_resolution_support_count orc ! p"
  using assms by (simp_all add: oracle_record_def sg_pair_oracle_record_def)

lemma pair_next_index:
  assumes "wf_automaton A" "oracle_size_ok A" "s < au_state_count A" "t < au_state_count A"
  shows "pair_next A (sg_pair_index (au_state_count A) s t) a =
    sg_pair_index (au_state_count A) (delta A s a) (delta A t a)"
  using pair_of_index(2)[OF assms] by (simp add: pair_next_def min_def max_def sg_pair_index_commute)

lemma pair_differ_index:
  assumes "wf_automaton A" "oracle_size_ok A" "s < au_state_count A" "t < au_state_count A"
  shows "pair_differ A (sg_pair_index (au_state_count A) s t) a \<longleftrightarrow> eta A s a \<noteq> eta A t a"
  using pair_of_index(2)[OF assms] by (auto simp: pair_differ_def min_def max_def)

lemma pair_equal_index:
  assumes "wf_automaton A" "oracle_size_ok A" "s < au_state_count A" "t < au_state_count A"
  shows "pair_equal A (sg_pair_index (au_state_count A) s t) \<longleftrightarrow> s = t"
  using pair_merges_index[OF assms, of "[]"] by (simp add: merging_word_def)

lemma valid_none:
  assumes V: "oracle_valid A orc" and p: "p < pair_total A"
  shows "po_merge_distance orc ! p = SG_INDEX_NONE \<Longrightarrow> po_merge_action orc ! p = SG_INDEX_NONE \<and>
      po_merge_next orc ! p = SG_INDEX_NONE \<and> po_merge_support_count orc ! p = 0"
    and "po_resolution_distance orc ! p = SG_INDEX_NONE \<Longrightarrow> po_resolution_action orc ! p = SG_INDEX_NONE \<and>
      po_resolution_next orc ! p = SG_INDEX_NONE \<and> po_resolution_support_count orc ! p = 0"
    and "po_resolution_distance orc ! p = 0 \<Longrightarrow> po_resolution_action orc ! p = SG_INDEX_NONE \<and>
      po_resolution_next orc ! p = SG_INDEX_NONE \<and> po_resolution_support_count orc ! p = 0"
proof -
  have v: "sg_merge_record_valid orc p" "sg_resolution_record_valid orc p"
    using V p by (simp_all add: oracle_valid_def)
  have ne: "(0 :: nat) \<noteq> SG_INDEX_NONE" by (simp add: SIZE_MAX_def)
  show "po_merge_distance orc ! p = SG_INDEX_NONE \<Longrightarrow> po_merge_action orc ! p = SG_INDEX_NONE \<and>
      po_merge_next orc ! p = SG_INDEX_NONE \<and> po_merge_support_count orc ! p = 0"
    using v(1) by (simp add: sg_merge_record_valid_def)
  show "po_resolution_distance orc ! p = SG_INDEX_NONE \<Longrightarrow> po_resolution_action orc ! p = SG_INDEX_NONE \<and>
      po_resolution_next orc ! p = SG_INDEX_NONE \<and> po_resolution_support_count orc ! p = 0"
    using v(2) by (simp add: sg_resolution_record_valid_def)
  show "po_resolution_distance orc ! p = 0 \<Longrightarrow> po_resolution_action orc ! p = SG_INDEX_NONE \<and>
      po_resolution_next orc ! p = SG_INDEX_NONE \<and> po_resolution_support_count orc ! p = 0"
    using v(2) ne by (simp add: sg_resolution_record_valid_def)
qed

lemma merge_step_progress:
  assumes V: "oracle_valid A orc" and act: "cd_active c"
    and prog: "candidate_progress A orc SG_WITNESS_MERGE d (Suc k) c"
  shows "\<exists>c'. sg_candidate_step A SG_WITNESS_MERGE (sg_candidate_pair A c)
      (oracle_record orc (sg_candidate_pair A c)) c = Inr c' \<and> candidate_progress A orc SG_WITNESS_MERGE d k c'"
proof -
  define p where "p = sg_candidate_pair A c"
  have A: "wf_automaton A" "oracle_size_ok A" "po_pair_count orc = pair_total A"
    using V by (auto simp: oracle_valid_def oracle_tables_def)
  have st: "cd_first c < au_state_count A" "cd_second c < au_state_count A"
    using prog act by (auto simp: candidate_progress_def)
  have pi: "p = sg_pair_index (au_state_count A) (cd_first c) (cd_second c)"
    by (simp add: p_def sg_candidate_pair_def)
  have p: "p < pair_total A" unfolding pi by (rule pair_of_index(1)[OF A(1,2) st])
  note rec = oracle_record_simps[of p orc, unfolded A(3), OF p]
  have prog': "cd_available c \<and> (if po_merge_distance orc ! p = SG_INDEX_NONE
      then cd_word c = [] \<and> cd_expected c = SG_INDEX_NONE \<and> d = SG_INDEX_NONE
      else po_merge_distance orc ! p < Suc k \<and> d \<noteq> SG_INDEX_NONE \<and>
        (cd_expected c = SG_INDEX_NONE \<or> cd_expected c = po_merge_distance orc ! p))"
    using prog act by (simp add: candidate_progress_def kind_distance_def p_def cong: if_cong)
  consider "po_merge_distance orc ! p = SG_INDEX_NONE" | "po_merge_distance orc ! p = 0" "po_merge_distance orc ! p \<noteq> SG_INDEX_NONE"
    | "po_merge_distance orc ! p \<noteq> SG_INDEX_NONE" "po_merge_distance orc ! p \<noteq> 0" by blast
  then show ?thesis
    unfolding p_def[symmetric]
  proof cases
    case 1
    with valid_none(1)[OF V p 1] prog' rec
    show "\<exists>c'. sg_candidate_step A SG_WITNESS_MERGE p (oracle_record orc p) c = Inr c' \<and>
        candidate_progress A orc SG_WITNESS_MERGE d k c'"
      by (simp add: sg_candidate_step_def candidate_progress_def)
  next
    case 2
    note z = valid_merge_zero[OF V p 2(1)]
    have "cd_first c = cd_second c" using z(1) pair_equal_index[OF A(1,2) st] pi by simp
    with 2 z prog' rec
    show "\<exists>c'. sg_candidate_step A SG_WITNESS_MERGE p (oracle_record orc p) c = Inr c' \<and>
        candidate_progress A orc SG_WITNESS_MERGE d k c'"
      by (auto simp: sg_candidate_step_def candidate_progress_def)
  next
    case 3
    have lt: "po_merge_distance orc ! p < Suc k" and av: "cd_available c" "d \<noteq> SG_INDEX_NONE"
      using prog' 3(1) by simp_all
    note s = valid_merge_step[OF V p 3]
    define a where "a = po_merge_action orc ! p"
    have nx: "sg_pair_index (au_state_count A) (delta A (cd_first c) a) (delta A (cd_second c) a) =
        po_merge_next orc ! p"
      using s(2) pair_next_index[OF A(1,2) st] pi by (simp add: a_def)
    let ?c = "c\<lparr>cd_word := cd_word c @ [a], cd_first := delta A (cd_first c) a,
        cd_second := delta A (cd_second c) a, cd_expected := po_merge_distance orc ! p - 1\<rparr>"
    have "sg_candidate_step A SG_WITNESS_MERGE p (oracle_record orc p) c = Inr ?c"
      using 3 s(1,6) prog' rec nx
      by (auto simp: sg_candidate_step_def Let_def a_def)
    moreover have "candidate_progress A orc SG_WITNESS_MERGE d k ?c"
    proof -
      have "sg_candidate_pair A ?c = po_merge_next orc ! p" using nx by (simp add: sg_candidate_pair_def)
      moreover have "po_merge_distance orc ! (po_merge_next orc ! p) = po_merge_distance orc ! p - 1"
        using s(4) by simp
      moreover have "po_merge_distance orc ! p - 1 < k" using lt 3(2) by linarith
      moreover have "po_merge_distance orc ! p - 1 \<noteq> SG_INDEX_NONE" using s(3) calculation(2) by simp
      ultimately show ?thesis
        using st s(1) A(1) act av by (simp add: candidate_progress_def kind_distance_def transition_less a_def)
    qed
    ultimately show "\<exists>c'. sg_candidate_step A SG_WITNESS_MERGE p (oracle_record orc p) c = Inr c' \<and>
        candidate_progress A orc SG_WITNESS_MERGE d k c'" by blast
  qed
qed

lemma resolution_step_progress:
  assumes V: "oracle_valid A orc" and act: "cd_active c"
    and prog: "candidate_progress A orc SG_WITNESS_RESOLUTION d (Suc k) c"
  shows "\<exists>c'. sg_candidate_step A SG_WITNESS_RESOLUTION (sg_candidate_pair A c)
      (oracle_record orc (sg_candidate_pair A c)) c = Inr c' \<and> candidate_progress A orc SG_WITNESS_RESOLUTION d k c'"
proof -
  define p where "p = sg_candidate_pair A c"
  have A: "wf_automaton A" "oracle_size_ok A" "po_pair_count orc = pair_total A"
    using V by (auto simp: oracle_valid_def oracle_tables_def)
  have st: "cd_first c < au_state_count A" "cd_second c < au_state_count A"
    using prog act by (auto simp: candidate_progress_def)
  have pi: "p = sg_pair_index (au_state_count A) (cd_first c) (cd_second c)"
    by (simp add: p_def sg_candidate_pair_def)
  have p: "p < pair_total A" unfolding pi by (rule pair_of_index(1)[OF A(1,2) st])
  note rec = oracle_record_simps[of p orc, unfolded A(3), OF p]
  have prog': "cd_available c \<and> (if po_resolution_distance orc ! p = SG_INDEX_NONE
      then cd_word c = [] \<and> cd_expected c = SG_INDEX_NONE \<and> d = SG_INDEX_NONE
      else po_resolution_distance orc ! p < Suc k \<and> d \<noteq> SG_INDEX_NONE \<and>
        (cd_expected c = SG_INDEX_NONE \<or> cd_expected c = po_resolution_distance orc ! p))"
    using prog act by (simp add: candidate_progress_def kind_distance_def p_def cong: if_cong)
  let ?goal = "\<exists>c'. sg_candidate_step A SG_WITNESS_RESOLUTION p (oracle_record orc p) c = Inr c' \<and>
        candidate_progress A orc SG_WITNESS_RESOLUTION d k c'"
  consider "po_resolution_distance orc ! p = SG_INDEX_NONE"
    | "po_resolution_distance orc ! p = 0" "po_resolution_distance orc ! p \<noteq> SG_INDEX_NONE"
    | "po_resolution_distance orc ! p \<noteq> SG_INDEX_NONE" "po_resolution_distance orc ! p \<noteq> 0" by blast
  then have ?goal
  proof cases
    case 1
    with valid_none(2)[OF V p 1] prog' rec show ?goal
      by (simp add: sg_candidate_step_def candidate_progress_def)
  next
    case 2
    have "cd_first c = cd_second c"
      using valid_resolution_zero[OF V p 2(1)] pair_equal_index[OF A(1,2) st] pi by simp
    with 2 valid_none(3)[OF V p 2(1)] prog' rec show ?goal
      by (auto simp: sg_candidate_step_def candidate_progress_def)
  next
    case 3
    have lt: "po_resolution_distance orc ! p < Suc k" and av: "cd_available c" "d \<noteq> SG_INDEX_NONE"
      using prog' 3(1) by simp_all
    note s = valid_resolution_step[OF V p 3]
    define a where "a = po_resolution_action orc ! p"
    have diff: "eta A (cd_first c) a \<noteq> eta A (cd_second c) a \<longleftrightarrow> pair_differ A p a"
      using pair_differ_index[OF A(1,2) st] pi by simp
    show ?goal
    proof (cases "po_resolution_next orc ! p = SG_INDEX_NONE")
      case True
      then have "eta A (cd_first c) a \<noteq> eta A (cd_second c) a" "po_resolution_distance orc ! p = 1"
        using s(3) diff by (simp_all add: a_def)
      with True 3 s(1,2) prog' rec show ?goal
        by (auto simp: sg_candidate_step_def Let_def candidate_progress_def a_def)
    next
      case False
      note q = s(4)[OF False]
      have nx: "sg_pair_index (au_state_count A) (delta A (cd_first c) a) (delta A (cd_second c) a) =
          po_resolution_next orc ! p"
        using q pair_next_index[OF A(1,2) st] pi by (simp add: a_def)
      have same: "eta A (cd_first c) a = eta A (cd_second c) a" using diff q by (simp add: a_def)
      let ?c = "c\<lparr>cd_word := cd_word c @ [a], cd_first := delta A (cd_first c) a,
          cd_second := delta A (cd_second c) a, cd_expected := po_resolution_distance orc ! p - 1\<rparr>"
      have "sg_candidate_step A SG_WITNESS_RESOLUTION p (oracle_record orc p) c = Inr ?c"
        unfolding sg_candidate_step_def Let_def
        using 3 s(1,2) prog' rec nx same False by (force simp: a_def)
      moreover have "candidate_progress A orc SG_WITNESS_RESOLUTION d k ?c"
      proof -
        have "sg_candidate_pair A ?c = po_resolution_next orc ! p" using nx by (simp add: sg_candidate_pair_def)
        moreover have "po_resolution_distance orc ! (po_resolution_next orc ! p) + 1 = po_resolution_distance orc ! p"
          "po_resolution_distance orc ! (po_resolution_next orc ! p) \<noteq> SG_INDEX_NONE"
          by (rule conjunct2[OF conjunct2[OF conjunct2[OF conjunct2[OF q]]]],
              rule conjunct1[OF conjunct2[OF conjunct2[OF conjunct2[OF q]]]])
        moreover from calculation(2) have "po_resolution_distance orc ! (po_resolution_next orc ! p) = po_resolution_distance orc ! p - 1"
          by (metis add_diff_cancel_right')
        moreover have "po_resolution_distance orc ! p - 1 < k" using lt 3(2) by linarith
        ultimately show ?thesis
          using st s(1) A(1) act av by (simp add: candidate_progress_def kind_distance_def transition_less a_def)
      qed
      ultimately show ?goal by blast
    qed
  qed
  then show ?thesis by (simp add: p_def)
qed

lemma candidate_step_progress:
  assumes "oracle_valid A orc" "cd_active c" "candidate_progress A orc kind d (Suc k) c"
  shows "\<exists>c'. sg_candidate_step A kind (sg_candidate_pair A c) (oracle_record orc (sg_candidate_pair A c)) c = Inr c' \<and>
    candidate_progress A orc kind d k c'"
  using assms merge_step_progress resolution_step_progress by (cases kind) blast+

lemma fold_positions:
  assumes P: "distinct P" "set P \<subseteq> {..<length cs0}"
    and f: "\<And>j. j < length P \<Longrightarrow> \<exists>c. f j (cs0 ! (P ! j)) = Inr c \<and> Q (P ! j) c"
  shows "\<exists>cs. fold_res (\<lambda>j cs. rbind (f j (cs ! (P ! j))) (\<lambda>c. Inr (cs[P ! j := c]))) [0..<length P] cs0 = Inr cs \<and>
    length cs = length cs0 \<and> (\<forall>i < length cs0. if i \<in> set P then Q i (cs ! i) else cs ! i = cs0 ! i)"
proof -
  have "\<exists>cs. fold_res (\<lambda>j cs. rbind (f j (cs ! (P ! j))) (\<lambda>c. Inr (cs[P ! j := c]))) [0..<k] cs0 = Inr cs \<and>
      length cs = length cs0 \<and> (\<forall>i < length cs0. if i \<in> set (take k P) then Q i (cs ! i) else cs ! i = cs0 ! i)"
    if "k \<le> length P" for k
    using that
  proof (induction k)
    case (Suc k)
    then obtain cs where cs: "fold_res (\<lambda>j cs. rbind (f j (cs ! (P ! j))) (\<lambda>c. Inr (cs[P ! j := c]))) [0..<k] cs0 = Inr cs"
      "length cs = length cs0" "\<forall>i < length cs0. if i \<in> set (take k P) then Q i (cs ! i) else cs ! i = cs0 ! i"
      by auto
    have k: "k < length P" using Suc.prems by simp
    have take: "take (Suc k) P = take k P @ [P ! k]" using k by (rule take_Suc_conv_app_nth)
    have fresh: "P ! k \<notin> set (take k P)"
      using P(1) k by (auto simp: in_set_conv_nth nth_eq_iff_index_eq)
    have Pk: "P ! k < length cs0" using P(2) nth_mem[OF k] by blast
    have same: "cs ! (P ! k) = cs0 ! (P ! k)" using cs(3) Pk fresh by simp
    from f[OF k] obtain c where c: "f k (cs0 ! (P ! k)) = Inr c" "Q (P ! k) c" by blast
    then show ?case
      using cs Pk unfolding take by (intro exI[of _ "cs[P ! k := c]"]) (auto simp: same nth_list_update)
  qed simp
  from this[of "length P"] show ?thesis by simp
qed


text \<open>Each record of a valid table above distance one has a record one step nearer, so the distances
  are not larger than the number of pairs.\<close>

lemma valid_nearer:
  assumes V: "oracle_valid A orc" and p: "p < pair_total A" "kind_distance orc kind p \<noteq> SG_INDEX_NONE"
    and "kind_distance orc kind p = Suc (Suc k)"
  shows "\<exists>q < pair_total A. kind_distance orc kind q \<noteq> SG_INDEX_NONE \<and> kind_distance orc kind q = Suc k"
proof (cases kind)
  case SG_WITNESS_MERGE
  then have d: "po_merge_distance orc ! p \<noteq> SG_INDEX_NONE" "po_merge_distance orc ! p \<noteq> 0"
    using p assms(4) by (simp_all add: kind_distance_def)
  note s = valid_merge_step[OF V p(1) d]
  have "po_merge_distance orc ! (po_merge_next orc ! p) = Suc k"
    using s(4) assms(4) SG_WITNESS_MERGE by (simp add: kind_distance_def)
  moreover note s(3,5)
  ultimately show ?thesis using SG_WITNESS_MERGE by (auto simp: kind_distance_def)
next
  case SG_WITNESS_RESOLUTION
  then have d: "po_resolution_distance orc ! p \<noteq> SG_INDEX_NONE" "po_resolution_distance orc ! p \<noteq> 0"
    using p assms(4) by (simp_all add: kind_distance_def)
  note s = valid_resolution_step[OF V p(1) d]
  have two: "po_resolution_distance orc ! p = Suc (Suc k)"
    using assms(4) SG_WITNESS_RESOLUTION by (simp add: kind_distance_def)
  then have nx: "po_resolution_next orc ! p \<noteq> SG_INDEX_NONE" using s(3) by force
  note q = s(4)[OF nx]
  have "po_resolution_distance orc ! (po_resolution_next orc ! p) + 1 = po_resolution_distance orc ! p"
    "po_resolution_distance orc ! (po_resolution_next orc ! p) \<noteq> SG_INDEX_NONE"
    "po_resolution_next orc ! p < pair_total A"
    subgoal using q by (elim conjE)
    subgoal using q by (elim conjE)
    subgoal using q by (elim conjE)
    done
  moreover from this(1) two have "po_resolution_distance orc ! (po_resolution_next orc ! p) = Suc k" by linarith
  ultimately show ?thesis using SG_WITNESS_RESOLUTION by (auto simp: kind_distance_def)
qed

lemma valid_all_distances:
  assumes V: "oracle_valid A orc" and p: "p < pair_total A" "kind_distance orc kind p \<noteq> SG_INDEX_NONE"
    and k: "0 < k" "k \<le> kind_distance orc kind p"
  shows "\<exists>q < pair_total A. kind_distance orc kind q = k"
  using p k(2)
proof (induction "kind_distance orc kind p - k" arbitrary: p)
  case 0
  then show ?case by auto
next
  case (Suc x)
  then have "kind_distance orc kind p = Suc (Suc (kind_distance orc kind p - 2))" using k(1) by linarith
  from valid_nearer[OF V Suc.prems(1,2) this] obtain q
    where q: "q < pair_total A" "kind_distance orc kind q \<noteq> SG_INDEX_NONE"
      "kind_distance orc kind q = Suc (kind_distance orc kind p - 2)" by blast
  have "x = kind_distance orc kind q - k" "k \<le> kind_distance orc kind q"
    using Suc.hyps(2) k(1) Suc.prems(3) q(3) by linarith+
  then show ?case using Suc.hyps(1)[of q] q by blast
qed

lemma valid_distance_le:
  assumes V: "oracle_valid A orc" and p: "p < pair_total A" "kind_distance orc kind p \<noteq> SG_INDEX_NONE"
  shows "kind_distance orc kind p \<le> pair_total A"
proof -
  have "{1..kind_distance orc kind p} \<subseteq> kind_distance orc kind ` {..<pair_total A}"
  proof
    fix k assume "k \<in> {1..kind_distance orc kind p}"
    then have "0 < k" "k \<le> kind_distance orc kind p" by simp_all
    from valid_all_distances[OF V p this] show "k \<in> kind_distance orc kind ` {..<pair_total A}" by blast
  qed
  then have "card {1..kind_distance orc kind p} \<le> card (kind_distance orc kind ` {..<pair_total A})"
    by (intro card_mono) simp_all
  also have "\<dots> \<le> card {..<pair_total A}" by (intro card_image_le) simp
  finally show ?thesis by simp
qed

context record_source
begin

lemma round_progress:
  assumes i: "ok i" "po_automaton (table i) = A"
    and prog: "\<forall>j < length cands. candidate_progress A (table i) kind (d j) (Suc k) (cands ! j)"
  shows "\<exists>cands'. sg_pair_words_round A (read i) kind cands = Inr cands' \<and> length cands' = length cands \<and>
    (\<forall>j < length cands. candidate_progress A (table i) kind (d j) k (cands' ! j))"
proof -
  have V: "oracle_valid A (table i)" using table_valid[OF i(1)] i(2) by simp
  then have A: "wf_automaton A" "oracle_size_ok A" "po_pair_count (table i) = pair_total A"
    by (auto simp: oracle_valid_def oracle_tables_def)
  define P where "P = filter (\<lambda>index. cd_active (cands ! index)) [0..<length cands]"
  define ids where "ids = map (\<lambda>index. sg_candidate_pair A (cands ! index)) P"
  have P: "distinct P" "set P \<subseteq> {..<length cands}" "set P = {j. j < length cands \<and> cd_active (cands ! j)}"
    by (auto simp: P_def)
  have bound: "sg_candidate_pair A (cands ! j) < po_pair_count (table i)" if "j \<in> set P" for j
    using that prog A(3) pair_of_index(1)[OF A(1,2)]
    by (auto simp: P(3) candidate_progress_def sg_candidate_pair_def)
  have rd: "read i ids = Inr (map (oracle_record (table i)) ids)"
    using bound by (intro read_table[OF i(1)]) (auto simp: ids_def)
  have step: "\<exists>c. sg_candidate_step A kind (ids ! j) (map (oracle_record (table i)) ids ! j) (cands ! (P ! j)) = Inr c \<and>
      candidate_progress A (table i) kind (d (P ! j)) k c" if "j < length P" for j
  proof -
    have "P ! j \<in> set P" using that by simp
    then have "P ! j < length cands" "cd_active (cands ! (P ! j))" using P(3) by blast+
    then show ?thesis
      using candidate_step_progress[OF V] prog that by (simp add: ids_def)
  qed
  obtain cs where cs: "fold_res (\<lambda>j cs. rbind (sg_candidate_step A kind (ids ! j)
        (map (oracle_record (table i)) ids ! j) (cs ! (P ! j))) (\<lambda>c. Inr (cs[P ! j := c]))) [0..<length P] cands = Inr cs"
      "length cs = length cands"
      "\<forall>j < length cands. if j \<in> set P then candidate_progress A (table i) kind (d j) k (cs ! j) else cs ! j = cands ! j"
    using fold_positions[OF P(1,2), of "\<lambda>j. sg_candidate_step A kind (ids ! j) (map (oracle_record (table i)) ids ! j)"
        "\<lambda>j. candidate_progress A (table i) kind (d j) k", OF step] by blast
  have "candidate_progress A (table i) kind (d j) k (cs ! j)" if "j < length cands" for j
    using cs(3) that prog P(3) by (cases "j \<in> set P") (auto simp: candidate_progress_def)
  moreover have "sg_pair_words_round A (read i) kind cands = Inr cs"
    using rd cs(1) by (simp add: sg_pair_words_round_def Let_def P_def[symmetric] ids_def[symmetric])
  ultimately show ?thesis using cs(2) by blast
qed

lemma rounds_progress:
  assumes i: "ok i" "po_automaton (table i) = A"
    and "\<forall>j < length cands. candidate_progress A (table i) kind (d j) k (cands ! j)"
  shows "\<exists>cands'. sg_pair_words_rounds A (read i) kind k cands = Inr cands' \<and> length cands' = length cands \<and>
    (\<forall>j < length cands. cd_available (cands' ! j) \<longleftrightarrow> d j \<noteq> SG_INDEX_NONE)"
  using assms(3)
proof (induction k arbitrary: cands)
  case 0
  then show ?case by (auto simp: candidate_progress_def split: if_splits)
next
  case (Suc k)
  show ?case
  proof (cases "list_ex cd_active cands")
    case False
    with Suc.prems show ?thesis by (auto simp: candidate_progress_def list_ex_length)
  next
    case True
    from round_progress[OF i Suc.prems] obtain cs where cs: "sg_pair_words_round A (read i) kind cands = Inr cs"
      "length cs = length cands" "\<forall>j < length cands. candidate_progress A (table i) kind (d j) k (cs ! j)" by blast
    have "\<not> (k = 0 \<and> list_ex cd_active cs)"
      using cs(2,3) by (auto simp: list_ex_length candidate_progress_def split: if_splits)
    then have "sg_pair_words_rounds A (read i) kind (Suc k) cands = sg_pair_words_rounds A (read i) kind k cs"
      using True cs(1) by auto
    with Suc.IH[of cs] cs(2,3) show ?thesis by simp
  qed
qed

text \<open>On a valid table the load does not fail, and exactly the pairs with a distance have a word.\<close>

lemma words_load_complete:
  assumes i: "ok i" "po_automaton (table i) = A"
    and states: "set states \<subseteq> {..<au_state_count A} \<times> {..<au_state_count A}"
  shows "\<exists>cands. sg_pair_words_load A (Ref (read i)) states kind = Inr cands \<and> length cands = length states \<and>
    (\<forall>j < length states. cd_available (cands ! j) \<longleftrightarrow>
      kind_distance (table i) kind (sg_pair_index (au_state_count A) (fst (states ! j)) (snd (states ! j))) \<noteq> SG_INDEX_NONE)"
proof -
  have V: "oracle_valid A (table i)" using table_valid[OF i(1)] i(2) by simp
  then have A: "wf_automaton A" "oracle_size_ok A" "po_pair_count (table i) = pair_total A"
    by (auto simp: oracle_valid_def oracle_tables_def)
  define d where "d j = kind_distance (table i) kind
    (sg_pair_index (au_state_count A) (fst (states ! j)) (snd (states ! j)))" for j
  have count: "sg_planner_pair_count (au_state_count A) = Some (pair_total A)"
    using sg_pair_count_eq[OF A(1,2)] by (auto simp: sg_planner_pair_count_def sg_pair_count_def split: if_splits option.splits)
  have "candidate_progress A (table i) kind (d j) (Suc (pair_total A)) (map sg_candidate_init states ! j)"
    if "j < length states" for j
  proof -
    have "states ! j \<in> set states" using that by simp
    then have st: "fst (states ! j) < au_state_count A" "snd (states ! j) < au_state_count A"
      using states by (auto simp: mem_Times_iff)
    from valid_distance_le[OF V pair_of_index(1)[OF A(1,2) st], of kind]
    have "d j \<noteq> SG_INDEX_NONE \<Longrightarrow> d j < Suc (pair_total A)" by (simp add: d_def)
    with st that show ?thesis
      by (simp add: candidate_progress_def sg_candidate_init_def sg_candidate_pair_def d_def)
  qed
  then have "\<forall>j < length (map sg_candidate_init states).
      candidate_progress A (table i) kind (d j) (Suc (pair_total A)) (map sg_candidate_init states ! j)" by simp
  from rounds_progress[OF i this] show ?thesis
    by (simp add: sg_pair_words_load_def count d_def del: sg_pair_words_rounds.simps)
qed

end

section \<open>The oracle as a source\<close>

lemma oracle_record_reader:
  assumes "oracle_valid A orc" "set ids \<subseteq> {..<po_pair_count orc}"
  shows "sg_oracle_record_reader orc ids = Inr (map (oracle_record orc) ids)"
  using assms(2) by (induction ids) (auto simp: oracle_record_def sg_pair_oracle_record_def)

interpretation reader: record_source "\<lambda>orc. oracle_valid (po_automaton orc) orc" "\<lambda>orc. orc" sg_oracle_record_reader
  by unfold_locales (auto intro: oracle_record_reader)

text \<open>Which pairs have a word, for an exact table.\<close>

lemma exact_kind_distance:
  assumes exact: "oracle_exact A orc" and st: "s < au_state_count A" "t < au_state_count A"
  shows "kind_distance orc kind (sg_pair_index (au_state_count A) s t) \<noteq> SG_INDEX_NONE \<longleftrightarrow>
    (\<exists>w. witness_word A kind (s, t) w)"
proof -
  have A: "wf_automaton A" "oracle_size_ok A"
    using oracle_exact_valid[OF exact] by (auto simp: oracle_valid_def oracle_tables_def)
  note p = pair_of_index(1)[OF A st]
  show ?thesis
    using exact_record_values(1,3)[OF exact p] pair_merges_index[OF A st] pair_resolves_index[OF A st]
    by (simp add: kind_distance_def witness_word_def)
qed

text \<open>C8. Whatever a record source answers, every word that \<open>sg_pair_words_load\<close> reports as
  available is a word over the actions of the automaton that merges its two states, or, for
  resolution witnesses, tells them apart or merges them: no persisted record is trusted.\<close>

theorem pair_words_sound:
  assumes "set states \<subseteq> {..<au_state_count A} \<times> {..<au_state_count A}"
    and "sg_pair_words_load A source states kind = Inr cands" and "i < length states"
    and "cd_available (cands ! i)"
  shows "i < length cands \<and> word_ok A (cd_word (cands ! i)) \<and>
    (case kind of
       SG_WITNESS_MERGE \<Rightarrow> merging_word A (fst (states ! i)) (snd (states ! i)) (cd_word (cands ! i))
     | SG_WITNESS_RESOLUTION \<Rightarrow> resolving_word A (fst (states ! i)) (snd (states ! i)) (cd_word (cands ! i)))"
  using words_load_sound[OF assms(1-3)] assms(3,4)
  by (simp add: witness_word_def split: sg_witness_kind.splits)

text \<open>C24. On a built oracle \<open>sg_pair_words_load\<close> never fails, and it reports a word for exactly the
  pairs that have one.\<close>

theorem pair_words_complete:
  assumes "wf_automaton A" and "sg_pair_oracle_build (Ref A) = Inr orc"
    and "set states \<subseteq> {..<au_state_count A} \<times> {..<au_state_count A}"
  shows "\<exists>cands. sg_pair_words_load A (Ref (sg_oracle_record_reader orc)) states kind = Inr cands \<and>
    length cands = length states \<and>
    (\<forall>i < length states. cd_available (cands ! i) \<longleftrightarrow> (\<exists>w. witness_word A kind (states ! i) w))"
proof -
  have exact: "oracle_exact A orc" by (rule build_exact[OF assms(1,2)])
  have V: "oracle_valid A orc" by (rule oracle_exact_valid[OF exact])
  then have A: "po_automaton orc = A" by (simp add: oracle_valid_def oracle_tables_def)
  obtain cands where c: "sg_pair_words_load A (Ref (sg_oracle_record_reader orc)) states kind = Inr cands"
    "length cands = length states"
    "\<forall>j < length states. cd_available (cands ! j) \<longleftrightarrow> kind_distance orc kind
      (sg_pair_index (au_state_count A) (fst (states ! j)) (snd (states ! j))) \<noteq> SG_INDEX_NONE"
    using reader.words_load_complete[of orc A states kind] V A assms(3) by auto
  have "cd_available (cands ! j) \<longleftrightarrow> (\<exists>w. witness_word A kind (states ! j) w)" if j: "j < length states" for j
  proof -
    have "states ! j \<in> {..<au_state_count A} \<times> {..<au_state_count A}" using assms(3) nth_mem[OF j] by (rule subsetD)
    then have "fst (states ! j) < au_state_count A" "snd (states ! j) < au_state_count A" by (simp_all add: mem_Times_iff)
    from exact_kind_distance[OF exact this] c(3) j show ?thesis by simp
  qed
  with c show ?thesis by blast
qed

theorem pair_words_sound_witness:
  "\<exists>orc cands. sg_pair_oracle_build (Ref demo_automaton) = Inr orc \<and>
    sg_pair_words_load demo_automaton (Ref (sg_oracle_record_reader orc)) [(1, 2)] SG_WITNESS_MERGE = Inr cands \<and>
    merging_word demo_automaton 1 2 (cd_word (cands ! 0))"
proof -
  obtain orc where orc: "sg_pair_oracle_build (Ref demo_automaton) = Inr orc" "oracle_exact demo_automaton orc"
    using oracle_build_ok[OF demo_wf demo_size] by blast
  have ok: "set [(1 :: nat, 2 :: nat)] \<subseteq> {..<au_state_count demo_automaton} \<times> {..<au_state_count demo_automaton}"
    by (simp add: demo_automaton_def)
  have m: "merging_word demo_automaton 1 2 [0, 0, 1]" by code_simp
  have st: "1 < au_state_count demo_automaton" "2 < au_state_count demo_automaton"
    by (simp_all add: demo_automaton_def)
  have V: "oracle_valid demo_automaton orc" by (rule oracle_exact_valid[OF orc(2)])
  then have "po_automaton orc = demo_automaton" by (simp add: oracle_valid_def oracle_tables_def)
  with V reader.words_load_complete[of orc demo_automaton "[(1, 2)]" SG_WITNESS_MERGE, OF _ _ ok] obtain cands where
    c: "sg_pair_words_load demo_automaton (Ref (sg_oracle_record_reader orc)) [(1, 2)] SG_WITNESS_MERGE = Inr cands"
      "cd_available (cands ! 0)"
    using exact_kind_distance[OF orc(2) st, of SG_WITNESS_MERGE] m by (auto simp: witness_word_def)
  with pair_words_sound[OF ok c(1)] show ?thesis using orc(1) by fastforce
qed

theorem pair_words_complete_witness:
  "\<exists>orc cands. sg_pair_oracle_build (Ref demo_automaton) = Inr orc \<and>
    sg_pair_words_load demo_automaton (Ref (sg_oracle_record_reader orc)) [(1, 2)] SG_WITNESS_MERGE = Inr cands \<and>
    cd_available (cands ! 0)"
proof -
  obtain orc where orc: "sg_pair_oracle_build (Ref demo_automaton) = Inr orc"
    using oracle_build_ok[OF demo_wf demo_size] by blast
  have ok: "set [(1 :: nat, 2 :: nat)] \<subseteq> {..<au_state_count demo_automaton} \<times> {..<au_state_count demo_automaton}"
    by (simp add: demo_automaton_def)
  have "witness_word demo_automaton SG_WITNESS_MERGE (1, 2) [0, 0, 1]" by code_simp
  with pair_words_complete[OF demo_wf orc ok, of SG_WITNESS_MERGE] show ?thesis
    using orc by (auto simp: witness_word_def)
qed

end
