(* ===== verification/Sync_Partition.thy ===== *)
theory Sync_Partition
  imports Sync_Motion Sync_Result
begin

text \<open>
  The observation partitions of src/planner.c: grouping a support by the output of an action, the
  trace partition (one branch per output trace) with its metrics, and the canonical partition of
  supports the disambiguation search stores. \<open>trace_branch\<close> is the set of final states of the
  initial states that show a given output trace; both partitions are shown to hold exactly these
  sets.
\<close>

section \<open>Grouping by output\<close>

text \<open>
  One branch of \<open>sg_trace_partition_apply_action\<close> and \<open>sg_support_partition_apply_action\<close>: the
  arrays \<open>groups\<close> and \<open>used\<close> are one array of options, since a group is initialised when it is
  first used.
\<close>

definition sg_group_state ::
  "sg_automaton \<Rightarrow> sg_bitset \<Rightarrow> nat \<Rightarrow> nat \<Rightarrow> sg_bitset option list \<Rightarrow> sg_bitset option list res" where
  "sg_group_state automaton support action state groups =
     (if \<not> sg_bitset_has support state then Inr groups
      else let output = eta automaton state action;
               target = delta automaton state action
           in (case groups ! output of
                 None \<Rightarrow> rbind (sg_bitset_init (au_state_count automaton))
                           (\<lambda>members. Inr (groups[output := Some (sg_bitset_add members target)]))
               | Some members \<Rightarrow> Inr (groups[output := Some (sg_bitset_add members target)])))"

definition sg_group_states ::
  "sg_automaton \<Rightarrow> sg_bitset \<Rightarrow> nat \<Rightarrow> sg_bitset option list res" where
  "sg_group_states automaton support action =
     fold_res (sg_group_state automaton support action) [0..<au_state_count automaton]
       (replicate (au_output_count automaton) None)"

section \<open>Trace partitions\<close>

record sg_trace_branch =
  tb_support :: sg_bitset
  tb_trace :: "nat list"

type_synonym sg_trace_partition = "sg_trace_branch list"

definition sg_trace_partition_add ::
  "sg_trace_partition \<Rightarrow> sg_bitset \<Rightarrow> nat list \<Rightarrow> nat \<Rightarrow> sg_trace_partition" where
  "sg_trace_partition_add parts support trace appended_output =
     parts @ [\<lparr>tb_support = support, tb_trace = trace @ [appended_output]\<rparr>]"

definition sg_trace_partition_init :: "sg_bitset \<Rightarrow> sg_trace_partition res" where
  "sg_trace_partition_init initial =
     rbind (sg_bitset_copy initial) (\<lambda>support. Inr [\<lparr>tb_support = support, tb_trace = []\<rparr>])"

text \<open>The body of the loop over the source branches.\<close>

definition sg_trace_partition_split_branch ::
  "sg_automaton \<Rightarrow> nat \<Rightarrow> sg_trace_branch \<Rightarrow> sg_trace_partition \<Rightarrow> sg_trace_partition res" where
  "sg_trace_partition_split_branch automaton action branch destination =
     rbind (sg_group_states automaton (tb_support branch) action) (\<lambda>groups.
     Inr (foldl (\<lambda>dest output.
            case groups ! output of
              None \<Rightarrow> dest
            | Some members \<Rightarrow> sg_trace_partition_add dest members (tb_trace branch) output)
          destination [0..<au_output_count automaton]))"

definition sg_trace_partition_apply_action ::
  "sg_automaton \<Rightarrow> sg_trace_partition \<Rightarrow> nat \<Rightarrow> sg_trace_partition res" where
  "sg_trace_partition_apply_action automaton source action =
     fold_res (sg_trace_partition_split_branch automaton action) source []"

fun sg_trace_partition_word_loop ::
  "sg_automaton \<Rightarrow> nat list \<Rightarrow> sg_trace_partition \<Rightarrow> sg_trace_partition res" where
  "sg_trace_partition_word_loop automaton [] current = Inr current"
| "sg_trace_partition_word_loop automaton (action # word) current =
     rbind (sg_trace_partition_apply_action automaton current action)
       (sg_trace_partition_word_loop automaton word)"

definition sg_trace_partition_apply_word ::
  "sg_automaton \<Rightarrow> sg_trace_partition \<Rightarrow> nat list \<Rightarrow> sg_trace_partition res" where
  "sg_trace_partition_apply_word automaton source word =
     (if length source \<noteq> 1 \<or> length (tb_trace (source ! 0)) \<noteq> 0 then Inl SG_ERR_INVALID_ARGUMENT
      else rbind (sg_trace_partition_init (tb_support (source ! 0)))
             (sg_trace_partition_word_loop automaton word))"

text \<open>The best, worst and total support size.\<close>

definition sg_trace_metrics :: "sg_trace_partition \<Rightarrow> nat \<times> nat \<times> nat" where
  "sg_trace_metrics parts =
     (let (best, worst, total) =
            foldl (\<lambda>(best, worst, total) branch.
                let count = sg_bitset_count (tb_support branch)
                in (if count < best then count else best,
                    if count > worst then count else worst,
                    total + count))
              (SG_INDEX_NONE, 0, 0) parts
      in (if parts = [] then 0 else best, worst, total))"

definition sg_fill_plan_metrics ::
  "sg_automaton \<Rightarrow> sg_bitset \<Rightarrow> sg_plan_result \<Rightarrow> sg_plan_result res" where
  "sg_fill_plan_metrics automaton initial result =
     rbind (sg_trace_partition_init initial) (\<lambda>source.
     rbind (sg_trace_partition_apply_word automaton source (pr_word result)) (\<lambda>final.
     let (best, worst, total) = sg_trace_metrics final
     in Inr (result\<lparr>pr_best_support_size := best, pr_worst_support_size := worst,
                    pr_branch_count := length final, pr_homing := (worst \<le> 1)\<rparr>)))"

section \<open>Support partitions\<close>

type_synonym sg_support_partition = "sg_bitset list"

text \<open>The insertion point: past every stored support that is not larger, scanning from the end.\<close>

function sg_support_insert_position :: "sg_support_partition \<Rightarrow> sg_bitset \<Rightarrow> nat \<Rightarrow> nat" where
  "sg_support_insert_position supports support position =
     (if position > 0 \<and> sg_bitset_compare support (supports ! (position - 1)) < 0
      then sg_support_insert_position supports support (position - 1)
      else position)"
  by pat_completeness auto
termination
  by (relation "measure (\<lambda>(supports, support, position). position)") auto

declare sg_support_insert_position.simps [simp del]

definition sg_support_partition_add :: "sg_support_partition \<Rightarrow> sg_bitset \<Rightarrow> sg_support_partition" where
  "sg_support_partition_add parts support =
     (if list_ex (\<lambda>stored. sg_bitset_equal stored support) parts then parts
      else let position = sg_support_insert_position parts support (length parts)
           in take position parts @ support # drop position parts)"

definition sg_support_partition_init :: "sg_bitset \<Rightarrow> sg_support_partition res" where
  "sg_support_partition_init initial =
     rbind (sg_bitset_copy initial) (\<lambda>copy. Inr (sg_support_partition_add [] copy))"

definition sg_support_partition_worst :: "sg_support_partition \<Rightarrow> nat" where
  "sg_support_partition_worst parts =
     foldl (\<lambda>worst support. if sg_bitset_count support > worst then sg_bitset_count support else worst)
       0 parts"

definition sg_support_partition_equal :: "sg_support_partition \<Rightarrow> sg_support_partition \<Rightarrow> bool" where
  "sg_support_partition_equal first second \<longleftrightarrow>
     length first = length second \<and>
     list_all (\<lambda>index. sg_bitset_equal (first ! index) (second ! index)) [0..<length first]"

definition sg_support_partition_split_support ::
  "sg_automaton \<Rightarrow> nat \<Rightarrow> sg_bitset \<Rightarrow> sg_support_partition \<Rightarrow> sg_support_partition res" where
  "sg_support_partition_split_support automaton action support destination =
     rbind (sg_group_states automaton support action) (\<lambda>groups.
     Inr (foldl (\<lambda>dest output.
            case groups ! output of
              None \<Rightarrow> dest
            | Some members \<Rightarrow> sg_support_partition_add dest members)
          destination [0..<au_output_count automaton]))"

definition sg_support_partition_apply_action ::
  "sg_automaton \<Rightarrow> sg_support_partition \<Rightarrow> nat \<Rightarrow> sg_support_partition res" where
  "sg_support_partition_apply_action automaton source action =
     fold_res (sg_support_partition_split_support automaton action) source []"

section \<open>The specification\<close>

definition trace_branch :: "sg_automaton \<Rightarrow> nat set \<Rightarrow> nat list \<Rightarrow> nat list \<Rightarrow> nat set" where
  "trace_branch A H w t = (\<lambda>s. run_word A s w) ` {s \<in> H. output_trace A s w = t}"

definition trace_set :: "sg_automaton \<Rightarrow> nat set \<Rightarrow> nat list \<Rightarrow> nat list set" where
  "trace_set A H w = (\<lambda>s. output_trace A s w) ` H"

text \<open>The successors of a set under an action that show a given output.\<close>

definition observed_step :: "sg_automaton \<Rightarrow> nat set \<Rightarrow> nat \<Rightarrow> nat \<Rightarrow> nat set" where
  "observed_step A S a out = (\<lambda>s. delta A s a) ` {s \<in> S. eta A s a = out}"

lemma trace_branch_Nil [simp]: "trace_branch A H [] t = (if t = [] then H else {})"
  by (auto simp: trace_branch_def)

lemma trace_branch_snoc:
  "trace_branch A H (w @ [a]) (t @ [out]) = observed_step A (trace_branch A H w t) a out"
  by (auto simp: trace_branch_def observed_step_def image_iff)

lemma trace_set_snoc:
  "t' \<in> trace_set A H (w @ [a]) \<longleftrightarrow>
   (\<exists>t out. t' = t @ [out] \<and> t \<in> trace_set A H w \<and> observed_step A (trace_branch A H w t) a out \<noteq> {})"
  by (fastforce simp: trace_set_def trace_branch_def observed_step_def image_iff)

lemma trace_set_Nil [simp]: "trace_set A H [] = (if H = {} then {} else {[]})"
  by (auto simp: trace_set_def)

lemma trace_branch_nonempty: "trace_branch A H w t \<noteq> {} \<longleftrightarrow> t \<in> trace_set A H w"
  by (auto simp: trace_branch_def trace_set_def)

lemma trace_branch_union: "motion_image A H w = (\<Union>t \<in> trace_set A H w. trace_branch A H w t)"
  by (auto simp: motion_image_def trace_branch_def trace_set_def)

lemma trace_branch_bound:
  "wf_automaton A \<Longrightarrow> H \<subseteq> {..<au_state_count A} \<Longrightarrow> word_ok A w \<Longrightarrow>
   trace_branch A H w t \<subseteq> {..<au_state_count A}"
  by (auto simp: trace_branch_def run_word_less)

section \<open>Grouping computes the observed successors\<close>

text \<open>What \<open>groups\<close> holds after the states of \<open>xs\<close> have been handled.\<close>

definition groups_ok :: "sg_automaton \<Rightarrow> nat set \<Rightarrow> nat \<Rightarrow> sg_bitset option list \<Rightarrow> bool" where
  "groups_ok A S a groups \<longleftrightarrow>
     length groups = au_output_count A \<and>
     (\<forall>out < au_output_count A.
        case groups ! out of
          None \<Rightarrow> observed_step A S a out = {}
        | Some g \<Rightarrow> support_ok A g \<and> bitset_set g = observed_step A S a out \<and> bitset_set g \<noteq> {})"

lemma observed_step_insert:
  "observed_step A (insert s S) a out =
     (if eta A s a = out then insert (delta A s a) (observed_step A S a out)
      else observed_step A S a out)"
  by (auto simp: observed_step_def)

lemma sg_group_state_step:
  assumes wf: "wf_automaton A" and a: "a < au_action_count A" and src: "support_ok A src"
    and s: "s < au_state_count A" and g: "groups_ok A (bitset_set src \<inter> X) a groups"
  shows "\<exists>groups'. sg_group_state A src a s groups = Inr groups' \<and>
    groups_ok A (bitset_set src \<inter> insert s X) a groups'"
proof (cases "s \<in> bitset_set src")
  case False
  then have "\<not> sg_bitset_has src s"
    using src s by (simp add: support_ok_def sg_bitset_has_iff)
  with False g show ?thesis by (simp add: sg_group_state_def)
next
  case True
  define out where "out = eta A s a"
  define S where "S = bitset_set src \<inter> X"
  have has: "sg_bitset_has src s" using True src s by (simp add: support_ok_def sg_bitset_has_iff)
  have out: "out < au_output_count A" unfolding out_def using wf s a by (rule observation_less)
  have t: "delta A s a < au_state_count A" using wf s a by (rule transition_less)
  have ins: "bitset_set src \<inter> insert s X = insert s S" using True by (auto simp: S_def)
  define base where "base = (case groups ! out of None \<Rightarrow> sg_bitset_zero (au_state_count A) | Some g \<Rightarrow> g)"
  have base: "support_ok A base" "bitset_set base = observed_step A S a out"
    using g out wf by (auto simp: base_def groups_ok_def S_def split: option.splits)
  let ?g = "sg_bitset_add base (delta A s a)"
  have new: "support_ok A ?g" "bitset_set ?g = insert (delta A s a) (observed_step A S a out)"
    using base t by (auto simp: support_ok_def sg_bitset_add_ok sg_bitset_add_set)
  have step: "observed_step A (insert s S) a o' = (if o' = out
      then insert (delta A s a) (observed_step A S a out) else observed_step A S a o')" for o'
    by (auto simp: observed_step_insert out_def)
  have "sg_group_state A src a s groups = Inr (groups[out := Some ?g])"
    using has wf by (simp add: sg_group_state_def Let_def out_def base_def wf_automatonD
        split: option.splits)
  moreover have "groups_ok A (insert s S) a (groups[out := Some ?g])"
    unfolding groups_ok_def
  proof (intro conjI allI impI)
    show "length (groups[out := Some ?g]) = au_output_count A" using g by (simp add: groups_ok_def)
  next
    fix o' assume o': "o' < au_output_count A"
    show "case groups[out := Some ?g] ! o' of None \<Rightarrow> observed_step A (insert s S) a o' = {}
        | Some g \<Rightarrow> support_ok A g \<and> bitset_set g = observed_step A (insert s S) a o' \<and> bitset_set g \<noteq> {}"
    proof (cases "o' = out")
      case True
      then show ?thesis using new g out step[of out] by (simp add: groups_ok_def)
    next
      case False
      have "observed_step A (insert s S) a o' = observed_step A S a o'" using False step[of o'] by simp
      moreover have "groups[out := Some ?g] ! o' = groups ! o'" using False by simp
      moreover have "groups_ok A S a groups" using g by (simp add: S_def)
      ultimately show ?thesis using o' by (auto simp: groups_ok_def split: option.splits)
    qed
  qed
  ultimately show ?thesis using ins by auto
qed

lemma sg_group_states_loop:
  assumes "wf_automaton A" "a < au_action_count A" "support_ok A src"
    and "groups_ok A (bitset_set src \<inter> X) a groups" and "set xs \<subseteq> {..<au_state_count A}"
  shows "\<exists>groups'. fold_res (sg_group_state A src a) xs groups = Inr groups' \<and>
    groups_ok A (bitset_set src \<inter> (X \<union> set xs)) a groups'"
  using assms(4,5)
proof (induction xs arbitrary: X groups)
  case (Cons s xs)
  then obtain groups' where g: "sg_group_state A src a s groups = Inr groups'"
      "groups_ok A (bitset_set src \<inter> insert s X) a groups'"
    using sg_group_state_step[OF assms(1-3), of s X groups] by auto
  from Cons.IH[OF g(2)] Cons.prems g(1) show ?case by auto
qed simp

lemma sg_group_states_ok:
  assumes "wf_automaton A" "a < au_action_count A" "support_ok A src"
  shows "\<exists>groups. sg_group_states A src a = Inr groups \<and> groups_ok A (bitset_set src) a groups"
proof -
  have "groups_ok A (bitset_set src \<inter> {}) a (replicate (au_output_count A) None)"
    by (simp add: groups_ok_def observed_step_def)
  from sg_group_states_loop[OF assms this, of "[0..<au_state_count A]"]
  have "\<exists>groups. sg_group_states A src a = Inr groups \<and>
      groups_ok A (bitset_set src \<inter> {..<au_state_count A}) a groups"
    by (simp add: sg_group_states_def lessThan_atLeast0)
  moreover have "bitset_set src \<inter> {..<au_state_count A} = bitset_set src"
    using support_okD(2)[OF assms(3)] by blast
  ultimately show ?thesis by simp
qed

section \<open>The trace partition\<close>

definition trace_partition_ok :: "sg_automaton \<Rightarrow> nat set \<Rightarrow> nat list \<Rightarrow> sg_trace_partition \<Rightarrow> bool" where
  "trace_partition_ok A H w P \<longleftrightarrow>
     distinct (map tb_trace P) \<and> tb_trace ` set P = trace_set A H w \<and>
     (\<forall>b \<in> set P. support_ok A (tb_support b) \<and> bitset_set (tb_support b) = trace_branch A H w (tb_trace b))"

text \<open>The branches one old branch gives, as a list in output order.\<close>

definition new_branches :: "nat list \<Rightarrow> sg_bitset option list \<Rightarrow> nat \<Rightarrow> sg_trace_partition" where
  "new_branches t groups k = concat (map (\<lambda>out. case groups ! out of None \<Rightarrow> []
     | Some g \<Rightarrow> [\<lparr>tb_support = g, tb_trace = t @ [out]\<rparr>]) [0..<k])"

lemma new_branches_fold:
  "foldl (\<lambda>dest out. case groups ! out of None \<Rightarrow> dest
     | Some g \<Rightarrow> sg_trace_partition_add dest g t out) dest [0..<k] = dest @ new_branches t groups k"
  by (induction k) (auto simp: new_branches_def sg_trace_partition_add_def split: option.splits)

lemma new_branches_set:
  "b \<in> set (new_branches t groups k) \<longleftrightarrow>
   (\<exists>out<k. groups ! out = Some (tb_support b) \<and> tb_trace b = t @ [out])"
  by (cases b) (auto simp: new_branches_def split: option.splits)

lemma new_branches_distinct: "distinct (map tb_trace (new_branches t groups k))"
proof (induction k)
  case (Suc k)
  have "new_branches t groups (Suc k) = new_branches t groups k @
      (case groups ! k of None \<Rightarrow> [] | Some g \<Rightarrow> [\<lparr>tb_support = g, tb_trace = t @ [k]\<rparr>])"
    by (simp add: new_branches_def)
  with Suc show ?case by (auto simp: new_branches_set split: option.splits)
qed (simp add: new_branches_def)

text \<open>The branches that splitting \<open>p\<close> adds.\<close>

definition split_branch :: "sg_automaton \<Rightarrow> nat \<Rightarrow> sg_trace_branch \<Rightarrow> sg_trace_branch \<Rightarrow> bool" where
  "split_branch A a p b \<longleftrightarrow>
     (\<exists>out < au_output_count A. tb_trace b = tb_trace p @ [out] \<and> support_ok A (tb_support b) \<and>
       bitset_set (tb_support b) = observed_step A (bitset_set (tb_support p)) a out \<and>
       bitset_set (tb_support b) \<noteq> {})"

lemma groups_ok_nth:
  assumes "groups_ok A S a groups" "out < au_output_count A" "support_ok A g"
  shows "groups ! out = Some g \<longleftrightarrow> bitset_set g = observed_step A S a out \<and> bitset_set g \<noteq> {}"
proof (cases "groups ! out")
  case None
  with assms show ?thesis by (auto simp: groups_ok_def)
next
  case (Some m)
  then have "support_ok A m" "bitset_set m = observed_step A S a out" "bitset_set m \<noteq> {}"
    using assms(1,2) by (auto simp: groups_ok_def)
  with assms(3) Some show ?thesis by (auto simp: support_ok_def bitset_ok_eq_iff)
qed

lemma groups_ok_None:
  assumes "groups_ok A S a groups" "out < au_output_count A" "groups ! out = None"
  shows "observed_step A S a out = {}"
proof -
  have "case groups ! out of None \<Rightarrow> observed_step A S a out = {}
      | Some g \<Rightarrow> support_ok A g \<and> bitset_set g = observed_step A S a out \<and> bitset_set g \<noteq> {}"
    using assms(1,2) unfolding groups_ok_def by blast
  with assms(3) show ?thesis by simp
qed

lemma groups_ok_Some:
  assumes "groups_ok A S a groups" "out < au_output_count A" "groups ! out = Some g"
  shows "support_ok A g" "bitset_set g = observed_step A S a out" "observed_step A S a out \<noteq> {}"
proof -
  have "case groups ! out of None \<Rightarrow> observed_step A S a out = {}
      | Some g \<Rightarrow> support_ok A g \<and> bitset_set g = observed_step A S a out \<and> bitset_set g \<noteq> {}"
    using assms(1,2) unfolding groups_ok_def by blast
  with assms(3) show "support_ok A g" "bitset_set g = observed_step A S a out" "observed_step A S a out \<noteq> {}"
    by auto
qed

lemma new_branches_split:
  assumes "groups_ok A (bitset_set (tb_support p)) a groups"
  shows "b \<in> set (new_branches (tb_trace p) groups (au_output_count A)) \<longleftrightarrow> split_branch A a p b"
  unfolding new_branches_set split_branch_def
  using groups_ok_nth[OF assms] groups_ok_Some(1)[OF assms] by metis

lemma split_branch_trace: "split_branch A a p b \<Longrightarrow> butlast (tb_trace b) = tb_trace p"
  by (auto simp: split_branch_def)

text \<open>
  Handling the branches one by one: the destination holds the branches of the handled ones.
\<close>

lemma split_branches_loop:
  assumes wf: "wf_automaton A" and a: "a < au_action_count A"
    and "\<forall>b \<in> set P. support_ok A (tb_support b)" "distinct (map tb_trace P)"
    and "distinct (map tb_trace dest)" "\<forall>b \<in> set dest. butlast (tb_trace b) \<notin> tb_trace ` set P"
  shows "\<exists>Q. fold_res (sg_trace_partition_split_branch A a) P dest = Inr Q \<and>
    distinct (map tb_trace Q) \<and>
    set Q = set dest \<union> {b. \<exists>p \<in> set P. split_branch A a p b}"
  using assms(3-)
proof (induction P arbitrary: dest)
  case Nil
  then show ?case by simp
next
  case (Cons p P)
  obtain groups where g: "sg_group_states A (tb_support p) a = Inr groups"
      "groups_ok A (bitset_set (tb_support p)) a groups"
    using sg_group_states_ok[OF wf a] Cons.prems(1) by auto
  define new where "new = new_branches (tb_trace p) groups (au_output_count A)"
  have new: "set new = {b. split_branch A a p b}"
    unfolding new_def using new_branches_split[OF g(2)] by blast
  have step: "sg_trace_partition_split_branch A a p dest = Inr (dest @ new)"
    by (simp add: sg_trace_partition_split_branch_def g(1) new_branches_fold new_def)
  have "tb_trace b \<noteq> tb_trace b'" if "b \<in> set dest" "b' \<in> set new" for b b'
    using that Cons.prems(4) split_branch_trace[of A a p b'] by (auto simp: new)
  then have "tb_trace ` set dest \<inter> tb_trace ` set new = {}" by blast
  moreover have "distinct (map tb_trace new)" unfolding new_def by (rule new_branches_distinct)
  ultimately have 1: "distinct (map tb_trace (dest @ new))" using Cons.prems(3) by simp
  have 2: "\<forall>b \<in> set (dest @ new). butlast (tb_trace b) \<notin> tb_trace ` set P"
    using Cons.prems(2,4) split_branch_trace[of A a p] by (auto simp: new)
  have "\<exists>Q. fold_res (sg_trace_partition_split_branch A a) P (dest @ new) = Inr Q \<and>
      distinct (map tb_trace Q) \<and> set Q = set (dest @ new) \<union> {b. \<exists>p \<in> set P. split_branch A a p b}"
    by (rule Cons.IH) (use Cons.prems 1 2 in auto)
  with step new show ?case by auto
qed

lemma sg_trace_partition_apply_action:
  assumes wf: "wf_automaton A" and a: "a < au_action_count A" and P: "trace_partition_ok A H w P"
    and H: "H \<subseteq> {..<au_state_count A}"
  shows "\<exists>Q. sg_trace_partition_apply_action A P a = Inr Q \<and> trace_partition_ok A H (w @ [a]) Q"
proof -
  obtain Q where Q: "sg_trace_partition_apply_action A P a = Inr Q" "distinct (map tb_trace Q)"
      "set Q = {b. \<exists>p \<in> set P. split_branch A a p b}"
    using split_branches_loop[OF wf a, of P "[]"] P
    by (auto simp: trace_partition_ok_def sg_trace_partition_apply_action_def)
  have sets: "bitset_set (tb_support p) = trace_branch A H w (tb_trace p)" if "p \<in> set P" for p
    using that P by (simp add: trace_partition_ok_def)
  have sup: "support_ok A (tb_support b) \<and>
      bitset_set (tb_support b) = trace_branch A H (w @ [a]) (tb_trace b) \<and>
      tb_trace b \<in> trace_set A H (w @ [a])" if "b \<in> set Q" for b
  proof -
    from that Q(3) obtain p' where p': "p' \<in> set P" "split_branch A a p' b" by auto
    from p'(2) obtain out where "tb_trace b = tb_trace p' @ [out]"
        "support_ok A (tb_support b)" "bitset_set (tb_support b) \<noteq> {}"
        "bitset_set (tb_support b) = observed_step A (bitset_set (tb_support p')) a out"
      unfolding split_branch_def by blast
    note p = p'(1) this
    then have "bitset_set (tb_support b) = trace_branch A H (w @ [a]) (tb_trace b)"
      by (simp add: trace_branch_snoc sets)
    with p(3,4) show ?thesis by (auto simp: trace_branch_nonempty[symmetric])
  qed
  have "t \<in> tb_trace ` set Q" if t: "t \<in> trace_set A H (w @ [a])" for t
  proof -
    from t obtain t' out where t': "t = t' @ [out]" "t' \<in> trace_set A H w"
        "observed_step A (trace_branch A H w t') a out \<noteq> {}"
      by (auto simp: trace_set_snoc)
    have "t' \<in> tb_trace ` set P" using P t'(2) by (simp add: trace_partition_ok_def)
    then obtain p where p: "p \<in> set P" "tb_trace p = t'" by blast
    have ps: "support_ok A (tb_support p)" using p(1) P by (simp add: trace_partition_ok_def)
    obtain groups where g: "groups_ok A (bitset_set (tb_support p)) a groups"
      using sg_group_states_ok[OF wf a ps] by blast
    have out: "out < au_output_count A"
      using t'(3) trace_branch_bound[OF wf H] ps support_okD(2)[OF ps] sets[OF p(1)] p(2) wf a
      by (auto simp: observed_step_def observation_less)
    then obtain g' where "groups ! out = Some g'"
      using g t'(3) sets[OF p(1)] p(2) by (fastforce simp: groups_ok_def split: option.splits)
    then have "split_branch A a p \<lparr>tb_support = g', tb_trace = t\<rparr>"
      using g out t'(1) p(2) groups_ok_nth[OF g out] groups_ok_Some(1)[OF g out]
      by (auto simp: split_branch_def)
    with Q(3) p(1) show ?thesis by force
  qed
  with Q sup show ?thesis by (auto simp: trace_partition_ok_def)
qed

lemma trace_partition_ok_init:
  assumes "wf_automaton A" "support_ok A init" "bitset_set init \<noteq> {}"
  shows "\<exists>P. sg_trace_partition_init init = Inr P \<and> P = [\<lparr>tb_support = init, tb_trace = []\<rparr>] \<and>
    trace_partition_ok A (bitset_set init) [] P"
  using assms by (simp add: sg_trace_partition_init_def trace_partition_ok_def support_ok_def)

lemma sg_trace_partition_word_loop:
  assumes wf: "wf_automaton A" and H: "H \<subseteq> {..<au_state_count A}"
    and w: "word_ok A w" and P: "trace_partition_ok A H v P"
  shows "\<exists>Q. sg_trace_partition_word_loop A w P = Inr Q \<and> trace_partition_ok A H (v @ w) Q"
  using w P
proof (induction w arbitrary: v P)
  case Nil
  then show ?case by simp
next
  case (Cons a w)
  then obtain P' where P': "sg_trace_partition_apply_action A P a = Inr P'"
      "trace_partition_ok A H (v @ [a]) P'"
    using sg_trace_partition_apply_action[OF wf _ _ H, of a v P] by auto
  with Cons.IH[OF _ P'(2)] Cons.prems(1) show ?case by auto
qed

lemma sg_trace_partition_apply_word:
  assumes wf: "wf_automaton A" and init: "support_ok A init" "bitset_set init \<noteq> {}"
    and w: "word_ok A w"
  shows "\<exists>Q. sg_trace_partition_apply_word A [\<lparr>tb_support = init, tb_trace = []\<rparr>] w = Inr Q \<and>
    trace_partition_ok A (bitset_set init) w Q"
proof -
  have "\<exists>Q. sg_trace_partition_word_loop A w [\<lparr>tb_support = init, tb_trace = []\<rparr>] = Inr Q \<and>
      trace_partition_ok A (bitset_set init) ([] @ w) Q"
    by (rule sg_trace_partition_word_loop[OF wf support_okD(2)[OF init(1)] w])
      (use trace_partition_ok_init[OF wf init] in simp)
  with trace_partition_ok_init[OF wf init] show ?thesis
    by (simp add: sg_trace_partition_apply_word_def)
qed

section \<open>Plan metrics\<close>

definition homing_word :: "sg_automaton \<Rightarrow> nat set \<Rightarrow> nat list \<Rightarrow> bool" where
  "homing_word A H w \<longleftrightarrow>
     (\<forall>s \<in> H. \<forall>t \<in> H. output_trace A s w = output_trace A t w \<longrightarrow> run_word A s w = run_word A t w)"

lemma foldl_best: "foldl (\<lambda>best c. if c < best then c else best) b cs = Min (insert b (set cs))"
  for b :: nat
proof (induction cs arbitrary: b)
  case (Cons c cs)
  have "insert (if c < b then c else b) (set cs) = (if c < b then insert c (set cs) else insert b (set cs))"
    by simp
  moreover have "Min (insert b (set (c # cs))) = min b (Min (insert c (set cs)))" by simp
  moreover have "Min (insert b (set cs)) = min b (Min (insert b (set cs)))" by (cases cs) auto
  ultimately show ?case
    by (cases "cs = []") (auto simp: Cons.IH min_def)
qed simp

lemma foldl_worst: "foldl (\<lambda>worst c. if c > worst then c else worst) b cs = Max (insert b (set cs))"
  for b :: nat
proof (induction cs arbitrary: b)
  case (Cons c cs)
  show ?case
    by (cases "cs = []") (auto simp: Cons.IH max_def)
qed simp

lemma foldl_triple:
  "foldl (\<lambda>(x, y, z) b. (f x b, g y b, h z b)) (x, y, z) bs = (foldl f x bs, foldl g y bs, foldl h z bs)"
  by (induction bs arbitrary: x y z) simp_all

lemma foldl_map_fun: "foldl (\<lambda>x b. f x (c b)) x bs = foldl f x (map c bs)"
  by (induction bs arbitrary: x) simp_all

lemma sg_trace_metrics_eq:
  assumes "parts \<noteq> []" "\<forall>b \<in> set parts. sg_bitset_count (tb_support b) \<le> SIZE_MAX"
  shows "\<exists>total. sg_trace_metrics (parts :: sg_trace_partition) =
    (Min ((\<lambda>b. sg_bitset_count (tb_support b)) ` set parts),
     Max ((\<lambda>b. sg_bitset_count (tb_support b)) ` set parts), total)"
proof -
  define cs where "cs = map (\<lambda>b. sg_bitset_count (tb_support b)) parts"
  have cs: "cs \<noteq> []" "set cs = (\<lambda>b. sg_bitset_count (tb_support b)) ` set parts"
    using assms(1) by (auto simp: cs_def)
  have "Min (set cs) \<in> set cs" using cs(1) by (simp add: Min_in)
  then have "Min (set cs) \<le> SIZE_MAX" using assms(2) unfolding cs(2) by auto
  then have "Min (insert SIZE_MAX (set cs)) = Min (set cs)" using cs(1) by simp
  moreover have "Max (insert 0 (set cs)) = Max (set cs)" using cs(1) by simp
  moreover define f where "f = (\<lambda>x (b :: sg_trace_branch). if sg_bitset_count (tb_support b) < x
      then sg_bitset_count (tb_support b) else x)"
  moreover define g where "g = (\<lambda>x (b :: sg_trace_branch). if x < sg_bitset_count (tb_support b)
      then sg_bitset_count (tb_support b) else x)"
  moreover define h where "h = (\<lambda>x (b :: sg_trace_branch). x + sg_bitset_count (tb_support b))"
  moreover have "foldl f SIZE_MAX parts = foldl (\<lambda>x c. if c < x then c else x) SIZE_MAX cs"
    by (simp only: cs_def f_def foldl_map)
  moreover have "foldl g 0 parts = foldl (\<lambda>x c. if x < c then c else x) 0 cs"
    by (simp only: cs_def g_def foldl_map)
  ultimately have fold: "foldl (\<lambda>(x, y, z) b. (f x b, g y b, h z b)) (SIZE_MAX, 0, 0) parts =
      (Min (set cs), Max (set cs), foldl h 0 parts)"
    by (simp only: foldl_triple foldl_best foldl_worst)
  have "sg_trace_metrics parts = (Min (set cs), Max (set cs), foldl h 0 parts)"
    using fold assms(1) by (simp add: sg_trace_metrics_def Let_def f_def g_def h_def)
  then show ?thesis using cs(2) by simp
qed

lemma trace_partition_counts:
  assumes "trace_partition_ok A H w P"
  shows "(\<lambda>b. sg_bitset_count (tb_support b)) ` set P = (\<lambda>t. card (trace_branch A H w t)) ` trace_set A H w"
    and "length P = card (trace_set A H w)"
proof -
  have P: "distinct (map tb_trace P)" "trace_set A H w = tb_trace ` set P"
    "\<forall>b \<in> set P. support_ok A (tb_support b) \<and> bitset_set (tb_support b) = trace_branch A H w (tb_trace b)"
    using assms by (auto simp: trace_partition_ok_def)
  have "sg_bitset_count (tb_support b) = card (trace_branch A H w (tb_trace b))" if "b \<in> set P" for b
    using P(3) that bits.count_card[of "au_state_count A" "tb_support b"] by (auto simp: support_ok_def)
  then show "(\<lambda>b. sg_bitset_count (tb_support b)) ` set P = (\<lambda>t. card (trace_branch A H w t)) ` trace_set A H w"
    unfolding P(2) image_image by (rule image_cong[OF refl])
  show "length P = card (trace_set A H w)"
    using P(1) distinct_card[OF P(1)] by (simp add: P(2))
qed

lemma homing_worst:
  assumes "finite H"
  shows "(\<forall>t \<in> trace_set A H w. card (trace_branch A H w t) \<le> 1) \<longleftrightarrow> homing_word A H w"
proof -
  have "card (trace_branch A H w t) \<le> 1 \<longleftrightarrow>
      (\<forall>x \<in> trace_branch A H w t. \<forall>y \<in> trace_branch A H w t. x = y)" for t
    using assms by (simp add: trace_branch_def card_le_Suc0_iff_eq)
  then have "(\<forall>t \<in> trace_set A H w. card (trace_branch A H w t) \<le> 1) \<longleftrightarrow>
      (\<forall>t \<in> trace_set A H w. \<forall>x \<in> trace_branch A H w t. \<forall>y \<in> trace_branch A H w t. x = y)"
    by (simp only:)
  also have "\<dots> \<longleftrightarrow> homing_word A H w"
    unfolding homing_word_def
  proof (intro iffI ballI impI)
    fix s s'
    assume *: "\<forall>t \<in> trace_set A H w. \<forall>x \<in> trace_branch A H w t. \<forall>y \<in> trace_branch A H w t. x = y"
      and "s \<in> H" "s' \<in> H" "output_trace A s w = output_trace A s' w"
    then have "run_word A s w \<in> trace_branch A H w (output_trace A s w)"
        "run_word A s' w \<in> trace_branch A H w (output_trace A s w)"
        "output_trace A s w \<in> trace_set A H w"
      unfolding trace_branch_def trace_set_def by blast+
    with * show "run_word A s w = run_word A s' w" by blast
  next
    fix t x y
    assume *: "\<forall>s\<in>H. \<forall>s'\<in>H. output_trace A s w = output_trace A s' w \<longrightarrow> run_word A s w = run_word A s' w"
      and "x \<in> trace_branch A H w t" "y \<in> trace_branch A H w t"
    then obtain s where s: "s \<in> H" "x = run_word A s w" "output_trace A s w = t"
      unfolding trace_branch_def by blast
    from \<open>y \<in> trace_branch A H w t\<close> obtain s' where
        s': "s' \<in> H" "y = run_word A s' w" "output_trace A s' w = t"
      unfolding trace_branch_def by blast
    from s(3) s'(3) have "output_trace A s w = output_trace A s' w" by (simp only:)
    with * s(1) s'(1) have "run_word A s w = run_word A s' w" by blast
    then show "x = y" by (simp only: s(2) s'(2))
  qed
  finally show ?thesis .
qed

text \<open>The metrics of a word from a set of states, in terms of its branches.\<close>

definition branch_sizes :: "sg_automaton \<Rightarrow> nat set \<Rightarrow> nat list \<Rightarrow> nat set" where
  "branch_sizes A H w = (\<lambda>t. card (trace_branch A H w t)) ` trace_set A H w"

definition plan_metrics :: "sg_automaton \<Rightarrow> nat set \<Rightarrow> sg_plan_result \<Rightarrow> sg_plan_result" where
  "plan_metrics A H r = r\<lparr>
     pr_best_support_size := Min (branch_sizes A H (pr_word r)),
     pr_worst_support_size := Max (branch_sizes A H (pr_word r)),
     pr_branch_count := card (trace_set A H (pr_word r)),
     pr_homing := homing_word A H (pr_word r)\<rparr>"

lemma plan_metrics_simps [simp]:
  "pr_outcome (plan_metrics A H r) = pr_outcome r" "pr_method (plan_metrics A H r) = pr_method r"
  "pr_word (plan_metrics A H r) = pr_word r" "pr_final_state (plan_metrics A H r) = pr_final_state r"
  "pr_final_support_size (plan_metrics A H r) = pr_final_support_size r"
  "pr_expansions (plan_metrics A H r) = pr_expansions r"
  "pr_generation (plan_metrics A H r) = pr_generation r"
  "pr_best_support_size (plan_metrics A H r) = Min (branch_sizes A H (pr_word r))"
  "pr_worst_support_size (plan_metrics A H r) = Max (branch_sizes A H (pr_word r))"
  "pr_branch_count (plan_metrics A H r) = card (trace_set A H (pr_word r))"
  "pr_homing (plan_metrics A H r) = homing_word A H (pr_word r)"
  by (simp_all add: plan_metrics_def)

lemma sg_fill_plan_metrics_eq:
  assumes wf: "wf_automaton A" and init: "support_ok A init" "bitset_set init \<noteq> {}"
    and w: "word_ok A (pr_word r)"
  shows "sg_fill_plan_metrics A init r = Inr (plan_metrics A (bitset_set init) r)"
proof -
  let ?sizes = "branch_sizes A (bitset_set init) (pr_word r)"
  let ?H = "bitset_set init" and ?w = "pr_word r"
  obtain Q where Q: "sg_trace_partition_apply_word A [\<lparr>tb_support = init, tb_trace = []\<rparr>] ?w = Inr Q"
      "trace_partition_ok A ?H ?w Q"
    using sg_trace_partition_apply_word[OF wf init w] by blast
  have ne: "trace_set A ?H ?w \<noteq> {}" using init(2) by (simp add: trace_set_def)
  have counts: "(\<lambda>b. sg_bitset_count (tb_support b)) ` set Q = ?sizes"
    unfolding branch_sizes_def by (rule trace_partition_counts(1)[OF Q(2)])
  have "Q \<noteq> []" using counts ne by (auto simp: branch_sizes_def)
  moreover have "sg_bitset_count (tb_support b) \<le> SIZE_MAX" if "b \<in> set Q" for b
    using that Q(2) bits.count_le[of "au_state_count A" "tb_support b"] wf_automatonD(6)[OF wf]
    by (force simp: trace_partition_ok_def support_ok_def)
  ultimately obtain total where m: "sg_trace_metrics Q = (Min ?sizes, Max ?sizes, total)"
    using sg_trace_metrics_eq[of Q] counts by auto
  have fin: "finite (trace_set A ?H ?w)" using support_okD(3)[OF init(1)] by (simp add: trace_set_def)
  have "Max ?sizes \<le> 1 \<longleftrightarrow> homing_word A ?H ?w"
    using homing_worst[OF support_okD(3)[OF init(1)], of A ?w] ne fin by (simp add: branch_sizes_def)
  then show ?thesis
    using trace_partition_ok_init[OF wf init] Q(1) m trace_partition_counts(2)[OF Q(2)]
    by (simp add: sg_fill_plan_metrics_def plan_metrics_def)
qed

text \<open>C19. \<open>sg_fill_plan_metrics\<close> reports the real branches of a plan: one per output trace, the sizes
  of the smallest and the largest set of states that share a trace, and homing exactly when two
  states of the initial support with the same trace end in the same state.\<close>

theorem fill_plan_metrics_branches:
  assumes "wf_automaton A" "support_ok A init" "bitset_set init \<noteq> {}" "word_ok A (pr_word r)"
  defines "sizes \<equiv> (\<lambda>t. card (trace_branch A (bitset_set init) (pr_word r) t)) `
             trace_set A (bitset_set init) (pr_word r)"
  shows "sg_fill_plan_metrics A init r = Inr (r\<lparr>
     pr_best_support_size := Min sizes, pr_worst_support_size := Max sizes,
     pr_branch_count := card (trace_set A (bitset_set init) (pr_word r)),
     pr_homing := homing_word A (bitset_set init) (pr_word r)\<rparr>)"
  using sg_fill_plan_metrics_eq[OF assms(1-4)] by (simp add: plan_metrics_def branch_sizes_def sizes_def)

definition demo_support :: sg_bitset where
  "demo_support = \<lparr>bs_words = [7], bs_word_count = 1, bs_state_count = 3\<rparr>"

lemma demo_support_eq: "sg_bitset_from_ids 3 (Ref [0, 1, 2]) = Inr demo_support"
  by code_simp

lemma demo_support_ok: "support_ok demo_automaton demo_support" "bitset_set demo_support = {0, 1, 2}"
  using sg_bitset_from_ids_iff[of 3 "Ref [0, 1, 2]" demo_support] demo_support_eq
  by (auto simp: support_ok_def demo_automaton_def size_ok_def SIZE_MAX_def)

theorem fill_plan_metrics_branches_witness:
  "\<exists>r. sg_fill_plan_metrics demo_automaton demo_support
      ((sg_plan_result_init demo_automaton)\<lparr>pr_word := [0]\<rparr>) = Inr r \<and>
    pr_worst_support_size r = 2 \<and> pr_best_support_size r = 1 \<and> pr_branch_count r = 2 \<and> \<not> pr_homing r"
proof -
  let ?r = "(sg_plan_result_init demo_automaton)\<lparr>pr_word := [0]\<rparr>"
  let ?H = "{0, 1, 2} :: nat set"
  have w: "word_ok demo_automaton (pr_word ?r)" by code_simp
  have ne: "bitset_set demo_support \<noteq> {}" by (simp add: demo_support_ok)
  have word: "pr_word ?r = [0]" by simp
  have facts: "Min ((\<lambda>t. card (trace_branch demo_automaton ?H [0] t)) ` trace_set demo_automaton ?H [0]) = 1"
    "Max ((\<lambda>t. card (trace_branch demo_automaton ?H [0] t)) ` trace_set demo_automaton ?H [0]) = 2"
    "card (trace_set demo_automaton ?H [0]) = 2" "\<not> homing_word demo_automaton ?H [0]"
    by code_simp+
  show ?thesis
    using fill_plan_metrics_branches[OF demo_wf demo_support_ok(1) ne w]
    by (simp only: word demo_support_ok(2) facts) (simp add: facts)
qed

section \<open>Support partitions\<close>

lemma words_value_inj:
  "words_value i a = words_value i b \<Longrightarrow> j < i \<Longrightarrow> bs_words a ! j = bs_words b ! j"
proof (induction i)
  case (Suc i)
  have "\<not> bs_words a ! i < bs_words b ! i" "\<not> bs_words b ! i < bs_words a ! i"
    using words_value_top_less[of a i b] words_value_top_less[of b i a] Suc.prems(1) by auto
  then have top: "bs_words a ! i = bs_words b ! i" by simp
  with Suc.prems(1) have "words_value i a = words_value i b" by simp
  with Suc.IH top Suc.prems(2) show ?case by (cases "j = i") auto
qed simp

text \<open>The number a bitset spells: the canonical order of a partition's supports.\<close>

definition support_rank :: "sg_bitset \<Rightarrow> nat" where
  "support_rank bs = words_value (bs_word_count bs) bs"

lemma support_rank_inj:
  assumes "bitset_ok n a" "bitset_ok n b" "support_rank a = support_rank b"
  shows "a = b"
proof -
  have len: "length (bs_words a) = (n + 63) div 64" "length (bs_words b) = (n + 63) div 64"
    using assms(1,2) by (simp_all add: bitset_ok_def)
  have eq: "words_value ((n + 63) div 64) a = words_value ((n + 63) div 64) b"
    using assms by (simp add: bitset_ok_def support_rank_def)
  have "bs_words a = bs_words b"
    by (rule nth_equalityI) (simp_all only: len words_value_inj[OF eq])
  then show ?thesis by (simp add: bitset_ok_eq_iff[OF assms(1,2)] bitset_set_def)
qed

lemma sg_bitset_compare_less:
  "bitset_ok n a \<Longrightarrow> bitset_ok n b \<Longrightarrow> sg_bitset_compare a b < 0 \<longleftrightarrow> support_rank a < support_rank b"
  by (simp add: sg_bitset_compare_def support_rank_def sg_bitset_compare_from_sgn bitset_ok_def sgn_if)

definition support_partition_ok :: "sg_automaton \<Rightarrow> nat set set \<Rightarrow> sg_support_partition \<Rightarrow> bool" where
  "support_partition_ok A F P \<longleftrightarrow>
     (\<forall>b \<in> set P. support_ok A b) \<and> bitset_set ` set P = F \<and> sorted_wrt (<) (map support_rank P)"

lemma insert_position:
  assumes "\<forall>b \<in> set P. bitset_ok n b" "bitset_ok n s" "sorted_wrt (<) (map support_rank P)"
    "k \<le> length P" "\<forall>i < length P. k \<le> i \<longrightarrow> support_rank s < support_rank (P ! i)"
    "\<forall>b \<in> set P. support_rank b \<noteq> support_rank s"
  shows "sg_support_insert_position P s k \<le> length P \<and>
    (\<forall>i < length P. if i < sg_support_insert_position P s k then support_rank (P ! i) < support_rank s
       else support_rank s < support_rank (P ! i))"
  using assms(4,5)
proof (induction k)
  case 0
  then show ?case by (simp add: sg_support_insert_position.simps[of P s 0])
next
  case (Suc k)
  have ok: "bitset_ok n (P ! k)" using assms(1) Suc.prems(1) by simp
  show ?case
  proof (cases "support_rank s < support_rank (P ! k)")
    case True
    then have "sg_support_insert_position P s (Suc k) = sg_support_insert_position P s k"
      using sg_bitset_compare_less[OF assms(2) ok] by (simp add: sg_support_insert_position.simps[of P s "Suc k"])
    moreover have "\<forall>i < length P. k \<le> i \<longrightarrow> support_rank s < support_rank (P ! i)"
      using True Suc.prems(2) by (metis Suc_leI le_neq_implies_less)
    ultimately show ?thesis using Suc.IH Suc.prems(1) by simp
  next
    case False
    then have "sg_support_insert_position P s (Suc k) = Suc k"
      using sg_bitset_compare_less[OF assms(2) ok] by (simp add: sg_support_insert_position.simps[of P s "Suc k"])
    moreover have "support_rank (P ! k) < support_rank s"
      using False assms(6) Suc.prems(1) by (metis Suc_le_lessD linorder_neqE_nat nth_mem)
    moreover have "support_rank (P ! i) \<le> support_rank (P ! k)" if "i < Suc k" for i
      using that Suc.prems(1) sorted_wrt_nth_less[OF assms(3), of i k] by (cases "i = k") auto
    ultimately show ?thesis using Suc.prems by (auto simp: less_Suc_eq_le intro: le_less_trans)
  qed
qed

lemma sg_support_partition_add_ok:
  assumes P: "support_partition_ok A F P" and s: "support_ok A s"
  shows "support_partition_ok A (insert (bitset_set s) F) (sg_support_partition_add P s)"
proof (cases "s \<in> set P")
  case True
  moreover have "sg_bitset_equal s s" using s by (simp add: support_ok_def sg_bitset_equal_iff)
  ultimately have "list_ex (\<lambda>stored. sg_bitset_equal stored s) P" by (auto simp: list_ex_iff)
  then have "sg_support_partition_add P s = P" by (simp add: sg_support_partition_add_def)
  with True P show ?thesis by (auto simp: support_partition_ok_def)
next
  case False
  define k where "k = sg_support_insert_position P s (length P)"
  have ok: "\<forall>b \<in> set P. bitset_ok (au_state_count A) b" "bitset_ok (au_state_count A) s"
    using P s by (auto simp: support_partition_ok_def support_ok_def)
  have "\<not> list_ex (\<lambda>stored. sg_bitset_equal stored s) P"
    using False ok by (auto simp: list_ex_iff sg_bitset_equal_iff)
  then have add: "sg_support_partition_add P s = take k P @ s # drop k P"
    by (simp add: sg_support_partition_add_def k_def Let_def)
  have sorted: "sorted_wrt (<) (map support_rank P)" using P by (simp add: support_partition_ok_def)
  have "\<forall>b \<in> set P. support_rank b \<noteq> support_rank s"
    using False ok support_rank_inj by blast
  then have k: "k \<le> length P" "\<forall>i < length P. if i < k then support_rank (P ! i) < support_rank s
      else support_rank s < support_rank (P ! i)"
    unfolding k_def using insert_position[OF ok sorted, of "length P"] by simp_all
  have low: "support_rank b < support_rank s" if "b \<in> set (take k P)" for b
    using that k by (auto simp: in_set_conv_nth)
  have high: "support_rank s < support_rank b" if "b \<in> set (drop k P)" for b
  proof -
    from that obtain i where "i < length P - k" "b = P ! (k + i)" by (auto simp: in_set_conv_nth)
    then show ?thesis using k(2)[rule_format, of "k + i"] k(1) by simp
  qed
  have "sorted_wrt (<) (map support_rank (take k P) @ map support_rank (drop k P))"
    using sorted unfolding map_append[symmetric] by simp
  then have "sorted_wrt (<) (map support_rank (take k P @ s # drop k P))"
    using low high unfolding map_append list.map sorted_wrt_append by auto
  moreover have "set (take k P @ s # drop k P) = insert s (set P)"
    using set_append[of "take k P" "drop k P"] by auto
  ultimately show ?thesis using P s by (auto simp: add support_partition_ok_def)
qed

text \<open>The family of supports a word leaves open, and its successors under one more action.\<close>

definition support_family :: "sg_automaton \<Rightarrow> nat set \<Rightarrow> nat list \<Rightarrow> nat set set" where
  "support_family A H w = trace_branch A H w ` trace_set A H w"

definition family_step :: "sg_automaton \<Rightarrow> nat set set \<Rightarrow> nat \<Rightarrow> nat set set" where
  "family_step A F a = {observed_step A S a out | S out. S \<in> F} - {{}}"

lemma support_family_Nil: "H \<noteq> {} \<Longrightarrow> support_family A H [] = {H}"
  by (simp add: support_family_def)

lemma support_family_nonempty: "S \<in> support_family A H w \<Longrightarrow> S \<noteq> {}"
  using trace_branch_nonempty by (auto simp: support_family_def)

lemma support_family_snoc: "support_family A H (w @ [a]) = family_step A (support_family A H w) a"
proof (rule set_eqI)
  fix S
  have "S \<in> support_family A H (w @ [a]) \<longleftrightarrow>
      (\<exists>t out. t @ [out] \<in> trace_set A H (w @ [a]) \<and> S = trace_branch A H (w @ [a]) (t @ [out]))"
    unfolding support_family_def image_iff Bex_def by (metis trace_set_snoc)
  also have "\<dots> \<longleftrightarrow> (\<exists>t out. t \<in> trace_set A H w \<and> S \<noteq> {} \<and>
      S = observed_step A (trace_branch A H w t) a out)"
    by (auto simp: trace_set_snoc trace_branch_snoc)
  also have "\<dots> \<longleftrightarrow> S \<in> family_step A (support_family A H w) a"
    by (auto simp: family_step_def support_family_def)
  finally show "S \<in> support_family A H (w @ [a]) \<longleftrightarrow> S \<in> family_step A (support_family A H w) a" .
qed

lemma family_homing:
  "finite H \<Longrightarrow> (\<forall>S \<in> support_family A H w. card S \<le> 1) \<longleftrightarrow> homing_word A H w"
  by (simp add: support_family_def homing_worst[symmetric])

lemma add_groups_fold:
  assumes "support_partition_ok A F P" "groups_ok A S a groups" "k \<le> au_output_count A"
  shows "support_partition_ok A (F \<union> ({observed_step A S a out | out. out < k} - {{}}))
    (foldl (\<lambda>dest out. case groups ! out of None \<Rightarrow> dest | Some g \<Rightarrow> sg_support_partition_add dest g) P [0..<k])"
  using assms(3)
proof (induction k)
  case 0
  then show ?case using assms(1) by simp
next
  case (Suc k)
  have fam: "{observed_step A S a out | out. out < Suc k} - {{}} =
      ({observed_step A S a out | out. out < k} - {{}}) \<union> ({observed_step A S a k} - {{}})"
    by (auto simp: less_Suc_eq)
  show ?case
  proof (cases "groups ! k")
    case None
    then have "observed_step A S a k = {}" using groups_ok_None[OF assms(2)] Suc.prems by simp
    with None Suc show ?thesis by (simp add: fam)
  next
    case (Some g)
    note g = groups_ok_Some[OF assms(2) _ Some]
    have "support_partition_ok A (insert (bitset_set g) (F \<union> ({observed_step A S a out | out. out < k} - {{}})))
        (sg_support_partition_add (foldl (\<lambda>dest out. case groups ! out of None \<Rightarrow> dest
          | Some g \<Rightarrow> sg_support_partition_add dest g) P [0..<k]) g)"
      by (rule sg_support_partition_add_ok) (use Suc g(1) in auto)
    moreover have "insert (bitset_set g) (F \<union> ({observed_step A S a out | out. out < k} - {{}})) =
        F \<union> ({observed_step A S a out | out. out < Suc k} - {{}})"
      using g Suc.prems unfolding fam by auto
    ultimately show ?thesis by (simp add: Some)
  qed
qed

lemma sg_support_partition_split_support:
  assumes "wf_automaton A" "a < au_action_count A" "support_ok A s" "support_partition_ok A F P"
  shows "\<exists>Q. sg_support_partition_split_support A a s P = Inr Q \<and>
    support_partition_ok A (F \<union> family_step A {bitset_set s} a) Q"
proof -
  obtain groups where g: "sg_group_states A s a = Inr groups" "groups_ok A (bitset_set s) a groups"
    using sg_group_states_ok[OF assms(1-3)] by blast
  have "observed_step A (bitset_set s) a out = {}" if "\<not> out < au_output_count A" for out
    using that support_okD(2)[OF assms(3)] assms(1,2) by (auto simp: observed_step_def observation_less)
  then have "{observed_step A (bitset_set s) a out | out. out < au_output_count A} - {{}} =
      family_step A {bitset_set s} a"
    by (auto simp: family_step_def)
  with add_groups_fold[OF assms(4) g(2) order_refl] g(1) show ?thesis
    by (simp add: sg_support_partition_split_support_def)
qed

lemma sg_support_partition_apply_action:
  assumes wf: "wf_automaton A" and a: "a < au_action_count A" and P: "support_partition_ok A F P"
  shows "\<exists>Q. sg_support_partition_apply_action A P a = Inr Q \<and>
    support_partition_ok A (family_step A F a) Q"
proof -
  have "\<exists>Q. fold_res (sg_support_partition_split_support A a) P D = Inr Q \<and>
      support_partition_ok A (G \<union> family_step A (bitset_set ` set P) a) Q"
    if "\<forall>b \<in> set P. support_ok A b" "support_partition_ok A G D" for P G D
    using that
  proof (induction P arbitrary: G D)
    case Nil
    then show ?case by (simp add: family_step_def)
  next
    case (Cons s P)
    then have "support_ok A s" by simp
    from sg_support_partition_split_support[OF wf a this Cons.prems(2)]
    obtain D' where D': "sg_support_partition_split_support A a s D = Inr D'"
        "support_partition_ok A (G \<union> family_step A {bitset_set s} a) D'" by blast
    have "family_step A (bitset_set ` set (s # P)) a =
        family_step A {bitset_set s} a \<union> family_step A (bitset_set ` set P) a"
      by (auto simp: family_step_def)
    with Cons.IH[OF _ D'(2)] Cons.prems(1) D'(1) show ?case by (simp add: Un_assoc)
  qed
  from this[of P "{}" "[]"] P show ?thesis
    by (auto simp: sg_support_partition_apply_action_def support_partition_ok_def)
qed

lemma sg_support_partition_init_ok:
  assumes "support_ok A s"
  shows "\<exists>P. sg_support_partition_init s = Inr P \<and> support_partition_ok A {bitset_set s} P"
proof -
  have "support_partition_ok A {} []" by (simp add: support_partition_ok_def)
  from sg_support_partition_add_ok[OF this assms] assms show ?thesis
    by (simp add: sg_support_partition_init_def support_ok_def)
qed

lemma sg_support_partition_equal_iff:
  assumes "\<forall>b \<in> set P. support_ok A b" "\<forall>b \<in> set Q. support_ok A b"
  shows "sg_support_partition_equal P Q \<longleftrightarrow> P = Q"
proof -
  have "sg_bitset_equal (P ! i) (Q ! i) \<longleftrightarrow> P ! i = Q ! i" if "i < length P" "i < length Q" for i
    using assms that sg_bitset_equal_iff[of "au_state_count A" "P ! i" "Q ! i"]
    by (simp add: support_ok_def)
  then show ?thesis
    by (auto simp: sg_support_partition_equal_def list_all_iff intro: nth_equalityI)
qed

lemma support_partition_canonical:
  assumes "support_partition_ok A F P" "support_partition_ok A F Q"
  shows "P = Q"
proof -
  have sets: "set P = set Q"
  proof -
    have "b \<in> set Q" if "b \<in> set P" "support_partition_ok A F P" "support_partition_ok A F Q" for b P Q
    proof -
      from that have "bitset_set b \<in> bitset_set ` set Q" by (auto simp: support_partition_ok_def)
      then obtain b' where "b' \<in> set Q" "bitset_set b' = bitset_set b" by auto
      with that show ?thesis
        using bitset_ok_eq_iff[of "au_state_count A" b b'] by (auto simp: support_partition_ok_def support_ok_def)
    qed
    with assms show ?thesis by blast
  qed
  have "sorted_wrt (<) (map support_rank P)" "sorted_wrt (<) (map support_rank Q)"
    using assms by (simp_all add: support_partition_ok_def)
  then have "map support_rank P = map support_rank Q"
    using strict_sorted_equal[of "map support_rank P" "map support_rank Q"] sets by simp
  moreover have "inj_on support_rank (set P \<union> set Q)"
  proof (rule inj_onI)
    fix x y assume "x \<in> set P \<union> set Q" "y \<in> set P \<union> set Q" "support_rank x = support_rank y"
    moreover have "\<forall>b \<in> set P \<union> set Q. bitset_ok (au_state_count A) b"
      using assms by (auto simp: support_partition_ok_def support_ok_def)
    ultimately show "x = y" using support_rank_inj by blast
  qed
  ultimately show ?thesis by (rule map_inj_on)
qed

lemma sg_support_partition_worst_le:
  assumes "support_partition_ok A F P"
  shows "sg_support_partition_worst P \<le> k \<longleftrightarrow> (\<forall>S \<in> F. card S \<le> k)"
proof -
  have "foldl (\<lambda>worst support. if sg_bitset_count support > worst then sg_bitset_count support else worst) m P \<le> k
      \<longleftrightarrow> m \<le> k \<and> (\<forall>b \<in> set P. sg_bitset_count b \<le> k)" for m P
    by (induction P arbitrary: m) auto
  moreover have "sg_bitset_count b = card (bitset_set b)" if "b \<in> set P" for b
    using that assms by (auto simp: support_partition_ok_def support_ok_def sg_bitset_count_card)
  ultimately show ?thesis
    using assms by (auto simp: sg_support_partition_worst_def support_partition_ok_def)
qed

end
