(* ===== verification/Sync_Plan.thy ===== *)
theory Sync_Plan
  imports Sync_Subset Sync_Record_Source Sync_Partition
begin

text \<open>
  Synchronizing plans (src/planner.c): a greedy phase that merges, round after round, the pair of
  active states whose merge word leaves the fewest states, and the exact search over images when
  the greedy phase is stuck. The clock readings of a query are arguments.
\<close>

section \<open>The best merge\<close>

definition sg_sync_candidate_better :: "nat \<Rightarrow> nat \<Rightarrow> nat \<Rightarrow> nat \<Rightarrow> nat \<Rightarrow> nat \<Rightarrow> bool" where
  "sg_sync_candidate_better count len pair best_count best_length best_pair \<longleftrightarrow>
     count < best_count \<or>
     count = best_count \<and> (len < best_length \<or> len = best_length \<and> pair < best_pair)"

text \<open>The pairs of states of a bitset, in the order of the two nested loops.\<close>

definition sg_active_pairs :: "sg_automaton \<Rightarrow> sg_bitset \<Rightarrow> (nat \<times> nat) list" where
  "sg_active_pairs automaton active =
     concat (map (\<lambda>first. if \<not> sg_bitset_has active first then []
         else concat (map (\<lambda>second. if sg_bitset_has active second then [(first, second)] else [])
                [first + 1..<au_state_count automaton]))
       [0..<au_state_count automaton])"

text \<open>The best candidate so far: its count, length and pair, its word and what the word leaves.\<close>

record sg_merge_choice =
  mc_count :: nat
  mc_length :: nat
  mc_pair :: nat
  mc_word :: "nat list"
  mc_support :: sg_bitset

definition sg_merge_choice_init :: sg_merge_choice where
  "sg_merge_choice_init = \<lparr>mc_count = SG_INDEX_NONE, mc_length = SG_INDEX_NONE, mc_pair = SG_INDEX_NONE,
     mc_word = [], mc_support = \<lparr>bs_words = [], bs_word_count = 0, bs_state_count = 0\<rparr>\<rparr>"

definition sg_consider_merge ::
  "sg_automaton \<Rightarrow> sg_bitset \<Rightarrow> nat \<times> nat \<Rightarrow> nat list \<Rightarrow> sg_merge_choice \<Rightarrow> sg_merge_choice res" where
  "sg_consider_merge automaton active states word best =
     rbind (sg_apply_word_set automaton active word) (\<lambda>support.
     let count = sg_bitset_count support;
         pair = sg_pair_index (au_state_count automaton) (fst states) (snd states)
     in if sg_sync_candidate_better count (length word) pair (mc_count best) (mc_length best) (mc_pair best)
        then Inr \<lparr>mc_count = count, mc_length = length word, mc_pair = pair,
                  mc_word = word, mc_support = support\<rparr>
        else Inr best)"

definition sg_best_merge ::
  "sg_automaton \<Rightarrow> sg_pair_record_source \<Rightarrow> sg_bitset \<Rightarrow> (nat list \<times> sg_bitset) option res" where
  "sg_best_merge automaton source active =
     (let active_count = sg_bitset_count active
      in if active_count < 2 then Inr None
         else case sg_size_multiply active_count (active_count - 1) of
           None \<Rightarrow> Inl SG_ERR_ALLOC
         | Some product \<Rightarrow>
             let states = sg_active_pairs automaton active
             in rbind (sg_pair_words_load automaton (Ref source) states SG_WITNESS_MERGE) (\<lambda>cands.
                rbind (fold_res (\<lambda>index best.
                    if \<not> cd_available (cands ! index) then Inr best
                    else sg_consider_merge automaton active (states ! index) (cd_word (cands ! index)) best)
                  [0..<product div 2] sg_merge_choice_init) (\<lambda>best.
                Inr (if mc_pair best \<noteq> SG_INDEX_NONE then Some (mc_word best, mc_support best) else None))))"

section \<open>The plan\<close>

definition sg_sync_finalize ::
  "sg_automaton \<Rightarrow> sg_bitset \<Rightarrow> sg_plan_result \<Rightarrow> sg_plan_result res" where
  "sg_sync_finalize automaton initial result =
     rbind (sg_apply_word_set automaton initial (pr_word result)) (\<lambda>final.
     let result = result\<lparr>pr_final_support_size := sg_bitset_count final\<rparr>
     in if pr_final_support_size result \<noteq> 1 then Inl SG_ERR_INVALID_MODEL
        else sg_fill_plan_metrics automaton initial
               (result\<lparr>pr_final_state := sg_bitset_to_ids final ! 0\<rparr>))"

definition sg_sync_discard_plan :: "sg_plan_result \<Rightarrow> sg_plan_result" where
  "sg_sync_discard_plan result = result\<lparr>pr_word := [], pr_method := SG_METHOD_NONE,
     pr_final_state := SG_INDEX_NONE, pr_final_support_size := 0, pr_best_support_size := 0,
     pr_worst_support_size := 0, pr_branch_count := 0, pr_homing := False\<rparr>"

text \<open>
  The greedy loop. It is the same text in \<open>sg_plan_sync_with_source\<close> and \<open>sg_plan_sync_allowed\<close> but
  for the call that finds the best merge, here \<open>best_merge\<close>; \<open>None\<close> means that there is none.
\<close>

function sg_sync_greedy ::
  "(sg_bitset \<Rightarrow> (nat list \<times> sg_bitset) option res) \<Rightarrow> nat \<Rightarrow> sg_bitset \<Rightarrow> sg_plan_result \<Rightarrow>
     (sg_bitset \<times> sg_plan_result) res" where
  "sg_sync_greedy best_merge budget active result =
     (if \<not> sg_bitset_count active > 1 then Inr (active, result)
      else if pr_expansions result \<ge> budget
      then Inr (active, result\<lparr>pr_outcome := SG_OUTCOME_RESOURCE_BOUND\<rparr>)
      else case best_merge active of
             Inl status \<Rightarrow> Inl status
           | Inr None \<Rightarrow> Inr (active, result)
           | Inr (Some (witness, next)) \<Rightarrow>
               sg_sync_greedy best_merge budget next
                 (result\<lparr>pr_word := pr_word result @ witness,
                         pr_expansions := pr_expansions result + 1\<rparr>))"
  by pat_completeness auto
termination
  by (relation "measure (\<lambda>(best_merge, budget, active, result). budget - pr_expansions result)") auto

declare sg_sync_greedy.simps [simp del]

text \<open>The body that the two planners share; \<open>allowed\<close> is NULL for the full alphabet.\<close>

definition sg_sync_plan ::
  "sg_automaton \<Rightarrow> (sg_bitset \<Rightarrow> (nat list \<times> sg_bitset) option res) \<Rightarrow> nat list \<Rightarrow> nat list ptr \<Rightarrow>
     nat \<Rightarrow> 64 word \<Rightarrow> 64 word \<Rightarrow> sg_plan_result res" where
  "sg_sync_plan automaton best_merge initial_states allowed budget start end_time =
     (let result = sg_plan_result_init automaton
      in rbind (sg_bitset_from_ids (au_state_count automaton) (Ref initial_states)) (\<lambda>initial.
         rbind (sg_bitset_copy initial) (\<lambda>active.
         rbind
           (if sg_bitset_count active = 1
            then sg_sync_finalize automaton initial (result\<lparr>pr_outcome := SG_OUTCOME_ALREADY_SATISFIED\<rparr>)
            else rbind (sg_sync_greedy best_merge budget active result) (\<lambda>(active, result).
                 rbind
                   (if sg_bitset_count active = 1
                    then Inr (result\<lparr>pr_outcome := SG_OUTCOME_PLAN, pr_method := SG_METHOD_PAIR_MERGE\<rparr>)
                    else sg_subset_bfs automaton initial allowed budget (sg_sync_discard_plan result))
                   (\<lambda>result. if pr_outcome result = SG_OUTCOME_PLAN
                             then sg_sync_finalize automaton initial result else Inr result)))
           (\<lambda>result. Inr (result\<lparr>pr_planning_time_us := sg_elapsed_us start end_time\<rparr>)))))"

definition sg_plan_sync_with_source ::
  "sg_automaton ptr \<Rightarrow> sg_pair_record_source ptr \<Rightarrow> nat list ptr \<Rightarrow> nat \<Rightarrow> 64 word \<Rightarrow> 64 word \<Rightarrow>
     sg_plan_result res" where
  "sg_plan_sync_with_source automaton source initial_states budget start end_time =
     (case (automaton, source, initial_states) of
        (Ref a, Ref read, Ref ids) \<Rightarrow>
          if ids = [] \<or> budget = 0 then Inl SG_ERR_INVALID_ARGUMENT
          else sg_sync_plan a (sg_best_merge a read) ids NULL budget start end_time
      | _ \<Rightarrow> Inl SG_ERR_INVALID_ARGUMENT)"

definition sg_plan_sync_from_records ::
  "sg_automaton ptr \<Rightarrow> sg_pair_record_source ptr \<Rightarrow> nat list ptr \<Rightarrow> nat \<Rightarrow> 64 word \<Rightarrow> 64 word \<Rightarrow>
     sg_plan_result res" where
  "sg_plan_sync_from_records automaton source initial_states budget start end_time =
     sg_plan_sync_with_source automaton source initial_states budget start end_time"

text \<open>The code compares the automaton pointer with the oracle's; here the automata themselves.\<close>

definition sg_plan_sync ::
  "sg_automaton ptr \<Rightarrow> sg_pair_oracle ptr \<Rightarrow> nat list ptr \<Rightarrow> nat \<Rightarrow> 64 word \<Rightarrow> 64 word \<Rightarrow>
     sg_plan_result res" where
  "sg_plan_sync automaton oracle initial_states budget start end_time =
     (case oracle of
        NULL \<Rightarrow> Inl SG_ERR_INVALID_ARGUMENT
      | Ref orc \<Rightarrow>
          if automaton \<noteq> Ref (po_automaton orc) then Inl SG_ERR_INVALID_ARGUMENT
          else sg_plan_sync_with_source automaton (Ref (sg_oracle_record_reader orc)) initial_states
                 budget start end_time)"

section \<open>What a synchronizing plan is\<close>

text \<open>
  The contract of the planners for the states \<open>H\<close> and the letters \<open>L\<close>: a plan is a word that leads
  all of \<open>H\<close> to the state it names, with the metrics of its branches; no plan means there is no such
  word; and the budget bounds the expansions.
\<close>

definition sync_result_ok :: "sg_automaton \<Rightarrow> nat set \<Rightarrow> nat set \<Rightarrow> nat \<Rightarrow> sg_plan_result \<Rightarrow> bool" where
  "sync_result_ok A L H budget r \<longleftrightarrow>
     pr_expansions r \<le> budget \<and> pr_generation r = au_generation A \<and>
     (case pr_outcome r of
        SG_OUTCOME_PLAN \<Rightarrow> set (pr_word r) \<subseteq> L \<and> motion_image A H (pr_word r) = {pr_final_state r} \<and>
          pr_final_support_size r = 1 \<and> pr_worst_support_size r = Max (branch_sizes A H (pr_word r)) \<and>
          pr_branch_count r = card (trace_set A H (pr_word r)) \<and> pr_homing r
      | SG_OUTCOME_ALREADY_SATISFIED \<Rightarrow> pr_word r = [] \<and> H = {pr_final_state r} \<and> pr_expansions r = 0
      | SG_OUTCOME_NO_PLAN \<Rightarrow> pr_word r = [] \<and> (\<forall>w. \<not> sync_word A L H w)
      | SG_OUTCOME_RESOURCE_BOUND \<Rightarrow> pr_word r = [] \<and> pr_expansions r = budget)"

text \<open>A merge step is good when it gives a word over the letters and the image it leaves.\<close>

definition merge_step_ok ::
  "sg_automaton \<Rightarrow> nat set \<Rightarrow> (sg_bitset \<Rightarrow> (nat list \<times> sg_bitset) option res) \<Rightarrow> bool" where
  "merge_step_ok A L best_merge \<longleftrightarrow>
     (\<forall>s w t. support_ok A s \<and> best_merge s = Inr (Some (w, t)) \<longrightarrow>
        set w \<subseteq> L \<and> sg_apply_word_set A s w = Inr t)"

section \<open>The greedy phase\<close>

lemma sg_sync_greedy_ok:
  assumes wf: "wf_automaton A"
  shows "merge_step_ok A L best_merge \<Longrightarrow> sg_sync_greedy best_merge budget active r = Inr (active', r') \<Longrightarrow>
    support_ok A active \<Longrightarrow> bitset_set active = motion_image A H (pr_word r) \<Longrightarrow> set (pr_word r) \<subseteq> L \<Longrightarrow>
    pr_expansions r \<le> budget \<Longrightarrow>
    support_ok A active' \<and> bitset_set active' = motion_image A H (pr_word r') \<and> set (pr_word r') \<subseteq> L \<and>
    pr_expansions r \<le> pr_expansions r' \<and> pr_expansions r' \<le> budget \<and> pr_generation r' = pr_generation r"
proof (induction best_merge budget active r rule: sg_sync_greedy.induct)
  case (1 best_merge budget active r)
  show ?case
  proof (cases "sg_bitset_count active > 1 \<and> pr_expansions r < budget")
    case False
    then show ?thesis using "1.prems" by (auto simp: sg_sync_greedy.simps[of _ _ active] split: if_splits)
  next
    case True
    then obtain m where m: "best_merge active = Inr m"
      using "1.prems"(2) by (cases "best_merge active") (auto simp: sg_sync_greedy.simps[of _ _ active])
    show ?thesis
    proof (cases m)
      case None
      with m True "1.prems" show ?thesis by (auto simp: sg_sync_greedy.simps[of _ _ active])
    next
      case (Some wt)
      obtain w t where wt: "wt = (w, t)" by (cases wt)
      then have mw: "best_merge active = Inr (Some (w, t))" using m Some by simp
      from "1.prems"(1,3) mw
      have w: "set w \<subseteq> L" "sg_apply_word_set A active w = Inr t" by (auto simp: merge_step_ok_def)
      have t: "support_ok A t" "bitset_set t = motion_image A (bitset_set active) w"
        using sg_apply_word_set_iff[OF wf "1.prems"(3)] w(2) by auto
      show ?thesis
        using "1.IH"[OF _ _ m Some wt[symmetric]] "1.prems" True mw t w
        by (simp add: sg_sync_greedy.simps[of _ _ active] motion_image_append not_le[symmetric])
    qed
  qed
qed

text \<open>The greedy phase fails only when a merge does, and each round makes the support smaller.\<close>

definition merge_total :: "sg_automaton \<Rightarrow> (sg_bitset \<Rightarrow> (nat list \<times> sg_bitset) option res) \<Rightarrow> bool" where
  "merge_total A best_merge \<longleftrightarrow> (\<forall>s. support_ok A s \<longrightarrow> (\<exists>m. best_merge s = Inr m))"

definition merge_shrinks :: "sg_automaton \<Rightarrow> (sg_bitset \<Rightarrow> (nat list \<times> sg_bitset) option res) \<Rightarrow> bool" where
  "merge_shrinks A best_merge \<longleftrightarrow>
     (\<forall>s w t. support_ok A s \<and> best_merge s = Inr (Some (w, t)) \<longrightarrow> sg_bitset_count t < sg_bitset_count s)"

lemma sg_sync_greedy_total:
  assumes wf: "wf_automaton A"
  shows "merge_step_ok A L best_merge \<Longrightarrow> merge_total A best_merge \<Longrightarrow> support_ok A active \<Longrightarrow>
    \<exists>x. sg_sync_greedy best_merge budget active r = Inr x"
proof (induction best_merge budget active r rule: sg_sync_greedy.induct)
  case (1 best_merge budget active r)
  show ?case
  proof (cases "sg_bitset_count active > 1 \<and> pr_expansions r < budget")
    case False
    then show ?thesis by (auto simp: sg_sync_greedy.simps[of _ _ active])
  next
    case True
    obtain m where m: "best_merge active = Inr m" using "1.prems"(2,3) by (auto simp: merge_total_def)
    show ?thesis
    proof (cases m)
      case None
      with m show ?thesis by (simp add: sg_sync_greedy.simps[of _ _ active])
    next
      case (Some wt)
      obtain w t where wt: "wt = (w, t)" by (cases wt)
      then have mw: "best_merge active = Inr (Some (w, t))" using m Some by simp
      with "1.prems"(1,3) have "sg_apply_word_set A active w = Inr t" by (auto simp: merge_step_ok_def)
      then have "support_ok A t" using sg_apply_word_set_iff[OF wf "1.prems"(3)] by auto
      with "1.IH"[OF _ _ m Some wt[symmetric]] "1.prems"(1,2) True mw show ?thesis
        by (simp add: sg_sync_greedy.simps[of _ _ active] not_le[symmetric])
    qed
  qed
qed

lemma sg_sync_greedy_shrinks:
  assumes wf: "wf_automaton A"
  shows "merge_step_ok A L best_merge \<Longrightarrow> merge_shrinks A best_merge \<Longrightarrow>
    sg_sync_greedy best_merge budget active r = Inr (active', r') \<Longrightarrow> support_ok A active \<Longrightarrow>
    pr_expansions r' + sg_bitset_count active' \<le> pr_expansions r + sg_bitset_count active"
proof (induction best_merge budget active r rule: sg_sync_greedy.induct)
  case (1 best_merge budget active r)
  show ?case
  proof (cases "sg_bitset_count active > 1 \<and> pr_expansions r < budget")
    case False
    then show ?thesis using "1.prems" by (auto simp: sg_sync_greedy.simps[of _ _ active] split: if_splits)
  next
    case True
    then obtain m where m: "best_merge active = Inr m"
      using "1.prems"(3) by (cases "best_merge active") (auto simp: sg_sync_greedy.simps[of _ _ active])
    show ?thesis
    proof (cases m)
      case None
      with m True "1.prems" show ?thesis by (auto simp: sg_sync_greedy.simps[of _ _ active])
    next
      case (Some wt)
      obtain w t where wt: "wt = (w, t)" by (cases wt)
      then have mw: "best_merge active = Inr (Some (w, t))" using m Some by simp
      with "1.prems"(1,4) have "sg_apply_word_set A active w = Inr t" by (auto simp: merge_step_ok_def)
      then have t: "support_ok A t" using sg_apply_word_set_iff[OF wf "1.prems"(4)] by auto
      have less: "sg_bitset_count t < sg_bitset_count active"
        using "1.prems"(2,4) mw by (auto simp: merge_shrinks_def)
      have run: "sg_sync_greedy best_merge budget t (r\<lparr>pr_word := pr_word r @ w, pr_expansions := pr_expansions r + 1\<rparr>) =
          Inr (active', r')"
        using "1.prems"(3) True mw by (simp add: sg_sync_greedy.simps[of _ _ active])
      from "1.IH"[OF _ _ m Some wt[symmetric] "1.prems"(1,2) run t] True less show ?thesis by simp
    qed
  qed
qed

section \<open>The whole plan\<close>

lemma support_singleton:
  assumes "support_ok A s" "sg_bitset_count s = 1"
  shows "bitset_set s = {sg_bitset_to_ids s ! 0}"
proof -
  have "card (bitset_set s) = 1"
    using assms sg_bitset_count_card by (simp add: support_ok_def)
  then obtain x where "bitset_set s = {x}" by (auto simp: card_1_singleton_iff)
  then show ?thesis
    using sg_bitset_to_ids_eq[of "au_state_count A" s] assms(1) by (simp add: support_ok_def)
qed

lemma sg_sync_finalize_eq:
  assumes wf: "wf_automaton A" and init: "support_ok A init" "bitset_set init \<noteq> {}" and w: "word_ok A (pr_word r)"
    and one: "card (motion_image A (bitset_set init) (pr_word r)) = 1"
  shows "\<exists>s. sg_sync_finalize A init r =
      Inr (plan_metrics A (bitset_set init) (r\<lparr>pr_final_support_size := 1, pr_final_state := s\<rparr>)) \<and>
    motion_image A (bitset_set init) (pr_word r) = {s}"
proof -
  obtain final where f: "sg_apply_word_set A init (pr_word r) = Inr final"
    using sg_apply_word_set_exists[OF wf init(1) w] by blast
  then have fs: "support_ok A final" "bitset_set final = motion_image A (bitset_set init) (pr_word r)"
    using sg_apply_word_set_iff[OF wf init(1)] by auto
  then have c: "sg_bitset_count final = 1" using one sg_bitset_count_card by (simp add: support_ok_def)
  show ?thesis
    using f c support_singleton[OF fs(1) c] fs(2)
      sg_fill_plan_metrics_eq[OF wf init, of "r\<lparr>pr_final_support_size := 1, pr_final_state := sg_bitset_to_ids final ! 0\<rparr>"] w
    by (simp add: sg_sync_finalize_def)
qed

lemma sync_homing: "card (motion_image A H w) = 1 \<Longrightarrow> homing_word A H w"
  by (auto simp: homing_word_def motion_image_def card_1_singleton_iff)
     (metis (no_types, lifting) image_eqI singletonD)

lemma sync_result_ok_time [simp]:
  "sync_result_ok A L H budget (r\<lparr>pr_planning_time_us := t\<rparr>) \<longleftrightarrow> sync_result_ok A L H budget r"
  by (cases "pr_outcome r") (simp_all add: sync_result_ok_def)

lemma sync_plan_result:
  assumes wf: "wf_automaton A" and init: "support_ok A init" "bitset_set init \<noteq> {}"
    and L: "L \<subseteq> {..<au_action_count A}"
    and r: "sync_word A L (bitset_set init) (pr_word r)" "pr_outcome r = SG_OUTCOME_PLAN"
    and e: "pr_expansions r \<le> budget" "pr_generation r = au_generation A"
  shows "\<exists>r'. sg_sync_finalize A init r = Inr r' \<and> sync_result_ok A L (bitset_set init) budget r' \<and>
    pr_outcome r' = SG_OUTCOME_PLAN"
proof -
  have w: "word_ok A (pr_word r)" "card (motion_image A (bitset_set init) (pr_word r)) = 1"
    using r(1) L by (auto simp: sync_word_def word_ok_set)
  from sg_sync_finalize_eq[OF wf init w] obtain s where
    "sg_sync_finalize A init r =
      Inr (plan_metrics A (bitset_set init) (r\<lparr>pr_final_support_size := 1, pr_final_state := s\<rparr>))"
    "motion_image A (bitset_set init) (pr_word r) = {s}" by blast
  with r e sync_homing[OF w(2)] show ?thesis by (simp add: sync_result_ok_def sync_word_def)
qed

lemma sg_sync_plan_ok:
  assumes wf: "wf_automaton A" and bm: "merge_step_ok A (set (allowed_letters A allowed)) best_merge"
    and L: "set (allowed_letters A allowed) \<subseteq> {..<au_action_count A}" and B: "budget \<le> SIZE_MAX"
    and run: "sg_sync_plan A best_merge ids allowed budget start end_time = Inr r"
  shows "sync_result_ok A (set (allowed_letters A allowed)) (set ids) budget r"
    and "merge_shrinks A best_merge \<Longrightarrow> pr_outcome r = SG_OUTCOME_RESOURCE_BOUND \<Longrightarrow>
      budget < au_state_count A + 2 ^ au_state_count A"
proof -
  let ?L = "set (allowed_letters A allowed)" and ?r0 = "sg_plan_result_init A" and ?n = "au_state_count A"
  from run obtain init where init': "sg_bitset_from_ids ?n (Ref ids) = Inr init"
    by (auto simp: sg_sync_plan_def Let_def)
  then have init: "ids \<noteq> []" "set ids \<subseteq> {..<?n}" "support_ok A init" "bitset_set init = set ids"
    using sg_bitset_from_ids_ok[OF wf] by auto
  have copy: "sg_bitset_copy init = Inr init" using init(3) by (simp add: support_ok_def)
  have ne: "bitset_set init \<noteq> {}" using init by simp
  have count: "sg_bitset_count init = card (set ids)" using init(3,4) sg_bitset_count_card by (simp add: support_ok_def)
  have r0: "pr_word ?r0 = []" "pr_expansions ?r0 = 0" "pr_generation ?r0 = au_generation A"
    by (simp_all add: sg_plan_result_init_def)
  have "sync_result_ok A ?L (set ids) budget r \<and>
    (merge_shrinks A best_merge \<longrightarrow> pr_outcome r = SG_OUTCOME_RESOURCE_BOUND \<longrightarrow> budget < ?n + 2 ^ ?n)"
  proof (cases "sg_bitset_count init = 1")
    case True
    let ?ra = "?r0\<lparr>pr_outcome := SG_OUTCOME_ALREADY_SATISFIED\<rparr>"
    have "word_ok A (pr_word ?ra)" "card (motion_image A (bitset_set init) (pr_word ?ra)) = 1"
      using True count init(4) r0 by simp_all
    from sg_sync_finalize_eq[OF wf init(3) ne this] obtain s where
      "sg_sync_finalize A init ?ra =
        Inr (plan_metrics A (set ids) (?ra\<lparr>pr_final_support_size := 1, pr_final_state := s\<rparr>))"
      "set ids = {s}" by (auto simp: r0 init(4))
    with run init' copy True r0 show ?thesis by (auto simp: sg_sync_plan_def sync_result_ok_def Let_def)
  next
    case False
    with run init' copy obtain act r1 where g: "sg_sync_greedy best_merge budget init ?r0 = Inr (act, r1)"
      by (auto simp: sg_sync_plan_def Let_def)
    have G: "support_ok A act" "bitset_set act = motion_image A (set ids) (pr_word r1)" "set (pr_word r1) \<subseteq> ?L"
      "pr_expansions r1 \<le> budget" "pr_generation r1 = au_generation A"
      using sg_sync_greedy_ok[OF wf bm g init(3), of "set ids"] init(4) r0 by simp_all
    show ?thesis
    proof (cases "sg_bitset_count act = 1")
      case True
      let ?r2 = "r1\<lparr>pr_outcome := SG_OUTCOME_PLAN, pr_method := SG_METHOD_PAIR_MERGE\<rparr>"
      have "card (motion_image A (bitset_set init) (pr_word ?r2)) = 1"
        using True G(1,2) init(4) sg_bitset_count_card by (metis sg_plan_result.select_convs(3) sg_plan_result.surjective
            sg_plan_result.update_convs(1,2) support_ok_def)
      then have "sync_word A ?L (bitset_set init) (pr_word ?r2)" using G(3) by (simp add: sync_word_def)
      from sync_plan_result[OF wf init(3) ne L this, of budget] G(4,5) obtain r' where
        "sg_sync_finalize A init ?r2 = Inr r'" "sync_result_ok A ?L (set ids) budget r'" "pr_outcome r' = SG_OUTCOME_PLAN"
        by (auto simp: init(4))
      with run init' copy False g True show ?thesis by (auto simp: sg_sync_plan_def Let_def)
    next
      case stuck: False
      let ?r2 = "sg_sync_discard_plan r1"
      have r2: "pr_word ?r2 = []" "pr_expansions ?r2 = pr_expansions r1" "pr_generation ?r2 = au_generation A"
        using G(5) by (simp_all add: sg_sync_discard_plan_def)
      obtain r3 where bfs: "sg_subset_bfs A init allowed budget ?r2 = Inr r3"
        and ok: "sync_search_ok A ?L (set ids) budget ?r2 r3"
        using sg_subset_bfs_ok[OF wf init(3) False L B, of ?r2] r2 G(4) by (auto simp: init(4))
      show ?thesis
      proof (cases "pr_outcome r3 = SG_OUTCOME_PLAN")
        case True
        with ok r2 have "sync_word A ?L (bitset_set init) (pr_word r3)" "pr_expansions r3 \<le> budget"
          "pr_generation r3 = au_generation A" by (simp_all add: sync_search_ok_def init(4))
        from sync_plan_result[OF wf init(3) ne L this(1) True this(2,3)] obtain r' where
          "sg_sync_finalize A init r3 = Inr r'" "sync_result_ok A ?L (set ids) budget r'" "pr_outcome r' = SG_OUTCOME_PLAN"
          by (auto simp: init(4))
        with run init' copy False g stuck bfs True show ?thesis by (auto simp: sg_sync_plan_def Let_def)
      next
        case other: False
        then have r: "r = r3\<lparr>pr_planning_time_us := sg_elapsed_us start end_time\<rparr>"
          using run init' copy False g stuck bfs by (auto simp: sg_sync_plan_def Let_def)
        have "budget < ?n + 2 ^ ?n"
          if "merge_shrinks A best_merge" "pr_outcome r3 = SG_OUTCOME_RESOURCE_BOUND"
        proof -
          have "pr_expansions r1 + sg_bitset_count act \<le> sg_bitset_count init"
            using sg_sync_greedy_shrinks[OF wf bm that(1) g init(3)] r0 by simp
          moreover have "sg_bitset_count init \<le> ?n"
            using count card_mono[OF _ init(2)] by simp
          moreover have "budget < pr_expansions r1 + 2 ^ ?n" using ok that(2) r2 by (simp add: sync_search_ok_def)
          ultimately show ?thesis by linarith
        qed
        with ok r2 other show ?thesis
          unfolding r by (cases "pr_outcome r3") (auto simp: sync_search_ok_def sync_result_ok_def)
      qed
    qed
  qed
  then show "sync_result_ok A ?L (set ids) budget r"
    "merge_shrinks A best_merge \<Longrightarrow> pr_outcome r = SG_OUTCOME_RESOURCE_BOUND \<Longrightarrow> budget < ?n + 2 ^ ?n"
    by blast+
qed

lemma sg_sync_plan_total:
  assumes wf: "wf_automaton A" and bm: "merge_step_ok A (set (allowed_letters A allowed)) best_merge" "merge_total A best_merge"
    and L: "set (allowed_letters A allowed) \<subseteq> {..<au_action_count A}" and B: "budget \<le> SIZE_MAX"
    and ids: "ids \<noteq> []" "set ids \<subseteq> {..<au_state_count A}"
  shows "\<exists>r. sg_sync_plan A best_merge ids allowed budget start end_time = Inr r"
proof -
  let ?L = "set (allowed_letters A allowed)" and ?r0 = "sg_plan_result_init A" and ?n = "au_state_count A"
  obtain init where init': "sg_bitset_from_ids ?n (Ref ids) = Inr init"
    using ids sg_bitset_add_ids_exists[of ?n "sg_bitset_zero ?n" ids] wf
    by (auto simp: sg_bitset_from_ids_def wf_automatonD)
  then have init: "support_ok A init" "bitset_set init = set ids"
    using sg_bitset_from_ids_ok[OF wf] by auto
  have copy: "sg_bitset_copy init = Inr init" using init(1) by (simp add: support_ok_def)
  have ne: "bitset_set init \<noteq> {}" using init ids by simp
  have count: "sg_bitset_count init = card (set ids)" using init sg_bitset_count_card by (simp add: support_ok_def)
  have r0: "pr_word ?r0 = []" "pr_expansions ?r0 = 0" by (simp_all add: sg_plan_result_init_def)
  note run = sg_sync_plan_def Let_def
  show ?thesis
  proof (cases "sg_bitset_count init = 1")
    case True
    let ?ra = "?r0\<lparr>pr_outcome := SG_OUTCOME_ALREADY_SATISFIED\<rparr>"
    have "word_ok A (pr_word ?ra)" "card (motion_image A (bitset_set init) (pr_word ?ra)) = 1"
      using True count init(2) r0 by simp_all
    from sg_sync_finalize_eq[OF wf init(1) ne this] init' copy True show ?thesis by (auto simp: run)
  next
    case False
    obtain act r1 where g: "sg_sync_greedy best_merge budget init ?r0 = Inr (act, r1)"
      using sg_sync_greedy_total[OF wf bm init(1), of budget ?r0] by auto
    have G: "support_ok A act" "bitset_set act = motion_image A (set ids) (pr_word r1)" "set (pr_word r1) \<subseteq> ?L"
      "pr_expansions r1 \<le> budget"
      using sg_sync_greedy_ok[OF wf bm(1) g init(1), of "set ids"] init(2) r0 by simp_all
    show ?thesis
    proof (cases "sg_bitset_count act = 1")
      case True
      let ?r2 = "r1\<lparr>pr_outcome := SG_OUTCOME_PLAN, pr_method := SG_METHOD_PAIR_MERGE\<rparr>"
      have "card (motion_image A (bitset_set init) (pr_word r1)) = 1"
        using True G(1,2) init(2) sg_bitset_count_card by (metis support_ok_def)
      then have "card (motion_image A (bitset_set init) (pr_word ?r2)) = 1" "word_ok A (pr_word ?r2)"
        using G(3) L by (auto simp: word_ok_set)
      from sg_sync_finalize_eq[OF wf init(1) ne this(2,1)] init' copy False g True show ?thesis by (auto simp: run)
    next
      case stuck: False
      let ?r2 = "sg_sync_discard_plan r1"
      have r2: "pr_word ?r2 = []" "pr_expansions ?r2 = pr_expansions r1" by (simp_all add: sg_sync_discard_plan_def)
      obtain r3 where bfs: "sg_subset_bfs A init allowed budget ?r2 = Inr r3"
        and ok: "sync_search_ok A ?L (set ids) budget ?r2 r3"
        using sg_subset_bfs_ok[OF wf init(1) False L B, of ?r2] r2 G(4) by (auto simp: init(2))
      show ?thesis
      proof (cases "pr_outcome r3 = SG_OUTCOME_PLAN")
        case True
        with ok have "sync_word A ?L (bitset_set init) (pr_word r3)" by (simp add: sync_search_ok_def init(2))
        then have "word_ok A (pr_word r3)" "card (motion_image A (bitset_set init) (pr_word r3)) = 1"
          using L by (auto simp: sync_word_def word_ok_set)
        from sg_sync_finalize_eq[OF wf init(1) ne this] init' copy False g stuck bfs True show ?thesis by (auto simp: run)
      qed (use init' copy False g stuck bfs in \<open>auto simp: run\<close>)
    qed
  qed
qed

lemma sg_sync_plan_invalid:
  assumes "wf_automaton A" "\<not> set ids \<subseteq> {..<au_state_count A}"
  shows "sg_sync_plan A best_merge ids allowed budget start end_time = Inl SG_ERR_INVALID_ARGUMENT"
  using from_ids_cases[OF assms(1), of ids] assms(2) by (simp add: sg_sync_plan_def Let_def)

section \<open>The best merge of a record source\<close>

fun all_pairs :: "nat list \<Rightarrow> (nat \<times> nat) list" where
  "all_pairs [] = []"
| "all_pairs (x # xs) = map (Pair x) xs @ all_pairs xs"

lemma all_pairs_length: "2 * length (all_pairs xs) = length xs * (length xs - 1)"
  by (induction xs) (auto simp: algebra_simps split: nat_diff_split)

lemma all_pairs_distinct: "sorted_wrt (<) xs \<Longrightarrow> distinct (all_pairs xs)" for xs :: "nat list"
proof (induction xs)
  case (Cons x xs)
  then have "x \<notin> set xs" "distinct xs" by (auto simp: strict_sorted_iff)
  moreover have "set (all_pairs xs) \<subseteq> set xs \<times> set xs" by (induction xs) auto
  ultimately show ?case using Cons by (auto simp: distinct_map inj_on_def)
qed simp

lemma all_pairs_set: "sorted_wrt (<) xs \<Longrightarrow> set (all_pairs xs) = {(x, y). x \<in> set xs \<and> y \<in> set xs \<and> x < y}"
  by (induction xs) auto

lemma concat_filter_map: "concat (map (\<lambda>y. if P y then [f y] else []) ys) = map f (filter P ys)"
  by (induction ys) simp_all

lemma active_pairs_from:
  "k \<le> n \<Longrightarrow> concat (map (\<lambda>first. if \<not> P first then [] else map (Pair first) (filter P [first + 1..<n])) [k..<n]) =
    all_pairs (filter P [k..<n])"
proof (induction "n - k" arbitrary: k)
  case (Suc x)
  then have "[k..<n] = k # [k + 1..<n]" by (simp add: upt_conv_Cons)
  then show ?case using Suc.hyps(1)[of "k + 1"] Suc.hyps(2) by simp
qed simp

lemma sg_active_pairs_eq:
  "sg_active_pairs A s = all_pairs (filter (sg_bitset_has s) [0..<au_state_count A])"
  using active_pairs_from[of 0 "au_state_count A" "sg_bitset_has s"]
  by (simp add: sg_active_pairs_def concat_filter_map cong: if_cong)

lemma has_filter:
  assumes "support_ok A s"
  shows "set (filter (sg_bitset_has s) [0..<au_state_count A]) = bitset_set s"
    "length (filter (sg_bitset_has s) [0..<au_state_count A]) = sg_bitset_count s"
proof -
  let ?xs = "filter (sg_bitset_has s) [0..<au_state_count A]"
  show 1: "set ?xs = bitset_set s"
    using assms support_okD(2)[OF assms] sg_bitset_has_iff[of "au_state_count A" s] by (auto simp: support_ok_def)
  have "length ?xs = card (set ?xs)" by (rule distinct_card[symmetric]) simp
  then show "length ?xs = sg_bitset_count s"
    using 1 assms sg_bitset_count_card by (simp add: support_ok_def)
qed

lemma active_pairs:
  assumes "support_ok A s"
  shows "set (sg_active_pairs A s) = {(x, y). x \<in> bitset_set s \<and> y \<in> bitset_set s \<and> x < y}"
    "length (sg_active_pairs A s) = sg_bitset_count s * (sg_bitset_count s - 1) div 2"
proof -
  show "set (sg_active_pairs A s) = {(x, y). x \<in> bitset_set s \<and> y \<in> bitset_set s \<and> x < y}"
    unfolding sg_active_pairs_eq has_filter(1)[OF assms, symmetric]
    by (rule all_pairs_set) (simp add: sorted_wrt_filter)
  show "length (sg_active_pairs A s) = sg_bitset_count s * (sg_bitset_count s - 1) div 2"
    using all_pairs_length[of "filter (sg_bitset_has s) [0..<au_state_count A]"] has_filter(2)[OF assms]
    by (simp add: sg_active_pairs_eq)
qed

text \<open>The choice is the candidate \<open>i\<close>, and no candidate before \<open>k\<close> is better.\<close>

definition merge_choice ::
  "sg_automaton \<Rightarrow> sg_bitset \<Rightarrow> (nat \<times> nat) list \<Rightarrow> sg_candidate list \<Rightarrow> nat \<Rightarrow> sg_merge_choice \<Rightarrow> bool" where
  "merge_choice A active states cands i best \<longleftrightarrow>
     cd_available (cands ! i) \<and> mc_word best = cd_word (cands ! i) \<and> mc_length best = length (mc_word best) \<and>
     sg_apply_word_set A active (mc_word best) = Inr (mc_support best) \<and>
     mc_count best = sg_bitset_count (mc_support best) \<and>
     mc_pair best = sg_pair_index (au_state_count A) (fst (states ! i)) (snd (states ! i))"

definition unbeaten :: "sg_merge_choice \<Rightarrow> sg_merge_choice \<Rightarrow> bool" where
  "unbeaten best c \<longleftrightarrow> \<not> sg_sync_candidate_better (mc_count c) (mc_length c) (mc_pair c)
     (mc_count best) (mc_length best) (mc_pair best)"

lemma unbeaten_trans:
  "unbeaten best c \<Longrightarrow> sg_sync_candidate_better (mc_count d) (mc_length d) (mc_pair d)
     (mc_count best) (mc_length best) (mc_pair best) \<Longrightarrow> unbeaten d c"
  by (auto simp: unbeaten_def sg_sync_candidate_better_def)

lemma unbeaten_refl: "unbeaten c c"
  by (simp add: unbeaten_def sg_sync_candidate_better_def)

definition chosen ::
  "sg_automaton \<Rightarrow> sg_bitset \<Rightarrow> (nat \<times> nat) list \<Rightarrow> sg_candidate list \<Rightarrow> nat \<Rightarrow> sg_merge_choice \<Rightarrow> bool" where
  "chosen A active states cands k best \<longleftrightarrow>
     (best = sg_merge_choice_init \<and> (\<forall>i < k. \<not> cd_available (cands ! i)) \<or>
      (\<exists>i < k. merge_choice A active states cands i best)) \<and>
     (\<forall>i < k. \<forall>c. merge_choice A active states cands i c \<longrightarrow> unbeaten best c)"

lemma consider_merge_step:
  assumes wf: "wf_automaton A" and s: "support_ok A active" and C: "chosen A active states cands k best"
    and av: "cd_available (cands ! k)"
    and run: "sg_consider_merge A active (states ! k) (cd_word (cands ! k)) best = Inr best'"
  shows "chosen A active states cands (Suc k) best'"
proof -
  obtain support where sup: "sg_apply_word_set A active (cd_word (cands ! k)) = Inr support"
    using run by (auto simp: sg_consider_merge_def)
  let ?new = "\<lparr>mc_count = sg_bitset_count support, mc_length = length (cd_word (cands ! k)),
      mc_pair = sg_pair_index (au_state_count A) (fst (states ! k)) (snd (states ! k)),
      mc_word = cd_word (cands ! k), mc_support = support\<rparr>"
  have new: "merge_choice A active states cands k c \<longleftrightarrow> c = ?new" for c
    using av sup by (cases c) (auto simp: merge_choice_def)
  let ?b = "sg_sync_candidate_better (mc_count ?new) (mc_length ?new) (mc_pair ?new) (mc_count best) (mc_length best) (mc_pair best)"
  have best': "best' = (if ?b then ?new else best)"
    using run sup by (simp add: sg_consider_merge_def Let_def split: if_splits)
  show ?thesis
  proof (cases ?b)
    case True
    then have "unbeaten ?new c" if "i < k" "merge_choice A active states cands i c" for i c
      using C that unbeaten_trans[OF _ True] by (auto simp: chosen_def)
    then show ?thesis
      using True best' new unbeaten_refl by (auto simp: chosen_def less_Suc_eq)
  next
    case False
    have "best \<noteq> sg_merge_choice_init"
    proof
      assume init: "best = sg_merge_choice_init"
      have "support_ok A support" using sg_apply_word_set_iff[OF wf s] sup by auto
      then have "sg_bitset_count support \<le> au_state_count A"
        using bits.count_le by (auto simp: support_ok_def)
      then have "sg_bitset_count support < SIZE_MAX" using wf_automatonD(6)[OF wf] size_okD wf_automatonD(1)[OF wf]
        by (metis le_less_trans)
      with False init show False by (simp add: sg_sync_candidate_better_def sg_merge_choice_init_def)
    qed
    with C False best' new show ?thesis by (auto simp: chosen_def less_Suc_eq unbeaten_def)
  qed
qed

lemma chosen_skip:
  "chosen A active states cands k best \<Longrightarrow> \<not> cd_available (cands ! k) \<Longrightarrow> chosen A active states cands (Suc k) best"
  by (auto simp: chosen_def less_Suc_eq merge_choice_def)

abbreviation merge_loop :: "sg_automaton \<Rightarrow> sg_bitset \<Rightarrow> (nat \<times> nat) list \<Rightarrow> sg_candidate list \<Rightarrow> nat \<Rightarrow> sg_merge_choice res" where
  "merge_loop A active states cands k \<equiv>
     fold_res (\<lambda>index best.
         if \<not> cd_available (cands ! index) then Inr best
         else sg_consider_merge A active (states ! index) (cd_word (cands ! index)) best)
       [0..<k] sg_merge_choice_init"

lemma merge_loop_chosen:
  assumes wf: "wf_automaton A" and s: "support_ok A active"
  shows "merge_loop A active states cands k = Inr best \<Longrightarrow> chosen A active states cands k best"
proof (induction k arbitrary: best)
  case 0
  then show ?case by (simp add: chosen_def)
next
  case (Suc k)
  then obtain b where b: "merge_loop A active states cands k = Inr b"
    "(if \<not> cd_available (cands ! k) then Inr b
      else sg_consider_merge A active (states ! k) (cd_word (cands ! k)) b) = Inr best" by auto
  from Suc.IH[OF b(1)] b(2) show ?case
    using chosen_skip consider_merge_step[OF wf s] by (auto split: if_splits)
qed

lemma merge_loop_total:
  assumes wf: "wf_automaton A" and s: "support_ok A active" and "\<forall>i < k. word_ok A (cd_word (cands ! i))"
  shows "\<exists>best. merge_loop A active states cands k = Inr best"
  using assms(3)
proof (induction k)
  case (Suc k)
  then obtain b where b: "merge_loop A active states cands k = Inr b" by auto
  obtain t where t: "sg_apply_word_set A active (cd_word (cands ! k)) = Inr t"
    using sg_apply_word_set_exists[OF wf s] Suc.prems by blast
  then have "\<exists>b'. sg_consider_merge A active (states ! k) (cd_word (cands ! k)) b = Inr b'"
    by (simp add: sg_consider_merge_def Let_def)
  with b show ?case by auto
qed simp

lemma active_pairs_bound:
  "support_ok A s \<Longrightarrow> set (sg_active_pairs A s) \<subseteq> {..<au_state_count A} \<times> {..<au_state_count A}"
  using active_pairs(1) support_okD(2) by fastforce

lemma sg_best_merge_run:
  assumes s: "support_ok A s"
  shows "sg_best_merge A read s = Inr (Some (w, t)) \<longleftrightarrow>
    2 \<le> sg_bitset_count s \<and> sg_bitset_count s * (sg_bitset_count s - 1) \<le> SIZE_MAX \<and>
    (\<exists>cands best. sg_pair_words_load A (Ref read) (sg_active_pairs A s) SG_WITNESS_MERGE = Inr cands \<and>
      merge_loop A s (sg_active_pairs A s) cands (length (sg_active_pairs A s)) = Inr best \<and>
      mc_pair best \<noteq> SG_INDEX_NONE \<and> w = mc_word best \<and> t = mc_support best)"
proof (cases "2 \<le> sg_bitset_count s \<and> sg_bitset_count s * (sg_bitset_count s - 1) \<le> SIZE_MAX")
  case False
  then show ?thesis by (auto simp: sg_best_merge_def Let_def sg_size_multiply_if)
next
  case True
  then have "sg_best_merge A read s = rbind (sg_pair_words_load A (Ref read) (sg_active_pairs A s) SG_WITNESS_MERGE)
      (\<lambda>cands. rbind (merge_loop A s (sg_active_pairs A s) cands (length (sg_active_pairs A s)))
        (\<lambda>best. Inr (if mc_pair best \<noteq> SG_INDEX_NONE then Some (mc_word best, mc_support best) else None)))"
    by (simp add: sg_best_merge_def Let_def sg_size_multiply_if active_pairs(2)[OF s])
  with True show ?thesis by (auto simp: rbind_eq_Inr)
qed

lemma sg_best_merge_Some:
  assumes wf: "wf_automaton A" and s: "support_ok A s" and run: "sg_best_merge A read s = Inr (Some (w, t))"
  shows "word_ok A w" "sg_apply_word_set A s w = Inr t"
    "\<exists>x \<in> bitset_set s. \<exists>y \<in> bitset_set s. x \<noteq> y \<and> merging_word A x y w"
proof -
  let ?states = "sg_active_pairs A s"
  from run obtain cands best where
    load: "sg_pair_words_load A (Ref read) ?states SG_WITNESS_MERGE = Inr cands"
    and loop: "merge_loop A s ?states cands (length ?states) = Inr best"
    and b: "mc_pair best \<noteq> SG_INDEX_NONE" "w = mc_word best" "t = mc_support best"
    by (auto simp: sg_best_merge_run[OF s])
  have "best \<noteq> sg_merge_choice_init" using b(1) by (auto simp: sg_merge_choice_init_def)
  then obtain i where i: "i < length ?states" "merge_choice A s ?states cands i best"
    using merge_loop_chosen[OF wf s loop] by (auto simp: chosen_def)
  note sound = words_load_sound[OF active_pairs_bound[OF s] load i(1)]
  have "witness_word A SG_WITNESS_MERGE (?states ! i) w"
    using sound(3) i(2) b(2) by (simp add: merge_choice_def)
  then have m: "merging_word A (fst (?states ! i)) (snd (?states ! i)) w" by (simp add: witness_word_def)
  then show "word_ok A w" by (simp add: merging_word_def)
  show "sg_apply_word_set A s w = Inr t" using i(2) unfolding merge_choice_def b(2,3) by blast
  have "?states ! i \<in> set ?states" using i(1) by simp
  then have "fst (?states ! i) \<in> bitset_set s \<and> snd (?states ! i) \<in> bitset_set s \<and> fst (?states ! i) < snd (?states ! i)"
    unfolding active_pairs(1)[OF s] by (simp add: case_prod_beta)
  then show "\<exists>x \<in> bitset_set s. \<exists>y \<in> bitset_set s. x \<noteq> y \<and> merging_word A x y w"
    using m nat_neq_iff by (elim conjE) (rule bexI, rule bexI, rule conjI, rule less_imp_neq)
qed

lemma merging_shrinks:
  assumes "finite S" "x \<in> S" "y \<in> S" "x \<noteq> y" "merging_word A x y w"
  shows "card (motion_image A S w) < card S"
proof -
  have "motion_image A S w = motion_image A (S - {y}) w"
  proof
    show "motion_image A S w \<subseteq> motion_image A (S - {y}) w"
    proof
      fix z assume "z \<in> motion_image A S w"
      then obtain s where s: "s \<in> S" "z = run_word A s w" by (auto simp: motion_image_def)
      then have "z = run_word A (if s = y then x else s) w" using assms(5) by (auto simp: merging_word_def)
      moreover have "(if s = y then x else s) \<in> S - {y}" using s(1) assms(2,4) by simp
      ultimately show "z \<in> motion_image A (S - {y}) w" by (auto simp: motion_image_def)
    qed
  qed (auto simp: motion_image_def)
  then have "card (motion_image A S w) \<le> card (S - {y})"
    using card_image_le[of "S - {y}" "\<lambda>s. run_word A s w"] assms(1) by (simp add: motion_image_def)
  also have "\<dots> < card S" using assms(1,3) by (intro card_Diff1_less)
  finally show ?thesis .
qed

lemma merge_shrinks_intro:
  assumes wf: "wf_automaton A"
    and "\<And>s w t. support_ok A s \<Longrightarrow> best_merge s = Inr (Some (w, t)) \<Longrightarrow> sg_apply_word_set A s w = Inr t \<and>
      (\<exists>x \<in> bitset_set s. \<exists>y \<in> bitset_set s. x \<noteq> y \<and> merging_word A x y w)"
  shows "merge_shrinks A best_merge"
  unfolding merge_shrinks_def
proof (intro allI impI, elim conjE)
  fix s w t assume s: "support_ok A s" and run: "best_merge s = Inr (Some (w, t))"
  note m = assms(2)[OF s run]
  then have t: "support_ok A t" "bitset_set t = motion_image A (bitset_set s) w"
    using sg_apply_word_set_iff[OF wf s] by auto
  have "card (motion_image A (bitset_set s) w) < card (bitset_set s)"
    using m merging_shrinks support_okD(3)[OF s] by blast
  then show "sg_bitset_count t < sg_bitset_count s"
    using s t sg_bitset_count_card by (simp add: support_ok_def)
qed

lemma sg_best_merge_ok:
  assumes wf: "wf_automaton A"
  shows "merge_step_ok A (set (allowed_letters A NULL)) (sg_best_merge A read)"
    and "merge_shrinks A (sg_best_merge A read)"
  using sg_best_merge_Some[OF wf] merge_shrinks_intro[OF wf]
  by (auto simp: merge_step_ok_def allowed_letters_def word_ok_set) blast+

lemma oracle_size_count:
  assumes "oracle_size_ok A" "c \<le> au_state_count A"
  shows "c * (c - 1) \<le> SIZE_MAX"
proof -
  have "c * (c - 1) \<le> au_state_count A * (au_state_count A + 1)" using assms(2) by (intro mult_le_mono) simp_all
  with assms(1) show ?thesis by (simp add: oracle_size_ok_def)
qed

lemma sg_best_merge_total:
  assumes V: "oracle_valid A orc"
  shows "merge_total A (sg_best_merge A (sg_oracle_record_reader orc))"
  unfolding merge_total_def
proof (intro allI impI)
  fix s assume s: "support_ok A s"
  have A: "wf_automaton A" "oracle_size_ok A" "po_automaton orc = A"
    using V by (auto simp: oracle_valid_def oracle_tables_def)
  let ?states = "sg_active_pairs A s"
  have V': "oracle_valid (po_automaton orc) orc" using V A(3) by simp
  have "sg_bitset_count s \<le> au_state_count A" using s bits.count_le by (simp add: support_ok_def)
  note size = oracle_size_count[OF A(2) this]
  obtain cands where load: "sg_pair_words_load A (Ref (sg_oracle_record_reader orc)) ?states SG_WITNESS_MERGE = Inr cands"
    using reader.words_load_complete[OF V' A(3) active_pairs_bound[OF s]] by blast
  have "\<forall>i < length ?states. word_ok A (cd_word (cands ! i))"
    using words_load_sound(2)[OF active_pairs_bound[OF s] load] by blast
  from merge_loop_total[OF A(1) s this] obtain best where "merge_loop A s ?states cands (length ?states) = Inr best" by blast
  with load size show "\<exists>m. sg_best_merge A (sg_oracle_record_reader orc) s = Inr m"
    by (simp add: sg_best_merge_def Let_def sg_size_multiply_if active_pairs(2)[OF s])
qed

section \<open>The planner\<close>

lemma allowed_all [simp]: "set (allowed_letters A NULL) = {..<au_action_count A}"
  by (auto simp: allowed_letters_def)

text \<open>C1. Whatever a record source answers, a plan that \<open>sg_plan_sync_from_records\<close> returns is right:
  a PLAN leads every initial state to the reported final state, is homing and carries the metrics of
  its branches; NO_PLAN means that no word over the actions synchronizes the initial states;
  RESOURCE_BOUND is reported only when the whole budget is spent; and no more is ever spent.\<close>

theorem plan_sync_sound:
  assumes "wf_automaton A" "budget \<le> SIZE_MAX"
    and "sg_plan_sync_from_records (Ref A) source initial_states budget start end_time = Inr r"
  shows "\<exists>ids. initial_states = Ref ids \<and> ids \<noteq> [] \<and> set ids \<subseteq> {..<au_state_count A} \<and>
    sync_result_ok A {..<au_action_count A} (set ids) budget r"
proof -
  obtain read ids where i: "source = Ref read" "initial_states = Ref ids" "ids \<noteq> []"
    and run: "sg_sync_plan A (sg_best_merge A read) ids NULL budget start end_time = Inr r"
    using assms(3)
    by (auto simp: sg_plan_sync_from_records_def sg_plan_sync_with_source_def split: option.splits if_splits)
  have "set ids \<subseteq> {..<au_state_count A}"
    using run sg_bitset_from_ids_ok[OF assms(1)] by (auto simp: sg_sync_plan_def Let_def)
  moreover have "sync_result_ok A {..<au_action_count A} (set ids) budget r"
    using sg_sync_plan_ok(1)[OF assms(1) sg_best_merge_ok(1)[OF assms(1)] _ assms(2) run] by simp
  ultimately show ?thesis using i by blast
qed

text \<open>C7. On the oracle built for the automaton \<open>sg_plan_sync\<close> fails exactly on invalid arguments, and
  with a budget of at least \<open>n + 2 ^ n\<close> for \<open>n\<close> states its answer is definite.\<close>

theorem plan_sync_definite:
  assumes wf: "wf_automaton A" and build: "sg_pair_oracle_build (Ref A) = Inr orc" and B: "budget \<le> SIZE_MAX"
  shows "if ids \<noteq> [] \<and> set ids \<subseteq> {..<au_state_count A} \<and> budget \<noteq> 0
    then \<exists>r. sg_plan_sync (Ref A) (Ref orc) (Ref ids) budget start end_time = Inr r \<and>
      (au_state_count A + 2 ^ au_state_count A \<le> budget \<longrightarrow> pr_outcome r \<noteq> SG_OUTCOME_RESOURCE_BOUND)
    else sg_plan_sync (Ref A) (Ref orc) (Ref ids) budget start end_time = Inl SG_ERR_INVALID_ARGUMENT"
proof -
  have V: "oracle_valid A orc" by (rule oracle_exact_valid[OF build_exact[OF wf build]])
  then have A: "po_automaton orc = A" by (simp add: oracle_valid_def oracle_tables_def)
  let ?bm = "sg_best_merge A (sg_oracle_record_reader orc)"
  note bm = sg_best_merge_ok[OF wf, of "sg_oracle_record_reader orc"]
  have plan: "sg_plan_sync (Ref A) (Ref orc) (Ref ids) budget start end_time =
      (if ids = [] \<or> budget = 0 then Inl SG_ERR_INVALID_ARGUMENT
       else sg_sync_plan A ?bm ids NULL budget start end_time)"
    by (simp add: sg_plan_sync_def sg_plan_sync_with_source_def A)
  show ?thesis
  proof (cases "ids \<noteq> [] \<and> set ids \<subseteq> {..<au_state_count A} \<and> budget \<noteq> 0")
    case True
    then obtain r where run: "sg_sync_plan A ?bm ids NULL budget start end_time = Inr r"
      using sg_sync_plan_total[OF wf bm(1) sg_best_merge_total[OF V] _ B, of ids start end_time] by auto
    have "au_state_count A + 2 ^ au_state_count A \<le> budget \<longrightarrow> pr_outcome r \<noteq> SG_OUTCOME_RESOURCE_BOUND"
      using sg_sync_plan_ok(2)[OF wf bm(1) _ B run bm(2)] by auto
    with True run plan show ?thesis by simp
  next
    case False
    then have "ids = [] \<or> budget = 0 \<or> \<not> set ids \<subseteq> {..<au_state_count A}" by blast
    with False plan sg_sync_plan_invalid[OF wf] show ?thesis by (simp only: if_False if_True refl) metis
  qed
qed

text \<open>C12. The best merge is the best: on the built oracle it exists exactly if two of the active states
  can be merged. Then it is the loaded word of one of the pairs of active states, a word that merges this
  pair, it comes with the image that it leaves, and it is the least of the loaded words: any other one
  leaves more states, or as many and is longer, or is as long and belongs to a pair of a higher number (no
  two candidates have the same pair number, so the choice is unique).\<close>

theorem best_merge_optimal:
  assumes wf: "wf_automaton A" and build: "sg_pair_oracle_build (Ref A) = Inr orc" and s: "support_ok A s"
  defines "read \<equiv> sg_oracle_record_reader orc" and "states \<equiv> sg_active_pairs A s"
  defines "rank \<equiv> \<lambda>j. sg_pair_index (au_state_count A) (fst (states ! j)) (snd (states ! j))"
  shows "\<exists>m. sg_best_merge A read s = Inr m \<and> (case m of
      None \<Rightarrow> \<not> (\<exists>x \<in> bitset_set s. \<exists>y \<in> bitset_set s. \<exists>w. x \<noteq> y \<and> merging_word A x y w)
    | Some (w, t) \<Rightarrow> bitset_set t = motion_image A (bitset_set s) w \<and>
        (\<exists>cands. sg_pair_words_load A (Ref read) states SG_WITNESS_MERGE = Inr cands \<and>
          length cands = length states \<and>
          (\<exists>i < length states. cd_available (cands ! i) \<and> w = cd_word (cands ! i) \<and>
             fst (states ! i) \<in> bitset_set s \<and> snd (states ! i) \<in> bitset_set s \<and>
             fst (states ! i) \<noteq> snd (states ! i) \<and> merging_word A (fst (states ! i)) (snd (states ! i)) w \<and>
             (\<forall>j < length states. j \<noteq> i \<longrightarrow> cd_available (cands ! j) \<longrightarrow>
                card (bitset_set t) < card (motion_image A (bitset_set s) (cd_word (cands ! j))) \<or>
                card (bitset_set t) = card (motion_image A (bitset_set s) (cd_word (cands ! j))) \<and>
                (length w < length (cd_word (cands ! j)) \<or>
                 length w = length (cd_word (cands ! j)) \<and> rank i < rank j)))))"
proof -
  have exact: "oracle_exact A orc" by (rule build_exact[OF wf build])
  have V: "oracle_valid A orc" by (rule oracle_exact_valid[OF exact])
  have A: "oracle_size_ok A" "po_automaton orc = A" using V by (auto simp: oracle_valid_def oracle_tables_def)
  note bound = active_pairs_bound[OF s, folded states_def]
  have different: "rank i \<noteq> rank j" if ij: "i < length states" "j < length states" "i \<noteq> j" for i j
  proof
    assume eq: "rank i = rank j"
    have pair: "state_pairs (au_state_count A) ! rank k = states ! k" if "k < length states" for k
    proof -
      have "states ! k \<in> set states" using that by simp
      then have "fst (states ! k) < snd (states ! k)" "fst (states ! k) < au_state_count A" "snd (states ! k) < au_state_count A"
        using bound active_pairs(1)[OF s, folded states_def] by (auto simp: subset_eq)
      then show ?thesis using pair_of_index(2)[OF wf A(1)] by (simp add: rank_def)
    qed
    have "distinct states" unfolding states_def sg_active_pairs_eq by (rule all_pairs_distinct) (simp add: sorted_wrt_filter)
    then show False using pair[OF ij(1)] pair[OF ij(2)] eq ij by (simp add: nth_eq_iff_index_eq)
  qed
  have V': "oracle_valid (po_automaton orc) orc" using V A by simp
  obtain m where m: "sg_best_merge A read s = Inr m"
    using sg_best_merge_total[OF V] s by (auto simp: merge_total_def read_def)
  obtain cands where load: "sg_pair_words_load A (Ref read) states SG_WITNESS_MERGE = Inr cands"
      "length cands = length states"
    and avail: "\<forall>j < length states. cd_available (cands ! j) \<longleftrightarrow> kind_distance orc SG_WITNESS_MERGE
      (sg_pair_index (au_state_count A) (fst (states ! j)) (snd (states ! j))) \<noteq> SG_INDEX_NONE"
    using reader.words_load_complete[OF V' A(2) bound, of SG_WITNESS_MERGE] by (auto simp: read_def)
  have ok: "\<forall>i < length states. word_ok A (cd_word (cands ! i))"
    using words_load_sound(2)[OF bound load(1)] by blast
  obtain best where loop: "merge_loop A s states cands (length states) = Inr best"
    using merge_loop_total[OF wf s ok] by blast
  note ch = merge_loop_chosen[OF wf s loop]
  have count: "sg_bitset_count s \<le> au_state_count A" using s bits.count_le by (simp add: support_ok_def)
  have bm: "m = (if sg_bitset_count s < 2 \<or> mc_pair best = SG_INDEX_NONE then None else Some (mc_word best, mc_support best))"
    using m load(1) loop oracle_size_count[OF A(1) count]
    by (simp add: sg_best_merge_def Let_def states_def[symmetric] sg_size_multiply_if active_pairs(2)[OF s, folded states_def] split: if_splits)
  show ?thesis
  proof (cases m)
    case None
    have "False" if xy: "x \<in> bitset_set s" "y \<in> bitset_set s" "x < y" and w: "merging_word A x y w" for x y w
    proof -
      have lt: "x < au_state_count A" "y < au_state_count A" using xy support_okD(2)[OF s] by auto
      have "(x, y) \<in> set states" using xy by (simp add: active_pairs(1)[OF s, folded states_def])
      then obtain j where j: "j < length states" "states ! j = (x, y)" by (auto simp: in_set_conv_nth)
      have "witness_word A SG_WITNESS_MERGE (x, y) w" using w by (simp add: witness_word_def)
      then have "cd_available (cands ! j)"
        using avail j exact_kind_distance[OF exact lt, of SG_WITNESS_MERGE] by auto
      then obtain i where i: "i < length states" "merge_choice A s states cands i best"
        using ch j(1) by (auto simp: chosen_def)
      have "states ! i \<in> {..<au_state_count A} \<times> {..<au_state_count A}"
        using bound nth_mem[OF i(1)] by blast
      then have "mc_pair best < pair_total A"
        using i(2) pair_of_index(1)[OF wf A(1)] by (auto simp: merge_choice_def mem_Times_iff)
      moreover have "card {x, y} \<le> card (bitset_set s)" using xy support_okD(3)[OF s] by (intro card_mono) auto
      then have "2 \<le> sg_bitset_count s" using xy(3) s sg_bitset_count_card by (simp add: support_ok_def)
      ultimately show False using bm None pair_total_small[OF A(1)] by (simp split: if_splits)
    qed
    then have "\<not> (\<exists>x \<in> bitset_set s. \<exists>y \<in> bitset_set s. \<exists>w. x \<noteq> y \<and> merging_word A x y w)"
      by (metis linorder_neqE_nat merging_word_commute)
    with m None show ?thesis by simp
  next
    case (Some wt)
    then have wt: "wt = (mc_word best, mc_support best)" "mc_pair best \<noteq> SG_INDEX_NONE"
      using bm by (auto split: if_splits)
    have run: "sg_best_merge A read s = Inr (Some (mc_word best, mc_support best))" using m Some wt by simp
    note best = sg_best_merge_Some[OF wf s run]
    have t: "support_ok A (mc_support best)" "bitset_set (mc_support best) = motion_image A (bitset_set s) (mc_word best)"
      using sg_apply_word_set_iff[OF wf s] best(2) by auto
    have "best \<noteq> sg_merge_choice_init" using wt(2) by (auto simp: sg_merge_choice_init_def)
    then obtain i where i: "i < length states" "merge_choice A s states cands i best" using ch by (auto simp: chosen_def)
    have "states ! i \<in> set states" using i(1) by simp
    then have xy: "fst (states ! i) \<in> bitset_set s" "snd (states ! i) \<in> bitset_set s" "fst (states ! i) \<noteq> snd (states ! i)"
      unfolding active_pairs(1)[OF s, folded states_def] by auto
    have av: "cd_available (cands ! i)" "mc_word best = cd_word (cands ! i)" "mc_pair best = rank i"
      using i(2) by (simp_all add: merge_choice_def rank_def)
    have merges: "merging_word A (fst (states ! i)) (snd (states ! i)) (mc_word best)"
      using words_load_sound(3)[OF bound load(1) i(1)] av by (simp add: witness_word_def)
    have "card (bitset_set (mc_support best)) < card (motion_image A (bitset_set s) (cd_word (cands ! j))) \<or>
        card (bitset_set (mc_support best)) = card (motion_image A (bitset_set s) (cd_word (cands ! j))) \<and>
        (length (mc_word best) < length (cd_word (cands ! j)) \<or>
         length (mc_word best) = length (cd_word (cands ! j)) \<and> rank i < rank j)"
      if j: "j < length states" "j \<noteq> i" "cd_available (cands ! j)" for j
    proof -
      obtain u where u: "sg_apply_word_set A s (cd_word (cands ! j)) = Inr u"
        using sg_apply_word_set_exists[OF wf s] ok j by blast
      then have u': "support_ok A u" "bitset_set u = motion_image A (bitset_set s) (cd_word (cands ! j))"
        using sg_apply_word_set_iff[OF wf s] by auto
      let ?c = "\<lparr>mc_count = sg_bitset_count u, mc_length = length (cd_word (cands ! j)), mc_pair = rank j,
        mc_word = cd_word (cands ! j), mc_support = u\<rparr>"
      have "merge_choice A s states cands j ?c" using j u by (simp add: merge_choice_def rank_def)
      then have "unbeaten best ?c" using ch j(1) by (auto simp: chosen_def)
      moreover have "mc_count best = card (bitset_set (mc_support best))" "mc_length best = length (mc_word best)"
        using i t(1) sg_bitset_count_card by (auto simp: merge_choice_def support_ok_def)
      moreover have "sg_bitset_count u = card (motion_image A (bitset_set s) (cd_word (cands ! j)))"
        using u' sg_bitset_count_card by (simp add: support_ok_def)
      moreover have "rank i \<noteq> rank j" using different[OF i(1) j(1)] j(2) by blast
      ultimately show ?thesis using av(3) by (auto simp: unbeaten_def sg_sync_candidate_better_def)
    qed
    with m Some wt(1) t(2) load i(1) av xy merges show ?thesis by (auto intro!: exI[of _ i])
  qed
qed

text \<open>The planner on the example: three states, synchronized within eleven expansions.\<close>

lemma demo_sync: "sync_word demo_automaton {..<au_action_count demo_automaton} (set [0, 1, 2]) [1, 0, 1]"
proof -
  have "run_word demo_automaton 0 [1, 0, 1] = 0" "run_word demo_automaton 1 [1, 0, 1] = 0"
    "run_word demo_automaton 2 [1, 0, 1] = 0"
    by code_simp+
  then have "motion_image demo_automaton {0, 1, 2} [1, 0, 1] = {0}" by (simp add: motion_image_def del: run_word.simps)
  then show ?thesis by (simp add: sync_word_def demo_automaton_def)
qed

lemma demo_not_synced: "sync_result_ok demo_automaton {..<au_action_count demo_automaton} (set [0, 1, 2]) budget r \<Longrightarrow>
    pr_outcome r \<noteq> SG_OUTCOME_RESOURCE_BOUND \<Longrightarrow> pr_outcome r = SG_OUTCOME_PLAN"
  using demo_sync by (cases "pr_outcome r") (auto simp: sync_result_ok_def)

theorem plan_sync_sound_witness:
  "\<exists>orc r. sg_pair_oracle_build (Ref demo_automaton) = Inr orc \<and>
    sg_plan_sync_from_records (Ref demo_automaton) (Ref (sg_oracle_record_reader orc)) (Ref [0, 1, 2]) 11 0 0 = Inr r \<and>
    pr_outcome r = SG_OUTCOME_PLAN \<and> motion_image demo_automaton {0, 1, 2} (pr_word r) = {pr_final_state r}"
proof -
  obtain orc where orc: "sg_pair_oracle_build (Ref demo_automaton) = Inr orc"
    using oracle_build_ok[OF demo_wf demo_size] by blast
  have V: "oracle_valid demo_automaton orc" by (rule oracle_exact_valid[OF build_exact[OF demo_wf orc]])
  note bm = sg_best_merge_ok[OF demo_wf, of "sg_oracle_record_reader orc"]
  have B: "11 \<le> SIZE_MAX" by (simp add: SIZE_MAX_def)
  have ids: "set [0, 1, 2] \<subseteq> {..<au_state_count demo_automaton}" by (simp add: demo_automaton_def)
  obtain r where r: "sg_sync_plan demo_automaton (sg_best_merge demo_automaton (sg_oracle_record_reader orc))
      [0, 1, 2] NULL 11 0 0 = Inr r"
    using sg_sync_plan_total[OF demo_wf bm(1) sg_best_merge_total[OF V] _ B _ ids] by auto
  then have run: "sg_plan_sync_from_records (Ref demo_automaton) (Ref (sg_oracle_record_reader orc)) (Ref [0, 1, 2]) 11 0 0 = Inr r"
    by (simp add: sg_plan_sync_from_records_def sg_plan_sync_with_source_def)
  have "pr_outcome r \<noteq> SG_OUTCOME_RESOURCE_BOUND"
    using sg_sync_plan_ok(2)[OF demo_wf bm(1) _ B r bm(2)] by (auto simp: demo_automaton_def)
  moreover have ok: "sync_result_ok demo_automaton {..<au_action_count demo_automaton} (set [0, 1, 2]) 11 r"
    using plan_sync_sound[OF demo_wf B run] by auto
  ultimately have "pr_outcome r = SG_OUTCOME_PLAN" using demo_not_synced by blast
  with ok orc run show ?thesis by (auto simp: sync_result_ok_def)
qed

theorem plan_sync_definite_witness:
  "\<exists>orc r. sg_pair_oracle_build (Ref demo_automaton) = Inr orc \<and>
    sg_plan_sync (Ref demo_automaton) (Ref orc) (Ref [0, 1, 2]) 11 0 0 = Inr r \<and>
    pr_outcome r \<noteq> SG_OUTCOME_RESOURCE_BOUND"
proof -
  obtain orc where orc: "sg_pair_oracle_build (Ref demo_automaton) = Inr orc"
    using oracle_build_ok[OF demo_wf demo_size] by blast
  have "set [0, 1, 2] \<subseteq> {..<au_state_count demo_automaton}"
    "au_state_count demo_automaton + 2 ^ au_state_count demo_automaton \<le> 11" "11 \<le> SIZE_MAX"
    by (simp_all add: demo_automaton_def SIZE_MAX_def)
  with plan_sync_definite[OF demo_wf orc, of 11 "[0, 1, 2]" 0 0] orc show ?thesis by auto
qed

theorem best_merge_optimal_witness:
  "\<exists>orc w t. sg_pair_oracle_build (Ref demo_automaton) = Inr orc \<and>
    sg_best_merge demo_automaton (sg_oracle_record_reader orc) demo_support = Inr (Some (w, t)) \<and>
    bitset_set t = motion_image demo_automaton {0, 1, 2} w"
proof -
  obtain orc where orc: "sg_pair_oracle_build (Ref demo_automaton) = Inr orc"
    using oracle_build_ok[OF demo_wf demo_size] by blast
  have "merging_word demo_automaton 0 1 [1]" by code_simp
  with best_merge_optimal[OF demo_wf orc demo_support_ok(1)] orc show ?thesis
    by (auto simp: demo_support_ok(2) split: option.splits)
qed

end
