(* ===== verification/Sync_Allowed.thy ===== *)
theory Sync_Allowed
  imports Sync_Plan
begin

text \<open>
  Planning with a restricted alphabet (src/planner.c): a shortest merging word over the allowed
  letters by a search over pairs, the best such merge, and \<open>sg_plan_sync_allowed\<close>.
\<close>

section \<open>The allowed letters\<close>

definition sg_allowed_actions_valid :: "sg_automaton ptr \<Rightarrow> nat list ptr \<Rightarrow> bool" where
  "sg_allowed_actions_valid automaton allowed_actions =
     (case (automaton, allowed_actions) of
        (Ref a, Ref allowed) \<Rightarrow> allowed \<noteq> [] \<and> list_all (\<lambda>action. action < au_action_count a) allowed
      | _ \<Rightarrow> False)"

section \<open>A shortest allowed merge\<close>

text \<open>
  The arrays of the search, indexed by pair number, the used part of the queue and the goal. The
  arrays \<open>pair_first\<close> and \<open>pair_second\<close> are not initialised in the code; they are read only where
  they were written, and start as zeros here.
\<close>

record sg_pair_search =
  ps_parent :: "nat list"
  ps_action :: "nat list"
  ps_first :: "nat list"
  ps_second :: "nat list"
  ps_queue :: "nat list"
  ps_goal :: nat

definition sg_pair_search_init :: "nat \<Rightarrow> nat \<Rightarrow> nat \<Rightarrow> nat \<Rightarrow> sg_pair_search" where
  "sg_pair_search_init pair_count root first second =
     \<lparr>ps_parent = (replicate pair_count SG_INDEX_NONE)[root := root],
      ps_action = replicate pair_count SG_INDEX_NONE,
      ps_first = (replicate pair_count 0)[root := first],
      ps_second = (replicate pair_count 0)[root := second],
      ps_queue = [root], ps_goal = SG_INDEX_NONE\<rparr>"

text \<open>The loop over the letters of one pair; the break leaves the goal set.\<close>

fun sg_pair_search_letters ::
  "sg_automaton \<Rightarrow> nat \<Rightarrow> nat \<Rightarrow> nat \<Rightarrow> nat list \<Rightarrow> sg_pair_search \<Rightarrow> sg_pair_search" where
  "sg_pair_search_letters automaton current left right [] search = search"
| "sg_pair_search_letters automaton current left right (action # actions) search =
     (let next_left = delta automaton left action;
          next_right = delta automaton right action;
          target = sg_pair_index (au_state_count automaton) next_left next_right
      in if ps_parent search ! target \<noteq> SG_INDEX_NONE
         then sg_pair_search_letters automaton current left right actions search
         else let search = search\<lparr>ps_parent := (ps_parent search)[target := current],
                                  ps_action := (ps_action search)[target := action],
                                  ps_first := (ps_first search)[target := next_left],
                                  ps_second := (ps_second search)[target := next_right],
                                  ps_queue := ps_queue search @ [target]\<rparr>
              in if next_left = next_right then search\<lparr>ps_goal := target\<rparr>
                 else sg_pair_search_letters automaton current left right actions search)"

definition sg_pair_search_run ::
  "sg_automaton \<Rightarrow> nat list \<Rightarrow> sg_pair_search \<Rightarrow> sg_pair_search" where
  "sg_pair_search_run automaton allowed search =
     fst (while (\<lambda>(search, head). head < length (ps_queue search) \<and> ps_goal search = SG_INDEX_NONE)
            (\<lambda>(search, head).
               let current = ps_queue search ! head
               in (sg_pair_search_letters automaton current (ps_first search ! current)
                     (ps_second search ! current) allowed search, head + 1))
            (search, 0))"

definition sg_pair_search_follow :: "sg_pair_search \<Rightarrow> nat \<Rightarrow> nat list \<Rightarrow> nat \<Rightarrow> nat list" where
  "sg_pair_search_follow search root word cursor =
     fst (while (\<lambda>(word, cursor). cursor \<noteq> root)
            (\<lambda>(word, cursor). (word @ [ps_action search ! cursor], ps_parent search ! cursor))
            (word, cursor))"

definition sg_allowed_merge_word ::
  "sg_automaton \<Rightarrow> nat \<Rightarrow> nat \<Rightarrow> nat list \<Rightarrow> nat list res" where
  "sg_allowed_merge_word automaton first second allowed =
     (if first = second then Inr []
      else case sg_planner_pair_count (au_state_count automaton) of
        None \<Rightarrow> Inl SG_ERR_ALLOC
      | Some pair_count \<Rightarrow>
          (case sg_size_multiply pair_count 8 of
             None \<Rightarrow> Inl SG_ERR_ALLOC
           | Some allocation_size \<Rightarrow>
               let root = sg_pair_index (au_state_count automaton) first second;
                   search = sg_pair_search_run automaton allowed
                              (sg_pair_search_init pair_count root first second)
               in if ps_goal search = SG_INDEX_NONE then Inl SG_ERR_NOT_FOUND
                  else Inr (sg_reverse_word (sg_pair_search_follow search root [] (ps_goal search)))))"

section \<open>The best allowed merge and the plan\<close>

text \<open>The state of the two loops: the best choice and the status the code carries along.\<close>

definition sg_consider_allowed ::
  "sg_automaton \<Rightarrow> sg_bitset \<Rightarrow> nat list \<Rightarrow> nat \<times> nat \<Rightarrow> sg_merge_choice \<Rightarrow> sg_merge_choice res" where
  "sg_consider_allowed automaton active allowed states best =
     (case sg_allowed_merge_word automaton (fst states) (snd states) allowed of
        Inr word \<Rightarrow> sg_consider_merge automaton active states word best
      | Inl status \<Rightarrow> if status = SG_ERR_NOT_FOUND then Inr best else Inl status)"

definition sg_best_merge_allowed ::
  "sg_automaton \<Rightarrow> sg_bitset \<Rightarrow> nat list \<Rightarrow> (nat list \<times> sg_bitset) res" where
  "sg_best_merge_allowed automaton active allowed =
     rbind (fold_res (sg_consider_allowed automaton active allowed) (sg_active_pairs automaton active)
              sg_merge_choice_init) (\<lambda>best.
     if mc_pair best = SG_INDEX_NONE then Inl SG_ERR_NOT_FOUND else Inr (mc_word best, mc_support best))"

text \<open>The planner goes on to the exact search when the status is \<open>SG_ERR_NOT_FOUND\<close>.\<close>

definition sg_allowed_merge_step ::
  "sg_automaton \<Rightarrow> nat list \<Rightarrow> sg_bitset \<Rightarrow> (nat list \<times> sg_bitset) option res" where
  "sg_allowed_merge_step automaton allowed active =
     (case sg_best_merge_allowed automaton active allowed of
        Inr best \<Rightarrow> Inr (Some best)
      | Inl status \<Rightarrow> if status = SG_ERR_NOT_FOUND then Inr None else Inl status)"

definition sg_plan_sync_allowed ::
  "sg_automaton ptr \<Rightarrow> nat list ptr \<Rightarrow> nat list ptr \<Rightarrow> nat \<Rightarrow> 64 word \<Rightarrow> 64 word \<Rightarrow> sg_plan_result res" where
  "sg_plan_sync_allowed automaton initial_states allowed_actions budget start end_time =
     (if \<not> sg_allowed_actions_valid automaton allowed_actions then Inl SG_ERR_INVALID_ARGUMENT
      else case (automaton, initial_states, allowed_actions) of
        (Ref a, Ref ids, Ref allowed) \<Rightarrow>
          if ids = [] \<or> budget = 0 then Inl SG_ERR_INVALID_ARGUMENT
          else sg_sync_plan a (sg_allowed_merge_step a allowed) ids (Ref allowed) budget start end_time
      | _ \<Rightarrow> Inl SG_ERR_INVALID_ARGUMENT)"

section \<open>Pairs as payloads\<close>

definition pair_size_ok :: "sg_automaton \<Rightarrow> bool" where
  "pair_size_ok A \<longleftrightarrow> wf_automaton A \<and> au_state_count A * (au_state_count A + 1) \<le> SIZE_MAX"

definition pair_valid :: "sg_automaton \<Rightarrow> nat \<times> nat \<Rightarrow> bool" where
  "pair_valid A p \<longleftrightarrow> fst p \<le> snd p \<and> snd p < au_state_count A"

definition ordered :: "nat \<Rightarrow> nat \<Rightarrow> nat \<times> nat" where
  "ordered s t = (min s t, max s t)"

definition pair_step :: "sg_automaton \<Rightarrow> nat \<times> nat \<Rightarrow> nat \<Rightarrow> nat \<times> nat" where
  "pair_step A p a = ordered (delta A (fst p) a) (delta A (snd p) a)"

definition pair_number :: "sg_automaton \<Rightarrow> nat \<times> nat \<Rightarrow> nat" where
  "pair_number A p = sg_pair_index (au_state_count A) (fst p) (snd p)"

lemma planner_count:
  "pair_size_ok A \<Longrightarrow> sg_pair_count (au_state_count A) = Some (pair_total A)"
  "pair_size_ok A \<Longrightarrow> sg_planner_pair_count (au_state_count A) = Some (pair_total A)"
  using wf_automatonD(6)[of A]
  by (auto simp: pair_size_ok_def sg_pair_count_Some length_state_pairs sg_planner_pair_count_def sg_size_multiply_if)

lemma pair_total_less: "pair_size_ok A \<Longrightarrow> pair_total A < SIZE_MAX"
proof -
  assume "pair_size_ok A"
  then have "au_state_count A * (au_state_count A + 1) \<le> SIZE_MAX" by (simp add: pair_size_ok_def)
  from div_le_mono[OF this, of 2] have "pair_total A \<le> SIZE_MAX div 2" by (simp only: length_state_pairs)
  then show ?thesis by (simp add: SIZE_MAX_def)
qed

lemma number_of_ordered:
  assumes "pair_size_ok A" "s < au_state_count A" "t < au_state_count A"
  shows "sg_pair_index (au_state_count A) s t = pair_number A (ordered s t)"
    "pair_number A (ordered s t) < pair_total A"
    "state_pairs (au_state_count A) ! pair_number A (ordered s t) = ordered s t"
  using pair_index_position[OF planner_count(1)[OF assms(1)] assms(2,3)] sg_pair_index_commute[of "au_state_count A" s t]
  by (auto simp: pair_number_def ordered_def min_def max_def)

lemma ordered_valid: "s < au_state_count A \<Longrightarrow> t < au_state_count A \<Longrightarrow> pair_valid A (ordered s t)"
  by (simp add: pair_valid_def ordered_def)

lemma valid_ordered: "pair_valid A p \<Longrightarrow> ordered (fst p) (snd p) = p"
  by (cases p) (simp add: pair_valid_def ordered_def)

lemma number_of_valid:
  assumes "pair_size_ok A" "pair_valid A p"
  shows "pair_number A p < pair_total A" "state_pairs (au_state_count A) ! pair_number A p = p"
  using number_of_ordered[OF assms(1), of "fst p" "snd p"] assms(2) valid_ordered[OF assms(2)]
  by (auto simp: pair_valid_def)

lemma number_inj:
  "pair_size_ok A \<Longrightarrow> pair_valid A p \<Longrightarrow> pair_valid A q \<Longrightarrow> pair_number A p = pair_number A q \<longleftrightarrow> p = q"
  using number_of_valid(2) by metis

interpretation pairs: forward_search pair_size_ok pair_valid action_ok pair_step
  "\<lambda>p q. fst p = fst q \<and> snd p = snd q" "\<lambda>A. pair_total A"
proof unfold_locales
  show "pair_valid A (pair_step A p a)" if "pair_size_ok A" "pair_valid A p" "action_ok A a" for A p a
    using that unfolding pair_step_def
    by (intro ordered_valid) (auto simp: pair_size_ok_def pair_valid_def action_ok_def transition_less)
  show "finite {p. pair_valid A p} \<and> card {p. pair_valid A p} \<le> pair_total A" if "pair_size_ok A" for A
  proof -
    have inj: "inj_on (pair_number A) {p. pair_valid A p}"
      using number_inj[OF that] by (intro inj_onI) blast
    have sub: "pair_number A ` {p. pair_valid A p} \<subseteq> {..<pair_total A}"
      using number_of_valid(1)[OF that] by auto
    show ?thesis using inj_on_finite[OF inj sub] card_inj_on_le[OF inj sub] by simp
  qed
qed (simp add: prod_eq_iff)

lemma pair_word:
  "foldl (pair_step A) (ordered s t) w = ordered (run_word A s w) (run_word A t w)"
proof (induction w arbitrary: s t)
  case (Cons a w)
  have "pair_step A (ordered s t) a = ordered (delta A s a) (delta A t a)"
    by (simp add: pair_step_def ordered_def min_def max_def)
  with Cons show ?case by simp
qed simp

section \<open>The arrays hold a search tree\<close>

definition pair_search_ok ::
  "sg_automaton \<Rightarrow> nat \<Rightarrow> (nat \<times> nat) sg_node list \<Rightarrow> sg_pair_search \<Rightarrow> bool" where
  "pair_search_ok A root nodes st \<longleftrightarrow>
     length (ps_parent st) = pair_total A \<and> length (ps_action st) = pair_total A \<and>
     length (ps_first st) = pair_total A \<and> length (ps_second st) = pair_total A \<and>
     ps_queue st = map (pair_number A \<circ> nd_payload) nodes \<and>
     (\<forall>p < pair_total A. ps_parent st ! p \<noteq> SG_INDEX_NONE \<longleftrightarrow> p \<in> set (ps_queue st)) \<and>
     nodes \<noteq> [] \<and> ps_queue st ! 0 = root \<and>
     (\<forall>k < length nodes. let q = ps_queue st ! k in
        pair_valid A (nd_payload (nodes ! k)) \<and>
        ps_first st ! q < au_state_count A \<and> ps_second st ! q < au_state_count A \<and>
        ordered (ps_first st ! q) (ps_second st ! q) = nd_payload (nodes ! k) \<and>
        (0 < k \<longrightarrow> ps_parent st ! q = ps_queue st ! nd_parent (nodes ! k) \<and>
                   ps_action st ! q = nd_action (nodes ! k)))"

lemma pair_search_okD:
  assumes "pair_search_ok A root nodes st"
  shows "ps_queue st = map (pair_number A \<circ> nd_payload) nodes"
    "p < pair_total A \<Longrightarrow> ps_parent st ! p \<noteq> SG_INDEX_NONE \<longleftrightarrow> p \<in> set (ps_queue st)"
    "k < length nodes \<Longrightarrow> pair_valid A (nd_payload (nodes ! k))"
    "k < length nodes \<Longrightarrow> ps_first st ! (ps_queue st ! k) < au_state_count A \<and>
       ps_second st ! (ps_queue st ! k) < au_state_count A \<and>
       ordered (ps_first st ! (ps_queue st ! k)) (ps_second st ! (ps_queue st ! k)) = nd_payload (nodes ! k)"
    "k < length nodes \<Longrightarrow> 0 < k \<Longrightarrow> ps_parent st ! (ps_queue st ! k) = ps_queue st ! nd_parent (nodes ! k) \<and>
       ps_action st ! (ps_queue st ! k) = nd_action (nodes ! k)"
    "ps_queue st ! 0 = root" "length (ps_queue st) = length nodes"
  using assms unfolding pair_search_ok_def Let_def by auto

lemma pair_search_ok_goal: "pair_search_ok A root nodes (st\<lparr>ps_goal := g\<rparr>) \<longleftrightarrow> pair_search_ok A root nodes st"
  by (simp add: pair_search_ok_def)

lemma pair_search_ok_init:
  assumes A: "pair_size_ok A" and st: "s < au_state_count A" "t < au_state_count A"
  defines "root \<equiv> sg_pair_index (au_state_count A) s t"
  shows "pair_search_ok A root [\<lparr>nd_payload = ordered s t, nd_parent = SG_INDEX_NONE, nd_action = SG_INDEX_NONE\<rparr>]
    (sg_pair_search_init (pair_total A) root s t)"
proof -
  note n = number_of_ordered[OF A st]
  note small = pair_total_less[OF A]
  have r: "root = pair_number A (ordered s t)" "root < pair_total A" using n by (simp_all add: root_def)
  have "(replicate (pair_total A) SG_INDEX_NONE)[root := root] ! p \<noteq> SG_INDEX_NONE \<longleftrightarrow> p = root" if "p < pair_total A" for p
    using that r small by (auto simp: nth_list_update)
  with r st ordered_valid[OF st] show ?thesis by (simp add: pair_search_ok_def sg_pair_search_init_def)
qed

lemma pair_number_payloads:
  assumes A: "pair_size_ok A" and R: "pair_search_ok A root nodes st" and q: "pair_valid A q"
  shows "ps_parent st ! pair_number A q \<noteq> SG_INDEX_NONE \<longleftrightarrow> q \<in> set (payloads nodes)"
proof -
  have "ps_parent st ! pair_number A q \<noteq> SG_INDEX_NONE \<longleftrightarrow> pair_number A q \<in> set (ps_queue st)"
    by (rule pair_search_okD(2)[OF R number_of_valid(1)[OF A q]])
  also have "\<dots> \<longleftrightarrow> q \<in> set (payloads nodes)"
  proof
    assume "pair_number A q \<in> set (ps_queue st)"
    then obtain k where k: "k < length nodes" "pair_number A q = pair_number A (nd_payload (nodes ! k))"
      by (auto simp: pair_search_okD(1)[OF R] in_set_conv_nth)
    then have "q = nd_payload (nodes ! k)" using number_inj[OF A q pair_search_okD(3)[OF R k(1)]] by simp
    with k(1) show "q \<in> set (payloads nodes)" by (auto simp: payloads_def)
  qed (auto simp: payloads_def pair_search_okD(1)[OF R])
  finally show ?thesis .
qed

lemma pair_search_ok_add:
  assumes A: "pair_size_ok A" and R: "pair_search_ok A root nodes st" and h: "head < length nodes"
    and lr: "l < au_state_count A" "r < au_state_count A" and new: "ordered l r \<notin> set (payloads nodes)"
    and T: "search_tree step letters root' nodes words"
  defines "q \<equiv> sg_pair_index (au_state_count A) l r"
  shows "pair_search_ok A root (nodes @ [\<lparr>nd_payload = ordered l r, nd_parent = head, nd_action = a\<rparr>])
    (st\<lparr>ps_parent := (ps_parent st)[q := ps_queue st ! head], ps_action := (ps_action st)[q := a],
        ps_first := (ps_first st)[q := l], ps_second := (ps_second st)[q := r], ps_queue := ps_queue st @ [q]\<rparr>)"
proof -
  have qn: "q = pair_number A (ordered l r)" "q < pair_total A"
    using number_of_ordered[OF A lr] by (simp_all add: q_def)
  have fresh: "q \<notin> set (ps_queue st)"
    using pair_number_payloads[OF A R ordered_valid[OF lr]] pair_search_okD(2)[OF R qn(2)] new qn(1) by simp
  have len: "length (ps_queue st) = length nodes" by (rule pair_search_okD(7)[OF R])
  have hd: "ps_queue st ! head \<noteq> SG_INDEX_NONE"
  proof -
    have "ps_queue st ! head < pair_total A"
      using pair_search_okD(1)[OF R] h number_of_valid(1)[OF A pair_search_okD(3)[OF R h]] by simp
    with pair_total_less[OF A] show ?thesis by linarith
  qed
  have old: "ps_queue st ! k \<noteq> q" if "k < length nodes" for k
    using fresh that len nth_mem[of k "ps_queue st"] by auto
  have parents: "nd_parent (nodes ! k) < length nodes" if "k < length nodes" "0 < k" for k
    using T that by (fastforce simp: search_tree_def)
  let ?nodes = "nodes @ [\<lparr>nd_payload = ordered l r, nd_parent = head, nd_action = a\<rparr>]"
  let ?st = "st\<lparr>ps_parent := (ps_parent st)[q := ps_queue st ! head], ps_action := (ps_action st)[q := a],
        ps_first := (ps_first st)[q := l], ps_second := (ps_second st)[q := r], ps_queue := ps_queue st @ [q]\<rparr>"
  have lens: "length (ps_parent st) = pair_total A" "length (ps_action st) = pair_total A"
    "length (ps_first st) = pair_total A" "length (ps_second st) = pair_total A" "nodes \<noteq> []"
    using R by (simp_all add: pair_search_ok_def)
  have "ps_queue ?st = map (pair_number A \<circ> nd_payload) ?nodes"
    using pair_search_okD(1)[OF R] qn(1) by simp
  moreover have "ps_parent ?st ! p \<noteq> SG_INDEX_NONE \<longleftrightarrow> p \<in> set (ps_queue ?st)" if "p < pair_total A" for p
    using that hd lens pair_search_okD(2)[OF R that] by (cases "p = q") simp_all
  moreover have "ps_queue ?st ! 0 = root"
    using pair_search_okD(6)[OF R] lens(5) len by (simp add: nth_append)
  moreover have "let q' = ps_queue ?st ! k in
        pair_valid A (nd_payload (?nodes ! k)) \<and>
        ps_first ?st ! q' < au_state_count A \<and> ps_second ?st ! q' < au_state_count A \<and>
        ordered (ps_first ?st ! q') (ps_second ?st ! q') = nd_payload (?nodes ! k) \<and>
        (0 < k \<longrightarrow> ps_parent ?st ! q' = ps_queue ?st ! nd_parent (?nodes ! k) \<and>
                   ps_action ?st ! q' = nd_action (?nodes ! k))" if k: "k < length ?nodes" for k
  proof (cases "k = length nodes")
    case True
    then show ?thesis
      using qn(2) lens lr ordered_valid[OF lr] h len by (simp add: Let_def nth_append)
  next
    case False
    then have k': "k < length nodes" using k by simp
    have same: "?nodes ! k = nodes ! k" "ps_queue ?st ! k = ps_queue st ! k"
      using k' len by (simp_all add: nth_append)
    have keep: "xs[q := x] ! (ps_queue st ! k) = xs ! (ps_queue st ! k)" for xs :: "nat list" and x
      using old[OF k'] by simp
    have par: "0 < k \<Longrightarrow> ps_queue ?st ! nd_parent (nodes ! k) = ps_queue st ! nd_parent (nodes ! k)"
      using parents[OF k'] len by (simp add: nth_append)
    show ?thesis
      unfolding Let_def same
      using pair_search_okD(3,4)[OF R k'] pair_search_okD(5)[OF R k'] par keep by simp
  qed
  ultimately show ?thesis
    using lens unfolding pair_search_ok_def by simp
qed

text \<open>Following the parents through the arrays.\<close>

lemma pair_search_follow:
  assumes A: "pair_size_ok A" and R: "pair_search_ok A root nodes st"
    and T: "search_tree (pair_step A) letters root' nodes words" and d: "distinct (payloads nodes)"
  shows "k < length nodes \<Longrightarrow> sg_pair_search_follow st root word (ps_queue st ! k) = word @ rev (words ! k)"
proof (induction k arbitrary: word rule: less_induct)
  case (less k)
  show ?case
  proof (cases "k = 0")
    case True
    with T pair_search_okD(6)[OF R] show ?thesis
      by (simp add: search_tree_def sg_pair_search_follow_def while_unfold)
  next
    case False
    let ?j = "nd_parent (nodes ! k)" and ?a = "nd_action (nodes ! k)"
    have j: "?j < k" and w: "words ! k = words ! ?j @ [?a]"
      using T False less.prems by (simp_all add: search_tree_def)
    have arrays: "ps_parent st ! (ps_queue st ! k) = ps_queue st ! ?j" "ps_action st ! (ps_queue st ! k) = ?a"
      using pair_search_okD(5)[OF R less.prems] False by simp_all
    have ne: "ps_queue st ! k \<noteq> root"
    proof
      assume "ps_queue st ! k = root"
      then have "pair_number A (nd_payload (nodes ! k)) = pair_number A (nd_payload (nodes ! 0))"
        using pair_search_okD(1,6)[OF R] less.prems T by (simp add: search_tree_def)
      moreover have "0 < length nodes" using less.prems by linarith
      ultimately have "nd_payload (nodes ! k) = nd_payload (nodes ! 0)"
        using number_inj[OF A pair_search_okD(3)[OF R less.prems] pair_search_okD(3)[OF R, of 0]] by blast
      then show False
        using d less.prems False \<open>0 < length nodes\<close> by (auto simp: payloads_def distinct_conv_nth)
    qed
    have "sg_pair_search_follow st root word (ps_queue st ! k) =
        sg_pair_search_follow st root (word @ [?a]) (ps_queue st ! ?j)"
      unfolding sg_pair_search_follow_def using ne arrays by (subst while_unfold) simp
    also have "\<dots> = (word @ [?a]) @ rev (words ! ?j)"
      using less.IH[OF j] j less.prems by simp
    finally show ?thesis unfolding w by simp
  qed
qed

text \<open>One expansion: either the frontier grows, or the goal is the last pair entered, and the path to
  it is a shortest merging word.\<close>

abbreviation pair_goal :: "nat \<times> nat \<Rightarrow> bool" where
  "pair_goal p \<equiv> fst p = snd p"

definition pair_search_found ::
  "sg_automaton \<Rightarrow> nat list \<Rightarrow> nat \<Rightarrow> nat \<times> nat \<Rightarrow> sg_pair_search \<Rightarrow> bool" where
  "pair_search_found A L root root' st \<longleftrightarrow>
     (\<exists>nodes words k. k < length nodes \<and> ps_goal st = ps_queue st ! k \<and> ps_goal st \<noteq> SG_INDEX_NONE \<and>
        pair_search_ok A root nodes st \<and> search_tree (pair_step A) (set L) root' nodes words \<and>
        distinct (payloads nodes) \<and> shortest_goal_word (pair_step A) (set L) pair_goal root' (words ! k))"

definition pair_search_open ::
  "sg_automaton \<Rightarrow> nat list \<Rightarrow> nat \<Rightarrow> nat \<times> nat \<Rightarrow> nat \<Rightarrow> nat set \<Rightarrow> (nat \<times> nat) sg_node list \<Rightarrow>
     nat list list \<Rightarrow> sg_pair_search \<Rightarrow> bool" where
  "pair_search_open A L root root' head handled nodes words st \<longleftrightarrow>
     ps_goal st = SG_INDEX_NONE \<and> pair_search_ok A root nodes st \<and>
     search_tree (pair_step A) (set L) root' nodes words \<and>
     search_front (pair_step A) (set L) pair_goal nodes words head handled"

lemma goal_of_ordered: "pair_goal (ordered l r) \<longleftrightarrow> l = r"
  by (auto simp: ordered_def min_def max_def)

lemma sg_pair_search_letters_ok:
  assumes A: "pair_size_ok A" and root': "pair_valid A root'" and L: "set L \<subseteq> {..<au_action_count A}"
  shows "pair_search_open A L root root' head handled nodes words st \<Longrightarrow> head < length nodes \<Longrightarrow>
    left < au_state_count A \<Longrightarrow> right < au_state_count A \<Longrightarrow> ordered left right = nd_payload (nodes ! head) \<Longrightarrow>
    current = ps_queue st ! head \<Longrightarrow> set actions \<subseteq> set L \<Longrightarrow>
    (let st' = sg_pair_search_letters A current left right actions st in
      pair_search_found A L root root' st' \<or>
      (\<exists>nodes' words'. head < length nodes' \<and>
         pair_search_open A L root root' head (set actions \<union> handled) nodes' words' st'))"
proof (induction actions arbitrary: nodes words handled st)
  case Nil
  then show ?case by auto
next
  case (Cons a as)
  have R: "pair_search_ok A root nodes st" and T: "search_tree (pair_step A) (set L) root' nodes words"
    and F: "search_front (pair_step A) (set L) pair_goal nodes words head handled" and g: "ps_goal st = SG_INDEX_NONE"
    using Cons.prems(1) by (simp_all add: pair_search_open_def)
  note lt = Cons.prems(2)
  have a: "a \<in> set L" "a < au_action_count A" using Cons.prems(7) L by auto
  have wf: "wf_automaton A" using A by (simp add: pair_size_ok_def)
  let ?l = "delta A left a" and ?r = "delta A right a"
  have lr: "?l < au_state_count A" "?r < au_state_count A" using wf a Cons.prems(3,4) by (simp_all add: transition_less)
  have step: "pair_step A (nd_payload (nodes ! head)) a = ordered ?l ?r"
    using pair_word[of A left right "[a]"] Cons.prems(5) by simp
  let ?q = "sg_pair_index (au_state_count A) ?l ?r"
  have q: "?q = pair_number A (ordered ?l ?r)" "?q < pair_total A" using number_of_ordered[OF A lr] by simp_all
  have known: "ps_parent st ! ?q \<noteq> SG_INDEX_NONE \<longleftrightarrow> ordered ?l ?r \<in> set (payloads nodes)"
    unfolding q(1) by (rule pair_number_payloads[OF A R ordered_valid[OF lr]])
  have sets: "set as \<union> insert a handled = set (a # as) \<union> handled" by auto
  show ?case
  proof (cases "ps_parent st ! ?q \<noteq> SG_INDEX_NONE")
    case True
    with known step have "search_front (pair_step A) (set L) pair_goal nodes words head (insert a handled)"
      by (intro search_front_skip[OF F lt]) simp
    with R T g have "pair_search_open A L root root' head (insert a handled) nodes words st"
      by (simp add: pair_search_open_def)
    from Cons.IH[OF this lt Cons.prems(3-6), unfolded sets] Cons.prems(7) True show ?thesis by (simp add: Let_def)
  next
    case False
    then have new: "ordered ?l ?r \<notin> set (payloads nodes)" using known by simp
    let ?n = "\<lparr>nd_payload = ordered ?l ?r, nd_parent = head, nd_action = a\<rparr>"
    let ?st = "st\<lparr>ps_parent := (ps_parent st)[?q := current], ps_action := (ps_action st)[?q := a],
        ps_first := (ps_first st)[?q := ?l], ps_second := (ps_second st)[?q := ?r], ps_queue := ps_queue st @ [?q]\<rparr>"
    have "length nodes \<le> pair_total A"
      by (rule pairs.nodes_bound[OF A root' letters_ok[OF L] T search_frontD(1)[OF F]])
    then have h: "head \<noteq> SG_INDEX_NONE" using lt pair_total_less[OF A] by linarith
    have R': "pair_search_ok A root (nodes @ [?n]) ?st"
      using pair_search_ok_add[OF A R lt lr new T] Cons.prems(6) by simp
    have T': "search_tree (pair_step A) (set L) root' (nodes @ [?n]) (words @ [words ! head @ [a]])"
      by (rule search_tree_add[OF T lt h a(1) step[symmetric]])
    have len: "length (ps_queue st) = length nodes" "length words = length nodes"
      using pair_search_okD(7)[OF R] T by (simp_all add: search_tree_def)
    have st': "sg_pair_search_letters A current left right (a # as) st =
        (if ?l = ?r then ?st\<lparr>ps_goal := ?q\<rparr> else sg_pair_search_letters A current left right as ?st)"
      using False by (simp add: Let_def)
    show ?thesis
    proof (cases "?l = ?r")
      case True
      then have "pair_goal (pair_step A (nd_payload (nodes ! head)) a)" by (simp add: step goal_of_ordered)
      note short = search_goal_shortest[OF T F lt a(1) this]
      have "pair_search_ok A root (nodes @ [?n]) (?st\<lparr>ps_goal := ?q\<rparr>)"
        using R' by (simp only: pair_search_ok_goal)
      moreover have "distinct (payloads (nodes @ [?n]))"
        using search_frontD(1)[OF F] new by (simp add: payloads_def)
      moreover have "?q \<noteq> SG_INDEX_NONE" using q(2) pair_total_less[OF A] by linarith
      ultimately have "pair_search_found A L root root' (?st\<lparr>ps_goal := ?q\<rparr>)"
        unfolding pair_search_found_def using short T' len
        by (intro exI[of _ "nodes @ [?n]"] exI[of _ "words @ [words ! head @ [a]]"] exI[of _ "length nodes"])
           (simp add: nth_append)
      with True show ?thesis unfolding st' by simp
    next
      case ne: False
      have F': "search_front (pair_step A) (set L) pair_goal (nodes @ [?n]) (words @ [words ! head @ [a]]) head (insert a handled)"
        using new ne by (intro search_front_add[OF T F lt step[symmetric]]) (simp_all add: goal_of_ordered)
      have open': "pair_search_open A L root root' head (insert a handled) (nodes @ [?n]) (words @ [words ! head @ [a]]) ?st"
        using R' T' F' g by (simp add: pair_search_open_def)
      have head': "head < length (nodes @ [?n])" "ordered left right = nd_payload ((nodes @ [?n]) ! head)"
        "current = ps_queue ?st ! head"
        using lt Cons.prems(5,6) len by (simp_all add: nth_append)
      from Cons.IH[OF open' head'(1) Cons.prems(3,4) head'(2,3), unfolded sets] Cons.prems(7) ne
      show ?thesis unfolding st' by simp
    qed
  qed
qed

text \<open>The loop over the queue ends: the head is below the number of pairs.\<close>

lemma sg_pair_search_run_ok:
  assumes A: "pair_size_ok A" and root': "pair_valid A root'" and L: "set L \<subseteq> {..<au_action_count A}"
    and init: "pair_search_open A L root root' 0 {} nodes words st" "0 < length nodes"
  shows "let st' = sg_pair_search_run A L st in
    pair_search_found A L root root' st' \<or>
    ps_goal st' = SG_INDEX_NONE \<and> (\<forall>v. set v \<subseteq> set L \<longrightarrow> \<not> pair_goal (foldl (pair_step A) root' v))"
proof -
  let ?I = "\<lambda>(st, head). pair_search_found A L root root' st \<or>
    (\<exists>nodes words. pair_search_open A L root root' head {} nodes words st)"
  let ?c = "\<lambda>(st, head). head < length (ps_queue st) \<and> ps_goal st = SG_INDEX_NONE"
  let ?b = "\<lambda>(st, head). let current = ps_queue st ! head
      in (sg_pair_search_letters A current (ps_first st ! current) (ps_second st ! current) L st, head + 1)"
  let ?post = "\<lambda>(st, head). pair_search_found A L root root' st \<or>
    ps_goal st = SG_INDEX_NONE \<and> (\<forall>v. set v \<subseteq> set L \<longrightarrow> \<not> pair_goal (foldl (pair_step A) root' v))"
  have body: "?I (?b (st, head)) \<and> head < pair_total A" if I: "?I (st, head)" and c: "?c (st, head)" for st head
  proof -
    have "\<not> pair_search_found A L root root' st" using c by (auto simp: pair_search_found_def)
    then obtain nodes words where O: "pair_search_open A L root root' head {} nodes words st" using I by auto
    then have R: "pair_search_ok A root nodes st" and T: "search_tree (pair_step A) (set L) root' nodes words"
      and F: "search_front (pair_step A) (set L) pair_goal nodes words head {}"
      by (simp_all add: pair_search_open_def)
    have lt: "head < length nodes" using c pair_search_okD(7)[OF R] by simp
    have bound: "length nodes \<le> pair_total A"
      by (rule pairs.nodes_bound[OF A root' letters_ok[OF L] T search_frontD(1)[OF F]])
    let ?cur = "ps_queue st ! head"
    let ?st = "sg_pair_search_letters A ?cur (ps_first st ! ?cur) (ps_second st ! ?cur) L st"
    have cur: "ps_first st ! ?cur < au_state_count A" "ps_second st ! ?cur < au_state_count A"
      "ordered (ps_first st ! ?cur) (ps_second st ! ?cur) = nd_payload (nodes ! head)"
      using pair_search_okD(4)[OF R lt] by simp_all
    have "pair_search_found A L root root' ?st \<or>
      (\<exists>nodes' words'. head < length nodes' \<and> pair_search_open A L root root' head (set L \<union> {}) nodes' words' ?st)"
      using sg_pair_search_letters_ok[OF A root' L O lt cur refl subset_refl] by (simp add: Let_def)
    then have "pair_search_found A L root root' ?st \<or>
      (\<exists>nodes' words'. pair_search_open A L root root' (Suc head) {} nodes' words' ?st)"
      using search_front_advance by (fastforce simp: pair_search_open_def)
    with lt bound show ?thesis by (simp add: Let_def)
  qed
  have "?post (while ?c ?b (st, 0))"
  proof (rule while_rule[where P = ?I and r = "measure (\<lambda>(st, head). pair_total A - head)"])
    show "?I (st, 0)" using init by blast
    show "?I (?b s)" if "?I s" "?c s" for s
      using body[of "fst s" "snd s"] that by (simp only: prod.collapse)
    show "(?b s, s) \<in> measure (\<lambda>(st, head). pair_total A - head)" if "?I s" "?c s" for s
      using body[of "fst s" "snd s"] that unfolding prod.collapse by (cases s) (auto simp: Let_def diff_less_mono2)
    show "?post s" if I: "?I s" and c: "\<not> ?c s" for s
    proof (cases s)
      case (Pair st head)
      show ?thesis
      proof (cases "pair_search_found A L root root' st")
        case False
        then obtain nodes words where O: "pair_search_open A L root root' head {} nodes words st" using I Pair by auto
        then have R: "pair_search_ok A root nodes st" and T: "search_tree (pair_step A) (set L) root' nodes words"
          and F: "search_front (pair_step A) (set L) pair_goal nodes words head {}" and g: "ps_goal st = SG_INDEX_NONE"
          by (simp_all add: pair_search_open_def)
        have "head = length nodes" using c Pair g pair_search_okD(7)[OF R] search_frontD(3)[OF F] by simp
        then show ?thesis using search_front_no_goal[OF T F] g Pair by auto
      qed (simp add: Pair)
    qed
  qed simp
  then show ?thesis by (auto simp: sg_pair_search_run_def Let_def split: prod.splits)
qed

definition allowed_merge :: "sg_automaton \<Rightarrow> nat set \<Rightarrow> nat \<Rightarrow> nat \<Rightarrow> nat list \<Rightarrow> bool" where
  "allowed_merge A L s t w \<longleftrightarrow> set w \<subseteq> L \<and> merging_word A s t w"

lemma sg_allowed_merge_word_ok:
  assumes wf: "wf_automaton A" and L: "set L \<subseteq> {..<au_action_count A}"
    and st: "s < au_state_count A" "t < au_state_count A"
  shows "case sg_allowed_merge_word A s t L of
      Inr w \<Rightarrow> allowed_merge A (set L) s t w \<and> (\<forall>v. allowed_merge A (set L) s t v \<longrightarrow> length w \<le> length v)
    | Inl e \<Rightarrow> e = SG_ERR_NOT_FOUND \<and> (\<forall>v. \<not> allowed_merge A (set L) s t v) \<or>
        e = SG_ERR_ALLOC \<and> \<not> au_state_count A * (au_state_count A + 1) div 2 * 8 \<le> SIZE_MAX"
proof (cases "s = t")
  case True
  then show ?thesis by (simp add: sg_allowed_merge_word_def allowed_merge_def merging_word_def)
next
  case ne: False
  show ?thesis
  proof (cases "au_state_count A * (au_state_count A + 1) div 2 * 8 \<le> SIZE_MAX")
    case False
    then show ?thesis
      using ne wf_automatonD(6)[OF wf]
      by (auto simp: sg_allowed_merge_word_def sg_planner_pair_count_def sg_size_multiply_if split: option.splits)
  next
    case True
    moreover have "x \<le> SIZE_MAX" if "x div 2 * 8 \<le> SIZE_MAX" for x :: nat
      using that unfolding SIZE_MAX_def by presburger
    ultimately have A: "pair_size_ok A" using wf by (simp add: pair_size_ok_def)
    let ?root = "sg_pair_index (au_state_count A) s t" and ?root' = "ordered s t"
    let ?nodes = "[\<lparr>nd_payload = ?root', nd_parent = SG_INDEX_NONE, nd_action = SG_INDEX_NONE\<rparr>]"
    let ?init = "sg_pair_search_init (pair_total A) ?root s t"
    have "pair_search_open A L ?root ?root' 0 {} ?nodes [[]] ?init"
      using pair_search_ok_init[OF A st] search_tree_root search_front_root[of pair_goal ?root'] ne
      by (simp add: pair_search_open_def sg_pair_search_init_def goal_of_ordered)
    note run = sg_pair_search_run_ok[OF A ordered_valid[OF st] L this, unfolded Let_def]
    let ?st = "sg_pair_search_run A L ?init"
    have word: "sg_allowed_merge_word A s t L = (if ps_goal ?st = SG_INDEX_NONE then Inl SG_ERR_NOT_FOUND
        else Inr (sg_reverse_word (sg_pair_search_follow ?st ?root [] (ps_goal ?st))))"
      using True ne planner_count(2)[OF A] by (simp add: sg_allowed_merge_word_def sg_size_multiply_if length_state_pairs Let_def)
    have goal: "pair_goal (foldl (pair_step A) ?root' v) \<longleftrightarrow> allowed_merge A (set L) s t v" if "set v \<subseteq> set L" for v
      using that L by (auto simp: pair_word goal_of_ordered allowed_merge_def merging_word_def word_ok_set)
    have letters: "\<And>v. allowed_merge A (set L) s t v \<Longrightarrow> set v \<subseteq> set L" by (simp add: allowed_merge_def)
    show ?thesis
    proof (cases "pair_search_found A L ?root ?root' ?st")
      case True
      then obtain nodes words k where k: "k < length nodes" "ps_goal ?st = ps_queue ?st ! k" "ps_goal ?st \<noteq> SG_INDEX_NONE"
        and R: "pair_search_ok A ?root nodes ?st" and T: "search_tree (pair_step A) (set L) ?root' nodes words"
        and d: "distinct (payloads nodes)" and short: "shortest_goal_word (pair_step A) (set L) pair_goal ?root' (words ! k)"
        unfolding pair_search_found_def by blast
      have "sg_allowed_merge_word A s t L = Inr (words ! k)"
        using word k pair_search_follow[OF A R T d k(1), of "[]"] by simp
      with short goal letters show ?thesis by (auto simp: shortest_goal_word_def)
    next
      case False
      then have none: "\<And>v. set v \<subseteq> set L \<Longrightarrow> \<not> allowed_merge A (set L) s t v" and "ps_goal ?st = SG_INDEX_NONE"
        using run goal by simp_all
      moreover have "\<not> allowed_merge A (set L) s t v" for v using none letters by blast
      ultimately show ?thesis using word by simp
    qed
  qed
qed

section \<open>The allowed merge of a support\<close>

definition allowed_choice ::
  "sg_automaton \<Rightarrow> sg_bitset \<Rightarrow> nat set \<Rightarrow> (nat \<times> nat) set \<Rightarrow> sg_merge_choice \<Rightarrow> bool" where
  "allowed_choice A s L P best \<longleftrightarrow> best = sg_merge_choice_init \<or>
     (\<exists>x y. (x, y) \<in> P \<and> allowed_merge A L x y (mc_word best) \<and>
        sg_apply_word_set A s (mc_word best) = Inr (mc_support best))"

lemma sg_consider_allowed_ok:
  assumes wf: "wf_automaton A" and L: "set L \<subseteq> {..<au_action_count A}"
    and xy: "(x, y) \<in> P" "x < au_state_count A" "y < au_state_count A"
    and C: "allowed_choice A s (set L) P best" and run: "sg_consider_allowed A s L (x, y) best = Inr best'"
  shows "allowed_choice A s (set L) P best'"
proof (cases "sg_allowed_merge_word A x y L")
  case (Inl e)
  with run C show ?thesis by (auto simp: sg_consider_allowed_def split: if_splits)
next
  case (Inr w)
  then have "allowed_merge A (set L) x y w" using sg_allowed_merge_word_ok[OF wf L xy(2,3)] by simp
  with Inr run C xy(1) show ?thesis
    by (auto simp: sg_consider_allowed_def sg_consider_merge_def Let_def allowed_choice_def split: if_splits)
qed

lemma allowed_fold_ok:
  assumes wf: "wf_automaton A" and L: "set L \<subseteq> {..<au_action_count A}"
    and P: "P \<subseteq> {..<au_state_count A} \<times> {..<au_state_count A}"
  shows "set xs \<subseteq> P \<Longrightarrow> allowed_choice A s (set L) P best \<Longrightarrow>
    fold_res (sg_consider_allowed A s L) xs best = Inr best' \<Longrightarrow> allowed_choice A s (set L) P best'"
proof (induction xs arbitrary: best)
  case (Cons xy xs)
  obtain x y where xy: "xy = (x, y)" by (cases xy)
  with Cons.prems(1) P have b: "(x, y) \<in> P" "x < au_state_count A" "y < au_state_count A" by auto
  from Cons.prems(3) obtain b1 where "sg_consider_allowed A s L (x, y) best = Inr b1"
    "fold_res (sg_consider_allowed A s L) xs b1 = Inr best'" by (auto simp: xy)
  with Cons.IH[OF _ sg_consider_allowed_ok[OF wf L b Cons.prems(2)]] Cons.prems(1) show ?case by simp
qed simp

lemma sg_allowed_merge_step_Some:
  assumes wf: "wf_automaton A" and L: "set L \<subseteq> {..<au_action_count A}" and s: "support_ok A s"
    and run: "sg_allowed_merge_step A L s = Inr (Some (w, t))"
  shows "set w \<subseteq> set L" "sg_apply_word_set A s w = Inr t"
    "\<exists>x \<in> bitset_set s. \<exists>y \<in> bitset_set s. x \<noteq> y \<and> merging_word A x y w"
proof -
  from run obtain best where best: "fold_res (sg_consider_allowed A s L) (sg_active_pairs A s) sg_merge_choice_init = Inr best"
    "mc_pair best \<noteq> SG_INDEX_NONE" "w = mc_word best" "t = mc_support best"
    by (auto simp: sg_allowed_merge_step_def sg_best_merge_allowed_def split: sum.splits if_splits elim!: rbind_eq_InrE)
  have "allowed_choice A s (set L) (set (sg_active_pairs A s)) sg_merge_choice_init" by (simp add: allowed_choice_def)
  note C = allowed_fold_ok[OF wf L active_pairs_bound[OF s] subset_refl this best(1)]
  have "best \<noteq> sg_merge_choice_init" using best(2) by (auto simp: sg_merge_choice_init_def)
  with C obtain x y where xy: "(x, y) \<in> set (sg_active_pairs A s)" "allowed_merge A (set L) x y w"
    "sg_apply_word_set A s w = Inr t"
    unfolding best(3,4) allowed_choice_def by blast
  then show "set w \<subseteq> set L" "sg_apply_word_set A s w = Inr t" by (simp_all add: allowed_merge_def)
  from xy(1) have "x \<in> bitset_set s" "y \<in> bitset_set s" "x \<noteq> y" by (auto simp: active_pairs(1)[OF s])
  with xy(2) show "\<exists>x \<in> bitset_set s. \<exists>y \<in> bitset_set s. x \<noteq> y \<and> merging_word A x y w"
    unfolding allowed_merge_def by blast
qed

lemma sg_allowed_merge_step_ok:
  assumes "wf_automaton A" "set L \<subseteq> {..<au_action_count A}"
  shows "merge_step_ok A (set (allowed_letters A (Ref L))) (sg_allowed_merge_step A L)"
    and "merge_shrinks A (sg_allowed_merge_step A L)"
  using sg_allowed_merge_step_Some[OF assms] merge_shrinks_intro[OF assms(1)]
  by (auto simp: merge_step_ok_def allowed_letters_def)

text \<open>The arrays of the pair search fit.\<close>

definition pair_arrays_ok :: "sg_automaton \<Rightarrow> bool" where
  "pair_arrays_ok A \<longleftrightarrow> au_state_count A * (au_state_count A + 1) div 2 * 8 \<le> SIZE_MAX"

lemma sg_allowed_merge_step_total:
  assumes wf: "wf_automaton A" and L: "set L \<subseteq> {..<au_action_count A}" and size: "pair_arrays_ok A"
  shows "merge_total A (sg_allowed_merge_step A L)"
  unfolding merge_total_def
proof (intro allI impI)
  fix s assume s: "support_ok A s"
  have step: "\<exists>b. sg_consider_allowed A s L xy best = Inr b" if mem: "xy \<in> set (sg_active_pairs A s)" for xy best
  proof -
    obtain x y where xy: "xy = (x, y)" "x < au_state_count A" "y < au_state_count A"
      using subsetD[OF active_pairs_bound[OF s] mem] by (cases xy) auto
    note m = sg_allowed_merge_word_ok[OF wf L xy(2,3)]
    show ?thesis
    proof (cases "sg_allowed_merge_word A x y L")
      case (Inl e)
      with m size show ?thesis by (auto simp: sg_consider_allowed_def xy(1) pair_arrays_ok_def)
    next
      case (Inr w)
      with m have "word_ok A w" by (simp add: allowed_merge_def merging_word_def)
      then obtain t where "sg_apply_word_set A s w = Inr t" using sg_apply_word_set_exists[OF wf s] by blast
      with Inr show ?thesis by (simp add: sg_consider_allowed_def sg_consider_merge_def xy(1) Let_def)
    qed
  qed
  have "\<exists>b. fold_res (sg_consider_allowed A s L) xs best = Inr b" if "set xs \<subseteq> set (sg_active_pairs A s)" for xs best
    using that
  proof (induction xs arbitrary: best)
    case (Cons xy xs)
    then obtain b where "sg_consider_allowed A s L xy best = Inr b" using step[of xy best] by auto
    with Cons show ?case by simp
  qed simp
  then obtain best where "fold_res (sg_consider_allowed A s L) (sg_active_pairs A s) sg_merge_choice_init = Inr best" by blast
  then show "\<exists>m. sg_allowed_merge_step A L s = Inr m"
    by (simp add: sg_allowed_merge_step_def sg_best_merge_allowed_def)
qed

section \<open>The restricted planner\<close>

text \<open>C6. The restricted merge word is a shortest word over the allowed letters that merges the two
  states; if the code reports none, there is none; and the only other failure is that the arrays of
  the search do not fit in \<open>size_t\<close>.\<close>

theorem allowed_merge_word_shortest:
  assumes "wf_automaton A" "set allowed \<subseteq> {..<au_action_count A}"
    and "s < au_state_count A" "t < au_state_count A"
  shows "case sg_allowed_merge_word A s t allowed of
      Inr w \<Rightarrow> set w \<subseteq> set allowed \<and> merging_word A s t w \<and>
        (\<forall>v. set v \<subseteq> set allowed \<and> merging_word A s t v \<longrightarrow> length w \<le> length v)
    | Inl e \<Rightarrow> e = SG_ERR_NOT_FOUND \<and> \<not> (\<exists>v. set v \<subseteq> set allowed \<and> merging_word A s t v) \<or>
        e = SG_ERR_ALLOC \<and> \<not> pair_arrays_ok A"
  using sg_allowed_merge_word_ok[OF assms]
  by (auto simp: allowed_merge_def pair_arrays_ok_def split: sum.splits)

text \<open>C13. A plan of \<open>sg_plan_sync_allowed\<close> keeps to the allowed letters: its PLAN synchronizes the
  initial states by allowed letters only, its NO_PLAN means that no allowed word does, and the
  expansions stay within the budget.\<close>

theorem plan_sync_allowed_sound:
  assumes "wf_automaton A" "budget \<le> SIZE_MAX"
    and "sg_plan_sync_allowed (Ref A) initial_states allowed_actions budget start end_time = Inr r"
  shows "\<exists>ids allowed. initial_states = Ref ids \<and> ids \<noteq> [] \<and> set ids \<subseteq> {..<au_state_count A} \<and>
    allowed_actions = Ref allowed \<and> set allowed \<subseteq> {..<au_action_count A} \<and>
    sync_result_ok A (set allowed) (set ids) budget r"
proof -
  obtain ids allowed where i: "initial_states = Ref ids" "ids \<noteq> []" "allowed_actions = Ref allowed"
    and L: "set allowed \<subseteq> {..<au_action_count A}"
    and run: "sg_sync_plan A (sg_allowed_merge_step A allowed) ids (Ref allowed) budget start end_time = Inr r"
    using assms(3)
    by (auto simp: sg_plan_sync_allowed_def sg_allowed_actions_valid_def list_all_iff split: option.splits if_splits)
  have "set ids \<subseteq> {..<au_state_count A}"
    using run sg_sync_plan_invalid[OF assms(1)] by (metis Inl_Inr_False)
  moreover have "sync_result_ok A (set (allowed_letters A (Ref allowed))) (set ids) budget r"
    by (rule sg_sync_plan_ok(1)[OF assms(1) sg_allowed_merge_step_ok(1)[OF assms(1) L] _ assms(2) run])
       (simp add: allowed_letters_def L)
  ultimately show ?thesis using i L by (auto simp: allowed_letters_def)
qed

text \<open>C25. \<open>sg_plan_sync_allowed\<close> needs no oracle and never fails on valid arguments whose pair arrays
  fit; with a budget of at least \<open>n + 2 ^ n\<close> its answer is definite.\<close>

theorem plan_sync_allowed_definite:
  assumes wf: "wf_automaton A" and size: "pair_arrays_ok A" and B: "budget \<le> SIZE_MAX" "budget \<noteq> 0"
    and ids: "ids \<noteq> []" "set ids \<subseteq> {..<au_state_count A}"
    and L: "allowed \<noteq> []" "set allowed \<subseteq> {..<au_action_count A}"
  shows "\<exists>r. sg_plan_sync_allowed (Ref A) (Ref ids) (Ref allowed) budget start end_time = Inr r \<and>
    (au_state_count A + 2 ^ au_state_count A \<le> budget \<longrightarrow> pr_outcome r \<noteq> SG_OUTCOME_RESOURCE_BOUND)"
proof -
  let ?bm = "sg_allowed_merge_step A allowed"
  note bm = sg_allowed_merge_step_ok[OF wf L(2)]
  have letters: "set (allowed_letters A (Ref allowed)) \<subseteq> {..<au_action_count A}" using L by (simp add: allowed_letters_def)
  obtain r where run: "sg_sync_plan A ?bm ids (Ref allowed) budget start end_time = Inr r"
    using sg_sync_plan_total[OF wf bm(1) sg_allowed_merge_step_total[OF wf L(2) size] letters B(1) ids] by blast
  have "au_state_count A + 2 ^ au_state_count A \<le> budget \<longrightarrow> pr_outcome r \<noteq> SG_OUTCOME_RESOURCE_BOUND"
    using sg_sync_plan_ok(2)[OF wf bm(1) letters B(1) run bm(2)] by auto
  moreover have "sg_allowed_actions_valid (Ref A) (Ref allowed)"
    using L by (auto simp: sg_allowed_actions_valid_def list_all_iff)
  ultimately show ?thesis using run ids(1) B(2) by (simp add: sg_plan_sync_allowed_def)
qed

theorem allowed_merge_word_shortest_witness:
  "case sg_allowed_merge_word demo_automaton 0 1 [1] of
      Inr w \<Rightarrow> merging_word demo_automaton 0 1 w \<and> length w \<le> 1
    | Inl e \<Rightarrow> False"
proof -
  have L: "set [1] \<subseteq> {..<au_action_count demo_automaton}" "0 < au_state_count demo_automaton"
    "1 < au_state_count demo_automaton"
    by (simp_all add: demo_automaton_def)
  have m: "merging_word demo_automaton 0 1 [1]" by code_simp
  have size: "pair_arrays_ok demo_automaton" by (simp add: pair_arrays_ok_def demo_automaton_def SIZE_MAX_def)
  show ?thesis
  proof (cases "sg_allowed_merge_word demo_automaton 0 1 [1]")
    case (Inl e)
    with allowed_merge_word_shortest[OF demo_wf L] m size show ?thesis by fastforce
  next
    case (Inr w)
    have "length w \<le> length [1 :: nat]"
      using allowed_merge_word_shortest[OF demo_wf L] m unfolding Inr sum.case by (metis order_refl)
    with Inr allowed_merge_word_shortest[OF demo_wf L] show ?thesis by simp
  qed
qed

lemma demo_allowed:
  "\<exists>r. sg_plan_sync_allowed (Ref demo_automaton) (Ref [0, 1, 2]) (Ref [1]) 11 0 0 = Inr r"
proof -
  have "set [0, 1, 2] \<subseteq> {..<au_state_count demo_automaton}" "set [1] \<subseteq> {..<au_action_count demo_automaton}"
    "pair_arrays_ok demo_automaton" "11 \<le> SIZE_MAX"
    by (simp_all add: demo_automaton_def SIZE_MAX_def pair_arrays_ok_def)
  then show ?thesis
    using sg_sync_plan_total[OF demo_wf sg_allowed_merge_step_ok(1)[OF demo_wf] sg_allowed_merge_step_total[OF demo_wf],
        of "[1]" 11 "[0, 1, 2]" 0 0]
    by (auto simp: sg_plan_sync_allowed_def sg_allowed_actions_valid_def allowed_letters_def demo_automaton_def)
qed

text \<open>With \<open>join\<close> alone the last state stays apart, so the restricted planner has no plan.\<close>

theorem plan_sync_allowed_sound_witness:
  "\<exists>r. sg_plan_sync_allowed (Ref demo_automaton) (Ref [0, 1, 2]) (Ref [1]) 11 0 0 = Inr r \<and>
    pr_outcome r \<noteq> SG_OUTCOME_PLAN"
proof -
  obtain r where run: "sg_plan_sync_allowed (Ref demo_automaton) (Ref [0, 1, 2]) (Ref [1]) 11 0 0 = Inr r"
    using demo_allowed by blast
  have B: "11 \<le> SIZE_MAX" by (simp add: SIZE_MAX_def)
  have ok: "sync_result_ok demo_automaton {1} (set [0, 1, 2]) 11 r"
    using plan_sync_allowed_sound[OF demo_wf B run] by auto
  have d: "delta demo_automaton 2 1 = 2" "delta demo_automaton 0 1 = 0" by code_simp+
  have keep: "run_word demo_automaton 2 w = 2 \<and> run_word demo_automaton 0 w = 0" if "set w \<subseteq> {1}" for w
    using that d by (induction w) auto
  have "pr_outcome r \<noteq> SG_OUTCOME_PLAN"
  proof
    assume "pr_outcome r = SG_OUTCOME_PLAN"
    with ok have "set (pr_word r) \<subseteq> {1}" "motion_image demo_automaton {0, 1, 2} (pr_word r) = {pr_final_state r}"
      by (simp_all add: sync_result_ok_def)
    with keep[of "pr_word r"] show False by (auto simp: motion_image_def)
  qed
  with run show ?thesis by blast
qed

theorem plan_sync_allowed_definite_witness:
  "\<exists>r. sg_plan_sync_allowed (Ref demo_automaton) (Ref [0, 1, 2]) (Ref [1]) 11 0 0 = Inr r \<and>
    pr_outcome r \<noteq> SG_OUTCOME_RESOURCE_BOUND"
proof -
  have "set [0, 1, 2] \<subseteq> {..<au_state_count demo_automaton}" "set [1] \<subseteq> {..<au_action_count demo_automaton}"
    "au_state_count demo_automaton + 2 ^ au_state_count demo_automaton \<le> 11" "11 \<le> SIZE_MAX"
    "pair_arrays_ok demo_automaton"
    by (simp_all add: demo_automaton_def SIZE_MAX_def pair_arrays_ok_def)
  with plan_sync_allowed_definite[OF demo_wf, of 11 "[0, 1, 2]" "[1]" 0 0] show ?thesis by auto
qed

end
