(* ===== verification/Sync_Goal.thy ===== *)
theory Sync_Goal
  imports Sync_Allowed
begin

text \<open>
  Goal plans (src/planner.c): a breadth-first search over motion supports for a shortest word over
  the allowed letters after which every possible state is a goal state.
\<close>

section \<open>The search of the code\<close>

type_synonym sg_belief_node = "sg_bitset sg_node"

text \<open>\<open>None\<close> stands for \<open>SG_INDEX_NONE\<close>.\<close>

definition sg_belief_search_find :: "sg_belief_node list \<Rightarrow> sg_bitset \<Rightarrow> nat option" where
  "sg_belief_search_find nodes support =
     List.find (\<lambda>index. sg_bitset_equal (nd_payload (nodes ! index)) support) [0..<length nodes]"

definition sg_belief_search_add ::
  "sg_belief_node list \<Rightarrow> sg_bitset \<Rightarrow> nat \<Rightarrow> nat \<Rightarrow> sg_belief_node list \<times> nat" where
  "sg_belief_search_add nodes support parent action =
     (nodes @ [\<lparr>nd_payload = support, nd_parent = parent, nd_action = action\<rparr>], length nodes)"

definition sg_belief_reconstruct :: "sg_belief_node list \<Rightarrow> nat \<Rightarrow> nat list" where
  "sg_belief_reconstruct nodes goal = sg_reverse_word (sg_follow_parents nodes [] goal)"

fun sg_belief_letters ::
  "sg_automaton \<Rightarrow> sg_bitset \<Rightarrow> nat \<Rightarrow> nat list \<Rightarrow> sg_belief_node list \<Rightarrow>
     (sg_belief_node list \<times> nat option) res" where
  "sg_belief_letters automaton goals parent [] nodes = Inr (nodes, None)"
| "sg_belief_letters automaton goals parent (action # actions) nodes =
     rbind (sg_bitset_init (au_state_count automaton)) (\<lambda>next.
     let next = sg_apply_action_set automaton (nd_payload (nodes ! parent)) action next
     in if sg_belief_search_find nodes next \<noteq> None
        then sg_belief_letters automaton goals parent actions nodes
        else let (nodes, next_index) = sg_belief_search_add nodes next parent action
             in if sg_bitset_subset (nd_payload (nodes ! next_index)) goals
                then Inr (nodes, Some next_index)
                else sg_belief_letters automaton goals parent actions nodes)"

text \<open>The result is the array, the goal node or none, whether the budget ended the loop, and the
  expansions.\<close>

function sg_belief_loop ::
  "sg_automaton \<Rightarrow> sg_bitset \<Rightarrow> nat list \<Rightarrow> nat \<Rightarrow> sg_belief_node list \<Rightarrow> nat \<Rightarrow> nat \<Rightarrow>
     (sg_belief_node list \<times> nat option \<times> bool \<times> nat) res" where
  "sg_belief_loop automaton goals allowed budget nodes head expansions =
     (if \<not> head < length nodes then Inr (nodes, None, False, expansions)
      else if expansions \<ge> budget then Inr (nodes, None, True, expansions)
      else case sg_belief_letters automaton goals head allowed nodes of
             Inl status \<Rightarrow> Inl status
           | Inr (nodes, Some found) \<Rightarrow> Inr (nodes, Some found, False, expansions + 1)
           | Inr (nodes, None) \<Rightarrow>
               sg_belief_loop automaton goals allowed budget nodes (head + 1) (expansions + 1))"
  by pat_completeness auto
termination
  by (relation "measure (\<lambda>(automaton, goals, allowed, budget, nodes, head, expansions). budget - expansions)") auto

declare sg_belief_loop.simps [simp del]

definition sg_goal_finalize ::
  "sg_automaton \<Rightarrow> sg_bitset \<Rightarrow> sg_bitset \<Rightarrow> sg_plan_result \<Rightarrow> sg_plan_result res" where
  "sg_goal_finalize automaton initial goals result =
     rbind (sg_apply_word_set automaton initial (pr_word result)) (\<lambda>final.
     if \<not> sg_bitset_subset final goals then Inl SG_ERR_INVALID_MODEL
     else let size = sg_bitset_count final
          in sg_fill_plan_metrics automaton initial
               (result\<lparr>pr_final_support_size := size,
                       pr_final_state := (if size = 1 then sg_bitset_to_ids final ! 0 else SG_INDEX_NONE)\<rparr>))"

definition sg_plan_goal_search ::
  "sg_automaton \<Rightarrow> sg_bitset \<Rightarrow> sg_bitset \<Rightarrow> nat list \<Rightarrow> nat \<Rightarrow> sg_plan_result \<Rightarrow> sg_plan_result res" where
  "sg_plan_goal_search automaton initial goals allowed budget result =
     rbind (sg_bitset_copy initial) (\<lambda>root.
     let (nodes, root_index) = sg_belief_search_add [] root SG_INDEX_NONE SG_INDEX_NONE
     in rbind (sg_belief_loop automaton goals allowed budget nodes 0 (pr_expansions result))
          (\<lambda>(nodes, found, bounded, expansions).
          let result = result\<lparr>pr_expansions := expansions\<rparr>
          in case found of
               Some index \<Rightarrow>
                 sg_goal_finalize automaton initial goals
                   (result\<lparr>pr_word := sg_belief_reconstruct nodes index, pr_outcome := SG_OUTCOME_PLAN,
                           pr_method := SG_METHOD_BELIEF_BFS\<rparr>)
             | None \<Rightarrow>
                 Inr (result\<lparr>pr_outcome := (if bounded then SG_OUTCOME_RESOURCE_BOUND
                                            else SG_OUTCOME_NO_PLAN)\<rparr>)))"

definition sg_plan_goal ::
  "sg_automaton ptr \<Rightarrow> nat list ptr \<Rightarrow> nat list ptr \<Rightarrow> nat list ptr \<Rightarrow> nat \<Rightarrow> 64 word \<Rightarrow> 64 word \<Rightarrow>
     sg_plan_result res" where
  "sg_plan_goal automaton initial_states goal_states allowed_actions budget start end_time =
     (if \<not> sg_allowed_actions_valid automaton allowed_actions then Inl SG_ERR_INVALID_ARGUMENT
      else case (automaton, initial_states, goal_states, allowed_actions) of
        (Ref a, Ref ids, Ref goal_ids, Ref allowed) \<Rightarrow>
          if ids = [] \<or> goal_ids = [] \<or> budget = 0 then Inl SG_ERR_INVALID_ARGUMENT
          else let result = sg_plan_result_init a
               in rbind (sg_bitset_from_ids (au_state_count a) (Ref ids)) (\<lambda>initial.
                  rbind (sg_bitset_from_ids (au_state_count a) (Ref goal_ids)) (\<lambda>goals.
                  rbind
                    (if sg_bitset_subset initial goals
                     then sg_goal_finalize a initial goals
                            (result\<lparr>pr_outcome := SG_OUTCOME_ALREADY_SATISFIED\<rparr>)
                     else sg_plan_goal_search a initial goals allowed budget result)
                    (\<lambda>result. Inr (result\<lparr>pr_planning_time_us := sg_elapsed_us start end_time\<rparr>))))
      | _ \<Rightarrow> Inl SG_ERR_INVALID_ARGUMENT)"

section \<open>Correctness of the search\<close>

lemma sg_belief_search_find_None:
  "sg_belief_search_find nodes s \<noteq> None \<longleftrightarrow> list_ex (\<lambda>n. sg_bitset_equal (nd_payload n) s) nodes"
  by (auto simp: sg_belief_search_find_def find_None_iff list_ex_length)

text \<open>On valid supports the loops compute the reference search.\<close>

lemma sg_belief_letters_expand:
  assumes wf: "wf_automaton A"
  shows "\<forall>n \<in> set nodes. support_ok A (nd_payload n) \<Longrightarrow> head < length nodes \<Longrightarrow>
    \<forall>a \<in> set as. action_ok A a \<Longrightarrow>
    sg_belief_letters A goals head as nodes =
      Inr (expand_node (support_step A) (\<lambda>s. sg_bitset_subset s goals) head as nodes)"
proof (induction as arbitrary: nodes)
  case (Cons a as)
  let ?q = "support_step A (nd_payload (nodes ! head)) a"
  let ?nodes = "nodes @ [\<lparr>nd_payload = ?q, nd_parent = head, nd_action = a\<rparr>]"
  have q: "support_ok A ?q" using Cons.prems by (intro support_step_ok(1)[OF wf]) (auto simp: action_ok_def)
  have init: "sg_bitset_init (au_state_count A) = Inr (sg_bitset_zero (au_state_count A))"
    using wf by (simp add: wf_automatonD)
  have known: "sg_belief_search_find nodes ?q \<noteq> None \<longleftrightarrow> ?q \<in> set (payloads nodes)"
    unfolding sg_belief_search_find_None by (rule supports.known_valid_iff[OF wf Cons.prems(1) q])
  have all: "\<forall>n \<in> set ?nodes. support_ok A (nd_payload n)" "head < length ?nodes"
    using Cons.prems(1,2) q by auto
  show ?case
    using Cons.IH[OF Cons.prems(1,2)] Cons.IH[OF all] Cons.prems(3) known
    by (simp add: init support_step_def[symmetric] sg_belief_search_add_def Let_def)
qed simp

lemma sg_belief_loop_run:
  assumes wf: "wf_automaton A" and L: "\<forall>a \<in> set L. action_ok A a"
  shows "\<forall>n \<in> set nodes. support_ok A (nd_payload n) \<Longrightarrow>
    sg_belief_loop A goals L budget nodes head expansions =
      Inr (run_search (support_step A) (\<lambda>s. sg_bitset_subset s goals) L budget nodes head expansions)"
proof (induction "budget - expansions" arbitrary: nodes head expansions rule: less_induct)
  case (less expansions nodes head)
  let ?goal = "\<lambda>s. sg_bitset_subset s goals"
  show ?case
  proof (cases "head < length nodes \<and> expansions < budget")
    case False
    then show ?thesis by (auto simp: sg_belief_loop.simps[of _ _ _ _ nodes] run_search.simps[of _ _ _ _ nodes])
  next
    case True
    obtain nodes' found where run: "expand_node (support_step A) ?goal head L nodes = (nodes', found)" by fastforce
    have valid: "\<forall>n \<in> set nodes'. support_ok A (nd_payload n)"
      using supports.expand_node_valid[OF wf less.prems _ L run] True by blast
    have "sg_belief_loop A goals L budget nodes' (Suc head) (Suc expansions) =
        Inr (run_search (support_step A) ?goal L budget nodes' (Suc head) (Suc expansions))"
      by (rule less.hyps[OF _ valid]) (use True in arith)
    then show ?thesis
      using True run sg_belief_letters_expand[OF wf less.prems _ L, of head goals]
      by (cases found) (simp_all add: sg_belief_loop.simps[of _ _ _ _ nodes] run_search.simps[of _ _ _ _ nodes])
  qed
qed

section \<open>What a goal plan is\<close>

definition goal_word :: "sg_automaton \<Rightarrow> nat set \<Rightarrow> nat set \<Rightarrow> nat set \<Rightarrow> nat list \<Rightarrow> bool" where
  "goal_word A L H G w \<longleftrightarrow> set w \<subseteq> L \<and> motion_image A H w \<subseteq> G"

text \<open>The end of a plan: how many states are left and, if it is one, which.\<close>

definition final_ok :: "sg_automaton \<Rightarrow> nat set \<Rightarrow> sg_plan_result \<Rightarrow> bool" where
  "final_ok A H r \<longleftrightarrow>
     pr_final_support_size r = card (motion_image A H (pr_word r)) \<and>
     (if pr_final_support_size r = 1 then motion_image A H (pr_word r) = {pr_final_state r}
      else pr_final_state r = SG_INDEX_NONE) \<and>
     pr_worst_support_size r = Max (branch_sizes A H (pr_word r)) \<and>
     pr_branch_count r = card (trace_set A H (pr_word r)) \<and>
     (pr_homing r \<longleftrightarrow> homing_word A H (pr_word r))"

definition goal_result_ok ::
  "sg_automaton \<Rightarrow> nat set \<Rightarrow> nat set \<Rightarrow> nat set \<Rightarrow> nat \<Rightarrow> sg_plan_result \<Rightarrow> bool" where
  "goal_result_ok A L H G budget r \<longleftrightarrow>
     pr_expansions r \<le> budget \<and> pr_generation r = au_generation A \<and>
     (case pr_outcome r of
        SG_OUTCOME_PLAN \<Rightarrow> goal_word A L H G (pr_word r) \<and> final_ok A H r \<and>
          (\<forall>v. goal_word A L H G v \<longrightarrow> length (pr_word r) \<le> length v)
      | SG_OUTCOME_ALREADY_SATISFIED \<Rightarrow> pr_word r = [] \<and> H \<subseteq> G \<and> final_ok A H r \<and> pr_expansions r = 0
      | SG_OUTCOME_NO_PLAN \<Rightarrow> pr_word r = [] \<and> (\<forall>w. \<not> goal_word A L H G w)
      | SG_OUTCOME_RESOURCE_BOUND \<Rightarrow> pr_word r = [] \<and> pr_expansions r = budget \<and>
          budget < 2 ^ au_state_count A)"

lemma sg_goal_finalize_eq:
  assumes wf: "wf_automaton A" and init: "support_ok A init" "bitset_set init \<noteq> {}"
    and goals: "support_ok A goals" and w: "word_ok A (pr_word r)"
    and goal: "motion_image A (bitset_set init) (pr_word r) \<subseteq> bitset_set goals"
  shows "\<exists>r'. sg_goal_finalize A init goals r = Inr r' \<and> final_ok A (bitset_set init) r' \<and>
    pr_outcome r' = pr_outcome r \<and> pr_word r' = pr_word r \<and> pr_expansions r' = pr_expansions r \<and>
    pr_generation r' = pr_generation r"
proof -
  obtain final where f: "sg_apply_word_set A init (pr_word r) = Inr final"
    using sg_apply_word_set_exists[OF wf init(1) w] by blast
  then have fs: "support_ok A final" "bitset_set final = motion_image A (bitset_set init) (pr_word r)"
    using sg_apply_word_set_iff[OF wf init(1)] by auto
  have sub: "sg_bitset_subset final goals"
    using sg_bitset_subset_iff[of "au_state_count A" final goals] fs goals goal by (simp add: support_ok_def)
  have count: "sg_bitset_count final = card (motion_image A (bitset_set init) (pr_word r))"
    using fs sg_bitset_count_card by (simp add: support_ok_def)
  let ?r = "r\<lparr>pr_final_support_size := sg_bitset_count final,
      pr_final_state := (if sg_bitset_count final = 1 then sg_bitset_to_ids final ! 0 else SG_INDEX_NONE)\<rparr>"
  have "sg_goal_finalize A init goals r = Inr (plan_metrics A (bitset_set init) ?r)"
    using f sub w sg_fill_plan_metrics_eq[OF wf init, of ?r] by (simp add: sg_goal_finalize_def Let_def)
  moreover have "final_ok A (bitset_set init) (plan_metrics A (bitset_set init) ?r)"
    using count support_singleton[OF fs(1)] fs(2) by (simp add: final_ok_def)
  ultimately show ?thesis by simp
qed

lemma final_ok_time [simp]: "final_ok A H (r\<lparr>pr_planning_time_us := t\<rparr>) \<longleftrightarrow> final_ok A H r"
  by (simp add: final_ok_def cong: if_cong)

lemma goal_result_ok_time [simp]:
  "goal_result_ok A L H G budget (r\<lparr>pr_planning_time_us := t\<rparr>) \<longleftrightarrow> goal_result_ok A L H G budget r"
  by (cases "pr_outcome r") (simp_all add: goal_result_ok_def)

lemma sg_plan_goal_search_ok:
  assumes wf: "wf_automaton A" and init: "support_ok A init" "bitset_set init \<noteq> {}" "\<not> sg_bitset_subset init goals"
    and goals: "support_ok A goals" and L: "set L \<subseteq> {..<au_action_count A}"
    and B: "budget \<le> SIZE_MAX" and r: "pr_expansions r = 0" "pr_word r = []" "pr_generation r = au_generation A"
  shows "\<exists>r'. sg_plan_goal_search A init goals L budget r = Inr r' \<and>
    goal_result_ok A (set L) (bitset_set init) (bitset_set goals) budget r'"
proof -
  let ?goal = "\<lambda>s. sg_bitset_subset s goals" and ?H = "bitset_set init" and ?G = "bitset_set goals"
  let ?nodes = "[\<lparr>nd_payload = init, nd_parent = SG_INDEX_NONE, nd_action = SG_INDEX_NONE\<rparr>]"
  obtain nodes' found bounded e where loop: "sg_belief_loop A goals L budget ?nodes 0 0 = Inr (nodes', found, bounded, e)"
    and out: "search_outcome (support_step A) (set L) ?goal init (2 ^ au_state_count A) 0 budget
        (if found \<noteq> None then SG_OUTCOME_PLAN
         else if bounded then SG_OUTCOME_RESOURCE_BOUND else SG_OUTCOME_NO_PLAN)
        (case found of Some k \<Rightarrow> sg_belief_reconstruct nodes' k | None \<Rightarrow> []) e"
    using supports.search_from_root[where goal = ?goal and used = 0, OF wf init(1) letters_ok[OF L] B init(3)]
      sg_belief_loop_run[OF wf letters_ok[OF L], of ?nodes goals budget 0 0] init(1)
    by (auto simp: sg_belief_reconstruct_def simp del: not_None_eq cong: option.case_cong)
  have goal: "?goal (foldl (support_step A) init v) \<longleftrightarrow> goal_word A (set L) ?H ?G v" if "set v \<subseteq> set L" for v
  proof -
    have "word_ok A v" using that L by (auto simp: word_ok_set)
    from support_word[OF wf init(1) this] that show ?thesis
      using sg_bitset_subset_iff[of "au_state_count A" _ goals] goals by (simp add: goal_word_def support_ok_def)
  qed
  have letters: "set v \<subseteq> set L" if "goal_word A (set L) ?H ?G v" for v using that by (simp add: goal_word_def)
  have copy: "sg_bitset_copy init = Inr init" using init(1) by (simp add: support_ok_def)
  note run = sg_plan_goal_search_def sg_belief_search_add_def Let_def
  show ?thesis
  proof (cases found)
    case (Some k)
    let ?w = "sg_belief_reconstruct nodes' k"
    have w: "set ?w \<subseteq> set L" "goal_word A (set L) ?H ?G ?w"
      "\<forall>v. goal_word A (set L) ?H ?G v \<longrightarrow> length ?w \<le> length v" "e \<le> budget"
      using out Some goal letters by (auto simp: shortest_goal_word_def)
    let ?r = "r\<lparr>pr_expansions := e, pr_word := ?w, pr_outcome := SG_OUTCOME_PLAN, pr_method := SG_METHOD_BELIEF_BFS\<rparr>"
    have "word_ok A (pr_word ?r)" "motion_image A ?H (pr_word ?r) \<subseteq> ?G"
      using w L by (auto simp: word_ok_set goal_word_def)
    from sg_goal_finalize_eq[OF wf init(1,2) goals this] obtain r' where
      "sg_goal_finalize A init goals ?r = Inr r'" "final_ok A ?H r'" "pr_outcome r' = SG_OUTCOME_PLAN"
      "pr_word r' = ?w" "pr_expansions r' = e" "pr_generation r' = au_generation A" using r by auto
    with w loop copy r Some show ?thesis by (simp add: run goal_result_ok_def)
  next
    case None
    have none: "\<not> goal_word A (set L) ?H ?G v" if "\<not> bounded" for v
      using out None that goal letters[of v] by auto
    with None out loop copy r show ?thesis by (cases bounded) (simp_all add: run goal_result_ok_def)
  qed
qed

section \<open>The planner\<close>

lemma sg_plan_goal_cases:
  assumes wf: "wf_automaton A" and B: "budget \<le> SIZE_MAX" "budget \<noteq> 0"
    and ids: "ids \<noteq> []" "set ids \<subseteq> {..<au_state_count A}"
    and gs: "gs \<noteq> []" "set gs \<subseteq> {..<au_state_count A}"
    and L: "allowed \<noteq> []" "set allowed \<subseteq> {..<au_action_count A}"
  shows "\<exists>r. sg_plan_goal (Ref A) (Ref ids) (Ref gs) (Ref allowed) budget start end_time = Inr r \<and>
    goal_result_ok A (set allowed) (set ids) (set gs) budget r"
proof -
  let ?r0 = "sg_plan_result_init A"
  have r0: "pr_word ?r0 = []" "pr_expansions ?r0 = 0" "pr_generation ?r0 = au_generation A"
    by (simp_all add: sg_plan_result_init_def)
  obtain init where init: "sg_bitset_from_ids (au_state_count A) (Ref ids) = Inr init" "support_ok A init"
    "bitset_set init = set ids" "bitset_set init \<noteq> {}" using from_ids_cases[OF wf, of ids] ids by auto
  obtain goals where goals: "sg_bitset_from_ids (au_state_count A) (Ref gs) = Inr goals" "support_ok A goals"
    "bitset_set goals = set gs" using from_ids_cases[OF wf, of gs] gs by auto
  have sub: "sg_bitset_subset init goals \<longleftrightarrow> set ids \<subseteq> set gs"
    using sg_bitset_subset_iff[of "au_state_count A" init goals] init goals by (simp add: support_ok_def)
  have valid: "sg_allowed_actions_valid (Ref A) (Ref allowed)"
    using L by (auto simp: sg_allowed_actions_valid_def list_all_iff)
  note run = sg_plan_goal_def Let_def
  show ?thesis
  proof (cases "sg_bitset_subset init goals")
    case True
    let ?r = "?r0\<lparr>pr_outcome := SG_OUTCOME_ALREADY_SATISFIED\<rparr>"
    have "word_ok A (pr_word ?r)" "motion_image A (bitset_set init) (pr_word ?r) \<subseteq> bitset_set goals"
      using True sub r0 init goals by simp_all
    from sg_goal_finalize_eq[OF wf init(2,4) goals(2) this] obtain r where
      "sg_goal_finalize A init goals ?r = Inr r" "final_ok A (set ids) r" "pr_outcome r = SG_OUTCOME_ALREADY_SATISFIED"
      "pr_word r = []" "pr_expansions r = 0" "pr_generation r = au_generation A" by (auto simp: r0 init(3))
    with True valid ids gs B init goals sub show ?thesis by (simp add: run goal_result_ok_def)
  next
    case False
    from sg_plan_goal_search_ok[OF wf init(2,4) False goals(2) L(2) B(1) r0(2,1,3)] obtain r where
      "sg_plan_goal_search A init goals allowed budget ?r0 = Inr r"
      "goal_result_ok A (set allowed) (set ids) (set gs) budget r" by (auto simp: init goals)
    with False valid ids gs B init goals show ?thesis by (simp add: run)
  qed
qed

text \<open>C5. \<open>sg_plan_goal\<close> on valid arguments never fails; its PLAN is a shortest word over the allowed
  letters that leads every initial state into the goal set and names the final state if one is left;
  NO_PLAN means that no allowed word does that; and RESOURCE_BOUND is reported only with the whole
  budget spent and a budget below \<open>2 ^ n\<close> for \<open>n\<close> states.\<close>

theorem plan_goal_shortest:
  assumes "wf_automaton A" "budget \<le> SIZE_MAX" "budget \<noteq> 0"
    and "ids \<noteq> []" "set ids \<subseteq> {..<au_state_count A}" "gs \<noteq> []" "set gs \<subseteq> {..<au_state_count A}"
    and "allowed \<noteq> []" "set allowed \<subseteq> {..<au_action_count A}"
  shows "\<exists>r. sg_plan_goal (Ref A) (Ref ids) (Ref gs) (Ref allowed) budget start end_time = Inr r \<and>
    pr_expansions r \<le> budget \<and>
    (case pr_outcome r of
       SG_OUTCOME_PLAN \<Rightarrow> goal_word A (set allowed) (set ids) (set gs) (pr_word r) \<and> final_ok A (set ids) r \<and>
         (\<forall>v. goal_word A (set allowed) (set ids) (set gs) v \<longrightarrow> length (pr_word r) \<le> length v)
     | SG_OUTCOME_ALREADY_SATISFIED \<Rightarrow> pr_word r = [] \<and> set ids \<subseteq> set gs
     | SG_OUTCOME_NO_PLAN \<Rightarrow> \<not> (\<exists>w. goal_word A (set allowed) (set ids) (set gs) w)
     | SG_OUTCOME_RESOURCE_BOUND \<Rightarrow> pr_expansions r = budget \<and> budget < 2 ^ au_state_count A)"
proof -
  from sg_plan_goal_cases[OF assms] obtain r where
    "sg_plan_goal (Ref A) (Ref ids) (Ref gs) (Ref allowed) budget start end_time = Inr r"
    "goal_result_ok A (set allowed) (set ids) (set gs) budget r" by blast
  then show ?thesis by (cases "pr_outcome r") (auto simp: goal_result_ok_def)
qed

text \<open>C26. \<open>sg_plan_goal\<close> rejects every other call with an invalid-argument error: missing arrays,
  empty sets, a zero budget, or a state or action out of range.\<close>

theorem plan_goal_error_iff:
  assumes "wf_automaton A" "budget \<le> SIZE_MAX"
  shows "(\<exists>e. sg_plan_goal (Ref A) initial_states goal_states allowed_actions budget start end_time = Inl e) \<longleftrightarrow>
    \<not> (\<exists>ids gs allowed. initial_states = Ref ids \<and> goal_states = Ref gs \<and> allowed_actions = Ref allowed \<and>
        ids \<noteq> [] \<and> set ids \<subseteq> {..<au_state_count A} \<and> gs \<noteq> [] \<and> set gs \<subseteq> {..<au_state_count A} \<and>
        allowed \<noteq> [] \<and> set allowed \<subseteq> {..<au_action_count A} \<and> budget \<noteq> 0)"
    (is "?fails \<longleftrightarrow> \<not> ?valid")
proof
  assume ?fails
  then show "\<not> ?valid" using sg_plan_goal_cases[OF assms] by (metis Inl_Inr_False)
next
  assume inv: "\<not> ?valid"
  show ?fails
  proof (cases "sg_allowed_actions_valid (Ref A) allowed_actions \<and> initial_states \<noteq> NULL \<and> goal_states \<noteq> NULL")
    case False
    then show ?thesis by (auto simp: sg_plan_goal_def split: option.splits)
  next
    case True
    then obtain ids gs allowed where i: "initial_states = Ref ids" "goal_states = Ref gs" "allowed_actions = Ref allowed"
      "allowed \<noteq> []" "set allowed \<subseteq> {..<au_action_count A}"
      by (auto simp: sg_allowed_actions_valid_def list_all_iff split: option.splits)
    with inv have "ids = [] \<or> gs = [] \<or> budget = 0 \<or> \<not> set ids \<subseteq> {..<au_state_count A} \<or> \<not> set gs \<subseteq> {..<au_state_count A}"
      by blast
    with i True from_ids_cases[OF assms(1), of ids] from_ids_cases[OF assms(1), of gs] show ?thesis
      by (cases "sg_bitset_from_ids (au_state_count A) (Ref ids)")
         (auto simp: sg_plan_goal_def Let_def split: if_splits)
  qed
qed

theorem plan_goal_shortest_witness:
  "\<exists>r. sg_plan_goal (Ref demo_automaton) (Ref [0, 1]) (Ref [2]) (Ref [0, 1]) 100 0 0 = Inr r \<and>
    pr_outcome r = SG_OUTCOME_PLAN \<and> length (pr_word r) \<le> 3"
proof -
  have B: "100 \<le> SIZE_MAX" by (simp add: SIZE_MAX_def)
  have args: "set [0, 1] \<subseteq> {..<au_state_count demo_automaton}" "set [2] \<subseteq> {..<au_state_count demo_automaton}"
    "set [0, 1] \<subseteq> {..<au_action_count demo_automaton}" by (simp_all add: demo_automaton_def)
  have "run_word demo_automaton 0 [1, 0, 0] = 2" "run_word demo_automaton 1 [1, 0, 0] = 2" by code_simp+
  then have w: "goal_word demo_automaton (set [0, 1]) (set [0, 1]) (set [2]) [1, 0, 0]"
    by (simp add: goal_word_def motion_image_def del: run_word.simps)
  obtain r where r: "sg_plan_goal (Ref demo_automaton) (Ref [0, 1]) (Ref [2]) (Ref [0, 1]) 100 0 0 = Inr r"
    and ok: "case pr_outcome r of
       SG_OUTCOME_PLAN \<Rightarrow> goal_word demo_automaton (set [0, 1]) (set [0, 1]) (set [2]) (pr_word r) \<and>
         final_ok demo_automaton (set [0, 1]) r \<and>
         (\<forall>v. goal_word demo_automaton (set [0, 1]) (set [0, 1]) (set [2]) v \<longrightarrow> length (pr_word r) \<le> length v)
     | SG_OUTCOME_ALREADY_SATISFIED \<Rightarrow> pr_word r = [] \<and> set [0, 1] \<subseteq> set [2 :: nat]
     | SG_OUTCOME_NO_PLAN \<Rightarrow> \<not> (\<exists>w. goal_word demo_automaton (set [0, 1]) (set [0, 1]) (set [2]) w)
     | SG_OUTCOME_RESOURCE_BOUND \<Rightarrow> pr_expansions r = 100 \<and> (100 :: nat) < 2 ^ au_state_count demo_automaton"
    using plan_goal_shortest[OF demo_wf B _ _ args(1) _ args(2) _ args(3), of 0 0] by auto
  show ?thesis
  proof (cases "pr_outcome r")
    case SG_OUTCOME_PLAN
    with ok w have "length (pr_word r) \<le> length [1 :: nat, 0, 0]" by (simp only: sg_plan_outcome.case)
    with r SG_OUTCOME_PLAN show ?thesis by simp
  next
    case SG_OUTCOME_NO_PLAN
    with ok w have False by (simp only: sg_plan_outcome.case) blast
    then show ?thesis ..
  qed (use ok in \<open>simp_all add: demo_automaton_def\<close>)
qed

theorem plan_goal_error_iff_witness:
  "\<exists>e. sg_plan_goal (Ref demo_automaton) (Ref [0, 7]) (Ref [2]) (Ref [0]) 5 0 0 = Inl e"
proof -
  have "5 \<le> SIZE_MAX" by (simp add: SIZE_MAX_def)
  from plan_goal_error_iff[OF demo_wf this, of "Ref [0, 7]" "Ref [2]" "Ref [0]" 0 0] show ?thesis
    by (simp add: demo_automaton_def)
qed

end
