(* ===== verification/Sync_Partition_Search.thy ===== *)
theory Sync_Partition_Search
  imports Sync_Subset Sync_Partition
begin

text \<open>
  The breadth-first search over support partitions (src/planner.c): \<open>sg_partition_bfs\<close> looks for a
  word after which every observation branch has at most \<open>bound\<close> states. A node holds the canonical
  list of the supports that the branches can have.
\<close>

section \<open>The search of the code\<close>

type_synonym sg_search_node = "sg_support_partition sg_node"

definition sg_search_nodes_add ::
  "sg_search_node list \<Rightarrow> sg_support_partition \<Rightarrow> nat \<Rightarrow> nat \<Rightarrow> sg_search_node list \<times> nat" where
  "sg_search_nodes_add nodes parts parent action =
     (nodes @ [\<lparr>nd_payload = parts, nd_parent = parent, nd_action = action\<rparr>], length nodes)"

text \<open>\<open>None\<close> stands for \<open>SG_INDEX_NONE\<close>.\<close>

definition sg_search_find :: "sg_search_node list \<Rightarrow> sg_support_partition \<Rightarrow> nat option" where
  "sg_search_find nodes parts =
     List.find (\<lambda>index. sg_support_partition_equal (nd_payload (nodes ! index)) parts) [0..<length nodes]"

definition sg_search_reconstruct :: "sg_search_node list \<Rightarrow> nat \<Rightarrow> nat list" where
  "sg_search_reconstruct nodes goal = sg_reverse_word (sg_follow_parents nodes [] goal)"

fun sg_partition_letters ::
  "sg_automaton \<Rightarrow> nat \<Rightarrow> nat \<Rightarrow> nat list \<Rightarrow> sg_search_node list \<Rightarrow> (sg_search_node list \<times> nat option) res" where
  "sg_partition_letters automaton bound parent [] nodes = Inr (nodes, None)"
| "sg_partition_letters automaton bound parent (action # actions) nodes =
     rbind (sg_support_partition_apply_action automaton (nd_payload (nodes ! parent)) action) (\<lambda>next.
     if sg_search_find nodes next \<noteq> None
     then sg_partition_letters automaton bound parent actions nodes
     else let (nodes, next_index) = sg_search_nodes_add nodes next parent action
          in if sg_support_partition_worst (nd_payload (nodes ! next_index)) \<le> bound
             then Inr (nodes, Some next_index)
             else sg_partition_letters automaton bound parent actions nodes)"

text \<open>The result is the array, the goal node or none, whether the budget ended the loop, and the
  expansions.\<close>

function sg_partition_loop ::
  "sg_automaton \<Rightarrow> nat \<Rightarrow> nat list \<Rightarrow> nat \<Rightarrow> sg_search_node list \<Rightarrow> nat \<Rightarrow> nat \<Rightarrow>
     (sg_search_node list \<times> nat option \<times> bool \<times> nat) res" where
  "sg_partition_loop automaton bound actions budget nodes head expansions =
     (if \<not> head < length nodes then Inr (nodes, None, False, expansions)
      else if expansions \<ge> budget then Inr (nodes, None, True, expansions)
      else case sg_partition_letters automaton bound head actions nodes of
             Inl status \<Rightarrow> Inl status
           | Inr (nodes, Some goal) \<Rightarrow> Inr (nodes, Some goal, False, expansions + 1)
           | Inr (nodes, None) \<Rightarrow>
               sg_partition_loop automaton bound actions budget nodes (head + 1) (expansions + 1))"
  by pat_completeness auto
termination
  by (relation "measure (\<lambda>(automaton, bound, actions, budget, nodes, head, expansions). budget - expansions)") auto

declare sg_partition_loop.simps [simp del]

text \<open>The word and the outcome are those of the caller until the search writes them.\<close>

definition sg_partition_bfs ::
  "sg_automaton \<Rightarrow> sg_bitset \<Rightarrow> nat \<Rightarrow> nat list ptr \<Rightarrow> nat \<Rightarrow> nat \<Rightarrow> nat list \<Rightarrow> sg_plan_outcome \<Rightarrow>
     (nat \<times> nat list \<times> sg_plan_outcome) res" where
  "sg_partition_bfs automaton initial bound allowed_actions budget expansions word outcome =
     rbind (sg_support_partition_init initial) (\<lambda>root.
     let (nodes, root_index) = sg_search_nodes_add [] root SG_INDEX_NONE SG_INDEX_NONE;
         actions = (case allowed_actions of NULL \<Rightarrow> [0..<au_action_count automaton] | Ref allowed \<Rightarrow> allowed)
     in rbind (sg_partition_loop automaton bound actions budget nodes 0 expansions)
          (\<lambda>(nodes, goal, bounded, expansions).
          let outcome = (if bounded then SG_OUTCOME_RESOURCE_BOUND else outcome)
          in Inr (case goal of
               Some index \<Rightarrow> (expansions, sg_search_reconstruct nodes index, SG_OUTCOME_PLAN)
             | None \<Rightarrow> (expansions, word, if outcome \<noteq> SG_OUTCOME_RESOURCE_BOUND then SG_OUTCOME_NO_PLAN else outcome))))"

section \<open>Partitions as payloads\<close>

definition partition_family :: "sg_support_partition \<Rightarrow> nat set set" where
  "partition_family P = bitset_set ` set P"

definition partition_valid :: "sg_automaton \<Rightarrow> sg_support_partition \<Rightarrow> bool" where
  "partition_valid A P \<longleftrightarrow> support_partition_ok A (partition_family P) P"

definition partition_step :: "sg_automaton \<Rightarrow> sg_support_partition \<Rightarrow> nat \<Rightarrow> sg_support_partition" where
  "partition_step A P a = (case sg_support_partition_apply_action A P a of Inr Q \<Rightarrow> Q | Inl _ \<Rightarrow> [])"

lemma support_partition_family: "support_partition_ok A F P \<Longrightarrow> partition_family P = F"
  by (simp add: support_partition_ok_def partition_family_def)

lemma partition_valid_family: "support_partition_ok A F P \<longleftrightarrow> partition_valid A P \<and> partition_family P = F"
  unfolding partition_valid_def using support_partition_family by metis

lemma partition_step_ok:
  assumes "wf_automaton A" "partition_valid A P" "a < au_action_count A"
  shows "sg_support_partition_apply_action A P a = Inr (partition_step A P a)"
    "partition_valid A (partition_step A P a)"
    "partition_family (partition_step A P a) = family_step A (partition_family P) a"
proof -
  obtain Q where "sg_support_partition_apply_action A P a = Inr Q"
    "support_partition_ok A (family_step A (partition_family P) a) Q"
    using sg_support_partition_apply_action[OF assms(1,3) assms(2)[unfolded partition_valid_def]] by blast
  then show "sg_support_partition_apply_action A P a = Inr (partition_step A P a)"
    "partition_valid A (partition_step A P a)"
    "partition_family (partition_step A P a) = family_step A (partition_family P) a"
    by (simp_all add: partition_step_def partition_valid_family)
qed

lemma partition_eq_iff:
  "partition_valid A P \<Longrightarrow> partition_valid A Q \<Longrightarrow> P = Q \<longleftrightarrow> partition_family P = partition_family Q"
  using support_partition_canonical[of A _ P Q] by (auto simp: partition_valid_def)

lemma finitely_many_partitions:
  "finite {P. partition_valid A P} \<and> card {P. partition_valid A P} \<le> 2 ^ 2 ^ au_state_count A"
proof -
  have inj: "inj_on partition_family {P. partition_valid A P}"
    by (rule inj_onI) (use partition_eq_iff in blast)
  have sub: "partition_family ` {P. partition_valid A P} \<subseteq> Pow (Pow {..<au_state_count A})"
    using support_okD(2) by (fastforce simp: partition_valid_def partition_family_def support_partition_ok_def)
  show ?thesis
    using inj_on_finite[OF inj sub] card_inj_on_le[OF inj sub] by (simp add: card_Pow)
qed

interpretation partitions: forward_search wf_automaton partition_valid action_ok partition_step
  sg_support_partition_equal "\<lambda>A. 2 ^ 2 ^ au_state_count A"
proof unfold_locales
  show "partition_valid A (partition_step A P a)" if "wf_automaton A" "partition_valid A P" "action_ok A a" for A P a
    using that partition_step_ok(2) by (simp add: action_ok_def)
  show "sg_support_partition_equal P Q \<longleftrightarrow> P = Q" if "partition_valid A P" "partition_valid A Q" for A P Q
    using that by (intro sg_support_partition_equal_iff[of P A]) (simp_all add: partition_valid_def support_partition_ok_def)
qed (rule finitely_many_partitions)

text \<open>The families of a word from a support are those of its branches.\<close>

lemma partition_word:
  assumes wf: "wf_automaton A" and root: "partition_valid A P" "partition_family P = {H}" "H \<noteq> {}"
  shows "word_ok A w \<Longrightarrow> partition_valid A (foldl (partition_step A) P w) \<and>
    partition_family (foldl (partition_step A) P w) = support_family A H w"
proof (induction w rule: rev_induct)
  case Nil
  with root show ?case by (simp add: support_family_Nil)
next
  case (snoc a w)
  then have w: "word_ok A w" and a: "a < au_action_count A" by (auto simp: word_ok_def)
  with snoc.IH partition_step_ok[OF wf _ a] show ?case by (simp add: support_family_snoc)
qed

definition narrowing_word :: "sg_automaton \<Rightarrow> nat set \<Rightarrow> nat set \<Rightarrow> nat \<Rightarrow> nat list \<Rightarrow> bool" where
  "narrowing_word A L H k w \<longleftrightarrow> set w \<subseteq> L \<and> (\<forall>t \<in> trace_set A H w. card (trace_branch A H w t) \<le> k)"

lemma partition_goal:
  assumes wf: "wf_automaton A" and "partition_valid A P" "partition_family P = {H}" "H \<noteq> {}" "word_ok A w"
  shows "sg_support_partition_worst (foldl (partition_step A) P w) \<le> k \<longleftrightarrow>
    (\<forall>t \<in> trace_set A H w. card (trace_branch A H w t) \<le> k)"
  using partition_word[OF assms] sg_support_partition_worst_le[of A "support_family A H w" _ k]
  by (simp add: partition_valid_family support_family_def)

section \<open>Correctness of the search\<close>

lemma sg_search_find_None:
  "sg_search_find nodes s \<noteq> None \<longleftrightarrow> list_ex (\<lambda>n. sg_support_partition_equal (nd_payload n) s) nodes"
  by (auto simp: sg_search_find_def find_None_iff list_ex_length)

lemma sg_partition_letters_expand:
  assumes wf: "wf_automaton A"
  shows "\<forall>n \<in> set nodes. partition_valid A (nd_payload n) \<Longrightarrow> head < length nodes \<Longrightarrow>
    \<forall>a \<in> set as. action_ok A a \<Longrightarrow>
    sg_partition_letters A bound head as nodes =
      Inr (expand_node (partition_step A) (\<lambda>P. sg_support_partition_worst P \<le> bound) head as nodes)"
proof (induction as arbitrary: nodes)
  case (Cons a as)
  let ?q = "partition_step A (nd_payload (nodes ! head)) a"
  let ?nodes = "nodes @ [\<lparr>nd_payload = ?q, nd_parent = head, nd_action = a\<rparr>]"
  have "partition_valid A (nd_payload (nodes ! head))" "a < au_action_count A"
    using Cons.prems by (auto simp: action_ok_def)
  note q = partition_step_ok[OF wf this]
  have known: "sg_search_find nodes ?q \<noteq> None \<longleftrightarrow> ?q \<in> set (payloads nodes)"
    unfolding sg_search_find_None by (rule partitions.known_valid_iff[OF wf Cons.prems(1) q(2)])
  have all: "\<forall>n \<in> set ?nodes. partition_valid A (nd_payload n)" "head < length ?nodes"
    using Cons.prems(1,2) q(2) by auto
  show ?case
    using Cons.IH[OF Cons.prems(1,2)] Cons.IH[OF all] Cons.prems(3) known
    by (simp add: q(1) sg_search_nodes_add_def Let_def)
qed simp

lemma sg_partition_loop_run:
  assumes wf: "wf_automaton A" and L: "\<forall>a \<in> set L. action_ok A a"
  shows "\<forall>n \<in> set nodes. partition_valid A (nd_payload n) \<Longrightarrow>
    sg_partition_loop A bound L budget nodes head expansions =
      Inr (run_search (partition_step A) (\<lambda>P. sg_support_partition_worst P \<le> bound) L budget nodes head expansions)"
proof (induction "budget - expansions" arbitrary: nodes head expansions rule: less_induct)
  case (less expansions nodes head)
  let ?goal = "\<lambda>P. sg_support_partition_worst P \<le> bound"
  show ?case
  proof (cases "head < length nodes \<and> expansions < budget")
    case False
    then show ?thesis by (auto simp: sg_partition_loop.simps[of _ _ _ _ nodes] run_search.simps[of _ _ _ _ nodes])
  next
    case True
    obtain nodes' found where run: "expand_node (partition_step A) ?goal head L nodes = (nodes', found)" by fastforce
    have valid: "\<forall>n \<in> set nodes'. partition_valid A (nd_payload n)"
      using partitions.expand_node_valid[OF wf less.prems _ L run] True by blast
    have "sg_partition_loop A bound L budget nodes' (Suc head) (Suc expansions) =
        Inr (run_search (partition_step A) ?goal L budget nodes' (Suc head) (Suc expansions))"
      by (rule less.hyps[OF _ valid]) (use True in arith)
    then show ?thesis
      using True run sg_partition_letters_expand[OF wf less.prems _ L, of head bound]
      by (cases found) (simp_all add: sg_partition_loop.simps[of _ _ _ _ nodes] run_search.simps[of _ _ _ _ nodes])
  qed
qed

text \<open>What the search reports for the states \<open>H\<close>, when \<open>used\<close> expansions were spent before.\<close>

definition narrowing_search_ok ::
  "sg_automaton \<Rightarrow> nat set \<Rightarrow> nat set \<Rightarrow> nat \<Rightarrow> nat \<Rightarrow> nat \<Rightarrow> nat list \<Rightarrow> nat \<Rightarrow> nat list \<Rightarrow> sg_plan_outcome \<Rightarrow> bool" where
  "narrowing_search_ok A L H k used budget word expansions word' outcome \<longleftrightarrow>
     used \<le> expansions \<and> expansions \<le> budget \<and>
     (case outcome of
        SG_OUTCOME_PLAN \<Rightarrow> narrowing_word A L H k word' \<and>
          (\<forall>v. narrowing_word A L H k v \<longrightarrow> length word' \<le> length v)
      | SG_OUTCOME_NO_PLAN \<Rightarrow> word' = word \<and> (\<forall>v. \<not> narrowing_word A L H k v)
      | SG_OUTCOME_RESOURCE_BOUND \<Rightarrow> word' = word \<and> expansions = budget \<and>
          budget < used + 2 ^ 2 ^ au_state_count A
      | SG_OUTCOME_ALREADY_SATISFIED \<Rightarrow> False)"

lemma sg_partition_bfs_ok:
  assumes wf: "wf_automaton A" and init: "support_ok A init" "bitset_set init \<noteq> {}" "bound < sg_bitset_count init"
    and L: "set (allowed_letters A allowed) \<subseteq> {..<au_action_count A}"
    and B: "budget \<le> SIZE_MAX" "used \<le> budget" and o: "outcome \<noteq> SG_OUTCOME_RESOURCE_BOUND"
  shows "\<exists>expansions word' outcome'.
    sg_partition_bfs A init bound allowed budget used word outcome = Inr (expansions, word', outcome') \<and>
    narrowing_search_ok A (set (allowed_letters A allowed)) (bitset_set init) bound used budget word
      expansions word' outcome'"
proof -
  let ?L = "allowed_letters A allowed" and ?goal = "\<lambda>P. sg_support_partition_worst P \<le> bound"
    and ?H = "bitset_set init"
  obtain root where root: "sg_support_partition_init init = Inr root" "partition_valid A root"
    "partition_family root = {?H}"
    using sg_support_partition_init_ok[OF init(1)] by (auto simp: partition_valid_family)
  have letters: "word_ok A v" if "set v \<subseteq> set ?L" for v using that L by (auto simp: word_ok_set)
  note goal = partition_goal[OF wf root(2,3) init(2) letters]
  have "\<not> ?goal root"
    using goal[of "[]" bound] init sg_bitset_count_card by (simp add: support_ok_def)
  let ?nodes = "[\<lparr>nd_payload = root, nd_parent = SG_INDEX_NONE, nd_action = SG_INDEX_NONE\<rparr>]"
  obtain nodes' found bounded e where loop: "sg_partition_loop A bound ?L budget ?nodes 0 used = Inr (nodes', found, bounded, e)"
    and out: "search_outcome (partition_step A) (set ?L) ?goal root (2 ^ 2 ^ au_state_count A) used budget
        (if found \<noteq> None then SG_OUTCOME_PLAN
         else if bounded then SG_OUTCOME_RESOURCE_BOUND else SG_OUTCOME_NO_PLAN)
        (case found of Some k \<Rightarrow> sg_search_reconstruct nodes' k | None \<Rightarrow> []) e"
    using partitions.search_from_root[where goal = ?goal, OF wf root(2) letters_ok[OF L] B(1) \<open>\<not> ?goal root\<close> B(2)]
      sg_partition_loop_run[OF wf letters_ok[OF L], of ?nodes bound budget 0 used] root(2)
    by (auto simp: sg_search_reconstruct_def simp del: not_None_eq cong: option.case_cong)
  have run: "sg_partition_bfs A init bound allowed budget used word outcome =
      Inr (case found of Some k \<Rightarrow> (e, sg_search_reconstruct nodes' k, SG_OUTCOME_PLAN)
        | None \<Rightarrow> (e, word, if bounded then SG_OUTCOME_RESOURCE_BOUND else SG_OUTCOME_NO_PLAN))"
    using loop root(1) o
    by (simp add: sg_partition_bfs_def sg_search_nodes_add_def allowed_letters_def Let_def cong: option.case_cong)
  have narrow: "narrowing_word A (set ?L) ?H bound v \<longleftrightarrow> set v \<subseteq> set ?L \<and> ?goal (foldl (partition_step A) root v)" for v
    using goal[of v bound] by (auto simp: narrowing_word_def)
  show ?thesis
    using out narrow unfolding run narrowing_search_ok_def
    by (cases found; cases bounded) (auto simp: shortest_goal_word_def)
qed

end
