(* ===== verification/Sync_Disambiguate.thy ===== *)
theory Sync_Disambiguate
  imports Sync_Allowed Sync_Partition_Search
begin

text \<open>
  Disambiguation plans (src/planner.c): a word after which every observation branch of the initial
  states has at most \<open>bound\<close> states. The planner tries the best resolution word of a pair first and
  then searches the support partitions. The clock readings of a query are arguments.
\<close>

section \<open>The best resolution word\<close>

definition sg_resolution_candidate_better ::
  "nat \<Rightarrow> nat \<Rightarrow> nat \<Rightarrow> nat \<Rightarrow> nat \<Rightarrow> nat \<Rightarrow> nat \<Rightarrow> nat \<Rightarrow> bool" where
  "sg_resolution_candidate_better worst len branches pair best_worst best_length best_branches best_pair \<longleftrightarrow>
     worst < best_worst \<or>
     worst = best_worst \<and>
       (len < best_length \<or>
        len = best_length \<and> (branches > best_branches \<or> branches = best_branches \<and> pair < best_pair))"

text \<open>The best candidate so far.\<close>

record sg_resolution_choice =
  rc_worst :: nat
  rc_length :: nat
  rc_branches :: nat
  rc_pair :: nat
  rc_word :: "nat list"
  rc_partition :: sg_trace_partition

definition sg_resolution_choice_init :: sg_resolution_choice where
  "sg_resolution_choice_init = \<lparr>rc_worst = SG_INDEX_NONE, rc_length = SG_INDEX_NONE, rc_branches = 0,
     rc_pair = SG_INDEX_NONE, rc_word = [], rc_partition = []\<rparr>"

definition sg_consider_resolution ::
  "sg_automaton \<Rightarrow> sg_trace_partition \<Rightarrow> nat \<times> nat \<Rightarrow> nat list \<Rightarrow> sg_resolution_choice \<Rightarrow>
     sg_resolution_choice res" where
  "sg_consider_resolution automaton source states word best =
     rbind (sg_trace_partition_apply_word automaton source word) (\<lambda>parts.
     let (smallest, worst, total) = sg_trace_metrics parts;
         pair = sg_pair_index (au_state_count automaton) (fst states) (snd states)
     in if sg_resolution_candidate_better worst (length word) (length parts) pair
             (rc_worst best) (rc_length best) (rc_branches best) (rc_pair best)
        then Inr \<lparr>rc_worst = worst, rc_length = length word, rc_branches = length parts, rc_pair = pair,
                  rc_word = word, rc_partition = parts\<rparr>
        else Inr best)"

text \<open>The two loops that list the pairs are those of \<open>sg_best_merge\<close>.\<close>

definition sg_best_resolution ::
  "sg_automaton \<Rightarrow> sg_pair_record_source \<Rightarrow> sg_bitset \<Rightarrow> nat \<Rightarrow> (nat list \<times> sg_trace_partition) option res" where
  "sg_best_resolution automaton records initial current_worst =
     rbind (sg_trace_partition_init initial) (\<lambda>source.
     let initial_count = sg_bitset_count initial
     in if initial_count < 2 then Inr None
        else case sg_size_multiply initial_count (initial_count - 1) of
          None \<Rightarrow> Inl SG_ERR_ALLOC
        | Some product \<Rightarrow>
            let states = sg_active_pairs automaton initial
            in rbind (sg_pair_words_load automaton (Ref records) states SG_WITNESS_RESOLUTION) (\<lambda>cands.
               rbind (fold_res (\<lambda>index best.
                   if \<not> cd_available (cands ! index) then Inr best
                   else sg_consider_resolution automaton source (states ! index) (cd_word (cands ! index)) best)
                 [0..<product div 2] sg_resolution_choice_init) (\<lambda>best.
               Inr (if rc_pair best \<noteq> SG_INDEX_NONE \<and> rc_worst best < current_worst
                    then Some (rc_word best, rc_partition best) else None))))"

section \<open>The plan\<close>

definition sg_disambiguation_finalize ::
  "sg_automaton \<Rightarrow> sg_bitset \<Rightarrow> nat \<Rightarrow> sg_plan_result \<Rightarrow> sg_plan_result res" where
  "sg_disambiguation_finalize automaton initial bound result =
     rbind (sg_fill_plan_metrics automaton initial result) (\<lambda>result.
     if pr_worst_support_size result > bound then Inl SG_ERR_INVALID_MODEL
     else Inr (result\<lparr>pr_final_support_size := pr_worst_support_size result\<rparr>))"

text \<open>The heuristic word is dropped when one of its letters is not allowed; NULL allows them all.\<close>

definition sg_permitted_heuristic ::
  "nat list ptr \<Rightarrow> (nat list \<times> sg_trace_partition) option \<Rightarrow> (nat list \<times> sg_trace_partition) option" where
  "sg_permitted_heuristic allowed_actions found =
     (case (found, allowed_actions) of
        (Some (heuristic, parts), Ref allowed) \<Rightarrow>
          if list_all (\<lambda>action. list_ex (\<lambda>letter. action = letter) allowed) heuristic
          then Some (heuristic, parts) else None
      | _ \<Rightarrow> found)"

text \<open>The search after the heuristic has failed.\<close>

definition sg_disambiguate_search ::
  "sg_automaton \<Rightarrow> sg_bitset \<Rightarrow> nat \<Rightarrow> nat list ptr \<Rightarrow> nat \<Rightarrow> sg_plan_result \<Rightarrow> sg_plan_result res" where
  "sg_disambiguate_search automaton initial bound allowed_actions budget result =
     rbind (sg_partition_bfs automaton initial bound allowed_actions budget
              (pr_expansions result) (pr_word result) (pr_outcome result)) (\<lambda>(expansions, word, outcome).
     let result = result\<lparr>pr_expansions := expansions, pr_word := word, pr_outcome := outcome\<rparr>
     in if outcome = SG_OUTCOME_PLAN
        then sg_disambiguation_finalize automaton initial bound (result\<lparr>pr_method := SG_METHOD_PARTITION_BFS\<rparr>)
        else Inr result)"

definition sg_disambiguate_narrow ::
  "sg_automaton \<Rightarrow> sg_pair_record_source \<Rightarrow> sg_bitset \<Rightarrow> nat \<Rightarrow> nat list ptr \<Rightarrow> nat \<Rightarrow> sg_plan_result \<Rightarrow>
     sg_plan_result res" where
  "sg_disambiguate_narrow automaton source initial bound allowed_actions budget result =
     rbind (sg_best_resolution automaton source initial (sg_bitset_count initial)) (\<lambda>found.
     case sg_permitted_heuristic allowed_actions found of
       None \<Rightarrow> sg_disambiguate_search automaton initial bound allowed_actions budget result
     | Some (heuristic, parts) \<Rightarrow>
         let (smallest, worst, total) = sg_trace_metrics parts;
             result = result\<lparr>pr_expansions := pr_expansions result + 1\<rparr>
         in if worst \<le> bound
            then sg_disambiguation_finalize automaton initial bound
                   (result\<lparr>pr_word := heuristic, pr_outcome := SG_OUTCOME_PLAN,
                           pr_method := SG_METHOD_PAIR_RESOLUTION\<rparr>)
            else sg_disambiguate_search automaton initial bound allowed_actions budget result)"

definition sg_plan_disambiguate_with_source ::
  "sg_automaton ptr \<Rightarrow> sg_pair_record_source ptr \<Rightarrow> nat list ptr \<Rightarrow> nat \<Rightarrow> nat list ptr \<Rightarrow> nat \<Rightarrow>
     64 word \<Rightarrow> 64 word \<Rightarrow> sg_plan_result res" where
  "sg_plan_disambiguate_with_source automaton source initial_states bound allowed_actions budget start end_time =
     (case (automaton, source, initial_states) of
        (Ref a, Ref read, Ref ids) \<Rightarrow>
          if ids = [] \<or> bound = 0 \<or> budget = 0 then Inl SG_ERR_INVALID_ARGUMENT
          else let result = sg_plan_result_init a
               in rbind (sg_bitset_from_ids (au_state_count a) (Ref ids)) (\<lambda>initial.
                  let unique_count = sg_bitset_count initial
                  in if bound > unique_count then Inl SG_ERR_INVALID_ARGUMENT
                     else rbind
                       (if unique_count \<le> bound
                        then sg_disambiguation_finalize a initial bound
                               (result\<lparr>pr_outcome := SG_OUTCOME_ALREADY_SATISFIED\<rparr>)
                        else sg_disambiguate_narrow a read initial bound allowed_actions budget result)
                       (\<lambda>result. Inr (result\<lparr>pr_planning_time_us := sg_elapsed_us start end_time\<rparr>)))
      | _ \<Rightarrow> Inl SG_ERR_INVALID_ARGUMENT)"

definition sg_plan_disambiguate_from_records ::
  "sg_automaton ptr \<Rightarrow> sg_pair_record_source ptr \<Rightarrow> nat list ptr \<Rightarrow> nat \<Rightarrow> nat \<Rightarrow> 64 word \<Rightarrow> 64 word \<Rightarrow>
     sg_plan_result res" where
  "sg_plan_disambiguate_from_records automaton source initial_states bound budget start end_time =
     sg_plan_disambiguate_with_source automaton source initial_states bound NULL budget start end_time"

text \<open>The code compares the automaton pointer with the oracle's; here the automata themselves.\<close>

definition sg_plan_disambiguate ::
  "sg_automaton ptr \<Rightarrow> sg_pair_oracle ptr \<Rightarrow> nat list ptr \<Rightarrow> nat \<Rightarrow> nat \<Rightarrow> 64 word \<Rightarrow> 64 word \<Rightarrow>
     sg_plan_result res" where
  "sg_plan_disambiguate automaton oracle initial_states bound budget start end_time =
     (case oracle of
        NULL \<Rightarrow> Inl SG_ERR_INVALID_ARGUMENT
      | Ref orc \<Rightarrow>
          if automaton \<noteq> Ref (po_automaton orc) then Inl SG_ERR_INVALID_ARGUMENT
          else sg_plan_disambiguate_with_source automaton (Ref (sg_oracle_record_reader orc)) initial_states
                 bound NULL budget start end_time)"

definition sg_plan_disambiguate_allowed_from_records ::
  "sg_automaton ptr \<Rightarrow> sg_pair_record_source ptr \<Rightarrow> nat list ptr \<Rightarrow> nat \<Rightarrow> nat list ptr \<Rightarrow> nat \<Rightarrow>
     64 word \<Rightarrow> 64 word \<Rightarrow> sg_plan_result res" where
  "sg_plan_disambiguate_allowed_from_records automaton source initial_states bound allowed_actions budget start end_time =
     (if \<not> sg_allowed_actions_valid automaton allowed_actions then Inl SG_ERR_INVALID_ARGUMENT
      else sg_plan_disambiguate_with_source automaton source initial_states bound allowed_actions budget
             start end_time)"

definition sg_plan_disambiguate_allowed ::
  "sg_automaton ptr \<Rightarrow> sg_pair_oracle ptr \<Rightarrow> nat list ptr \<Rightarrow> nat \<Rightarrow> nat list ptr \<Rightarrow> nat \<Rightarrow>
     64 word \<Rightarrow> 64 word \<Rightarrow> sg_plan_result res" where
  "sg_plan_disambiguate_allowed automaton oracle initial_states bound allowed_actions budget start end_time =
     (if \<not> sg_allowed_actions_valid automaton allowed_actions then Inl SG_ERR_INVALID_ARGUMENT
      else case oracle of
        NULL \<Rightarrow> Inl SG_ERR_INVALID_ARGUMENT
      | Ref orc \<Rightarrow>
          if automaton \<noteq> Ref (po_automaton orc) then Inl SG_ERR_INVALID_ARGUMENT
          else sg_plan_disambiguate_with_source automaton (Ref (sg_oracle_record_reader orc)) initial_states
                 bound allowed_actions budget start end_time)"

section \<open>What a disambiguation plan is\<close>

lemma allowed_some [simp]: "allowed_letters A (Ref allowed) = allowed"
  by (simp add: allowed_letters_def)

text \<open>The metrics of the branches of the plan.\<close>

definition branch_metrics_ok :: "sg_automaton \<Rightarrow> nat set \<Rightarrow> sg_plan_result \<Rightarrow> bool" where
  "branch_metrics_ok A H r \<longleftrightarrow>
     pr_best_support_size r = Min (branch_sizes A H (pr_word r)) \<and>
     pr_worst_support_size r = Max (branch_sizes A H (pr_word r)) \<and>
     pr_final_support_size r = Max (branch_sizes A H (pr_word r)) \<and>
     pr_branch_count r = card (trace_set A H (pr_word r)) \<and>
     (pr_homing r \<longleftrightarrow> homing_word A H (pr_word r))"

text \<open>The contract for the states \<open>H\<close>, the letters \<open>L\<close> and branches of at most \<open>k\<close> states.\<close>

definition narrow_result_ok :: "sg_automaton \<Rightarrow> nat set \<Rightarrow> nat set \<Rightarrow> nat \<Rightarrow> nat \<Rightarrow> sg_plan_result \<Rightarrow> bool" where
  "narrow_result_ok A L H k budget r \<longleftrightarrow>
     pr_expansions r \<le> budget \<and> pr_generation r = au_generation A \<and>
     (case pr_outcome r of
        SG_OUTCOME_PLAN \<Rightarrow> narrowing_word A L H k (pr_word r) \<and> branch_metrics_ok A H r \<and>
          (pr_method r = SG_METHOD_PARTITION_BFS \<longrightarrow>
             (\<forall>v. narrowing_word A L H k v \<longrightarrow> length (pr_word r) \<le> length v))
      | SG_OUTCOME_ALREADY_SATISFIED \<Rightarrow> pr_word r = [] \<and> card H = k \<and> pr_expansions r = 0
      | SG_OUTCOME_NO_PLAN \<Rightarrow> pr_word r = [] \<and> (\<forall>w. \<not> narrowing_word A L H k w)
      | SG_OUTCOME_RESOURCE_BOUND \<Rightarrow> pr_word r = [] \<and> pr_expansions r = budget \<and>
          budget < 1 + 2 ^ 2 ^ au_state_count A)"

lemma branch_sizes_le:
  assumes "finite H" "H \<noteq> {}"
  shows "Max (branch_sizes A H w) \<le> k \<longleftrightarrow> (\<forall>t \<in> trace_set A H w. card (trace_branch A H w t) \<le> k)"
  using assms by (simp add: branch_sizes_def trace_set_def)

lemma sg_disambiguation_finalize_eq:
  assumes wf: "wf_automaton A" and init: "support_ok A init" "bitset_set init \<noteq> {}"
    and w: "word_ok A (pr_word r)" and k: "Max (branch_sizes A (bitset_set init) (pr_word r)) \<le> bound"
  shows "\<exists>r'. sg_disambiguation_finalize A init bound r = Inr r' \<and> branch_metrics_ok A (bitset_set init) r' \<and>
    pr_outcome r' = pr_outcome r \<and> pr_word r' = pr_word r \<and> pr_expansions r' = pr_expansions r \<and>
    pr_generation r' = pr_generation r \<and> pr_method r' = pr_method r"
  using sg_fill_plan_metrics_eq[OF wf init w] k
  by (simp add: sg_disambiguation_finalize_def branch_metrics_ok_def)

section \<open>The heuristic word\<close>

text \<open>The choice comes from an available candidate.\<close>

definition resolution_choice ::
  "sg_automaton \<Rightarrow> sg_trace_partition \<Rightarrow> sg_candidate list \<Rightarrow> nat \<Rightarrow> sg_resolution_choice \<Rightarrow> bool" where
  "resolution_choice A source cands k best \<longleftrightarrow>
     best = sg_resolution_choice_init \<or>
     (\<exists>i < k. cd_available (cands ! i) \<and> rc_word best = cd_word (cands ! i) \<and>
        sg_trace_partition_apply_word A source (rc_word best) = Inr (rc_partition best) \<and>
        rc_worst best = fst (snd (sg_trace_metrics (rc_partition best))))"

lemma consider_resolution_choice:
  assumes C: "resolution_choice A source cands k best" and av: "cd_available (cands ! k)"
    and run: "sg_consider_resolution A source states (cd_word (cands ! k)) best = Inr best'"
  shows "resolution_choice A source cands (Suc k) best'"
proof -
  have "best' = best \<or> rc_word best' = cd_word (cands ! k) \<and>
      sg_trace_partition_apply_word A source (rc_word best') = Inr (rc_partition best') \<and>
      rc_worst best' = fst (snd (sg_trace_metrics (rc_partition best')))"
    using run by (auto simp: sg_consider_resolution_def Let_def case_prod_beta split: if_splits)
  then show ?thesis
  proof
    assume "best' = best"
    with C show ?thesis unfolding resolution_choice_def using less_SucI by blast
  next
    assume "rc_word best' = cd_word (cands ! k) \<and>
      sg_trace_partition_apply_word A source (rc_word best') = Inr (rc_partition best') \<and>
      rc_worst best' = fst (snd (sg_trace_metrics (rc_partition best')))"
    with av show ?thesis unfolding resolution_choice_def by (intro disjI2 exI[of _ k]) auto
  qed
qed

abbreviation resolution_loop ::
  "sg_automaton \<Rightarrow> sg_trace_partition \<Rightarrow> (nat \<times> nat) list \<Rightarrow> sg_candidate list \<Rightarrow> nat \<Rightarrow> sg_resolution_choice res" where
  "resolution_loop A source states cands k \<equiv>
     fold_res (\<lambda>index best.
         if \<not> cd_available (cands ! index) then Inr best
         else sg_consider_resolution A source (states ! index) (cd_word (cands ! index)) best)
       [0..<k] sg_resolution_choice_init"

lemma resolution_loop_choice:
  "resolution_loop A source states cands k = Inr best \<Longrightarrow> resolution_choice A source cands k best"
proof (induction k arbitrary: best)
  case 0
  then show ?case by (simp add: resolution_choice_def)
next
  case (Suc k)
  then obtain b where b: "resolution_loop A source states cands k = Inr b"
    "(if \<not> cd_available (cands ! k) then Inr b
      else sg_consider_resolution A source (states ! k) (cd_word (cands ! k)) b) = Inr best" by auto
  show ?case
  proof (cases "cd_available (cands ! k)")
    case True
    with b(2) consider_resolution_choice[OF Suc.IH[OF b(1)] True] show ?thesis by simp
  next
    case False
    with b(2) Suc.IH[OF b(1)] show ?thesis by (auto simp: resolution_choice_def less_Suc_eq)
  qed
qed

lemma resolution_loop_total:
  assumes "\<forall>i < k. \<exists>P. sg_trace_partition_apply_word A source (cd_word (cands ! i)) = Inr P"
  shows "\<exists>best. resolution_loop A source states cands k = Inr best"
  using assms
proof (induction k)
  case (Suc k)
  then obtain b P where "resolution_loop A source states cands k = Inr b"
    "sg_trace_partition_apply_word A source (cd_word (cands ! k)) = Inr P" by auto
  then show ?case by (auto simp: sg_consider_resolution_def Let_def case_prod_beta)
qed simp

lemma trace_metrics_worst:
  assumes wf: "wf_automaton A" and H: "H \<noteq> {}" and P: "trace_partition_ok A H w P"
  shows "fst (snd (sg_trace_metrics P)) = Max (branch_sizes A H w)"
proof -
  have counts: "(\<lambda>b. sg_bitset_count (tb_support b)) ` set P = branch_sizes A H w"
    unfolding branch_sizes_def by (rule trace_partition_counts(1)[OF P])
  have "P \<noteq> []" using P H by (auto simp: trace_partition_ok_def trace_set_def)
  moreover have "\<forall>b \<in> set P. sg_bitset_count (tb_support b) \<le> SIZE_MAX"
    using P bits.count_le[of "au_state_count A"] wf_automatonD(6)[OF wf]
    by (fastforce simp: trace_partition_ok_def support_ok_def)
  ultimately show ?thesis using sg_trace_metrics_eq[of P] counts by auto
qed

lemma sg_best_resolution_Some:
  assumes wf: "wf_automaton A" and s: "support_ok A s" "bitset_set s \<noteq> {}"
    and run: "sg_best_resolution A read s worst = Inr (Some (w, P))"
  shows "word_ok A w \<and> fst (snd (sg_trace_metrics P)) = Max (branch_sizes A (bitset_set s) w)"
proof -
  let ?states = "sg_active_pairs A s" and ?source = "[\<lparr>tb_support = s, tb_trace = []\<rparr>]"
  have init: "sg_trace_partition_init s = Inr ?source" using trace_partition_ok_init[OF wf s] by simp
  from run obtain cands best where
    load: "sg_pair_words_load A (Ref read) ?states SG_WITNESS_RESOLUTION = Inr cands"
    and loop: "resolution_loop A ?source ?states cands (length ?states) = Inr best"
    and b: "rc_pair best \<noteq> SG_INDEX_NONE" "w = rc_word best" "P = rc_partition best"
    by (auto simp: sg_best_resolution_def init Let_def sg_size_multiply_if active_pairs(2)[OF s(1)] rbind_eq_Inr
        split: if_splits)
  have "best \<noteq> sg_resolution_choice_init" using b(1) by (auto simp: sg_resolution_choice_init_def)
  then obtain i where i: "i < length ?states" "cd_available (cands ! i)" "w = cd_word (cands ! i)"
    "sg_trace_partition_apply_word A ?source w = Inr P"
    using resolution_loop_choice[OF loop] b(2,3) by (auto simp: resolution_choice_def)
  have w: "word_ok A w" using words_load_sound(2)[OF active_pairs_bound[OF s(1)] load i(1)] i(3) by simp
  then have "trace_partition_ok A (bitset_set s) w P" using sg_trace_partition_apply_word[OF wf s w] i(4) by auto
  with w show ?thesis using trace_metrics_worst[OF wf s(2)] by simp
qed

lemma sg_best_resolution_total:
  assumes V: "oracle_valid A orc" and s: "support_ok A s" "bitset_set s \<noteq> {}"
  shows "\<exists>m. sg_best_resolution A (sg_oracle_record_reader orc) s worst = Inr m"
proof -
  have A: "wf_automaton A" "oracle_size_ok A" "po_automaton orc = A"
    using V by (auto simp: oracle_valid_def oracle_tables_def)
  let ?states = "sg_active_pairs A s" and ?source = "[\<lparr>tb_support = s, tb_trace = []\<rparr>]"
  have V': "oracle_valid (po_automaton orc) orc" using V A(3) by simp
  have init: "sg_trace_partition_init s = Inr ?source" using trace_partition_ok_init[OF A(1) s] by simp
  have "sg_bitset_count s \<le> au_state_count A" using s bits.count_le by (simp add: support_ok_def)
  note size = oracle_size_count[OF A(2) this]
  obtain cands where load: "sg_pair_words_load A (Ref (sg_oracle_record_reader orc)) ?states SG_WITNESS_RESOLUTION = Inr cands"
    using reader.words_load_complete[OF V' A(3) active_pairs_bound[OF s(1)]] by blast
  have "\<exists>P. sg_trace_partition_apply_word A ?source (cd_word (cands ! i)) = Inr P" if "i < length ?states" for i
    using sg_trace_partition_apply_word[OF A(1) s] words_load_sound(2)[OF active_pairs_bound[OF s(1)] load that] by blast
  then obtain best where "resolution_loop A ?source ?states cands (length ?states) = Inr best"
    using resolution_loop_total[of "length ?states"] by blast
  with init load size show ?thesis
    by (simp add: sg_best_resolution_def Let_def sg_size_multiply_if active_pairs(2)[OF s(1)])
qed

section \<open>Correctness of the planner\<close>

text \<open>What the planner returns after the heuristic: \<open>r\<close> carries the expansions so far.\<close>

lemma sg_disambiguate_search_ok:
  assumes wf: "wf_automaton A" and init: "support_ok A init" "bitset_set init \<noteq> {}" "bound < sg_bitset_count init"
    and L: "set (allowed_letters A allowed) \<subseteq> {..<au_action_count A}" and B: "budget \<le> SIZE_MAX"
    and r: "pr_expansions r \<le> 1" "pr_expansions r \<le> budget" "pr_word r = []" "pr_generation r = au_generation A"
      "pr_outcome r \<noteq> SG_OUTCOME_RESOURCE_BOUND"
  shows "\<exists>r'. sg_disambiguate_search A init bound allowed budget r = Inr r' \<and>
    narrow_result_ok A (set (allowed_letters A allowed)) (bitset_set init) bound budget r'"
proof -
  let ?L = "set (allowed_letters A allowed)" and ?H = "bitset_set init"
  obtain e w out where bfs: "sg_partition_bfs A init bound allowed budget (pr_expansions r) (pr_word r) (pr_outcome r) =
      Inr (e, w, out)"
    and ok: "narrowing_search_ok A ?L ?H bound (pr_expansions r) budget (pr_word r) e w out"
    using sg_partition_bfs_ok[OF wf init L B r(2,5)] by blast
  let ?r = "r\<lparr>pr_expansions := e, pr_word := w, pr_outcome := out\<rparr>"
  show ?thesis
  proof (cases "out = SG_OUTCOME_PLAN")
    case True
    with ok have w: "narrowing_word A ?L ?H bound w" "\<forall>v. narrowing_word A ?L ?H bound v \<longrightarrow> length w \<le> length v" "e \<le> budget"
      by (simp_all add: narrowing_search_ok_def)
    have "word_ok A w" using w(1) L by (auto simp: narrowing_word_def word_ok_set)
    moreover have "Max (branch_sizes A ?H w) \<le> bound"
      using w(1) branch_sizes_le[OF support_okD(3)[OF init(1)] init(2)] by (simp add: narrowing_word_def)
    ultimately obtain r' where
      "sg_disambiguation_finalize A init bound (?r\<lparr>pr_method := SG_METHOD_PARTITION_BFS\<rparr>) = Inr r'"
      "branch_metrics_ok A ?H r'" "pr_outcome r' = out" "pr_word r' = w" "pr_expansions r' = e"
      "pr_generation r' = pr_generation r"
      using sg_disambiguation_finalize_eq[OF wf init(1,2), of "?r\<lparr>pr_method := SG_METHOD_PARTITION_BFS\<rparr>" bound] by auto
    with True w bfs r(4) show ?thesis by (simp add: sg_disambiguate_search_def Let_def narrow_result_ok_def)
  next
    case False
    then have "sg_disambiguate_search A init bound allowed budget r = Inr ?r"
      using bfs by (simp add: sg_disambiguate_search_def Let_def)
    moreover have "narrow_result_ok A ?L ?H bound budget ?r"
      using ok False r(1,3,4) by (cases out) (auto simp: narrowing_search_ok_def narrow_result_ok_def)
    ultimately show ?thesis by blast
  qed
qed

lemma permitted_heuristic:
  assumes "sg_permitted_heuristic allowed found = Some (w, P)"
  shows "found = Some (w, P)" "word_ok A w \<Longrightarrow> set w \<subseteq> set (allowed_letters A allowed)"
  using assms by (auto simp: sg_permitted_heuristic_def allowed_letters_def word_ok_set list_all_iff list_ex_iff
      split: option.splits if_splits)

lemma sg_disambiguate_narrow_ok:
  assumes wf: "wf_automaton A" and init: "support_ok A init" "bitset_set init \<noteq> {}" "bound < sg_bitset_count init"
    and L: "set (allowed_letters A allowed) \<subseteq> {..<au_action_count A}" and B: "budget \<le> SIZE_MAX" "budget \<noteq> 0"
    and r: "pr_expansions r = 0" "pr_word r = []" "pr_generation r = au_generation A"
      "pr_outcome r \<noteq> SG_OUTCOME_RESOURCE_BOUND"
    and found: "sg_best_resolution A read init (sg_bitset_count init) = Inr found"
  shows "\<exists>r'. sg_disambiguate_narrow A read init bound allowed budget r = Inr r' \<and>
    narrow_result_ok A (set (allowed_letters A allowed)) (bitset_set init) bound budget r'"
proof (cases "sg_permitted_heuristic allowed found")
  case None
  with found r B sg_disambiguate_search_ok[OF wf init L B(1), of r] show ?thesis
    by (simp add: sg_disambiguate_narrow_def)
next
  case (Some wP)
  obtain w P where wP: "wP = (w, P)" by (cases wP)
  note h = permitted_heuristic[OF Some[unfolded wP]]
  note best = sg_best_resolution_Some[OF wf init(1,2) found[unfolded h(1)]]
  let ?H = "bitset_set init" and ?r = "r\<lparr>pr_expansions := pr_expansions r + 1\<rparr>"
  let ?plan = "?r\<lparr>pr_word := w, pr_outcome := SG_OUTCOME_PLAN, pr_method := SG_METHOD_PAIR_RESOLUTION\<rparr>"
  have run: "sg_disambiguate_narrow A read init bound allowed budget r =
      (if Max (branch_sizes A ?H w) \<le> bound then sg_disambiguation_finalize A init bound ?plan
       else sg_disambiguate_search A init bound allowed budget ?r)"
    using found Some best by (simp add: sg_disambiguate_narrow_def wP Let_def case_prod_beta)
  show ?thesis
  proof (cases "Max (branch_sizes A ?H w) \<le> bound")
    case False
    with run r B sg_disambiguate_search_ok[OF wf init L B(1), of ?r] show ?thesis by simp
  next
    case True
    obtain r' where fin: "sg_disambiguation_finalize A init bound ?plan = Inr r'" "branch_metrics_ok A ?H r'"
      "pr_outcome r' = SG_OUTCOME_PLAN" "pr_word r' = w" "pr_expansions r' = 1" "pr_generation r' = au_generation A"
      "pr_method r' = SG_METHOD_PAIR_RESOLUTION"
      using sg_disambiguation_finalize_eq[OF wf init(1,2), of ?plan bound] best True r by auto
    moreover have "narrowing_word A (set (allowed_letters A allowed)) ?H bound w"
      using True best h(2) branch_sizes_le[OF support_okD(3)[OF init(1)] init(2)] by (simp add: narrowing_word_def)
    ultimately show ?thesis using True run B by (simp add: narrow_result_ok_def)
  qed
qed

lemma narrow_result_ok_time [simp]:
  "narrow_result_ok A L H k budget (r\<lparr>pr_planning_time_us := t\<rparr>) \<longleftrightarrow> narrow_result_ok A L H k budget r"
  by (cases "pr_outcome r") (simp_all add: narrow_result_ok_def branch_metrics_ok_def)

text \<open>The checks of the arguments leave the query to the planner or refuse it.\<close>

lemma sg_plan_disambiguate_valid:
  assumes wf: "wf_automaton A" and L: "set (allowed_letters A allowed) \<subseteq> {..<au_action_count A}"
    and B: "budget \<le> SIZE_MAX" "budget \<noteq> 0"
    and ids: "ids \<noteq> []" "set ids \<subseteq> {..<au_state_count A}" "bound \<noteq> 0" "bound \<le> card (set ids)"
    and read: "\<And>init. support_ok A init \<Longrightarrow> bitset_set init \<noteq> {} \<Longrightarrow> bound < sg_bitset_count init \<Longrightarrow>
      bitset_set init = set ids \<Longrightarrow> \<exists>found. sg_best_resolution A read init (sg_bitset_count init) = Inr found"
  shows "\<exists>r. sg_plan_disambiguate_with_source (Ref A) (Ref read) (Ref ids) bound allowed budget start end_time = Inr r \<and>
    narrow_result_ok A (set (allowed_letters A allowed)) (set ids) bound budget r"
proof -
  let ?r0 = "sg_plan_result_init A" and ?L = "set (allowed_letters A allowed)"
  have r0: "pr_expansions ?r0 = 0" "pr_word ?r0 = []" "pr_generation ?r0 = au_generation A"
    "pr_outcome ?r0 \<noteq> SG_OUTCOME_RESOURCE_BOUND" by (simp_all add: sg_plan_result_init_def)
  obtain init where init: "sg_bitset_from_ids (au_state_count A) (Ref ids) = Inr init" "support_ok A init"
    "bitset_set init = set ids" "bitset_set init \<noteq> {}" "sg_bitset_count init = card (set ids)"
    using from_ids_cases[OF wf, of ids] ids by auto
  show ?thesis
  proof (cases "card (set ids) = bound")
    case True
    let ?r = "?r0\<lparr>pr_outcome := SG_OUTCOME_ALREADY_SATISFIED\<rparr>"
    have "Max (branch_sizes A (bitset_set init) (pr_word ?r)) \<le> bound"
      using r0 init True by (simp add: branch_sizes_def)
    then obtain r where "sg_disambiguation_finalize A init bound ?r = Inr r" "pr_word r = []" "pr_expansions r = 0"
      "pr_outcome r = SG_OUTCOME_ALREADY_SATISFIED" "pr_generation r = au_generation A"
      using sg_disambiguation_finalize_eq[OF wf init(2,4), of ?r bound] r0 by auto
    with init ids B True show ?thesis
      by (simp add: sg_plan_disambiguate_with_source_def Let_def narrow_result_ok_def)
  next
    case False
    then have lt: "bound < sg_bitset_count init" using ids(4) init(5) by simp
    obtain found where "sg_best_resolution A read init (sg_bitset_count init) = Inr found"
      using read[OF init(2,4) lt init(3)] by blast
    from sg_disambiguate_narrow_ok[OF wf init(2,4) lt L B r0 this] obtain r where
      "sg_disambiguate_narrow A read init bound allowed budget ?r0 = Inr r" "narrow_result_ok A ?L (set ids) bound budget r"
      by (auto simp: init(3))
    with init ids B lt show ?thesis by (simp add: sg_plan_disambiguate_with_source_def Let_def)
  qed
qed

lemma sg_plan_disambiguate_Inr:
  assumes wf: "wf_automaton A" and L: "set (allowed_letters A allowed) \<subseteq> {..<au_action_count A}"
    and B: "budget \<le> SIZE_MAX"
    and run: "sg_plan_disambiguate_with_source (Ref A) source states bound allowed budget start end_time = Inr r"
  shows "\<exists>ids. states = Ref ids \<and> ids \<noteq> [] \<and> set ids \<subseteq> {..<au_state_count A} \<and> 0 < bound \<and> bound \<le> card (set ids) \<and>
    narrow_result_ok A (set (allowed_letters A allowed)) (set ids) bound budget r"
proof -
  obtain read ids where i: "source = Ref read" "states = Ref ids" "ids \<noteq> []" "bound \<noteq> 0" "budget \<noteq> 0"
    using run by (auto simp: sg_plan_disambiguate_with_source_def split: option.splits if_splits)
  have states: "set ids \<subseteq> {..<au_state_count A}"
    using run i from_ids_cases[OF wf, of ids]
    by (auto simp: sg_plan_disambiguate_with_source_def Let_def split: if_splits)
  obtain init where init: "sg_bitset_from_ids (au_state_count A) (Ref ids) = Inr init" "support_ok A init"
    "bitset_set init = set ids" "sg_bitset_count init = card (set ids)"
    using from_ids_cases[OF wf, of ids] i(3) states by auto
  have bound: "bound \<le> card (set ids)"
    using run i init by (auto simp: sg_plan_disambiguate_with_source_def Let_def split: if_splits)
  have "\<exists>found. sg_best_resolution A read s (sg_bitset_count s) = Inr found"
    if "support_ok A s" "bitset_set s = set ids" "bound < sg_bitset_count s" for s
  proof -
    have "s = init" using that(1,2) init(2,3) support_eq_iff[of A s init] by simp
    with that(3) run i init bound show ?thesis
      by (auto simp: sg_plan_disambiguate_with_source_def Let_def sg_disambiguate_narrow_def split: if_splits)
  qed
  then show ?thesis
    using sg_plan_disambiguate_valid[OF wf L B i(5,3) states i(4) bound, of read start end_time] run i states bound
    by auto
qed

lemma sg_plan_disambiguate_invalid:
  assumes "wf_automaton A"
    "\<not> (ids \<noteq> [] \<and> set ids \<subseteq> {..<au_state_count A} \<and> 0 < bound \<and> bound \<le> card (set ids) \<and> budget \<noteq> 0)"
  shows "sg_plan_disambiguate_with_source (Ref A) (Ref read) (Ref ids) bound allowed budget start end_time =
    Inl SG_ERR_INVALID_ARGUMENT"
  using from_ids_cases[OF assms(1), of ids] assms(2)
  by (auto simp: sg_plan_disambiguate_with_source_def Let_def split: if_splits)

text \<open>A plan for the bound one is a homing plan.\<close>

lemma narrow_one_homing:
  assumes "finite H" "narrow_result_ok A L H 1 budget r" "pr_outcome r = SG_OUTCOME_PLAN"
  shows "pr_homing r"
  using assms homing_worst[of H A "pr_word r"] by (simp add: narrow_result_ok_def branch_metrics_ok_def narrowing_word_def)

text \<open>C3. Whatever a record source answers, what \<open>sg_plan_disambiguate_from_records\<close> returns is right:
  after a PLAN no observation branch of the initial states has more than \<open>bound\<close> states, and the
  metrics are those of the branches; a plan of the exact search is a shortest one; NO_PLAN means that
  no word over the actions does that; RESOURCE_BOUND that the whole budget is spent; and a plan for
  the bound one is homing.\<close>

theorem disambiguate_sound:
  assumes "wf_automaton A" "budget \<le> SIZE_MAX"
    and "sg_plan_disambiguate_from_records (Ref A) source initial_states bound budget start end_time = Inr r"
  shows "\<exists>ids. initial_states = Ref ids \<and> ids \<noteq> [] \<and> set ids \<subseteq> {..<au_state_count A} \<and>
    0 < bound \<and> bound \<le> card (set ids) \<and>
    narrow_result_ok A {..<au_action_count A} (set ids) bound budget r \<and>
    (bound = 1 \<and> pr_outcome r = SG_OUTCOME_PLAN \<longrightarrow> pr_homing r)"
  using sg_plan_disambiguate_Inr[OF assms(1) _ assms(2), of NULL source initial_states bound start end_time r] assms(3)
    narrow_one_homing by (fastforce simp: sg_plan_disambiguate_from_records_def)

text \<open>C10. On the oracle built for the automaton, and with an array of states that is not NULL,
  \<open>sg_plan_disambiguate\<close> fails exactly on invalid arguments: no states, a state out of range, a zero bound or budget, or a bound above the number of
  distinct initial states. A bound equal to that number is satisfied at once, and with a budget above
  \<open>2 ^ 2 ^ n\<close> for \<open>n\<close> states the answer is definite.\<close>

theorem disambiguate_definite:
  assumes wf: "wf_automaton A" and build: "sg_pair_oracle_build (Ref A) = Inr orc" and B: "budget \<le> SIZE_MAX"
  shows "if ids \<noteq> [] \<and> set ids \<subseteq> {..<au_state_count A} \<and> 0 < bound \<and> bound \<le> card (set ids) \<and> budget \<noteq> 0
    then \<exists>r. sg_plan_disambiguate (Ref A) (Ref orc) (Ref ids) bound budget start end_time = Inr r \<and>
      (2 ^ 2 ^ au_state_count A < budget \<longrightarrow> pr_outcome r \<noteq> SG_OUTCOME_RESOURCE_BOUND)
    else sg_plan_disambiguate (Ref A) (Ref orc) (Ref ids) bound budget start end_time = Inl SG_ERR_INVALID_ARGUMENT"
proof -
  have V: "oracle_valid A orc" by (rule oracle_exact_valid[OF build_exact[OF wf build]])
  then have plan: "sg_plan_disambiguate (Ref A) (Ref orc) (Ref ids) bound budget start end_time =
      sg_plan_disambiguate_with_source (Ref A) (Ref (sg_oracle_record_reader orc)) (Ref ids) bound NULL budget start end_time"
    by (simp add: sg_plan_disambiguate_def oracle_valid_def oracle_tables_def)
  show ?thesis
  proof (cases "ids \<noteq> [] \<and> set ids \<subseteq> {..<au_state_count A} \<and> 0 < bound \<and> bound \<le> card (set ids) \<and> budget \<noteq> 0")
    case True
    then obtain r where "sg_plan_disambiguate (Ref A) (Ref orc) (Ref ids) bound budget start end_time = Inr r"
      "narrow_result_ok A {..<au_action_count A} (set ids) bound budget r"
      using sg_plan_disambiguate_valid[OF wf _ B, of NULL ids bound "sg_oracle_record_reader orc" start end_time]
        sg_best_resolution_total[OF V] plan by auto
    with True show ?thesis by (cases "pr_outcome r") (auto simp: narrow_result_ok_def)
  next
    case False
    with plan sg_plan_disambiguate_invalid[OF wf] show ?thesis by (simp only: if_False)
  qed
qed

text \<open>With a built oracle the restricted planner answers over the allowed letters: on valid arguments it never fails,
  every letter of its plan is allowed, also of the heuristic word, and NO_PLAN means that no word over
  the allowed letters narrows every branch to \<open>bound\<close> states.\<close>

theorem disambiguate_allowed_ok:
  assumes wf: "wf_automaton A" and build: "sg_pair_oracle_build (Ref A) = Inr orc" and B: "budget \<le> SIZE_MAX" "budget \<noteq> 0"
    and ids: "ids \<noteq> []" "set ids \<subseteq> {..<au_state_count A}" "0 < bound" "bound \<le> card (set ids)"
    and L: "allowed \<noteq> []" "set allowed \<subseteq> {..<au_action_count A}"
  shows "\<exists>r. sg_plan_disambiguate_allowed (Ref A) (Ref orc) (Ref ids) bound (Ref allowed) budget start end_time = Inr r \<and>
    narrow_result_ok A (set allowed) (set ids) bound budget r"
proof -
  have V: "oracle_valid A orc" by (rule oracle_exact_valid[OF build_exact[OF wf build]])
  have "sg_allowed_actions_valid (Ref A) (Ref allowed)"
    using L by (auto simp: sg_allowed_actions_valid_def list_all_iff)
  with V have "sg_plan_disambiguate_allowed (Ref A) (Ref orc) (Ref ids) bound (Ref allowed) budget start end_time =
      sg_plan_disambiguate_with_source (Ref A) (Ref (sg_oracle_record_reader orc)) (Ref ids) bound (Ref allowed) budget start end_time"
    by (simp add: sg_plan_disambiguate_allowed_def oracle_valid_def oracle_tables_def)
  then show ?thesis
    using sg_plan_disambiguate_valid[OF wf _ B ids(1,2) _ ids(4), of "Ref allowed"] ids(3) L(2) sg_best_resolution_total[OF V]
    by simp
qed

text \<open>C27. The restricted planner on any record source: what it returns was asked for with a nonempty
  list of valid actions, and its plan and its NO_PLAN are right over those letters.\<close>

theorem disambiguate_allowed_sound:
  assumes "wf_automaton A" "budget \<le> SIZE_MAX"
    and "sg_plan_disambiguate_allowed_from_records (Ref A) source initial_states bound allowed_actions budget start end_time = Inr r"
  shows "\<exists>ids allowed. initial_states = Ref ids \<and> allowed_actions = Ref allowed \<and> allowed \<noteq> [] \<and>
    set allowed \<subseteq> {..<au_action_count A} \<and> bound \<le> card (set ids) \<and>
    narrow_result_ok A (set allowed) (set ids) bound budget r"
proof -
  have valid: "sg_allowed_actions_valid (Ref A) allowed_actions"
    and run: "sg_plan_disambiguate_with_source (Ref A) source initial_states bound allowed_actions budget start end_time = Inr r"
    using assms(3) by (simp_all add: sg_plan_disambiguate_allowed_from_records_def split: if_splits)
  from valid obtain allowed where a: "allowed_actions = Ref allowed" "allowed \<noteq> []" "set allowed \<subseteq> {..<au_action_count A}"
    by (auto simp: sg_allowed_actions_valid_def list_all_iff split: option.splits)
  from sg_plan_disambiguate_Inr[OF assms(1) _ assms(2) run] a show ?thesis by auto
qed

section \<open>The planner on the example\<close>

text \<open>A synchronizing word narrows every branch to one state.\<close>

lemma sync_narrowing:
  assumes "finite H" "sync_word A L H w"
  shows "narrowing_word A L H 1 w"
proof -
  have "card (trace_branch A H w t) \<le> card (motion_image A H w)" for t
    using assms(1) by (intro card_mono) (auto simp: motion_image_def trace_branch_def)
  with assms(2) show ?thesis by (simp add: sync_word_def narrowing_word_def)
qed

lemma demo_narrow:
  assumes "narrow_result_ok demo_automaton {..<au_action_count demo_automaton} (set [0, 1, 2]) 1 budget r"
    "2 ^ 2 ^ au_state_count demo_automaton < budget"
  shows "pr_outcome r = SG_OUTCOME_PLAN"
  using assms sync_narrowing[OF _ demo_sync] by (cases "pr_outcome r") (auto simp: narrow_result_ok_def)

lemma demo_narrow_args:
  "257 \<le> SIZE_MAX" "set [0, 1, 2] \<subseteq> {..<au_state_count demo_automaton}" "1 \<le> card (set [0, 1, 2 :: nat])"
  "2 ^ 2 ^ au_state_count demo_automaton < (257 :: nat)" "set [0, 1] \<subseteq> {..<au_action_count demo_automaton}"
  by (simp_all add: demo_automaton_def SIZE_MAX_def)

lemma demo_oracle: "\<exists>orc. sg_pair_oracle_build (Ref demo_automaton) = Inr orc \<and> oracle_valid demo_automaton orc"
  using oracle_build_ok[OF demo_wf demo_size] oracle_exact_valid[OF build_exact[OF demo_wf]] by blast

theorem disambiguate_sound_witness:
  "\<exists>source r. sg_plan_disambiguate_from_records (Ref demo_automaton) (Ref source) (Ref [0, 1, 2]) 1 257 0 0 = Inr r \<and>
    pr_outcome r = SG_OUTCOME_PLAN \<and> pr_homing r"
proof -
  obtain orc where V: "oracle_valid demo_automaton orc" using demo_oracle by blast
  obtain r where r: "sg_plan_disambiguate_from_records (Ref demo_automaton) (Ref (sg_oracle_record_reader orc)) (Ref [0, 1, 2]) 1 257 0 0 = Inr r"
    "narrow_result_ok demo_automaton {..<au_action_count demo_automaton} (set [0, 1, 2]) 1 257 r"
    using sg_plan_disambiguate_valid[OF demo_wf _ demo_narrow_args(1) _ _ demo_narrow_args(2) _ demo_narrow_args(3),
        of NULL "sg_oracle_record_reader orc" 0 0] sg_best_resolution_total[OF V]
    by (auto simp: sg_plan_disambiguate_from_records_def)
  have plan: "pr_outcome r = SG_OUTCOME_PLAN" by (rule demo_narrow[OF r(2) demo_narrow_args(4)])
  with disambiguate_sound[OF demo_wf demo_narrow_args(1) r(1)] have "pr_homing r" by simp
  with r plan show ?thesis by blast
qed

theorem disambiguate_definite_witness:
  "\<exists>orc r. sg_pair_oracle_build (Ref demo_automaton) = Inr orc \<and>
    sg_plan_disambiguate (Ref demo_automaton) (Ref orc) (Ref [0, 1, 2]) 1 257 0 0 = Inr r \<and>
    pr_outcome r \<noteq> SG_OUTCOME_RESOURCE_BOUND"
proof -
  obtain orc where orc: "sg_pair_oracle_build (Ref demo_automaton) = Inr orc" using demo_oracle by blast
  with disambiguate_definite[OF demo_wf orc demo_narrow_args(1), of "[0, 1, 2]" 1 0 0] demo_narrow_args show ?thesis
    by auto
qed

theorem disambiguate_allowed_ok_witness:
  "\<exists>orc r. sg_pair_oracle_build (Ref demo_automaton) = Inr orc \<and>
    sg_plan_disambiguate_allowed (Ref demo_automaton) (Ref orc) (Ref [0, 1, 2]) 1 (Ref [0, 1]) 257 0 0 = Inr r \<and>
    pr_outcome r = SG_OUTCOME_PLAN \<and> set (pr_word r) \<subseteq> {0, 1}"
proof -
  obtain orc where orc: "sg_pair_oracle_build (Ref demo_automaton) = Inr orc" using demo_oracle by blast
  obtain r where r: "sg_plan_disambiguate_allowed (Ref demo_automaton) (Ref orc) (Ref [0, 1, 2]) 1 (Ref [0, 1]) 257 0 0 = Inr r"
    "narrow_result_ok demo_automaton (set [0, 1]) (set [0, 1, 2]) 1 257 r"
    using disambiguate_allowed_ok[OF demo_wf orc demo_narrow_args(1) _ _ demo_narrow_args(2) _ demo_narrow_args(3) _
        demo_narrow_args(5), of 0 0] by auto
  have "set [0, 1] = {..<au_action_count demo_automaton}" by (auto simp: demo_automaton_def)
  with r(2) demo_narrow[of 257 r] demo_narrow_args(4) have "pr_outcome r = SG_OUTCOME_PLAN" by simp
  with r orc show ?thesis by (auto simp: narrow_result_ok_def narrowing_word_def)
qed

theorem disambiguate_allowed_sound_witness:
  "\<exists>source r. sg_plan_disambiguate_allowed_from_records (Ref demo_automaton) (Ref source) (Ref [0, 1, 2]) 1 (Ref [0, 1]) 257 0 0 = Inr r \<and>
    narrow_result_ok demo_automaton {0, 1} {0, 1, 2} 1 257 r"
proof -
  obtain orc where V: "oracle_valid demo_automaton orc" using demo_oracle by blast
  have valid: "sg_allowed_actions_valid (Ref demo_automaton) (Ref [0, 1])"
    by (simp add: sg_allowed_actions_valid_def demo_automaton_def)
  obtain r where r: "sg_plan_disambiguate_allowed_from_records (Ref demo_automaton) (Ref (sg_oracle_record_reader orc)) (Ref [0, 1, 2]) 1 (Ref [0, 1]) 257 0 0 = Inr r"
    using sg_plan_disambiguate_valid[OF demo_wf _ demo_narrow_args(1) _ _ demo_narrow_args(2) _ demo_narrow_args(3),
        of "Ref [0, 1]" "sg_oracle_record_reader orc" 0 0] sg_best_resolution_total[OF V] demo_narrow_args(5) valid
    by (auto simp: sg_plan_disambiguate_allowed_from_records_def)
  with disambiguate_allowed_sound[OF demo_wf demo_narrow_args(1) r] show ?thesis by auto
qed

end
