(* ===== verification/Sync_Monitor.thy ===== *)
theory Sync_Monitor
  imports Sync_Subset Sync_Partition Sync_Example
begin

text \<open>
  Monitoring the execution of a plan (src/planner.c): \<open>sg_validate_update\<close> compares a report of the
  localizer with the motion of the initial states under the completed steps;
  \<open>sg_validate_observed_update\<close> also keeps only the states that explain the observed outputs. An
  array argument with its count is a list pointer and the count; the caller's array has at least
  that many entries.
\<close>

section \<open>The monitors of the code\<close>

record sg_monitor_result =
  mr_decision :: sg_monitor_decision
  mr_expected :: "nat list"
  mr_unexpected :: "nat list"
  mr_generation :: "64 word"

record sg_observed_monitor_result =
  om_monitor :: sg_monitor_result
  om_observation_compatible :: bool
  om_failed_observation_step :: nat
  om_observed_output :: nat
  om_expected_outputs :: "nat list"

definition sg_monitor_fill_arrays ::
  "sg_bitset \<Rightarrow> sg_bitset \<Rightarrow> sg_monitor_result \<Rightarrow> sg_monitor_result res" where
  "sg_monitor_fill_arrays expected reported result =
     (let result = result\<lparr>mr_expected :=
            (if sg_bitset_count expected \<noteq> 0 then sg_bitset_to_ids expected else mr_expected result)\<rparr>
      in rbind (sg_bitset_init (bs_state_count expected)) (\<lambda>unexpected.
         let unexpected = foldl (\<lambda>unexpected state.
               if sg_bitset_has reported state \<and> \<not> sg_bitset_has expected state
               then sg_bitset_add unexpected state else unexpected) unexpected [0..<bs_state_count expected]
         in Inr (result\<lparr>mr_unexpected :=
              (if sg_bitset_count unexpected \<noteq> 0 then sg_bitset_to_ids unexpected else mr_unexpected result)\<rparr>)))"

definition sg_monitor_decide :: "sg_bitset \<Rightarrow> sg_bitset \<Rightarrow> sg_monitor_decision" where
  "sg_monitor_decide expected reported =
     (if sg_bitset_equal reported expected then SG_MONITOR_CONTINUE
      else if sg_bitset_subset reported expected then SG_MONITOR_REPLAN
      else SG_MONITOR_MODEL_VIOLATION)"

text \<open>The loop over the completed steps is that of \<open>sg_apply_word_set\<close>.\<close>

definition sg_validate_update ::
  "sg_automaton ptr \<Rightarrow> 64 word \<Rightarrow> nat list ptr \<Rightarrow> nat list ptr \<Rightarrow> nat \<Rightarrow> nat list ptr \<Rightarrow> nat \<Rightarrow> bool \<Rightarrow>
     sg_monitor_result res" where
  "sg_validate_update automaton plan_generation initial_states word completed_steps reported_states
     reported_count localizer_available =
     (case (automaton, initial_states, word) of
        (Ref a, Ref ids, Ref w) \<Rightarrow>
          if ids = [] \<or> completed_steps > length w \<or>
             localizer_available \<and> (reported_states = NULL \<or> reported_count = 0)
          then Inl SG_ERR_INVALID_ARGUMENT
          else let result = \<lparr>mr_decision = SG_MONITOR_WAIT, mr_expected = [], mr_unexpected = [],
                             mr_generation = au_generation a\<rparr>
          in if plan_generation \<noteq> au_generation a
             then Inr (result\<lparr>mr_decision := SG_MONITOR_STALE_GENERATION\<rparr>)
             else rbind (sg_bitset_from_ids (au_state_count a) (Ref ids)) (\<lambda>expected.
                  rbind (sg_bitset_init (au_state_count a)) (\<lambda>next.
                  rbind (sg_apply_word_loop a (take completed_steps w) expected next) (\<lambda>expected.
                  if \<not> localizer_available
                  then if sg_bitset_count expected = 0 then Inl SG_ERR_INVALID_MODEL
                       else Inr (result\<lparr>mr_expected := sg_bitset_to_ids expected\<rparr>)
                  else rbind (sg_bitset_from_ids (au_state_count a)
                                (map_option (take reported_count) reported_states)) (\<lambda>reported.
                       rbind (sg_monitor_fill_arrays expected reported result) (\<lambda>result.
                       Inr (result\<lparr>mr_decision := sg_monitor_decide expected reported\<rparr>))))))
      | _ \<Rightarrow> Inl SG_ERR_INVALID_ARGUMENT)"

definition sg_monitor_expected_outputs ::
  "sg_automaton \<Rightarrow> sg_bitset \<Rightarrow> nat \<Rightarrow> sg_observed_monitor_result \<Rightarrow> sg_observed_monitor_result res" where
  "sg_monitor_expected_outputs automaton source action result =
     rbind (sg_bitset_init (au_output_count automaton)) (\<lambda>outputs.
     let outputs = foldl (\<lambda>outputs state.
           if sg_bitset_has source state then sg_bitset_add outputs (eta automaton state action) else outputs)
           outputs [0..<au_state_count automaton]
     in Inr (result\<lparr>om_expected_outputs := sg_bitset_to_ids outputs\<rparr>))"

text \<open>The loop over the completed steps, with their actions and outputs; an impossible output ends it.\<close>

fun sg_observed_loop ::
  "sg_automaton \<Rightarrow> nat \<Rightarrow> (nat \<times> nat) list \<Rightarrow> sg_bitset \<Rightarrow> sg_bitset \<Rightarrow> sg_observed_monitor_result \<Rightarrow>
     (sg_bitset \<times> sg_observed_monitor_result) res" where
  "sg_observed_loop automaton index [] expected next result = Inr (expected, result)"
| "sg_observed_loop automaton index ((action, out) # steps) expected next result =
     (let next = sg_apply_observed_action_set automaton expected action out next
      in if sg_bitset_count next = 0
         then rbind (sg_monitor_expected_outputs automaton expected action
                       (result\<lparr>om_failed_observation_step := index + 1, om_observed_output := out\<rparr>))
                (\<lambda>result. Inr (next, result))
         else sg_observed_loop automaton (index + 1) steps next expected result)"

definition sg_observed_decide ::
  "bool \<Rightarrow> sg_bitset \<Rightarrow> sg_bitset \<Rightarrow> sg_observed_monitor_result \<Rightarrow> sg_observed_monitor_result" where
  "sg_observed_decide localizer_available expected reported result =
     (let result = result\<lparr>om_observation_compatible := om_failed_observation_step result = SG_INDEX_NONE\<rparr>
      in if \<not> om_observation_compatible result
         then result\<lparr>om_monitor := (om_monitor result)\<lparr>mr_decision := SG_MONITOR_MODEL_VIOLATION\<rparr>\<rparr>
         else if localizer_available
         then result\<lparr>om_monitor := (om_monitor result)\<lparr>mr_decision := sg_monitor_decide expected reported\<rparr>\<rparr>
         else result)"

definition sg_validate_observed_update ::
  "sg_automaton ptr \<Rightarrow> 64 word \<Rightarrow> nat list ptr \<Rightarrow> nat list ptr \<Rightarrow> nat \<Rightarrow> nat list ptr \<Rightarrow> nat \<Rightarrow>
     nat list ptr \<Rightarrow> nat \<Rightarrow> bool \<Rightarrow> sg_observed_monitor_result res" where
  "sg_validate_observed_update automaton plan_generation initial_states word completed_steps
     observed_outputs observed_count reported_states reported_count localizer_available =
     (case (automaton, initial_states, word) of
        (Ref a, Ref ids, Ref w) \<Rightarrow>
          if ids = [] \<or> completed_steps > length w \<or> observed_count \<noteq> completed_steps \<or>
             completed_steps \<noteq> 0 \<and> observed_outputs = NULL \<or>
             localizer_available \<and> reported_count \<noteq> 0 \<and> reported_states = NULL
          then Inl SG_ERR_INVALID_ARGUMENT
          else let result = \<lparr>om_monitor = \<lparr>mr_decision = SG_MONITOR_WAIT, mr_expected = [], mr_unexpected = [],
                                           mr_generation = au_generation a\<rparr>,
                             om_observation_compatible = False,
                             om_failed_observation_step = SG_INDEX_NONE, om_observed_output = SG_INDEX_NONE,
                             om_expected_outputs = []\<rparr>;
                   steps = zip (take completed_steps w)
                     (case observed_outputs of NULL \<Rightarrow> [] | Ref outs \<Rightarrow> take completed_steps outs)
          in if plan_generation \<noteq> au_generation a
             then Inr (result\<lparr>om_monitor := (om_monitor result)\<lparr>mr_decision := SG_MONITOR_STALE_GENERATION\<rparr>\<rparr>)
             else if list_ex (\<lambda>(action, out). action \<ge> au_action_count a \<or> out \<ge> au_output_count a) steps
             then Inl SG_ERR_INVALID_ARGUMENT
             else rbind (sg_bitset_from_ids (au_state_count a) (Ref ids)) (\<lambda>expected.
                  rbind (sg_bitset_init (au_state_count a)) (\<lambda>next.
                  rbind (if localizer_available \<and> reported_count \<noteq> 0
                         then sg_bitset_from_ids (au_state_count a) (map_option (take reported_count) reported_states)
                         else sg_bitset_init (au_state_count a)) (\<lambda>reported.
                  rbind (sg_observed_loop a 0 steps expected next result) (\<lambda>(expected, result).
                  rbind (sg_monitor_fill_arrays expected reported (om_monitor result)) (\<lambda>monitor.
                  Inr (sg_observed_decide localizer_available expected reported (result\<lparr>om_monitor := monitor\<rparr>)))))))
      | _ \<Rightarrow> Inl SG_ERR_INVALID_ARGUMENT)"

section \<open>What a monitor should say\<close>

text \<open>The verdict on the reported states \<open>R\<close> where the states \<open>E\<close> are expected.\<close>

definition report_decision :: "nat set \<Rightarrow> nat set \<Rightarrow> sg_monitor_decision" where
  "report_decision E R =
     (if R = E then SG_MONITOR_CONTINUE else if R \<subset> E then SG_MONITOR_REPLAN else SG_MONITOR_MODEL_VIOLATION)"

lemma to_ids_support: "support_ok A e \<Longrightarrow> sg_bitset_to_ids e = sorted_list_of_set (bitset_set e)"
  by (simp add: support_ok_def sg_bitset_to_ids_eq)

lemma support_count_0: "support_ok A e \<Longrightarrow> sg_bitset_count e = 0 \<longleftrightarrow> bitset_set e = {}"
  by (simp add: support_ok_def bits.count_0_iff)

lemma sg_monitor_decide_eq:
  assumes "support_ok A e" "support_ok A r"
  shows "sg_monitor_decide e r = report_decision (bitset_set e) (bitset_set r)"
  using assms support_eq_iff[OF assms(2,1)]
  by (auto simp: sg_monitor_decide_def report_decision_def support_ok_def sg_bitset_equal_iff sg_bitset_subset_iff)

lemma sg_monitor_fill_arrays_eq:
  assumes wf: "wf_automaton A" and e: "support_ok A e" and r: "support_ok A rep"
    and empty: "mr_expected m = []" "mr_unexpected m = []"
  shows "sg_monitor_fill_arrays e rep m = Inr (m\<lparr>mr_expected := sorted_list_of_set (bitset_set e),
    mr_unexpected := sorted_list_of_set (bitset_set rep - bitset_set e)\<rparr>)"
proof -
  let ?n = "au_state_count A"
  have n: "bs_state_count e = ?n" using e by (simp add: support_ok_def bitset_ok_def)
  let ?u = "foldl (\<lambda>u s. if sg_bitset_has rep s \<and> \<not> sg_bitset_has e s then sg_bitset_add u s else u) (sg_bitset_zero ?n) [0..<?n]"
  have has: "sg_bitset_has rep s \<longleftrightarrow> s \<in> bitset_set rep" "sg_bitset_has e s \<longleftrightarrow> s \<in> bitset_set e" if "s < ?n" for s
    using that e r by (simp_all add: support_ok_def sg_bitset_has_iff)
  have "{s \<in> set [0..<?n]. sg_bitset_has rep s \<and> \<not> sg_bitset_has e s} = bitset_set rep - bitset_set e"
    using has support_okD(2)[OF r] by auto
  moreover have zero: "bitset_ok ?n (sg_bitset_zero ?n)" "bitset_set (sg_bitset_zero ?n) = {}"
    using wf by (simp_all add: bits.zero_ok bits.zero_elems wf_automatonD)
  ultimately have u: "support_ok A ?u" "bitset_set ?u = bitset_set rep - bitset_set e"
    using bits.fold_add[OF zero(1), of "[0..<?n]" "\<lambda>s. sg_bitset_has rep s \<and> \<not> sg_bitset_has e s" "\<lambda>s. s"]
    by (simp_all add: support_ok_def)
  have ids: "(if sg_bitset_count b \<noteq> 0 then sg_bitset_to_ids b else []) = sorted_list_of_set (bitset_set b)"
    if "support_ok A b" for b
    using support_count_0[OF that] to_ids_support[OF that] by simp
  have "sg_monitor_fill_arrays e rep m =
      Inr (m\<lparr>mr_expected := (if sg_bitset_count e \<noteq> 0 then sg_bitset_to_ids e else []),
             mr_unexpected := (if sg_bitset_count ?u \<noteq> 0 then sg_bitset_to_ids ?u else [])\<rparr>)"
    using empty wf by (simp add: sg_monitor_fill_arrays_def n wf_automatonD Let_def)
  then show ?thesis unfolding ids[OF e] ids[OF u(1)] u(2) .
qed

section \<open>The motion monitor\<close>

definition monitor_result :: "sg_automaton \<Rightarrow> sg_monitor_decision \<Rightarrow> nat set \<Rightarrow> nat set \<Rightarrow> sg_monitor_result" where
  "monitor_result A decision expected unexpected =
     \<lparr>mr_decision = decision, mr_expected = sorted_list_of_set expected,
      mr_unexpected = sorted_list_of_set unexpected, mr_generation = au_generation A\<rparr>"

text \<open>C29. \<open>sg_validate_update\<close> on arrays that are not NULL, in full: malformed calls, a stale plan, and otherwise the verdict on the
  report against the exact set of states that the completed steps lead to from the initial states,
  with the expected and the unexpected states in increasing order; without a localizer it waits.\<close>

theorem validate_update_decides:
  fixes ids w :: "nat list" and k :: nat
  assumes wf: "wf_automaton A"
  defines "E \<equiv> motion_image A (set ids) (take k w)"
  shows "sg_validate_update (Ref A) g (Ref ids) (Ref w) k (Ref rep) (length rep) localizer =
    (if ids = [] \<or> length w < k \<or> localizer \<and> rep = [] then Inl SG_ERR_INVALID_ARGUMENT
     else if g \<noteq> au_generation A then Inr (monitor_result A SG_MONITOR_STALE_GENERATION {} {})
     else if \<not> set ids \<subseteq> {..<au_state_count A} \<or> \<not> word_ok A (take k w) \<or>
             localizer \<and> \<not> set rep \<subseteq> {..<au_state_count A} then Inl SG_ERR_INVALID_ARGUMENT
     else if localizer then Inr (monitor_result A (report_decision E (set rep)) E (set rep - E))
     else Inr (monitor_result A SG_MONITOR_WAIT E {}))"
proof -
  let ?n = "au_state_count A"
  have init: "sg_bitset_init ?n = Inr (sg_bitset_zero ?n)" using wf by (simp add: wf_automatonD)
  have zero: "support_ok A (sg_bitset_zero ?n)" by (rule support_ok_zero[OF wf])
  note run = sg_validate_update_def monitor_result_def Let_def
  consider (early) "ids = [] \<or> length w < k \<or> localizer \<and> rep = [] \<or> g \<noteq> au_generation A"
    | (states) "ids \<noteq> []" "k \<le> length w" "localizer \<longrightarrow> rep \<noteq> []" "g = au_generation A" "\<not> set ids \<subseteq> {..<?n}"
    | (steps) "ids \<noteq> []" "k \<le> length w" "localizer \<longrightarrow> rep \<noteq> []" "g = au_generation A" "set ids \<subseteq> {..<?n}"
    by fastforce
  then show ?thesis
  proof cases
    case early
    then show ?thesis by (auto simp: run)
  next
    case states
    then show ?thesis using from_ids_cases[OF wf, of ids] by (auto simp: run)
  next
    case steps
    obtain s where s: "sg_bitset_from_ids ?n (Ref ids) = Inr s" "support_ok A s" "bitset_set s = set ids"
      using from_ids_cases[OF wf, of ids] steps by auto
    show ?thesis
    proof (cases "word_ok A (take k w)")
      case False
      with steps s init show ?thesis by (auto simp: run sg_apply_word_loop_error)
    next
      case True
      then obtain e where e: "sg_apply_word_loop A (take k w) s (sg_bitset_zero ?n) = Inr e"
        using sg_apply_word_loop_exists by blast
      then have E: "support_ok A e" "bitset_set e = E"
        using sg_apply_word_loop[OF wf s(2) zero] s(3) by (auto simp: E_def)
      have "E \<noteq> {}" using steps(1) by (simp add: E_def motion_image_def)
      show ?thesis
      proof (cases "localizer \<and> set rep \<subseteq> {..<?n}")
        case True
        obtain r where r: "sg_bitset_from_ids ?n (Ref rep) = Inr r" "support_ok A r" "bitset_set r = set rep"
          using from_ids_cases[OF wf, of rep] steps True by auto
        show ?thesis
          using True steps s init \<open>word_ok A (take k w)\<close> e E r sg_monitor_decide_eq[OF E(1) r(2)]
          by (simp add: run sg_monitor_fill_arrays_eq[OF wf E(1) r(2)])
      next
        case False
        then show ?thesis
          using steps s init \<open>word_ok A (take k w)\<close> e E from_ids_cases[OF wf, of rep] \<open>E \<noteq> {}\<close>
            support_count_0[OF E(1)] to_ids_support[OF E(1)]
          by (auto simp: run)
      qed
    qed
  qed
qed

section \<open>The monitor of outputs\<close>

text \<open>The states \<open>H\<close> after the first \<open>k\<close> steps that explain the first \<open>k\<close> outputs.\<close>

definition explained :: "sg_automaton \<Rightarrow> nat set \<Rightarrow> nat list \<Rightarrow> nat list \<Rightarrow> nat \<Rightarrow> nat set" where
  "explained A H w outs k = trace_branch A H (take k w) (take k outs)"

lemma explained_0 [simp]: "explained A H w outs 0 = H"
  by (simp add: explained_def)

lemma explained_Suc:
  "k < length w \<Longrightarrow> k < length outs \<Longrightarrow>
   explained A H w outs (Suc k) = observed_step A (explained A H w outs k) (w ! k) (outs ! k)"
  by (simp add: explained_def take_Suc_conv_app_nth trace_branch_snoc)

lemma sg_monitor_expected_outputs_eq:
  assumes wf: "wf_automaton A" and e: "support_ok A e" and a: "a < au_action_count A"
  shows "sg_monitor_expected_outputs A e a m =
    Inr (m\<lparr>om_expected_outputs := sorted_list_of_set ((\<lambda>s. eta A s a) ` bitset_set e)\<rparr>)"
proof -
  let ?n = "au_output_count A"
  have zero: "bitset_ok ?n (sg_bitset_zero ?n)" "bitset_set (sg_bitset_zero ?n) = {}"
    using wf by (simp_all add: bits.zero_ok bits.zero_elems wf_automatonD)
  have "{s \<in> set [0..<au_state_count A]. sg_bitset_has e s} = bitset_set e"
    using e support_okD(2)[OF e] by (auto simp: support_ok_def sg_bitset_has_iff)
  with bits.fold_add[OF zero(1), of "[0..<au_state_count A]" "sg_bitset_has e" "\<lambda>s. eta A s a"] observation_less[OF wf _ a]
  have "bitset_ok ?n (foldl (\<lambda>u s. if sg_bitset_has e s then sg_bitset_add u (eta A s a) else u) (sg_bitset_zero ?n) [0..<au_state_count A])"
    "bitset_set (foldl (\<lambda>u s. if sg_bitset_has e s then sg_bitset_add u (eta A s a) else u) (sg_bitset_zero ?n) [0..<au_state_count A]) =
      (\<lambda>s. eta A s a) ` bitset_set e"
    using zero(2) by simp_all
  then show ?thesis
    using wf by (simp add: sg_monitor_expected_outputs_def wf_automatonD Let_def sg_bitset_to_ids_eq)
qed

text \<open>Step \<open>j\<close> is the first whose output no state explains; the result names it.\<close>

definition first_unexplained :: "sg_automaton \<Rightarrow> nat set \<Rightarrow> nat list \<Rightarrow> nat list \<Rightarrow> nat \<Rightarrow> bool" where
  "first_unexplained A H w outs j \<longleftrightarrow>
     j < length w \<and> j < length outs \<and> explained A H w outs j \<noteq> {} \<and> explained A H w outs (Suc j) = {}"

definition unexplained_result ::
  "sg_automaton \<Rightarrow> nat set \<Rightarrow> nat list \<Rightarrow> nat list \<Rightarrow> nat \<Rightarrow> sg_observed_monitor_result \<Rightarrow> sg_observed_monitor_result" where
  "unexplained_result A H w outs j m =
     m\<lparr>om_failed_observation_step := Suc j, om_observed_output := outs ! j,
       om_expected_outputs := sorted_list_of_set ((\<lambda>s. eta A s (w ! j)) ` explained A H w outs j)\<rparr>"

lemma explained_monotone: "j \<le> k \<Longrightarrow> explained A H w outs j = {} \<Longrightarrow> explained A H w outs k = {}"
proof (induction k rule: dec_induct)
  case (step k)
  have "explained A H w outs (Suc k) \<subseteq> {}"
  proof (cases "k < length w \<and> k < length outs")
    case True
    with step show ?thesis by (simp add: explained_Suc observed_step_def)
  next
    case False
    have "output_trace A s (take (Suc k) w) \<noteq> take (Suc k) outs" if "s \<in> H" for s
    proof
      assume eq: "output_trace A s (take (Suc k) w) = take (Suc k) outs"
      then have "length (take (Suc k) w) = length (take (Suc k) outs)" by (metis length_output_trace)
      with False have "take (Suc k) w = take k w" "take (Suc k) outs = take k outs" by auto
      with eq that step show False by (auto simp: explained_def trace_branch_def)
    qed
    then show ?thesis by (auto simp: explained_def trace_branch_def)
  qed
  then show ?case by blast
qed simp

lemma sg_observed_loop_ok:
  assumes wf: "wf_automaton A" and len: "length outs = length w" and w: "word_ok A w"
  shows "k \<le> length w \<Longrightarrow> support_ok A e \<Longrightarrow> support_ok A next \<Longrightarrow> bitset_set e = explained A H w outs k \<Longrightarrow>
    explained A H w outs k \<noteq> {} \<Longrightarrow>
    \<exists>e' m'. sg_observed_loop A k (drop k (zip w outs)) e next m = Inr (e', m') \<and>
      support_ok A e' \<and> bitset_set e' = explained A H w outs (length w) \<and>
      (if explained A H w outs (length w) \<noteq> {} then m' = m
       else \<exists>j. first_unexplained A H w outs j \<and> m' = unexplained_result A H w outs j m)"
proof (induction "length w - k" arbitrary: k e "next")
  case 0
  then show ?case using len by simp
next
  case (Suc n)
  then have k: "k < length w" by simp
  have a: "w ! k < au_action_count A" using w nth_mem[OF k] by (auto simp: word_ok_set)
  let ?e = "sg_apply_observed_action_set A e (w ! k) (outs ! k) next"
  note step = sg_apply_observed_action_set[OF wf Suc.prems(2,3) a, of "outs ! k"]
  have set: "bitset_set ?e = explained A H w outs (Suc k)"
    using k len Suc.prems(4) by (simp add: step(2) explained_Suc observed_step_def)
  have drop: "drop k (zip w outs) = (w ! k, outs ! k) # drop (Suc k) (zip w outs)"
    using k len by (simp add: Cons_nth_drop_Suc[symmetric])
  show ?case
  proof (cases "explained A H w outs (Suc k) = {}")
    case True
    then have "first_unexplained A H w outs k" using k len Suc.prems(5) by (simp add: first_unexplained_def)
    moreover have "explained A H w outs (length w) = {}" using True k by (intro explained_monotone[OF _ True]) simp
    moreover have "sg_observed_loop A k (drop k (zip w outs)) e next m = Inr (?e, unexplained_result A H w outs k m)"
      using True set support_count_0[OF step(1)] Suc.prems(4)
      by (simp add: drop sg_monitor_expected_outputs_eq[OF wf Suc.prems(2) a] unexplained_result_def Let_def)
    ultimately show ?thesis using True set step(1) by auto
  next
    case False
    then have "sg_observed_loop A k (drop k (zip w outs)) e next m = sg_observed_loop A (Suc k) (drop (Suc k) (zip w outs)) ?e e m"
      using set support_count_0[OF step(1)] by (simp add: drop Let_def)
    with Suc.hyps(1)[OF _ _ step(1) Suc.prems(2) set False] Suc.hyps(2) k show ?thesis by simp
  qed
qed

text \<open>What the monitor of outputs reports for the states \<open>E\<close> that explain all outputs and the
  reported states \<open>R\<close>.\<close>

definition observed_result :: "sg_automaton \<Rightarrow> bool \<Rightarrow> nat set \<Rightarrow> nat set \<Rightarrow> sg_observed_monitor_result" where
  "observed_result A localizer E R =
     \<lparr>om_monitor = monitor_result A
        (if E = {} then SG_MONITOR_MODEL_VIOLATION
         else if localizer then report_decision E R else SG_MONITOR_WAIT) E (R - E),
      om_observation_compatible = (E \<noteq> {}), om_failed_observation_step = SG_INDEX_NONE,
      om_observed_output = SG_INDEX_NONE, om_expected_outputs = []\<rparr>"

lemma zip_in_range:
  "length v = length outs \<Longrightarrow> list_ex (\<lambda>(action, out). (n :: nat) \<le> action \<or> (m :: nat) \<le> out) (zip v outs) \<longleftrightarrow>
   \<not> (set v \<subseteq> {..<n} \<and> set outs \<subseteq> {..<m})"
  by (induction v outs rule: list_induct2) (auto simp: not_le)

text \<open>What the calls of the theorems below compute when the arguments are in range.\<close>

lemma sg_validate_observed_update_run:
  assumes wf: "wf_automaton A" and ids: "ids \<noteq> []" "set ids \<subseteq> {..<au_state_count A}"
    and k: "k \<le> length w" "length outs = k" "k < SIZE_MAX"
    and steps: "word_ok A (take k w)" "set outs \<subseteq> {..<au_output_count A}"
    and rep: "localizer \<Longrightarrow> set rep \<subseteq> {..<au_state_count A}"
  defines "H \<equiv> set ids" and "v \<equiv> take k w" and "R \<equiv> (if localizer then set rep else {})"
  shows "\<exists>m. sg_validate_observed_update (Ref A) (au_generation A) (Ref ids) (Ref w) k (Ref outs) k (Ref rep) (length rep) localizer = Inr m \<and>
    (if explained A H v outs k \<noteq> {} then m = observed_result A localizer (explained A H v outs k) R
     else \<exists>j. first_unexplained A H v outs j \<and> m = unexplained_result A H v outs j (observed_result A localizer {} R))"
proof -
  let ?n = "au_state_count A" and ?E = "explained A H v outs k"
  let ?m0 = "\<lparr>om_monitor = monitor_result A SG_MONITOR_WAIT {} {}, om_observation_compatible = False,
      om_failed_observation_step = SG_INDEX_NONE, om_observed_output = SG_INDEX_NONE, om_expected_outputs = []\<rparr>"
  have v: "length outs = length v" "length v = k" using k by (simp_all add: v_def)
  obtain s where s: "sg_bitset_from_ids ?n (Ref ids) = Inr s" "support_ok A s" "bitset_set s = H"
    using from_ids_cases[OF wf, of ids] ids by (auto simp: H_def)
  have init: "sg_bitset_init ?n = Inr (sg_bitset_zero ?n)" using wf by (simp add: wf_automatonD)
  have zero: "support_ok A (sg_bitset_zero ?n)" "bitset_set (sg_bitset_zero ?n) = {}"
    using support_ok_zero[OF wf] wf by (simp_all add: bits.zero_elems wf_automatonD)
  obtain r where r: "(if localizer \<and> length rep \<noteq> 0 then sg_bitset_from_ids ?n (Ref rep) else sg_bitset_init ?n) = Inr r"
    "support_ok A r" "bitset_set r = R"
    using from_ids_cases[OF wf, of rep] rep init zero by (cases "localizer \<and> rep \<noteq> []") (auto simp: R_def)
  obtain e m where e: "sg_observed_loop A 0 (zip v outs) s (sg_bitset_zero ?n) ?m0 = Inr (e, m)" "support_ok A e"
    "bitset_set e = ?E"
    and m: "if ?E \<noteq> {} then m = ?m0 else \<exists>j. first_unexplained A H v outs j \<and> m = unexplained_result A H v outs j ?m0"
    using sg_observed_loop_ok[OF wf v(1) steps(1)[folded v_def], of 0 s "sg_bitset_zero ?n" H ?m0] s zero v ids(1)
    by (auto simp: H_def)
  have range: "\<not> list_ex (\<lambda>(action, out). au_action_count A \<le> action \<or> au_output_count A \<le> out) (zip v outs)"
    using steps unfolding v_def by (fastforce simp: list_ex_iff word_ok_set dest: set_zip_leftD set_zip_rightD)
  have mon: "om_monitor m = monitor_result A SG_MONITOR_WAIT {} {}"
    using m by (auto simp: unexplained_result_def split: if_splits)
  have fill: "sg_monitor_fill_arrays e r (om_monitor m) = Inr (monitor_result A SG_MONITOR_WAIT ?E (R - ?E))"
    using sg_monitor_fill_arrays_eq[OF wf e(2) r(2), of "om_monitor m"] e(3) r(3) mon by (simp add: monitor_result_def)
  have run: "sg_validate_observed_update (Ref A) (au_generation A) (Ref ids) (Ref w) k (Ref outs) k (Ref rep) (length rep) localizer =
      Inr (sg_observed_decide localizer e r (m\<lparr>om_monitor := monitor_result A SG_MONITOR_WAIT ?E (R - ?E)\<rparr>))"
    using ids(1) k range s(1) init r(1) e(1) fill
    by (simp add: sg_validate_observed_update_def v_def[symmetric] monitor_result_def Let_def cong: if_cong)
  show ?thesis
  proof (cases "?E = {}")
    case False
    then show ?thesis
      using m run sg_monitor_decide_eq[OF e(2) r(2)] e(3) r(3)
      by (simp add: sg_observed_decide_def observed_result_def monitor_result_def Let_def)
  next
    case True
    then obtain j where j: "first_unexplained A H v outs j" "m = unexplained_result A H v outs j ?m0" using m by auto
    then have "Suc j \<noteq> SG_INDEX_NONE" using k v by (simp add: first_unexplained_def)
    with True j run show ?thesis
      by (simp add: sg_observed_decide_def observed_result_def unexplained_result_def monitor_result_def Let_def)
  qed
qed

text \<open>C4. \<open>sg_validate_observed_update\<close> keeps exactly the states that explain the consumed outputs. If
  there are any, it gives the verdict on the report against them, or waits without a localizer. If
  there are none it reports a model violation, whatever the localizer says, and names the first
  impossible step, its output and the outputs that were possible there.\<close>

theorem observed_update_decides:
  assumes "wf_automaton A" "ids \<noteq> []" "set ids \<subseteq> {..<au_state_count A}"
    and "k \<le> length w" "length outs = k" "k < SIZE_MAX"
    and "word_ok A (take k w)" "set outs \<subseteq> {..<au_output_count A}"
    and "localizer \<Longrightarrow> set rep \<subseteq> {..<au_state_count A}"
  shows "\<exists>m. sg_validate_observed_update (Ref A) (au_generation A) (Ref ids) (Ref w) k (Ref outs) k (Ref rep) (length rep) localizer = Inr m \<and>
    mr_expected (om_monitor m) = sorted_list_of_set (trace_branch A (set ids) (take k w) outs) \<and>
    (if trace_branch A (set ids) (take k w) outs \<noteq> {}
     then om_observation_compatible m \<and> om_failed_observation_step m = SG_INDEX_NONE \<and>
       mr_decision (om_monitor m) = (if localizer
         then report_decision (trace_branch A (set ids) (take k w) outs) (set rep) else SG_MONITOR_WAIT)
     else mr_decision (om_monitor m) = SG_MONITOR_MODEL_VIOLATION \<and> \<not> om_observation_compatible m \<and>
       (\<exists>j < k. trace_branch A (set ids) (take j w) (take j outs) \<noteq> {} \<and>
          trace_branch A (set ids) (take (Suc j) w) (take (Suc j) outs) = {} \<and>
          om_failed_observation_step m = Suc j \<and> om_observed_output m = outs ! j \<and>
          om_expected_outputs m =
            sorted_list_of_set ((\<lambda>s. eta A s (w ! j)) ` trace_branch A (set ids) (take j w) (take j outs))))"
proof -
  obtain m where run: "sg_validate_observed_update (Ref A) (au_generation A) (Ref ids) (Ref w) k (Ref outs) k (Ref rep) (length rep) localizer = Inr m"
    and m: "if explained A (set ids) (take k w) outs k \<noteq> {}
      then m = observed_result A localizer (explained A (set ids) (take k w) outs k) (if localizer then set rep else {})
      else \<exists>j. first_unexplained A (set ids) (take k w) outs j \<and>
        m = unexplained_result A (set ids) (take k w) outs j (observed_result A localizer {} (if localizer then set rep else {}))"
    using sg_validate_observed_update_run[OF assms] by blast
  have E: "explained A (set ids) (take k w) outs k = trace_branch A (set ids) (take k w) outs"
    using assms(5) by (simp add: explained_def)
  have E_j: "explained A (set ids) (take k w) outs j = trace_branch A (set ids) (take j w) (take j outs)" if "j \<le> k" for j
    using that by (simp add: explained_def min_def)
  show ?thesis
  proof (cases "trace_branch A (set ids) (take k w) outs = {}")
    case False
    with run m E show ?thesis by (simp add: observed_result_def monitor_result_def)
  next
    case True
    then obtain j where j: "first_unexplained A (set ids) (take k w) outs j"
      "m = unexplained_result A (set ids) (take k w) outs j (observed_result A localizer {} (if localizer then set rep else {}))"
      using m E by auto
    then have "j < k" using assms(5) by (simp add: first_unexplained_def)
    with j E_j[of j] E_j[of "Suc j"] run True show ?thesis
      by (auto simp: first_unexplained_def unexplained_result_def observed_result_def monitor_result_def)
  qed
qed

text \<open>C28. Of calls with arrays that are not NULL \<open>sg_validate_observed_update\<close> refuses exactly the malformed
  ones, and of a plan of the current
  generation those with a state, an action or an output out of range, always as invalid arguments; for
  a stale plan it looks at none of them.\<close>

theorem observed_update_refuses:
  assumes wf: "wf_automaton A" and "length outs = count" "count < SIZE_MAX"
  shows "sg_validate_observed_update (Ref A) g (Ref ids) (Ref w) k (Ref outs) count (Ref rep) (length rep) localizer = Inl st \<longleftrightarrow>
    st = SG_ERR_INVALID_ARGUMENT \<and>
    (ids = [] \<or> length w < k \<or> count \<noteq> k \<or>
     g = au_generation A \<and> \<not> (set ids \<subseteq> {..<au_state_count A} \<and> word_ok A (take k w) \<and>
       set outs \<subseteq> {..<au_output_count A} \<and> (localizer \<longrightarrow> set rep \<subseteq> {..<au_state_count A})))"
proof -
  let ?n = "au_state_count A"
  let ?call = "sg_validate_observed_update (Ref A) g (Ref ids) (Ref w) k (Ref outs) count (Ref rep) (length rep) localizer"
  have init: "sg_bitset_init ?n = Inr (sg_bitset_zero ?n)" using wf by (simp add: wf_automatonD)
  consider (bad) "ids = [] \<or> length w < k \<or> count \<noteq> k" | (stale) "ids \<noteq> []" "k \<le> length w" "count = k" "g \<noteq> au_generation A"
    | (current) "ids \<noteq> []" "k \<le> length w" "count = k" "g = au_generation A" by fastforce
  then show ?thesis
  proof cases
    case bad
    then show ?thesis by (auto simp: sg_validate_observed_update_def)
  next
    case stale
    then show ?thesis by (auto simp: sg_validate_observed_update_def Let_def)
  next
    case current
    let ?range = "set ids \<subseteq> {..<?n} \<and> word_ok A (take k w) \<and> set outs \<subseteq> {..<au_output_count A} \<and>
        (localizer \<longrightarrow> set rep \<subseteq> {..<?n})"
    show ?thesis
    proof (cases ?range)
      case True
      with sg_validate_observed_update_run[OF wf current(1) _ current(2), of outs localizer rep] current assms(2,3)
      show ?thesis by auto
    next
      case False
      have steps: "list_ex (\<lambda>(action, out). au_action_count A \<le> action \<or> au_output_count A \<le> out) (zip (take k w) outs) \<longleftrightarrow>
          \<not> (word_ok A (take k w) \<and> set outs \<subseteq> {..<au_output_count A})"
        using current(2,3) assms(2) zip_in_range[of "take k w" outs] by (simp add: word_ok_set)
      have "?call = Inl SG_ERR_INVALID_ARGUMENT"
        using False current assms(2) steps init from_ids_cases[OF wf, of ids] from_ids_cases[OF wf, of rep]
        by (auto simp: sg_validate_observed_update_def Let_def split: if_splits)
      with False current show ?thesis by auto
    qed
  qed
qed

section \<open>The monitors on the example\<close>

theorem validate_update_decides_witness:
  "sg_validate_update (Ref demo_automaton) 7 (Ref [0, 1]) (Ref [1]) 1 (Ref [0]) 1 True =
    Inr (monitor_result demo_automaton SG_MONITOR_CONTINUE {0} {})"
proof -
  have image: "motion_image demo_automaton {0, 1} [1] = {0}"
  proof -
    have "run_word demo_automaton 0 [1] = 0" "run_word demo_automaton 1 [1] = 0" by code_simp+
    then show ?thesis by (simp add: motion_image_def del: run_word.simps)
  qed
  have args: "au_generation demo_automaton = 7" "set [0, 1] \<subseteq> {..<au_state_count demo_automaton}"
    "word_ok demo_automaton (take 1 [1])" "set [0] \<subseteq> {..<au_state_count demo_automaton}"
    by (simp_all add: demo_automaton_def word_ok_def)
  from validate_update_decides[OF demo_wf, of 7 "[0, 1]" "[1]" 1 "[0]" True] args image show ?thesis
    by (simp add: report_decision_def)
qed

theorem observed_update_decides_witness:
  "\<exists>m. sg_validate_observed_update (Ref demo_automaton) 7 (Ref [0, 1, 2]) (Ref [0, 0]) 2 (Ref [1, 1]) 2 (Ref []) 0 False = Inr m \<and>
    mr_decision (om_monitor m) = SG_MONITOR_MODEL_VIOLATION \<and> mr_expected (om_monitor m) = []"
proof -
  have "\<forall>s \<in> set [0, 1, 2]. output_trace demo_automaton s (take 2 [0, 0]) \<noteq> [1, 1]" by code_simp
  then have none: "trace_branch demo_automaton (set [0, 1, 2]) (take 2 [0, 0]) [1, 1] = {}"
    unfolding trace_branch_def by blast
  have "[0, 1, 2] \<noteq> ([] :: nat list)" "set [0, 1, 2] \<subseteq> {..<au_state_count demo_automaton}" "2 \<le> length [0, 0 :: nat]"
    "length [1, 1 :: nat] = 2" "2 < SIZE_MAX" "word_ok demo_automaton (take 2 [0, 0])"
    "set [1, 1] \<subseteq> {..<au_output_count demo_automaton}"
    by (simp_all add: demo_automaton_def word_ok_def SIZE_MAX_def)
  from observed_update_decides[OF demo_wf this, of False "[]"] none show ?thesis by (auto simp: demo_automaton_def)
qed

theorem observed_update_refuses_witness:
  "sg_validate_observed_update (Ref demo_automaton) 7 (Ref [0, 1, 2]) (Ref [0]) 1 (Ref [9]) 1 (Ref []) 0 False =
    Inl SG_ERR_INVALID_ARGUMENT"
proof -
  have "length [9 :: nat] = 1" "1 < SIZE_MAX" by (simp_all add: SIZE_MAX_def)
  from observed_update_refuses[OF demo_wf this, of 7 "[0, 1, 2]" "[0]" 1 "[]" False SG_ERR_INVALID_ARGUMENT]
  show ?thesis by (simp add: demo_automaton_def)
qed

end
