(* ===== verification/Sync_Explain.thy ===== *)
theory Sync_Explain
  imports Sync_Subset Sync_Partition Sync_Example
begin

text \<open>
  Explaining a plan (src/planner.c): \<open>sg_explain_plan\<close> replays a word and calls a visitor for every
  observation branch after every step. The visitor is the caller's: a function that gets one visit
  and the caller's context and returns a status and the context it leaves.
\<close>

section \<open>The explanation of the code\<close>

text \<open>The arguments of one call of the visitor; the counts are the lengths of the lists.\<close>

record sg_explain_visit =
  ev_step :: nat
  ev_action :: nat
  ev_predicted :: "nat list"
  ev_trace :: "nat list"
  ev_states :: "nat list"

type_synonym 'c sg_explain_visitor = "sg_explain_visit \<Rightarrow> 'c \<Rightarrow> sg_status \<times> 'c"

fun sg_explain_branches ::
  "'c sg_explain_visitor \<Rightarrow> nat \<Rightarrow> nat \<Rightarrow> nat list \<Rightarrow> sg_trace_partition \<Rightarrow> 'c \<Rightarrow> sg_status \<times> 'c" where
  "sg_explain_branches visitor step action predicted [] context = (SG_OK, context)"
| "sg_explain_branches visitor step action predicted (branch # branches) context =
     (let (status, context) = visitor \<lparr>ev_step = step, ev_action = action, ev_predicted = predicted,
            ev_trace = tb_trace branch, ev_states = sg_bitset_to_ids (tb_support branch)\<rparr> context
      in if status = SG_OK then sg_explain_branches visitor step action predicted branches context
         else (status, context))"

definition sg_explain_partition ::
  "sg_trace_partition \<Rightarrow> sg_bitset \<Rightarrow> nat \<Rightarrow> nat \<Rightarrow> 'c sg_explain_visitor \<Rightarrow> 'c \<Rightarrow> sg_status \<times> 'c" where
  "sg_explain_partition parts predicted step action visitor context =
     sg_explain_branches visitor step action (sg_bitset_to_ids predicted) parts context"

fun sg_explain_steps ::
  "sg_automaton \<Rightarrow> 'c sg_explain_visitor \<Rightarrow> nat \<Rightarrow> nat list \<Rightarrow> sg_bitset \<Rightarrow> sg_bitset \<Rightarrow> sg_trace_partition \<Rightarrow>
     'c \<Rightarrow> sg_status \<times> 'c" where
  "sg_explain_steps automaton visitor index [] predicted next_predicted parts context = (SG_OK, context)"
| "sg_explain_steps automaton visitor index (action # word) predicted next_predicted parts context =
     (if action \<ge> au_action_count automaton then (SG_ERR_INVALID_ARGUMENT, context)
      else let moved = sg_apply_action_set automaton predicted action next_predicted
           in case sg_trace_partition_apply_action automaton parts action of
                Inl status \<Rightarrow> (status, context)
              | Inr parts \<Rightarrow>
                  let (status, context) = sg_explain_partition parts moved (index + 1) action visitor context
                  in if status = SG_OK
                     then sg_explain_steps automaton visitor (index + 1) word moved predicted parts context
                     else (status, context))"

definition sg_explain_plan ::
  "sg_automaton ptr \<Rightarrow> 64 word \<Rightarrow> nat list ptr \<Rightarrow> nat list ptr \<Rightarrow> 'c sg_explain_visitor ptr \<Rightarrow> 'c \<Rightarrow>
     sg_status \<times> 'c" where
  "sg_explain_plan automaton plan_generation initial_states word visitor context =
     (case (automaton, initial_states, word, visitor) of
        (Ref a, Ref ids, Ref w, Ref visit) \<Rightarrow>
          if ids = [] then (SG_ERR_INVALID_ARGUMENT, context)
          else if plan_generation \<noteq> au_generation a then (SG_ERR_STALE_GENERATION, context)
          else (case rbind (sg_bitset_from_ids (au_state_count a) (Ref ids)) (\<lambda>predicted.
                     rbind (sg_bitset_init (au_state_count a)) (\<lambda>next_predicted.
                     rbind (sg_trace_partition_init predicted) (\<lambda>parts.
                     Inr (predicted, next_predicted, parts)))) of
                  Inl status \<Rightarrow> (status, context)
                | Inr (predicted, next_predicted, parts) \<Rightarrow>
                    let (status, context) = sg_explain_partition parts predicted 0 SG_INDEX_NONE visit context
                    in if status = SG_OK
                       then sg_explain_steps a visit 0 w predicted next_predicted parts context
                       else (status, context))
      | _ \<Rightarrow> (SG_ERR_INVALID_ARGUMENT, context))"

section \<open>What an explanation is\<close>

text \<open>A list of visits, until the visitor reports an error.\<close>

fun visit_all :: "'c sg_explain_visitor \<Rightarrow> sg_explain_visit list \<Rightarrow> 'c \<Rightarrow> sg_status \<times> 'c" where
  "visit_all visitor [] c = (SG_OK, c)"
| "visit_all visitor (v # vs) c =
     (let (status, c) = visitor v c in if status = SG_OK then visit_all visitor vs c else (status, c))"

lemma visit_all_append:
  "visit_all visitor (us @ vs) c =
     (let (status, c) = visit_all visitor us c in if status = SG_OK then visit_all visitor vs c else (status, c))"
  by (induction us arbitrary: c) (auto simp: Let_def split: prod.splits)

text \<open>The visit for the trace \<open>t\<close> after \<open>k\<close> steps of \<open>w\<close> from \<open>H\<close>.\<close>

definition plan_visit :: "sg_automaton \<Rightarrow> nat set \<Rightarrow> nat list \<Rightarrow> nat \<Rightarrow> nat list \<Rightarrow> sg_explain_visit" where
  "plan_visit A H w k t =
     \<lparr>ev_step = k, ev_action = (if k = 0 then SG_INDEX_NONE else w ! (k - 1)),
      ev_predicted = sorted_list_of_set (motion_image A H (take k w)), ev_trace = t,
      ev_states = sorted_list_of_set (trace_branch A H (take k w) t)\<rparr>"

text \<open>Step by step, one visit for every trace.\<close>

definition plan_visits :: "sg_automaton \<Rightarrow> nat set \<Rightarrow> nat list \<Rightarrow> nat \<Rightarrow> nat \<Rightarrow> sg_explain_visit list \<Rightarrow> bool" where
  "plan_visits A H w i k vs \<longleftrightarrow>
     sorted (map ev_step vs) \<and> distinct vs \<and>
     set vs = {plan_visit A H w j t | j t. i \<le> j \<and> j < k \<and> t \<in> trace_set A H (take j w)}"

section \<open>Correctness\<close>

lemma sg_explain_branches_eq:
  "sg_explain_branches visitor step action predicted parts c =
   visit_all visitor (map (\<lambda>b. \<lparr>ev_step = step, ev_action = action, ev_predicted = predicted,
     ev_trace = tb_trace b, ev_states = sg_bitset_to_ids (tb_support b)\<rparr>) parts) c"
  by (induction parts arbitrary: c) (simp_all add: Let_def split: prod.split)

lemma sg_explain_partition_eq:
  assumes P: "trace_partition_ok A H (take k w) parts"
    and e: "support_ok A e" "bitset_set e = motion_image A H (take k w)"
    and a: "action = (if k = 0 then SG_INDEX_NONE else w ! (k - 1))"
  shows "\<exists>vs. (\<forall>visitor c. sg_explain_partition parts e k action visitor c = visit_all visitor vs c) \<and>
    plan_visits A H w k (Suc k) vs"
proof -
  let ?vs = "map (\<lambda>b. plan_visit A H w k (tb_trace b)) parts"
  have ids: "sg_bitset_to_ids s = sorted_list_of_set (bitset_set s)" if "support_ok A s" for s
    using that by (simp add: support_ok_def sg_bitset_to_ids_eq)
  have "sg_explain_partition parts e k action visitor c = visit_all visitor ?vs c" for visitor :: "'a sg_explain_visitor" and c
    using P e a ids unfolding sg_explain_partition_def sg_explain_branches_eq
    by (intro arg_cong[where f = "\<lambda>vs. visit_all visitor vs c"]) (auto simp: plan_visit_def trace_partition_ok_def)
  moreover have "plan_visits A H w k (Suc k) ?vs"
  proof -
    have "distinct ?vs"
      using P by (auto simp: trace_partition_ok_def distinct_map plan_visit_def inj_on_def)
    moreover have "set ?vs = plan_visit A H w k ` trace_set A H (take k w)"
      using P unfolding trace_partition_ok_def by (metis list.set_map image_image)
    moreover have "sorted (map ev_step ?vs)" by (auto simp: sorted_iff_nth_mono plan_visit_def)
    moreover have "j = k" if "k \<le> j" "j < Suc k" for j using that by simp
    ultimately show ?thesis unfolding plan_visits_def by blast
  qed
  ultimately show ?thesis by blast
qed

lemma plan_visits_append:
  assumes "plan_visits A H w i k us" "plan_visits A H w k m vs" "i \<le> k" "k \<le> m"
  shows "plan_visits A H w i m (us @ vs)"
proof -
  have less: "ev_step u < k" if "u \<in> set us" for u using that assms(1) by (auto simp: plan_visits_def plan_visit_def)
  have ge: "k \<le> ev_step v" if "v \<in> set vs" for v using that assms(2) by (auto simp: plan_visits_def plan_visit_def)
  have "sorted (map ev_step (us @ vs))"
    unfolding map_append sorted_append
  proof (intro conjI ballI)
    fix x y assume "x \<in> set (map ev_step us)" "y \<in> set (map ev_step vs)"
    then have "x < k" "k \<le> y" using less ge by auto
    then show "x \<le> y" by simp
  qed (use assms(1,2) in \<open>simp_all add: plan_visits_def\<close>)
  moreover have "distinct (us @ vs)"
  proof -
    have "set us \<inter> set vs = {}" using less ge not_le by blast
    then show ?thesis using assms(1,2) by (simp add: plan_visits_def)
  qed
  moreover have "set (us @ vs) = {plan_visit A H w j t | j t. i \<le> j \<and> j < m \<and> t \<in> trace_set A H (take j w)}"
  proof -
    have "i \<le> j \<and> j < m \<longleftrightarrow> i \<le> j \<and> j < k \<or> k \<le> j \<and> j < m" for j using assms(3,4) by auto
    then show ?thesis using assms(1,2) unfolding plan_visits_def set_append by blast
  qed
  ultimately show ?thesis by (simp add: plan_visits_def)
qed

text \<open>The valid prefix of a word, up to the first letter that is not an action.\<close>

definition valid_prefix :: "sg_automaton \<Rightarrow> nat list \<Rightarrow> nat" where
  "valid_prefix A w = length (takeWhile (\<lambda>a. a < au_action_count A) w)"

lemma valid_prefix_ge:
  assumes "k \<le> length w" "word_ok A (take k w)"
  shows "k \<le> valid_prefix A w"
proof -
  have "takeWhile (\<lambda>a. a < au_action_count A) (take k w @ drop k w) =
      take k w @ takeWhile (\<lambda>a. a < au_action_count A) (drop k w)"
    by (rule takeWhile_append2) (use assms(2) in \<open>auto simp: word_ok_set\<close>)
  then show ?thesis using assms(1) by (simp add: valid_prefix_def)
qed

text \<open>The visits, and the status that ends the replay when the visitor reports no error.\<close>

definition explained_by ::
  "('c sg_explain_visitor \<Rightarrow> 'c \<Rightarrow> sg_status \<times> 'c) \<Rightarrow> sg_explain_visit list \<Rightarrow> sg_status \<Rightarrow> bool" where
  "explained_by run vs st \<longleftrightarrow>
     (\<forall>visitor c. run visitor c =
        (let (status, c) = visit_all visitor vs c in if status = SG_OK then (st, c) else (status, c)))"

lemma explained_by_append:
  assumes "\<forall>visitor c. first visitor c = visit_all visitor us c" "explained_by rest vs st"
  shows "explained_by (\<lambda>visitor c. let (status, c) = first visitor c in if status = SG_OK then rest visitor c else (status, c))
    (us @ vs) st"
  using assms by (auto simp: explained_by_def visit_all_append Let_def split: prod.splits)

lemma sg_explain_steps_ok:
  assumes wf: "wf_automaton A" and H: "H \<subseteq> {..<au_state_count A}"
  shows "k \<le> length w \<Longrightarrow> word_ok A (take k w) \<Longrightarrow> support_ok A e \<Longrightarrow> support_ok A next \<Longrightarrow>
    bitset_set e = motion_image A H (take k w) \<Longrightarrow> trace_partition_ok A H (take k w) parts \<Longrightarrow>
    \<exists>vs. plan_visits A H w (Suc k) (Suc (valid_prefix A w)) vs \<and>
      explained_by (\<lambda>visitor. sg_explain_steps A (visitor :: 'c sg_explain_visitor) k (drop k w) e next parts) vs
        (if word_ok A w then SG_OK else SG_ERR_INVALID_ARGUMENT)"
proof (induction "length w - k" arbitrary: k e "next" parts)
  case 0
  then have "k = length w" by simp
  moreover from this 0 have "valid_prefix A w = length w" by (simp add: valid_prefix_def word_ok_set subset_iff takeWhile_eq_all_conv[THEN iffD2])
  ultimately show ?case
    using 0 by (intro exI[of _ "[]"]) (auto simp: plan_visits_def explained_by_def)
next
  case (Suc n)
  then have k: "k < length w" by simp
  then have drop: "drop k w = w ! k # drop (Suc k) w" by (simp add: Cons_nth_drop_Suc)
  show ?case
  proof (cases "w ! k < au_action_count A")
    case False
    have "takeWhile (\<lambda>a. a < au_action_count A) w = take k w"
      using False k Suc.prems(2) nth_mem[of _ "take k w"] by (intro takeWhile_eq_take_P_nth) (auto simp: word_ok_set)
    then have "valid_prefix A w = k" using k by (simp add: valid_prefix_def)
    moreover have "\<not> word_ok A w" using False nth_mem[OF k] by (auto simp: word_ok_set)
    ultimately show ?thesis
      using False by (intro exI[of _ "[]"]) (auto simp: plan_visits_def explained_by_def drop)
  next
    case True
    have w: "take (Suc k) w = take k w @ [w ! k]" by (rule take_Suc_conv_app_nth[OF k])
    let ?e = "sg_apply_action_set A e (w ! k) next"
    note step = sg_apply_action_set[OF wf Suc.prems(3,4) True]
    have e: "bitset_set ?e = motion_image A H (take (Suc k) w)"
      using Suc.prems(5) step(2) by (simp add: w motion_image_append)
    obtain Q where Q: "sg_trace_partition_apply_action A parts (w ! k) = Inr Q" "trace_partition_ok A H (take (Suc k) w) Q"
      using sg_trace_partition_apply_action[OF wf True Suc.prems(6) H] by (auto simp: w)
    obtain us where us: "\<forall>visitor c. sg_explain_partition Q ?e (Suc k) (w ! k) (visitor :: 'c sg_explain_visitor) c = visit_all visitor us c"
      "plan_visits A H w (Suc k) (Suc (Suc k)) us"
      using sg_explain_partition_eq[OF Q(2) step(1) e, of "w ! k"] by auto
    have "word_ok A (take (Suc k) w)" using Suc.prems(2) True by (simp add: w word_ok_def)
    have n: "n = length w - Suc k" "Suc k \<le> length w" using Suc.hyps(2) k by simp_all
    from Suc.hyps(1)[OF n \<open>word_ok A (take (Suc k) w)\<close> step(1) Suc.prems(3) e Q(2)] obtain vs where
      vs: "plan_visits A H w (Suc (Suc k)) (Suc (valid_prefix A w)) vs"
      "explained_by (\<lambda>visitor. sg_explain_steps A (visitor :: 'c sg_explain_visitor) (Suc k) (drop (Suc k) w) ?e e Q) vs
        (if word_ok A w then SG_OK else SG_ERR_INVALID_ARGUMENT)" by auto
    have "Suc k \<le> valid_prefix A w" by (rule valid_prefix_ge) (use k \<open>word_ok A (take (Suc k) w)\<close> in simp_all)
    then have "plan_visits A H w (Suc k) (Suc (valid_prefix A w)) (us @ vs)"
      by (intro plan_visits_append[OF us(2) vs(1)]) simp_all
    moreover have "(\<lambda>visitor. sg_explain_steps A (visitor :: 'c sg_explain_visitor) k (drop k w) e next parts) =
        (\<lambda>visitor c. let (status, c) = sg_explain_partition Q ?e (Suc k) (w ! k) visitor c
          in if status = SG_OK then sg_explain_steps A visitor (Suc k) (drop (Suc k) w) ?e e Q c else (status, c))"
      using True Q(1) by (intro ext) (simp add: drop Let_def split: prod.split)
    ultimately show ?thesis using explained_by_append[OF us(1) vs(2)] by auto
  qed
qed

text \<open>C30. \<open>sg_explain_plan\<close> calls the visitor exactly once for every step of the plan, the start
  included, and every output trace the initial states can show up to it, step by step, with the states
  that the motion predicts and those that share the trace. It stops at the first error of the visitor,
  whatever the visitor does; an invalid letter ends it after the visits of the letters before; a
  malformed or stale call makes no visit.\<close>

theorem explain_plan_visits:
  assumes wf: "wf_automaton A"
  shows "if ids = [] then \<forall>visitor (c :: 'c). sg_explain_plan (Ref A) g (Ref ids) (Ref w) (Ref visitor) c = (SG_ERR_INVALID_ARGUMENT, c)
    else if g \<noteq> au_generation A
    then \<forall>visitor (c :: 'c). sg_explain_plan (Ref A) g (Ref ids) (Ref w) (Ref visitor) c = (SG_ERR_STALE_GENERATION, c)
    else if \<not> set ids \<subseteq> {..<au_state_count A}
    then \<forall>visitor (c :: 'c). sg_explain_plan (Ref A) g (Ref ids) (Ref w) (Ref visitor) c = (SG_ERR_INVALID_ARGUMENT, c)
    else \<exists>vs. sorted (map ev_step vs) \<and> distinct vs \<and>
      set vs = {plan_visit A (set ids) w k t | k t. k \<le> valid_prefix A w \<and> t \<in> trace_set A (set ids) (take k w)} \<and>
      (\<forall>visitor (c :: 'c). sg_explain_plan (Ref A) g (Ref ids) (Ref w) (Ref visitor) c =
        (let (status, c) = visit_all visitor vs c
         in if status = SG_OK then (if word_ok A w then SG_OK else SG_ERR_INVALID_ARGUMENT, c) else (status, c)))"
proof -
  let ?n = "au_state_count A"
  consider (bad) "ids = [] \<or> g \<noteq> au_generation A \<or> \<not> set ids \<subseteq> {..<?n}"
    | (valid) "ids \<noteq> []" "g = au_generation A" "set ids \<subseteq> {..<?n}" by blast
  then show ?thesis
  proof cases
    case bad
    then show ?thesis using from_ids_cases[OF wf, of ids] by (auto simp: sg_explain_plan_def)
  next
    case valid
    obtain s where s: "sg_bitset_from_ids ?n (Ref ids) = Inr s" "support_ok A s" "bitset_set s = set ids" "bitset_set s \<noteq> {}"
      using from_ids_cases[OF wf, of ids] valid by auto
    obtain P where P: "sg_trace_partition_init s = Inr P" "trace_partition_ok A (set ids) (take 0 w) P"
      using trace_partition_ok_init[OF wf s(2,4)] s(3) by auto
    obtain us where us: "\<forall>visitor c. sg_explain_partition P s 0 SG_INDEX_NONE (visitor :: 'c sg_explain_visitor) c = visit_all visitor us c"
      "plan_visits A (set ids) w 0 (Suc 0) us"
      using sg_explain_partition_eq[OF P(2) s(2), of SG_INDEX_NONE] s(3) by auto
    obtain vs where vs: "plan_visits A (set ids) w (Suc 0) (Suc (valid_prefix A w)) vs"
      "explained_by (\<lambda>visitor. sg_explain_steps A (visitor :: 'c sg_explain_visitor) 0 w s (sg_bitset_zero ?n) P) vs
        (if word_ok A w then SG_OK else SG_ERR_INVALID_ARGUMENT)"
      using sg_explain_steps_ok[OF wf valid(3) _ _ s(2) support_ok_zero[OF wf] _ P(2), where 'c = 'c] s(3)
      by (auto simp: word_ok_def)
    have "plan_visits A (set ids) w 0 (Suc (valid_prefix A w)) (us @ vs)"
      by (rule plan_visits_append[OF us(2) vs(1)]) simp_all
    then have plan: "sorted (map ev_step (us @ vs))" "distinct (us @ vs)" "set (us @ vs) =
        {plan_visit A (set ids) w k t | k t. k \<le> valid_prefix A w \<and> t \<in> trace_set A (set ids) (take k w)}"
      by (auto simp: plan_visits_def less_Suc_eq_le)
    have run: "sg_explain_plan (Ref A) g (Ref ids) (Ref w) (Ref visitor) (c :: 'c) =
        (let (status, c) = sg_explain_partition P s 0 SG_INDEX_NONE visitor c
         in if status = SG_OK then sg_explain_steps A visitor 0 w s (sg_bitset_zero ?n) P c else (status, c))" for visitor c
      using valid s(1) P(1) wf by (simp add: sg_explain_plan_def wf_automatonD)
    have "\<forall>visitor (c :: 'c). sg_explain_plan (Ref A) g (Ref ids) (Ref w) (Ref visitor) c =
        (let (status, c) = visit_all visitor (us @ vs) c
         in if status = SG_OK then (if word_ok A w then SG_OK else SG_ERR_INVALID_ARGUMENT, c) else (status, c))"
      unfolding run using explained_by_append[OF us(1) vs(2)] unfolding explained_by_def .
    with plan have "\<exists>vs. sorted (map ev_step vs) \<and> distinct vs \<and>
      set vs = {plan_visit A (set ids) w k t | k t. k \<le> valid_prefix A w \<and> t \<in> trace_set A (set ids) (take k w)} \<and>
      (\<forall>visitor (c :: 'c). sg_explain_plan (Ref A) g (Ref ids) (Ref w) (Ref visitor) c =
        (let (status, c) = visit_all visitor vs c
         in if status = SG_OK then (if word_ok A w then SG_OK else SG_ERR_INVALID_ARGUMENT, c) else (status, c)))"
      by blast
    with valid show ?thesis by (simp only: if_False simp_thms)
  qed
qed

lemma plan_visit_neq: "t \<noteq> u \<Longrightarrow> plan_visit A H w k t \<noteq> plan_visit A H w j u"
  by (simp add: plan_visit_def)

lemma up_to_one: "{f k t | k t. k \<le> 1 \<and> t \<in> T k} = f (0 :: nat) ` T 0 \<union> f 1 ` T 1"
  by (force simp: le_Suc_eq)

text \<open>A visitor that counts its calls: the plan \<open>go\<close> from the states 0 and 2 has one branch at the
  start and two after the step.\<close>

theorem explain_plan_visits_witness:
  "\<exists>vs. length vs = 3 \<and> sg_explain_plan (Ref demo_automaton) 7 (Ref [0, 2]) (Ref [0])
     (Ref (\<lambda>visit visits. (SG_OK, visits @ [visit]))) [] = (SG_OK, vs)"
proof -
  have id: "visit_all (\<lambda>visit visits. (SG_OK, visits @ [visit])) vs us = (SG_OK, us @ vs)" for vs us
    by (induction vs arbitrary: us) simp_all
  let ?H = "set [0, 2]" and ?A = demo_automaton
  have traces: "trace_set ?A ?H (take 1 [0]) = {[0], [1]}" "trace_set ?A ?H (take 0 [0]) = {[]}"
  proof -
    have "output_trace ?A 0 [0] = [0]" "output_trace ?A 2 [0] = [1]" by code_simp+
    then show "trace_set ?A ?H (take 1 [0]) = {[0], [1]}" by (simp add: trace_set_def del: output_trace.simps)
  qed simp
  have args: "\<not> [0, 2] = ([] :: nat list)" "\<not> 7 \<noteq> au_generation ?A" "\<not> \<not> ?H \<subseteq> {..<au_state_count ?A}"
    by (simp_all add: demo_automaton_def)
  have w: "valid_prefix ?A [0] = 1" "word_ok ?A [0]" by (simp_all add: demo_automaton_def valid_prefix_def word_ok_def)
  obtain vs where vs: "distinct vs"
    "set vs = {plan_visit ?A ?H [0] k t | k t. k \<le> 1 \<and> t \<in> trace_set ?A ?H (take k [0])}"
    "\<forall>visitor c. sg_explain_plan (Ref ?A) 7 (Ref [0, 2]) (Ref [0]) (Ref visitor) (c :: sg_explain_visit list) =
      (let (status, c) = visit_all visitor vs c
       in if status = SG_OK then (if word_ok ?A [0] then SG_OK else SG_ERR_INVALID_ARGUMENT, c) else (status, c))"
    using explain_plan_visits[OF demo_wf, where 'c = "sg_explain_visit list", of "[0, 2]" 7 "[0]",
        unfolded if_not_P[OF args(1)] if_not_P[OF args(2)] if_not_P[OF args(3)] w(1)] by (elim exE conjE)
  have run: "sg_explain_plan (Ref ?A) 7 (Ref [0, 2]) (Ref [0]) (Ref (\<lambda>visit visits. (SG_OK, visits @ [visit]))) [] = (SG_OK, vs)"
    by (simp only: vs(3) id w(2) Let_def prod.case if_True append_Nil refl)
  have "{plan_visit ?A ?H [0] k t | k t. k \<le> 1 \<and> t \<in> trace_set ?A ?H (take k [0])} =
      {plan_visit ?A ?H [0] 0 [], plan_visit ?A ?H [0] 1 [0], plan_visit ?A ?H [0] 1 [1]}"
    by (simp only: up_to_one[where f = "plan_visit ?A ?H [0]"] traces image_insert image_empty Un_insert_left Un_empty_left)
  moreover have "card {plan_visit ?A ?H [0] 0 [], plan_visit ?A ?H [0] 1 [0], plan_visit ?A ?H [0] 1 [1]} = 3"
    by (simp add: plan_visit_neq)
  ultimately have "length vs = 3" using distinct_card[OF vs(1)] unfolding vs(2) by (simp only:)
  with run show ?thesis by blast
qed

end
