(* ===== verification/Sync_Heap.thy ===== *)
theory Sync_Heap
  imports Sync_Prelude "HOL-Library.Multiset"
begin

text \<open>
  The binary min-heap of src/dynamic.c, which orders the pairs to repair by their tentative distance.
  The array is a list whose length is the count; its capacity is not modelled.
\<close>

section \<open>The heap of the code\<close>

record sg_heap_entry =
  he_pair :: nat
  he_distance :: nat

type_synonym sg_min_heap = "sg_heap_entry list"

text \<open>The two loops move a hole; the entry is written where the hole stops.\<close>

function sg_heap_sift_up :: "sg_min_heap \<Rightarrow> nat \<Rightarrow> sg_heap_entry \<Rightarrow> sg_min_heap" where
  "sg_heap_sift_up items position entry =
     (if position \<noteq> 0 \<and> \<not> he_distance (items ! ((position - 1) div 2)) \<le> he_distance entry
      then sg_heap_sift_up (items[position := items ! ((position - 1) div 2)]) ((position - 1) div 2) entry
      else items[position := entry])"
  by pat_completeness auto
termination
  by (relation "measure (\<lambda>(items, position, entry). position)") auto

definition sg_heap_push :: "sg_min_heap \<Rightarrow> nat \<Rightarrow> nat \<Rightarrow> sg_min_heap" where
  "sg_heap_push items pair distance =
     (let entry = \<lparr>he_pair = pair, he_distance = distance\<rparr>
      in sg_heap_sift_up (items @ [entry]) (length items) entry)"

definition sg_heap_child :: "sg_min_heap \<Rightarrow> nat \<Rightarrow> nat" where
  "sg_heap_child items position =
     (let left = position * 2 + 1; right = left + 1
      in if right < length items \<and> he_distance (items ! right) < he_distance (items ! left) then right else left)"

function sg_heap_sift_down :: "sg_min_heap \<Rightarrow> nat \<Rightarrow> sg_heap_entry \<Rightarrow> sg_min_heap" where
  "sg_heap_sift_down items position replacement =
     (if position * 2 + 1 < length items \<and>
         \<not> he_distance (items ! sg_heap_child items position) \<ge> he_distance replacement
      then sg_heap_sift_down (items[position := items ! sg_heap_child items position])
             (sg_heap_child items position) replacement
      else items[position := replacement])"
  by pat_completeness auto
termination
  by (relation "measure (\<lambda>(items, position, replacement). length items - position)")
    (auto simp: sg_heap_child_def Let_def)

declare sg_heap_sift_up.simps [simp del] sg_heap_sift_down.simps [simp del]

definition sg_heap_pop :: "sg_min_heap \<Rightarrow> sg_heap_entry \<times> sg_min_heap" where
  "sg_heap_pop items =
     (let result = items ! 0; count = length items - 1
      in if count = 0 then (result, [])
         else (result, sg_heap_sift_down (take count items) 0 (items ! count)))"

section \<open>The heap order\<close>

definition heap_ok :: "sg_min_heap \<Rightarrow> bool" where
  "heap_ok items \<longleftrightarrow>
     (\<forall>i < length items. 0 < i \<longrightarrow> he_distance (items ! ((i - 1) div 2)) \<le> he_distance (items ! i))"

text \<open>The order up to a hole: what is below the hole is not smaller than what is above it.\<close>

definition heap_hole :: "sg_min_heap \<Rightarrow> nat \<Rightarrow> bool" where
  "heap_hole items p \<longleftrightarrow> p < length items \<and>
     (\<forall>i < length items. 0 < i \<longrightarrow> i \<noteq> p \<longrightarrow> (i - 1) div 2 \<noteq> p \<longrightarrow>
        he_distance (items ! ((i - 1) div 2)) \<le> he_distance (items ! i)) \<and>
     (\<forall>i < length items. 0 < i \<longrightarrow> 0 < p \<longrightarrow> (i - 1) div 2 = p \<longrightarrow>
        he_distance (items ! ((p - 1) div 2)) \<le> he_distance (items ! i))"

lemma heap_holeD:
  assumes "heap_hole items p"
  shows "p < length items"
    "i < length items \<Longrightarrow> 0 < i \<Longrightarrow> i \<noteq> p \<Longrightarrow> (i - 1) div 2 \<noteq> p \<Longrightarrow>
       he_distance (items ! ((i - 1) div 2)) \<le> he_distance (items ! i)"
    "i < length items \<Longrightarrow> 0 < i \<Longrightarrow> 0 < p \<Longrightarrow> (i - 1) div 2 = p \<Longrightarrow>
       he_distance (items ! ((p - 1) div 2)) \<le> he_distance (items ! i)"
  using assms unfolding heap_hole_def by blast+

lemma heap_hole_fill:
  assumes "heap_hole items p"
    and up: "0 < p \<Longrightarrow> he_distance (items ! ((p - 1) div 2)) \<le> he_distance e"
    and down: "\<And>i. i < length items \<Longrightarrow> 0 < i \<Longrightarrow> (i - 1) div 2 = p \<Longrightarrow> he_distance e \<le> he_distance (items ! i)"
  shows "heap_ok (items[p := e])"
  unfolding heap_ok_def
proof (intro allI impI)
  fix i assume i: "i < length (items[p := e])" "0 < i"
  have "(i - 1) div 2 \<noteq> i" using i(2) by linarith
  moreover have "p < length items" by (rule heap_holeD(1)[OF assms(1)])
  ultimately show "he_distance (items[p := e] ! ((i - 1) div 2)) \<le> he_distance (items[p := e] ! i)"
    using i up down[of i] heap_holeD(2)[OF assms(1), of i]
    by (cases "i = p"; cases "(i - 1) div 2 = p") (simp_all add: nth_list_update)
qed

lemma heap_ok_hole: "heap_ok items \<Longrightarrow> p < length items \<Longrightarrow> heap_hole items p"
proof -
  assume ok: "heap_ok items" and p: "p < length items"
  have "he_distance (items ! ((p - 1) div 2)) \<le> he_distance (items ! i)"
    if "i < length items" "0 < i" "0 < p" "(i - 1) div 2 = p" for i
    using that ok p unfolding heap_ok_def by (metis le_trans)
  with ok p show ?thesis by (simp add: heap_ok_def heap_hole_def)
qed

text \<open>Moving the hole to a neighbour keeps the content.\<close>

lemma mset_move_hole:
  assumes "p < length items" "q < length items" "p \<noteq> q"
  shows "mset (items[p := items ! q, q := e]) = mset (items[p := e])"
proof -
  have "items[p := items ! q, q := e] = (items[p := e])[p := items[p := e] ! q, q := items[p := e] ! p]"
    using assms by (simp add: list_update_swap[of q p])
  then show ?thesis using assms mset_swap[of q "items[p := e]" p] by (simp add: list_update_swap[of q p])
qed

lemma sg_heap_sift_up_ok:
  "heap_hole items p \<Longrightarrow>
   (\<And>i. i < length items \<Longrightarrow> 0 < i \<Longrightarrow> (i - 1) div 2 = p \<Longrightarrow> he_distance e \<le> he_distance (items ! i)) \<Longrightarrow>
   heap_ok (sg_heap_sift_up items p e) \<and> mset (sg_heap_sift_up items p e) = mset (items[p := e])"
proof (induction items p e rule: sg_heap_sift_up.induct)
  case (1 items p e)
  let ?q = "(p - 1) div 2"
  note hole = heap_holeD[OF "1.prems"(1)]
  show ?case
  proof (cases "p \<noteq> 0 \<and> \<not> he_distance (items ! ?q) \<le> he_distance e")
    case False
    have "heap_ok (items[p := e])" by (rule heap_hole_fill[OF "1.prems"(1)]) (use False "1.prems"(2) in auto)
    with False show ?thesis by (auto simp: sg_heap_sift_up.simps[of items])
  next
    case True
    let ?items = "items[p := items ! ?q]"
    have q: "?q < p" "?q < length items" using True hole(1) by auto
    have "heap_hole ?items ?q"
      unfolding heap_hole_def
    proof (intro conjI allI impI)
      fix i assume i: "i < length ?items" "0 < i" "i \<noteq> ?q" "(i - 1) div 2 \<noteq> ?q"
      then show "he_distance (?items ! ((i - 1) div 2)) \<le> he_distance (?items ! i)"
        using hole(1) hole(2)[of i] hole(3)[of i] True
        by (cases "i = p"; cases "(i - 1) div 2 = p") (simp_all add: nth_list_update)
    next
      fix i assume i: "i < length ?items" "0 < i" "0 < ?q" "(i - 1) div 2 = ?q"
      have qq: "(?q - 1) div 2 \<noteq> p" "?q \<noteq> p" using q(1) by linarith+
      have "he_distance (items ! ((?q - 1) div 2)) \<le> he_distance (items ! ?q)"
        using hole(2)[of ?q] q i(3) qq by simp
      moreover have "he_distance (items ! ?q) \<le> he_distance (items ! i)" if "i \<noteq> p"
        using hole(2)[of i] that i q by simp
      note A = this and B = calculation
      have "he_distance (items ! ((?q - 1) div 2)) \<le> he_distance (?items ! i)"
      proof (cases "i = p")
        case True
        with B hole(1) show ?thesis by (simp only: nth_list_update_eq)
      next
        case False
        with le_trans[OF B A[OF False]] show ?thesis by (metis nth_list_update_neq)
      qed
      then show "he_distance (?items ! ((?q - 1) div 2)) \<le> he_distance (?items ! i)"
        by (simp only: nth_list_update_neq[OF qq(1)[symmetric]])
    qed (use q in simp)
    moreover have "he_distance e \<le> he_distance (?items ! i)"
      if "i < length ?items" "0 < i" "(i - 1) div 2 = ?q" for i
      using that hole(1) hole(2)[of i] True q by (cases "i = p") (auto simp: nth_list_update)
    ultimately have "heap_ok (sg_heap_sift_up ?items ?q e) \<and> mset (sg_heap_sift_up ?items ?q e) = mset (?items[?q := e])"
      using "1.IH"[OF True] by blast
    moreover have "mset (?items[?q := e]) = mset (items[p := e])"
      using mset_move_hole[OF hole(1) q(2)] q(1) by simp
    ultimately show ?thesis using True by (simp add: sg_heap_sift_up.simps[of items])
  qed
qed

text \<open>The child that the loop compares is the smaller one.\<close>

lemma sg_heap_child_cases:
  assumes "p * 2 + 1 < length items"
  shows "sg_heap_child items p < length items" "0 < sg_heap_child items p" "(sg_heap_child items p - 1) div 2 = p"
    "p < sg_heap_child items p"
    "i < length items \<Longrightarrow> 0 < i \<Longrightarrow> (i - 1) div 2 = p \<Longrightarrow>
       he_distance (items ! sg_heap_child items p) \<le> he_distance (items ! i)"
proof -
  show "sg_heap_child items p < length items" "0 < sg_heap_child items p" "(sg_heap_child items p - 1) div 2 = p"
    "p < sg_heap_child items p"
    using assms by (auto simp: sg_heap_child_def Let_def)
  assume i: "i < length items" "0 < i" "(i - 1) div 2 = p"
  then have "i = p * 2 + 1 \<or> i = p * 2 + 2" by auto
  then show "he_distance (items ! sg_heap_child items p) \<le> he_distance (items ! i)"
    using i(1) by (auto simp: sg_heap_child_def Let_def)
qed

lemma sg_heap_sift_down_ok:
  "heap_hole items p \<Longrightarrow> (0 < p \<Longrightarrow> he_distance (items ! ((p - 1) div 2)) \<le> he_distance e) \<Longrightarrow>
   heap_ok (sg_heap_sift_down items p e) \<and> mset (sg_heap_sift_down items p e) = mset (items[p := e])"
proof (induction items p e rule: sg_heap_sift_down.induct)
  case (1 items p e)
  let ?c = "sg_heap_child items p"
  note hole = heap_holeD[OF "1.prems"(1)]
  show ?case
  proof (cases "p * 2 + 1 < length items \<and> \<not> he_distance (items ! ?c) \<ge> he_distance e")
    case False
    have "heap_ok (items[p := e])"
    proof (rule heap_hole_fill[OF "1.prems"(1,2)])
      fix i assume i: "i < length items" "0 < i" "(i - 1) div 2 = p"
      then have "p * 2 + 1 < length items" by auto
      with False sg_heap_child_cases(5)[OF this i] show "he_distance e \<le> he_distance (items ! i)" by simp
    qed
    with False show ?thesis by (auto simp: sg_heap_sift_down.simps[of items])
  next
    case True
    let ?items = "items[p := items ! ?c]"
    note c = sg_heap_child_cases[OF conjunct1[OF True]]
    have "heap_hole ?items ?c"
      unfolding heap_hole_def
    proof (intro conjI allI impI)
      fix i assume i: "i < length ?items" "0 < i" "i \<noteq> ?c" "(i - 1) div 2 \<noteq> ?c"
      have "(p - 1) div 2 \<noteq> p" if "0 < p" using that by linarith
      with i show "he_distance (?items ! ((i - 1) div 2)) \<le> he_distance (?items ! i)"
        using hole(1) hole(2)[of i] hole(3)[of ?c] c(1,2,3) c(5)[of i]
        by (cases "i = p"; cases "(i - 1) div 2 = p") (simp_all add: nth_list_update)
    next
      fix i assume i: "i < length ?items" "0 < i" "0 < ?c" "(i - 1) div 2 = ?c"
      have "i \<noteq> p" "(i - 1) div 2 \<noteq> p" "i \<noteq> ?c" using i(2,4) c(4) by auto
      then have "he_distance (items ! ?c) \<le> he_distance (items ! i)" using hole(2)[of i] i by simp
      then show "he_distance (?items ! ((?c - 1) div 2)) \<le> he_distance (?items ! i)"
        using \<open>i \<noteq> p\<close> hole(1) unfolding c(3) by simp
    qed (use c in simp)
    moreover have "he_distance (?items ! ((?c - 1) div 2)) \<le> he_distance e"
      using True hole(1) unfolding c(3) by simp
    ultimately have "heap_ok (sg_heap_sift_down ?items ?c e) \<and>
        mset (sg_heap_sift_down ?items ?c e) = mset (?items[?c := e])"
      using "1.IH"[OF True] by blast
    moreover have "mset (?items[?c := e]) = mset (items[p := e])"
      using mset_move_hole[OF hole(1) c(1)] c(4) by simp
    ultimately show ?thesis using True by (simp add: sg_heap_sift_down.simps[of items])
  qed
qed

lemma heap_ok_min:
  assumes "heap_ok items"
  shows "i < length items \<Longrightarrow> he_distance (items ! 0) \<le> he_distance (items ! i)"
proof (induction i rule: less_induct)
  case (less i)
  show ?case
  proof (cases "i = 0")
    case False
    then have "(i - 1) div 2 < i" by linarith
    with less False assms show ?thesis unfolding heap_ok_def by (meson le_trans less_trans not_gr_zero)
  qed simp
qed

lemma sg_heap_push_ok:
  assumes "heap_ok items"
  shows "heap_ok (sg_heap_push items pair distance)"
    "mset (sg_heap_push items pair distance) = add_mset \<lparr>he_pair = pair, he_distance = distance\<rparr> (mset items)"
proof -
  let ?e = "\<lparr>he_pair = pair, he_distance = distance\<rparr>" and ?n = "length items"
  have "(?n - 1) div 2 \<noteq> ?n" if "items \<noteq> []" using that by (cases items) auto
  then have "heap_hole (items @ [?e]) ?n"
    using assms by (auto simp: heap_hole_def heap_ok_def nth_append less_Suc_eq)
  moreover have "he_distance ?e \<le> he_distance ((items @ [?e]) ! i)"
    if "i < length (items @ [?e])" "0 < i" "(i - 1) div 2 = ?n" for i
  proof -
    have "(i - 1) div 2 < i" "i \<le> ?n" using that(1,2) by (linarith, simp)
    with that(3) show ?thesis by linarith
  qed
  ultimately show "heap_ok (sg_heap_push items pair distance)"
    "mset (sg_heap_push items pair distance) = add_mset ?e (mset items)"
    using sg_heap_sift_up_ok[of "items @ [?e]" ?n ?e] by (simp_all add: sg_heap_push_def Let_def)
qed

lemma sg_heap_pop_ok:
  assumes ok: "heap_ok items" and ne: "items \<noteq> []"
  shows "fst (sg_heap_pop items) = items ! 0" "heap_ok (snd (sg_heap_pop items))"
    "mset items = add_mset (items ! 0) (mset (snd (sg_heap_pop items)))"
proof -
  show "fst (sg_heap_pop items) = items ! 0" by (simp add: sg_heap_pop_def Let_def)
  let ?n = "length items - 1"
  have "heap_ok (snd (sg_heap_pop items)) \<and> mset items = add_mset (items ! 0) (mset (snd (sg_heap_pop items)))"
  proof (cases "?n = 0")
    case True
    with ne have "items = [items ! 0]" by (cases items) auto
    with True show ?thesis by (simp add: sg_heap_pop_def heap_ok_def)
  next
    case False
    let ?t = "take ?n items"
    have "heap_ok ?t" using ok by (simp add: heap_ok_def)
    then have "heap_hole ?t 0" using False by (intro heap_ok_hole) simp_all
    from sg_heap_sift_down_ok[OF this, of "items ! ?n"]
    have down: "heap_ok (snd (sg_heap_pop items)) \<and> mset (snd (sg_heap_pop items)) = mset (?t[0 := items ! ?n])"
      using False by (simp add: sg_heap_pop_def Let_def)
    have "items = ?t @ [items ! ?n]" using ne by (metis append_butlast_last_id butlast_conv_take last_conv_nth)
    moreover obtain x xs where "?t = x # xs" using False by (cases ?t) auto
    ultimately have "mset items = add_mset (items ! 0) (mset (?t[0 := items ! ?n]))"
      by (metis add_mset_commute list_update_code(2) mset.simps(2) mset_append nth_Cons_0 nth_append_length_plus append_Cons union_mset_add_mset_right add.right_neutral mset.simps(1))
    with down show ?thesis by simp
  qed
  then show "heap_ok (snd (sg_heap_pop items))"
    "mset items = add_mset (items ! 0) (mset (snd (sg_heap_pop items)))" by blast+
qed

text \<open>C16. The heap of the repair is a priority queue: pushing and popping keep the heap order, pushing
  adds exactly the entry, and popping removes exactly one entry, one of least distance.\<close>

theorem heap_priority_queue:
  assumes "heap_ok items"
  shows "heap_ok (sg_heap_push items pair distance) \<and>
    mset (sg_heap_push items pair distance) = add_mset \<lparr>he_pair = pair, he_distance = distance\<rparr> (mset items) \<and>
    (items \<noteq> [] \<longrightarrow> (case sg_heap_pop items of (entry, rest) \<Rightarrow>
       heap_ok rest \<and> mset items = add_mset entry (mset rest) \<and>
       (\<forall>other \<in> set items. he_distance entry \<le> he_distance other)))"
proof -
  have "\<forall>other \<in> set items. he_distance (items ! 0) \<le> he_distance other"
    using heap_ok_min[OF assms] by (auto simp: in_set_conv_nth)
  with sg_heap_push_ok[OF assms, of pair distance] sg_heap_pop_ok[OF assms] show ?thesis
    by (simp add: case_prod_beta)
qed

theorem heap_priority_queue_witness:
  "heap_ok (sg_heap_push [\<lparr>he_pair = 4, he_distance = 2\<rparr>, \<lparr>he_pair = 5, he_distance = 3\<rparr>] 6 1) \<and>
   he_pair (fst (sg_heap_pop (sg_heap_push [\<lparr>he_pair = 4, he_distance = 2\<rparr>, \<lparr>he_pair = 5, he_distance = 3\<rparr>] 6 1))) = 6"
proof -
  let ?items = "[\<lparr>he_pair = 4, he_distance = 2\<rparr>, \<lparr>he_pair = 5, he_distance = 3\<rparr>]"
  have "heap_ok ?items" by (auto simp: heap_ok_def less_Suc_eq numeral_eq_Suc)
  moreover have "he_pair (fst (sg_heap_pop (sg_heap_push ?items 6 1))) = 6" by code_simp
  ultimately show ?thesis using heap_priority_queue[of ?items 6 1] by blast
qed

end
