(* ===== verification/Sync_Repair.thy ===== *)
theory Sync_Repair
  imports Sync_Heap Sync_Oracle
begin

text \<open>
  Repair of pair records after cells of an automaton have changed (src/dynamic.c). The code works on
  a store of records that it reaches through four callbacks. The store's own memory, the metrics and
  the marks of touched pairs are what the code changes behind its pointers: they are the state of the
  repair. An operation returns a status or a value, and the state it leaves in either case.

  The array \<open>positions\<close> of the context is all SG_INDEX_NONE between calls, so each function that uses it
  starts from a fresh one. Loops that a badly behaved store could keep running for ever return
  \<open>None\<close> for that case.
\<close>

section \<open>Stores\<close>

datatype sg_repair_objective = SG_REPAIR_MERGE | SG_REPAIR_RESOLUTION

record sg_pair_arc =
  arc_source_pair :: nat
  arc_action :: nat
  arc_target_pair :: nat
  arc_outputs_differ :: bool

text \<open>
  The callbacks that read return the contents of the caller's buffer; the batch of arcs is there also
  when the status is an error, since the code counts it before it looks at the status.
\<close>

record 'm sg_pair_store =
  st_state_count :: nat
  st_action_count :: nat
  st_pair_count :: nat
  st_read_records :: "('m \<Rightarrow> nat list \<Rightarrow> sg_pair_record list res) ptr"
  st_read_outgoing :: "('m \<Rightarrow> nat list \<Rightarrow> sg_status \<times> sg_pair_arc list) ptr"
  st_read_incoming :: "('m \<Rightarrow> nat list \<Rightarrow> sg_status \<times> sg_pair_arc list) ptr"
  st_write_records :: "('m \<Rightarrow> sg_pair_record list \<Rightarrow> sg_status \<times> 'm) ptr"

record sg_pair_repair_metrics =
  rm_pair_records_touched :: nat
  rm_pair_records_examined :: nat
  rm_pair_records_written :: nat
  rm_pair_edges_examined :: nat
  rm_merge_pairs_changed :: nat
  rm_merge_pairs_invalidated :: nat
  rm_resolution_pairs_changed :: nat
  rm_resolution_pairs_invalidated :: nat

definition sg_metrics_zero :: sg_pair_repair_metrics where
  "sg_metrics_zero = \<lparr>rm_pair_records_touched = 0, rm_pair_records_examined = 0,
     rm_pair_records_written = 0, rm_pair_edges_examined = 0, rm_merge_pairs_changed = 0,
     rm_merge_pairs_invalidated = 0, rm_resolution_pairs_changed = 0,
     rm_resolution_pairs_invalidated = 0\<rparr>"

record 'm sg_repair_context =
  rc_store :: "'m sg_pair_store"
  rc_repair_budget :: nat
  rc_diagonal :: "bool list"

record 'm sg_repair_state =
  rp_memory :: 'm
  rp_metrics :: sg_pair_repair_metrics
  rp_touched :: "bool list"

section \<open>Operations on the state\<close>

type_synonym ('m, 'a) repair = "'m sg_repair_state \<Rightarrow> 'a res \<times> 'm sg_repair_state"

definition rs_bind :: "('m, 'a) repair \<Rightarrow> ('a \<Rightarrow> ('m, 'b) repair) \<Rightarrow> ('m, 'b) repair" where
  "rs_bind m f s = (case m s of (Inl status, s) \<Rightarrow> (Inl status, s) | (Inr x, s) \<Rightarrow> f x s)"

definition rs_lift :: "'a res \<Rightarrow> ('m, 'a) repair" where
  "rs_lift result s = (result, s)"

fun rs_fold :: "('x \<Rightarrow> 'a \<Rightarrow> ('m, 'a) repair) \<Rightarrow> 'x list \<Rightarrow> 'a \<Rightarrow> ('m, 'a) repair" where
  "rs_fold f [] a = rs_lift (Inr a)"
| "rs_fold f (x # xs) a = rs_bind (f x a) (rs_fold f xs)"

text \<open>A loop that may run for ever (the value \<open>None\<close>) and stops at the first error.\<close>

partial_function (option) rs_while ::
  "('a \<Rightarrow> bool) \<Rightarrow> ('a \<Rightarrow> ('m, 'a) repair) \<Rightarrow> 'a \<Rightarrow> 'm sg_repair_state \<Rightarrow>
     ('a res \<times> 'm sg_repair_state) option" where
  "rs_while cond body a s =
     (if cond a
      then case body a s of
             (Inl status, s) \<Rightarrow> Some (Inl status, s)
           | (Inr a, s) \<Rightarrow> rs_while cond body a s
      else Some (Inr a, s))"

declare rs_while.simps [code]

text \<open>The rule for an invariant of such a loop.\<close>

lemma rs_while_invariant:
  assumes run: "rs_while cond body a s = Some (Inr a', s')" and start: "P a s"
    and step: "\<And>a s a' s'. P a s \<Longrightarrow> cond a \<Longrightarrow> body a s = (Inr a', s') \<Longrightarrow> P a' s'"
  shows "P a' s' \<and> \<not> cond a'"
proof -
  define Q where "Q = (\<lambda>c b a s (y :: 'a res \<times> 'b sg_repair_state). c = cond \<longrightarrow> b = body \<longrightarrow> P a s \<longrightarrow>
      (\<forall>a' s'. y = (Inr a', s') \<longrightarrow> P a' s' \<and> \<not> cond a'))"
  have "Q cond body a s (Inr a', s')"
  proof (rule rs_while.raw_induct[OF _ run])
    fix F c b a s y
    assume IH: "\<And>c b a s y. F c b a s = Some y \<Longrightarrow> Q c b a s y"
      and body: "(if c a then case b a s of (Inl status, s) \<Rightarrow> Some (Inl status, s) | (Inr a, s) \<Rightarrow> F c b a s
        else Some (Inr a, s)) = Some y"
    show "Q c b a s y"
      unfolding Q_def
    proof (intro impI allI)
      fix a' s' assume eq: "c = cond" "b = body" "y = (Inr a', s')" and P: "P a s"
      show "P a' s' \<and> \<not> cond a'"
      proof (cases "cond a")
        case False
        with body eq P show ?thesis by simp
      next
        case True
        with body eq obtain a1 s1 where one: "body a s = (Inr a1, s1)" and rest: "F cond body a1 s1 = Some (Inr a', s')"
          by (auto split: prod.splits sum.splits)
        from IH[OF rest] step[OF P True one] show ?thesis by (simp add: Q_def)
      qed
    qed
  qed
  with start show ?thesis by (simp add: Q_def)
qed

text \<open>Sequencing of operations that may run for ever.\<close>

definition run_bind ::
  "('a res \<times> 's) option \<Rightarrow> ('a \<Rightarrow> 's \<Rightarrow> ('b res \<times> 's) option) \<Rightarrow> ('b res \<times> 's) option" where
  "run_bind m f =
     (case m of None \<Rightarrow> None | Some (Inl status, s) \<Rightarrow> Some (Inl status, s) | Some (Inr x, s) \<Rightarrow> f x s)"

lemma run_bind_Inr:
  "run_bind m f = Some (Inr y, s') \<longleftrightarrow> (\<exists>x s1. m = Some (Inr x, s1) \<and> f x s1 = Some (Inr y, s'))"
  by (auto simp: run_bind_def split: option.splits prod.splits sum.splits)

definition sg_metric_add :: "nat \<Rightarrow> nat \<Rightarrow> nat" where
  "sg_metric_add metric amount = (if amount > SIZE_MAX - metric then SIZE_MAX else metric + amount)"

definition rs_metrics :: "(sg_pair_repair_metrics \<Rightarrow> sg_pair_repair_metrics) \<Rightarrow> ('m, unit) repair" where
  "rs_metrics f s = (Inr (), s\<lparr>rp_metrics := f (rp_metrics s)\<rparr>)"

definition rs_read_records :: "'m sg_repair_context \<Rightarrow> nat list \<Rightarrow> ('m, sg_pair_record list) repair" where
  "rs_read_records ctx ids s =
     (the (st_read_records (rc_store ctx)) (rp_memory s) ids,
      s\<lparr>rp_metrics := (rp_metrics s)\<lparr>rm_pair_records_examined :=
          sg_metric_add (rm_pair_records_examined (rp_metrics s)) (length ids)\<rparr>\<rparr>)"

section \<open>Records for one objective\<close>

definition sg_record_distance :: "sg_pair_record \<Rightarrow> sg_repair_objective \<Rightarrow> nat" where
  "sg_record_distance record objective =
     (if objective = SG_REPAIR_MERGE then rec_merge_distance record else rec_resolution_distance record)"

definition sg_record_objective_equal :: "sg_pair_record \<Rightarrow> sg_pair_record \<Rightarrow> sg_repair_objective \<Rightarrow> bool" where
  "sg_record_objective_equal first second objective \<longleftrightarrow>
     (if objective = SG_REPAIR_MERGE
      then rec_mergeable first = rec_mergeable second \<and>
           rec_merge_distance first = rec_merge_distance second \<and>
           rec_merge_action first = rec_merge_action second \<and>
           rec_merge_next_pair first = rec_merge_next_pair second \<and>
           rec_merge_support_count first = rec_merge_support_count second
      else rec_resolvable first = rec_resolvable second \<and>
           rec_resolution_distance first = rec_resolution_distance second \<and>
           rec_resolution_action first = rec_resolution_action second \<and>
           rec_resolution_next_pair first = rec_resolution_next_pair second \<and>
           rec_resolution_support_count first = rec_resolution_support_count second)"

definition sg_record_make_unreachable :: "sg_pair_record \<Rightarrow> sg_repair_objective \<Rightarrow> sg_pair_record" where
  "sg_record_make_unreachable record objective =
     (if objective = SG_REPAIR_MERGE
      then record\<lparr>rec_mergeable := False, rec_merge_distance := SG_INDEX_NONE,
                  rec_merge_action := SG_INDEX_NONE, rec_merge_next_pair := SG_INDEX_NONE,
                  rec_merge_support_count := 0\<rparr>
      else record\<lparr>rec_resolvable := False, rec_resolution_distance := SG_INDEX_NONE,
                  rec_resolution_action := SG_INDEX_NONE, rec_resolution_next_pair := SG_INDEX_NONE,
                  rec_resolution_support_count := 0\<rparr>)"

definition sg_record_make_root :: "sg_pair_record \<Rightarrow> sg_repair_objective \<Rightarrow> sg_pair_record" where
  "sg_record_make_root record objective =
     (if objective = SG_REPAIR_MERGE
      then record\<lparr>rec_mergeable := True, rec_merge_distance := 0,
                  rec_merge_action := SG_INDEX_NONE, rec_merge_next_pair := SG_INDEX_NONE,
                  rec_merge_support_count := 0\<rparr>
      else record\<lparr>rec_resolvable := True, rec_resolution_distance := 0,
                  rec_resolution_action := SG_INDEX_NONE, rec_resolution_next_pair := SG_INDEX_NONE,
                  rec_resolution_support_count := 0\<rparr>)"

record sg_candidate_state =
  cs_distance :: nat
  cs_action :: nat
  cs_target :: nat
  cs_support_count :: nat

text \<open>\<open>None\<close> is the result false: the count of supports is full.\<close>

definition sg_candidate_add ::
  "nat \<Rightarrow> nat \<Rightarrow> nat \<Rightarrow> bool \<Rightarrow> sg_candidate_state \<Rightarrow> sg_candidate_state option" where
  "sg_candidate_add action target distance terminal best =
     (if distance = SG_INDEX_NONE then Some best
      else if distance < cs_distance best
      then Some \<lparr>cs_distance = distance, cs_action = action,
                 cs_target = (if terminal then SG_INDEX_NONE else target), cs_support_count = 1\<rparr>
      else if distance = cs_distance best
      then if cs_support_count best = SIZE_MAX then None
           else let best = best\<lparr>cs_support_count := cs_support_count best + 1\<rparr>
                in Some (if action < cs_action best
                         then best\<lparr>cs_action := action,
                                   cs_target := (if terminal then SG_INDEX_NONE else target)\<rparr>
                         else best)
      else Some best)"

section \<open>Evaluating pairs\<close>

record sg_pair_evaluation =
  pe_current :: sg_pair_record
  pe_candidate :: sg_pair_record

text \<open>
  The code's three loops over the pairs, the arcs, and the arcs with their targets. \<open>positions\<close>
  maps a pair to its place in the batch.
\<close>

definition sg_evaluation_start ::
  "'m sg_repair_context \<Rightarrow> nat list \<Rightarrow> sg_repair_objective \<Rightarrow> nat \<Rightarrow>
     sg_pair_evaluation list \<times> nat list \<Rightarrow> (sg_pair_evaluation list \<times> nat list) res" where
  "sg_evaluation_start ctx pair_ids objective index = (\<lambda>(evaluations, positions).
     let pair = pair_ids ! index; current = pe_current (evaluations ! index)
     in if pair \<ge> st_pair_count (rc_store ctx) \<or> rec_pair current \<noteq> pair \<or> positions ! pair \<noteq> SG_INDEX_NONE
        then Inl SG_ERR_INVALID_MODEL
        else let candidate = (if rc_diagonal ctx ! pair then sg_record_make_root current objective
                              else sg_record_make_unreachable current objective)
             in Inr (evaluations[index := \<lparr>pe_current = current, pe_candidate = candidate\<rparr>],
                     positions[pair := index]))"

definition sg_check_arc ::
  "'m sg_repair_context \<Rightarrow> nat list \<Rightarrow> sg_pair_arc \<Rightarrow> bool list \<times> nat list \<Rightarrow> (bool list \<times> nat list) res" where
  "sg_check_arc ctx positions arc = (\<lambda>(actions_seen, target_ids).
     if arc_source_pair arc \<ge> st_pair_count (rc_store ctx) \<or>
        arc_target_pair arc \<ge> st_pair_count (rc_store ctx) \<or>
        arc_action arc \<ge> st_action_count (rc_store ctx) \<or>
        positions ! arc_source_pair arc = SG_INDEX_NONE
     then Inl SG_ERR_INVALID_MODEL
     else let action_slot = positions ! arc_source_pair arc * st_action_count (rc_store ctx) + arc_action arc
          in if actions_seen ! action_slot then Inl SG_ERR_INVALID_MODEL
             else Inr (actions_seen[action_slot := True], target_ids @ [arc_target_pair arc]))"

definition sg_candidate_of :: "sg_pair_record \<Rightarrow> sg_repair_objective \<Rightarrow> sg_candidate_state" where
  "sg_candidate_of candidate objective =
     (if objective = SG_REPAIR_MERGE
      then \<lparr>cs_distance = sg_record_distance candidate objective, cs_action = rec_merge_action candidate,
            cs_target = rec_merge_next_pair candidate, cs_support_count = rec_merge_support_count candidate\<rparr>
      else \<lparr>cs_distance = sg_record_distance candidate objective, cs_action = rec_resolution_action candidate,
            cs_target = rec_resolution_next_pair candidate,
            cs_support_count = rec_resolution_support_count candidate\<rparr>)"

definition sg_candidate_store ::
  "sg_pair_record \<Rightarrow> sg_repair_objective \<Rightarrow> sg_candidate_state \<Rightarrow> sg_pair_record" where
  "sg_candidate_store candidate objective best =
     (if objective = SG_REPAIR_MERGE
      then candidate\<lparr>rec_mergeable := (cs_distance best \<noteq> SG_INDEX_NONE),
                     rec_merge_distance := cs_distance best, rec_merge_action := cs_action best,
                     rec_merge_next_pair := cs_target best, rec_merge_support_count := cs_support_count best\<rparr>
      else candidate\<lparr>rec_resolvable := (cs_distance best \<noteq> SG_INDEX_NONE),
                     rec_resolution_distance := cs_distance best, rec_resolution_action := cs_action best,
                     rec_resolution_next_pair := cs_target best,
                     rec_resolution_support_count := cs_support_count best\<rparr>)"

text \<open>The distance through an arc and whether the arc is terminal.\<close>

definition sg_arc_distance ::
  "sg_repair_objective \<Rightarrow> sg_pair_arc \<Rightarrow> sg_pair_record \<Rightarrow> (nat \<times> bool) res" where
  "sg_arc_distance objective arc target =
     (if objective = SG_REPAIR_RESOLUTION \<and> arc_outputs_differ arc then Inr (1, True)
      else let target_distance = sg_record_distance target objective
           in if target_distance = SG_INDEX_NONE then Inr (SG_INDEX_NONE, False)
              else if target_distance \<ge> SG_INDEX_NONE - 1 then Inl SG_ERR_INVALID_MODEL
              else Inr (target_distance + 1, False))"

definition sg_relax_arc ::
  "'m sg_repair_context \<Rightarrow> sg_repair_objective \<Rightarrow> nat list \<Rightarrow> sg_pair_arc \<times> sg_pair_record \<Rightarrow>
     sg_pair_evaluation list \<Rightarrow> sg_pair_evaluation list res" where
  "sg_relax_arc ctx objective positions = (\<lambda>(arc, target) evaluations.
     let position = positions ! arc_source_pair arc; candidate = pe_candidate (evaluations ! position)
     in if rec_pair target \<noteq> arc_target_pair arc then Inl SG_ERR_INVALID_MODEL
        else if rc_diagonal ctx ! arc_source_pair arc then Inr evaluations
        else rbind (sg_arc_distance objective arc target) (\<lambda>(distance, terminal).
          case sg_candidate_add (arc_action arc) (arc_target_pair arc) distance terminal
                 (sg_candidate_of candidate objective) of
            None \<Rightarrow> Inl SG_ERR_RESOURCE_BOUND
          | Some best \<Rightarrow> Inr (evaluations[position :=
              (evaluations ! position)\<lparr>pe_candidate := sg_candidate_store candidate objective best\<rparr>])))"

definition rs_read_outgoing :: "'m sg_repair_context \<Rightarrow> nat list \<Rightarrow> ('m, sg_pair_arc list) repair" where
  "rs_read_outgoing ctx ids s =
     (let (status, arcs) = the (st_read_outgoing (rc_store ctx)) (rp_memory s) ids
      in (if status = SG_OK then Inr arcs else Inl status,
          s\<lparr>rp_metrics := (rp_metrics s)\<lparr>rm_pair_edges_examined :=
              sg_metric_add (rm_pair_edges_examined (rp_metrics s)) (length arcs)\<rparr>\<rparr>))"

definition sg_evaluate_pairs ::
  "'m sg_repair_context \<Rightarrow> nat list \<Rightarrow> sg_repair_objective \<Rightarrow> ('m, sg_pair_evaluation list) repair" where
  "sg_evaluate_pairs ctx pair_ids objective =
     (if pair_ids = [] then rs_lift (Inr [])
      else rs_bind (rs_read_records ctx pair_ids) (\<lambda>current.
        rs_bind (rs_read_outgoing ctx pair_ids) (\<lambda>arcs.
        case sg_size_multiply (length pair_ids) (st_action_count (rc_store ctx)) of
          None \<Rightarrow> rs_lift (Inl SG_ERR_INVALID_MODEL)
        | Some expected_arcs \<Rightarrow>
            if length arcs \<noteq> expected_arcs then rs_lift (Inl SG_ERR_INVALID_MODEL)
            else rs_bind (rs_lift (fold_res (sg_evaluation_start ctx pair_ids objective) [0..<length pair_ids]
                   (map (\<lambda>record. \<lparr>pe_current = record, pe_candidate = record\<rparr>) current,
                    replicate (st_pair_count (rc_store ctx)) SG_INDEX_NONE))) (\<lambda>(evaluations, positions).
              rs_bind (rs_lift (fold_res (sg_check_arc ctx positions) arcs
                   (replicate expected_arcs False, []))) (\<lambda>(actions_seen, target_ids).
              rs_bind (rs_read_records ctx target_ids) (\<lambda>targets.
              rs_lift (fold_res (sg_relax_arc ctx objective positions) (zip arcs targets) evaluations)))))))"

section \<open>Touching and writing\<close>

text \<open>The result tells whether the budget still holds.\<close>

definition sg_mark_touched :: "'m sg_repair_context \<Rightarrow> nat \<Rightarrow> ('m, unit) repair" where
  "sg_mark_touched ctx pair s =
     (let s = (if \<not> rp_touched s ! pair
               then s\<lparr>rp_touched := (rp_touched s)[pair := True],
                      rp_metrics := (rp_metrics s)\<lparr>rm_pair_records_touched :=
                        rm_pair_records_touched (rp_metrics s) + 1\<rparr>\<rparr>
               else s)
      in if rm_pair_records_touched (rp_metrics s) \<le> rc_repair_budget ctx then (Inr (), s)
         else (Inl SG_ERR_RESOURCE_BOUND, s))"

definition sg_write_records :: "'m sg_repair_context \<Rightarrow> sg_pair_record list \<Rightarrow> ('m, unit) repair" where
  "sg_write_records ctx records s =
     (if records = [] then (Inr (), s)
      else let (status, memory) = the (st_write_records (rc_store ctx)) (rp_memory s) records;
               s = s\<lparr>rp_memory := memory\<rparr>
           in if status = SG_OK
              then (Inr (), s\<lparr>rp_metrics := (rp_metrics s)\<lparr>rm_pair_records_written :=
                      sg_metric_add (rm_pair_records_written (rp_metrics s)) (length records)\<rparr>\<rparr>)
              else (Inl status, s))"

end
