(* ===== verification/Sync_Repair_Phases.thy ===== *)
theory Sync_Repair_Phases
  imports Sync_Repair
begin

text \<open>
  The four phases of a repair (src/dynamic.c): the seeds are evaluated again; pairs whose distance
  grew are invalidated together with the pairs that depended on them; the invalidated pairs are
  rebuilt in the order of their distance; and decreases are propagated to the predecessors. Each loop
  of the code is a round, which does its body, and a loop around it.
\<close>

section \<open>The state of one objective\<close>

record sg_objective_state =
  os_invalid :: "bool list"
  os_finalized :: "bool list"
  os_queued :: "bool list"
  os_changed :: "bool list"
  os_tentative :: "nat list"
  os_invalidated :: "nat list"
  os_decreases :: "nat list"
  os_heap :: sg_min_heap

definition sg_objective_state_init :: "nat \<Rightarrow> sg_objective_state" where
  "sg_objective_state_init pair_count =
     \<lparr>os_invalid = replicate pair_count False, os_finalized = replicate pair_count False,
      os_queued = replicate pair_count False, os_changed = replicate pair_count False,
      os_tentative = replicate pair_count SG_INDEX_NONE, os_invalidated = [], os_decreases = [],
      os_heap = []\<rparr>"

definition sg_count_invalidated ::
  "sg_repair_objective \<Rightarrow> sg_pair_repair_metrics \<Rightarrow> sg_pair_repair_metrics" where
  "sg_count_invalidated objective metrics =
     (if objective = SG_REPAIR_MERGE
      then metrics\<lparr>rm_merge_pairs_invalidated := rm_merge_pairs_invalidated metrics + 1\<rparr>
      else metrics\<lparr>rm_resolution_pairs_invalidated := rm_resolution_pairs_invalidated metrics + 1\<rparr>)"

definition sg_count_changed ::
  "sg_repair_objective \<Rightarrow> sg_pair_repair_metrics \<Rightarrow> sg_pair_repair_metrics" where
  "sg_count_changed objective metrics =
     (if objective = SG_REPAIR_MERGE
      then metrics\<lparr>rm_merge_pairs_changed := rm_merge_pairs_changed metrics + 1\<rparr>
      else metrics\<lparr>rm_resolution_pairs_changed := rm_resolution_pairs_changed metrics + 1\<rparr>)"

text \<open>A pair whose distance fell is queued for the propagation, once.\<close>

definition sg_queue_decrease :: "nat \<Rightarrow> sg_objective_state \<Rightarrow> sg_objective_state" where
  "sg_queue_decrease pair state =
     (if os_queued state ! pair then state
      else state\<lparr>os_queued := (os_queued state)[pair := True], os_decreases := os_decreases state @ [pair]\<rparr>)"

text \<open>
  A record that differs from the stored one is written and counted as changed the first time. The
  seeds are distinct, so for them it is always the first time.
\<close>

definition sg_collect_write ::
  "sg_repair_objective \<Rightarrow> nat \<Rightarrow> sg_pair_record \<Rightarrow> sg_pair_record \<Rightarrow>
     sg_objective_state \<times> sg_pair_record list \<Rightarrow> ('m, sg_objective_state \<times> sg_pair_record list) repair" where
  "sg_collect_write objective pair current candidate = (\<lambda>(state, writes).
     if sg_record_objective_equal current candidate objective then rs_lift (Inr (state, writes))
     else if os_changed state ! pair then rs_lift (Inr (state, writes @ [candidate]))
     else rs_bind (rs_metrics (sg_count_changed objective)) (\<lambda>_.
       rs_lift (Inr (state\<lparr>os_changed := (os_changed state)[pair := True]\<rparr>, writes @ [candidate]))))"

section \<open>The seeds\<close>

definition sg_invalidate_pair ::
  "sg_repair_objective \<Rightarrow> nat \<Rightarrow> sg_objective_state \<Rightarrow> ('m, sg_objective_state) repair" where
  "sg_invalidate_pair objective pair state =
     rs_bind (rs_metrics (sg_count_invalidated objective)) (\<lambda>_.
       rs_lift (Inr (state\<lparr>os_invalid := (os_invalid state)[pair := True],
                           os_invalidated := os_invalidated state @ [pair]\<rparr>)))"

text \<open>
  What the seeds and the dependents share: a larger distance makes the pair invalid and its record
  unreachable, a smaller one queues it. The code makes the candidate of a seed unreachable, and for a
  dependent a copy of the current record; the two only differ in the fields that are overwritten.
\<close>

definition sg_update_pair ::
  "'m sg_repair_context \<Rightarrow> sg_repair_objective \<Rightarrow> nat \<Rightarrow> sg_pair_evaluation \<Rightarrow>
     sg_objective_state \<times> sg_pair_record list \<Rightarrow> ('m, sg_objective_state \<times> sg_pair_record list) repair" where
  "sg_update_pair ctx objective pair evaluation = (\<lambda>(state, writes).
     rs_bind (sg_mark_touched ctx pair) (\<lambda>_.
       let current = pe_current evaluation; candidate = pe_candidate evaluation;
           current_distance = sg_record_distance current objective;
           candidate_distance = sg_record_distance candidate objective
       in if candidate_distance > current_distance
          then rs_bind (sg_invalidate_pair objective pair state) (\<lambda>state.
            sg_collect_write objective pair current (sg_record_make_unreachable current objective)
              (state, writes))
          else if candidate_distance < current_distance
          then sg_collect_write objective pair current candidate (sg_queue_decrease pair state, writes)
          else sg_collect_write objective pair current candidate (state, writes)))"

definition sg_seed_pair ::
  "'m sg_repair_context \<Rightarrow> sg_repair_objective \<Rightarrow> nat \<times> sg_pair_evaluation \<Rightarrow>
     sg_objective_state \<times> sg_pair_record list \<Rightarrow> ('m, sg_objective_state \<times> sg_pair_record list) repair" where
  "sg_seed_pair ctx objective = (\<lambda>(pair, evaluation) (state, writes).
     if pair \<ge> st_pair_count (rc_store ctx) then rs_lift (Inl SG_ERR_INVALID_ARGUMENT)
     else if rc_diagonal ctx ! pair then rs_lift (Inr (state, writes))
     else sg_update_pair ctx objective pair evaluation (state, writes))"

definition sg_seed_objective_changes ::
  "'m sg_repair_context \<Rightarrow> sg_objective_state \<Rightarrow> nat list \<Rightarrow> sg_repair_objective \<Rightarrow>
     ('m, sg_objective_state) repair" where
  "sg_seed_objective_changes ctx state seed_pairs objective =
     rs_bind (sg_evaluate_pairs ctx seed_pairs objective) (\<lambda>evaluations.
     rs_bind (rs_fold (sg_seed_pair ctx objective) (zip seed_pairs evaluations) (state, [])) (\<lambda>(state, writes).
     rs_bind (sg_write_records ctx writes) (\<lambda>_. rs_lift (Inr state))))"

section \<open>Dependents\<close>

text \<open>The predecessors of a batch of targets, each once; \<open>excluded\<close> is NULL or marks pairs to leave out.\<close>

definition sg_collect_source ::
  "'m sg_repair_context \<Rightarrow> bool list ptr \<Rightarrow> sg_pair_arc \<Rightarrow> nat list \<times> nat list \<Rightarrow> (nat list \<times> nat list) res" where
  "sg_collect_source ctx excluded arc = (\<lambda>(positions, sources).
     let source = arc_source_pair arc
     in if source \<ge> st_pair_count (rc_store ctx) \<or> arc_target_pair arc \<ge> st_pair_count (rc_store ctx) \<or>
           arc_action arc \<ge> st_action_count (rc_store ctx)
        then Inl SG_ERR_INVALID_MODEL
        else if \<not> rc_diagonal ctx ! source \<and> (excluded = NULL \<or> \<not> the excluded ! source) \<and>
                positions ! source = SG_INDEX_NONE
        then Inr (positions[source := length sources], sources @ [source])
        else Inr (positions, sources))"

definition rs_read_incoming :: "'m sg_repair_context \<Rightarrow> nat list \<Rightarrow> ('m, sg_pair_arc list) repair" where
  "rs_read_incoming ctx ids s =
     (let (status, arcs) = the (st_read_incoming (rc_store ctx)) (rp_memory s) ids
      in if status = SG_OK
         then (Inr arcs, s\<lparr>rp_metrics := (rp_metrics s)\<lparr>rm_pair_edges_examined :=
                 sg_metric_add (rm_pair_edges_examined (rp_metrics s)) (length arcs)\<rparr>\<rparr>)
         else (Inl status, s))"

definition sg_collect_sources ::
  "'m sg_repair_context \<Rightarrow> nat list \<Rightarrow> bool list ptr \<Rightarrow> ('m, nat list) repair" where
  "sg_collect_sources ctx targets excluded =
     rs_bind (rs_read_incoming ctx targets) (\<lambda>arcs.
     rs_bind (rs_lift (fold_res (sg_collect_source ctx excluded) arcs
                (replicate (st_pair_count (rc_store ctx)) SG_INDEX_NONE, []))) (\<lambda>(positions, sources).
     rs_lift (Inr sources)))"

text \<open>One round of the loop: \<open>head\<close> is where the pairs of the last round begin.\<close>

definition sg_invalidate_round ::
  "'m sg_repair_context \<Rightarrow> sg_repair_objective \<Rightarrow> nat \<Rightarrow> sg_objective_state \<Rightarrow> ('m, sg_objective_state) repair" where
  "sg_invalidate_round ctx objective head state =
     rs_bind (sg_collect_sources ctx (drop head (os_invalidated state)) (Ref (os_invalid state))) (\<lambda>sources.
     rs_bind (sg_evaluate_pairs ctx sources objective) (\<lambda>evaluations.
     rs_bind (rs_fold (\<lambda>(pair, evaluation). sg_update_pair ctx objective pair evaluation)
                (zip sources evaluations) (state, [])) (\<lambda>(state, writes).
     rs_bind (sg_write_records ctx writes) (\<lambda>_. rs_lift (Inr state)))))"

definition sg_invalidate_dependents ::
  "'m sg_repair_context \<Rightarrow> sg_objective_state \<Rightarrow> sg_repair_objective \<Rightarrow> 'm sg_repair_state \<Rightarrow>
     (sg_objective_state res \<times> 'm sg_repair_state) option" where
  "sg_invalidate_dependents ctx state objective s =
     run_bind (rs_while (\<lambda>(head, state). head < length (os_invalidated state))
         (\<lambda>(head, state). rs_bind (sg_invalidate_round ctx objective head state) (\<lambda>state'.
            rs_lift (Inr (length (os_invalidated state), state'))))
         (0, state) s)
       (\<lambda>(head, state) s. Some (Inr state, s))"

section \<open>Rebuilding\<close>

definition sg_seed_heap_pair ::
  "sg_repair_objective \<Rightarrow> nat \<times> sg_pair_evaluation \<Rightarrow> sg_objective_state \<Rightarrow> sg_objective_state" where
  "sg_seed_heap_pair objective = (\<lambda>(pair, evaluation) state.
     let distance = sg_record_distance (pe_candidate evaluation) objective
     in if distance \<noteq> SG_INDEX_NONE
        then state\<lparr>os_tentative := (os_tentative state)[pair := distance],
                   os_heap := sg_heap_push (os_heap state) pair distance\<rparr>
        else state)"

definition sg_seed_rebuild_heap ::
  "'m sg_repair_context \<Rightarrow> sg_objective_state \<Rightarrow> sg_repair_objective \<Rightarrow> ('m, sg_objective_state) repair" where
  "sg_seed_rebuild_heap ctx state objective =
     rs_bind (sg_evaluate_pairs ctx (os_invalidated state) objective) (\<lambda>evaluations.
     rs_lift (Inr (fold (sg_seed_heap_pair objective) (zip (os_invalidated state) evaluations) state)))"

definition sg_relax_predecessor ::
  "'m sg_repair_context \<Rightarrow> sg_repair_objective \<Rightarrow> nat \<Rightarrow> sg_pair_arc \<Rightarrow> sg_objective_state \<Rightarrow>
     sg_objective_state res" where
  "sg_relax_predecessor ctx objective target_distance arc state =
     (let source = arc_source_pair arc
      in if source \<ge> st_pair_count (rc_store ctx) \<or> arc_target_pair arc \<ge> st_pair_count (rc_store ctx) \<or>
            arc_action arc \<ge> st_action_count (rc_store ctx)
         then Inl SG_ERR_INVALID_MODEL
         else if \<not> os_invalid state ! source \<or> os_finalized state ! source \<or> rc_diagonal ctx ! source
         then Inr state
         else let candidate = (if objective = SG_REPAIR_RESOLUTION \<and> arc_outputs_differ arc then 1
                               else if target_distance < SG_INDEX_NONE - 1 then target_distance + 1
                               else SG_INDEX_NONE)
              in if candidate < os_tentative state ! source
                 then Inr (state\<lparr>os_tentative := (os_tentative state)[source := candidate],
                                 os_heap := sg_heap_push (os_heap state) source candidate\<rparr>)
                 else Inr state)"

definition sg_relax_invalid_predecessors ::
  "'m sg_repair_context \<Rightarrow> sg_objective_state \<Rightarrow> nat list \<Rightarrow> nat \<Rightarrow> sg_repair_objective \<Rightarrow>
     ('m, sg_objective_state) repair" where
  "sg_relax_invalid_predecessors ctx state targets target_distance objective =
     rs_bind (rs_read_incoming ctx targets) (\<lambda>arcs.
     rs_lift (fold_res (sg_relax_predecessor ctx objective target_distance) arcs state))"

text \<open>The entries of the smallest distance; \<open>queued\<close> keeps a pair from entering the frontier twice.\<close>

function sg_rebuild_frontier ::
  "nat \<Rightarrow> sg_objective_state \<Rightarrow> nat list \<Rightarrow> sg_objective_state \<times> nat list" where
  "sg_rebuild_frontier distance state frontier =
     (if os_heap state \<noteq> [] \<and> he_distance (os_heap state ! 0) = distance
      then let (entry, heap) = sg_heap_pop (os_heap state); state = state\<lparr>os_heap := heap\<rparr>
           in if \<not> os_finalized state ! he_pair entry \<and>
                 os_tentative state ! he_pair entry = he_distance entry \<and>
                 \<not> os_queued state ! he_pair entry
              then sg_rebuild_frontier distance
                     (state\<lparr>os_queued := (os_queued state)[he_pair entry := True]\<rparr>)
                     (frontier @ [he_pair entry])
              else sg_rebuild_frontier distance state frontier
      else (state, frontier))"
  by pat_completeness auto

lemma length_sg_heap_sift_down [simp]: "length (sg_heap_sift_down items position e) = length items"
proof (induction items position e rule: sg_heap_sift_down.induct)
  case (1 items position e)
  show ?case
    by (cases "position * 2 + 1 < length items \<and>
               \<not> he_distance (items ! sg_heap_child items position) \<ge> he_distance e")
      (use 1 in \<open>auto simp: sg_heap_sift_down.simps[of items]\<close>)
qed

lemma length_sg_heap_pop: "length (snd (sg_heap_pop items)) = length items - 1"
  by (simp add: sg_heap_pop_def Let_def)

termination sg_rebuild_frontier
proof (relation "measure (\<lambda>(distance, state, frontier). length (os_heap state))", goal_cases)
  case 1
  show ?case by simp
next
  case (2 distance state frontier x entry heap s)
  then have "length heap = length (os_heap state) - 1" by (metis length_sg_heap_pop snd_conv)
  with 2 show ?case by simp
next
  case (3 distance state frontier x entry heap s)
  then have "length heap = length (os_heap state) - 1" by (metis length_sg_heap_pop snd_conv)
  with 3 show ?case by simp
qed

declare sg_rebuild_frontier.simps [simp del]

text \<open>What the loop over the frontier does with one pair.\<close>

definition sg_finalize_pair ::
  "sg_repair_objective \<Rightarrow> nat \<Rightarrow> nat \<times> sg_pair_evaluation \<Rightarrow>
     sg_objective_state \<times> sg_pair_record list \<times> nat list \<Rightarrow>
     ('m, sg_objective_state \<times> sg_pair_record list \<times> nat list) repair" where
  "sg_finalize_pair objective distance = (\<lambda>(pair, evaluation) (state, writes, finalized).
     let current = pe_current evaluation; candidate = pe_candidate evaluation;
         candidate_distance = sg_record_distance candidate objective
     in if candidate_distance = SG_INDEX_NONE then rs_lift (Inr (state, writes, finalized))
        else if candidate_distance \<noteq> distance
        then rs_lift (Inr (state\<lparr>os_tentative := (os_tentative state)[pair := candidate_distance],
                                 os_heap := sg_heap_push (os_heap state) pair candidate_distance\<rparr>,
                           writes, finalized))
        else rs_bind (sg_collect_write objective pair current candidate
               (state\<lparr>os_finalized := (os_finalized state)[pair := True]\<rparr>, writes)) (\<lambda>(state, writes).
             rs_lift (Inr (sg_queue_decrease pair state, writes, finalized @ [pair]))))"

definition sg_unqueue :: "nat list \<Rightarrow> sg_objective_state \<Rightarrow> sg_objective_state" where
  "sg_unqueue pairs state =
     state\<lparr>os_queued := fold (\<lambda>pair queued. queued[pair := False]) pairs (os_queued state)\<rparr>"

definition sg_rebuild_round ::
  "'m sg_repair_context \<Rightarrow> sg_repair_objective \<Rightarrow> sg_objective_state \<Rightarrow> ('m, sg_objective_state) repair" where
  "sg_rebuild_round ctx objective state =
     (let distance = he_distance (os_heap state ! 0);
          (state, frontier) = sg_rebuild_frontier distance state [];
          state = sg_unqueue frontier state
      in if frontier = [] then rs_lift (Inr state)
         else rs_bind (sg_evaluate_pairs ctx frontier objective) (\<lambda>evaluations.
              rs_bind (rs_fold (sg_finalize_pair objective distance) (zip frontier evaluations) (state, [], []))
                (\<lambda>(state, writes, finalized).
              rs_bind (sg_write_records ctx writes) (\<lambda>_.
              if finalized \<noteq> []
              then sg_relax_invalid_predecessors ctx state finalized distance objective
              else rs_lift (Inr state)))))"

definition sg_rebuild_invalidated ::
  "'m sg_repair_context \<Rightarrow> sg_objective_state \<Rightarrow> sg_repair_objective \<Rightarrow> 'm sg_repair_state \<Rightarrow>
     (sg_objective_state res \<times> 'm sg_repair_state) option" where
  "sg_rebuild_invalidated ctx state objective s =
     run_bind (Some (sg_seed_rebuild_heap ctx state objective s)) (\<lambda>state s.
       rs_while (\<lambda>state. os_heap state \<noteq> []) (sg_rebuild_round ctx objective) state s)"

section \<open>Propagating decreases\<close>

definition sg_decrease_pair ::
  "'m sg_repair_context \<Rightarrow> sg_repair_objective \<Rightarrow> nat \<times> sg_pair_evaluation \<Rightarrow>
     sg_objective_state \<times> sg_pair_record list \<Rightarrow> ('m, sg_objective_state \<times> sg_pair_record list) repair" where
  "sg_decrease_pair ctx objective = (\<lambda>(pair, evaluation) (state, writes).
     rs_bind (sg_mark_touched ctx pair) (\<lambda>_.
       let current = pe_current evaluation; candidate = pe_candidate evaluation;
           current_distance = sg_record_distance current objective;
           candidate_distance = sg_record_distance candidate objective
       in if candidate_distance > current_distance then rs_lift (Inl SG_ERR_INVALID_MODEL)
          else rs_bind (sg_collect_write objective pair current candidate (state, writes)) (\<lambda>(state, writes).
            rs_lift (Inr (if candidate_distance < current_distance then sg_queue_decrease pair state else state,
                          writes)))))"

definition sg_propagate_round ::
  "'m sg_repair_context \<Rightarrow> sg_repair_objective \<Rightarrow> nat \<Rightarrow> sg_objective_state \<Rightarrow> ('m, sg_objective_state) repair" where
  "sg_propagate_round ctx objective head state =
     (let batch = drop head (os_decreases state); state = sg_unqueue batch state
      in rs_bind (sg_collect_sources ctx batch NULL) (\<lambda>sources.
         rs_bind (sg_evaluate_pairs ctx sources objective) (\<lambda>evaluations.
         rs_bind (rs_fold (sg_decrease_pair ctx objective) (zip sources evaluations) (state, [])) (\<lambda>(state, writes).
         rs_bind (sg_write_records ctx writes) (\<lambda>_. rs_lift (Inr state))))))"

definition sg_propagate_decreases ::
  "'m sg_repair_context \<Rightarrow> sg_objective_state \<Rightarrow> sg_repair_objective \<Rightarrow> 'm sg_repair_state \<Rightarrow>
     (sg_objective_state res \<times> 'm sg_repair_state) option" where
  "sg_propagate_decreases ctx state objective s =
     run_bind (rs_while (\<lambda>(head, state). head < length (os_decreases state))
         (\<lambda>(head, state). rs_bind (sg_propagate_round ctx objective head state) (\<lambda>state'.
            rs_lift (Inr (length (os_decreases state), state'))))
         (0, state) s)
       (\<lambda>(head, state) s. Some (Inr state, s))"

section \<open>The repair\<close>

definition sg_repair_one_objective ::
  "'m sg_repair_context \<Rightarrow> nat list \<Rightarrow> sg_repair_objective \<Rightarrow> 'm sg_repair_state \<Rightarrow>
     (unit res \<times> 'm sg_repair_state) option" where
  "sg_repair_one_objective ctx seed_pairs objective s =
     run_bind (Some (sg_seed_objective_changes ctx
         (sg_objective_state_init (st_pair_count (rc_store ctx))) seed_pairs objective s)) (\<lambda>state s.
     run_bind (sg_invalidate_dependents ctx state objective s) (\<lambda>state s.
     run_bind (sg_rebuild_invalidated ctx state objective s) (\<lambda>state s.
     run_bind (sg_propagate_decreases ctx state objective s) (\<lambda>state s.
     Some (Inr (), s)))))"

definition sg_repair_diagonal :: "nat \<Rightarrow> nat \<Rightarrow> nat \<Rightarrow> bool list \<Rightarrow> bool list res" where
  "sg_repair_diagonal state_count pair_count state diagonal =
     (let pair = sg_pair_index state_count state state
      in if pair \<ge> pair_count then Inl SG_ERR_INVALID_ARGUMENT else Inr (diagonal[pair := True]))"

text \<open>The value is the status, the memory of the store and the metrics behind the caller's pointer.\<close>

definition sg_pair_store_repair ::
  "'m sg_pair_store ptr \<Rightarrow> nat list ptr \<Rightarrow> nat \<Rightarrow> sg_pair_repair_metrics ptr \<Rightarrow> 'm \<Rightarrow>
     (sg_status \<times> 'm \<times> sg_pair_repair_metrics ptr) option" where
  "sg_pair_store_repair store_ptr seed_pairs repair_budget metrics memory =
     (case (store_ptr, seed_pairs, metrics) of
        (Ref store, Ref seeds, Ref _) \<Rightarrow>
          if seeds = [] \<or> repair_budget = 0 \<or> st_state_count store = 0 \<or> st_action_count store = 0 \<or>
             st_pair_count store = 0 \<or> st_read_records store = NULL \<or> st_read_outgoing store = NULL \<or>
             st_read_incoming store = NULL \<or> st_write_records store = NULL
          then Some (SG_ERR_INVALID_ARGUMENT, memory, metrics)
          else (case fold_res (sg_repair_diagonal (st_state_count store) (st_pair_count store))
                       [0..<st_state_count store] (replicate (st_pair_count store) False) of
              Inl status \<Rightarrow> Some (status, memory, Ref sg_metrics_zero)
            | Inr diagonal \<Rightarrow>
                let ctx = \<lparr>rc_store = store, rc_repair_budget = repair_budget, rc_diagonal = diagonal\<rparr>;
                    s = \<lparr>rp_memory = memory, rp_metrics = sg_metrics_zero,
                         rp_touched = replicate (st_pair_count store) False\<rparr>
                in map_option (\<lambda>(result, s). (case result of Inl status \<Rightarrow> status | Inr _ \<Rightarrow> SG_OK,
                                               rp_memory s, Ref (rp_metrics s)))
                     (run_bind (sg_repair_one_objective ctx seeds SG_REPAIR_MERGE s) (\<lambda>_ s.
                      sg_repair_one_objective ctx seeds SG_REPAIR_RESOLUTION s)))
      | _ \<Rightarrow> Some (SG_ERR_INVALID_ARGUMENT, memory, metrics))"

end
