(* ===== verification/Sync_Snapshot.thy ===== *)
theory Sync_Snapshot
  imports Sync_Repair_Phases
begin

text \<open>
  Snapshots of the pair records of an automaton (src/snapshot.c). Record chunks and topologies are
  shared between snapshots and counted, and a chunk is copied before a write when it is shared. So
  the objects live in a memory: an address is an index, and a freed object is \<open>None\<close>. What only one
  snapshot points to (its automaton, its reverse columns, its list of changes) is kept in it by value.
  Atomic counters are plain numbers: the operations run one after another.
\<close>

section \<open>The objects\<close>

definition SG_SNAPSHOT_RECORD_CHUNK :: nat where
  "SG_SNAPSHOT_RECORD_CHUNK = 1024"

record sg_record_chunk =
  ch_references :: nat
  ch_records :: "sg_pair_record list"

record sg_pair_topology =
  tp_references :: nat
  tp_state_count :: nat
  tp_pair_count :: nat
  tp_first :: "nat list"
  tp_second :: "nat list"

record sg_pair_snapshot =
  sn_references :: nat
  sn_automaton :: sg_automaton
  sn_topology :: nat
  sn_chunks :: "nat list"
  sn_reverse_words :: nat
  sn_reverse_columns :: "64 word list"
  sn_changed :: "bool list ptr"
  sn_changed_pairs :: "nat list"

record sg_snapshot_memory =
  sm_chunks :: "sg_record_chunk option list"
  sm_topologies :: "sg_pair_topology option list"
  sm_snapshots :: "sg_pair_snapshot option list"

definition sg_memory_empty :: sg_snapshot_memory where
  "sg_memory_empty = \<lparr>sm_chunks = [], sm_topologies = [], sm_snapshots = []\<rparr>"

abbreviation chunk_at :: "sg_snapshot_memory \<Rightarrow> nat \<Rightarrow> sg_record_chunk" where
  "chunk_at m a \<equiv> the (sm_chunks m ! a)"

abbreviation topology_at :: "sg_snapshot_memory \<Rightarrow> nat \<Rightarrow> sg_pair_topology" where
  "topology_at m a \<equiv> the (sm_topologies m ! a)"

abbreviation snapshot_at :: "sg_snapshot_memory \<Rightarrow> nat \<Rightarrow> sg_pair_snapshot" where
  "snapshot_at m a \<equiv> the (sm_snapshots m ! a)"

definition chunk_update :: "nat \<Rightarrow> sg_record_chunk option \<Rightarrow> sg_snapshot_memory \<Rightarrow> sg_snapshot_memory" where
  "chunk_update a c m = m\<lparr>sm_chunks := (sm_chunks m)[a := c]\<rparr>"

definition topology_update :: "nat \<Rightarrow> sg_pair_topology option \<Rightarrow> sg_snapshot_memory \<Rightarrow> sg_snapshot_memory" where
  "topology_update a t m = m\<lparr>sm_topologies := (sm_topologies m)[a := t]\<rparr>"

definition snapshot_update :: "nat \<Rightarrow> sg_pair_snapshot option \<Rightarrow> sg_snapshot_memory \<Rightarrow> sg_snapshot_memory" where
  "snapshot_update a s m = m\<lparr>sm_snapshots := (sm_snapshots m)[a := s]\<rparr>"

section \<open>Chunks and topologies\<close>

definition sg_snapshot_pair_count :: "nat \<Rightarrow> nat option" where
  "sg_snapshot_pair_count states =
     (if states = SIZE_MAX then None
      else case sg_size_multiply states (states + 1) of None \<Rightarrow> None | Some product \<Rightarrow> Some (product div 2))"

text \<open>\<open>calloc\<close> gives records whose bytes are zero.\<close>

definition sg_pair_record_zero :: sg_pair_record where
  "sg_pair_record_zero =
     \<lparr>rec_pair = 0, rec_mergeable = False, rec_merge_distance = 0, rec_merge_action = 0,
      rec_merge_next_pair = 0, rec_merge_support_count = 0, rec_resolvable = False,
      rec_resolution_distance = 0, rec_resolution_action = 0, rec_resolution_next_pair = 0,
      rec_resolution_support_count = 0\<rparr>"

definition sg_record_chunk_create :: "nat \<Rightarrow> sg_snapshot_memory \<Rightarrow> nat \<times> sg_snapshot_memory" where
  "sg_record_chunk_create record_count m =
     (length (sm_chunks m),
      m\<lparr>sm_chunks := sm_chunks m @ [Some \<lparr>ch_references = 1, ch_records = replicate record_count sg_pair_record_zero\<rparr>]\<rparr>)"

definition sg_record_chunk_retain :: "nat \<Rightarrow> sg_snapshot_memory \<Rightarrow> sg_snapshot_memory" where
  "sg_record_chunk_retain a m =
     (let chunk = chunk_at m a
      in chunk_update a (Some (chunk\<lparr>ch_references := ch_references chunk + 1\<rparr>)) m)"

definition sg_record_chunk_release :: "nat \<Rightarrow> sg_snapshot_memory \<Rightarrow> sg_snapshot_memory" where
  "sg_record_chunk_release a m =
     (let chunk = chunk_at m a
      in chunk_update a (if ch_references chunk = 1 then None
                         else Some (chunk\<lparr>ch_references := ch_references chunk - 1\<rparr>)) m)"

definition sg_pair_topology_create :: "nat \<Rightarrow> sg_snapshot_memory \<Rightarrow> nat res \<times> sg_snapshot_memory" where
  "sg_pair_topology_create state_count m =
     (case sg_snapshot_pair_count state_count of
        None \<Rightarrow> (Inl SG_ERR_ALLOC, m)
      | Some pair_count \<Rightarrow>
          let pairs = concat (map (\<lambda>first. map (Pair first) [first..<state_count]) [0..<state_count]);
              created = \<lparr>tp_references = 1, tp_state_count = state_count, tp_pair_count = pair_count,
                         tp_first = map fst pairs, tp_second = map snd pairs\<rparr>
          in (Inr (length (sm_topologies m)), m\<lparr>sm_topologies := sm_topologies m @ [Some created]\<rparr>))"

definition sg_pair_topology_retain :: "nat \<Rightarrow> sg_snapshot_memory \<Rightarrow> sg_snapshot_memory" where
  "sg_pair_topology_retain a m =
     (let topology = topology_at m a
      in topology_update a (Some (topology\<lparr>tp_references := tp_references topology + 1\<rparr>)) m)"

definition sg_pair_topology_release :: "nat \<Rightarrow> sg_snapshot_memory \<Rightarrow> sg_snapshot_memory" where
  "sg_pair_topology_release a m =
     (let topology = topology_at m a
      in topology_update a (if tp_references topology = 1 then None
                            else Some (topology\<lparr>tp_references := tp_references topology - 1\<rparr>)) m)"

section \<open>Reverse columns\<close>

text \<open>
  For an action and a target the column of the states that the action leads to the target, as bits of
  64-bit words.
\<close>

definition sg_reverse_column_size :: "sg_automaton \<Rightarrow> nat \<times> nat option" where
  "sg_reverse_column_size automaton =
     (let states = sg_automaton_state_count (Ref automaton);
          words = states div 64 + (if states mod 64 \<noteq> 0 then 1 else 0)
      in (words, case sg_size_multiply (sg_automaton_action_count (Ref automaton)) states of
                   None \<Rightarrow> None
                 | Some columns \<Rightarrow> sg_size_multiply columns words))"

definition sg_reverse_offset :: "sg_pair_snapshot \<Rightarrow> nat \<Rightarrow> nat \<Rightarrow> nat \<Rightarrow> nat" where
  "sg_reverse_offset snapshot action target state =
     (let states = sg_automaton_state_count (Ref (sn_automaton snapshot))
      in (action * states + target) * sn_reverse_words snapshot + state div 64)"

definition sg_reverse_has :: "sg_pair_snapshot \<Rightarrow> nat \<Rightarrow> nat \<Rightarrow> nat \<Rightarrow> bool" where
  "sg_reverse_has snapshot action target state \<longleftrightarrow>
     and (sn_reverse_columns snapshot ! sg_reverse_offset snapshot action target state)
       (push_bit (state mod 64) 1) \<noteq> 0"

definition sg_reverse_set :: "sg_pair_snapshot \<Rightarrow> nat \<Rightarrow> nat \<Rightarrow> nat \<Rightarrow> bool \<Rightarrow> sg_pair_snapshot" where
  "sg_reverse_set snapshot action target state present =
     (let offset = sg_reverse_offset snapshot action target state;
          bit = push_bit (state mod 64) 1;
          old = sn_reverse_columns snapshot ! offset
      in snapshot\<lparr>sn_reverse_columns := (sn_reverse_columns snapshot)
           [offset := if present then or old bit else and old (not bit)]\<rparr>)"

definition sg_reverse_column_step :: "nat \<Rightarrow> nat \<Rightarrow> sg_pair_snapshot \<Rightarrow> sg_pair_snapshot res" where
  "sg_reverse_column_step state action snapshot =
     (let target = sg_automaton_transition (Ref (sn_automaton snapshot)) state action
      in if target \<ge> sg_automaton_state_count (Ref (sn_automaton snapshot)) then Inl SG_ERR_INVALID_MODEL
         else Inr (sg_reverse_set snapshot action target state True))"

definition sg_reverse_columns_build :: "sg_pair_snapshot \<Rightarrow> sg_pair_snapshot res" where
  "sg_reverse_columns_build snapshot =
     (let automaton = sn_automaton snapshot; (words, word_count) = sg_reverse_column_size automaton
      in case word_count of
           None \<Rightarrow> Inl SG_ERR_ALLOC
         | Some word_count \<Rightarrow>
             fold_res (\<lambda>state. fold_res (sg_reverse_column_step state)
                 [0..<sg_automaton_action_count (Ref automaton)])
               [0..<sg_automaton_state_count (Ref automaton)]
               (snapshot\<lparr>sn_reverse_words := words,
                         sn_reverse_columns := replicate (if word_count = 0 then 1 else word_count) 0\<rparr>))"

section \<open>Making and freeing snapshots\<close>

definition sg_pair_snapshot_retain :: "nat ptr \<Rightarrow> sg_snapshot_memory \<Rightarrow> sg_snapshot_memory" where
  "sg_pair_snapshot_retain snapshot m =
     (case snapshot of
        NULL \<Rightarrow> m
      | Ref a \<Rightarrow> let s = snapshot_at m a
                 in snapshot_update a (Some (s\<lparr>sn_references := sn_references s + 1\<rparr>)) m)"

definition sg_pair_snapshot_release :: "nat ptr \<Rightarrow> sg_snapshot_memory \<Rightarrow> sg_snapshot_memory" where
  "sg_pair_snapshot_release snapshot m =
     (case snapshot of
        NULL \<Rightarrow> m
      | Ref a \<Rightarrow>
          let s = snapshot_at m a
          in if sn_references s \<noteq> 1
             then snapshot_update a (Some (s\<lparr>sn_references := sn_references s - 1\<rparr>)) m
             else let m = fold sg_record_chunk_release (sn_chunks s) m;
                      m = sg_pair_topology_release (sn_topology s) m
                  in snapshot_update a None m)"

definition sg_snapshot_create :: "sg_pair_snapshot \<Rightarrow> sg_snapshot_memory \<Rightarrow> nat \<times> sg_snapshot_memory" where
  "sg_snapshot_create snapshot m =
     (length (sm_snapshots m), m\<lparr>sm_snapshots := sm_snapshots m @ [Some snapshot]\<rparr>)"

text \<open>The loop that creates the chunks: all of full size but the last.\<close>

fun sg_snapshot_allocate_chunks ::
  "nat \<Rightarrow> nat list \<Rightarrow> nat list \<Rightarrow> sg_snapshot_memory \<Rightarrow> nat list \<times> sg_snapshot_memory" where
  "sg_snapshot_allocate_chunks pair_count [] addresses m = (addresses, m)"
| "sg_snapshot_allocate_chunks pair_count (chunk # chunks) addresses m =
     (let first = chunk * SG_SNAPSHOT_RECORD_CHUNK; remaining = pair_count - first;
          count = (if remaining < SG_SNAPSHOT_RECORD_CHUNK then remaining else SG_SNAPSHOT_RECORD_CHUNK);
          (address, m) = sg_record_chunk_create count m
      in sg_snapshot_allocate_chunks pair_count chunks (addresses @ [address]) m)"

text \<open>
  The object is put into the memory when it is complete; an error releases what it points to.
\<close>

definition sg_snapshot_allocate ::
  "sg_automaton \<Rightarrow> sg_snapshot_memory \<Rightarrow> nat res \<times> sg_snapshot_memory" where
  "sg_snapshot_allocate automaton m =
     (case sg_automaton_clone_generation (Ref automaton) (sg_automaton_generation (Ref automaton)) of
        Inl status \<Rightarrow> (Inl status, m)
      | Inr clone \<Rightarrow>
     (case sg_pair_topology_create (sg_automaton_state_count (Ref automaton)) m of
        (Inl status, m) \<Rightarrow> (Inl status, m)
      | (Inr topology, m) \<Rightarrow>
          let pair_count = tp_pair_count (topology_at m topology);
              chunk_count = pair_count div SG_SNAPSHOT_RECORD_CHUNK +
                (if pair_count mod SG_SNAPSHOT_RECORD_CHUNK \<noteq> 0 then 1 else 0);
              (chunks, m) = sg_snapshot_allocate_chunks pair_count [0..<chunk_count] [] m;
              created = \<lparr>sn_references = 1, sn_automaton = clone, sn_topology = topology, sn_chunks = chunks,
                         sn_reverse_words = 0, sn_reverse_columns = [], sn_changed = NULL,
                         sn_changed_pairs = []\<rparr>
          in case sg_reverse_columns_build created of
               Inl status \<Rightarrow>
                 let (address, m) = sg_snapshot_create created m
                 in (Inl status, sg_pair_snapshot_release (Ref address) m)
             | Inr created \<Rightarrow> let (address, m) = sg_snapshot_create created m in (Inr address, m)))"

text \<open>
  The address of the record of a pair: its chunk and offset. A shared chunk is first replaced by a copy.
\<close>

definition sg_snapshot_record_mutable ::
  "nat \<Rightarrow> nat \<Rightarrow> sg_snapshot_memory \<Rightarrow> (nat \<times> nat) ptr \<times> sg_snapshot_memory" where
  "sg_snapshot_record_mutable snapshot pair m =
     (let s = snapshot_at m snapshot
      in if pair \<ge> tp_pair_count (topology_at m (sn_topology s)) then (NULL, m)
         else let chunk_id = pair div SG_SNAPSHOT_RECORD_CHUNK;
                  offset = pair mod SG_SNAPSHOT_RECORD_CHUNK;
                  address = sn_chunks s ! chunk_id; chunk = chunk_at m address
              in if ch_references chunk \<noteq> 1
                 then let (copy, m) = sg_record_chunk_create (length (ch_records chunk)) m;
                          m = chunk_update copy (Some ((chunk_at m copy)\<lparr>ch_records := ch_records chunk\<rparr>)) m;
                          m = snapshot_update snapshot (Some (s\<lparr>sn_chunks := (sn_chunks s)[chunk_id := copy]\<rparr>)) m;
                          m = sg_record_chunk_release address m
                      in (Ref (copy, offset), m)
                 else (Ref (address, offset), m))"

definition sg_snapshot_record_const :: "nat ptr \<Rightarrow> nat \<Rightarrow> sg_snapshot_memory \<Rightarrow> sg_pair_record ptr" where
  "sg_snapshot_record_const snapshot pair m =
     (case snapshot of
        NULL \<Rightarrow> NULL
      | Ref a \<Rightarrow>
          let s = snapshot_at m a
          in if pair \<ge> tp_pair_count (topology_at m (sn_topology s)) then NULL
             else let chunk_id = pair div SG_SNAPSHOT_RECORD_CHUNK;
                      offset = pair mod SG_SNAPSHOT_RECORD_CHUNK
                  in Ref (ch_records (chunk_at m (sn_chunks s ! chunk_id)) ! offset))"

text \<open>Writing through the address of a record.\<close>

definition sg_record_store :: "nat \<times> nat \<Rightarrow> sg_pair_record \<Rightarrow> sg_snapshot_memory \<Rightarrow> sg_snapshot_memory" where
  "sg_record_store = (\<lambda>(address, offset) record m.
     let chunk = chunk_at m address
     in chunk_update address (Some (chunk\<lparr>ch_records := (ch_records chunk)[offset := record]\<rparr>)) m)"

section \<open>Filling a snapshot\<close>

definition sg_snapshot_fill_pair ::
  "nat \<Rightarrow> sg_pair_oracle \<Rightarrow> nat \<Rightarrow> sg_snapshot_memory \<Rightarrow> sg_status \<times> sg_snapshot_memory" where
  "sg_snapshot_fill_pair snapshot orc pair m =
     (case sg_snapshot_record_mutable snapshot pair m of
        (NULL, m) \<Rightarrow> (SG_ERR_INVALID_MODEL, m)
      | (Ref address, m) \<Rightarrow>
          (case sg_pair_oracle_record (Ref orc) pair of
             Inl _ \<Rightarrow> (SG_ERR_INVALID_MODEL, m)
           | Inr record \<Rightarrow>
               let m = sg_record_store address record m;
                   topology = topology_at m (sn_topology (snapshot_at m snapshot))
               in (case sg_pair_oracle_pair_states (Ref orc) pair of
                     Inl _ \<Rightarrow> (SG_ERR_INVALID_MODEL, m)
                   | Inr (first, second) \<Rightarrow>
                       if first \<noteq> tp_first topology ! pair \<or> second \<noteq> tp_second topology ! pair
                       then (SG_ERR_INVALID_MODEL, m) else (SG_OK, m))))"

text \<open>A loop over a list that stops at the first status that is not SG_OK.\<close>

fun fold_status :: "('x \<Rightarrow> 's \<Rightarrow> sg_status \<times> 's) \<Rightarrow> 'x list \<Rightarrow> 's \<Rightarrow> sg_status \<times> 's" where
  "fold_status f [] s = (SG_OK, s)"
| "fold_status f (x # xs) s =
     (case f x s of (status, s) \<Rightarrow> if status = SG_OK then fold_status f xs s else (status, s))"

definition sg_snapshot_fill_from_oracle ::
  "nat \<Rightarrow> sg_pair_oracle \<Rightarrow> sg_snapshot_memory \<Rightarrow> sg_status \<times> sg_snapshot_memory" where
  "sg_snapshot_fill_from_oracle snapshot orc m =
     (let pair_count = tp_pair_count (topology_at m (sn_topology (snapshot_at m snapshot)))
      in if sg_pair_oracle_pair_count (Ref orc) \<noteq> pair_count then (SG_ERR_INVALID_MODEL, m)
         else fold_status (sg_snapshot_fill_pair snapshot orc) [0..<pair_count] m)"

definition sg_pair_snapshot_from_oracle ::
  "sg_automaton ptr \<Rightarrow> sg_pair_oracle ptr \<Rightarrow> sg_snapshot_memory \<Rightarrow> nat res \<times> sg_snapshot_memory" where
  "sg_pair_snapshot_from_oracle automaton orc m =
     (case (automaton, orc) of
        (Ref a, Ref orc) \<Rightarrow>
          (case sg_snapshot_allocate a m of
             (Inl status, m) \<Rightarrow> (Inl status, m)
           | (Inr created, m) \<Rightarrow>
               let (status, m) = sg_snapshot_fill_from_oracle created orc m
               in if status \<noteq> SG_OK then (Inl status, sg_pair_snapshot_release (Ref created) m)
                  else (Inr created, m))
      | _ \<Rightarrow> (Inl SG_ERR_INVALID_ARGUMENT, m))"

definition sg_pair_snapshot_build ::
  "sg_automaton ptr \<Rightarrow> sg_snapshot_memory \<Rightarrow> nat res \<times> sg_snapshot_memory" where
  "sg_pair_snapshot_build automaton m =
     (if automaton = NULL then (Inl SG_ERR_INVALID_ARGUMENT, m)
      else case sg_pair_oracle_build automaton of
             Inl status \<Rightarrow> (Inl status, m)
           | Inr orc \<Rightarrow> sg_pair_snapshot_from_oracle automaton (Ref orc) m)"

definition sg_pair_snapshot_restore ::
  "sg_automaton ptr \<Rightarrow> sg_pair_record list ptr \<Rightarrow> sg_snapshot_memory \<Rightarrow> nat res \<times> sg_snapshot_memory" where
  "sg_pair_snapshot_restore automaton records m =
     (if automaton = NULL \<or> records = NULL then (Inl SG_ERR_INVALID_ARGUMENT, m)
      else case sg_pair_oracle_restore automaton records of
             Inl status \<Rightarrow> (Inl status, m)
           | Inr orc \<Rightarrow> sg_pair_snapshot_from_oracle automaton (Ref orc) m)"

text \<open>A clone has an automaton and columns of its own and shares the topology and the chunks.\<close>

definition sg_pair_snapshot_clone ::
  "nat ptr \<Rightarrow> 64 word \<Rightarrow> sg_snapshot_memory \<Rightarrow> nat res \<times> sg_snapshot_memory" where
  "sg_pair_snapshot_clone source generation m =
     (case source of
        NULL \<Rightarrow> (Inl SG_ERR_INVALID_ARGUMENT, m)
      | Ref a \<Rightarrow>
          let s = snapshot_at m a
          in case sg_automaton_clone_generation (Ref (sn_automaton s)) generation of
               Inl status \<Rightarrow> (Inl status, m)
             | Inr automaton \<Rightarrow>
                 let m = sg_pair_topology_retain (sn_topology s) m;
                     m = fold sg_record_chunk_retain (sn_chunks s) m;
                     (words, word_count) = sg_reverse_column_size (sn_automaton s);
                     created = \<lparr>sn_references = 1, sn_automaton = automaton, sn_topology = sn_topology s,
                                sn_chunks = sn_chunks s, sn_reverse_words = words, sn_reverse_columns = [],
                                sn_changed = NULL, sn_changed_pairs = []\<rparr>
                 in case word_count of
                      None \<Rightarrow>
                        let (address, m) = sg_snapshot_create created m
                        in (Inl SG_ERR_ALLOC, sg_pair_snapshot_release (Ref address) m)
                    | Some word_count \<Rightarrow>
                        let (address, m) = sg_snapshot_create
                              (created\<lparr>sn_reverse_columns := take word_count (sn_reverse_columns s)\<rparr>) m
                        in (Inr address, m))"

section \<open>Reading\<close>

definition sg_pair_snapshot_automaton :: "nat ptr \<Rightarrow> sg_snapshot_memory \<Rightarrow> sg_automaton ptr" where
  "sg_pair_snapshot_automaton snapshot m =
     (case snapshot of NULL \<Rightarrow> NULL | Ref a \<Rightarrow> Ref (sn_automaton (snapshot_at m a)))"

definition sg_pair_snapshot_pair_count :: "nat ptr \<Rightarrow> sg_snapshot_memory \<Rightarrow> nat" where
  "sg_pair_snapshot_pair_count snapshot m =
     (case snapshot of NULL \<Rightarrow> 0 | Ref a \<Rightarrow> tp_pair_count (topology_at m (sn_topology (snapshot_at m a))))"

text \<open>
  The size of the objects on a 64-bit platform, in bytes: the snapshot and a record take 88, the
  topology 40, the header of a chunk 16, and a pointer, a \<open>size_t\<close> and a word 8 each. The sum is of
  \<open>size_t\<close>.
\<close>

definition sg_pair_snapshot_memory_bytes :: "nat ptr \<Rightarrow> sg_snapshot_memory \<Rightarrow> nat" where
  "sg_pair_snapshot_memory_bytes snapshot m =
     (case snapshot of
        NULL \<Rightarrow> 0
      | Ref a \<Rightarrow>
          let s = snapshot_at m a;
              states = sg_automaton_state_count (Ref (sn_automaton s));
              actions = sg_automaton_action_count (Ref (sn_automaton s));
              bytes = 88 + length (sn_chunks s) * 8 + 40 +
                tp_pair_count (topology_at m (sn_topology s)) * 2 * 8;
              bytes = bytes + states * actions * 2 * 8;
              bytes = bytes + actions * states * sn_reverse_words s * 8;
              bytes = foldl (\<lambda>bytes chunk. bytes + (16 + length (ch_records (chunk_at m chunk)) * 88))
                bytes (sn_chunks s)
          in bytes mod 2 ^ 64)"

definition sg_snapshot_read_pair ::
  "nat ptr \<Rightarrow> sg_snapshot_memory \<Rightarrow> nat \<Rightarrow> sg_pair_record list \<Rightarrow> sg_pair_record list res" where
  "sg_snapshot_read_pair snapshot m pair records =
     (case sg_snapshot_record_const snapshot pair m of
        NULL \<Rightarrow> Inl SG_ERR_INVALID_ARGUMENT
      | Ref record \<Rightarrow> Inr (records @ [record]))"

definition sg_pair_snapshot_read ::
  "nat ptr \<Rightarrow> nat list ptr \<Rightarrow> sg_snapshot_memory \<Rightarrow> sg_pair_record list res" where
  "sg_pair_snapshot_read snapshot pair_ids m =
     (case (snapshot, pair_ids) of
        (Ref _, Ref ids) \<Rightarrow> fold_res (sg_snapshot_read_pair snapshot m) ids []
      | _ \<Rightarrow> Inl SG_ERR_INVALID_ARGUMENT)"

definition sg_pair_snapshot_record :: "nat ptr \<Rightarrow> nat \<Rightarrow> sg_snapshot_memory \<Rightarrow> sg_pair_record res" where
  "sg_pair_snapshot_record snapshot pair m =
     rbind (sg_pair_snapshot_read snapshot (Ref [pair]) m) (\<lambda>records. Inr (records ! 0))"

section \<open>Changing a cell\<close>

text \<open>\<open>changed\<close> is the caller's flag, NULL or its value.\<close>

definition sg_pair_snapshot_set_cell ::
  "nat ptr \<Rightarrow> nat \<Rightarrow> nat \<Rightarrow> nat \<Rightarrow> nat \<Rightarrow> bool ptr \<Rightarrow> sg_snapshot_memory \<Rightarrow>
     sg_status \<times> bool ptr \<times> sg_snapshot_memory" where
  "sg_pair_snapshot_set_cell snapshot state action target out changed m =
     (case (snapshot, changed) of
        (Ref a, Ref _) \<Rightarrow>
          let s = snapshot_at m a;
              old_target = sg_automaton_transition (Ref (sn_automaton s)) state action;
              old_output = sg_automaton_observation (Ref (sn_automaton s)) state action
          in if old_target = SG_INDEX_NONE \<or> old_output = SG_INDEX_NONE
             then (SG_ERR_INVALID_ARGUMENT, changed, m)
             else let changed = (old_target \<noteq> target \<or> old_output \<noteq> out)
                  in if \<not> changed then (SG_OK, Ref changed, m)
                     else (case sg_automaton_set_cell (Ref (sn_automaton s)) state action target out of
                             Inl status \<Rightarrow> (status, Ref changed, m)
                           | Inr automaton \<Rightarrow>
                               let s = s\<lparr>sn_automaton := automaton\<rparr>;
                                   s = (if old_target \<noteq> target
                                        then sg_reverse_set (sg_reverse_set s action old_target state False)
                                               action target state True
                                        else s)
                               in (SG_OK, Ref changed, snapshot_update a (Some s) m))
      | _ \<Rightarrow> (SG_ERR_INVALID_ARGUMENT, changed, m))"

section \<open>The store of a snapshot\<close>

definition sg_snapshot_store_read_records ::
  "nat \<Rightarrow> sg_snapshot_memory \<Rightarrow> nat list \<Rightarrow> sg_pair_record list res" where
  "sg_snapshot_store_read_records snapshot m ids = sg_pair_snapshot_read (Ref snapshot) (Ref ids) m"

definition sg_snapshot_outgoing_arc ::
  "sg_pair_snapshot \<Rightarrow> sg_pair_topology \<Rightarrow> nat \<Rightarrow> nat \<Rightarrow> sg_pair_arc" where
  "sg_snapshot_outgoing_arc s topology pair action =
     (let first = tp_first topology ! pair; second = tp_second topology ! pair;
          automaton = Ref (sn_automaton s)
      in \<lparr>arc_source_pair = pair, arc_action = action,
          arc_target_pair = sg_pair_index (tp_state_count topology)
            (sg_automaton_transition automaton first action) (sg_automaton_transition automaton second action),
          arc_outputs_differ = (sg_automaton_observation automaton first action \<noteq>
            sg_automaton_observation automaton second action)\<rparr>)"

definition sg_snapshot_outgoing_pair ::
  "sg_pair_snapshot \<Rightarrow> sg_pair_topology \<Rightarrow> nat \<Rightarrow> sg_pair_arc list \<Rightarrow> sg_pair_arc list res" where
  "sg_snapshot_outgoing_pair s topology pair arcs =
     (if pair \<ge> tp_pair_count topology then Inl SG_ERR_INVALID_ARGUMENT
      else Inr (arcs @ map (sg_snapshot_outgoing_arc s topology pair)
             [0..<sg_automaton_action_count (Ref (sn_automaton s))]))"

definition sg_snapshot_store_read_outgoing ::
  "nat \<Rightarrow> sg_snapshot_memory \<Rightarrow> nat list \<Rightarrow> sg_status \<times> sg_pair_arc list" where
  "sg_snapshot_store_read_outgoing snapshot m sources =
     (let s = snapshot_at m snapshot; topology = topology_at m (sn_topology s)
      in case sg_size_multiply (length sources) (sg_automaton_action_count (Ref (sn_automaton s))) of
           None \<Rightarrow> (SG_ERR_ALLOC, [])
         | Some arc_count \<Rightarrow>
             (case fold_res (sg_snapshot_outgoing_pair s topology) sources [] of
                Inl status \<Rightarrow> (status, [])
              | Inr arcs \<Rightarrow> (SG_OK, arcs)))"

definition sg_append_incoming_arc ::
  "sg_pair_snapshot \<Rightarrow> sg_pair_topology \<Rightarrow> nat \<Rightarrow> nat \<Rightarrow> nat \<Rightarrow> nat \<Rightarrow> sg_pair_arc list \<Rightarrow> sg_pair_arc list" where
  "sg_append_incoming_arc s topology action first second target_pair arcs =
     arcs @ [\<lparr>arc_source_pair = sg_pair_index (tp_state_count topology) first second, arc_action = action,
              arc_target_pair = target_pair,
              arc_outputs_differ =
                (sg_automaton_observation (Ref (sn_automaton s)) first action \<noteq>
                 sg_automaton_observation (Ref (sn_automaton s)) second action)\<rparr>]"

text \<open>The sources of one action: pairs within a column, or one state from each of two columns.\<close>

definition sg_incoming_action ::
  "sg_pair_snapshot \<Rightarrow> sg_pair_topology \<Rightarrow> nat \<Rightarrow> nat \<Rightarrow> sg_pair_arc list \<Rightarrow> sg_pair_arc list" where
  "sg_incoming_action s topology target_pair action arcs =
     (let first_target = tp_first topology ! target_pair; second_target = tp_second topology ! target_pair;
          states = tp_state_count topology
      in foldl (\<lambda>arcs first.
           if \<not> sg_reverse_has s action first_target first then arcs
           else foldl (\<lambda>arcs second.
                  if sg_reverse_has s action second_target second
                  then sg_append_incoming_arc s topology action first second target_pair arcs else arcs)
                arcs [(if first_target = second_target then first else 0)..<states])
           arcs [0..<states])"

definition sg_incoming_target ::
  "sg_pair_snapshot \<Rightarrow> sg_pair_topology \<Rightarrow> nat list \<Rightarrow> nat \<Rightarrow> sg_pair_arc list \<Rightarrow> sg_pair_arc list res" where
  "sg_incoming_target s topology targets index arcs =
     (let target_pair = targets ! index
      in if target_pair \<ge> tp_pair_count topology then Inl SG_ERR_INVALID_ARGUMENT
         else if list_ex (\<lambda>prior. targets ! prior = target_pair) [0..<index] then Inr arcs
         else Inr (foldl (\<lambda>arcs action. sg_incoming_action s topology target_pair action arcs) arcs
                [0..<sg_automaton_action_count (Ref (sn_automaton s))]))"

definition sg_snapshot_store_read_incoming ::
  "nat \<Rightarrow> sg_snapshot_memory \<Rightarrow> nat list \<Rightarrow> sg_status \<times> sg_pair_arc list" where
  "sg_snapshot_store_read_incoming snapshot m targets =
     (let s = snapshot_at m snapshot; topology = topology_at m (sn_topology s)
      in case fold_res (sg_incoming_target s topology targets) [0..<length targets] [] of
           Inl status \<Rightarrow> (status, [])
         | Inr arcs \<Rightarrow> (SG_OK, arcs))"

definition sg_snapshot_mark_changed :: "nat \<Rightarrow> nat \<Rightarrow> sg_snapshot_memory \<Rightarrow> sg_snapshot_memory" where
  "sg_snapshot_mark_changed snapshot pair m =
     (let s = snapshot_at m snapshot;
          changed = (case sn_changed s of
                       NULL \<Rightarrow> replicate (tp_pair_count (topology_at m (sn_topology s))) False
                     | Ref changed \<Rightarrow> changed)
      in if changed ! pair then snapshot_update snapshot (Some (s\<lparr>sn_changed := Ref changed\<rparr>)) m
         else snapshot_update snapshot (Some (s\<lparr>sn_changed := Ref (changed[pair := True]),
                                                sn_changed_pairs := sn_changed_pairs s @ [pair]\<rparr>)) m)"

definition sg_snapshot_write_record ::
  "nat \<Rightarrow> sg_pair_record \<Rightarrow> sg_snapshot_memory \<Rightarrow> sg_status \<times> sg_snapshot_memory" where
  "sg_snapshot_write_record snapshot record m =
     (case sg_snapshot_record_mutable snapshot (rec_pair record) m of
        (NULL, m) \<Rightarrow> (SG_ERR_INVALID_ARGUMENT, m)
      | (Ref address, m) \<Rightarrow>
          (SG_OK, sg_record_store address record (sg_snapshot_mark_changed snapshot (rec_pair record) m)))"

definition sg_snapshot_store_write_records ::
  "nat \<Rightarrow> sg_snapshot_memory \<Rightarrow> sg_pair_record list \<Rightarrow> sg_status \<times> sg_snapshot_memory" where
  "sg_snapshot_store_write_records snapshot m records =
     fold_status (sg_snapshot_write_record snapshot) records m"

definition sg_snapshot_store :: "nat \<Rightarrow> sg_snapshot_memory \<Rightarrow> sg_snapshot_memory sg_pair_store" where
  "sg_snapshot_store snapshot m =
     (let s = snapshot_at m snapshot; topology = topology_at m (sn_topology s)
      in \<lparr>st_state_count = tp_state_count topology,
          st_action_count = sg_automaton_action_count (Ref (sn_automaton s)),
          st_pair_count = tp_pair_count topology,
          st_read_records = Ref (sg_snapshot_store_read_records snapshot),
          st_read_outgoing = Ref (sg_snapshot_store_read_outgoing snapshot),
          st_read_incoming = Ref (sg_snapshot_store_read_incoming snapshot),
          st_write_records = Ref (sg_snapshot_store_write_records snapshot)\<rparr>)"

definition sg_pair_snapshot_repair ::
  "nat ptr \<Rightarrow> nat list ptr \<Rightarrow> nat \<Rightarrow> sg_pair_repair_metrics ptr \<Rightarrow> sg_snapshot_memory \<Rightarrow>
     (sg_status \<times> sg_snapshot_memory \<times> sg_pair_repair_metrics ptr) option" where
  "sg_pair_snapshot_repair snapshot seed_pairs repair_budget metrics m =
     (case snapshot of
        NULL \<Rightarrow> Some (SG_ERR_INVALID_ARGUMENT, m, metrics)
      | Ref a \<Rightarrow> sg_pair_store_repair (Ref (sg_snapshot_store a m)) seed_pairs repair_budget metrics m)"

section \<open>The list of changes\<close>

definition sg_pair_snapshot_changed_count :: "nat ptr \<Rightarrow> sg_snapshot_memory \<Rightarrow> nat" where
  "sg_pair_snapshot_changed_count snapshot m =
     (case snapshot of NULL \<Rightarrow> 0 | Ref a \<Rightarrow> length (sn_changed_pairs (snapshot_at m a)))"

text \<open>The array exists once a pair has been marked.\<close>

definition sg_pair_snapshot_changed_pairs :: "nat ptr \<Rightarrow> sg_snapshot_memory \<Rightarrow> nat list ptr" where
  "sg_pair_snapshot_changed_pairs snapshot m =
     (case snapshot of
        NULL \<Rightarrow> NULL
      | Ref a \<Rightarrow> let pairs = sn_changed_pairs (snapshot_at m a) in if pairs = [] then NULL else Ref pairs)"

definition sg_pair_snapshot_clear_changes :: "nat ptr \<Rightarrow> sg_snapshot_memory \<Rightarrow> sg_snapshot_memory" where
  "sg_pair_snapshot_clear_changes snapshot m =
     (case snapshot of
        NULL \<Rightarrow> m
      | Ref a \<Rightarrow> snapshot_update a
                   (Some ((snapshot_at m a)\<lparr>sn_changed := NULL, sn_changed_pairs := []\<rparr>)) m)"

end
