(* ===== verification/Sync_Snapshot_Memory.thy ===== *)
theory Sync_Snapshot_Memory
  imports Sync_Snapshot Sync_Oracle_Tables
begin

text \<open>
  The invariant of the memory of snapshots: every pointer leads to a live object of the right shape,
  and the counter of a chunk or topology is the number of places that point to it. From it follows
  that a write through one snapshot is not seen through another.
\<close>

section \<open>The invariant\<close>

definition live :: "sg_snapshot_memory \<Rightarrow> nat \<Rightarrow> bool" where
  "live m a \<longleftrightarrow> a < length (sm_snapshots m) \<and> sm_snapshots m ! a \<noteq> None"

definition chunk_total :: "nat \<Rightarrow> nat" where
  "chunk_total pairs = pairs div SG_SNAPSHOT_RECORD_CHUNK + (if pairs mod SG_SNAPSHOT_RECORD_CHUNK \<noteq> 0 then 1 else 0)"

definition chunk_size :: "nat \<Rightarrow> nat \<Rightarrow> nat" where
  "chunk_size pairs i = min SG_SNAPSHOT_RECORD_CHUNK (pairs - i * SG_SNAPSHOT_RECORD_CHUNK)"

text \<open>How many slots of live snapshots point to a chunk, and how many live snapshots to a topology.\<close>

definition slot_uses :: "nat \<Rightarrow> sg_pair_snapshot option \<Rightarrow> nat" where
  "slot_uses c s = (case s of None \<Rightarrow> 0 | Some s \<Rightarrow> count_list (sn_chunks s) c)"

definition chunk_uses :: "sg_snapshot_memory \<Rightarrow> nat \<Rightarrow> nat" where
  "chunk_uses m c = sum_list (map (slot_uses c) (sm_snapshots m))"

definition topology_use :: "nat \<Rightarrow> sg_pair_snapshot option \<Rightarrow> nat" where
  "topology_use t s = (case s of None \<Rightarrow> 0 | Some s \<Rightarrow> if sn_topology s = t then 1 else 0)"

definition topology_uses :: "sg_snapshot_memory \<Rightarrow> nat \<Rightarrow> nat" where
  "topology_uses m t = sum_list (map (topology_use t) (sm_snapshots m))"

definition topology_ok :: "nat \<Rightarrow> sg_pair_topology \<Rightarrow> bool" where
  "topology_ok n t \<longleftrightarrow> tp_state_count t = n \<and> tp_pair_count t = n * (n + 1) div 2 \<and> n * (n + 1) \<le> SIZE_MAX \<and>
     tp_first t = map fst (state_pairs n) \<and> tp_second t = map snd (state_pairs n)"

definition reverse_ok :: "sg_pair_snapshot \<Rightarrow> bool" where
  "reverse_ok s \<longleftrightarrow>
     (let A = sn_automaton s; n = au_state_count A; k = au_action_count A
      in sn_reverse_words s = (n + 63) div 64 \<and>
         length (sn_reverse_columns s) = k * n * ((n + 63) div 64) \<and>
         (\<forall>a < k. \<forall>t < n. \<forall>p < n. sg_reverse_has s a t p \<longleftrightarrow> delta A p a = t))"

text \<open>What the pointers of a snapshot lead to.\<close>

definition links_ok :: "sg_snapshot_memory \<Rightarrow> sg_pair_snapshot \<Rightarrow> bool" where
  "links_ok m s \<longleftrightarrow>
     (let pairs = au_state_count (sn_automaton s) * (au_state_count (sn_automaton s) + 1) div 2
      in sn_topology s < length (sm_topologies m) \<and>
         (\<exists>t. sm_topologies m ! sn_topology s = Some t \<and> topology_ok (au_state_count (sn_automaton s)) t) \<and>
         length (sn_chunks s) = chunk_total pairs \<and>
         (\<forall>i < chunk_total pairs. sn_chunks s ! i < length (sm_chunks m) \<and>
            (\<exists>c. sm_chunks m ! (sn_chunks s ! i) = Some c \<and> length (ch_records c) = chunk_size pairs i)))"

definition snapshot_ok :: "sg_snapshot_memory \<Rightarrow> sg_pair_snapshot \<Rightarrow> bool" where
  "snapshot_ok m s \<longleftrightarrow> wf_automaton (sn_automaton s) \<and> 0 < sn_references s \<and> links_ok m s \<and> reverse_ok s \<and>
     (\<forall>changed. sn_changed s = Some changed \<longrightarrow>
        length changed = au_state_count (sn_automaton s) * (au_state_count (sn_automaton s) + 1) div 2)"

definition memory_ok :: "sg_snapshot_memory \<Rightarrow> bool" where
  "memory_ok m \<longleftrightarrow>
     (\<forall>a s. a < length (sm_snapshots m) \<longrightarrow> sm_snapshots m ! a = Some s \<longrightarrow> snapshot_ok m s) \<and>
     (\<forall>c < length (sm_chunks m). case sm_chunks m ! c of
        None \<Rightarrow> chunk_uses m c = 0
      | Some ch \<Rightarrow> 0 < chunk_uses m c \<and> ch_references ch = chunk_uses m c) \<and>
     (\<forall>t < length (sm_topologies m). case sm_topologies m ! t of
        None \<Rightarrow> topology_uses m t = 0
      | Some tp \<Rightarrow> 0 < topology_uses m t \<and> tp_references tp = topology_uses m t)"

lemma memory_okD:
  assumes "memory_ok m"
  shows "live m a \<Longrightarrow> snapshot_ok m (snapshot_at m a)"
    "c < length (sm_chunks m) \<Longrightarrow> sm_chunks m ! c = Some ch \<Longrightarrow> 0 < chunk_uses m c \<and> ch_references ch = chunk_uses m c"
    "c < length (sm_chunks m) \<Longrightarrow> sm_chunks m ! c = None \<Longrightarrow> chunk_uses m c = 0"
    "t < length (sm_topologies m) \<Longrightarrow> sm_topologies m ! t = Some tp \<Longrightarrow> 0 < topology_uses m t \<and> tp_references tp = topology_uses m t"
    "t < length (sm_topologies m) \<Longrightarrow> sm_topologies m ! t = None \<Longrightarrow> topology_uses m t = 0"
  using assms by (auto simp: memory_ok_def live_def split: option.splits)

text \<open>The number of pairs of a snapshot and the record of a pair.\<close>

definition snapshot_pairs :: "sg_pair_snapshot \<Rightarrow> nat" where
  "snapshot_pairs s = au_state_count (sn_automaton s) * (au_state_count (sn_automaton s) + 1) div 2"

definition content :: "sg_snapshot_memory \<Rightarrow> nat \<Rightarrow> nat \<Rightarrow> sg_pair_record" where
  "content m a p =
     ch_records (chunk_at m (sn_chunks (snapshot_at m a) ! (p div SG_SNAPSHOT_RECORD_CHUNK)))
       ! (p mod SG_SNAPSHOT_RECORD_CHUNK)"

section \<open>Counting\<close>

lemma sum_list_map_update:
  fixes f :: "'a \<Rightarrow> nat"
  shows "a < length xs \<Longrightarrow> sum_list (map f (xs[a := y])) + f (xs ! a) = sum_list (map f xs) + f y"
proof (induction xs arbitrary: a)
  case (Cons x xs)
  then show ?case by (cases a) auto
qed simp

lemma count_list_sum: "count_list xs c = sum_list (map (\<lambda>x. if x = c then 1 else 0) xs)"
  by (induction xs) auto

lemma count_list_update:
  "i < length xs \<Longrightarrow> count_list (xs[i := y]) c + (if xs ! i = c then 1 else 0) = count_list xs c + (if y = c then 1 else 0)"
  using sum_list_map_update[of i xs "\<lambda>x. if x = c then 1 else 0" y] by (simp add: count_list_sum)

lemma sum_list_ge:
  fixes f :: "'a \<Rightarrow> nat"
  shows "a < length xs \<Longrightarrow> f (xs ! a) \<le> sum_list (map f xs)"
  by (simp add: member_le_sum_list)

lemma sum_list_ge2:
  fixes f :: "'a \<Rightarrow> nat"
  assumes "a < length xs" "b < length xs" "a \<noteq> b"
  shows "f (xs ! a) + f (xs ! b) \<le> sum_list (map f xs)"
  using assms
proof (induction xs arbitrary: a b)
  case (Cons x xs)
  show ?case
  proof (cases a)
    case 0
    with Cons.prems sum_list_ge[of "b - 1" xs f] show ?thesis by (cases b) auto
  next
    case (Suc a')
    show ?thesis
    proof (cases b)
      case 0
      with Suc Cons.prems sum_list_ge[of a' xs f] show ?thesis by simp
    next
      case (Suc b')
      with \<open>a = Suc a'\<close> Cons.prems Cons.IH[of a' b'] show ?thesis by simp
    qed
  qed
qed simp

lemma slot_uses_simps [simp]:
  "slot_uses c None = 0" "slot_uses c (Some s) = count_list (sn_chunks s) c"
  by (simp_all add: slot_uses_def)

lemma topology_use_simps [simp]:
  "topology_use t None = 0" "topology_use t (Some s) = (if sn_topology s = t then 1 else 0)"
  by (simp_all add: topology_use_def)

lemma live_Some: "live m a \<Longrightarrow> sm_snapshots m ! a = Some (snapshot_at m a)"
  by (auto simp: live_def)

lemma live_uses:
  "live m a \<Longrightarrow> slot_uses c (sm_snapshots m ! a) = count_list (sn_chunks (snapshot_at m a)) c"
  "live m a \<Longrightarrow> topology_use t (sm_snapshots m ! a) = (if sn_topology (snapshot_at m a) = t then 1 else 0)"
  by (auto simp: live_def)

lemma chunk_total_index:
  assumes "p < pairs"
  shows "p div SG_SNAPSHOT_RECORD_CHUNK < chunk_total pairs"
    "p mod SG_SNAPSHOT_RECORD_CHUNK < chunk_size pairs (p div SG_SNAPSHOT_RECORD_CHUNK)"
proof -
  let ?C = SG_SNAPSHOT_RECORD_CHUNK
  have C: "0 < ?C" by (simp add: SG_SNAPSHOT_RECORD_CHUNK_def)
  have p: "p = p div ?C * ?C + p mod ?C" by simp
  have r: "p mod ?C < ?C" using C by simp
  show "p mod ?C < chunk_size pairs (p div ?C)"
    using assms r p unfolding chunk_size_def by (metis add_less_imp_less_left diff_add_inverse less_diff_conv min_less_iff_conj add.commute)
  show "p div ?C < chunk_total pairs"
  proof (cases "pairs mod ?C = 0")
    case True
    then have "pairs = pairs div ?C * ?C" by auto
    with assms C show ?thesis by (simp add: chunk_total_def True) (metis less_mult_imp_div_less)
  next
    case False
    have "p div ?C \<le> pairs div ?C" using assms by (simp add: div_le_mono)
    with False show ?thesis by (simp add: chunk_total_def)
  qed
qed

lemma links_okD:
  assumes "links_ok m s"
  shows "sn_topology s < length (sm_topologies m)"
    "sm_topologies m ! sn_topology s = Some (topology_at m (sn_topology s))"
    "topology_ok (au_state_count (sn_automaton s)) (topology_at m (sn_topology s))"
    "length (sn_chunks s) = chunk_total (snapshot_pairs s)"
    "i < chunk_total (snapshot_pairs s) \<Longrightarrow> sn_chunks s ! i < length (sm_chunks m)"
    "i < chunk_total (snapshot_pairs s) \<Longrightarrow> sm_chunks m ! (sn_chunks s ! i) = Some (chunk_at m (sn_chunks s ! i))"
    "i < chunk_total (snapshot_pairs s) \<Longrightarrow> length (ch_records (chunk_at m (sn_chunks s ! i))) = chunk_size (snapshot_pairs s) i"
  using assms by (auto simp: links_ok_def Let_def snapshot_pairs_def)

lemma snapshot_okD:
  assumes "snapshot_ok m s"
  shows "wf_automaton (sn_automaton s)" "0 < sn_references s" "links_ok m s" "reverse_ok s"
  using assms by (simp_all add: snapshot_ok_def)

lemma topology_pair_count:
  "links_ok m s \<Longrightarrow> tp_pair_count (topology_at m (sn_topology s)) = snapshot_pairs s"
  using links_okD(3) by (simp add: topology_ok_def snapshot_pairs_def)

text \<open>A slot of a live snapshot is among the uses of its chunk.\<close>

lemma slot_in_uses:
  assumes "live m a" "i < length (sn_chunks (snapshot_at m a))"
  shows "0 < count_list (sn_chunks (snapshot_at m a)) (sn_chunks (snapshot_at m a) ! i)"
    "count_list (sn_chunks (snapshot_at m a)) c \<le> chunk_uses m c"
proof -
  show "0 < count_list (sn_chunks (snapshot_at m a)) (sn_chunks (snapshot_at m a) ! i)"
    using assms(2) by (meson count_list_0_iff neq0_conv nth_mem)
  show "count_list (sn_chunks (snapshot_at m a)) c \<le> chunk_uses m c"
    using sum_list_ge[of a "sm_snapshots m" "slot_uses c"] assms(1)
    unfolding live_uses[OF assms(1)] by (simp add: chunk_uses_def live_def)
qed

text \<open>A chunk with one reference is used by one slot.\<close>

lemma count_list_two:
  "i < length xs \<Longrightarrow> j < length xs \<Longrightarrow> i \<noteq> j \<Longrightarrow> xs ! i = xs ! j \<Longrightarrow> 2 \<le> count_list xs (xs ! i)"
proof -
  assume *: "i < length xs" "j < length xs" "i \<noteq> j" "xs ! i = xs ! j"
  have "(if xs ! i = xs ! i then 1 else 0) + (if xs ! j = xs ! i then 1 else 0) \<le>
      sum_list (map (\<lambda>x. if x = xs ! i then 1 else (0::nat)) xs)"
    using sum_list_ge2[of i xs j "\<lambda>x. if x = xs ! i then 1 else 0"] * by simp
  then show ?thesis using *(4) by (simp add: count_list_sum)
qed

lemma unique_slot:
  assumes one: "chunk_uses m (sn_chunks (snapshot_at m a) ! i) = 1"
    and a: "live m a" "i < length (sn_chunks (snapshot_at m a))"
    and b: "live m b" "j < length (sn_chunks (snapshot_at m b))"
    and eq: "sn_chunks (snapshot_at m b) ! j = sn_chunks (snapshot_at m a) ! i"
  shows "b = a \<and> j = i"
proof -
  let ?c = "sn_chunks (snapshot_at m a) ! i"
  have ca: "0 < count_list (sn_chunks (snapshot_at m a)) ?c" by (rule slot_in_uses(1)[OF a])
  have cb: "0 < count_list (sn_chunks (snapshot_at m b)) ?c" using slot_in_uses(1)[OF b] by (simp add: eq)
  have "b = a"
  proof (rule ccontr)
    assume "b \<noteq> a"
    then have "slot_uses ?c (sm_snapshots m ! b) + slot_uses ?c (sm_snapshots m ! a) \<le> chunk_uses m ?c"
      unfolding chunk_uses_def using a(1) b(1) by (intro sum_list_ge2) (auto simp: live_def)
    with ca cb one show False unfolding live_uses[OF a(1)] live_uses[OF b(1)] by linarith
  qed
  moreover have "j = i"
  proof (rule ccontr)
    assume "j \<noteq> i"
    with b(2) eq \<open>b = a\<close> a(2) have "2 \<le> count_list (sn_chunks (snapshot_at m a)) ?c"
      using count_list_two[of i "sn_chunks (snapshot_at m a)" j] by simp
    with slot_in_uses(2)[OF a, of ?c] one show False by simp
  qed
  ultimately show ?thesis by simp
qed

section \<open>Keeping what snapshots point to\<close>

lemma links_ok_keep:
  assumes "links_ok m s"
    and t: "\<And>tp. sm_topologies m ! sn_topology s = Some tp \<Longrightarrow> sn_topology s < length (sm_topologies m) \<Longrightarrow>
        sn_topology s < length (sm_topologies m') \<and>
        (\<exists>r. sm_topologies m' ! sn_topology s = Some (tp\<lparr>tp_references := r\<rparr>))"
    and c: "\<And>i ch. i < length (sn_chunks s) \<Longrightarrow> sn_chunks s ! i < length (sm_chunks m) \<Longrightarrow>
        sm_chunks m ! (sn_chunks s ! i) = Some ch \<Longrightarrow>
        sn_chunks s ! i < length (sm_chunks m') \<and>
        (\<exists>ch'. sm_chunks m' ! (sn_chunks s ! i) = Some ch' \<and> length (ch_records ch') = length (ch_records ch))"
  shows "links_ok m' s"
proof -
  note l = links_okD[OF assms(1)]
  obtain r where "sn_topology s < length (sm_topologies m')"
    "sm_topologies m' ! sn_topology s = Some ((topology_at m (sn_topology s))\<lparr>tp_references := r\<rparr>)"
    using t[OF l(2,1)] by blast
  moreover have "topology_ok n (tp\<lparr>tp_references := r\<rparr>) \<longleftrightarrow> topology_ok n tp" for n tp
    by (simp add: topology_ok_def)
  moreover have "sn_chunks s ! i < length (sm_chunks m') \<and>
      (\<exists>ch'. sm_chunks m' ! (sn_chunks s ! i) = Some ch' \<and> length (ch_records ch') = chunk_size (snapshot_pairs s) i)"
    if "i < chunk_total (snapshot_pairs s)" for i
    using c[OF _ l(5)[OF that] l(6)[OF that]] that l(4) l(7)[OF that] by auto
  ultimately show ?thesis using l(3,4) unfolding links_ok_def Let_def snapshot_pairs_def[symmetric] by simp
qed

text \<open>What \<open>snapshot_ok\<close> says of a snapshot apart from its links.\<close>

definition inner_ok :: "sg_pair_snapshot \<Rightarrow> bool" where
  "inner_ok s \<longleftrightarrow> wf_automaton (sn_automaton s) \<and> 0 < sn_references s \<and> reverse_ok s \<and>
     (\<forall>changed. sn_changed s = Some changed \<longrightarrow> length changed = snapshot_pairs s)"

lemma snapshot_ok_iff: "snapshot_ok m s \<longleftrightarrow> inner_ok s \<and> links_ok m s"
  by (auto simp: snapshot_ok_def inner_ok_def snapshot_pairs_def)

lemma reverse_ok_chunks [simp]:
  "reverse_ok (s\<lparr>sn_chunks := cs\<rparr>) = reverse_ok s" "reverse_ok (s\<lparr>sn_references := r\<rparr>) = reverse_ok s"
  "reverse_ok (s\<lparr>sn_changed := ch\<rparr>) = reverse_ok s" "reverse_ok (s\<lparr>sn_changed_pairs := ps\<rparr>) = reverse_ok s"
  by (simp_all add: reverse_ok_def sg_reverse_has_def sg_reverse_offset_def Let_def)

lemma snapshot_pairs_update [simp]:
  "snapshot_pairs (s\<lparr>sn_chunks := cs\<rparr>) = snapshot_pairs s"
  "snapshot_pairs (s\<lparr>sn_references := r\<rparr>) = snapshot_pairs s"
  "snapshot_pairs (s\<lparr>sn_changed := ch\<rparr>) = snapshot_pairs s"
  "snapshot_pairs (s\<lparr>sn_changed_pairs := ps\<rparr>) = snapshot_pairs s"
  by (simp_all add: snapshot_pairs_def)

lemma links_ok_update [simp]:
  "links_ok m (s\<lparr>sn_references := r\<rparr>) = links_ok m s"
  "links_ok m (s\<lparr>sn_changed := ch\<rparr>) = links_ok m s" "links_ok m (s\<lparr>sn_changed_pairs := ps\<rparr>) = links_ok m s"
  by (simp_all add: links_ok_def Let_def)

lemma inner_ok_chunks [simp]: "inner_ok (s\<lparr>sn_chunks := cs\<rparr>) = inner_ok s"
  by (simp add: inner_ok_def)

section \<open>Copy on write\<close>

text \<open>
  The record of a pair becomes writable: its chunk is used once, and nothing that can be read changes.
\<close>

definition same_view :: "sg_snapshot_memory \<Rightarrow> sg_snapshot_memory \<Rightarrow> bool" where
  "same_view m m' \<longleftrightarrow> sm_topologies m' = sm_topologies m \<and> length (sm_snapshots m') = length (sm_snapshots m) \<and>
     (\<forall>a. live m' a = live m a) \<and>
     (\<forall>a. live m a \<longrightarrow> (\<exists>cs. snapshot_at m' a = (snapshot_at m a)\<lparr>sn_chunks := cs\<rparr>) \<and>
        (\<forall>p < snapshot_pairs (snapshot_at m a). content m' a p = content m a p))"

lemma chunks_update_id: "\<exists>cs. s = s\<lparr>sn_chunks := cs\<rparr>"
  by (rule exI[of _ "sn_chunks s"]) simp

lemma references_update_id: "\<exists>r. t = t\<lparr>tp_references := r\<rparr>"
  by (rule exI[of _ "tp_references t"]) simp

lemma same_view_refl [simp]: "same_view m m"
  by (simp add: same_view_def chunks_update_id)

lemma mutable_copy:
  assumes ok: "memory_ok m" and a: "live m a" and p: "p < snapshot_pairs (snapshot_at m a)"
    and shared: "ch_references (chunk_at m (sn_chunks (snapshot_at m a) ! (p div SG_SNAPSHOT_RECORD_CHUNK))) \<noteq> 1"
    and run: "sg_snapshot_record_mutable a p m = (r, m')"
  shows "let s = snapshot_at m a; i = p div SG_SNAPSHOT_RECORD_CHUNK; old = sn_chunks s ! i; ch = chunk_at m old
    in r = Ref (length (sm_chunks m), p mod SG_SNAPSHOT_RECORD_CHUNK) \<and>
       m' = m\<lparr>sm_chunks := (sm_chunks m)[old := Some (ch\<lparr>ch_references := ch_references ch - 1\<rparr>)] @
                 [Some \<lparr>ch_references = 1, ch_records = ch_records ch\<rparr>],
              sm_snapshots := (sm_snapshots m)[a := Some (s\<lparr>sn_chunks := (sn_chunks s)[i := length (sm_chunks m)]\<rparr>)]\<rparr>"
proof -
  let ?s = "snapshot_at m a" and ?i = "p div SG_SNAPSHOT_RECORD_CHUNK"
  let ?old = "sn_chunks ?s ! ?i"
  have links: "links_ok m ?s" using memory_okD(1)[OF ok a] by (rule snapshot_okD)
  have i: "?i < chunk_total (snapshot_pairs ?s)" by (rule chunk_total_index[OF p])
  have old: "?old < length (sm_chunks m)" "sm_chunks m ! ?old = Some (chunk_at m ?old)"
    by (rule links_okD(5,6)[OF links i])+
  have len: "a < length (sm_snapshots m)" using a by (simp add: live_def)
  have "\<not> p \<ge> tp_pair_count (topology_at m (sn_topology ?s))" using p topology_pair_count[OF links] by simp
  with run shared old len show ?thesis
    by (auto simp: sg_snapshot_record_mutable_def sg_record_chunk_create_def chunk_update_def snapshot_update_def
        sg_record_chunk_release_def Let_def nth_append list_update_append)
qed

lemma chunk_uses_update:
  assumes "live m a" "sm_snapshots m' = (sm_snapshots m)[a := s']"
  shows "chunk_uses m' c + count_list (sn_chunks (snapshot_at m a)) c = chunk_uses m c + slot_uses c s'"
    "topology_uses m' t + (if sn_topology (snapshot_at m a) = t then 1 else 0) = topology_uses m t + topology_use t s'"
  using sum_list_map_update[of a "sm_snapshots m" "slot_uses c" s']
    sum_list_map_update[of a "sm_snapshots m" "topology_use t" s'] assms(1)
  unfolding live_uses[OF assms(1)] by (simp_all add: chunk_uses_def topology_uses_def assms(2) live_def)

lemma memory_okI:
  assumes "\<And>a. live m a \<Longrightarrow> snapshot_ok m (snapshot_at m a)"
    and "\<And>c ch. c < length (sm_chunks m) \<Longrightarrow> sm_chunks m ! c = Some ch \<Longrightarrow> 0 < chunk_uses m c \<and> ch_references ch = chunk_uses m c"
    and "\<And>c. c < length (sm_chunks m) \<Longrightarrow> sm_chunks m ! c = None \<Longrightarrow> chunk_uses m c = 0"
    and "\<And>t tp. t < length (sm_topologies m) \<Longrightarrow> sm_topologies m ! t = Some tp \<Longrightarrow> 0 < topology_uses m t \<and> tp_references tp = topology_uses m t"
    and "\<And>t. t < length (sm_topologies m) \<Longrightarrow> sm_topologies m ! t = None \<Longrightarrow> topology_uses m t = 0"
  shows "memory_ok m"
  using assms by (force simp: memory_ok_def live_def split: option.splits)

text \<open>An address that was never given out is used nowhere.\<close>

lemma fresh_unused:
  assumes ok: "memory_ok m"
  shows "chunk_uses m (length (sm_chunks m)) = 0" "topology_uses m (length (sm_topologies m)) = 0"
proof -
  have "slot_uses (length (sm_chunks m)) (sm_snapshots m ! a) = 0 \<and>
      topology_use (length (sm_topologies m)) (sm_snapshots m ! a) = 0" if "a < length (sm_snapshots m)" for a
  proof (cases "live m a")
    case True
    note l = links_okD[OF snapshot_okD(3)[OF memory_okD(1)[OF ok True]]]
    have "length (sm_chunks m) \<notin> set (sn_chunks (snapshot_at m a))"
    proof
      assume "length (sm_chunks m) \<in> set (sn_chunks (snapshot_at m a))"
      then obtain i where "i < length (sn_chunks (snapshot_at m a))" "sn_chunks (snapshot_at m a) ! i = length (sm_chunks m)"
        by (auto simp: in_set_conv_nth)
      with l(4,5) show False by (metis less_irrefl)
    qed
    with l(1) True show ?thesis by (simp add: live_uses)
  next
    case False
    with that show ?thesis by (auto simp: live_def)
  qed
  then show "chunk_uses m (length (sm_chunks m)) = 0" "topology_uses m (length (sm_topologies m)) = 0"
    by (auto simp: chunk_uses_def topology_uses_def sum_list_eq_0_iff set_conv_nth)
qed

lemma sg_snapshot_record_mutable_ok:
  assumes ok: "memory_ok m" and a: "live m a" and p: "p < snapshot_pairs (snapshot_at m a)"
    and run: "sg_snapshot_record_mutable a p m = (r, m')"
  shows "memory_ok m' \<and> same_view m m' \<and>
    (let c = sn_chunks (snapshot_at m' a) ! (p div SG_SNAPSHOT_RECORD_CHUNK)
     in r = Ref (c, p mod SG_SNAPSHOT_RECORD_CHUNK) \<and> chunk_uses m' c = 1)"
proof -
  define s where "s = snapshot_at m a"
  define i where "i = p div SG_SNAPSHOT_RECORD_CHUNK"
  define old where "old = sn_chunks s ! i"
  define ch where "ch = chunk_at m old"
  have links: "links_ok m s" unfolding s_def by (rule snapshot_okD(3)[OF memory_okD(1)[OF ok a]])
  have i: "i < chunk_total (snapshot_pairs s)" unfolding i_def s_def by (rule chunk_total_index[OF p])
  have il: "i < length (sn_chunks s)" using i links_okD(4)[OF links] by simp
  have old: "old < length (sm_chunks m)" "sm_chunks m ! old = Some ch"
    using links_okD(5,6)[OF links i] by (simp_all add: old_def ch_def)
  note refs = memory_okD(2)[OF ok old]
  show ?thesis
  proof (cases "ch_references ch = 1")
    case True
    have "\<not> p \<ge> tp_pair_count (topology_at m (sn_topology s))" using p topology_pair_count[OF links] by (simp add: s_def)
    with run True have "r = Ref (old, p mod SG_SNAPSHOT_RECORD_CHUNK)" "m' = m"
      by (auto simp: sg_snapshot_record_mutable_def Let_def s_def[symmetric] i_def[symmetric] old_def[symmetric] ch_def[symmetric])
    then show ?thesis using ok refs True by (simp add: Let_def s_def[symmetric] i_def[symmetric] old_def[symmetric])
  next
    case shared: False
    let ?new = "length (sm_chunks m)" and ?s' = "s\<lparr>sn_chunks := (sn_chunks s)[i := length (sm_chunks m)]\<rparr>"
    from mutable_copy[OF ok a p _ run] shared
    have r: "r = Ref (?new, p mod SG_SNAPSHOT_RECORD_CHUNK)"
      and m': "sm_chunks m' = (sm_chunks m)[old := Some (ch\<lparr>ch_references := ch_references ch - 1\<rparr>)] @
          [Some \<lparr>ch_references = 1, ch_records = ch_records ch\<rparr>]"
        "sm_snapshots m' = (sm_snapshots m)[a := Some ?s']" "sm_topologies m' = sm_topologies m"
      by (simp_all add: Let_def s_def i_def old_def ch_def)
    have al: "a < length (sm_snapshots m)" using a by (simp add: live_def)
    have live': "live m' b = live m b" for b using al a by (cases "b = a") (auto simp: live_def m'(2) nth_list_update)
    have at: "snapshot_at m' b = (if b = a then ?s' else snapshot_at m b)" for b
      using al by (simp add: m'(2) nth_list_update)
    have chunk: "c < length (sm_chunks m') \<and> (\<exists>r. sm_chunks m' ! c = Some (x\<lparr>ch_references := r\<rparr>))"
      if "c < length (sm_chunks m)" "sm_chunks m ! c = Some x" for c x
      using that old by (cases "c = old") (auto simp: m'(1) nth_append intro: exI[of _ "ch_references x"])
    have new: "sm_chunks m' ! ?new = Some \<lparr>ch_references = 1, ch_records = ch_records ch\<rparr>" "?new < length (sm_chunks m')"
      by (simp_all add: m'(1) nth_append)
    have uses: "chunk_uses m' c + (if old = c then 1 else 0) = chunk_uses m c + (if ?new = c then 1 else 0)" for c
      using chunk_uses_update(1)[OF a m'(2), of c] count_list_update[OF il, of ?new c]
      by (simp add: s_def[symmetric] old_def[symmetric])
    have tuses: "topology_uses m' t = topology_uses m t" for t
      using chunk_uses_update(2)[OF a m'(2), of t] by (simp add: s_def[symmetric])
    have keep: "links_ok m' x" if "links_ok m x" for x
    proof (rule links_ok_keep[OF that])
      fix tp assume "sm_topologies m ! sn_topology x = Some tp" "sn_topology x < length (sm_topologies m)"
      then show "sn_topology x < length (sm_topologies m') \<and>
          (\<exists>r. sm_topologies m' ! sn_topology x = Some (tp\<lparr>tp_references := r\<rparr>))"
        by (simp add: m'(3)) (rule references_update_id)
    next
      fix j c assume "sn_chunks x ! j < length (sm_chunks m)" "sm_chunks m ! (sn_chunks x ! j) = Some c"
      from chunk[OF this] show "sn_chunks x ! j < length (sm_chunks m') \<and>
          (\<exists>c'. sm_chunks m' ! (sn_chunks x ! j) = Some c' \<and> length (ch_records c') = length (ch_records c))"
        by auto
    qed
    have ok': "memory_ok m'"
    proof (rule memory_okI)
      fix b assume "live m' b"
      then have b: "live m b" by (simp add: live')
      note sok = memory_okD(1)[OF ok b, unfolded snapshot_ok_iff]
      show "snapshot_ok m' (snapshot_at m' b)"
      proof (cases "b = a")
        case False
        with sok keep show ?thesis by (simp add: at snapshot_ok_iff)
      next
        case True
        have "links_ok m' ?s'"
          unfolding links_ok_def Let_def
          using keep[OF links, unfolded links_ok_def Let_def] new il links_okD(7)[OF links i]
          by (auto simp: nth_list_update snapshot_pairs_def ch_def old_def)
        with sok True show ?thesis by (simp add: at snapshot_ok_iff s_def[symmetric])
      qed
    next
      fix c x assume c: "c < length (sm_chunks m')" "sm_chunks m' ! c = Some x"
      show "0 < chunk_uses m' c \<and> ch_references x = chunk_uses m' c"
      proof (cases "c = ?new")
        case True
        with c(2) new uses[of c] fresh_unused(1)[OF ok] old(1) show ?thesis by auto
      next
        case False
        then have cl: "c < length (sm_chunks m)" using c(1) by (simp add: m'(1))
        show ?thesis
        proof (cases "c = old")
          case True
          with c(2) cl have "x = ch\<lparr>ch_references := ch_references ch - 1\<rparr>" by (simp add: m'(1) nth_append)
          with refs shared uses[of c] False True show ?thesis by simp
        next
          case other: False
          with c(2) cl have "sm_chunks m ! c = Some x" by (simp add: m'(1) nth_append)
          with memory_okD(2)[OF ok cl] uses[of c] False other show ?thesis by simp
        qed
      qed
    next
      fix c assume c: "c < length (sm_chunks m')" "sm_chunks m' ! c = None"
      with new have cn: "c \<noteq> ?new" by auto
      then have cl: "c < length (sm_chunks m)" using c(1) by (simp add: m'(1))
      with c(2) old have "c \<noteq> old" "sm_chunks m ! c = None" by (auto simp: m'(1) nth_append nth_list_update split: if_splits)
      with memory_okD(3)[OF ok cl] uses[of c] cn show "chunk_uses m' c = 0" by simp
    qed (use memory_okD(4,5)[OF ok] in \<open>simp_all add: m'(3) tuses\<close>)
    have "content m' b q = content m b q" if b: "live m b" and q: "q < snapshot_pairs (snapshot_at m b)" for b q
    proof -
      let ?j = "q div SG_SNAPSHOT_RECORD_CHUNK"
      note lb = snapshot_okD(3)[OF memory_okD(1)[OF ok b]]
      have j: "?j < chunk_total (snapshot_pairs (snapshot_at m b))" by (rule chunk_total_index[OF q])
      obtain r' where "sm_chunks m' ! (sn_chunks (snapshot_at m b) ! ?j) =
          Some ((chunk_at m (sn_chunks (snapshot_at m b) ! ?j))\<lparr>ch_references := r'\<rparr>)"
        using chunk[OF links_okD(5,6)[OF lb j]] by blast
      with new il show ?thesis
        by (auto simp: content_def at s_def[symmetric] nth_list_update old_def ch_def)
    qed
    moreover have "\<exists>cs. snapshot_at m' b = (snapshot_at m b)\<lparr>sn_chunks := cs\<rparr>" for b
      unfolding at by (cases "b = a") (auto simp: s_def chunks_update_id)
    moreover have "length (sm_snapshots m') = length (sm_snapshots m)" by (simp add: m'(2))
    ultimately have "same_view m m'" using m'(3) live' unfolding same_view_def by blast
    with ok' r uses[of ?new] fresh_unused(1)[OF ok] old(1) il show ?thesis
      by (simp add: Let_def at i_def[symmetric])
  qed
qed

end
