(* ===== verification/Sync_Repair_Eval.thy ===== *)
theory Sync_Repair_Eval
  imports Sync_Repair_Phases "HOL-Library.Sublist"
begin

text \<open>
  The interface between the repair and a store of records: a fixed graph of pairs, a record of every
  pair, and callbacks that answer from them. In this interface an evaluation of src/dynamic.c gives
  each pair the best candidate over its outgoing arcs.
\<close>

section \<open>The best candidate of a pair\<close>

text \<open>
  A graph is the target of every pair and action and whether the outputs of the two states differ.
  The distance through an arc is one more than that of the target, or one where the outputs decide.
\<close>

definition arc_reach ::
  "sg_repair_objective \<Rightarrow> (nat \<Rightarrow> nat \<Rightarrow> nat) \<Rightarrow> (nat \<Rightarrow> nat \<Rightarrow> bool) \<Rightarrow> (nat \<Rightarrow> sg_pair_record) \<Rightarrow>
     nat \<Rightarrow> nat \<Rightarrow> nat option" where
  "arc_reach obj target differ f p a =
     (if obj = SG_REPAIR_RESOLUTION \<and> differ p a then Some 1
      else let d = sg_record_distance (f (target p a)) obj
           in if d = SG_INDEX_NONE then None else Some (d + 1))"

definition no_candidate :: sg_candidate_state where
  "no_candidate = \<lparr>cs_distance = SG_INDEX_NONE, cs_action = SG_INDEX_NONE, cs_target = SG_INDEX_NONE,
     cs_support_count = 0\<rparr>"

text \<open>The smallest distance, the first action with it, its target, and the number of such actions.\<close>

definition best_candidate ::
  "sg_repair_objective \<Rightarrow> (nat \<Rightarrow> nat \<Rightarrow> nat) \<Rightarrow> (nat \<Rightarrow> nat \<Rightarrow> bool) \<Rightarrow> (nat \<Rightarrow> sg_pair_record) \<Rightarrow>
     nat \<Rightarrow> nat \<Rightarrow> sg_candidate_state" where
  "best_candidate obj target differ f k p =
     (let reach = arc_reach obj target differ f p;
          distances = List.map_filter reach [0..<k]
      in if distances = [] then no_candidate
         else let d = Min (set distances); actions = filter (\<lambda>a. reach a = Some d) [0..<k]
              in \<lparr>cs_distance = d, cs_action = hd actions,
                  cs_target = (if obj = SG_REPAIR_RESOLUTION \<and> differ p (hd actions) then SG_INDEX_NONE
                               else target p (hd actions)),
                  cs_support_count = length actions\<rparr>)"

lemma best_candidate_0 [simp]: "best_candidate obj target differ f 0 p = no_candidate"
  by (simp add: best_candidate_def map_filter_simps)

lemma best_candidate_cong:
  assumes "\<And>a. a < k \<Longrightarrow> arc_reach obj target differ f p a = arc_reach obj target differ g p a"
  shows "best_candidate obj target differ f k p = best_candidate obj target differ g k p"
proof -
  have "List.map_filter (arc_reach obj target differ f p) [0..<k] =
      List.map_filter (arc_reach obj target differ g p) [0..<k]"
    unfolding List.map_filter_def using assms by (intro map_cong filter_cong) auto
  moreover have "filter (\<lambda>a. arc_reach obj target differ f p a = Some d) [0..<k] =
      filter (\<lambda>a. arc_reach obj target differ g p a = Some d) [0..<k]" for d
    using assms by (intro filter_cong) auto
  ultimately show ?thesis by (simp add: best_candidate_def Let_def)
qed

lemma map_filter_append [simp]: "List.map_filter f (xs @ ys) = List.map_filter f xs @ List.map_filter f ys"
  by (simp add: List.map_filter_def)

lemma map_filter_Nil [simp]: "List.map_filter f [] = []"
  by (simp add: map_filter_simps)

lemma map_filter_single: "List.map_filter f [x] = (case f x of None \<Rightarrow> [] | Some y \<Rightarrow> [y])"
  by (simp add: map_filter_simps split: option.split)

lemma set_map_filter: "set (List.map_filter f xs) = {y. \<exists>x \<in> set xs. f x = Some y}"
  by (force simp: List.map_filter_def)

text \<open>Adding the next action in order keeps the best candidate.\<close>

lemma sg_candidate_add_best:
  fixes obj target differ f p
  defines "reach \<equiv> arc_reach obj target differ f p"
  assumes small: "\<And>a d. a \<le> k \<Longrightarrow> reach a = Some d \<Longrightarrow> d < SG_INDEX_NONE"
    and add: "sg_candidate_add k (target p k) (case reach k of None \<Rightarrow> SG_INDEX_NONE | Some d \<Rightarrow> d)
      (obj = SG_REPAIR_RESOLUTION \<and> differ p k) (best_candidate obj target differ f k p) = Some best"
  shows "best = best_candidate obj target differ f (Suc k) p"
proof -
  define ds where "ds = List.map_filter reach [0..<k]"
  have ds_Suc: "List.map_filter reach [0..<Suc k] = ds @ (case reach k of None \<Rightarrow> [] | Some d \<Rightarrow> [d])"
    by (simp add: ds_def map_filter_single del: map_filter_simps)
  have best: "best_candidate obj target differ f j p =
     (let distances = List.map_filter reach [0..<j]
      in if distances = [] then no_candidate
         else let d = Min (set distances); actions = filter (\<lambda>a. reach a = Some d) [0..<j]
              in \<lparr>cs_distance = d, cs_action = hd actions,
                  cs_target = (if obj = SG_REPAIR_RESOLUTION \<and> differ p (hd actions) then SG_INDEX_NONE
                               else target p (hd actions)),
                  cs_support_count = length actions\<rparr>)" for j
    by (simp add: best_candidate_def reach_def Let_def)
  show ?thesis
  proof (cases "reach k")
    case None
    then have "best = best_candidate obj target differ f k p" using add by (simp add: sg_candidate_add_def)
    moreover have "best_candidate obj target differ f (Suc k) p = best_candidate obj target differ f k p"
      unfolding best ds_Suc using None by (simp add: ds_def Let_def)
    ultimately show ?thesis by simp
  next
    case (Some d)
    have d: "d < SG_INDEX_NONE" by (rule small[OF order_refl Some])
    have actions_Suc: "filter (\<lambda>a. reach a = Some e) [0..<Suc k] =
        filter (\<lambda>a. reach a = Some e) [0..<k] @ (if e = d then [k] else [])" for e
      using Some by simp
    show ?thesis
    proof (cases "ds = []")
      case True
      then have none: "filter (\<lambda>a. reach a = Some d) [0..<k] = []"
        by (auto simp: ds_def List.map_filter_def filter_empty_conv)
      show ?thesis
        using add d Some True none
        unfolding best ds_Suc
        by (auto simp: ds_def[symmetric] no_candidate_def sg_candidate_add_def Let_def actions_Suc simp del: upt_Suc)
    next
      case False
      define m where "m = Min (set ds)"
      define as where "as = filter (\<lambda>a. reach a = Some m) [0..<k]"
      have min: "m \<in> set ds" "\<And>e. e \<in> set ds \<Longrightarrow> m \<le> e" using False by (auto simp: m_def)
      have as: "as \<noteq> []" "\<And>a. a \<in> set as \<Longrightarrow> a < k"
        using min(1) by (auto simp: as_def ds_def set_map_filter filter_empty_conv)
      have hd: "hd as < k" using as by simp
      have Min_Suc: "Min (set (ds @ [d])) = min m d"
        using False by (simp add: m_def min.commute)
      have next_best: "best_candidate obj target differ f (Suc k) p =
         (let actions = filter (\<lambda>a. reach a = Some (min m d)) [0..<Suc k]
          in \<lparr>cs_distance = min m d, cs_action = hd actions,
              cs_target = (if obj = SG_REPAIR_RESOLUTION \<and> differ p (hd actions) then SG_INDEX_NONE
                           else target p (hd actions)),
              cs_support_count = length actions\<rparr>)"
        unfolding best ds_Suc using False Some Min_Suc by (simp add: Let_def del: upt_Suc)
      have now: "best_candidate obj target differ f k p =
         \<lparr>cs_distance = m, cs_action = hd as,
          cs_target = (if obj = SG_REPAIR_RESOLUTION \<and> differ p (hd as) then SG_INDEX_NONE
                       else target p (hd as)),
          cs_support_count = length as\<rparr>"
        unfolding best using False by (simp add: ds_def[symmetric] m_def as_def Let_def)
      consider "d < m" | "d = m" | "m < d" by linarith
      then show ?thesis
      proof cases
        case 1
        then have "filter (\<lambda>a. reach a = Some d) [0..<k] = []"
          using min(2) by (force simp: ds_def set_map_filter filter_empty_conv)
        then show ?thesis using add Some d 1
          by (auto simp: now sg_candidate_add_def next_best actions_Suc Let_def min_def simp del: upt_Suc)
      next
        case 2
        then show ?thesis using add Some d hd as(1)
          by (auto simp: now sg_candidate_add_def next_best actions_Suc Let_def as_def simp del: upt_Suc split: if_splits)
      next
        case 3
        then show ?thesis using add Some d
          by (auto simp: now sg_candidate_add_def next_best actions_Suc Let_def as_def min_def simp del: upt_Suc)
      qed
    qed
  qed
qed

section \<open>Stores that answer from records\<close>

definition graph_arc :: "(nat \<Rightarrow> nat \<Rightarrow> nat) \<Rightarrow> (nat \<Rightarrow> nat \<Rightarrow> bool) \<Rightarrow> nat \<Rightarrow> nat \<Rightarrow> sg_pair_arc" where
  "graph_arc target differ p a =
     \<lparr>arc_source_pair = p, arc_action = a, arc_target_pair = target p a, arc_outputs_differ = differ p a\<rparr>"

text \<open>What writing records does to the record of every pair.\<close>

definition put_records :: "sg_pair_record list \<Rightarrow> (nat \<Rightarrow> sg_pair_record) \<Rightarrow> nat \<Rightarrow> sg_pair_record" where
  "put_records records f = fold (\<lambda>r g. g(rec_pair r := r)) records f"

lemma put_records_simps [simp]:
  "put_records [] f = f"
  "put_records (r # rs) f = put_records rs (f(rec_pair r := r))"
  by (simp_all add: put_records_def)

lemma put_records_other: "p \<notin> rec_pair ` set rs \<Longrightarrow> put_records rs f p = f p"
  by (induction rs arbitrary: f) auto

lemma put_records_append: "put_records (rs @ rs') f = put_records rs' (put_records rs f)"
  by (simp add: put_records_def)

lemma put_records_in:
  "distinct (map rec_pair rs) \<Longrightarrow> r \<in> set rs \<Longrightarrow> put_records rs f (rec_pair r) = r"
  by (induction rs arbitrary: f) (auto simp: put_records_other)

text \<open>
  The laws of a store: a successful answer is right, writing writes, and no operation leaves the
  invariant of the memory.
\<close>

locale pair_store =
  fixes store :: "'m sg_pair_store"
    and inv :: "'m \<Rightarrow> bool"
    and record_of :: "'m \<Rightarrow> nat \<Rightarrow> sg_pair_record"
    and target :: "nat \<Rightarrow> nat \<Rightarrow> nat"
    and differ :: "nat \<Rightarrow> nat \<Rightarrow> bool"
  assumes small: "inv m \<Longrightarrow> st_pair_count store \<le> SIZE_MAX"
    and rec_pair_record: "inv m \<Longrightarrow> p < st_pair_count store \<Longrightarrow> rec_pair (record_of m p) = p"
    and read_records: "inv m \<Longrightarrow> the (st_read_records store) m ids = Inr rs \<Longrightarrow>
      set ids \<subseteq> {..<st_pair_count store} \<and> rs = map (record_of m) ids"
    and read_outgoing: "inv m \<Longrightarrow> the (st_read_outgoing store) m ids = (SG_OK, arcs) \<Longrightarrow>
      arcs = concat (map (\<lambda>p. map (graph_arc target differ p) [0..<st_action_count store]) ids)"
    and read_incoming: "inv m \<Longrightarrow> the (st_read_incoming store) m ids = (SG_OK, arcs) \<Longrightarrow>
      set arcs = {graph_arc target differ p a |p a.
        p < st_pair_count store \<and> a < st_action_count store \<and> target p a \<in> set ids}"
    and write_records: "inv m \<Longrightarrow> the (st_write_records store) m rs = (status, m') \<Longrightarrow> inv m' \<and>
      (\<exists>done. prefix done rs \<and> record_of m' = put_records done (record_of m) \<and> (status = SG_OK \<longrightarrow> done = rs))"

section \<open>Evaluation\<close>

lemma sg_candidate_of_store [simp]: "sg_candidate_of (sg_candidate_store r obj c) obj = c"
  by (cases c) (simp add: sg_candidate_of_def sg_candidate_store_def sg_record_distance_def)

lemma sg_candidate_store_store [simp]:
  "sg_candidate_store (sg_candidate_store r obj c) obj c' = sg_candidate_store r obj c'"
  by (simp add: sg_candidate_store_def)

lemma sg_record_make_unreachable_eq:
  "sg_record_make_unreachable r obj = sg_candidate_store r obj no_candidate"
  by (simp add: sg_record_make_unreachable_def sg_candidate_store_def no_candidate_def)

lemma sg_record_distance_store [simp]: "sg_record_distance (sg_candidate_store r obj c) obj = cs_distance c"
  by (simp add: sg_record_distance_def sg_candidate_store_def)

lemma rec_pair_candidate_store [simp]: "rec_pair (sg_candidate_store r obj c) = rec_pair r"
  by (simp add: sg_candidate_store_def)

lemma rs_bind_Inr:
  "rs_bind m f s = (Inr y, s') \<longleftrightarrow> (\<exists>x s1. m s = (Inr x, s1) \<and> f x s1 = (Inr y, s'))"
  by (auto simp: rs_bind_def split: prod.splits sum.splits)

lemma rs_bind_InrE [elim!]:
  assumes "rs_bind m f s = (Inr y, s')"
  obtains x s1 where "m s = (Inr x, s1)" "f x s1 = (Inr y, s')"
  using assms by (auto simp: rs_bind_Inr)

lemma rs_lift_Inr [simp]: "rs_lift r s = (Inr y, s') \<longleftrightarrow> r = Inr y \<and> s' = s"
  by (auto simp: rs_lift_def)

text \<open>The record that the evaluation proposes.\<close>

definition evaluated ::
  "'m sg_repair_context \<Rightarrow> sg_repair_objective \<Rightarrow> (nat \<Rightarrow> nat \<Rightarrow> nat) \<Rightarrow> (nat \<Rightarrow> nat \<Rightarrow> bool) \<Rightarrow>
     (nat \<Rightarrow> sg_pair_record) \<Rightarrow> nat \<Rightarrow> sg_pair_record" where
  "evaluated ctx obj target differ f p =
     (if rc_diagonal ctx ! p then sg_record_make_root (f p) obj
      else sg_candidate_store (f p) obj
             (best_candidate obj target differ f (st_action_count (rc_store ctx)) p))"

definition evaluation_start :: "'m sg_repair_context \<Rightarrow> sg_repair_objective \<Rightarrow> (nat \<Rightarrow> sg_pair_record) \<Rightarrow> nat \<Rightarrow> sg_pair_evaluation" where
  "evaluation_start ctx obj f p = \<lparr>pe_current = f p,
     pe_candidate = (if rc_diagonal ctx ! p then sg_record_make_root (f p) obj
                     else sg_candidate_store (f p) obj no_candidate)\<rparr>"

lemma take_Suc_map: "j < length xs \<Longrightarrow> map g (take (Suc j) xs) @ drop (Suc j) ys = (map g (take j xs) @ drop j ys)[j := g (xs ! j)]"
  if "length ys = length xs"
  using that by (simp add: take_Suc_conv_app_nth list_update_append upd_conv_take_nth_drop min_def Cons_nth_drop_Suc[symmetric])

lemma evaluation_start_loop:
  fixes ctx :: "'m sg_repair_context"
  assumes n: "st_pair_count (rc_store ctx) \<le> SIZE_MAX"
    and loop: "fold_res (sg_evaluation_start ctx ids obj) [0..<j]
      (map (\<lambda>p. \<lparr>pe_current = f p, pe_candidate = f p\<rparr>) ids,
       replicate (st_pair_count (rc_store ctx)) SG_INDEX_NONE) = Inr (evs, pos)"
    and j: "j \<le> length ids"
  shows "evs = map (evaluation_start ctx obj f) (take j ids) @ drop j (map (\<lambda>p. \<lparr>pe_current = f p, pe_candidate = f p\<rparr>) ids) \<and>
    distinct (take j ids) \<and> set (take j ids) \<subseteq> {..<st_pair_count (rc_store ctx)} \<and>
    length pos = st_pair_count (rc_store ctx) \<and>
    (\<forall>i < j. pos ! (ids ! i) = i) \<and>
    (\<forall>p < st_pair_count (rc_store ctx). p \<notin> set (take j ids) \<longrightarrow> pos ! p = SG_INDEX_NONE)"
  using loop j
proof (induction j arbitrary: evs pos)
  case (Suc j)
  let ?n = "st_pair_count (rc_store ctx)"
  let ?evs0 = "map (\<lambda>p. \<lparr>pe_current = f p, pe_candidate = f p\<rparr>) ids"
  let ?p = "ids ! j"
  obtain evs1 pos1 where pre: "fold_res (sg_evaluation_start ctx ids obj) [0..<j]
        (?evs0, replicate ?n SG_INDEX_NONE) = Inr (evs1, pos1)"
    and step: "sg_evaluation_start ctx ids obj j (evs1, pos1) = Inr (evs, pos)"
    using Suc.prems(1) by (auto simp: rbind_eq_Inr)
  have j: "j < length ids" "j \<le> length ids" using Suc.prems(2) by simp_all
  from Suc.IH[OF pre j(2)] have IH:
    "evs1 = map (evaluation_start ctx obj f) (take j ids) @ drop j ?evs0"
    "distinct (take j ids)" "set (take j ids) \<subseteq> {..<?n}" "length pos1 = ?n"
    "\<forall>i < j. pos1 ! (ids ! i) = i"
    "\<forall>p < ?n. p \<notin> set (take j ids) \<longrightarrow> pos1 ! p = SG_INDEX_NONE" by blast+
  have at: "evs1 ! j = \<lparr>pe_current = f ?p, pe_candidate = f ?p\<rparr>" using j by (simp add: IH(1) nth_append)
  from step have ok: "?p < ?n" "pos1 ! ?p = SG_INDEX_NONE"
    and evs: "evs = evs1[j := evaluation_start ctx obj f ?p]" and pos: "pos = pos1[?p := j]"
    by (auto simp: sg_evaluation_start_def at Let_def evaluation_start_def sg_record_make_unreachable_eq split: if_splits)
  have "card (set (take j ids)) \<le> ?n"
    using IH(3) card_mono[of "{..<?n}" "set (take j ids)"] by simp
  then have "j \<le> ?n" using IH(2) j by (simp add: distinct_card)
  have new: "?p \<notin> set (take j ids)"
  proof
    assume "?p \<in> set (take j ids)"
    then obtain i where i: "i < j" "ids ! i = ?p" using j by (auto simp: in_set_conv_nth)
    with IH(5) ok(2) have "i = SG_INDEX_NONE" by auto
    with i(1) \<open>j \<le> ?n\<close> n show False by simp
  qed
  have "evs = map (evaluation_start ctx obj f) (take (Suc j) ids) @ drop (Suc j) ?evs0"
    using take_Suc_map[of ?evs0 ids j "evaluation_start ctx obj f"] j by (simp add: evs IH(1))
  moreover have "pos ! (ids ! i) = i" if "i < Suc j" for i
  proof (cases "i = j")
    case False
    with that have "i < j" by simp
    moreover have "ids ! i \<noteq> ?p" using new \<open>i < j\<close> j by (metis in_set_conv_nth length_take min.absorb4 nth_take)
    ultimately show ?thesis using IH(5) by (simp add: pos)
  qed (use ok IH(4) in \<open>simp add: pos\<close>)
  ultimately show ?case using IH(2,3,4,6) ok(1) new j by (auto simp: pos take_Suc_conv_app_nth nth_list_update)
qed (auto simp: n)

lemma check_arcs_targets:
  "fold_res (sg_check_arc ctx pos) arcs (seen, ts) = Inr (seen', ts') \<Longrightarrow> ts' = ts @ map arc_target_pair arcs"
proof (induction arcs arbitrary: seen ts)
  case (Cons arc arcs)
  from Cons.prems obtain seen1 ts1 where step: "sg_check_arc ctx pos arc (seen, ts) = Inr (seen1, ts1)"
    and rest: "fold_res (sg_check_arc ctx pos) arcs (seen1, ts1) = Inr (seen', ts')" by auto
  from step have "ts1 = ts @ [arc_target_pair arc]" by (auto simp: sg_check_arc_def Let_def split: if_splits)
  with Cons.IH[OF rest] show ?case by simp
qed simp

text \<open>The arcs of one pair.\<close>

lemma relax_block:
  assumes "fold_res (sg_relax_arc ctx obj pos)
      (map (\<lambda>a. (graph_arc target differ p a, f (target p a))) [0..<j]) evs = Inr evs'"
    and "i < length evs" "pos ! p = i" "evs ! i = evaluation_start ctx obj f p"
  shows "if rc_diagonal ctx ! p then evs' = evs
    else evs' = evs[i := \<lparr>pe_current = f p, pe_candidate = sg_candidate_store (f p) obj (best_candidate obj target differ f j p)\<rparr>] \<and>
      (\<forall>a < j. \<forall>d. arc_reach obj target differ f p a = Some d \<longrightarrow> d < SG_INDEX_NONE)"
  using assms(1)
proof (induction j arbitrary: evs')
  case 0
  then have "evs' = evs" by simp
  moreover have "evs[i := evaluation_start ctx obj f p] = evs"
    using list_update_id[of evs i] unfolding assms(4) .
  ultimately show ?case by (simp add: evaluation_start_def split: if_splits)
next
  case (Suc j)
  from Suc.prems obtain evs1 where pre: "fold_res (sg_relax_arc ctx obj pos)
        (map (\<lambda>a. (graph_arc target differ p a, f (target p a))) [0..<j]) evs = Inr evs1"
    and step: "sg_relax_arc ctx obj pos (graph_arc target differ p j, f (target p j)) evs1 = Inr evs'"
    by (auto simp: rbind_eq_Inr)
  note IH = Suc.IH[OF pre]
  show ?case
  proof (cases "rc_diagonal ctx ! p")
    case True
    with IH step show ?thesis by (auto simp: sg_relax_arc_def graph_arc_def Let_def split: if_splits)
  next
    case False
    let ?best = "best_candidate obj target differ f"
    let ?reach = "arc_reach obj target differ f p"
    have evs1: "evs1 = evs[i := \<lparr>pe_current = f p, pe_candidate = sg_candidate_store (f p) obj (?best j p)\<rparr>]"
      and small: "\<forall>a < j. \<forall>d. ?reach a = Some d \<longrightarrow> d < SG_INDEX_NONE" using IH False by auto
    have dist: "sg_arc_distance obj (graph_arc target differ p j) (f (target p j)) =
        Inr (case ?reach j of None \<Rightarrow> SG_INDEX_NONE | Some d \<Rightarrow> d, obj = SG_REPAIR_RESOLUTION \<and> differ p j) \<and>
        (\<forall>d. ?reach j = Some d \<longrightarrow> d < SG_INDEX_NONE)"
    proof -
      from step False obtain r where "sg_arc_distance obj (graph_arc target differ p j) (f (target p j)) = Inr r"
        by (auto simp: sg_relax_arc_def graph_arc_def Let_def split: if_splits)
      then show ?thesis
        by (auto simp: sg_arc_distance_def arc_reach_def graph_arc_def Let_def SIZE_MAX_def split: if_splits)
    qed
    from step dist False obtain best where
      add: "sg_candidate_add j (target p j) (case ?reach j of None \<Rightarrow> SG_INDEX_NONE | Some d \<Rightarrow> d)
          (obj = SG_REPAIR_RESOLUTION \<and> differ p j) (?best j p) = Some best"
      and evs': "evs' = evs[i := \<lparr>pe_current = f p, pe_candidate = sg_candidate_store (f p) obj best\<rparr>]"
      using assms(2-4)
      by (auto simp: sg_relax_arc_def graph_arc_def Let_def evs1 split: if_splits option.splits)
    have small': "\<And>a d. a \<le> j \<Longrightarrow> ?reach a = Some d \<Longrightarrow> d < SG_INDEX_NONE"
      using small dist by (metis le_neq_implies_less)
    have "best = ?best (Suc j) p" by (rule sg_candidate_add_best[OF small' add])
    with evs' False small' show ?thesis by (simp add: less_Suc_eq_le)
  qed
qed

text \<open>The arcs of all pairs, block after block.\<close>

definition final_evaluation ::
  "'m sg_repair_context \<Rightarrow> sg_repair_objective \<Rightarrow> (nat \<Rightarrow> nat \<Rightarrow> nat) \<Rightarrow> (nat \<Rightarrow> nat \<Rightarrow> bool) \<Rightarrow>
     (nat \<Rightarrow> sg_pair_record) \<Rightarrow> nat \<Rightarrow> sg_pair_evaluation" where
  "final_evaluation ctx obj target differ f p =
     \<lparr>pe_current = f p, pe_candidate = evaluated ctx obj target differ f p\<rparr>"

lemma relax_blocks:
  fixes ctx :: "'m sg_repair_context"
  defines "k \<equiv> st_action_count (rc_store ctx)"
  assumes "fold_res (sg_relax_arc ctx obj pos)
      (concat (map (\<lambda>p. map (\<lambda>a. (graph_arc target differ p a, f (target p a))) [0..<k]) (take j ids)))
      (map (evaluation_start ctx obj f) ids) = Inr evs"
    and j: "j \<le> length ids" and pos: "\<forall>i < length ids. pos ! (ids ! i) = i"
  shows "evs = map (final_evaluation ctx obj target differ f) (take j ids) @ drop j (map (evaluation_start ctx obj f) ids)"
  using assms(2) j
proof (induction j arbitrary: evs)
  case (Suc j)
  let ?p = "ids ! j"
  let ?block = "\<lambda>p. map (\<lambda>a. (graph_arc target differ p a, f (target p a))) [0..<k]"
  have j: "j < length ids" "j \<le> length ids" using Suc.prems(2) by simp_all
  then obtain evs1 where
    pre: "fold_res (sg_relax_arc ctx obj pos) (concat (map ?block (take j ids)))
      (map (evaluation_start ctx obj f) ids) = Inr evs1"
    and block: "fold_res (sg_relax_arc ctx obj pos) (?block ?p) evs1 = Inr evs"
    using Suc.prems(1) by (auto simp: take_Suc_conv_app_nth rbind_eq_Inr)
  note evs1 = Suc.IH[OF pre j(2)]
  have "evs1 ! j = evaluation_start ctx obj f ?p" "j < length evs1" using j by (simp_all add: evs1 nth_append)
  from relax_block[OF block this(2) _ this(1)] pos j have step:
    "if rc_diagonal ctx ! ?p then evs = evs1
     else evs = evs1[j := \<lparr>pe_current = f ?p,
       pe_candidate = sg_candidate_store (f ?p) obj (best_candidate obj target differ f k ?p)\<rparr>]"
    by (simp split: if_splits)
  have "evs = evs1[j := final_evaluation ctx obj target differ f ?p]"
  proof (cases "rc_diagonal ctx ! ?p")
    case True
    then have "evs1 ! j = final_evaluation ctx obj target differ f ?p"
      using \<open>evs1 ! j = _\<close> by (simp add: evaluation_start_def final_evaluation_def evaluated_def)
    with True step show ?thesis by (metis list_update_id)
  qed (use step in \<open>simp add: final_evaluation_def evaluated_def k_def\<close>)
  then show ?case
    using take_Suc_map[of "map (evaluation_start ctx obj f) ids" ids j "final_evaluation ctx obj target differ f"] j
    by (simp add: evs1)
qed simp

lemma zip_map_same: "zip xs (map h (map g xs)) = map (\<lambda>x. (x, h (g x))) xs"
  by (induction xs) auto

context pair_store
begin

text \<open>What a successful evaluation returns; it changes nothing but the metrics.\<close>

lemma evaluate_pairs_ok:
  assumes ctx: "rc_store ctx = store" and inv: "inv (rp_memory s)"
    and eval: "sg_evaluate_pairs ctx ids obj s = (Inr evs, s')"
  shows "evs = map (final_evaluation ctx obj target differ (record_of (rp_memory s))) ids \<and>
    distinct ids \<and> set ids \<subseteq> {..<st_pair_count store} \<and>
    rp_memory s' = rp_memory s \<and> rp_touched s' = rp_touched s"
proof (cases "ids = []")
  case True
  with eval show ?thesis by (auto simp: sg_evaluate_pairs_def)
next
  case False
  define f where "f = record_of (rp_memory s)"
  define k where "k = st_action_count store"
  let ?evs0 = "map (\<lambda>p. \<lparr>pe_current = f p, pe_candidate = f p\<rparr>) ids"
  from eval False obtain current s1 arcs s2 where
    read1: "rs_read_records ctx ids s = (Inr current, s1)"
    and out: "rs_read_outgoing ctx ids s1 = (Inr arcs, s2)"
    and rest: "(case sg_size_multiply (length ids) (st_action_count (rc_store ctx)) of
          None \<Rightarrow> rs_lift (Inl SG_ERR_INVALID_MODEL)
        | Some expected_arcs \<Rightarrow>
            if length arcs \<noteq> expected_arcs then rs_lift (Inl SG_ERR_INVALID_MODEL)
            else rs_bind (rs_lift (fold_res (sg_evaluation_start ctx ids obj) [0..<length ids]
                   (map (\<lambda>record. \<lparr>pe_current = record, pe_candidate = record\<rparr>) current,
                    replicate (st_pair_count (rc_store ctx)) SG_INDEX_NONE))) (\<lambda>(evaluations, positions).
              rs_bind (rs_lift (fold_res (sg_check_arc ctx positions) arcs
                   (replicate expected_arcs False, []))) (\<lambda>(actions_seen, target_ids).
              rs_bind (rs_read_records ctx target_ids) (\<lambda>targets.
              rs_lift (fold_res (sg_relax_arc ctx obj positions) (zip arcs targets) evaluations))))) s2 = (Inr evs, s')"
    unfolding sg_evaluate_pairs_def if_not_P[OF False] by (elim rs_bind_InrE)
  from rest obtain expected where "length arcs = expected"
    and tail: "rs_bind (rs_lift (fold_res (sg_evaluation_start ctx ids obj) [0..<length ids]
                   (map (\<lambda>record. \<lparr>pe_current = record, pe_candidate = record\<rparr>) current,
                    replicate (st_pair_count (rc_store ctx)) SG_INDEX_NONE))) (\<lambda>(evaluations, positions).
              rs_bind (rs_lift (fold_res (sg_check_arc ctx positions) arcs
                   (replicate expected False, []))) (\<lambda>(actions_seen, target_ids).
              rs_bind (rs_read_records ctx target_ids) (\<lambda>targets.
              rs_lift (fold_res (sg_relax_arc ctx obj positions) (zip arcs targets) evaluations)))) s2 = (Inr evs, s')"
    by (cases "sg_size_multiply (length ids) (st_action_count (rc_store ctx))") (simp_all split: if_splits)
  from tail obtain evs1 pos seen ids' targets where
    start: "fold_res (sg_evaluation_start ctx ids obj) [0..<length ids]
        (map (\<lambda>record. \<lparr>pe_current = record, pe_candidate = record\<rparr>) current,
         replicate (st_pair_count (rc_store ctx)) SG_INDEX_NONE) = Inr (evs1, pos)"
    and check: "fold_res (sg_check_arc ctx pos) arcs (replicate expected False, []) = Inr (seen, ids')"
    and read2': "rs_read_records ctx ids' s2 = (Inr targets, s')"
    and relax: "fold_res (sg_relax_arc ctx obj pos) (zip arcs targets) evs1 = Inr evs"
    by auto
  note read2 = read2'[unfolded check_arcs_targets[OF check] append_Nil]
  have mem: "rp_memory s1 = rp_memory s" "rp_memory s2 = rp_memory s" "rp_memory s' = rp_memory s"
    "rp_touched s' = rp_touched s"
    using read1 out read2 by (auto simp: rs_read_records_def rs_read_outgoing_def Let_def split: prod.splits)
  have cur: "current = map f ids"
    using read_records[OF inv] read1 by (auto simp: rs_read_records_def ctx f_def)
  have arcs: "arcs = concat (map (\<lambda>p. map (graph_arc target differ p) [0..<k]) ids)"
    using read_outgoing[of "rp_memory s1"] inv out
    by (auto simp: rs_read_outgoing_def ctx mem k_def Let_def split: prod.splits if_splits)
  have targets: "targets = map f (map arc_target_pair arcs)"
    using read_records[of "rp_memory s2" "map arc_target_pair arcs" targets] inv read2
    by (simp add: rs_read_records_def ctx mem f_def)
  have started: "evs1 = map (evaluation_start ctx obj f) ids" "distinct ids" "set ids \<subseteq> {..<st_pair_count store}"
      "\<forall>i < length ids. pos ! (ids ! i) = i"
    using evaluation_start_loop[of ctx ids obj "length ids" f evs1 pos] start small[OF inv]
    by (auto simp: cur ctx comp_def)
  have "zip arcs targets =
      concat (map (\<lambda>p. map (\<lambda>a. (graph_arc target differ p a, f (target p a))) [0..<k]) (take (length ids) ids))"
    unfolding targets zip_map_same by (simp add: arcs map_concat comp_def graph_arc_def)
  with relax started have "evs = map (final_evaluation ctx obj target differ f) ids"
    using relax_blocks[where ctx = ctx and j = "length ids" and ids = ids and target = target and differ = differ
        and f = f and obj = obj and pos = pos and evs = evs]
    by (simp add: k_def ctx)
  with started mem show ?thesis by (simp add: f_def)
qed

end

end
