(* ===== verification/Sync_Snapshot_Write.thy ===== *)
theory Sync_Snapshot_Write
  imports Sync_Snapshot_Memory Sync_Repair_Eval
begin

text \<open>
  Writing records through a snapshot: the invariant of the memory is kept, the written pair has the
  new record, and no other pair and no other snapshot is affected.
\<close>

section \<open>The records of a snapshot\<close>

definition snapshot_record :: "sg_snapshot_memory \<Rightarrow> nat \<Rightarrow> nat \<Rightarrow> sg_pair_record" where
  "snapshot_record m a p =
     (if p < snapshot_pairs (snapshot_at m a) then content m a p else sg_pair_record_zero)"

text \<open>What of a snapshot writing records does not change.\<close>

definition snapshot_core :: "sg_pair_snapshot \<Rightarrow> sg_pair_snapshot" where
  "snapshot_core s = s\<lparr>sn_chunks := [], sn_changed := None, sn_changed_pairs := []\<rparr>"

lemma snapshot_core_update [simp]:
  "snapshot_core (s\<lparr>sn_chunks := cs\<rparr>) = snapshot_core s"
  "snapshot_core (s\<lparr>sn_changed := ch\<rparr>) = snapshot_core s"
  "snapshot_core (s\<lparr>sn_changed_pairs := ps\<rparr>) = snapshot_core s"
  by (simp_all add: snapshot_core_def)

lemma snapshot_core_eq:
  assumes "snapshot_core s = snapshot_core s'"
  shows "sn_references s = sn_references s'" "sn_automaton s = sn_automaton s'" "sn_topology s = sn_topology s'"
    "sn_reverse_words s = sn_reverse_words s'" "sn_reverse_columns s = sn_reverse_columns s'"
    "snapshot_pairs s = snapshot_pairs s'"
  using assms by (cases s; cases s'; simp add: snapshot_core_def snapshot_pairs_def)+

text \<open>
  \<open>writes_to a g m m'\<close>: from \<open>m\<close> to \<open>m'\<close> the records of \<open>a\<close> become \<open>g\<close>, the other snapshots keep
  what they had.
\<close>

definition writes_to ::
  "nat \<Rightarrow> (nat \<Rightarrow> sg_pair_record) \<Rightarrow> sg_snapshot_memory \<Rightarrow> sg_snapshot_memory \<Rightarrow> bool" where
  "writes_to a g m m' \<longleftrightarrow> sm_topologies m' = sm_topologies m \<and> (\<forall>b. live m' b = live m b) \<and>
     (\<forall>b. live m b \<longrightarrow> snapshot_core (snapshot_at m' b) = snapshot_core (snapshot_at m b) \<and>
        (b \<noteq> a \<longrightarrow> sn_changed (snapshot_at m' b) = sn_changed (snapshot_at m b) \<and>
           sn_changed_pairs (snapshot_at m' b) = sn_changed_pairs (snapshot_at m b)) \<and>
        snapshot_record m' b = (if b = a then g else snapshot_record m b))"

lemma writes_to_trans:
  "writes_to a g m m1 \<Longrightarrow> writes_to a h m1 m2 \<Longrightarrow> writes_to a h m m2"
  by (auto simp: writes_to_def)

lemma writes_to_refl [simp]: "writes_to a (snapshot_record m a) m m"
  by (simp add: writes_to_def)

lemma same_view_writes:
  assumes "same_view m m'" "live m a"
  shows "writes_to a (snapshot_record m a) m m'"
  unfolding writes_to_def
proof (intro conjI allI impI)
  fix b assume b: "live m b"
  then obtain cs where cs: "snapshot_at m' b = (snapshot_at m b)\<lparr>sn_chunks := cs\<rparr>"
    and same: "\<forall>p < snapshot_pairs (snapshot_at m b). content m' b p = content m b p"
    using assms(1) by (auto simp: same_view_def)
  show "snapshot_core (snapshot_at m' b) = snapshot_core (snapshot_at m b)"
    "sn_changed (snapshot_at m' b) = sn_changed (snapshot_at m b)"
    "sn_changed_pairs (snapshot_at m' b) = sn_changed_pairs (snapshot_at m b)" by (simp_all add: cs)
  have "snapshot_record m' b = snapshot_record m b" using cs same by (auto simp: snapshot_record_def)
  then show "snapshot_record m' b = (if b = a then snapshot_record m a else snapshot_record m b)" by simp
qed (use assms(1) in \<open>auto simp: same_view_def\<close>)

section \<open>Marking a pair as changed\<close>

lemma snapshot_update_same_chunks:
  assumes ok: "memory_ok m" and a: "live m a"
    and s: "sn_chunks s = sn_chunks (snapshot_at m a)" "sn_topology s = sn_topology (snapshot_at m a)"
      "sn_automaton s = sn_automaton (snapshot_at m a) \<or>
       au_state_count (sn_automaton s) = au_state_count (sn_automaton (snapshot_at m a))"
    and inner: "inner_ok s"
  shows "memory_ok (snapshot_update a (Some s) m)"
    "live (snapshot_update a (Some s) m) b = live m b"
    "snapshot_at (snapshot_update a (Some s) m) b = (if b = a then s else snapshot_at m b)"
    "content (snapshot_update a (Some s) m) b p = content m b p"
proof -
  let ?m = "snapshot_update a (Some s) m"
  have al: "a < length (sm_snapshots m)" using a by (simp add: live_def)
  show live: "live ?m b = live m b" for b
    using al a by (cases "b = a") (auto simp: live_def snapshot_update_def nth_list_update)
  show at: "snapshot_at ?m b = (if b = a then s else snapshot_at m b)" for b
    using al by (simp add: snapshot_update_def nth_list_update)
  have chunks: "sm_chunks ?m = sm_chunks m" "sm_topologies ?m = sm_topologies m" by (simp_all add: snapshot_update_def)
  show "content ?m b p = content m b p" by (simp add: content_def at chunks s(1))
  have snaps: "sm_snapshots ?m = (sm_snapshots m)[a := Some s]" by (simp add: snapshot_update_def)
  have uses: "chunk_uses ?m c = chunk_uses m c" "topology_uses ?m t = topology_uses m t" for c t
    using chunk_uses_update[OF a snaps, of c] chunk_uses_update(2)[OF a snaps, of t] s by simp_all
  have links: "links_ok ?m x = links_ok m x" for x by (simp add: links_ok_def chunks)
  show "memory_ok ?m"
  proof (rule memory_okI)
    fix b assume "live ?m b"
    then have sok: "snapshot_ok m (snapshot_at m b)" using memory_okD(1)[OF ok] by (simp add: live)
    show "snapshot_ok ?m (snapshot_at ?m b)"
    proof (cases "b = a")
      case True
      have "links_ok m s" using sok s True by (auto simp: snapshot_ok_iff links_ok_def)
      with inner True show ?thesis by (simp add: snapshot_ok_iff links at)
    qed (use sok in \<open>simp add: snapshot_ok_iff links at\<close>)
  qed (use memory_okD(2-5)[OF ok] in \<open>auto simp: chunks uses\<close>)
qed

lemma mark_changed_ok:
  assumes ok: "memory_ok m" and a: "live m a"
  shows "memory_ok (sg_snapshot_mark_changed a p m)"
    "writes_to a (snapshot_record m a) m (sg_snapshot_mark_changed a p m)"
    "sn_chunks (snapshot_at (sg_snapshot_mark_changed a p m) a) = sn_chunks (snapshot_at m a)"
    "chunk_uses (sg_snapshot_mark_changed a p m) c = chunk_uses m c"
proof -
  define s where "s = snapshot_at m a"
  have links: "links_ok m s" and inner: "inner_ok s"
    using memory_okD(1)[OF ok a] by (auto simp: s_def snapshot_ok_iff)
  define changed where "changed = (case sn_changed s of
      None \<Rightarrow> replicate (tp_pair_count (topology_at m (sn_topology s))) False | Some changed \<Rightarrow> changed)"
  have "length changed = snapshot_pairs s"
    using inner topology_pair_count[OF links] by (auto simp: changed_def inner_ok_def split: option.split)
  then obtain s' where s': "sg_snapshot_mark_changed a p m = snapshot_update a (Some s') m"
    "sn_chunks s' = sn_chunks s" "sn_topology s' = sn_topology s" "sn_automaton s' = sn_automaton s"
    "inner_ok s'" "snapshot_core s' = snapshot_core s"
    using inner by (cases "changed ! p")
      (simp_all add: sg_snapshot_mark_changed_def Let_def s_def[symmetric] changed_def[symmetric] inner_ok_def)
  note u = snapshot_update_same_chunks[OF ok a, of s', unfolded s_def[symmetric], OF s'(2,3) disjI1[OF s'(4)] s'(5), folded s'(1)]
  show "memory_ok (sg_snapshot_mark_changed a p m)" by (rule u(1))
  show "sn_chunks (snapshot_at (sg_snapshot_mark_changed a p m) a) = sn_chunks (snapshot_at m a)"
    by (simp add: u(3) s'(2) s_def)
  have snaps: "sm_snapshots (sg_snapshot_mark_changed a p m) = (sm_snapshots m)[a := Some s']"
    by (simp add: s'(1) snapshot_update_def)
  show "chunk_uses (sg_snapshot_mark_changed a p m) c = chunk_uses m c"
    using chunk_uses_update(1)[OF a snaps, of c] s'(2) by (simp add: s_def)
  have "snapshot_pairs s' = snapshot_pairs s" using s'(4) by (simp add: snapshot_pairs_def)
  then have "snapshot_record (sg_snapshot_mark_changed a p m) b = snapshot_record m b" for b
    by (auto simp: fun_eq_iff snapshot_record_def u(3,4) s_def)
  then show "writes_to a (snapshot_record m a) m (sg_snapshot_mark_changed a p m)"
    using s'(6) by (simp add: writes_to_def u(2,3) s_def) (simp add: s'(1) snapshot_update_def)
qed

section \<open>Storing a record\<close>

lemma record_store_ok:
  assumes ok: "memory_ok m" and a: "live m a" and p: "p < snapshot_pairs (snapshot_at m a)"
    and c: "c = sn_chunks (snapshot_at m a) ! (p div SG_SNAPSHOT_RECORD_CHUNK)" and one: "chunk_uses m c = 1"
  shows "memory_ok (sg_record_store (c, p mod SG_SNAPSHOT_RECORD_CHUNK) r m) \<and>
    writes_to a ((snapshot_record m a)(p := r)) m (sg_record_store (c, p mod SG_SNAPSHOT_RECORD_CHUNK) r m)"
proof -
  let ?C = SG_SNAPSHOT_RECORD_CHUNK
  let ?i = "p div ?C" and ?off = "p mod ?C"
  define m' where "m' = sg_record_store (c, ?off) r m"
  note links = snapshot_okD(3)[OF memory_okD(1)[OF ok a]]
  note i = chunk_total_index[OF p]
  have cl: "c < length (sm_chunks m)" "sm_chunks m ! c = Some (chunk_at m c)"
    "length (ch_records (chunk_at m c)) = chunk_size (snapshot_pairs (snapshot_at m a)) ?i"
    using links_okD(5-7)[OF links i(1)] by (simp_all add: c)
  have il: "?i < length (sn_chunks (snapshot_at m a))" using links_okD(4)[OF links] i by simp
  have m': "sm_chunks m' = (sm_chunks m)[c := Some ((chunk_at m c)\<lparr>ch_records := (ch_records (chunk_at m c))[?off := r]\<rparr>)]"
    "sm_topologies m' = sm_topologies m" "sm_snapshots m' = sm_snapshots m"
    by (simp_all add: m'_def sg_record_store_def chunk_update_def Let_def)
  have live: "live m' b = live m b" for b by (simp add: live_def m')
  have uses: "chunk_uses m' x = chunk_uses m x" "topology_uses m' t = topology_uses m t" for x t
    by (simp_all add: chunk_uses_def topology_uses_def m')
  have keep: "links_ok m' x" if "links_ok m x" for x
  proof (rule links_ok_keep[OF that])
    fix j y assume "sn_chunks x ! j < length (sm_chunks m)" "sm_chunks m ! (sn_chunks x ! j) = Some y"
    then show "sn_chunks x ! j < length (sm_chunks m') \<and>
        (\<exists>c'. sm_chunks m' ! (sn_chunks x ! j) = Some c' \<and> length (ch_records c') = length (ch_records y))"
      using cl by (auto simp: m' nth_list_update)
  qed (simp add: m' references_update_id)
  have "memory_ok m'"
  proof (rule memory_okI)
    fix b assume "live m' b"
    then show "snapshot_ok m' (snapshot_at m' b)"
      using memory_okD(1)[OF ok] keep by (simp add: live snapshot_ok_iff m'(3))
  next
    fix x ch assume "x < length (sm_chunks m')" "sm_chunks m' ! x = Some ch"
    then have "x < length (sm_chunks m) \<and> (\<exists>ch0. sm_chunks m ! x = Some ch0 \<and> ch_references ch = ch_references ch0)"
      using cl by (cases "x = c") (auto simp: m' nth_list_update)
    then show "0 < chunk_uses m' x \<and> ch_references ch = chunk_uses m' x"
      using memory_okD(2)[OF ok] uses by auto
  next
    fix x assume "x < length (sm_chunks m')" "sm_chunks m' ! x = None"
    with cl(1) have "x < length (sm_chunks m)" "sm_chunks m ! x = None"
      by (cases "x = c"; simp add: m')+
    then show "chunk_uses m' x = 0" using memory_okD(3)[OF ok] uses by simp
  qed (use memory_okD(4,5)[OF ok] uses in \<open>simp_all add: m'\<close>)
  moreover have "content m' b q = (if b = a \<and> q = p then r else content m b q)"
    if b: "live m b" and q: "q < snapshot_pairs (snapshot_at m b)" for b q
  proof -
    let ?j = "q div ?C"
    note lb = snapshot_okD(3)[OF memory_okD(1)[OF ok b]]
    have jl: "?j < length (sn_chunks (snapshot_at m b))" using links_okD(4)[OF lb] chunk_total_index(1)[OF q] by simp
    show ?thesis
    proof (cases "sn_chunks (snapshot_at m b) ! ?j = c")
      case False
      then have other: "\<not> (b = a \<and> q = p)" using c by auto
      from False show ?thesis unfolding if_not_P[OF other] by (simp add: content_def m')
    next
      case True
      with unique_slot[OF one[unfolded c] a il b jl] c have eq: "b = a" "?j = ?i" by auto
      have "q = p \<longleftrightarrow> q mod ?C = ?off" using eq(2) by (metis div_mult_mod_eq)
      with True eq cl i(2) show ?thesis by (auto simp: content_def m' nth_list_update)
    qed
  qed
  then have "snapshot_record m' b = (if b = a then (snapshot_record m a)(p := r) else snapshot_record m b)"
    if "live m b" for b
    using that p by (auto simp: snapshot_record_def m'(3))
  ultimately show ?thesis by (simp add: m'_def[symmetric] writes_to_def live m'(2,3))
qed

section \<open>Writing through the store\<close>

lemma sg_snapshot_write_record_ok:
  assumes ok: "memory_ok m" and a: "live m a" and run: "sg_snapshot_write_record a r m = (status, m')"
  shows "memory_ok m' \<and>
    (if rec_pair r < snapshot_pairs (snapshot_at m a)
     then status = SG_OK \<and> writes_to a ((snapshot_record m a)(rec_pair r := r)) m m'
     else status = SG_ERR_INVALID_ARGUMENT \<and> m' = m)"
proof (cases "rec_pair r < snapshot_pairs (snapshot_at m a)")
  case False
  have "links_ok m (snapshot_at m a)" using memory_okD(1)[OF ok a] by (rule snapshot_okD)
  with False run ok show ?thesis
    by (auto simp: sg_snapshot_write_record_def sg_snapshot_record_mutable_def topology_pair_count Let_def)
next
  case True
  obtain ptr m1 where mut: "sg_snapshot_record_mutable a (rec_pair r) m = (ptr, m1)" by fastforce
  let ?c = "sn_chunks (snapshot_at m1 a) ! (rec_pair r div SG_SNAPSHOT_RECORD_CHUNK)"
  from sg_snapshot_record_mutable_ok[OF ok a True mut]
  have ok1: "memory_ok m1" and view: "same_view m m1"
    and ptr: "ptr = Ref (?c, rec_pair r mod SG_SNAPSHOT_RECORD_CHUNK)" and one: "chunk_uses m1 ?c = 1"
    by (auto simp: Let_def)
  note w1 = same_view_writes[OF view a]
  have a1: "live m1 a" using view a by (simp add: same_view_def)
  define m2 where "m2 = sg_snapshot_mark_changed a (rec_pair r) m1"
  note mk = mark_changed_ok[OF ok1 a1, of "rec_pair r", folded m2_def]
  have a2: "live m2 a" using mk(2) a1 by (simp add: writes_to_def)
  have core: "snapshot_core (snapshot_at m2 a) = snapshot_core (snapshot_at m a)"
    and rec: "snapshot_record m2 a = snapshot_record m a"
    using w1 mk(2) a a1 by (auto simp: writes_to_def)
  have p2: "rec_pair r < snapshot_pairs (snapshot_at m2 a)" using True snapshot_core_eq(6)[OF core] by simp
  from run mut ptr have m': "m' = sg_record_store (?c, rec_pair r mod SG_SNAPSHOT_RECORD_CHUNK) r m2" and "status = SG_OK"
    by (auto simp: sg_snapshot_write_record_def m2_def)
  moreover from record_store_ok[OF mk(1) a2 p2, of ?c r] mk(3,4) one
  have "memory_ok m'" "writes_to a ((snapshot_record m a)(rec_pair r := r)) m2 m'"
    by (simp_all add: m' rec)
  moreover have "writes_to a (snapshot_record m a) m m2"
    using w1 mk(2) rec writes_to_trans[OF w1, of "snapshot_record m1 a" m2] by (auto simp: writes_to_def a)
  ultimately show ?thesis using True writes_to_trans by auto
qed

lemma fold_status_Cons_eq:
  "fold_status f (x # xs) s = (status, s') \<longleftrightarrow>
     (\<exists>s1. f x s = (SG_OK, s1) \<and> fold_status f xs s1 = (status, s')) \<or> status \<noteq> SG_OK \<and> f x s = (status, s')"
  by (cases "f x s") auto

lemma write_records_store:
  "memory_ok m \<Longrightarrow> live m a \<Longrightarrow> sg_snapshot_store_write_records a m rs = (status, m') \<Longrightarrow>
   memory_ok m' \<and> (\<exists>done. prefix done rs \<and> writes_to a (put_records done (snapshot_record m a)) m m' \<and>
     (status = SG_OK \<longrightarrow> done = rs))"
proof (induction rs arbitrary: m)
  case Nil
  then show ?case by (auto simp: sg_snapshot_store_write_records_def intro!: exI[of _ "[]"])
next
  case (Cons r rs)
  from Cons.prems(3) consider (step) m1 where "sg_snapshot_write_record a r m = (SG_OK, m1)"
      "sg_snapshot_store_write_records a m1 rs = (status, m')"
    | (stop) "status \<noteq> SG_OK" "sg_snapshot_write_record a r m = (status, m')"
    by (auto simp: sg_snapshot_store_write_records_def fold_status_Cons_eq simp del: fold_status.simps(2))
  then show ?case
  proof cases
    case step
    note w = sg_snapshot_write_record_ok[OF Cons.prems(1,2) step(1)]
    then have w1: "memory_ok m1" "writes_to a ((snapshot_record m a)(rec_pair r := r)) m m1" by (auto split: if_splits)
    have "live m1 a" and rec: "snapshot_record m1 a = (snapshot_record m a)(rec_pair r := r)"
      using w1(2) Cons.prems(2) by (auto simp: writes_to_def)
    from Cons.IH[OF w1(1) this(1) step(2)] obtain ws where "memory_ok m'" "prefix ws rs"
      "writes_to a (put_records ws (snapshot_record m1 a)) m1 m'" "status = SG_OK \<longrightarrow> ws = rs" by blast
    with w1(2) rec writes_to_trans[OF w1(2)] show ?thesis by (auto intro!: exI[of _ "r # ws"])
  next
    case stop
    from sg_snapshot_write_record_ok[OF Cons.prems(1,2) stop(2)] stop(1) have "memory_ok m'" "m' = m"
      by (auto split: if_splits)
    with stop(1) show ?thesis by (intro conjI exI[of _ "[]"]) auto
  qed
qed

end
