(* ===== verification/Sync_Snapshot_Life.thy ===== *)
theory Sync_Snapshot_Life
  imports Sync_Snapshot_Write
begin

text \<open>
  Making, cloning and freeing snapshots. While an operation runs it holds references that no snapshot
  has yet, or no longer: the counters are the uses by snapshots and these references together. Every
  operation that changes a counter changes the references held by one.
\<close>

section \<open>References held by an operation\<close>

definition counted :: "sg_snapshot_memory \<Rightarrow> (nat \<Rightarrow> nat) \<Rightarrow> (nat \<Rightarrow> nat) \<Rightarrow> bool" where
  "counted m ec et \<longleftrightarrow> (\<forall>a. live m a \<longrightarrow> snapshot_ok m (snapshot_at m a)) \<and>
     (\<forall>c. 0 < ec c \<longrightarrow> c < length (sm_chunks m)) \<and> (\<forall>t. 0 < et t \<longrightarrow> t < length (sm_topologies m)) \<and>
     (\<forall>c < length (sm_chunks m). case sm_chunks m ! c of
        None \<Rightarrow> chunk_uses m c + ec c = 0
      | Some ch \<Rightarrow> 0 < chunk_uses m c + ec c \<and> ch_references ch = chunk_uses m c + ec c) \<and>
     (\<forall>t < length (sm_topologies m). case sm_topologies m ! t of
        None \<Rightarrow> topology_uses m t + et t = 0
      | Some tp \<Rightarrow> 0 < topology_uses m t + et t \<and> tp_references tp = topology_uses m t + et t)"

lemma counted_memory_ok: "counted m (\<lambda>_. 0) (\<lambda>_. 0) \<longleftrightarrow> memory_ok m"
  by (auto simp: counted_def memory_ok_def live_def cong: option.case_cong)

lemma countedD:
  assumes "counted m ec et"
  shows "live m a \<Longrightarrow> snapshot_ok m (snapshot_at m a)" "0 < ec c \<Longrightarrow> c < length (sm_chunks m)"
    "0 < et t \<Longrightarrow> t < length (sm_topologies m)"
    "c < length (sm_chunks m) \<Longrightarrow> sm_chunks m ! c = Some ch \<Longrightarrow> 0 < chunk_uses m c + ec c \<and> ch_references ch = chunk_uses m c + ec c"
    "c < length (sm_chunks m) \<Longrightarrow> sm_chunks m ! c = None \<Longrightarrow> chunk_uses m c = 0 \<and> ec c = 0"
    "t < length (sm_topologies m) \<Longrightarrow> sm_topologies m ! t = Some tp \<Longrightarrow> 0 < topology_uses m t + et t \<and> tp_references tp = topology_uses m t + et t"
    "t < length (sm_topologies m) \<Longrightarrow> sm_topologies m ! t = None \<Longrightarrow> topology_uses m t = 0 \<and> et t = 0"
  using assms by (auto simp: counted_def split: option.splits)

lemma countedI:
  assumes "\<And>a. live m a \<Longrightarrow> snapshot_ok m (snapshot_at m a)" "\<And>c. 0 < ec c \<Longrightarrow> c < length (sm_chunks m)"
    "\<And>t. 0 < et t \<Longrightarrow> t < length (sm_topologies m)"
    and "\<And>c ch. c < length (sm_chunks m) \<Longrightarrow> sm_chunks m ! c = Some ch \<Longrightarrow> 0 < chunk_uses m c + ec c \<and> ch_references ch = chunk_uses m c + ec c"
    and "\<And>c. c < length (sm_chunks m) \<Longrightarrow> sm_chunks m ! c = None \<Longrightarrow> chunk_uses m c = 0 \<and> ec c = 0"
    and "\<And>t tp. t < length (sm_topologies m) \<Longrightarrow> sm_topologies m ! t = Some tp \<Longrightarrow> 0 < topology_uses m t + et t \<and> tp_references tp = topology_uses m t + et t"
    and "\<And>t. t < length (sm_topologies m) \<Longrightarrow> sm_topologies m ! t = None \<Longrightarrow> topology_uses m t = 0 \<and> et t = 0"
  shows "counted m ec et"
  using assms by (force simp: counted_def split: option.splits)

text \<open>A held object is allocated, and one that a live snapshot points to has a use besides.\<close>

lemma held_chunk:
  assumes "counted m ec et" "0 < ec c"
  obtains ch where "c < length (sm_chunks m)" "sm_chunks m ! c = Some ch" "ch_references ch = chunk_uses m c + ec c"
  using countedD(2,4,5)[OF assms(1)] assms(2) by (cases "sm_chunks m ! c") (metis less_irrefl, metis)

lemma held_topology:
  assumes "counted m ec et" "0 < et t"
  obtains tp where "t < length (sm_topologies m)" "sm_topologies m ! t = Some tp" "tp_references tp = topology_uses m t + et t"
  using countedD(3,6,7)[OF assms(1)] assms(2) by (cases "sm_topologies m ! t") (metis less_irrefl, metis)

lemma used_chunk:
  assumes "live m a" "i < length (sn_chunks (snapshot_at m a))"
  shows "0 < chunk_uses m (sn_chunks (snapshot_at m a) ! i)"
  using slot_in_uses(1)[OF assms] slot_in_uses(2)[OF assms, of "sn_chunks (snapshot_at m a) ! i"] by linarith

lemma used_topology:
  assumes "live m a"
  shows "0 < topology_uses m (sn_topology (snapshot_at m a))"
  using sum_list_ge[of a "sm_snapshots m" "topology_use (sn_topology (snapshot_at m a))"] assms
  unfolding live_uses(2)[OF assms] by (simp add: topology_uses_def live_def)

section \<open>Chunks\<close>

text \<open>Replacing a chunk by one with the same records and another counter, or by nothing if it is unused.\<close>

lemma counted_chunk_update:
  assumes ct: "counted m ec et" and c: "c < length (sm_chunks m)" "sm_chunks m ! c = Some ch"
    and n: "chunk_uses m c + e = n"
    and x: "x = (if n = 0 then None else Some (ch\<lparr>ch_references := n\<rparr>))"
  shows "counted (chunk_update c x m) (ec(c := e)) et"
proof -
  define m' where "m' = chunk_update c x m"
  have m: "sm_chunks m' = (sm_chunks m)[c := x]" "sm_topologies m' = sm_topologies m" "sm_snapshots m' = sm_snapshots m"
    by (simp_all add: m'_def chunk_update_def)
  have live: "live m' b = live m b" for b by (simp add: live_def m)
  have uses: "chunk_uses m' d = chunk_uses m d" "topology_uses m' t = topology_uses m t" for d t
    by (simp_all add: chunk_uses_def topology_uses_def m)
  have "counted m' (ec(c := e)) et"
  proof (rule countedI)
    fix b assume "live m' b"
    then have b: "live m b" by (simp add: live)
    note sok = countedD(1)[OF ct b, unfolded snapshot_ok_iff]
    have "links_ok m' (snapshot_at m b)"
    proof (rule links_ok_keep[OF conjunct2[OF sok]])
      fix i d assume i: "i < length (sn_chunks (snapshot_at m b))" and d: "sn_chunks (snapshot_at m b) ! i < length (sm_chunks m)"
        "sm_chunks m ! (sn_chunks (snapshot_at m b) ! i) = Some d"
      have "0 < chunk_uses m (sn_chunks (snapshot_at m b) ! i)" by (rule used_chunk[OF b i])
      then have "sn_chunks (snapshot_at m b) ! i = c \<Longrightarrow> x = Some (ch\<lparr>ch_references := n\<rparr>)" using n x by auto
      with d c show "sn_chunks (snapshot_at m b) ! i < length (sm_chunks m') \<and>
          (\<exists>d'. sm_chunks m' ! (sn_chunks (snapshot_at m b) ! i) = Some d' \<and> length (ch_records d') = length (ch_records d))"
        by (cases "sn_chunks (snapshot_at m b) ! i = c") (auto simp: m)
    qed (simp add: m references_update_id)
    with sok show "snapshot_ok m' (snapshot_at m' b)" by (simp add: snapshot_ok_iff m(3))
  next
    fix d dh assume "d < length (sm_chunks m')" "sm_chunks m' ! d = Some dh"
    then show "0 < chunk_uses m' d + (ec(c := e)) d \<and> ch_references dh = chunk_uses m' d + (ec(c := e)) d"
      using countedD(4)[OF ct, of d] c n x by (cases "d = c") (auto simp: uses m split: if_splits)
  next
    fix d assume "d < length (sm_chunks m')" "sm_chunks m' ! d = None"
    then show "chunk_uses m' d = 0 \<and> (ec(c := e)) d = 0"
      using countedD(5)[OF ct, of d] c n x by (cases "d = c") (auto simp: uses m split: if_splits)
  qed (use countedD(2,3,6,7)[OF ct] c in \<open>auto simp: m uses split: if_splits\<close>)
  then show ?thesis by (simp only: m'_def)
qed

lemma counted_chunk_retain:
  assumes ct: "counted m ec et" and c: "c < length (sm_chunks m)" "sm_chunks m ! c = Some ch"
  shows "counted (sg_record_chunk_retain c m) (ec(c := ec c + 1)) et"
proof -
  have "ch_references ch = chunk_uses m c + ec c" using countedD(4)[OF ct c] by simp
  then have "sg_record_chunk_retain c m = chunk_update c (Some (ch\<lparr>ch_references := chunk_uses m c + (ec c + 1)\<rparr>)) m"
    by (simp add: sg_record_chunk_retain_def c(2) Let_def)
  then show ?thesis using counted_chunk_update[OF ct c refl, of _ "ec c + 1"] by simp
qed

lemma counted_chunk_release:
  assumes ct: "counted m ec et" and held: "0 < ec c"
  shows "counted (sg_record_chunk_release c m) (ec(c := ec c - 1)) et"
proof -
  obtain ch where c: "c < length (sm_chunks m)" "sm_chunks m ! c = Some ch" "ch_references ch = chunk_uses m c + ec c"
    using held_chunk[OF assms] .
  have "sg_record_chunk_release c m = chunk_update c
      (if chunk_uses m c + (ec c - 1) = 0 then None else Some (ch\<lparr>ch_references := chunk_uses m c + (ec c - 1)\<rparr>)) m"
    using held by (auto simp: sg_record_chunk_release_def c(2,3) Let_def)
  then show ?thesis using counted_chunk_update[OF ct c(1,2) refl refl, of "ec c - 1"] by simp
qed

lemma counted_cong: "counted m ec et \<Longrightarrow> (\<And>c. ec c = ec' c) \<Longrightarrow> (\<And>t. et t = et' t) \<Longrightarrow> counted m ec' et'"
proof -
  assume ct: "counted m ec et" and "\<And>c. ec c = ec' c" "\<And>t. et t = et' t"
  then have "ec = ec'" "et = et'" by (simp_all add: fun_eq_iff)
  with ct show ?thesis by simp
qed

lemma counted_release_chunks:
  "counted m ec et \<Longrightarrow> (\<And>c. count_list cs c \<le> ec c) \<Longrightarrow>
   counted (fold sg_record_chunk_release cs m) (\<lambda>c. ec c - count_list cs c) et"
proof (induction cs arbitrary: m ec)
  case (Cons c cs)
  have "0 < ec c" using Cons.prems(2)[of c] by simp
  from counted_chunk_release[OF Cons.prems(1) this]
  have "counted (sg_record_chunk_release c m) (ec(c := ec c - 1)) et" .
  moreover have "count_list cs d \<le> (ec(c := ec c - 1)) d" for d
    using Cons.prems(2)[of d] by (cases "d = c") auto
  ultimately have "counted (fold sg_record_chunk_release cs (sg_record_chunk_release c m))
      (\<lambda>d. (ec(c := ec c - 1)) d - count_list cs d) et" by (rule Cons.IH)
  then show ?case by (simp, elim counted_cong) auto
qed simp

lemma chunk_retain_keeps:
  "c < length (sm_chunks m) \<Longrightarrow> sm_chunks m ! c = Some ch \<Longrightarrow>
   c < length (sm_chunks (sg_record_chunk_retain d m)) \<and> (\<exists>ch'. sm_chunks (sg_record_chunk_retain d m) ! c = Some ch')"
  by (cases "c = d") (simp_all add: sg_record_chunk_retain_def chunk_update_def Let_def)

lemma counted_retain_chunks:
  "counted m ec et \<Longrightarrow> (\<And>c. c \<in> set cs \<Longrightarrow> c < length (sm_chunks m) \<and> (\<exists>ch. sm_chunks m ! c = Some ch)) \<Longrightarrow>
   counted (fold sg_record_chunk_retain cs m) (\<lambda>c. ec c + count_list cs c) et"
proof (induction cs arbitrary: m ec)
  case (Cons c cs)
  obtain ch where c: "c < length (sm_chunks m)" "sm_chunks m ! c = Some ch" using Cons.prems(2)[of c] by auto
  have "counted (fold sg_record_chunk_retain cs (sg_record_chunk_retain c m))
      (\<lambda>d. (ec(c := ec c + 1)) d + count_list cs d) et"
  proof (rule Cons.IH[OF counted_chunk_retain[OF Cons.prems(1) c]])
    fix d assume "d \<in> set cs"
    then obtain dh where "d < length (sm_chunks m)" "sm_chunks m ! d = Some dh" using Cons.prems(2)[of d] by auto
    then show "d < length (sm_chunks (sg_record_chunk_retain c m)) \<and> (\<exists>ch. sm_chunks (sg_record_chunk_retain c m) ! d = Some ch)"
      by (rule chunk_retain_keeps)
  qed
  then show ?case by (simp, elim counted_cong) auto
qed simp

section \<open>New objects\<close>

text \<open>Growing the memory leaves what it has.\<close>

lemma links_ok_grow:
  assumes "links_ok m s" "sm_chunks m' = sm_chunks m @ cs" "sm_topologies m' = sm_topologies m @ ts"
  shows "links_ok m' s"
proof (rule links_ok_keep[OF assms(1)])
  fix tp assume "sm_topologies m ! sn_topology s = Some tp" "sn_topology s < length (sm_topologies m)"
  then show "sn_topology s < length (sm_topologies m') \<and> (\<exists>r. sm_topologies m' ! sn_topology s = Some (tp\<lparr>tp_references := r\<rparr>))"
    by (simp add: assms(3) nth_append references_update_id)
qed (simp add: assms(2) nth_append)

lemma counted_unused:
  assumes ct: "counted m ec et"
  shows "chunk_uses m (length (sm_chunks m)) = 0" "topology_uses m (length (sm_topologies m)) = 0"
    "ec (length (sm_chunks m)) = 0" "et (length (sm_topologies m)) = 0"
proof -
  have "slot_uses (length (sm_chunks m)) (sm_snapshots m ! a) = 0 \<and>
      topology_use (length (sm_topologies m)) (sm_snapshots m ! a) = 0" if "a < length (sm_snapshots m)" for a
  proof (cases "live m a")
    case True
    note l = links_okD[OF snapshot_okD(3)[OF countedD(1)[OF ct True]]]
    have "length (sm_chunks m) \<notin> set (sn_chunks (snapshot_at m a))"
      using l(4,5) by (metis in_set_conv_nth less_irrefl)
    with l(1) True show ?thesis by (simp add: live_uses)
  qed (use that in \<open>auto simp: live_def\<close>)
  then show "chunk_uses m (length (sm_chunks m)) = 0" "topology_uses m (length (sm_topologies m)) = 0"
    by (auto simp: chunk_uses_def topology_uses_def sum_list_eq_0_iff set_conv_nth)
  show "ec (length (sm_chunks m)) = 0" "et (length (sm_topologies m)) = 0"
    using countedD(2)[OF ct, of "length (sm_chunks m)"] countedD(3)[OF ct, of "length (sm_topologies m)"] by auto
qed

lemma counted_chunk_create:
  assumes ct: "counted m ec et" and run: "sg_record_chunk_create n m = (a, m')"
  shows "counted m' (ec(a := 1)) et \<and> a = length (sm_chunks m) \<and> sm_snapshots m' = sm_snapshots m \<and>
    sm_topologies m' = sm_topologies m \<and>
    sm_chunks m' = sm_chunks m @ [Some \<lparr>ch_references = 1, ch_records = replicate n sg_pair_record_zero\<rparr>]"
proof -
  have m': "a = length (sm_chunks m)" "sm_snapshots m' = sm_snapshots m" "sm_topologies m' = sm_topologies m"
    "sm_chunks m' = sm_chunks m @ [Some \<lparr>ch_references = 1, ch_records = replicate n sg_pair_record_zero\<rparr>]"
    using run by (auto simp: sg_record_chunk_create_def)
  have live: "live m' b = live m b" for b by (simp add: live_def m')
  have uses: "chunk_uses m' d = chunk_uses m d" "topology_uses m' t = topology_uses m t" for d t
    by (simp_all add: chunk_uses_def topology_uses_def m')
  note fresh = counted_unused[OF ct]
  have "counted m' (ec(a := 1)) et"
  proof (rule countedI)
    fix b assume "live m' b"
    then have "snapshot_ok m (snapshot_at m b)" using countedD(1)[OF ct] by (simp add: live)
    then show "snapshot_ok m' (snapshot_at m' b)"
      using links_ok_grow[of m "snapshot_at m b" m'] by (simp add: snapshot_ok_iff m')
  next
    fix d dh assume "d < length (sm_chunks m')" "sm_chunks m' ! d = Some dh"
    then show "0 < chunk_uses m' d + (ec(a := 1)) d \<and> ch_references dh = chunk_uses m' d + (ec(a := 1)) d"
      using countedD(4)[OF ct, of d] fresh(1) by (auto simp: uses m' nth_append split: if_splits)
  next
    fix d assume "d < length (sm_chunks m')" "sm_chunks m' ! d = None"
    then show "chunk_uses m' d = 0 \<and> (ec(a := 1)) d = 0"
      using countedD(5)[OF ct, of d] by (auto simp: uses m' nth_append split: if_splits)
  next
    fix d assume "0 < (ec(a := 1)) d"
    then show "d < length (sm_chunks m')" using countedD(2)[OF ct, of d] by (auto simp: m' split: if_splits)
  qed (use countedD(3,6,7)[OF ct] in \<open>auto simp: m' uses\<close>)
  with m' show ?thesis by simp
qed

text \<open>A new snapshot takes over references that the operation held.\<close>

lemma counted_snapshot_create:
  assumes ct: "counted m ec et" and run: "sg_snapshot_create s m = (a, m')"
    and s: "inner_ok s" "links_ok m s"
    and held: "\<And>c. count_list (sn_chunks s) c \<le> ec c" "0 < et (sn_topology s)"
  shows "counted m' (\<lambda>c. ec c - count_list (sn_chunks s) c) (et(sn_topology s := et (sn_topology s) - 1)) \<and>
    a = length (sm_snapshots m) \<and> sm_chunks m' = sm_chunks m \<and> sm_topologies m' = sm_topologies m \<and>
    sm_snapshots m' = sm_snapshots m @ [Some s]"
proof -
  have m': "a = length (sm_snapshots m)" "sm_chunks m' = sm_chunks m" "sm_topologies m' = sm_topologies m"
    "sm_snapshots m' = sm_snapshots m @ [Some s]"
    using run by (auto simp: sg_snapshot_create_def)
  have links: "links_ok m' x = links_ok m x" for x by (simp add: links_ok_def m')
  have uses: "chunk_uses m' c = chunk_uses m c + count_list (sn_chunks s) c"
    "topology_uses m' t = topology_uses m t + (if sn_topology s = t then 1 else 0)" for c t
    by (simp_all add: chunk_uses_def topology_uses_def m')
  have "counted m' (\<lambda>c. ec c - count_list (sn_chunks s) c) (et(sn_topology s := et (sn_topology s) - 1))"
  proof (rule countedI)
    fix b assume b: "live m' b"
    show "snapshot_ok m' (snapshot_at m' b)"
    proof (cases "b = a")
      case True
      with s show ?thesis by (simp add: snapshot_ok_iff links m')
    next
      case False
      with b have "live m b" "snapshot_at m' b = snapshot_at m b" by (auto simp: live_def m' nth_append split: if_splits)
      with countedD(1)[OF ct, of b] show ?thesis by (simp add: snapshot_ok_iff links)
    qed
  next
    fix c ch assume "c < length (sm_chunks m')" "sm_chunks m' ! c = Some ch"
    then show "0 < chunk_uses m' c + (ec c - count_list (sn_chunks s) c) \<and>
        ch_references ch = chunk_uses m' c + (ec c - count_list (sn_chunks s) c)"
      using countedD(4)[OF ct, of c] held(1)[of c] by (auto simp: uses m')
  next
    fix c assume "c < length (sm_chunks m')" "sm_chunks m' ! c = None"
    then show "chunk_uses m' c = 0 \<and> ec c - count_list (sn_chunks s) c = 0"
      using countedD(5)[OF ct, of c] held(1)[of c] by (auto simp: uses m')
  next
    fix t tp assume "t < length (sm_topologies m')" "sm_topologies m' ! t = Some tp"
    then show "0 < topology_uses m' t + (et(sn_topology s := et (sn_topology s) - 1)) t \<and>
        tp_references tp = topology_uses m' t + (et(sn_topology s := et (sn_topology s) - 1)) t"
      using countedD(6)[OF ct, of t] held(2) by (auto simp: uses m')
  next
    fix t assume "t < length (sm_topologies m')" "sm_topologies m' ! t = None"
    then show "topology_uses m' t = 0 \<and> (et(sn_topology s := et (sn_topology s) - 1)) t = 0"
      using countedD(7)[OF ct, of t] held(2) by (auto simp: uses m')
  qed (use countedD(2,3)[OF ct] held(2) in \<open>auto simp: m' split: if_splits\<close>)
  with m' show ?thesis by simp
qed

text \<open>A snapshot that is freed gives its references to the operation.\<close>

lemma counted_drop:
  assumes ct: "counted m ec et" and a: "live m a"
  defines "s \<equiv> snapshot_at m a"
  shows "counted (snapshot_update a None m) (\<lambda>c. ec c + count_list (sn_chunks s) c) (et(sn_topology s := et (sn_topology s) + 1))"
proof -
  let ?m = "snapshot_update a None m"
  have m: "sm_chunks ?m = sm_chunks m" "sm_topologies ?m = sm_topologies m" "sm_snapshots ?m = (sm_snapshots m)[a := None]"
    by (simp_all add: snapshot_update_def)
  have links: "links_ok ?m x = links_ok m x" for x by (simp add: links_ok_def m)
  have uses: "chunk_uses ?m c + count_list (sn_chunks s) c = chunk_uses m c"
    "topology_uses ?m t + (if sn_topology s = t then 1 else 0) = topology_uses m t" for c t
    using chunk_uses_update[OF a m(3)] by (simp_all add: s_def)
  have tl: "sn_topology s < length (sm_topologies m)" and cl: "c \<in> set (sn_chunks s) \<Longrightarrow> c < length (sm_chunks m)" for c
    using links_okD(1,4,5)[OF snapshot_okD(3)[OF countedD(1)[OF ct a]]] by (auto simp: s_def in_set_conv_nth)
  show ?thesis
  proof (rule countedI)
    fix b assume b: "live ?m b"
    then have "b \<noteq> a" "live m b" using a by (auto simp: live_def m nth_list_update split: if_splits)
    with countedD(1)[OF ct, of b] show "snapshot_ok ?m (snapshot_at ?m b)" by (simp add: snapshot_ok_iff links m)
  next
    fix c ch assume "c < length (sm_chunks ?m)" "sm_chunks ?m ! c = Some ch"
    then show "0 < chunk_uses ?m c + (ec c + count_list (sn_chunks s) c) \<and>
        ch_references ch = chunk_uses ?m c + (ec c + count_list (sn_chunks s) c)"
      using countedD(4)[OF ct, of c] uses(1)[of c] by (auto simp: m)
  next
    fix c assume "c < length (sm_chunks ?m)" "sm_chunks ?m ! c = None"
    then show "chunk_uses ?m c = 0 \<and> ec c + count_list (sn_chunks s) c = 0"
      using countedD(5)[OF ct, of c] uses(1)[of c] by (auto simp: m)
  next
    fix t tp assume "t < length (sm_topologies ?m)" "sm_topologies ?m ! t = Some tp"
    then show "0 < topology_uses ?m t + (et(sn_topology s := et (sn_topology s) + 1)) t \<and>
        tp_references tp = topology_uses ?m t + (et(sn_topology s := et (sn_topology s) + 1)) t"
      using countedD(6)[OF ct, of t] uses(2)[of t] by (auto simp: m split: if_splits)
  next
    fix t assume "t < length (sm_topologies ?m)" "sm_topologies ?m ! t = None"
    then show "topology_uses ?m t = 0 \<and> (et(sn_topology s := et (sn_topology s) + 1)) t = 0"
      using countedD(7)[OF ct, of t] uses(2)[of t] by (auto simp: m split: if_splits)
  next
    fix c assume "0 < ec c + count_list (sn_chunks s) c"
    then have "0 < ec c \<or> c \<in> set (sn_chunks s)" by (auto simp: count_list_0_iff intro: ccontr)
    then show "c < length (sm_chunks ?m)" using countedD(2)[OF ct] cl by (auto simp: m)
  qed (use countedD(3)[OF ct] tl in \<open>auto simp: m split: if_splits\<close>)
qed

section \<open>Topologies\<close>

lemma counted_topology_update:
  assumes ct: "counted m ec et" and t: "t < length (sm_topologies m)" "sm_topologies m ! t = Some tp"
    and n: "topology_uses m t + e = n"
    and x: "x = (if n = 0 then None else Some (tp\<lparr>tp_references := n\<rparr>))"
  shows "counted (topology_update t x m) ec (et(t := e))"
proof -
  define m' where "m' = topology_update t x m"
  have m: "sm_chunks m' = sm_chunks m" "sm_topologies m' = (sm_topologies m)[t := x]" "sm_snapshots m' = sm_snapshots m"
    by (simp_all add: m'_def topology_update_def)
  have live: "live m' b = live m b" for b by (simp add: live_def m)
  have uses: "chunk_uses m' c = chunk_uses m c" "topology_uses m' u = topology_uses m u" for c u
    by (simp_all add: chunk_uses_def topology_uses_def m)
  have "counted m' ec (et(t := e))"
  proof (rule countedI)
    fix b assume "live m' b"
    then have b: "live m b" by (simp add: live)
    note sok = countedD(1)[OF ct b, unfolded snapshot_ok_iff]
    have "links_ok m' (snapshot_at m b)"
    proof (rule links_ok_keep[OF conjunct2[OF sok]])
      fix u assume u: "sm_topologies m ! sn_topology (snapshot_at m b) = Some u" "sn_topology (snapshot_at m b) < length (sm_topologies m)"
      have "0 < topology_uses m (sn_topology (snapshot_at m b))" by (rule used_topology[OF b])
      then have "sn_topology (snapshot_at m b) = t \<Longrightarrow> x = Some (tp\<lparr>tp_references := n\<rparr>)" using n x by auto
      with u t show "sn_topology (snapshot_at m b) < length (sm_topologies m') \<and>
          (\<exists>r. sm_topologies m' ! sn_topology (snapshot_at m b) = Some (u\<lparr>tp_references := r\<rparr>))"
        by (cases "sn_topology (snapshot_at m b) = t") (auto simp: m references_update_id)
    qed (simp add: m)
    with sok show "snapshot_ok m' (snapshot_at m' b)" by (simp add: snapshot_ok_iff m(3))
  next
    fix u up assume "u < length (sm_topologies m')" "sm_topologies m' ! u = Some up"
    then show "0 < topology_uses m' u + (et(t := e)) u \<and> tp_references up = topology_uses m' u + (et(t := e)) u"
      using countedD(6)[OF ct, of u] t n x by (cases "u = t") (auto simp: uses m split: if_splits)
  next
    fix u assume "u < length (sm_topologies m')" "sm_topologies m' ! u = None"
    then show "topology_uses m' u = 0 \<and> (et(t := e)) u = 0"
      using countedD(7)[OF ct, of u] t n x by (cases "u = t") (auto simp: uses m split: if_splits)
  qed (use countedD(2,3,4,5)[OF ct] t in \<open>auto simp: m uses split: if_splits\<close>)
  then show ?thesis by (simp only: m'_def)
qed

lemma counted_topology_retain:
  assumes ct: "counted m ec et" and t: "t < length (sm_topologies m)" "sm_topologies m ! t = Some tp"
  shows "counted (sg_pair_topology_retain t m) ec (et(t := et t + 1))"
proof -
  have "tp_references tp = topology_uses m t + et t" using countedD(6)[OF ct t] by simp
  then have "sg_pair_topology_retain t m = topology_update t (Some (tp\<lparr>tp_references := topology_uses m t + (et t + 1)\<rparr>)) m"
    by (simp add: sg_pair_topology_retain_def t(2) Let_def)
  then show ?thesis using counted_topology_update[OF ct t refl, of _ "et t + 1"] by simp
qed

lemma counted_topology_release:
  assumes ct: "counted m ec et" and held: "0 < et t"
  shows "counted (sg_pair_topology_release t m) ec (et(t := et t - 1))"
proof -
  obtain tp where t: "t < length (sm_topologies m)" "sm_topologies m ! t = Some tp" "tp_references tp = topology_uses m t + et t"
    using held_topology[OF assms] .
  have "sg_pair_topology_release t m = topology_update t
      (if topology_uses m t + (et t - 1) = 0 then None else Some (tp\<lparr>tp_references := topology_uses m t + (et t - 1)\<rparr>)) m"
    using held by (auto simp: sg_pair_topology_release_def t(2,3) Let_def)
  then show ?thesis using counted_topology_update[OF ct t(1,2) refl refl, of "et t - 1"] by simp
qed

lemma counted_topology_create:
  assumes ct: "counted m ec et" and run: "sg_pair_topology_create n m = (Inr t, m')" and n: "n < SIZE_MAX"
  shows "counted m' ec (et(t := 1)) \<and> t = length (sm_topologies m) \<and> sm_snapshots m' = sm_snapshots m \<and>
    sm_chunks m' = sm_chunks m \<and> (\<exists>tp. sm_topologies m' = sm_topologies m @ [Some tp] \<and> topology_ok n tp)"
proof -
  from run obtain count where count: "sg_snapshot_pair_count n = Some count"
    by (cases "sg_snapshot_pair_count n") (auto simp: sg_pair_topology_create_def)
  define tp where "tp = \<lparr>tp_references = 1, tp_state_count = n, tp_pair_count = count,
    tp_first = map fst (state_pairs n), tp_second = map snd (state_pairs n)\<rparr>"
  have m': "t = length (sm_topologies m)" "sm_snapshots m' = sm_snapshots m" "sm_chunks m' = sm_chunks m"
    "sm_topologies m' = sm_topologies m @ [Some tp]" and refs: "tp_references tp = 1"
    using run by (auto simp: sg_pair_topology_create_def count tp_def state_pairs_def Let_def)
  have "n * (n + 1) \<le> SIZE_MAX \<and> count = n * (n + 1) div 2"
    using count n by (auto simp: sg_snapshot_pair_count_def sg_size_multiply_if split: option.splits if_splits)
  then have ok: "topology_ok n tp" by (simp add: topology_ok_def tp_def)
  have live: "live m' b = live m b" for b by (simp add: live_def m')
  have uses: "chunk_uses m' d = chunk_uses m d" "topology_uses m' u = topology_uses m u" for d u
    by (simp_all add: chunk_uses_def topology_uses_def m')
  note fresh = counted_unused[OF ct]
  have "counted m' ec (et(t := 1))"
  proof (rule countedI)
    fix b assume "live m' b"
    then have "snapshot_ok m (snapshot_at m b)" using countedD(1)[OF ct] by (simp add: live)
    then show "snapshot_ok m' (snapshot_at m' b)"
      using links_ok_grow[of m "snapshot_at m b" m' "[]"] by (simp add: snapshot_ok_iff m')
  next
    fix u up assume "u < length (sm_topologies m')" "sm_topologies m' ! u = Some up"
    then show "0 < topology_uses m' u + (et(t := 1)) u \<and> tp_references up = topology_uses m' u + (et(t := 1)) u"
      using countedD(6)[OF ct, of u] fresh(2) refs by (auto simp: uses m' nth_append split: if_splits)
  next
    fix u assume "u < length (sm_topologies m')" "sm_topologies m' ! u = None"
    then show "topology_uses m' u = 0 \<and> (et(t := 1)) u = 0"
      using countedD(7)[OF ct, of u] by (auto simp: uses m' nth_append split: if_splits)
  next
    fix u assume "0 < (et(t := 1)) u"
    then show "u < length (sm_topologies m')" using countedD(3)[OF ct, of u] by (auto simp: m' split: if_splits)
  qed (use countedD(2,4,5)[OF ct] in \<open>auto simp: m' uses\<close>)
  with m' ok show ?thesis by blast
qed

section \<open>What other snapshots see\<close>

text \<open>Chunks are never given other records, and a freed address is never used again.\<close>

definition chunks_kept :: "sg_snapshot_memory \<Rightarrow> sg_snapshot_memory \<Rightarrow> bool" where
  "chunks_kept m m' \<longleftrightarrow> length (sm_chunks m) \<le> length (sm_chunks m') \<and>
     (\<forall>c < length (sm_chunks m). sm_chunks m ! c = None \<longrightarrow> sm_chunks m' ! c = None) \<and>
     (\<forall>c < length (sm_chunks m). \<forall>ch ch'. sm_chunks m ! c = Some ch \<longrightarrow> sm_chunks m' ! c = Some ch' \<longrightarrow>
        ch_records ch' = ch_records ch)"

lemma chunks_keptD:
  "chunks_kept m m' \<Longrightarrow> c < length (sm_chunks m) \<Longrightarrow> sm_chunks m ! c = Some ch \<Longrightarrow> sm_chunks m' ! c = Some ch' \<Longrightarrow>
   ch_records ch' = ch_records ch"
  unfolding chunks_kept_def by blast

lemma chunks_kept_refl [simp]: "chunks_kept m m"
  by (auto simp: chunks_kept_def)

lemma chunks_kept_trans:
  assumes "chunks_kept m m1" "chunks_kept m1 m2"
  shows "chunks_kept m m2"
  unfolding chunks_kept_def
proof (intro conjI allI impI)
  show "length (sm_chunks m) \<le> length (sm_chunks m2)" using assms unfolding chunks_kept_def by linarith
  fix c assume c: "c < length (sm_chunks m)"
  then have c1: "c < length (sm_chunks m1)" using assms(1) unfolding chunks_kept_def by linarith
  show "sm_chunks m2 ! c = None" if "sm_chunks m ! c = None"
    using assms c c1 that unfolding chunks_kept_def by blast
  fix ch ch2 assume ch: "sm_chunks m ! c = Some ch" "sm_chunks m2 ! c = Some ch2"
  have "sm_chunks m1 ! c \<noteq> None" using assms(2) c1 ch(2) unfolding chunks_kept_def by force
  then obtain ch1 where ch1: "sm_chunks m1 ! c = Some ch1" by blast
  show "ch_records ch2 = ch_records ch"
    using chunks_keptD[OF assms(1) c ch(1) ch1] chunks_keptD[OF assms(2) c1 ch1 ch(2)] by simp
qed

lemma chunks_kept_steps:
  "chunks_kept m (sg_record_chunk_retain c m)" "chunks_kept m (sg_record_chunk_release c m)"
  if "c < length (sm_chunks m)" "sm_chunks m ! c = Some ch"
  using that by (auto simp: chunks_kept_def sg_record_chunk_retain_def sg_record_chunk_release_def chunk_update_def Let_def
      nth_list_update)

lemma chunks_kept_same: "sm_chunks m' = sm_chunks m @ cs \<Longrightarrow> chunks_kept m m'"
  by (auto simp: chunks_kept_def nth_append)

lemma kept_record:
  assumes "chunks_kept m m'" "snapshot_at m' b = snapshot_at m b" "links_ok m (snapshot_at m b)" "links_ok m' (snapshot_at m b)"
  shows "snapshot_record m' b = snapshot_record m b"
proof -
  have "content m' b p = content m b p" if p: "p < snapshot_pairs (snapshot_at m b)" for p
  proof -
    let ?c = "sn_chunks (snapshot_at m b) ! (p div SG_SNAPSHOT_RECORD_CHUNK)"
    note i = chunk_total_index(1)[OF p]
    note c = links_okD(5,6)[OF assms(3) i] links_okD(6)[OF assms(4) i]
    have "ch_records (chunk_at m' ?c) = ch_records (chunk_at m ?c)" by (rule chunks_keptD[OF assms(1) c])
    then show ?thesis by (simp add: content_def assms(2))
  qed
  then show ?thesis by (auto simp: snapshot_record_def assms(2))
qed

definition untouched :: "nat set \<Rightarrow> sg_snapshot_memory \<Rightarrow> sg_snapshot_memory \<Rightarrow> bool" where
  "untouched A m m' \<longleftrightarrow> (\<forall>b. b \<notin> A \<longrightarrow> live m' b = live m b \<and>
     (live m b \<longrightarrow> snapshot_at m' b = snapshot_at m b \<and> snapshot_record m' b = snapshot_record m b))"

lemma untouchedI:
  assumes "memory_ok m" "memory_ok m'" "chunks_kept m m'"
    and "\<And>b. b \<notin> A \<Longrightarrow> live m' b = live m b" "\<And>b. b \<notin> A \<Longrightarrow> live m b \<Longrightarrow> snapshot_at m' b = snapshot_at m b"
  shows "untouched A m m'"
  unfolding untouched_def
proof (intro allI impI conjI)
  fix b assume b: "b \<notin> A"
  show "live m' b = live m b" by (rule assms(4)[OF b])
  assume live: "live m b"
  show at: "snapshot_at m' b = snapshot_at m b" by (rule assms(5)[OF b live])
  have "live m' b" using assms(4)[OF b] live by simp
  from kept_record[OF assms(3) at snapshot_okD(3)[OF memory_okD(1)[OF assms(1) live]]]
    snapshot_okD(3)[OF memory_okD(1)[OF assms(2) this]]
  show "snapshot_record m' b = snapshot_record m b" by (simp add: at)
qed

section \<open>Freeing\<close>

text \<open>The loops over the chunks do not look at the snapshots.\<close>

lemma release_snapshots [simp]:
  "sg_record_chunk_release c (m\<lparr>sm_snapshots := x\<rparr>) = (sg_record_chunk_release c m)\<lparr>sm_snapshots := x\<rparr>"
  "sg_pair_topology_release t (m\<lparr>sm_snapshots := x\<rparr>) = (sg_pair_topology_release t m)\<lparr>sm_snapshots := x\<rparr>"
  "sm_snapshots (sg_record_chunk_release c m) = sm_snapshots m"
  "sm_snapshots (sg_pair_topology_release t m) = sm_snapshots m"
  "sm_snapshots (sg_record_chunk_retain c m) = sm_snapshots m"
  "sm_snapshots (sg_pair_topology_retain t m) = sm_snapshots m"
  "sm_chunks (sg_pair_topology_release t m) = sm_chunks m"
  "sm_chunks (sg_pair_topology_retain t m) = sm_chunks m"
  "sm_topologies (sg_record_chunk_retain c m) = sm_topologies m"
  "sm_topologies (sg_record_chunk_release c m) = sm_topologies m"
  by (simp_all add: sg_record_chunk_release_def sg_pair_topology_release_def sg_record_chunk_retain_def
      sg_pair_topology_retain_def chunk_update_def topology_update_def Let_def)

lemma fold_release_snapshots [simp]:
  "fold sg_record_chunk_release cs (m\<lparr>sm_snapshots := x\<rparr>) = (fold sg_record_chunk_release cs m)\<lparr>sm_snapshots := x\<rparr>"
  "sm_snapshots (fold sg_record_chunk_release cs m) = sm_snapshots m"
  "sm_snapshots (fold sg_record_chunk_retain cs m) = sm_snapshots m"
  "sm_topologies (fold sg_record_chunk_retain cs m) = sm_topologies m"
  by (induction cs arbitrary: m) simp_all

lemma kept_release_chunks:
  "counted m ec et \<Longrightarrow> (\<And>c. count_list cs c \<le> ec c) \<Longrightarrow> chunks_kept m (fold sg_record_chunk_release cs m)"
proof (induction cs arbitrary: m ec)
  case (Cons c cs)
  have held: "0 < ec c" using Cons.prems(2)[of c] by simp
  obtain ch where "c < length (sm_chunks m)" "sm_chunks m ! c = Some ch" using held_chunk[OF Cons.prems(1) held] by blast
  then have "chunks_kept m (sg_record_chunk_release c m)" by (rule chunks_kept_steps)
  moreover have "count_list cs d \<le> (ec(c := ec c - 1)) d" for d
    using Cons.prems(2)[of d] by (cases "d = c") auto
  note Cons.IH[OF counted_chunk_release[OF Cons.prems(1) held] this]
  ultimately show ?case by (simp add: chunks_kept_trans)
qed simp

lemma kept_retain_chunks:
  "(\<And>c. c \<in> set cs \<Longrightarrow> c < length (sm_chunks m) \<and> (\<exists>ch. sm_chunks m ! c = Some ch)) \<Longrightarrow>
   chunks_kept m (fold sg_record_chunk_retain cs m)"
proof (induction cs arbitrary: m)
  case (Cons c cs)
  obtain ch where c: "c < length (sm_chunks m)" "sm_chunks m ! c = Some ch" using Cons.prems[of c] by auto
  have "chunks_kept (sg_record_chunk_retain c m) (fold sg_record_chunk_retain cs (sg_record_chunk_retain c m))"
  proof (rule Cons.IH)
    fix d assume "d \<in> set cs"
    then obtain dh where "d < length (sm_chunks m)" "sm_chunks m ! d = Some dh" using Cons.prems[of d] by auto
    then show "d < length (sm_chunks (sg_record_chunk_retain c m)) \<and> (\<exists>ch. sm_chunks (sg_record_chunk_retain c m) ! d = Some ch)"
      by (rule chunk_retain_keeps)
  qed
  with chunks_kept_steps(1)[OF c] show ?case by (simp add: chunks_kept_trans)
qed simp

text \<open>Giving back the references to the chunks and the topology of a snapshot that is gone.\<close>

definition free_links :: "sg_pair_snapshot \<Rightarrow> sg_snapshot_memory \<Rightarrow> sg_snapshot_memory" where
  "free_links s m = sg_pair_topology_release (sn_topology s) (fold sg_record_chunk_release (sn_chunks s) m)"

lemma free_links:
  assumes ct: "counted m (\<lambda>c. count_list (sn_chunks s) c) ((\<lambda>_. 0)(sn_topology s := 1))"
  shows "memory_ok (free_links s m)" "chunks_kept m (free_links s m)" "sm_snapshots (free_links s m) = sm_snapshots m"
proof -
  have "counted (fold sg_record_chunk_release (sn_chunks s) m) (\<lambda>c. 0) ((\<lambda>_. 0)(sn_topology s := 1))"
    using counted_release_chunks[OF ct order_refl] by simp
  from counted_topology_release[OF this, of "sn_topology s"]
  have "counted (free_links s m) (\<lambda>_. 0) (\<lambda>_. 0)"
    unfolding free_links_def by (rule counted_cong) simp_all
  then show "memory_ok (free_links s m)" by (simp add: counted_memory_ok)
  have "chunks_kept x (sg_pair_topology_release t x)" for x t by (rule chunks_kept_same[of _ _ "[]"]) simp
  then show "chunks_kept m (free_links s m)"
    unfolding free_links_def using kept_release_chunks[OF ct order_refl] chunks_kept_trans by blast
  show "sm_snapshots (free_links s m) = sm_snapshots m" by (simp add: free_links_def)
qed

lemma sg_pair_snapshot_release_ok:
  assumes ok: "memory_ok m" and a: "live m a"
  defines "m' \<equiv> sg_pair_snapshot_release (Ref a) m" and "s \<equiv> snapshot_at m a"
  shows "memory_ok m'" "untouched {a} m m'"
    "if sn_references s = 1 then \<not> live m' a
     else live m' a \<and> snapshot_at m' a = s\<lparr>sn_references := sn_references s - 1\<rparr> \<and> snapshot_record m' a = snapshot_record m a"
proof -
  have "memory_ok m' \<and> untouched {a} m m' \<and>
    (if sn_references s = 1 then \<not> live m' a
     else live m' a \<and> snapshot_at m' a = s\<lparr>sn_references := sn_references s - 1\<rparr> \<and> snapshot_record m' a = snapshot_record m a)"
  proof (cases "sn_references s = 1")
    case False
    define s' where "s' = s\<lparr>sn_references := sn_references s - 1\<rparr>"
    have m': "m' = snapshot_update a (Some s') m"
      using False by (simp add: m'_def sg_pair_snapshot_release_def s_def s'_def Let_def)
    have "inner_ok s" using memory_okD(1)[OF ok a] by (simp add: snapshot_ok_iff s_def)
    with False have inner: "inner_ok s'" by (auto simp: inner_ok_def s'_def)
    note u = snapshot_update_same_chunks[OF ok a, of s', folded m' s_def]
    have eqs: "sn_chunks s' = sn_chunks s" "sn_topology s' = sn_topology s" "sn_automaton s' = sn_automaton s"
      by (simp_all add: s'_def)
    note u = u[OF eqs(1,2) disjI1[OF eqs(3)] inner]
    have "chunks_kept m m'" by (rule chunks_kept_same[of _ _ "[]"]) (simp add: m' snapshot_update_def)
    with u ok have "untouched {a} m m'" by (intro untouchedI) auto
    moreover have "snapshot_record m' a = snapshot_record m a"
      by (auto simp: fun_eq_iff snapshot_record_def u(3,4) snapshot_pairs_def eqs s_def[symmetric])
    ultimately show ?thesis using u False a by (simp add: s'_def)
  next
    case True
    define m1 where "m1 = snapshot_update a None m"
    have m': "m' = free_links s m1"
      using True by (simp add: m'_def sg_pair_snapshot_release_def s_def free_links_def m1_def snapshot_update_def Let_def)
    have ct: "counted m1 (\<lambda>c. count_list (sn_chunks s) c) ((\<lambda>_. 0)(sn_topology s := 1))"
      using counted_drop[OF ok[folded counted_memory_ok] a] by (simp add: m1_def s_def)
    note f = free_links[OF ct, folded m']
    have "chunks_kept m m1" by (rule chunks_kept_same[of _ _ "[]"]) (simp add: m1_def snapshot_update_def)
    with f have kept: "chunks_kept m m'" using chunks_kept_trans by blast
    have snaps: "sm_snapshots m' = (sm_snapshots m)[a := None]" by (simp add: f(3) m1_def snapshot_update_def)
    have "untouched {a} m m'" by (rule untouchedI[OF ok f(1) kept]) (simp_all add: live_def snaps)
    then show ?thesis using True f(1) a by (simp add: live_def snaps)
  qed
  then show "memory_ok m'" "untouched {a} m m'"
    "if sn_references s = 1 then \<not> live m' a
     else live m' a \<and> snapshot_at m' a = s\<lparr>sn_references := sn_references s - 1\<rparr> \<and> snapshot_record m' a = snapshot_record m a"
    by blast+
qed

lemma sg_pair_snapshot_retain_ok:
  assumes ok: "memory_ok m" and a: "live m a"
  defines "m' \<equiv> sg_pair_snapshot_retain (Ref a) m" and "s \<equiv> snapshot_at m a"
  shows "memory_ok m'" "untouched {a} m m'" "live m' a"
    "snapshot_at m' a = s\<lparr>sn_references := sn_references s + 1\<rparr>" "snapshot_record m' a = snapshot_record m a"
proof -
  define s' where "s' = s\<lparr>sn_references := sn_references s + 1\<rparr>"
  have m': "m' = snapshot_update a (Some s') m"
    by (simp add: m'_def sg_pair_snapshot_retain_def s_def s'_def Let_def)
  have "inner_ok s" using memory_okD(1)[OF ok a] by (simp add: snapshot_ok_iff s_def)
  then have inner: "inner_ok s'" by (auto simp: inner_ok_def s'_def)
  have eqs: "sn_chunks s' = sn_chunks s" "sn_topology s' = sn_topology s" "sn_automaton s' = sn_automaton s"
    by (simp_all add: s'_def)
  note u = snapshot_update_same_chunks[OF ok a, of s', folded m' s_def, OF eqs(1,2) disjI1[OF eqs(3)] inner]
  show "memory_ok m'" "live m' a" "snapshot_at m' a = s\<lparr>sn_references := sn_references s + 1\<rparr>"
    using u a by (simp_all add: s'_def)
  have "chunks_kept m m'" by (rule chunks_kept_same[of _ _ "[]"]) (simp add: m' snapshot_update_def)
  with u ok show "untouched {a} m m'" by (intro untouchedI) auto
  show "snapshot_record m' a = snapshot_record m a"
    by (auto simp: fun_eq_iff snapshot_record_def u(3,4) snapshot_pairs_def eqs s_def[symmetric])
qed

end
