(* ===== verification/Sync_Snapshot_Make.thy ===== *)
theory Sync_Snapshot_Make
  imports Sync_Snapshot_Life Sync_Oracle_Tables
begin

text \<open>
  Cloning and allocating snapshots, and changing a cell: the reverse columns always hold the reverse of
  the transitions, and the invariant of the memory is kept on every path, also when a step fails after
  some objects have been made.
\<close>

section \<open>Reverse columns\<close>

lemma bit_of_one: "j < 64 \<Longrightarrow> bit (push_bit j (1 :: 64 word)) i \<longleftrightarrow> i = j"
  by (simp add: push_bit_eq_mult bit_exp_64)

lemma word_bit_test:
  fixes w :: "64 word"
  assumes "j < 64"
  shows "(and w (push_bit j 1) \<noteq> 0) = bit w j"
proof -
  have "and w (push_bit j 1) = (if bit w j then push_bit j 1 else 0)"
    by (rule bit_word_eqI) (auto simp: bit_and_iff bit_exp_64[OF assms])
  moreover have "push_bit j (1 :: 64 word) \<noteq> 0"
  proof
    assume "push_bit j (1 :: 64 word) = 0"
    then have "bit (push_bit j (1 :: 64 word)) j = bit (0 :: 64 word) j" by (rule arg_cong)
    then show False unfolding bit_of_one[OF assms] by simp
  qed
  ultimately show ?thesis by auto
qed

definition column_words :: "sg_automaton \<Rightarrow> nat" where
  "column_words A = (au_state_count A + 63) div 64"

lemma column_words_eq: "au_state_count A div 64 + (if au_state_count A mod 64 \<noteq> 0 then 1 else 0) = column_words A"
proof -
  define q r where "q = au_state_count A div 64" and "r = au_state_count A mod 64"
  have n: "au_state_count A = 64 * q + r" "r < 64" by (simp_all add: q_def r_def)
  have words: "column_words A = (64 * q + r + 63) div 64" by (simp add: column_words_def n(1))
  show ?thesis
  proof (cases "r = 0")
    case True
    have "(64 * q + r + 63) div 64 = q" by (rule div_nat_eqI) (use True in simp_all)
    with True show ?thesis by (simp add: words q_def[symmetric] r_def[symmetric])
  next
    case False
    have "(64 * q + r + 63) div 64 = q + 1" by (rule div_nat_eqI) (use False n(2) in simp_all)
    with False show ?thesis by (simp add: words q_def[symmetric] r_def[symmetric])
  qed
qed

text \<open>The shape of the columns, whatever their bits.\<close>

definition columns_shape :: "sg_pair_snapshot \<Rightarrow> bool" where
  "columns_shape s \<longleftrightarrow> sn_reverse_words s = column_words (sn_automaton s) \<and>
     length (sn_reverse_columns s) = au_action_count (sn_automaton s) * au_state_count (sn_automaton s) * column_words (sn_automaton s)"

lemma column_word_less: "p < au_state_count A \<Longrightarrow> p div 64 < column_words A"
  using div_le_mono[of "p + 64" "au_state_count A + 63" 64] by (simp add: column_words_def)

lemma reverse_offset_less:
  assumes "columns_shape s" "a < au_action_count (sn_automaton s)" "t < au_state_count (sn_automaton s)" "p < au_state_count (sn_automaton s)"
  shows "sg_reverse_offset s a t p < length (sn_reverse_columns s)"
  using cell_less[OF cell_less[OF assms(2,3)] column_word_less[OF assms(4)]] assms(1)
  by (simp add: sg_reverse_offset_def columns_shape_def sg_automaton_state_count_def Let_def)

lemma reverse_offset_inj:
  assumes "columns_shape s" "t < au_state_count (sn_automaton s)" "t' < au_state_count (sn_automaton s)"
    "p < au_state_count (sn_automaton s)" "p' < au_state_count (sn_automaton s)"
  shows "sg_reverse_offset s a t p = sg_reverse_offset s a' t' p' \<longleftrightarrow> a = a' \<and> t = t' \<and> p div 64 = p' div 64"
  using cell_inj[OF column_word_less[OF assms(4)] column_word_less[OF assms(5)], of "a * au_state_count (sn_automaton s) + t"
      "a' * au_state_count (sn_automaton s) + t'"] cell_inj[OF assms(2,3), of a a'] assms(1)
  by (simp add: sg_reverse_offset_def columns_shape_def sg_automaton_state_count_def Let_def)

lemma reverse_set_fields [simp]:
  "sn_automaton (sg_reverse_set s a t p v) = sn_automaton s" "sn_topology (sg_reverse_set s a t p v) = sn_topology s"
  "sn_chunks (sg_reverse_set s a t p v) = sn_chunks s" "sn_references (sg_reverse_set s a t p v) = sn_references s"
  "sn_reverse_words (sg_reverse_set s a t p v) = sn_reverse_words s"
  "sn_changed (sg_reverse_set s a t p v) = sn_changed s" "sn_changed_pairs (sg_reverse_set s a t p v) = sn_changed_pairs s"
  "columns_shape (sg_reverse_set s a t p v) = columns_shape s"
  "sg_reverse_offset (sg_reverse_set s a t p v) = sg_reverse_offset s"
  by (simp_all add: sg_reverse_set_def Let_def columns_shape_def sg_reverse_offset_def fun_eq_iff)

lemma reverse_has_set:
  assumes shape: "columns_shape s"
    and r: "a < au_action_count (sn_automaton s)" "t < au_state_count (sn_automaton s)" "p < au_state_count (sn_automaton s)"
    and r': "a' < au_action_count (sn_automaton s)" "t' < au_state_count (sn_automaton s)" "p' < au_state_count (sn_automaton s)"
  shows "sg_reverse_has (sg_reverse_set s a t p v) a' t' p' \<longleftrightarrow>
    (if a' = a \<and> t' = t \<and> p' = p then v else sg_reverse_has s a' t' p')"
proof -
  let ?o = "sg_reverse_offset s a t p" and ?o' = "sg_reverse_offset s a' t' p'"
  have less: "?o < length (sn_reverse_columns s)" by (rule reverse_offset_less[OF shape r])
  have inj: "?o = ?o' \<longleftrightarrow> a = a' \<and> t = t' \<and> p div 64 = p' div 64" by (rule reverse_offset_inj[OF shape r(2) r'(2) r(3) r'(3)])
  have p: "p' = p \<longleftrightarrow> p' div 64 = p div 64 \<and> p' mod 64 = p mod 64" by (metis div_mult_mod_eq)
  have bits: "bit (or w (push_bit i 1)) j = (bit w j \<or> i = j)" "bit (and w (not (push_bit i 1))) j = (bit w j \<and> i \<noteq> j)"
    if "i < 64" "j < 64" for w :: "64 word" and i j
    using that(2) by (auto simp: bit_or_iff bit_and_iff bit_not_iff bit_exp_64[OF that(1)])
  define w where "w = sn_reverse_columns s ! ?o"
  define new where "new = (if v then or w (push_bit (p mod 64) 1) else and w (not (push_bit (p mod 64) 1)))"
  have i: "p mod 64 < 64" "p' mod 64 < 64" by simp_all
  have columns: "sn_reverse_columns (sg_reverse_set s a t p v) = (sn_reverse_columns s)[?o := new]"
    by (simp add: sg_reverse_set_def Let_def new_def w_def)
  have has: "sg_reverse_has (sg_reverse_set s a t p v) a' t' p' \<longleftrightarrow> bit ((sn_reverse_columns s)[?o := new] ! ?o') (p' mod 64)"
    "sg_reverse_has s a' t' p' \<longleftrightarrow> bit (sn_reverse_columns s ! ?o') (p' mod 64)"
    unfolding sg_reverse_has_def word_bit_test[OF i(2)] columns reverse_set_fields(9) by (rule refl)+
  show ?thesis
  proof (cases "?o = ?o'")
    case True
    have "bit new (p' mod 64) = (if p mod 64 = p' mod 64 then v else bit w (p' mod 64))"
      unfolding new_def using bits(1)[OF i, of w] bits(2)[OF i, of w] by (cases v) (simp_all only: if_True if_False split: if_split, blast+)
    with True inj p less show ?thesis unfolding has by (auto simp: w_def)
  next
    case False
    with inj have other: "\<not> (a' = a \<and> t' = t \<and> p' = p)" by auto
    from False show ?thesis unfolding if_not_P[OF other] has by simp
  qed
qed

text \<open>The loops that build the columns from the transitions.\<close>

lemma reverse_column_loop:
  assumes wf: "wf_automaton A" and s: "columns_shape s" "sn_automaton s = A" and p: "p < au_state_count A"
    and k: "k \<le> au_action_count A"
  shows "\<exists>s'. fold_res (sg_reverse_column_step p) [0..<k] s = Inr s' \<and> columns_shape s' \<and>
    (\<exists>cols. s' = s\<lparr>sn_reverse_columns := cols\<rparr>) \<and>
    (\<forall>a < au_action_count A. \<forall>t < au_state_count A. \<forall>q < au_state_count A.
       sg_reverse_has s' a t q \<longleftrightarrow> (if q = p \<and> a < k \<and> delta A p a = t then True else sg_reverse_has s a t q))"
  using k
proof (induction k)
  case 0
  have "\<exists>cols. s = s\<lparr>sn_reverse_columns := cols\<rparr>" by (rule exI[of _ "sn_reverse_columns s"]) simp
  with s show ?case by simp
next
  case (Suc k)
  then obtain s' where run: "fold_res (sg_reverse_column_step p) [0..<k] s = Inr s'" and shape: "columns_shape s'"
    and same: "\<exists>cols. s' = s\<lparr>sn_reverse_columns := cols\<rparr>"
    and has: "\<forall>a < au_action_count A. \<forall>t < au_state_count A. \<forall>q < au_state_count A.
       sg_reverse_has s' a t q \<longleftrightarrow> (if q = p \<and> a < k \<and> delta A p a = t then True else sg_reverse_has s a t q)"
    by auto
  have A: "sn_automaton s' = A" using same s(2) by auto
  have k: "k < au_action_count A" using Suc.prems by simp
  have d: "delta A p k < au_state_count A" using transition_less[OF wf p k] by simp
  define s2 where "s2 = sg_reverse_set s' k (delta A p k) p True"
  have step: "sg_reverse_column_step p k s' = Inr s2"
    using d by (simp add: sg_reverse_column_step_def A s2_def sg_automaton_state_count_def Let_def)
  have "\<exists>cols. s2 = s\<lparr>sn_reverse_columns := cols\<rparr>"
    using same by (auto simp: s2_def sg_reverse_set_def Let_def)
  moreover have "columns_shape s2" using shape by (simp add: s2_def)
  moreover have "sg_reverse_has s2 a t q \<longleftrightarrow> (if q = p \<and> a < Suc k \<and> delta A p a = t then True else sg_reverse_has s a t q)"
    if "a < au_action_count A" "t < au_state_count A" "q < au_state_count A" for a t q
    using reverse_has_set[OF shape, of k "delta A p k" p a t q True] has that k d p
    by (auto simp: A s2_def less_Suc_eq)
  moreover have "fold_res (sg_reverse_column_step p) [0..<Suc k] s = Inr s2" using run step by (simp add: rbind_def)
  ultimately show ?case by blast
qed

lemma sg_reverse_columns_build_ok:
  assumes wf: "wf_automaton (sn_automaton s)"
  shows "case sg_reverse_columns_build s of
      Inl e \<Rightarrow> e = SG_ERR_ALLOC
    | Inr s' \<Rightarrow> reverse_ok s' \<and> (\<exists>w cols. s' = s\<lparr>sn_reverse_words := w, sn_reverse_columns := cols\<rparr>)"
proof -
  define A where "A = sn_automaton s"
  have wfA: "wf_automaton A" using wf by (simp add: A_def)
  obtain size where size: "sg_reverse_column_size A = (column_words A, size)"
    using column_words_eq[of A] by (auto simp: sg_reverse_column_size_def Let_def sg_automaton_state_count_def)
  show ?thesis
  proof (cases size)
    case None
    then show ?thesis using size by (simp add: sg_reverse_columns_build_def A_def Let_def)
  next
    case (Some count)
    have count: "count = au_action_count A * au_state_count A * column_words A"
      using size Some by (auto simp: sg_reverse_column_size_def Let_def column_words_eq sg_automaton_state_count_def
          sg_automaton_action_count_def sg_size_multiply_if split: option.splits if_splits)
    have "0 < column_words A" using column_word_less[of 0 A] wf_automatonD(4)[OF wfA] by simp
    then have "count \<noteq> 0" using wf_automatonD(4,5)[OF wfA] by (simp add: count)
    define s0 where "s0 = s\<lparr>sn_reverse_words := column_words A, sn_reverse_columns := replicate count 0\<rparr>"
    have s0: "columns_shape s0" "sn_automaton s0 = A" by (simp_all add: s0_def columns_shape_def A_def count)
    have empty: "\<not> sg_reverse_has s0 a t q"
      if "a < au_action_count A" "t < au_state_count A" "q < au_state_count A" for a t q
      using reverse_offset_less[OF s0(1), of a t q] that
      by (simp add: s0(2) sg_reverse_has_def) (simp add: s0_def)
    have "\<exists>s'. fold_res (\<lambda>state. fold_res (sg_reverse_column_step state) [0..<au_action_count A]) [0..<j] s0 = Inr s' \<and>
      columns_shape s' \<and> (\<exists>cols. s' = s0\<lparr>sn_reverse_columns := cols\<rparr>) \<and>
      (\<forall>a < au_action_count A. \<forall>t < au_state_count A. \<forall>q < au_state_count A. sg_reverse_has s' a t q \<longleftrightarrow> q < j \<and> delta A q a = t)"
      if "j \<le> au_state_count A" for j
      using that
    proof (induction j)
      case 0
      have "\<exists>cols. s0 = s0\<lparr>sn_reverse_columns := cols\<rparr>" by (rule exI[of _ "sn_reverse_columns s0"]) simp
      with s0 empty show ?case by simp
    next
      case (Suc j)
      then obtain s1 where run: "fold_res (\<lambda>state. fold_res (sg_reverse_column_step state) [0..<au_action_count A]) [0..<j] s0 = Inr s1"
        and s1: "columns_shape s1" "\<exists>cols. s1 = s0\<lparr>sn_reverse_columns := cols\<rparr>"
        and has1: "\<forall>a < au_action_count A. \<forall>t < au_state_count A. \<forall>q < au_state_count A. sg_reverse_has s1 a t q \<longleftrightarrow> q < j \<and> delta A q a = t"
        by auto
      have A1: "sn_automaton s1 = A" using s1(2) s0(2) by auto
      have j: "j < au_state_count A" using Suc.prems by simp
      from reverse_column_loop[OF wfA s1(1) A1 j order_refl] obtain s2 where
        step: "fold_res (sg_reverse_column_step j) [0..<au_action_count A] s1 = Inr s2" and s2: "columns_shape s2"
          "\<exists>cols. s2 = s1\<lparr>sn_reverse_columns := cols\<rparr>"
        and has2: "\<forall>a < au_action_count A. \<forall>t < au_state_count A. \<forall>q < au_state_count A.
          sg_reverse_has s2 a t q \<longleftrightarrow> (if q = j \<and> a < au_action_count A \<and> delta A j a = t then True else sg_reverse_has s1 a t q)"
        by auto
      have "\<exists>cols. s2 = s0\<lparr>sn_reverse_columns := cols\<rparr>" using s1(2) s2(2) by auto
      moreover have "sg_reverse_has s2 a t q \<longleftrightarrow> q < Suc j \<and> delta A q a = t"
        if "a < au_action_count A" "t < au_state_count A" "q < au_state_count A" for a t q
        using has1 has2 that by (auto simp: less_Suc_eq)
      moreover have "fold_res (\<lambda>state. fold_res (sg_reverse_column_step state) [0..<au_action_count A]) [0..<Suc j] s0 = Inr s2"
        using run step by (simp add: rbind_def)
      ultimately show ?case using s2(1) by blast
    qed
    from this[OF order_refl] obtain s' where
      run: "fold_res (\<lambda>state. fold_res (sg_reverse_column_step state) [0..<au_action_count A]) [0..<au_state_count A] s0 = Inr s'"
      and s': "columns_shape s'" "\<exists>cols. s' = s0\<lparr>sn_reverse_columns := cols\<rparr>"
      and has: "\<forall>a < au_action_count A. \<forall>t < au_state_count A. \<forall>q < au_state_count A.
        sg_reverse_has s' a t q \<longleftrightarrow> q < au_state_count A \<and> delta A q a = t"
      by blast
    have "sg_reverse_columns_build s = Inr s'"
      using run size Some \<open>count \<noteq> 0\<close>
      by (simp add: sg_reverse_columns_build_def A_def[symmetric] Let_def s0_def sg_automaton_state_count_def
          sg_automaton_action_count_def)
    moreover have "sn_automaton s' = A" using s'(2) s0(2) by auto
    with s'(1) has have "reverse_ok s'" by (simp add: reverse_ok_def columns_shape_def column_words_def Let_def)
    moreover have "\<exists>w cols. s' = s\<lparr>sn_reverse_words := w, sn_reverse_columns := cols\<rparr>"
      using s'(2) by (auto simp: s0_def)
    ultimately show ?thesis by simp
  qed
qed

section \<open>Clones\<close>

lemma clone_generation_wf:
  assumes wf: "wf_automaton A"
  shows "sg_automaton_clone_generation (Ref A) g = Inr (A\<lparr>au_generation := g\<rparr>)"
proof -
  have "au_state_count A * au_action_count A \<le> SIZE_MAX" "length (au_transitions A) = au_state_count A * au_action_count A"
    "length (au_observations A) = au_state_count A * au_action_count A" "0 < au_output_count A"
    using wf size_okD[of "au_output_count A"] by (auto simp: wf_automaton_def)
  with wf_automatonD(4,5)[OF wf] show ?thesis
    by (cases A) (simp add: sg_automaton_clone_generation_def sg_size_multiply_if)
qed

lemma generation_update [simp]:
  "wf_automaton (A\<lparr>au_generation := g\<rparr>) = wf_automaton A"
  "delta (A\<lparr>au_generation := g\<rparr>) = delta A" "eta (A\<lparr>au_generation := g\<rparr>) = eta A"
  by (simp_all add: wf_automaton_def fun_eq_iff sg_automaton_transition_def sg_automaton_observation_def)

lemma memory_ok_dead: "memory_ok (m\<lparr>sm_snapshots := sm_snapshots m @ [None]\<rparr>) = memory_ok m"
proof -
  let ?m = "m\<lparr>sm_snapshots := sm_snapshots m @ [None]\<rparr>"
  have live: "live ?m b = live m b" for b by (auto simp: live_def nth_append)
  moreover have "live m b \<Longrightarrow> snapshot_at ?m b = snapshot_at m b" for b by (simp add: live_def nth_append)
  moreover have "links_ok ?m s = links_ok m s" for s by (simp add: links_ok_def)
  moreover have "chunk_uses ?m c = chunk_uses m c" "topology_uses ?m t = topology_uses m t" for c t
    by (simp_all add: chunk_uses_def topology_uses_def)
  ultimately show ?thesis
    unfolding counted_memory_ok[symmetric] counted_def by (simp add: snapshot_ok_iff cong: option.case_cong)
qed

text \<open>An object that is made and freed at once, on an error path.\<close>

lemma release_created:
  assumes "sg_snapshot_create s m = (a, m1)" "sn_references s = 1"
  shows "sg_pair_snapshot_release (Ref a) m1 = (free_links s m)\<lparr>sm_snapshots := sm_snapshots m @ [None]\<rparr>"
proof -
  have m1: "a = length (sm_snapshots m)" "m1 = m\<lparr>sm_snapshots := sm_snapshots m @ [Some s]\<rparr>"
    using assms(1) by (simp_all add: sg_snapshot_create_def)
  have "snapshot_at m1 a = s" by (simp add: m1)
  then show ?thesis
    using assms(2) by (simp add: sg_pair_snapshot_release_def Let_def free_links_def snapshot_update_def m1)
qed

lemma error_path_ok:
  assumes ok: "memory_ok m" and ct: "counted m1 (\<lambda>c. count_list (sn_chunks s) c) ((\<lambda>_. 0)(sn_topology s := 1))"
    and kept: "chunks_kept m m1" and snaps: "sm_snapshots m1 = sm_snapshots m"
    and m': "m' = (free_links s m1)\<lparr>sm_snapshots := sm_snapshots m1 @ [None]\<rparr>"
  shows "memory_ok m' \<and> untouched {} m m'"
proof -
  note f = free_links[OF ct]
  have "m' = (free_links s m1)\<lparr>sm_snapshots := sm_snapshots (free_links s m1) @ [None]\<rparr>" by (simp add: m' f(3))
  then have ok': "memory_ok m'" using f(1) memory_ok_dead by metis
  have "chunks_kept (free_links s m1) m'" by (rule chunks_kept_same[of _ _ "[]"]) (simp add: m')
  with kept f(2) have "chunks_kept m m'" using chunks_kept_trans by blast
  moreover have "sm_snapshots m' = sm_snapshots m @ [None]" by (simp add: m' snaps)
  ultimately have "untouched {} m m'" by (intro untouchedI ok ok') (auto simp: live_def nth_append)
  with ok' show ?thesis by simp
qed

text \<open>The success path: a new snapshot takes the references.\<close>

lemma create_path_ok:
  assumes ok: "memory_ok m" and ct: "counted m1 (\<lambda>c. count_list (sn_chunks s) c) ((\<lambda>_. 0)(sn_topology s := 1))"
    and kept: "chunks_kept m m1" and snaps: "sm_snapshots m1 = sm_snapshots m"
    and s: "inner_ok s" "links_ok m1 s" and create: "sg_snapshot_create s m1 = (b, m')"
  shows "memory_ok m' \<and> untouched {b} m m' \<and> \<not> live m b \<and> live m' b \<and> snapshot_at m' b = s \<and> sm_chunks m' = sm_chunks m1"
proof -
  note c = counted_snapshot_create[OF ct create s order_refl, simplified]
  have "counted m' (\<lambda>_. 0) (\<lambda>_. 0)" using c by (intro counted_cong[OF conjunct1[OF c]]) auto
  then have ok': "memory_ok m'" by (simp add: counted_memory_ok)
  have "chunks_kept m1 m'" using c by (intro chunks_kept_same[of _ _ "[]"]) simp
  with kept have "chunks_kept m m'" using chunks_kept_trans by blast
  moreover have b: "b = length (sm_snapshots m)" "sm_snapshots m' = sm_snapshots m @ [Some s]" using c by (simp_all add: snaps)
  ultimately have "untouched {b} m m'" by (intro untouchedI ok ok') (auto simp: live_def nth_append)
  with ok' b c show ?thesis by (simp add: live_def)
qed

lemma sg_pair_snapshot_clone_ok:
  assumes ok: "memory_ok m" and a: "live m a" and run: "sg_pair_snapshot_clone (Ref a) g m = (r, m')"
  shows "memory_ok m' \<and> (case r of
      Inl e \<Rightarrow> e = SG_ERR_ALLOC \<and> untouched {} m m'
    | Inr b \<Rightarrow> untouched {b} m m' \<and> \<not> live m b \<and> live m' b \<and> sn_references (snapshot_at m' b) = 1 \<and>
        sn_automaton (snapshot_at m' b) = (sn_automaton (snapshot_at m a))\<lparr>au_generation := g\<rparr> \<and>
        sn_changed_pairs (snapshot_at m' b) = [] \<and> snapshot_record m' b = snapshot_record m a)"
proof -
  define s where "s = snapshot_at m a"
  define A where "A = sn_automaton s"
  note sok = memory_okD(1)[OF ok a, folded s_def]
  have wf: "wf_automaton A" and rev: "reverse_ok s" using snapshot_okD[OF sok] by (simp_all add: A_def)
  note links = links_okD[OF snapshot_okD(3)[OF sok]]
  define m1 where "m1 = sg_pair_topology_retain (sn_topology s) m"
  define m2 where "m2 = fold sg_record_chunk_retain (sn_chunks s) m1"
  have chunks: "c < length (sm_chunks m) \<and> (\<exists>ch. sm_chunks m ! c = Some ch)" if "c \<in> set (sn_chunks s)" for c
    using that links(4,5,6) by (metis in_set_conv_nth)
  have c1: "counted m1 (\<lambda>_. 0) ((\<lambda>_. 0)(sn_topology s := 1))"
    using counted_topology_retain[OF ok[folded counted_memory_ok] links(1,2)] by (simp add: m1_def)
  have chunks1: "sm_chunks m1 = sm_chunks m" by (simp add: m1_def)
  have ct: "counted m2 (\<lambda>c. count_list (sn_chunks s) c) ((\<lambda>_. 0)(sn_topology s := 1))"
    using counted_retain_chunks[OF c1, of "sn_chunks s"] chunks by (simp add: m2_def chunks1)
  have snaps: "sm_snapshots m2 = sm_snapshots m" by (simp add: m2_def m1_def)
  have "chunks_kept m m1" by (rule chunks_kept_same[of _ _ "[]"]) (simp add: chunks1)
  moreover have "chunks_kept m1 m2" unfolding m2_def using chunks by (intro kept_retain_chunks) (simp add: chunks1)
  ultimately have kept: "chunks_kept m m2" by (rule chunks_kept_trans)
  define created where "created = \<lparr>sn_references = 1, sn_automaton = A\<lparr>au_generation := g\<rparr>, sn_topology = sn_topology s,
     sn_chunks = sn_chunks s, sn_reverse_words = column_words A, sn_reverse_columns = [],
     sn_changed = None, sn_changed_pairs = []\<rparr>"
  obtain size where size: "sg_reverse_column_size A = (column_words A, size)"
    using column_words_eq[of A] by (auto simp: sg_reverse_column_size_def Let_def sg_automaton_state_count_def)
  have def: "sg_pair_snapshot_clone (Ref a) g m =
     (case size of None \<Rightarrow> (let (address, m) = sg_snapshot_create created m2 in (Inl SG_ERR_ALLOC, sg_pair_snapshot_release (Ref address) m))
      | Some cells \<Rightarrow> (let (address, m) = sg_snapshot_create (created\<lparr>sn_reverse_columns := take cells (sn_reverse_columns s)\<rparr>) m2
          in (Inr address, m)))"
    by (simp add: sg_pair_snapshot_clone_def Let_def s_def[symmetric] A_def[symmetric] clone_generation_wf[OF wf]
        m1_def[symmetric] m2_def[symmetric] size created_def split: option.split)
  show ?thesis
  proof (cases size)
    case None
    obtain b m3 where create: "sg_snapshot_create created m2 = (b, m3)" by fastforce
    have refs: "sn_references created = 1" by (simp add: created_def)
    from run def None create have r: "r = Inl SG_ERR_ALLOC" and m': "m' = sg_pair_snapshot_release (Ref b) m3" by simp_all
    have ctc: "counted m2 (\<lambda>c. count_list (sn_chunks created) c) ((\<lambda>_. 0)(sn_topology created := 1))"
      using ct by (simp add: created_def)
    from error_path_ok[OF ok ctc kept snaps m'[unfolded release_created[OF create refs]]] r show ?thesis by simp
  next
    case (Some cells)
    have "cells = au_action_count A * au_state_count A * column_words A"
      using size Some by (auto simp: sg_reverse_column_size_def Let_def sg_automaton_state_count_def
          sg_automaton_action_count_def sg_size_multiply_if column_words_eq[of A, simplified] split: option.splits if_splits)
    then have "length (sn_reverse_columns s) = cells"
      using rev by (simp add: reverse_ok_def A_def[symmetric] Let_def column_words_def)
    then have columns: "take cells (sn_reverse_columns s) = sn_reverse_columns s" by simp
    define copy where "copy = created\<lparr>sn_reverse_columns := sn_reverse_columns s\<rparr>"
    from run def Some columns have create: "sg_snapshot_create copy m2 = (b, m') \<and> r = Inr b" if "r = Inr b" for b
      using that by (auto simp: copy_def split: prod.splits)
    obtain b where r: "r = Inr b" using run def Some by (auto split: prod.splits)
    have "sg_reverse_has copy x y z = sg_reverse_has s x y z" for x y z
      using rev by (simp add: sg_reverse_has_def sg_reverse_offset_def copy_def created_def reverse_ok_def A_def[symmetric]
          sg_automaton_state_count_def Let_def column_words_def)
    then have "reverse_ok copy"
      using rev by (simp add: reverse_ok_def copy_def created_def A_def[symmetric] Let_def column_words_def)
    then have inner: "inner_ok copy" using wf by (simp add: inner_ok_def copy_def created_def)
    have "links_ok m2 s"
    proof (rule links_ok_keep[OF snapshot_okD(3)[OF sok]])
      fix tp assume "sm_topologies m ! sn_topology s = Some tp" "sn_topology s < length (sm_topologies m)"
      then show "sn_topology s < length (sm_topologies m2) \<and> (\<exists>r. sm_topologies m2 ! sn_topology s = Some (tp\<lparr>tp_references := r\<rparr>))"
        by (auto simp: m2_def m1_def sg_pair_topology_retain_def topology_update_def Let_def)
    next
      fix i ch assume i: "i < length (sn_chunks s)" and ch: "sn_chunks s ! i < length (sm_chunks m)" "sm_chunks m ! (sn_chunks s ! i) = Some ch"
      have "0 < count_list (sn_chunks s) (sn_chunks s ! i)" using i by (meson count_list_0_iff neq0_conv nth_mem)
      then obtain ch2 where "sn_chunks s ! i < length (sm_chunks m2)" "sm_chunks m2 ! (sn_chunks s ! i) = Some ch2"
        using held_chunk[OF ct, of "sn_chunks s ! i"] by blast
      with chunks_keptD[OF kept ch] show "sn_chunks s ! i < length (sm_chunks m2) \<and>
          (\<exists>ch'. sm_chunks m2 ! (sn_chunks s ! i) = Some ch' \<and> length (ch_records ch') = length (ch_records ch))" by auto
    qed
    then have links2: "links_ok m2 copy" by (simp add: links_ok_def copy_def created_def A_def[symmetric])
    have ctc: "counted m2 (\<lambda>c. count_list (sn_chunks copy) c) ((\<lambda>_. 0)(sn_topology copy := 1))"
      using ct by (simp add: copy_def created_def)
    note path = create_path_ok[OF ok ctc kept snaps inner links2 conjunct1[OF create[OF r]]]
    have "content m' b p = content m a p" if p: "p < snapshot_pairs s" for p
    proof -
      note i = chunk_total_index(1)[OF p]
      let ?c = "sn_chunks s ! (p div SG_SNAPSHOT_RECORD_CHUNK)"
      have "?c \<in> set (sn_chunks s)" using i links(4) by simp
      then have "0 < count_list (sn_chunks s) ?c" by (meson count_list_0_iff neq0_conv)
      then obtain ch2 where ch2: "sm_chunks m2 ! ?c = Some ch2" using held_chunk[OF ct, of ?c] by blast
      from chunks_keptD[OF kept links(5,6)[OF i] ch2] path ch2 show ?thesis
        by (simp add: content_def s_def[symmetric] copy_def created_def)
    qed
    moreover have "snapshot_pairs copy = snapshot_pairs s" by (simp add: snapshot_pairs_def copy_def created_def A_def)
    ultimately have "snapshot_record m' b = snapshot_record m a"
      using path by (auto simp: fun_eq_iff snapshot_record_def s_def[symmetric])
    with path r show ?thesis by (simp add: copy_def created_def A_def s_def)
  qed
qed

end
