(* ===== verification/Sync_Repair_Step.thy ===== *)
theory Sync_Repair_Step
  imports Sync_Repair_Eval
begin

text \<open>
  What one round of a repair does, without the metrics: the pairs that are queued, invalidated and
  written, as functions of the old records and the evaluated ones.
\<close>

section \<open>Lengths\<close>

definition objective_ok :: "nat \<Rightarrow> sg_objective_state \<Rightarrow> bool" where
  "objective_ok n state \<longleftrightarrow> length (os_invalid state) = n \<and> length (os_finalized state) = n \<and>
     length (os_queued state) = n \<and> length (os_changed state) = n \<and> length (os_tentative state) = n"

lemma objective_okD:
  "objective_ok n state \<Longrightarrow> length (os_invalid state) = n"
  "objective_ok n state \<Longrightarrow> length (os_finalized state) = n"
  "objective_ok n state \<Longrightarrow> length (os_queued state) = n"
  "objective_ok n state \<Longrightarrow> length (os_changed state) = n"
  "objective_ok n state \<Longrightarrow> length (os_tentative state) = n"
  by (simp_all add: objective_ok_def)

section \<open>Steps without metrics\<close>

definition collect_write :: "sg_repair_objective \<Rightarrow> nat \<Rightarrow> sg_pair_record \<Rightarrow> sg_pair_record \<Rightarrow>
    sg_objective_state \<times> sg_pair_record list \<Rightarrow> sg_objective_state \<times> sg_pair_record list" where
  "collect_write obj p current candidate = (\<lambda>(state, ws).
     if sg_record_objective_equal current candidate obj then (state, ws)
     else (state\<lparr>os_changed := (os_changed state)[p := True]\<rparr>, ws @ [candidate]))"

definition update_pair :: "sg_repair_objective \<Rightarrow> nat \<times> sg_pair_evaluation \<Rightarrow>
    sg_objective_state \<times> sg_pair_record list \<Rightarrow> sg_objective_state \<times> sg_pair_record list" where
  "update_pair obj = (\<lambda>(p, e) (state, ws).
     let current = pe_current e; candidate = pe_candidate e
     in if sg_record_distance candidate obj > sg_record_distance current obj
        then collect_write obj p current (sg_record_make_unreachable current obj)
               (state\<lparr>os_invalid := (os_invalid state)[p := True], os_invalidated := os_invalidated state @ [p]\<rparr>, ws)
        else if sg_record_distance candidate obj < sg_record_distance current obj
        then collect_write obj p current candidate (sg_queue_decrease p state, ws)
        else collect_write obj p current candidate (state, ws))"

definition decrease_pair :: "sg_repair_objective \<Rightarrow> nat \<times> sg_pair_evaluation \<Rightarrow>
    sg_objective_state \<times> sg_pair_record list \<Rightarrow> sg_objective_state \<times> sg_pair_record list" where
  "decrease_pair obj = (\<lambda>(p, e) (state, ws).
     let (state, ws) = collect_write obj p (pe_current e) (pe_candidate e) (state, ws)
     in (if sg_record_distance (pe_candidate e) obj < sg_record_distance (pe_current e) obj
         then sg_queue_decrease p state else state, ws))"

definition finalize_pair :: "sg_repair_objective \<Rightarrow> nat \<Rightarrow> nat \<times> sg_pair_evaluation \<Rightarrow>
    sg_objective_state \<times> sg_pair_record list \<times> nat list \<Rightarrow>
    sg_objective_state \<times> sg_pair_record list \<times> nat list" where
  "finalize_pair obj distance = (\<lambda>(p, e) (state, ws, finalized).
     let d = sg_record_distance (pe_candidate e) obj
     in if d = SG_INDEX_NONE then (state, ws, finalized)
        else if d \<noteq> distance
        then (state\<lparr>os_tentative := (os_tentative state)[p := d], os_heap := sg_heap_push (os_heap state) p d\<rparr>,
              ws, finalized)
        else let (state, ws) = collect_write obj p (pe_current e) (pe_candidate e)
                   (state\<lparr>os_finalized := (os_finalized state)[p := True]\<rparr>, ws)
             in (sg_queue_decrease p state, ws, finalized @ [p]))"

text \<open>The code's operations do these steps, count, and mark the pair as touched.\<close>

lemma rs_metrics_eq [simp]: "rs_metrics f s = (r, s') \<longleftrightarrow> r = Inr () \<and> s' = s\<lparr>rp_metrics := f (rp_metrics s)\<rparr>"
  by (auto simp: rs_metrics_def)

lemma sg_collect_write_ok:
  assumes "sg_collect_write obj p current candidate (state, ws) s = (r, s')"
  shows "r = Inr (collect_write obj p current candidate (state, ws)) \<and> rp_memory s' = rp_memory s \<and>
    rp_touched s' = rp_touched s \<and> rm_pair_records_touched (rp_metrics s') = rm_pair_records_touched (rp_metrics s)"
proof -
  have "state\<lparr>os_changed := (os_changed state)[p := True]\<rparr> = state" if "os_changed state ! p"
    using that list_update_id[of "os_changed state" p] by simp
  with assms show ?thesis
    by (auto simp: sg_collect_write_def collect_write_def rs_bind_def rs_lift_def sg_count_changed_def
        split: if_splits prod.splits sum.splits)
qed

text \<open>Marking keeps the number of touched pairs and stops beyond the budget.\<close>

definition touched_ok :: "'m sg_repair_state \<Rightarrow> bool" where
  "touched_ok s \<longleftrightarrow> rm_pair_records_touched (rp_metrics s) = length (filter id (rp_touched s))"

lemma length_filter_update:
  "p < length xs \<Longrightarrow> \<not> xs ! p \<Longrightarrow> length (filter id (xs[p := True])) = Suc (length (filter id xs))"
proof (induction xs arbitrary: p)
  case (Cons x xs)
  then show ?case by (cases p) auto
qed simp

lemma sg_mark_touched_ok:
  assumes "sg_mark_touched ctx p s = (r, s')"
  shows "rp_memory s' = rp_memory s \<and> rp_touched s' = (rp_touched s)[p := True] \<and>
    (touched_ok s \<longrightarrow> p < length (rp_touched s) \<longrightarrow> touched_ok s') \<and>
    (r = Inr () \<longrightarrow> rm_pair_records_touched (rp_metrics s') \<le> rc_repair_budget ctx)"
proof (cases "rp_touched s ! p")
  case True
  then have "(rp_touched s)[p := True] = rp_touched s" using list_update_id[of "rp_touched s" p] by simp
  with assms True show ?thesis by (auto simp: sg_mark_touched_def Let_def split: if_splits)
next
  case False
  with assms show ?thesis
    by (auto simp: sg_mark_touched_def Let_def touched_ok_def length_filter_update split: if_splits)
qed

lemma sg_update_pair_ok:
  assumes "sg_update_pair ctx obj p e (state, ws) s = (Inr r, s')"
  shows "r = update_pair obj (p, e) (state, ws) \<and> rp_memory s' = rp_memory s"
proof -
  from assms obtain s1 where mark: "sg_mark_touched ctx p s = (Inr (), s1)"
    and rest: "(let current = pe_current e; candidate = pe_candidate e;
           current_distance = sg_record_distance current obj;
           candidate_distance = sg_record_distance candidate obj
       in if candidate_distance > current_distance
          then rs_bind (sg_invalidate_pair obj p state) (\<lambda>state.
            sg_collect_write obj p current (sg_record_make_unreachable current obj) (state, ws))
          else if candidate_distance < current_distance
          then sg_collect_write obj p current candidate (sg_queue_decrease p state, ws)
          else sg_collect_write obj p current candidate (state, ws)) s1 = (Inr r, s')"
    by (auto simp: sg_update_pair_def)
  show ?thesis
    using rest sg_mark_touched_ok[OF mark]
    by (auto simp: Let_def update_pair_def sg_invalidate_pair_def rs_bind_Inr split: if_splits
        dest!: sg_collect_write_ok)
qed

lemma sg_decrease_pair_ok:
  assumes "sg_decrease_pair ctx obj (p, e) (state, ws) s = (Inr r, s')"
  shows "r = decrease_pair obj (p, e) (state, ws) \<and> rp_memory s' = rp_memory s \<and>
    sg_record_distance (pe_candidate e) obj \<le> sg_record_distance (pe_current e) obj"
proof -
  from assms obtain s1 where mark: "sg_mark_touched ctx p s = (Inr (), s1)"
    and le: "\<not> sg_record_distance (pe_candidate e) obj > sg_record_distance (pe_current e) obj"
    and rest: "rs_bind (sg_collect_write obj p (pe_current e) (pe_candidate e) (state, ws)) (\<lambda>(state, writes).
            rs_lift (Inr (if sg_record_distance (pe_candidate e) obj < sg_record_distance (pe_current e) obj
              then sg_queue_decrease p state else state, writes))) s1 = (Inr r, s')"
    by (auto simp: sg_decrease_pair_def Let_def rs_bind_Inr split: if_splits)
  from rest obtain st1 ws1 s2 where
    cw: "sg_collect_write obj p (pe_current e) (pe_candidate e) (state, ws) s1 = (Inr (st1, ws1), s2)"
    and r: "r = (if sg_record_distance (pe_candidate e) obj < sg_record_distance (pe_current e) obj
              then sg_queue_decrease p st1 else st1, ws1)" and s': "s' = s2"
    by (auto simp: rs_bind_Inr)
  from sg_collect_write_ok[OF cw] sg_mark_touched_ok[OF mark] le r s' show ?thesis
    by (auto simp: decrease_pair_def Let_def split: prod.splits)
qed

lemma sg_finalize_pair_ok:
  assumes "sg_finalize_pair obj distance (p, e) (state, ws, fin) s = (Inr r, s')"
  shows "r = finalize_pair obj distance (p, e) (state, ws, fin) \<and> rp_memory s' = rp_memory s \<and>
    rp_touched s' = rp_touched s \<and> rm_pair_records_touched (rp_metrics s') = rm_pair_records_touched (rp_metrics s)"
proof (cases "sg_record_distance (pe_candidate e) obj = SG_INDEX_NONE \<or> sg_record_distance (pe_candidate e) obj \<noteq> distance")
  case True
  with assms show ?thesis by (auto simp: sg_finalize_pair_def finalize_pair_def Let_def)
next
  case False
  with assms obtain st1 ws1 s2 where
    cw: "sg_collect_write obj p (pe_current e) (pe_candidate e)
      (state\<lparr>os_finalized := (os_finalized state)[p := True]\<rparr>, ws) s = (Inr (st1, ws1), s2)"
    and r: "r = (sg_queue_decrease p st1, ws1, fin @ [p])" and s': "s' = s2"
    by (auto simp: sg_finalize_pair_def Let_def rs_bind_Inr)
  from sg_collect_write_ok[OF cw] False r s' show ?thesis
    by (auto simp: finalize_pair_def Let_def split: prod.splits)
qed

text \<open>A loop of operations that do pure steps does the pure steps.\<close>

lemma rs_fold_pure:
  assumes "\<And>x a s r s'. x \<in> set xs \<Longrightarrow> f x a s = (Inr r, s') \<Longrightarrow> r = g x a \<and> rp_memory s' = rp_memory s"
    and "rs_fold f xs a s = (Inr r, s')"
  shows "r = fold g xs a \<and> rp_memory s' = rp_memory s"
  using assms
proof (induction xs arbitrary: a s)
  case (Cons x xs)
  from Cons.prems(2) obtain b s1 where step: "f x a s = (Inr b, s1)"
    and rest: "rs_fold f xs b s1 = (Inr r, s')" by auto
  have "b = g x a \<and> rp_memory s1 = rp_memory s" using Cons.prems(1)[OF _ step] by simp
  moreover have "r = fold g xs b \<and> rp_memory s' = rp_memory s1"
    by (rule Cons.IH[OF Cons.prems(1) rest]) simp_all
  ultimately show ?case by simp
qed simp

lemma rs_fold_all:
  assumes "\<And>x a s r s'. x \<in> set xs \<Longrightarrow> f x a s = (Inr r, s') \<Longrightarrow> P x"
    and "rs_fold f xs a s = (Inr r, s')" "x \<in> set xs"
  shows "P x"
  using assms
proof (induction xs arbitrary: a s)
  case (Cons y ys)
  from Cons.prems(2) obtain b s1 where step: "f y a s = (Inr b, s1)"
    and rest: "rs_fold f ys b s1 = (Inr r, s')" by auto
  have "P y" by (rule Cons.prems(1)[OF _ step]) simp
  moreover have "P x" if "x \<in> set ys" by (rule Cons.IH[OF Cons.prems(1) rest that]) simp_all
  ultimately show ?case using Cons.prems(3) by auto
qed simp

section \<open>Rounds of steps\<close>

text \<open>Pairs that satisfy a condition are queued, once each.\<close>

definition queue_step :: "nat \<Rightarrow> nat list \<Rightarrow> (nat \<Rightarrow> bool) \<Rightarrow> sg_objective_state \<Rightarrow> sg_objective_state \<Rightarrow> bool" where
  "queue_step n ids P state state' \<longleftrightarrow>
     (\<exists>added. os_decreases state' = os_decreases state @ added \<and> set added \<subseteq> set ids \<and>
        (\<forall>q < n. os_queued state' ! q \<longleftrightarrow> os_queued state ! q \<or> q \<in> set added) \<and>
        (\<forall>q \<in> set ids. P q \<longrightarrow> os_queued state ! q \<or> q \<in> set added))"

lemma queue_step_Nil: "queue_step n [] P state state"
  by (simp add: queue_step_def)

lemma queue_step_Cons:
  assumes "queue_step n [p] P s1 s2" "queue_step n ps P s2 s3" "set ps \<subseteq> {..<n}"
  shows "queue_step n (p # ps) P s1 s3"
proof -
  obtain a1 where a1: "os_decreases s2 = os_decreases s1 @ a1" "set a1 \<subseteq> {p}"
      "\<forall>q < n. os_queued s2 ! q \<longleftrightarrow> os_queued s1 ! q \<or> q \<in> set a1" "P p \<longrightarrow> os_queued s1 ! p \<or> p \<in> set a1"
    using assms(1) by (auto simp: queue_step_def)
  obtain a2 where a2: "os_decreases s3 = os_decreases s2 @ a2" "set a2 \<subseteq> set ps"
      "\<forall>q < n. os_queued s3 ! q \<longleftrightarrow> os_queued s2 ! q \<or> q \<in> set a2"
      "\<forall>q \<in> set ps. P q \<longrightarrow> os_queued s2 ! q \<or> q \<in> set a2"
    using assms(2) by (auto simp: queue_step_def)
  show ?thesis
    unfolding queue_step_def
  proof (intro exI[of _ "a1 @ a2"] conjI ballI impI allI)
    show "set (a1 @ a2) \<subseteq> set (p # ps)" using a1(2) a2(2) by auto
    show "os_queued s1 ! q \<or> q \<in> set (a1 @ a2)" if "q \<in> set (p # ps)" "P q" for q
      using that a1(3,4) a2(4) assms(3) by auto
  qed (use a1 a2 in auto)
qed

lemma queue_step_skip:
  "os_decreases state' = os_decreases state \<Longrightarrow> os_queued state' = os_queued state \<Longrightarrow> \<not> P p \<Longrightarrow>
   queue_step n [p] P state state'"
  by (auto simp: queue_step_def)

lemma queue_step_queue:
  assumes "os_decreases state = os_decreases state0" "os_queued state = os_queued state0"
    and "length (os_queued state0) = n" "p < n"
    and "os_decreases state' = os_decreases (sg_queue_decrease p state)"
    and "os_queued state' = os_queued (sg_queue_decrease p state)"
  shows "queue_step n [p] P state0 state'"
proof (cases "os_queued state0 ! p")
  case True
  with assms show ?thesis
    unfolding queue_step_def by (intro exI[of _ "[]"]) (auto simp: sg_queue_decrease_def)
next
  case False
  with assms show ?thesis
    unfolding queue_step_def
    by (intro exI[of _ "[p]"]) (auto simp: sg_queue_decrease_def nth_list_update)
qed

text \<open>The part of the state that a step of the loops over pairs leaves alone.\<close>

lemma collect_write_simps:
  assumes "collect_write obj p c d (st, ws) = (st', ws')"
  shows "os_invalid st' = os_invalid st" "os_finalized st' = os_finalized st" "os_queued st' = os_queued st"
    "os_tentative st' = os_tentative st" "os_invalidated st' = os_invalidated st"
    "os_decreases st' = os_decreases st" "os_heap st' = os_heap st"
    "length (os_changed st') = length (os_changed st)"
    "ws' = ws @ (if sg_record_objective_equal c d obj then [] else [d])"
  using assms by (auto simp: collect_write_def split: if_splits)

lemma queue_decrease_simps [simp]:
  "os_invalid (sg_queue_decrease p st) = os_invalid st"
  "os_finalized (sg_queue_decrease p st) = os_finalized st"
  "os_changed (sg_queue_decrease p st) = os_changed st"
  "os_tentative (sg_queue_decrease p st) = os_tentative st"
  "os_invalidated (sg_queue_decrease p st) = os_invalidated st"
  "os_heap (sg_queue_decrease p st) = os_heap st"
  "length (os_queued (sg_queue_decrease p st)) = length (os_queued st)"
  by (simp_all add: sg_queue_decrease_def)

text \<open>The record that an update leaves: unreachable if the distance grew, the evaluated one otherwise.\<close>

definition updated :: "sg_repair_objective \<Rightarrow> (nat \<Rightarrow> sg_pair_record) \<Rightarrow> (nat \<Rightarrow> sg_pair_record) \<Rightarrow> nat \<Rightarrow> sg_pair_record" where
  "updated obj f e p =
     (if sg_record_distance (e p) obj > sg_record_distance (f p) obj
      then sg_record_make_unreachable (f p) obj else e p)"

abbreviation grows :: "sg_repair_objective \<Rightarrow> (nat \<Rightarrow> sg_pair_record) \<Rightarrow> (nat \<Rightarrow> sg_pair_record) \<Rightarrow> nat \<Rightarrow> bool" where
  "grows obj f e p \<equiv> sg_record_distance (e p) obj > sg_record_distance (f p) obj"

abbreviation shrinks :: "sg_repair_objective \<Rightarrow> (nat \<Rightarrow> sg_pair_record) \<Rightarrow> (nat \<Rightarrow> sg_pair_record) \<Rightarrow> nat \<Rightarrow> bool" where
  "shrinks obj f e p \<equiv> sg_record_distance (e p) obj < sg_record_distance (f p) obj"

abbreviation evaluation :: "(nat \<Rightarrow> sg_pair_record) \<Rightarrow> (nat \<Rightarrow> sg_pair_record) \<Rightarrow> nat \<Rightarrow> nat \<times> sg_pair_evaluation" where
  "evaluation f e p \<equiv> (p, \<lparr>pe_current = f p, pe_candidate = e p\<rparr>)"

text \<open>The outcome of a loop of updates.\<close>

definition update_step ::
  "nat \<Rightarrow> sg_repair_objective \<Rightarrow> (nat \<Rightarrow> sg_pair_record) \<Rightarrow> (nat \<Rightarrow> sg_pair_record) \<Rightarrow> nat list \<Rightarrow>
     sg_objective_state \<times> sg_pair_record list \<Rightarrow> sg_objective_state \<times> sg_pair_record list \<Rightarrow> bool" where
  "update_step n obj f e ids = (\<lambda>(st, ws) (st', ws').
     objective_ok n st' \<and> queue_step n ids (shrinks obj f e) st st' \<and> os_heap st' = os_heap st \<and>
     ws' = ws @ map (updated obj f e)
       (filter (\<lambda>p. \<not> sg_record_objective_equal (f p) (updated obj f e p) obj) ids) \<and>
     os_invalidated st' = os_invalidated st @ filter (grows obj f e) ids \<and>
     (\<forall>q < n. os_invalid st' ! q \<longleftrightarrow> os_invalid st ! q \<or> q \<in> set ids \<and> grows obj f e q))"

lemma update_pair_step:
  assumes ok: "objective_ok n st" and p: "p < n" and r: "update_pair obj (evaluation f e p) (st, ws) = (st', ws')"
  shows "update_step n obj f e [p] (st, ws) (st', ws')"
proof -
  note len = objective_okD[OF ok]
  consider "grows obj f e p" | "shrinks obj f e p" | "sg_record_distance (e p) obj = sg_record_distance (f p) obj"
    by linarith
  then show ?thesis
  proof cases
    case 1
    with r have cw: "collect_write obj p (f p) (sg_record_make_unreachable (f p) obj)
        (st\<lparr>os_invalid := (os_invalid st)[p := True], os_invalidated := os_invalidated st @ [p]\<rparr>, ws) = (st', ws')"
      by (simp add: update_pair_def Let_def)
    note c = collect_write_simps[OF cw]
    have "queue_step n [p] (shrinks obj f e) st st'" by (rule queue_step_skip) (use c 1 in auto)
    with c len p 1 show ?thesis
      by (auto simp: update_step_def objective_ok_def updated_def nth_list_update)
  next
    case 2
    with r have cw: "collect_write obj p (f p) (e p) (sg_queue_decrease p st, ws) = (st', ws')"
      by (simp add: update_pair_def Let_def)
    note c = collect_write_simps[OF cw]
    have "queue_step n [p] (shrinks obj f e) st st'"
      by (rule queue_step_queue[where state = st]) (use c p len in auto)
    with c len p 2 show ?thesis by (auto simp: update_step_def objective_ok_def updated_def)
  next
    case 3
    with r have cw: "collect_write obj p (f p) (e p) (st, ws) = (st', ws')" by (simp add: update_pair_def Let_def)
    note c = collect_write_simps[OF cw]
    have "queue_step n [p] (shrinks obj f e) st st'" by (rule queue_step_skip) (use c 3 in auto)
    with c len p 3 show ?thesis by (auto simp: update_step_def objective_ok_def updated_def)
  qed
qed

lemma update_step_Cons:
  assumes "update_step n obj f e [p] s1 s2" "update_step n obj f e ps s2 s3" "set ps \<subseteq> {..<n}"
  shows "update_step n obj f e (p # ps) s1 s3"
  using assms queue_step_Cons[of n p "shrinks obj f e" "fst s1" "fst s2" ps "fst s3"]
  by (cases s1; cases s2; cases s3) (auto simp: update_step_def)

lemma update_pairs_step:
  "objective_ok n st \<Longrightarrow> set ids \<subseteq> {..<n} \<Longrightarrow>
   update_step n obj f e ids (st, ws) (fold (update_pair obj) (map (evaluation f e) ids) (st, ws))"
proof (induction ids arbitrary: st ws)
  case Nil
  then show ?case by (simp add: update_step_def queue_step_Nil)
next
  case (Cons p ids)
  obtain st1 ws1 where step: "update_pair obj (evaluation f e p) (st, ws) = (st1, ws1)"
    by (cases "update_pair obj (evaluation f e p) (st, ws)")
  have one: "update_step n obj f e [p] (st, ws) (st1, ws1)"
    using update_pair_step[of n st p obj f e ws st1 ws1] Cons.prems step by simp
  then have "objective_ok n st1" by (simp add: update_step_def)
  from update_step_Cons[OF one Cons.IH[OF this]] Cons.prems(2) step show ?case by simp
qed

text \<open>The same for the propagation, where no distance grows.\<close>

lemma decrease_pair_update:
  assumes "\<not> grows obj f e p"
  shows "decrease_pair obj (evaluation f e p) (st, ws) = update_pair obj (evaluation f e p) (st, ws)"
  using assms by (auto simp: decrease_pair_def update_pair_def collect_write_def sg_queue_decrease_def Let_def)

lemma decrease_pairs_step:
  "objective_ok n st \<Longrightarrow> set ids \<subseteq> {..<n} \<Longrightarrow> (\<And>p. p \<in> set ids \<Longrightarrow> \<not> grows obj f e p) \<Longrightarrow>
   update_step n obj f e ids (st, ws) (fold (decrease_pair obj) (map (evaluation f e) ids) (st, ws))"
proof -
  assume *: "objective_ok n st" "set ids \<subseteq> {..<n}" "\<And>p. p \<in> set ids \<Longrightarrow> \<not> grows obj f e p"
  have "fold (decrease_pair obj) (map (evaluation f e) ids) (st, ws) =
      fold (update_pair obj) (map (evaluation f e) ids) (st, ws)"
    by (rule fold_cong) (auto simp: decrease_pair_update *(3))
  with update_pairs_step[OF *(1,2)] show ?thesis by simp
qed

text \<open>The loop that finalizes pairs of a frontier.\<close>

definition finalize_step ::
  "nat \<Rightarrow> sg_repair_objective \<Rightarrow> nat \<Rightarrow> (nat \<Rightarrow> sg_pair_record) \<Rightarrow> (nat \<Rightarrow> sg_pair_record) \<Rightarrow> nat list \<Rightarrow>
     sg_objective_state \<times> sg_pair_record list \<times> nat list \<Rightarrow> sg_objective_state \<times> sg_pair_record list \<times> nat list \<Rightarrow> bool" where
  "finalize_step n obj distance f e ids = (\<lambda>(st, ws, fin) (st', ws', fin').
     let settles = (\<lambda>p. sg_record_distance (e p) obj = distance \<and> distance \<noteq> SG_INDEX_NONE)
     in objective_ok n st' \<and> queue_step n ids settles st st' \<and> os_invalid st' = os_invalid st \<and>
        fin' = fin @ filter settles ids \<and>
        ws' = ws @ map e (filter (\<lambda>p. settles p \<and> \<not> sg_record_objective_equal (f p) (e p) obj) ids))"

lemma finalize_pair_step:
  assumes ok: "objective_ok n st" and p: "p < n"
    and r: "finalize_pair obj distance (evaluation f e p) (st, ws, fin) = (st', ws', fin')"
  shows "finalize_step n obj distance f e [p] (st, ws, fin) (st', ws', fin')"
proof (cases "sg_record_distance (e p) obj = distance \<and> distance \<noteq> SG_INDEX_NONE")
  case False
  then have same: "os_decreases st' = os_decreases st" "os_queued st' = os_queued st" "ws' = ws" "fin' = fin"
      "objective_ok n st'" "os_invalid st' = os_invalid st"
    using r ok by (auto simp: finalize_pair_def objective_ok_def Let_def split: if_splits)
  have "queue_step n [p] (\<lambda>p. sg_record_distance (e p) obj = distance \<and> distance \<noteq> SG_INDEX_NONE) st st'"
    by (rule queue_step_skip) (use same False in auto)
  with False same show ?thesis by (simp add: finalize_step_def Let_def)
next
  case True
  let ?st = "st\<lparr>os_finalized := (os_finalized st)[p := True]\<rparr>"
  obtain st1 ws1 where cw: "collect_write obj p (f p) (e p) (?st, ws) = (st1, ws1)"
    by (cases "collect_write obj p (f p) (e p) (?st, ws)")
  with r True have r': "st' = sg_queue_decrease p st1" "ws' = ws1" "fin' = fin @ [p]"
    by (auto simp: finalize_pair_def Let_def)
  note c = collect_write_simps[OF cw]
  have "queue_step n [p] (\<lambda>p. sg_record_distance (e p) obj = distance \<and> distance \<noteq> SG_INDEX_NONE) st st'"
    by (rule queue_step_queue[where state = st1]) (use c p r' objective_okD[OF ok] in auto)
  with True c r' ok show ?thesis by (auto simp: finalize_step_def objective_ok_def Let_def)
qed

lemma finalize_step_Cons:
  assumes "finalize_step n obj distance f e [p] s1 s2" "finalize_step n obj distance f e ps s2 s3" "set ps \<subseteq> {..<n}"
  shows "finalize_step n obj distance f e (p # ps) s1 s3"
  using assms queue_step_Cons[of n p "\<lambda>p. sg_record_distance (e p) obj = distance \<and> distance \<noteq> SG_INDEX_NONE"
      "fst s1" "fst s2" ps "fst s3"]
  by (cases s1; cases s2; cases s3) (auto simp: finalize_step_def Let_def)

lemma finalize_pairs_step:
  "objective_ok n st \<Longrightarrow> set ids \<subseteq> {..<n} \<Longrightarrow>
   finalize_step n obj distance f e ids (st, ws, fin)
     (fold (finalize_pair obj distance) (map (evaluation f e) ids) (st, ws, fin))"
proof (induction ids arbitrary: st ws fin)
  case Nil
  then show ?case by (simp add: finalize_step_def queue_step_Nil Let_def)
next
  case (Cons p ids)
  obtain st1 ws1 fin1 where step: "finalize_pair obj distance (evaluation f e p) (st, ws, fin) = (st1, ws1, fin1)"
    by (cases "finalize_pair obj distance (evaluation f e p) (st, ws, fin)")
  have one: "finalize_step n obj distance f e [p] (st, ws, fin) (st1, ws1, fin1)"
    using finalize_pair_step[of n st p obj distance f e ws fin st1 ws1 fin1] Cons.prems step by simp
  then have ok1: "objective_ok n st1" by (simp add: finalize_step_def Let_def)
  obtain st2 ws2 fin2 where rest: "fold (finalize_pair obj distance) (map (evaluation f e) ids) (st1, ws1, fin1) = (st2, ws2, fin2)"
    by (cases "fold (finalize_pair obj distance) (map (evaluation f e) ids) (st1, ws1, fin1)")
  have two: "finalize_step n obj distance f e ids (st1, ws1, fin1) (st2, ws2, fin2)"
    using Cons.IH[OF ok1, of ws1 fin1] Cons.prems(2) rest by simp
  from finalize_step_Cons[OF one two] Cons.prems(2) show ?case by (simp add: step rest)
qed

end
