(* ===== verification/Sync_Repair_Sound.thy ===== *)
theory Sync_Repair_Sound
  imports Sync_Repair_Step
begin

text \<open>
  What a successful repair leaves in a store: every record is either the one that evaluation gives or
  unreachable. The invariant of the phases is that a record that is neither has a target whose
  distance changed and which still waits in one of the two lists.
\<close>

section \<open>Settled records\<close>

definition reachable_flag :: "sg_repair_objective \<Rightarrow> sg_pair_record \<Rightarrow> bool" where
  "reachable_flag obj r = (if obj = SG_REPAIR_MERGE then rec_mergeable r else rec_resolvable r)"

definition root_candidate :: sg_candidate_state where
  "root_candidate = \<lparr>cs_distance = 0, cs_action = SG_INDEX_NONE, cs_target = SG_INDEX_NONE, cs_support_count = 0\<rparr>"

definition unreachable_record :: "sg_repair_objective \<Rightarrow> sg_pair_record \<Rightarrow> bool" where
  "unreachable_record obj r \<longleftrightarrow> \<not> reachable_flag obj r \<and> sg_candidate_of r obj = no_candidate"

text \<open>A record fits a pair if it is that of a root, unreachable, or the best candidate.\<close>

definition record_fits ::
  "'m sg_repair_context \<Rightarrow> sg_repair_objective \<Rightarrow> (nat \<Rightarrow> nat \<Rightarrow> nat) \<Rightarrow> (nat \<Rightarrow> nat \<Rightarrow> bool) \<Rightarrow>
     (nat \<Rightarrow> sg_pair_record) \<Rightarrow> nat \<Rightarrow> sg_pair_record \<Rightarrow> bool" where
  "record_fits ctx obj target differ f p r \<longleftrightarrow>
     (reachable_flag obj r \<longleftrightarrow> sg_record_distance r obj \<noteq> SG_INDEX_NONE) \<and>
     (if rc_diagonal ctx ! p then sg_candidate_of r obj = root_candidate
      else sg_candidate_of r obj = no_candidate \<or>
           sg_candidate_of r obj = best_candidate obj target differ f (st_action_count (rc_store ctx)) p)"

definition settled ::
  "'m sg_repair_context \<Rightarrow> sg_repair_objective \<Rightarrow> (nat \<Rightarrow> nat \<Rightarrow> nat) \<Rightarrow> (nat \<Rightarrow> nat \<Rightarrow> bool) \<Rightarrow>
     (nat \<Rightarrow> sg_pair_record) \<Rightarrow> nat \<Rightarrow> bool" where
  "settled ctx obj target differ f p \<longleftrightarrow> record_fits ctx obj target differ f p (f p)"

lemma sg_record_objective_equal_iff:
  "sg_record_objective_equal r r' obj \<longleftrightarrow>
     reachable_flag obj r = reachable_flag obj r' \<and> sg_candidate_of r obj = sg_candidate_of r' obj"
  by (cases obj) (auto simp: sg_record_objective_equal_def reachable_flag_def sg_candidate_of_def
      sg_record_distance_def)

lemma sg_record_distance_candidate: "sg_record_distance r obj = cs_distance (sg_candidate_of r obj)"
  by (simp add: sg_candidate_of_def)

lemma record_fits_equal:
  "sg_record_objective_equal r r' obj \<Longrightarrow> record_fits ctx obj target differ f p r \<longleftrightarrow> record_fits ctx obj target differ f p r'"
  by (simp add: record_fits_def sg_record_objective_equal_iff sg_record_distance_candidate)

lemma reachable_flag_store [simp]:
  "reachable_flag obj (sg_candidate_store r obj c) \<longleftrightarrow> cs_distance c \<noteq> SG_INDEX_NONE"
  by (cases obj) (simp_all add: reachable_flag_def sg_candidate_store_def)

lemma root_record [simp]:
  "sg_candidate_of (sg_record_make_root r obj) obj = root_candidate"
  "reachable_flag obj (sg_record_make_root r obj)"
  by (cases obj; simp add: sg_candidate_of_def sg_record_make_root_def root_candidate_def reachable_flag_def
      sg_record_distance_def)+

lemma root_candidate_simps [simp]: "cs_distance root_candidate = 0" "cs_distance no_candidate = SG_INDEX_NONE"
  by (simp_all add: root_candidate_def no_candidate_def)

lemma evaluated_fits: "record_fits ctx obj target differ f p (evaluated ctx obj target differ f p)"
  by (simp add: record_fits_def evaluated_def sg_record_distance_candidate SIZE_MAX_def)

lemma unreachable_fits:
  "\<not> rc_diagonal ctx ! p \<Longrightarrow> unreachable_record obj r \<Longrightarrow> record_fits ctx obj target differ f p r"
  by (simp add: record_fits_def unreachable_record_def sg_record_distance_candidate)

lemma make_unreachable_unreachable: "unreachable_record obj (sg_record_make_unreachable r obj)"
  by (simp add: unreachable_record_def sg_record_make_unreachable_eq)

text \<open>A root that fits is not touched by the evaluation.\<close>

lemma diagonal_evaluated:
  assumes "rc_diagonal ctx ! p" "settled ctx obj target differ f p"
  shows "sg_record_objective_equal (f p) (evaluated ctx obj target differ f p) obj"
  using assms by (auto simp: settled_def record_fits_def evaluated_def sg_record_objective_equal_iff
      sg_record_distance_candidate SIZE_MAX_def)

section \<open>The other objective\<close>

definition other_objective :: "sg_repair_objective \<Rightarrow> sg_repair_objective" where
  "other_objective obj = (if obj = SG_REPAIR_MERGE then SG_REPAIR_RESOLUTION else SG_REPAIR_MERGE)"

definition same_other :: "sg_repair_objective \<Rightarrow> (nat \<Rightarrow> sg_pair_record) \<Rightarrow> (nat \<Rightarrow> sg_pair_record) \<Rightarrow> bool" where
  "same_other obj f g \<longleftrightarrow> (\<forall>p. sg_record_objective_equal (f p) (g p) (other_objective obj))"

lemma same_other_refl [simp]: "same_other obj f f"
  by (simp add: same_other_def sg_record_objective_equal_iff)

lemma same_other_trans: "same_other obj f g \<Longrightarrow> same_other obj g h \<Longrightarrow> same_other obj f h"
  by (simp add: same_other_def sg_record_objective_equal_iff)

lemma other_of_evaluated:
  "sg_record_objective_equal r (sg_candidate_store r obj c) (other_objective obj)"
  "sg_record_objective_equal r (sg_record_make_root r obj) (other_objective obj)"
  by (cases obj; simp add: sg_record_objective_equal_def other_objective_def sg_candidate_store_def
      sg_record_make_root_def)+

lemma rec_pair_evaluated [simp]: "rec_pair (evaluated ctx obj target differ f p) = rec_pair (f p)"
  by (simp add: evaluated_def sg_record_make_root_def)

lemma evaluated_other:
  "sg_record_objective_equal (f p) (evaluated ctx obj target differ f p) (other_objective obj)"
  by (simp add: evaluated_def other_of_evaluated)

lemma updated_other:
  "sg_record_objective_equal (f p) (updated obj f (evaluated ctx obj target differ f) p) (other_objective obj)"
  by (simp add: updated_def evaluated_other sg_record_make_unreachable_eq other_of_evaluated)

lemma rec_pair_updated: "rec_pair (updated obj f (evaluated ctx obj target differ f) p) = rec_pair (f p)"
  by (simp add: updated_def sg_record_make_unreachable_eq)

section \<open>Writing a batch\<close>

lemma put_batch:
  assumes "distinct ids" "\<And>p. p \<in> set ids \<Longrightarrow> rec_pair (w p) = p"
  shows "put_records (map w (filter P ids)) f p = (if p \<in> set ids \<and> P p then w p else f p)"
proof (cases "p \<in> set ids \<and> P p")
  case True
  have "map rec_pair (map w (filter P ids)) = filter P ids"
    using assms(2) by (induction ids) auto
  then have "distinct (map rec_pair (map w (filter P ids)))" using assms(1) by simp
  from put_records_in[OF this, of "w p" f] True assms(2) show ?thesis by simp
next
  case False
  then have "p \<notin> rec_pair ` set (map w (filter P ids))" using assms(2) by auto
  with put_records_other[OF this, of f] False show ?thesis by auto
qed

text \<open>
  \<open>pending_ok D f\<close>: a record that does not fit has a target in \<open>D\<close>. After a batch of pairs was
  evaluated and written, \<open>D\<close> has to hold the pairs of the batch whose distance changed.
\<close>

definition pending_ok ::
  "'m sg_repair_context \<Rightarrow> sg_repair_objective \<Rightarrow> (nat \<Rightarrow> nat \<Rightarrow> nat) \<Rightarrow> (nat \<Rightarrow> nat \<Rightarrow> bool) \<Rightarrow> nat set \<Rightarrow>
     (nat \<Rightarrow> sg_pair_record) \<Rightarrow> bool" where
  "pending_ok ctx obj target differ D f \<longleftrightarrow>
     (\<forall>p < st_pair_count (rc_store ctx). settled ctx obj target differ f p \<or>
        \<not> rc_diagonal ctx ! p \<and> (\<exists>a < st_action_count (rc_store ctx). target p a \<in> D))"

lemma settled_step:
  assumes old: "\<And>p. p < st_pair_count (rc_store ctx) \<Longrightarrow> p \<notin> S \<Longrightarrow>
        settled ctx obj target differ f p \<or>
        \<not> rc_diagonal ctx ! p \<and> (\<exists>a < st_action_count (rc_store ctx). target p a \<in> D)"
    and new: "\<And>p. p \<in> S \<Longrightarrow> record_fits ctx obj target differ f p (g p)"
    and same: "\<And>p. p \<notin> S \<Longrightarrow> g p = f p"
    and changed: "\<And>p. p \<in> S \<Longrightarrow> sg_record_distance (g p) obj \<noteq> sg_record_distance (f p) obj \<Longrightarrow> p \<in> D"
  shows "pending_ok ctx obj target differ D g"
  unfolding pending_ok_def
proof (intro allI impI)
  fix p assume p: "p < st_pair_count (rc_store ctx)"
  let ?k = "st_action_count (rc_store ctx)"
  show "settled ctx obj target differ g p \<or>
    \<not> rc_diagonal ctx ! p \<and> (\<exists>a < ?k. target p a \<in> D)"
  proof (cases "rc_diagonal ctx ! p \<or> \<not> (\<exists>a < ?k. target p a \<in> D)")
    case True
    have fits: "record_fits ctx obj target differ f p (g p)"
    proof (cases "p \<in> S")
      case False
      with True old[OF p False] same show ?thesis by (auto simp: settled_def)
    qed (rule new)
    show ?thesis
    proof (cases "rc_diagonal ctx ! p")
      case True
      with fits show ?thesis by (simp add: settled_def record_fits_def)
    next
      case False
      have "sg_record_distance (g t) obj = sg_record_distance (f t) obj" if "t \<notin> D" for t
        using that changed same by (cases "t \<in> S") auto
      with True False have "arc_reach obj target differ f p a = arc_reach obj target differ g p a" if "a < ?k" for a
        using that by (auto simp: arc_reach_def Let_def)
      then have "best_candidate obj target differ f ?k p = best_candidate obj target differ g ?k p"
        by (rule best_candidate_cong)
      with fits False show ?thesis by (simp add: settled_def record_fits_def)
    qed
  qed blast
qed

lemma pending_ok_empty:
  "pending_ok ctx obj target differ {} f \<longleftrightarrow> (\<forall>p < st_pair_count (rc_store ctx). settled ctx obj target differ f p)"
  by (simp add: pending_ok_def)

section \<open>The phases\<close>

text \<open>The objective state of the first phases: what is queued waits in \<open>D\<close>.\<close>

definition queued_in :: "nat \<Rightarrow> nat set \<Rightarrow> sg_objective_state \<Rightarrow> bool" where
  "queued_in n D state \<longleftrightarrow> (\<forall>p < n. os_queued state ! p \<longrightarrow> p \<in> D)"

locale repair_run = pair_store +
  fixes ctx :: "'a sg_repair_context" and obj :: sg_repair_objective
  assumes ctx: "rc_store ctx = store"
begin

abbreviation "n \<equiv> st_pair_count store"
abbreviation "k \<equiv> st_action_count store"
abbreviation "eval \<equiv> evaluated ctx obj target differ"
abbreviation "pending \<equiv> pending_ok ctx obj target differ"

definition phase_two :: "nat \<Rightarrow> sg_objective_state \<Rightarrow> (nat \<Rightarrow> sg_pair_record) \<Rightarrow> bool" where
  "phase_two head st f \<longleftrightarrow> objective_ok n st \<and> queued_in n (set (os_decreases st)) st \<and>
     (\<forall>p < n. os_invalid st ! p \<longrightarrow> unreachable_record obj (f p)) \<and>
     pending (set (drop head (os_invalidated st)) \<union> set (os_decreases st)) f"

definition phase_three :: "sg_objective_state \<Rightarrow> (nat \<Rightarrow> sg_pair_record) \<Rightarrow> bool" where
  "phase_three st f \<longleftrightarrow> objective_ok n st \<and> queued_in n (set (os_decreases st)) st \<and>
     pending (set (os_decreases st)) f"

definition phase_four :: "nat \<Rightarrow> sg_objective_state \<Rightarrow> (nat \<Rightarrow> sg_pair_record) \<Rightarrow> bool" where
  "phase_four head st f \<longleftrightarrow> objective_ok n st \<and> queued_in n (set (drop head (os_decreases st))) st \<and>
     pending (set (drop head (os_decreases st))) f"

lemma settled_or_pending:
  "pending D f \<Longrightarrow> p < n \<Longrightarrow> settled ctx obj target differ f p \<or> \<not> rc_diagonal ctx ! p \<and> (\<exists>a < k. target p a \<in> D)"
  by (simp add: pending_ok_def ctx)

lemma write_records_ok:
  assumes "inv (rp_memory s)" "sg_write_records ctx ws s = (Inr (), s')"
  shows "inv (rp_memory s') \<and> record_of (rp_memory s') = put_records ws (record_of (rp_memory s))"
proof (cases "ws = []")
  case True
  with assms show ?thesis by (simp add: sg_write_records_def)
next
  case False
  obtain status m' where w: "the (st_write_records store) (rp_memory s) ws = (status, m')" by fastforce
  from write_records[OF assms(1) w] assms(2) False w show ?thesis
    by (auto simp: sg_write_records_def ctx Let_def split: if_splits)
qed

text \<open>A batch of updates, and what it writes.\<close>

lemma update_batch:
  assumes inv: "inv m" and ids: "distinct ids" "set ids \<subseteq> {..<n}"
    and step: "update_step n obj (record_of m) (eval (record_of m)) ids (st, []) (st', ws)"
    and queued: "queued_in n D st"
    and old: "\<forall>p < n. p \<notin> set ids \<longrightarrow> settled ctx obj target differ (record_of m) p \<or>
        \<not> rc_diagonal ctx ! p \<and> (\<exists>a < k. target p a \<in> D)"
    and diagonal: "\<forall>p \<in> set ids. rc_diagonal ctx ! p \<longrightarrow> settled ctx obj target differ (record_of m) p"
  shows "pending (set (filter (grows obj (record_of m) (eval (record_of m))) ids) \<union> D \<union>
        set (drop (length (os_decreases st)) (os_decreases st'))) (put_records ws (record_of m))"
    and "same_other obj (record_of m) (put_records ws (record_of m))"
    and "p \<in> set ids \<Longrightarrow> grows obj (record_of m) (eval (record_of m)) p \<Longrightarrow>
      unreachable_record obj (put_records ws (record_of m) p)"
    and "p \<notin> set ids \<Longrightarrow> put_records ws (record_of m) p = record_of m p"
    and "queued_in n (D \<union> set (drop (length (os_decreases st)) (os_decreases st'))) st'"
    and "os_decreases st' = os_decreases st @ drop (length (os_decreases st)) (os_decreases st')"
proof -
  define f where "f = record_of m"
  define w where "w = updated obj f (eval f)"
  define g where "g = put_records ws f"
  have ws: "ws = map w (filter (\<lambda>p. \<not> sg_record_objective_equal (f p) (w p) obj) ids)"
    using step by (simp add: update_step_def w_def f_def)
  have rec_w: "rec_pair (w p) = p" if "p \<in> set ids" for p
    using that ids(2) rec_pair_record[OF inv] by (auto simp: w_def rec_pair_updated f_def)
  have g: "g p = (if p \<in> set ids \<and> \<not> sg_record_objective_equal (f p) (w p) obj then w p else f p)" for p
    unfolding g_def ws by (rule put_batch[OF ids(1) rec_w])
  have g_w: "sg_record_objective_equal (g p) (w p) obj" if "p \<in> set ids" for p
    using that by (auto simp: g sg_record_objective_equal_iff)
  have not_grow: "\<not> grows obj f (eval f) p" if "p \<in> set ids" "rc_diagonal ctx ! p" for p
  proof -
    have "settled ctx obj target differ f p" using diagonal that by (simp add: f_def)
    from diagonal_evaluated[OF that(2) this] show ?thesis
      by (simp add: sg_record_objective_equal_iff sg_record_distance_candidate)
  qed
  have fits: "record_fits ctx obj target differ f p (g p)" if "p \<in> set ids" for p
  proof -
    have "record_fits ctx obj target differ f p (w p)"
      using not_grow[OF that]
      by (cases "rc_diagonal ctx ! p")
        (simp_all add: w_def updated_def evaluated_fits unreachable_fits make_unreachable_unreachable)
    then show ?thesis by (rule record_fits_equal[OF g_w[OF that], THEN iffD2])
  qed
  obtain added where added: "os_decreases st' = os_decreases st @ added" "set added \<subseteq> set ids"
      "\<forall>q < n. os_queued st' ! q \<longleftrightarrow> os_queued st ! q \<or> q \<in> set added"
      "\<forall>q \<in> set ids. shrinks obj f (eval f) q \<longrightarrow> os_queued st ! q \<or> q \<in> set added"
    using step by (auto simp: update_step_def queue_step_def f_def)
  have "p \<in> set (filter (grows obj f (eval f)) ids) \<union> D \<union>
      set (drop (length (os_decreases st)) (os_decreases st'))"
    if p: "p \<in> set ids" and d: "sg_record_distance (g p) obj \<noteq> sg_record_distance (f p) obj" for p
  proof (rule ccontr)
    assume not: "p \<notin> set (filter (grows obj f (eval f)) ids) \<union> D \<union>
      set (drop (length (os_decreases st)) (os_decreases st'))"
    with p have ng: "\<not> grows obj f (eval f) p" by simp
    have "p < n" using p ids(2) by auto
    with not p added(4) queued have "\<not> shrinks obj f (eval f) p" by (auto simp: added(1) queued_in_def)
    with ng have "sg_record_distance (w p) obj = sg_record_distance (f p) obj" by (simp add: w_def updated_def)
    with d g_w[OF p] show False by (simp add: sg_record_objective_equal_iff sg_record_distance_candidate)
  qed
  then show "pending (set (filter (grows obj (record_of m) (eval (record_of m))) ids) \<union> D \<union>
        set (drop (length (os_decreases st)) (os_decreases st'))) (put_records ws (record_of m))"
    using old fits g added(1)
    by (intro settled_step[where S = "set ids" and f = f, folded g_def]) (force simp: ctx f_def g_def)+
  show "same_other obj (record_of m) (put_records ws (record_of m))"
    using g updated_other[where f = f and ctx = ctx and obj = obj and target = target and differ = differ]
    by (simp add: same_other_def f_def[symmetric] g_def[symmetric] w_def sg_record_objective_equal_iff)
  show "p \<notin> set ids \<Longrightarrow> put_records ws (record_of m) p = record_of m p"
    using g[of p] by (simp add: g_def f_def)
  show "p \<in> set ids \<Longrightarrow> grows obj (record_of m) (eval (record_of m)) p \<Longrightarrow>
      unreachable_record obj (put_records ws (record_of m) p)"
    using g_w[of p] make_unreachable_unreachable[of obj "f p"]
    by (simp add: g_def[symmetric] f_def[symmetric] w_def updated_def unreachable_record_def sg_record_objective_equal_iff)
  show "queued_in n (D \<union> set (drop (length (os_decreases st)) (os_decreases st'))) st'"
    using queued added(1,3) by (auto simp: queued_in_def)
  show "os_decreases st' = os_decreases st @ drop (length (os_decreases st)) (os_decreases st')"
    by (simp add: added(1))
qed

text \<open>The evaluations of a batch as pairs of old and new records.\<close>

lemma zip_evaluations:
  "zip ids (map (final_evaluation ctx obj target differ f) ids) = map (evaluation f (eval f)) ids"
  by (induction ids) (simp_all add: final_evaluation_def)

lemma update_loop:
  assumes "rs_fold (\<lambda>(pair, e). sg_update_pair ctx obj pair e) (map (evaluation f e) ids) (st, ws) s = (Inr r, s')"
  shows "r = fold (update_pair obj) (map (evaluation f e) ids) (st, ws) \<and> rp_memory s' = rp_memory s"
  by (rule rs_fold_pure[OF _ assms]) (auto dest: sg_update_pair_ok split: prod.splits)

lemma settled_initially:
  "phase_three (sg_objective_state_init n) f \<longleftrightarrow> (\<forall>p < n. settled ctx obj target differ f p)"
  by (simp add: phase_three_def objective_ok_def sg_objective_state_init_def queued_in_def pending_ok_empty ctx)

lemma seed_pairs_loop:
  assumes "rs_fold (sg_seed_pair ctx obj) (map (evaluation f e) ids) (st, ws) s = (Inr r, s')"
  shows "r = fold (update_pair obj) (map (evaluation f e) (filter (\<lambda>p. \<not> rc_diagonal ctx ! p) ids)) (st, ws) \<and>
    rp_memory s' = rp_memory s"
proof -
  let ?g = "\<lambda>(p, e) a. if rc_diagonal ctx ! p then a else update_pair obj (p, e) a"
  have "r = fold ?g (map (evaluation f e) ids) (st, ws) \<and> rp_memory s' = rp_memory s"
    by (rule rs_fold_pure[OF _ assms])
      (auto simp: sg_seed_pair_def split: if_splits prod.splits dest: sg_update_pair_ok)
  moreover have "fold ?g (map (evaluation f e) ids) a =
      fold (update_pair obj) (map (evaluation f e) (filter (\<lambda>p. \<not> rc_diagonal ctx ! p) ids)) a" for a
    by (induction ids arbitrary: a) simp_all
  ultimately show ?thesis by simp
qed

lemma seed_phase:
  assumes inv: "inv (rp_memory s)"
    and seeds: "\<And>p. p < n \<Longrightarrow> p \<notin> set seeds \<or> rc_diagonal ctx ! p \<Longrightarrow>
        settled ctx obj target differ (record_of (rp_memory s)) p"
    and run: "sg_seed_objective_changes ctx (sg_objective_state_init n) seeds obj s = (Inr st, s')"
  shows "inv (rp_memory s') \<and> phase_two 0 st (record_of (rp_memory s')) \<and>
    same_other obj (record_of (rp_memory s)) (record_of (rp_memory s'))"
proof -
  let ?init = "sg_objective_state_init n"
  define f where "f = record_of (rp_memory s)"
  define ids where "ids = filter (\<lambda>p. \<not> rc_diagonal ctx ! p) seeds"
  from run obtain evs s1 ws s2 where
    ev: "sg_evaluate_pairs ctx seeds obj s = (Inr evs, s1)"
    and loop: "rs_fold (sg_seed_pair ctx obj) (zip seeds evs) (?init, []) s1 = (Inr (st, ws), s2)"
    and written: "sg_write_records ctx ws s2 = (Inr (), s')"
    by (auto simp: sg_seed_objective_changes_def)
  note e = evaluate_pairs_ok[OF ctx inv ev]
  have "zip seeds evs = map (evaluation f (eval f)) seeds" using e by (simp add: zip_evaluations f_def)
  with seed_pairs_loop[of f "eval f" seeds ?init "[]" s1 "(st, ws)" s2] loop
  have r: "(st, ws) = fold (update_pair obj) (map (evaluation f (eval f)) ids) (?init, [])"
    and mem: "rp_memory s2 = rp_memory s1" by (auto simp: ids_def)
  have ok: "objective_ok n ?init" by (simp add: objective_ok_def sg_objective_state_init_def)
  have ids: "distinct ids" "set ids \<subseteq> {..<n}" using e by (auto simp: ids_def)
  note step = update_pairs_step[OF ok ids(2), of obj f "eval f" "[]", folded r]
  note w = write_records_ok[OF _ written]
  have mem': "rp_memory s2 = rp_memory s" using mem e by simp
  have inv': "inv (rp_memory s')" and g: "record_of (rp_memory s') = put_records ws f"
    using w inv mem' by (simp_all add: f_def)
  have queued: "queued_in n (set (os_decreases ?init)) ?init"
    by (simp add: queued_in_def sg_objective_state_init_def)
  have old: "\<forall>p < n. p \<notin> set ids \<longrightarrow> settled ctx obj target differ f p \<or>
      \<not> rc_diagonal ctx ! p \<and> (\<exists>a < k. target p a \<in> set (os_decreases ?init))"
    using seeds by (auto simp: ids_def f_def)
  have diag: "\<forall>p \<in> set ids. rc_diagonal ctx ! p \<longrightarrow> settled ctx obj target differ f p"
    by (simp add: ids_def)
  note batch = update_batch[OF inv ids step[unfolded f_def] queued old[unfolded f_def] diag[unfolded f_def], folded f_def]
  have D: "set (os_decreases ?init) \<union> set (drop (length (os_decreases ?init)) (os_decreases st)) = set (os_decreases st)"
    using arg_cong[OF batch(6), of set] by simp
  have invalid: "os_invalidated st = filter (grows obj f (eval f)) ids"
    "\<forall>q < n. os_invalid st ! q \<longleftrightarrow> q \<in> set ids \<and> grows obj f (eval f) q" "objective_ok n st"
    using step by (auto simp: update_step_def sg_objective_state_init_def)
  have "phase_two 0 st (record_of (rp_memory s'))"
    using batch(1)[unfolded Un_assoc D] batch(3) batch(5)[unfolded D] invalid by (simp add: phase_two_def g)
  with inv' batch(2) show ?thesis by (simp add: g f_def)
qed

text \<open>The sources of a batch of targets.\<close>

lemma collect_source_loop:
  assumes "fold_res (sg_collect_source ctx excluded) arcs (pos, sources) = Inr (pos', sources')"
    and "length pos = n" "\<forall>p < n. pos ! p \<noteq> SG_INDEX_NONE \<longrightarrow> p \<in> set sources"
  shows "set sources' = set sources \<union> {p \<in> arc_source_pair ` set arcs.
      \<not> rc_diagonal ctx ! p \<and> (excluded = NULL \<or> \<not> the excluded ! p)}"
proof -
  let ?ok = "\<lambda>p. \<not> rc_diagonal ctx ! p \<and> (excluded = NULL \<or> \<not> the excluded ! p)"
  show ?thesis
    using assms
  proof (induction arcs arbitrary: pos sources)
    case (Cons arc arcs)
    let ?p = "arc_source_pair arc"
    from Cons.prems(1) obtain pos1 sources1 where
      step: "sg_collect_source ctx excluded arc (pos, sources) = Inr (pos1, sources1)"
      and rest: "fold_res (sg_collect_source ctx excluded) arcs (pos1, sources1) = Inr (pos', sources')"
      by auto
    from step have p: "?p < n" by (auto simp: sg_collect_source_def ctx Let_def split: if_splits)
    have one: "length pos1 = n \<and> (\<forall>p < n. pos1 ! p \<noteq> SG_INDEX_NONE \<longrightarrow> p \<in> set sources1) \<and>
        set sources1 = set sources \<union> (if ?ok ?p then {?p} else {})"
      using step Cons.prems(2,3) p
      by (auto simp: sg_collect_source_def Let_def nth_list_update split: if_splits)
    then have "set sources' = set sources1 \<union> {p \<in> arc_source_pair ` set arcs. ?ok p}" using Cons.IH[OF rest] by blast
    also have "\<dots> = set sources \<union> {p \<in> arc_source_pair ` set (arc # arcs). ?ok p}"
      using one by (cases "?ok ?p") (simp_all, blast+)
    finally show ?case .
  qed simp
qed

lemma collect_sources_ok:
  assumes inv: "inv (rp_memory s)" and run: "sg_collect_sources ctx targets excluded s = (Inr sources, s')"
  shows "rp_memory s' = rp_memory s \<and>
    set sources = {p. p < n \<and> \<not> rc_diagonal ctx ! p \<and> (excluded = NULL \<or> \<not> the excluded ! p) \<and>
      (\<exists>a < k. target p a \<in> set targets)}"
proof -
  from run obtain arcs s1 pos where read: "rs_read_incoming ctx targets s = (Inr arcs, s1)"
    and loop: "fold_res (sg_collect_source ctx excluded) arcs (replicate n SG_INDEX_NONE, []) = Inr (pos, sources)"
    and s': "s' = s1"
    by (auto simp: sg_collect_sources_def ctx)
  from read have mem: "rp_memory s1 = rp_memory s"
    and "the (st_read_incoming store) (rp_memory s) targets = (SG_OK, arcs)"
    by (auto simp: rs_read_incoming_def ctx Let_def split: prod.splits if_splits)
  note arcs = read_incoming[OF inv this(2)]
  have "arc_source_pair ` set arcs = {p. p < n \<and> (\<exists>a < k. target p a \<in> set targets)}" (is "?l = ?r")
  proof
    show "?l \<subseteq> ?r" unfolding arcs by (auto simp: graph_arc_def)
    show "?r \<subseteq> ?l"
    proof
      fix p assume "p \<in> ?r"
      then obtain a where "p < n" "a < k" "target p a \<in> set targets" by blast
      then have "graph_arc target differ p a \<in> set arcs" unfolding arcs by blast
      then show "p \<in> ?l" by (rule image_eqI[rotated]) (simp add: graph_arc_def)
    qed
  qed
  with collect_source_loop[OF loop] mem s' show ?thesis by auto
qed

lemma invalidate_round:
  assumes inv: "inv (rp_memory s)" and two: "phase_two head st (record_of (rp_memory s))"
    and run: "sg_invalidate_round ctx obj head st s = (Inr st', s')"
  shows "inv (rp_memory s') \<and> phase_two (length (os_invalidated st)) st' (record_of (rp_memory s')) \<and>
    same_other obj (record_of (rp_memory s)) (record_of (rp_memory s'))"
proof -
  define f where "f = record_of (rp_memory s)"
  let ?batch = "drop head (os_invalidated st)"
  from run obtain ids s0 evs s1 ws s2 where
    src: "sg_collect_sources ctx ?batch (Ref (os_invalid st)) s = (Inr ids, s0)"
    and ev: "sg_evaluate_pairs ctx ids obj s0 = (Inr evs, s1)"
    and loop: "rs_fold (\<lambda>(pair, e). sg_update_pair ctx obj pair e) (zip ids evs) (st, []) s1 = (Inr (st', ws), s2)"
    and written: "sg_write_records ctx ws s2 = (Inr (), s')"
    by (auto simp: sg_invalidate_round_def)
  note c = collect_sources_ok[OF inv src]
  have inv0: "inv (rp_memory s0)" using c inv by simp
  note e = evaluate_pairs_ok[OF ctx inv0 ev]
  have "zip ids evs = map (evaluation f (eval f)) ids" using e c by (simp add: zip_evaluations f_def)
  with update_loop[of f "eval f" ids st "[]" s1 "(st', ws)" s2] loop
  have r: "(st', ws) = fold (update_pair obj) (map (evaluation f (eval f)) ids) (st, [])"
    and mem: "rp_memory s2 = rp_memory s" using e c by auto
  have ok: "objective_ok n st" and queued: "queued_in n (set (os_decreases st)) st"
    and invalid: "\<And>p. p < n \<Longrightarrow> os_invalid st ! p \<Longrightarrow> unreachable_record obj (f p)"
    and pend: "pending (set ?batch \<union> set (os_decreases st)) f"
    using two by (auto simp: phase_two_def f_def)
  have ids: "distinct ids" "set ids \<subseteq> {..<n}" using e by auto
  note step = update_pairs_step[OF ok ids(2), of obj f "eval f" "[]", folded r]
  note w = write_records_ok[OF _ written]
  have inv': "inv (rp_memory s')" and g: "record_of (rp_memory s') = put_records ws f"
    using w inv mem by (simp_all add: f_def)
  have old: "\<forall>p < n. p \<notin> set ids \<longrightarrow> settled ctx obj target differ f p \<or>
      \<not> rc_diagonal ctx ! p \<and> (\<exists>a < k. target p a \<in> set (os_decreases st))"
  proof (intro allI impI)
    fix p assume p: "p < n" "p \<notin> set ids"
    show "settled ctx obj target differ f p \<or>
      \<not> rc_diagonal ctx ! p \<and> (\<exists>a < k. target p a \<in> set (os_decreases st))"
    proof (cases "settled ctx obj target differ f p")
      case False
      with settled_or_pending[OF pend p(1)] have nd: "\<not> rc_diagonal ctx ! p"
        and t: "\<exists>a < k. target p a \<in> set ?batch \<union> set (os_decreases st)" by auto
      have "\<not> os_invalid st ! p"
        using False invalid[OF p(1)] unreachable_fits[OF nd] by (auto simp: settled_def)
      with p c nd have "\<not> (\<exists>a < k. target p a \<in> set ?batch)" by auto
      with t nd show ?thesis by auto
    qed simp
  qed
  have diag: "\<forall>p \<in> set ids. rc_diagonal ctx ! p \<longrightarrow> settled ctx obj target differ f p"
    using c by simp
  note batch = update_batch[OF inv ids step[unfolded f_def] queued old[unfolded f_def] diag[unfolded f_def], folded f_def]
  have D: "set (os_decreases st) \<union> set (drop (length (os_decreases st)) (os_decreases st')) = set (os_decreases st')"
    using arg_cong[OF batch(6), of set] by simp
  have st': "os_invalidated st' = os_invalidated st @ filter (grows obj f (eval f)) ids"
    "\<forall>q < n. os_invalid st' ! q \<longleftrightarrow> os_invalid st ! q \<or> q \<in> set ids \<and> grows obj f (eval f) q" "objective_ok n st'"
    using step by (auto simp: update_step_def)
  have "unreachable_record obj (put_records ws f p)" if "p < n" "os_invalid st' ! p" for p
  proof (cases "p \<in> set ids")
    case True
    then have "\<not> os_invalid st ! p" using c by auto
    with st'(2) that batch(3)[OF True] show ?thesis by auto
  next
    case False
    with st'(2) that invalid batch(4)[OF False] show ?thesis by auto
  qed
  then have "phase_two (length (os_invalidated st)) st' (record_of (rp_memory s'))"
    using batch(1)[unfolded Un_assoc D] batch(5)[unfolded D] st'(1,3) by (simp add: phase_two_def g)
  with inv' batch(2) show ?thesis by (simp add: g f_def)
qed

lemma invalidate_phase:
  assumes run: "sg_invalidate_dependents ctx st obj s = Some (Inr st', s')"
    and inv: "inv (rp_memory s)" and two: "phase_two 0 st (record_of (rp_memory s))"
  shows "inv (rp_memory s') \<and> phase_three st' (record_of (rp_memory s')) \<and>
    same_other obj (record_of (rp_memory s)) (record_of (rp_memory s'))"
proof -
  define P where "P = (\<lambda>(head, st) (s1 :: 'a sg_repair_state). inv (rp_memory s1) \<and> phase_two head st (record_of (rp_memory s1)) \<and>
      same_other obj (record_of (rp_memory s)) (record_of (rp_memory s1)))"
  from run obtain head where
    loop: "rs_while (\<lambda>(head, st). head < length (os_invalidated st))
      (\<lambda>(head, st). rs_bind (sg_invalidate_round ctx obj head st) (\<lambda>st'.
         rs_lift (Inr (length (os_invalidated st), st')))) (0, st) s = Some (Inr (head, st'), s')"
    by (auto simp: sg_invalidate_dependents_def run_bind_Inr)
  have "P (head, st') s' \<and> \<not> (case (head, st') of (head, st) \<Rightarrow> head < length (os_invalidated st))"
  proof (rule rs_while_invariant[OF loop])
    show "P (0, st) s" using inv two by (simp add: P_def)
  next
    fix a s1 a' s1'
    assume P: "P a s1" and one: "(case a of (head, st) \<Rightarrow> rs_bind (sg_invalidate_round ctx obj head st) (\<lambda>st'.
         rs_lift (Inr (length (os_invalidated st), st')))) s1 = (Inr a', s1')"
    from one obtain st2 where "sg_invalidate_round ctx obj (fst a) (snd a) s1 = (Inr st2, s1')"
      "a' = (length (os_invalidated (snd a)), st2)" by (cases a) auto
    with invalidate_round[of s1 "fst a" "snd a" st2 s1'] P show "P a' s1'"
      by (auto simp: P_def split: prod.splits intro: same_other_trans)
  qed
  then show ?thesis by (auto simp: P_def phase_two_def phase_three_def)
qed

text \<open>Rebuilding: only the heap and the tentative distances change around the evaluation.\<close>

lemma rebuild_frontier:
  "sg_rebuild_frontier distance st frontier = (st', frontier') \<Longrightarrow> objective_ok n st \<Longrightarrow>
   \<exists>added. frontier' = frontier @ added \<and> objective_ok n st' \<and> os_invalid st' = os_invalid st \<and>
     os_decreases st' = os_decreases st \<and> os_invalidated st' = os_invalidated st \<and>
     (\<forall>q < n. os_queued st' ! q \<longleftrightarrow> os_queued st ! q \<or> q \<in> set added) \<and>
     (\<forall>q \<in> set added. \<not> os_queued st ! q)"
proof (induction distance st frontier arbitrary: st' frontier' rule: sg_rebuild_frontier.induct)
  case (1 distance st frontier)
  show ?case
  proof (cases "os_heap st \<noteq> [] \<and> he_distance (os_heap st ! 0) = distance")
    case False
    with "1.prems" show ?thesis by (subst (asm) sg_rebuild_frontier.simps) auto
  next
    case True
    obtain entry heap where pop: "sg_heap_pop (os_heap st) = (entry, heap)" by fastforce
    let ?st = "st\<lparr>os_heap := heap\<rparr>" and ?p = "he_pair entry"
    show ?thesis
    proof (cases "\<not> os_finalized st ! ?p \<and> os_tentative st ! ?p = he_distance entry \<and> \<not> os_queued st ! ?p")
      case False
      from "1.prems"(1) True False pop have "sg_rebuild_frontier distance ?st frontier = (st', frontier')"
        by (subst (asm) sg_rebuild_frontier.simps) (auto simp: Let_def)
      moreover have "objective_ok n ?st" using "1.prems"(2) by (simp add: objective_ok_def)
      ultimately show ?thesis using "1.IH"(2)[OF True pop[symmetric] refl refl, of st' frontier'] False by simp
    next
      case q: True
      let ?st1 = "?st\<lparr>os_queued := (os_queued st)[?p := True]\<rparr>"
      from "1.prems"(1) True q pop
      have run: "sg_rebuild_frontier distance ?st1 (frontier @ [?p]) = (st', frontier')"
        by (subst (asm) sg_rebuild_frontier.simps) (auto simp: Let_def)
      have "objective_ok n ?st1" using "1.prems"(2) by (simp add: objective_ok_def)
      with "1.IH"(1)[OF True pop[symmetric] refl refl, of st' frontier'] q run obtain added where
        a: "frontier' = (frontier @ [?p]) @ added" "objective_ok n st'" "os_invalid st' = os_invalid st"
          "os_decreases st' = os_decreases st" "os_invalidated st' = os_invalidated st"
          "\<forall>r < n. os_queued st' ! r \<longleftrightarrow> (os_queued st)[?p := True] ! r \<or> r \<in> set added"
          "\<forall>r \<in> set added. \<not> (os_queued st)[?p := True] ! r" by auto
      have len: "length (os_queued st) = n" by (rule objective_okD[OF "1.prems"(2)])
      have upd: "(os_queued st)[?p := True] ! r \<longleftrightarrow> os_queued st ! r \<or> r = ?p \<and> ?p < n" for r
        using len by (cases "r = ?p"; cases "?p < n") (simp_all add: list_update_beyond)
      show ?thesis
        by (rule exI[of _ "?p # added"]) (use a q upd in auto)
    qed
  qed
qed

lemma unqueue_nth:
  "q < length (os_queued st) \<Longrightarrow> os_queued (sg_unqueue ids st) ! q \<longleftrightarrow> os_queued st ! q \<and> q \<notin> set ids"
proof -
  assume q: "q < length (os_queued st)"
  have "qs[p := False] ! q \<longleftrightarrow> qs ! q \<and> q \<noteq> p" if "q < length qs" for qs p
    using that by (cases "p = q") simp_all
  then have "q < length qs \<Longrightarrow> fold (\<lambda>p qs. qs[p := False]) ids qs ! q \<longleftrightarrow> qs ! q \<and> q \<notin> set ids" for qs
    by (induction ids arbitrary: qs) auto
  with q show ?thesis by (simp add: sg_unqueue_def)
qed

lemma length_unqueue [simp]: "length (os_queued (sg_unqueue ids st)) = length (os_queued st)"
proof -
  have "length (fold (\<lambda>p qs. qs[p := False]) ids qs) = length qs" for qs :: "bool list"
    by (induction ids arbitrary: qs) simp_all
  then show ?thesis by (simp add: sg_unqueue_def)
qed

lemma unqueue_simps [simp]:
  "os_invalid (sg_unqueue ids st) = os_invalid st" "os_finalized (sg_unqueue ids st) = os_finalized st"
  "os_changed (sg_unqueue ids st) = os_changed st" "os_tentative (sg_unqueue ids st) = os_tentative st"
  "os_invalidated (sg_unqueue ids st) = os_invalidated st" "os_decreases (sg_unqueue ids st) = os_decreases st"
  "os_heap (sg_unqueue ids st) = os_heap st"
  by (simp_all add: sg_unqueue_def)

lemma relax_predecessors_loop:
  "fold_res (sg_relax_predecessor ctx obj d) arcs st = Inr st' \<Longrightarrow> objective_ok n st \<Longrightarrow>
   objective_ok n st' \<and> os_queued st' = os_queued st \<and> os_decreases st' = os_decreases st \<and>
   os_invalid st' = os_invalid st"
proof (induction arcs arbitrary: st)
  case (Cons arc arcs)
  from Cons.prems(1) obtain st1 where step: "sg_relax_predecessor ctx obj d arc st = Inr st1"
    and rest: "fold_res (sg_relax_predecessor ctx obj d) arcs st1 = Inr st'" by auto
  have "objective_ok n st1 \<and> os_queued st1 = os_queued st \<and> os_decreases st1 = os_decreases st \<and>
      os_invalid st1 = os_invalid st"
    using step Cons.prems(2) by (auto simp: sg_relax_predecessor_def objective_ok_def Let_def split: if_splits)
  with Cons.IH[OF rest] show ?case by simp
qed simp

lemma seed_heap_loop:
  "objective_ok n st \<Longrightarrow> objective_ok n (fold (sg_seed_heap_pair obj) es st) \<and>
   os_queued (fold (sg_seed_heap_pair obj) es st) = os_queued st \<and>
   os_decreases (fold (sg_seed_heap_pair obj) es st) = os_decreases st"
proof (induction es arbitrary: st)
  case (Cons e es)
  obtain p ev where e: "e = (p, ev)" by (cases e)
  have "objective_ok n (sg_seed_heap_pair obj e st) \<and> os_queued (sg_seed_heap_pair obj e st) = os_queued st \<and>
      os_decreases (sg_seed_heap_pair obj e st) = os_decreases st"
    using Cons.prems by (simp add: e sg_seed_heap_pair_def objective_ok_def Let_def)
  with Cons.IH show ?case by simp
qed simp

lemma finalize_loop:
  assumes "rs_fold (sg_finalize_pair obj distance) (map (evaluation f e) ids) a s = (Inr r, s')"
  shows "r = fold (finalize_pair obj distance) (map (evaluation f e) ids) a \<and> rp_memory s' = rp_memory s"
  by (rule rs_fold_pure[OF _ assms]) (auto dest: sg_finalize_pair_ok split: prod.splits)

end

end
