(* ===== verification/Sync_Repair_Final.thy ===== *)
theory Sync_Repair_Final
  imports Sync_Repair_Sound
begin

text \<open>
  The last two phases of a repair, its two passes, and the result: after success every record of both
  objectives fits its pair.
\<close>

context repair_run
begin

section \<open>Rebuilding\<close>

lemma phase_three_same:
  assumes "phase_three st f" "objective_ok n st'" "os_decreases st' = os_decreases st"
    and "\<forall>q < n. os_queued st' ! q \<longrightarrow> os_queued st ! q"
  shows "phase_three st' f"
  using assms by (auto simp: phase_three_def queued_in_def)

lemma finalize_batch:
  assumes inv: "inv m" and ids: "distinct ids" "set ids \<subseteq> {..<n}"
    and three: "phase_three st (record_of m)"
    and step: "finalize_step n obj distance (record_of m) (eval (record_of m)) ids (st, [], []) (st', ws, fin)"
  shows "phase_three st' (put_records ws (record_of m)) \<and> same_other obj (record_of m) (put_records ws (record_of m))"
proof -
  define f where "f = record_of m"
  define g where "g = put_records ws f"
  define settles where "settles p \<longleftrightarrow> sg_record_distance (eval f p) obj = distance \<and> distance \<noteq> SG_INDEX_NONE" for p
  let ?written = "\<lambda>p. settles p \<and> \<not> sg_record_objective_equal (f p) (eval f p) obj"
  have ok: "objective_ok n st'" and queue: "queue_step n ids settles st st'" and ws: "ws = map (eval f) (filter ?written ids)"
    using step by (simp_all add: finalize_step_def Let_def settles_def[abs_def] f_def)
  have rec_e: "rec_pair (eval f p) = p" if "p \<in> set ids" for p
    using that ids(2) rec_pair_record[OF inv] by (auto simp: f_def)
  have g: "g p = (if p \<in> set ids \<and> ?written p then eval f p else f p)" for p
    unfolding g_def ws by (rule put_batch[OF ids(1) rec_e])
  obtain added where added: "os_decreases st' = os_decreases st @ added"
      "\<forall>q < n. os_queued st' ! q \<longleftrightarrow> os_queued st ! q \<or> q \<in> set added"
      "\<forall>q \<in> set ids. settles q \<longrightarrow> os_queued st ! q \<or> q \<in> set added"
    using queue by (auto simp: queue_step_def)
  have queued: "queued_in n (set (os_decreases st)) st" and pend: "pending (set (os_decreases st)) f"
    using three by (auto simp: phase_three_def f_def)
  have "pending (set (os_decreases st')) g"
  proof (rule settled_step[where S = "{p \<in> set ids. settles p}" and f = f])
    fix p assume "p \<in> {p \<in> set ids. settles p}"
    then have "sg_record_objective_equal (g p) (eval f p) obj" by (auto simp: g sg_record_objective_equal_iff)
    then show "record_fits ctx obj target differ f p (g p)"
      by (rule record_fits_equal[THEN iffD2]) (rule evaluated_fits)
  next
    fix p assume "p \<in> {p \<in> set ids. settles p}"
    with ids(2) added(3) queued show "p \<in> set (os_decreases st')" by (auto simp: added(1) queued_in_def)
  next
    fix p assume "p < st_pair_count (rc_store ctx)"
    with settled_or_pending[OF pend, of p] show "settled ctx obj target differ f p \<or>
        \<not> rc_diagonal ctx ! p \<and> (\<exists>a < st_action_count (rc_store ctx). target p a \<in> set (os_decreases st'))"
      by (auto simp: ctx added(1))
  qed (auto simp: g)
  moreover have "queued_in n (set (os_decreases st')) st'"
    using queued added(1,2) by (auto simp: queued_in_def)
  moreover have "same_other obj f g"
    using g evaluated_other[where f = f and ctx = ctx and obj = obj and target = target and differ = differ]
    by (simp add: same_other_def sg_record_objective_equal_iff)
  ultimately show ?thesis using ok by (simp add: phase_three_def g_def f_def)
qed

lemma rebuild_round:
  assumes inv: "inv (rp_memory s)" and three: "phase_three st (record_of (rp_memory s))"
    and run: "sg_rebuild_round ctx obj st s = (Inr st', s')"
  shows "inv (rp_memory s') \<and> phase_three st' (record_of (rp_memory s')) \<and>
    same_other obj (record_of (rp_memory s)) (record_of (rp_memory s'))"
proof -
  let ?d = "he_distance (os_heap st ! 0)"
  obtain st1 ids where frontier: "sg_rebuild_frontier ?d st [] = (st1, ids)" by fastforce
  let ?st2 = "sg_unqueue ids st1"
  have ok: "objective_ok n st" using three by (simp add: phase_three_def)
  from rebuild_frontier[OF frontier ok] have st1: "objective_ok n st1" "os_decreases st1 = os_decreases st"
      "\<forall>q < n. os_queued st1 ! q \<longleftrightarrow> os_queued st ! q \<or> q \<in> set ids" by auto
  have ok2: "objective_ok n ?st2" using st1(1) by (simp add: objective_ok_def)
  have three2: "phase_three ?st2 (record_of (rp_memory s))"
    by (rule phase_three_same[OF three ok2]) (use st1 objective_okD(3)[OF st1(1)] in \<open>auto simp: unqueue_nth\<close>)
  show ?thesis
  proof (cases "ids = []")
    case True
    with run frontier three2 inv show ?thesis by (simp add: sg_rebuild_round_def)
  next
    case False
    with run frontier obtain evs s1 st3 ws fin s2 s3 where
      ev: "sg_evaluate_pairs ctx ids obj s = (Inr evs, s1)"
      and loop: "rs_fold (sg_finalize_pair obj ?d) (zip ids evs) (?st2, [], []) s1 = (Inr (st3, ws, fin), s2)"
      and written: "sg_write_records ctx ws s2 = (Inr (), s3)"
      and rest: "(if fin \<noteq> [] then sg_relax_invalid_predecessors ctx st3 fin ?d obj else rs_lift (Inr st3)) s3 = (Inr st', s')"
      by (auto simp: sg_rebuild_round_def Let_def)
    note e = evaluate_pairs_ok[OF ctx inv ev]
    let ?f = "record_of (rp_memory s)"
    have "zip ids evs = map (evaluation ?f (eval ?f)) ids" using e by (simp add: zip_evaluations)
    with finalize_loop[of ?d ?f "eval ?f" ids "(?st2, [], [])" s1 "(st3, ws, fin)" s2] loop
    have r: "(st3, ws, fin) = fold (finalize_pair obj ?d) (map (evaluation ?f (eval ?f)) ids) (?st2, [], [])"
      and mem: "rp_memory s2 = rp_memory s" using e by auto
    have ids: "distinct ids" "set ids \<subseteq> {..<n}" using e by auto
    note step = finalize_pairs_step[OF ok2 ids(2), of obj ?d ?f "eval ?f" "[]" "[]", folded r]
    note batch = finalize_batch[OF inv ids three2 step]
    have w: "inv (rp_memory s3)" "record_of (rp_memory s3) = put_records ws ?f"
      using write_records_ok[OF _ written] inv mem by simp_all
    have "rp_memory s' = rp_memory s3 \<and> phase_three st' (put_records ws ?f)"
    proof (cases "fin = []")
      case True
      with rest batch show ?thesis by simp
    next
      case nonempty: False
      with rest obtain arcs where "fold_res (sg_relax_predecessor ctx obj ?d) arcs st3 = Inr st'"
        and m: "rp_memory s' = rp_memory s3"
        by (auto simp: sg_relax_invalid_predecessors_def rs_read_incoming_def Let_def split: prod.splits if_splits)
      moreover have "objective_ok n st3" using batch by (simp add: phase_three_def)
      ultimately have "objective_ok n st'" "os_queued st' = os_queued st3" "os_decreases st' = os_decreases st3"
        using relax_predecessors_loop by blast+
      with phase_three_same[OF batch[THEN conjunct1], of st'] m show ?thesis by simp
    qed
    with w batch show ?thesis by simp
  qed
qed

lemma rebuild_phase:
  assumes run: "sg_rebuild_invalidated ctx st obj s = Some (Inr st', s')"
    and inv: "inv (rp_memory s)" and three: "phase_three st (record_of (rp_memory s))"
  shows "inv (rp_memory s') \<and> phase_three st' (record_of (rp_memory s')) \<and>
    same_other obj (record_of (rp_memory s)) (record_of (rp_memory s'))"
proof -
  from run obtain st1 s1 where seed: "sg_seed_rebuild_heap ctx st obj s = (Inr st1, s1)"
    and loop: "rs_while (\<lambda>st. os_heap st \<noteq> []) (sg_rebuild_round ctx obj) st1 s1 = Some (Inr st', s')"
    by (auto simp: sg_rebuild_invalidated_def run_bind_Inr)
  from seed obtain evs where ev: "sg_evaluate_pairs ctx (os_invalidated st) obj s = (Inr evs, s1)"
    and st1: "st1 = fold (sg_seed_heap_pair obj) (zip (os_invalidated st) evs) st"
    by (auto simp: sg_seed_rebuild_heap_def)
  have mem: "rp_memory s1 = rp_memory s" using evaluate_pairs_ok[OF ctx inv ev] by simp
  have ok: "objective_ok n st" using three by (simp add: phase_three_def)
  have start: "phase_three st1 (record_of (rp_memory s))"
    by (rule phase_three_same[OF three]) (simp_all add: st1 seed_heap_loop[OF ok])
  define P where "P = (\<lambda>st (s2 :: 'a sg_repair_state). inv (rp_memory s2) \<and> phase_three st (record_of (rp_memory s2)) \<and>
      same_other obj (record_of (rp_memory s)) (record_of (rp_memory s2)))"
  have "P st' s' \<and> \<not> os_heap st' \<noteq> []"
  proof (rule rs_while_invariant[OF loop])
    show "P st1 s1" using inv start mem by (simp add: P_def)
    show "P st3 s3" if "P st2 s2" "sg_rebuild_round ctx obj st2 s2 = (Inr st3, s3)" for st2 s2 st3 s3
      using that rebuild_round[of s2 st2 st3 s3] by (auto simp: P_def intro: same_other_trans)
  qed
  then show ?thesis by (simp add: P_def)
qed

section \<open>Propagation\<close>

lemma decrease_loop:
  assumes "rs_fold (sg_decrease_pair ctx obj) (map (evaluation f e) ids) (st, ws) s = (Inr r, s')"
  shows "r = fold (decrease_pair obj) (map (evaluation f e) ids) (st, ws) \<and> rp_memory s' = rp_memory s"
  by (rule rs_fold_pure[OF _ assms]) (auto dest: sg_decrease_pair_ok split: prod.splits)

lemma decrease_loop_le:
  assumes run: "rs_fold (sg_decrease_pair ctx obj) (map (evaluation f e) ids) (st, ws) s = (Inr r, s')" and p: "p \<in> set ids"
  shows "\<not> grows obj f e p"
proof -
  have "sg_record_distance (pe_candidate (snd (evaluation f e p))) obj \<le>
      sg_record_distance (pe_current (snd (evaluation f e p))) obj"
  proof (rule rs_fold_all[OF _ run])
    fix x a s r s'
    assume "sg_decrease_pair ctx obj x a s = (Inr r, s')"
    then show "sg_record_distance (pe_candidate (snd x)) obj \<le> sg_record_distance (pe_current (snd x)) obj"
      by (cases x; cases a) (simp add: sg_decrease_pair_ok)
  qed (use p in simp)
  then show ?thesis by simp
qed

lemma propagate_round:
  assumes inv: "inv (rp_memory s)" and four: "phase_four head st (record_of (rp_memory s))"
    and run: "sg_propagate_round ctx obj head st s = (Inr st', s')"
  shows "inv (rp_memory s') \<and> phase_four (length (os_decreases st)) st' (record_of (rp_memory s')) \<and>
    same_other obj (record_of (rp_memory s)) (record_of (rp_memory s'))"
proof -
  define f where "f = record_of (rp_memory s)"
  let ?batch = "drop head (os_decreases st)" and ?st1 = "sg_unqueue (drop head (os_decreases st)) st"
  from run obtain ids s0 evs s1 ws s2 where
    src: "sg_collect_sources ctx ?batch NULL s = (Inr ids, s0)"
    and ev: "sg_evaluate_pairs ctx ids obj s0 = (Inr evs, s1)"
    and loop: "rs_fold (sg_decrease_pair ctx obj) (zip ids evs) (?st1, []) s1 = (Inr (st', ws), s2)"
    and written: "sg_write_records ctx ws s2 = (Inr (), s')"
    by (auto simp: sg_propagate_round_def Let_def)
  note c = collect_sources_ok[OF inv src]
  have inv0: "inv (rp_memory s0)" using c inv by simp
  note e = evaluate_pairs_ok[OF ctx inv0 ev]
  have ok: "objective_ok n st" and queued0: "queued_in n (set ?batch) st" and pend: "pending (set ?batch) f"
    using four by (auto simp: phase_four_def f_def)
  have z: "zip ids evs = map (evaluation f (eval f)) ids" using e c by (simp add: zip_evaluations f_def)
  note loop = loop[unfolded z]
  have ids: "distinct ids" "set ids \<subseteq> {..<n}" using e by auto
  have ok1: "objective_ok n ?st1" using ok by (simp add: objective_ok_def)
  have r: "(st', ws) = fold (decrease_pair obj) (map (evaluation f (eval f)) ids) (?st1, [])"
    and mem: "rp_memory s2 = rp_memory s" using decrease_loop[OF loop] e c by auto
  note le = decrease_loop_le[OF loop]
  have step: "update_step n obj f (eval f) ids (?st1, []) (st', ws)"
    unfolding r by (rule decrease_pairs_step[OF ok1 ids(2) le])
  have inv': "inv (rp_memory s')" and g: "record_of (rp_memory s') = put_records ws f"
    using write_records_ok[OF _ written] inv mem by (simp_all add: f_def)
  have queued: "queued_in n {} ?st1"
    using queued0 objective_okD(3)[OF ok] by (simp add: queued_in_def unqueue_nth)
  have old: "\<forall>p < n. p \<notin> set ids \<longrightarrow> settled ctx obj target differ f p \<or>
      \<not> rc_diagonal ctx ! p \<and> (\<exists>a < k. target p a \<in> {})"
    using settled_or_pending[OF pend] c by auto
  have diag: "\<forall>p \<in> set ids. rc_diagonal ctx ! p \<longrightarrow> settled ctx obj target differ f p" using c by simp
  note batch = update_batch[OF inv ids step[unfolded f_def] queued old[unfolded f_def] diag[unfolded f_def], folded f_def]
  have "filter (grows obj f (eval f)) ids = []" using le by (simp add: filter_empty_conv)
  with batch(1,5) step have "phase_four (length (os_decreases st)) st' (put_records ws f)"
    by (simp add: phase_four_def update_step_def)
  with inv' batch(2) show ?thesis by (simp add: g f_def)
qed

lemma propagate_phase:
  assumes run: "sg_propagate_decreases ctx st obj s = Some (Inr st', s')"
    and inv: "inv (rp_memory s)" and four: "phase_four 0 st (record_of (rp_memory s))"
  shows "inv (rp_memory s') \<and> pending {} (record_of (rp_memory s')) \<and>
    same_other obj (record_of (rp_memory s)) (record_of (rp_memory s'))"
proof -
  define P where "P = (\<lambda>(head, st) (s1 :: 'a sg_repair_state). inv (rp_memory s1) \<and> phase_four head st (record_of (rp_memory s1)) \<and>
      same_other obj (record_of (rp_memory s)) (record_of (rp_memory s1)))"
  from run obtain head where
    loop: "rs_while (\<lambda>(head, st). head < length (os_decreases st))
      (\<lambda>(head, st). rs_bind (sg_propagate_round ctx obj head st) (\<lambda>st'.
         rs_lift (Inr (length (os_decreases st), st')))) (0, st) s = Some (Inr (head, st'), s')"
    by (auto simp: sg_propagate_decreases_def run_bind_Inr)
  have "P (head, st') s' \<and> \<not> (case (head, st') of (head, st) \<Rightarrow> head < length (os_decreases st))"
  proof (rule rs_while_invariant[OF loop])
    show "P (0, st) s" using inv four by (simp add: P_def)
  next
    fix a s1 a' s1'
    assume P: "P a s1" and one: "(case a of (head, st) \<Rightarrow> rs_bind (sg_propagate_round ctx obj head st) (\<lambda>st'.
         rs_lift (Inr (length (os_decreases st), st')))) s1 = (Inr a', s1')"
    from one obtain st2 where "sg_propagate_round ctx obj (fst a) (snd a) s1 = (Inr st2, s1')"
      "a' = (length (os_decreases (snd a)), st2)" by (cases a) auto
    with propagate_round[of s1 "fst a" "snd a" st2 s1'] P show "P a' s1'"
      by (auto simp: P_def split: prod.splits intro: same_other_trans)
  qed
  then show ?thesis by (auto simp: P_def phase_four_def)
qed

section \<open>One objective\<close>

lemma one_objective:
  assumes run: "sg_repair_one_objective ctx seeds obj s = Some (Inr u, s')"
    and inv: "inv (rp_memory s)"
    and seeds: "\<And>p. p < n \<Longrightarrow> p \<notin> set seeds \<or> rc_diagonal ctx ! p \<Longrightarrow>
        settled ctx obj target differ (record_of (rp_memory s)) p"
  shows "inv (rp_memory s') \<and> (\<forall>p < n. settled ctx obj target differ (record_of (rp_memory s')) p) \<and>
    same_other obj (record_of (rp_memory s)) (record_of (rp_memory s'))"
proof -
  from run obtain st1 s1 st2 s2 st3 s3 st4 where
    one: "sg_seed_objective_changes ctx (sg_objective_state_init n) seeds obj s = (Inr st1, s1)"
    and two: "sg_invalidate_dependents ctx st1 obj s1 = Some (Inr st2, s2)"
    and three: "sg_rebuild_invalidated ctx st2 obj s2 = Some (Inr st3, s3)"
    and four: "sg_propagate_decreases ctx st3 obj s3 = Some (Inr st4, s')"
    by (auto simp: sg_repair_one_objective_def run_bind_Inr ctx)
  have r1: "inv (rp_memory s1) \<and> phase_two 0 st1 (record_of (rp_memory s1)) \<and>
      same_other obj (record_of (rp_memory s)) (record_of (rp_memory s1))"
    by (rule seed_phase[OF inv seeds one])
  have r2: "inv (rp_memory s2) \<and> phase_three st2 (record_of (rp_memory s2)) \<and>
      same_other obj (record_of (rp_memory s1)) (record_of (rp_memory s2))"
    using invalidate_phase[OF two] r1 by blast
  have r3: "inv (rp_memory s3) \<and> phase_three st3 (record_of (rp_memory s3)) \<and>
      same_other obj (record_of (rp_memory s2)) (record_of (rp_memory s3))"
    using rebuild_phase[OF three] r2 by blast
  then have "phase_four 0 st3 (record_of (rp_memory s3))" by (simp add: phase_three_def phase_four_def)
  with propagate_phase[OF four] r3 have "inv (rp_memory s') \<and> pending {} (record_of (rp_memory s')) \<and>
      same_other obj (record_of (rp_memory s3)) (record_of (rp_memory s'))" by blast
  with r1 r2 r3 show ?thesis by (auto simp: pending_ok_empty ctx intro: same_other_trans)
qed

end

end
