(* ===== verification/Sync_Repair_Ends.thy ===== *)
theory Sync_Repair_Ends
  imports Sync_Repair_Final
begin

text \<open>
  Every repair of a store that keeps its laws ends. Invalidation makes a pair invalid in each round that
  lists new pairs; rebuilding finalizes a pair or replaces entries of the heap whose distance is out of
  date by fewer ones that are up to date; propagation lowers a distance in each round that queues pairs.
\<close>

section \<open>Loops that end\<close>

text \<open>A successful round keeps \<open>P\<close> and lowers the measures; a round that fails ends the loop.\<close>

lemma rs_while_ends:
  assumes start: "P a s"
    and step: "\<And>a s a' s'. P a s \<Longrightarrow> cond a \<Longrightarrow> body a s = (Inr a', s') \<Longrightarrow>
      P a' s' \<and> ((a', s'), (a, s)) \<in> measures ms"
  shows "\<exists>r s'. rs_while cond body a s = Some (r, s') \<and> (\<forall>a'. r = Inr a' \<longrightarrow> P a' s')"
proof -
  have "P (fst as) (snd as) \<Longrightarrow> \<exists>r s'. rs_while cond body (fst as) (snd as) = Some (r, s') \<and>
      (\<forall>a'. r = Inr a' \<longrightarrow> P a' s')" for as
  proof (induction as rule: wf_induct_rule[OF wf_measures[of ms]])
    case (1 as)
    obtain a s where as: "as = (a, s)" by fastforce
    show ?case
    proof (cases "cond a")
      case False
      with 1 as show ?thesis by (subst rs_while.simps) simp
    next
      case True
      show ?thesis
      proof (cases "body a s")
        case (Pair r s1)
        show ?thesis
        proof (cases r)
          case (Inl e)
          with True Pair as show ?thesis by (subst rs_while.simps) simp
        next
          case (Inr a1)
          with step[of a s a1 s1] 1 True Pair as
          have "P a1 s1" "((a1, s1), as) \<in> measures ms" by simp_all
          with "1.IH"[of "(a1, s1)"] have "\<exists>r s'. rs_while cond body a1 s1 = Some (r, s') \<and> (\<forall>a'. r = Inr a' \<longrightarrow> P a' s')"
            by simp
          with True Pair Inr as show ?thesis by (subst rs_while.simps) simp
        qed
      qed
    qed
  qed
  from this[of "(a, s)"] start show ?thesis by simp
qed

lemma run_bind_ends:
  assumes "\<exists>r s'. m = Some (r, s') \<and> (\<forall>x. r = Inr x \<longrightarrow> P x s')"
    and "\<And>x s'. P x s' \<Longrightarrow> \<exists>r s2. f x s' = Some (r, s2) \<and> (\<forall>y. r = Inr y \<longrightarrow> Q y s2)"
  shows "\<exists>r s2. run_bind m f = Some (r, s2) \<and> (\<forall>y. r = Inr y \<longrightarrow> Q y s2)"
proof -
  from assms(1) obtain r s' where m: "m = Some (r, s')" and P: "\<And>x. r = Inr x \<Longrightarrow> P x s'" by blast
  show ?thesis
  proof (cases r)
    case (Inl e)
    with m show ?thesis by (simp add: run_bind_def)
  next
    case (Inr x)
    with m assms(2)[OF P[OF Inr]] show ?thesis by (simp add: run_bind_def)
  qed
qed

section \<open>Counting\<close>

lemma count_less:
  assumes "\<And>p. p < n \<Longrightarrow> A p \<Longrightarrow> B p" "q < n" "B q" "\<not> A q"
  shows "n - card {p. p < n \<and> B p} < n - card {p. p < (n :: nat) \<and> A p}"
proof -
  have "{p. p < n \<and> A p} \<subset> {p. p < n \<and> B p}" using assms by auto
  then have "card {p. p < n \<and> A p} < card {p. p < n \<and> B p}" by (intro psubset_card_mono) auto
  moreover have "{p. p < n \<and> B p} \<subseteq> {..<n}" by auto
  then have "card {p. p < n \<and> B p} \<le> n" using card_mono[of "{..<n}" "{p. p < n \<and> B p}"] by simp
  ultimately show ?thesis by linarith
qed

text \<open>Entries that are out of date weigh more.\<close>

definition entry_weight :: "(nat \<Rightarrow> nat) \<Rightarrow> sg_heap_entry \<Rightarrow> nat" where
  "entry_weight c entry = (if c (he_pair entry) = he_distance entry then 1 else 2)"

definition heap_weight :: "(nat \<Rightarrow> nat) \<Rightarrow> sg_heap_entry list \<Rightarrow> nat" where
  "heap_weight c heap = sum_mset (image_mset (entry_weight c) (mset heap))"

lemma heap_weight_push:
  "heap_ok heap \<Longrightarrow> heap_weight c (sg_heap_push heap p d) = heap_weight c heap + (if c p = d then 1 else 2)"
  by (simp add: heap_weight_def sg_heap_push_ok(2) entry_weight_def)

lemma heap_weight_pop:
  "heap_ok heap \<Longrightarrow> heap \<noteq> [] \<Longrightarrow>
   heap_weight c heap = entry_weight c (heap ! 0) + heap_weight c (snd (sg_heap_pop heap))"
  by (simp add: heap_weight_def sg_heap_pop_ok(3)[of heap])

text \<open>The frontier takes at least one entry, and one of its distance for each of its pairs.\<close>

lemma rebuild_frontier_weight:
  "sg_rebuild_frontier distance st frontier = (st', frontier') \<Longrightarrow> heap_ok (os_heap st) \<Longrightarrow>
   \<exists>added. frontier' = frontier @ added \<and> heap_ok (os_heap st') \<and> os_finalized st' = os_finalized st \<and>
     (\<forall>p \<in> set added. \<not> os_finalized st ! p) \<and>
     heap_weight c (os_heap st') + (\<Sum>p\<leftarrow>added. if c p = distance then 1 else 2) \<le> heap_weight c (os_heap st) \<and>
     (os_heap st \<noteq> [] \<and> he_distance (os_heap st ! 0) = distance \<longrightarrow>
       heap_weight c (os_heap st') < heap_weight c (os_heap st))"
proof (induction distance st frontier arbitrary: st' frontier' rule: sg_rebuild_frontier.induct)
  case (1 distance st frontier)
  show ?case
  proof (cases "os_heap st \<noteq> [] \<and> he_distance (os_heap st ! 0) = distance")
    case False
    with "1.prems" show ?thesis by (subst (asm) sg_rebuild_frontier.simps) auto
  next
    case True
    obtain entry heap where pop: "sg_heap_pop (os_heap st) = (entry, heap)" by fastforce
    have e: "entry = os_heap st ! 0" "heap_ok heap"
      using sg_heap_pop_ok(1,2)[OF "1.prems"(2)] True pop by simp_all
    have w: "heap_weight c (os_heap st) = entry_weight c entry + heap_weight c heap"
      using heap_weight_pop[OF "1.prems"(2)] True pop e(1) by simp
    have pos: "0 < entry_weight c entry" by (simp add: entry_weight_def)
    let ?st = "st\<lparr>os_heap := heap\<rparr>" and ?p = "he_pair entry"
    show ?thesis
    proof (cases "\<not> os_finalized st ! ?p \<and> os_tentative st ! ?p = he_distance entry \<and> \<not> os_queued st ! ?p")
      case False
      from "1.prems"(1) True False pop have "sg_rebuild_frontier distance ?st frontier = (st', frontier')"
        by (subst (asm) sg_rebuild_frontier.simps) (auto simp: Let_def)
      with "1.IH"(2)[OF True pop[symmetric] refl refl, of st' frontier'] False e(2)
      obtain added where a: "frontier' = frontier @ added" "heap_ok (os_heap st')" "os_finalized st' = os_finalized st"
        "\<forall>p \<in> set added. \<not> os_finalized st ! p"
        "heap_weight c (os_heap st') + (\<Sum>p\<leftarrow>added. if c p = distance then 1 else 2) \<le> heap_weight c heap" by auto
      with w pos show ?thesis by (intro exI[of _ added]) simp
    next
      case q: True
      let ?st1 = "?st\<lparr>os_queued := (os_queued st)[?p := True]\<rparr>"
      from "1.prems"(1) True q pop
      have run: "sg_rebuild_frontier distance ?st1 (frontier @ [?p]) = (st', frontier')"
        by (subst (asm) sg_rebuild_frontier.simps) (auto simp: Let_def)
      with "1.IH"(1)[OF True pop[symmetric] refl refl, of st' frontier'] q e(2)
      obtain added where a: "frontier' = (frontier @ [?p]) @ added" "heap_ok (os_heap st')" "os_finalized st' = os_finalized st"
        "\<forall>p \<in> set added. \<not> os_finalized st ! p"
        "heap_weight c (os_heap st') + (\<Sum>p\<leftarrow>added. if c p = distance then 1 else 2) \<le> heap_weight c heap" by auto
      have "he_distance entry = distance" using True e(1) by simp
      with a w pos q show ?thesis by (intro exI[of _ "?p # added"]) (simp add: entry_weight_def)
    qed
  qed
qed

text \<open>The loop over the frontier: nothing becomes final, or some pair does.\<close>

lemma finalize_pairs_final:
  "objective_ok n st \<Longrightarrow> set ids \<subseteq> {..<n} \<Longrightarrow> heap_ok (os_heap st) \<Longrightarrow>
   fold (finalize_pair obj distance) (map (evaluation f e) ids) (st, ws, fin) = (st', ws', fin') \<Longrightarrow>
   objective_ok n st' \<and> heap_ok (os_heap st') \<and>
   (\<exists>added. fin' = fin @ added \<and> set added \<subseteq> set ids \<and>
      (\<forall>q < n. os_finalized st' ! q \<longleftrightarrow> os_finalized st ! q \<or> q \<in> set added) \<and>
      (added = [] \<longrightarrow> ws' = ws \<and> (\<forall>p \<in> set ids. sg_record_distance (e p) obj = distance \<longrightarrow> distance = SG_INDEX_NONE) \<and>
         heap_weight (\<lambda>p. sg_record_distance (e p) obj) (os_heap st') \<le>
           heap_weight (\<lambda>p. sg_record_distance (e p) obj) (os_heap st) +
           (\<Sum>p\<leftarrow>ids. if sg_record_distance (e p) obj = SG_INDEX_NONE then 0 else 1)))"
proof (induction ids arbitrary: st ws fin)
  case Nil
  then show ?case by simp
next
  case (Cons p ids)
  let ?c = "\<lambda>p. sg_record_distance (e p) obj"
  note len = objective_okD[OF Cons.prems(1)]
  have p: "p < n" and ids: "set ids \<subseteq> {..<n}" using Cons.prems(2) by simp_all
  obtain st1 ws1 fin1 where step: "finalize_pair obj distance (evaluation f e p) (st, ws, fin) = (st1, ws1, fin1)"
    by (cases "finalize_pair obj distance (evaluation f e p) (st, ws, fin)")
  have one: "objective_ok n st1"
    using finalize_pair_step[OF Cons.prems(1) p, of obj distance f e ws fin st1 ws1 fin1] step by (simp add: finalize_step_def Let_def)
  have rest: "fold (finalize_pair obj distance) (map (evaluation f e) ids) (st1, ws1, fin1) = (st', ws', fin')"
    using Cons.prems(4) step by simp
  note IH = Cons.IH[OF one ids _ rest]
  consider "?c p = SG_INDEX_NONE" | "?c p \<noteq> SG_INDEX_NONE" "?c p \<noteq> distance" | "?c p \<noteq> SG_INDEX_NONE" "?c p = distance"
    by blast
  then show ?case
  proof cases
    case 1
    with step have "st1 = st" "ws1 = ws" "fin1 = fin" by (simp_all add: finalize_pair_def)
    with IH Cons.prems(3) 1 show ?thesis by fastforce
  next
    case 2
    with step have s: "os_heap st1 = sg_heap_push (os_heap st) p (?c p)" "os_finalized st1 = os_finalized st" "ws1 = ws" "fin1 = fin"
      by (auto simp: finalize_pair_def Let_def)
    with IH sg_heap_push_ok(1)[OF Cons.prems(3)] obtain added where "objective_ok n st'" "heap_ok (os_heap st')"
      "fin' = fin @ added" "set added \<subseteq> set ids" "\<forall>q < n. os_finalized st' ! q \<longleftrightarrow> os_finalized st ! q \<or> q \<in> set added"
      "added = [] \<longrightarrow> ws' = ws \<and> (\<forall>p \<in> set ids. ?c p = distance \<longrightarrow> distance = SG_INDEX_NONE) \<and>
         heap_weight ?c (os_heap st') \<le> heap_weight ?c (os_heap st1) +
           (\<Sum>p\<leftarrow>ids. if ?c p = SG_INDEX_NONE then 0 else 1)"
      by auto
    with 2 heap_weight_push[OF Cons.prems(3), of ?c p "?c p"] s(1) show ?thesis by fastforce
  next
    case 3
    let ?st = "st\<lparr>os_finalized := (os_finalized st)[p := True]\<rparr>"
    obtain st2 ws2 where cw: "collect_write obj p (f p) (e p) (?st, ws) = (st2, ws2)"
      by (cases "collect_write obj p (f p) (e p) (?st, ws)")
    from step 3 cw have s: "st1 = sg_queue_decrease p st2" "fin1 = fin @ [p]" by (auto simp: finalize_pair_def Let_def)
    note c = collect_write_simps[OF cw]
    have heap: "heap_ok (os_heap st1)" using s c Cons.prems(3) by simp
    have "\<forall>q < n. os_finalized st1 ! q \<longleftrightarrow> os_finalized st ! q \<or> q = p" using s c len p by (auto simp: nth_list_update)
    with IH[OF heap] s(2) show ?thesis by fastforce
  qed
qed

text \<open>A batch without decreases queues nothing.\<close>

lemma decrease_pairs_quiet:
  "(\<And>p. p \<in> set ids \<Longrightarrow> \<not> shrinks obj f e p) \<Longrightarrow>
   os_decreases (fst (fold (decrease_pair obj) (map (evaluation f e) ids) (st, ws))) = os_decreases st"
proof (induction ids arbitrary: st ws)
  case (Cons p ids)
  obtain st1 ws1 where cw: "collect_write obj p (f p) (e p) (st, ws) = (st1, ws1)"
    by (cases "collect_write obj p (f p) (e p) (st, ws)")
  have "decrease_pair obj (evaluation f e p) (st, ws) = (st1, ws1)"
    using Cons.prems[of p] cw by (simp add: decrease_pair_def)
  with Cons.IH[of st1 ws1] Cons.prems collect_write_simps(6)[OF cw] show ?case by simp
qed simp

context repair_run
begin

section \<open>The loops of a repair\<close>

text \<open>What the loops keep, whether or not the records fit.\<close>

definition running :: "sg_objective_state \<Rightarrow> 'a sg_repair_state \<Rightarrow> bool" where
  "running st s \<longleftrightarrow> inv (rp_memory s) \<and> objective_ok n st \<and> heap_ok (os_heap st)"

lemma seed_running:
  assumes inv: "inv (rp_memory s)"
    and run: "sg_seed_objective_changes ctx (sg_objective_state_init n) seeds obj s = (Inr st, s')"
  shows "running st s'"
proof -
  let ?init = "sg_objective_state_init n"
  define f where "f = record_of (rp_memory s)"
  define ids where "ids = filter (\<lambda>p. \<not> rc_diagonal ctx ! p) seeds"
  from run obtain evs s1 ws s2 where
    ev: "sg_evaluate_pairs ctx seeds obj s = (Inr evs, s1)"
    and loop: "rs_fold (sg_seed_pair ctx obj) (zip seeds evs) (?init, []) s1 = (Inr (st, ws), s2)"
    and written: "sg_write_records ctx ws s2 = (Inr (), s')"
    by (auto simp: sg_seed_objective_changes_def)
  note e = evaluate_pairs_ok[OF ctx inv ev]
  have "zip seeds evs = map (evaluation f (eval f)) seeds" using e by (simp add: zip_evaluations f_def)
  with seed_pairs_loop[of f "eval f" seeds ?init "[]" s1 "(st, ws)" s2] loop
  have r: "(st, ws) = fold (update_pair obj) (map (evaluation f (eval f)) ids) (?init, [])"
    and mem: "rp_memory s2 = rp_memory s1" by (auto simp: ids_def)
  have ok: "objective_ok n ?init" by (simp add: objective_ok_def sg_objective_state_init_def)
  have ids: "set ids \<subseteq> {..<n}" using e by (auto simp: ids_def)
  have "inv (rp_memory s2)" using mem e inv by simp
  then have "inv (rp_memory s')" using write_records_ok[OF _ written] by simp
  with update_pairs_step[OF ok ids, of obj f "eval f" "[]", folded r] show ?thesis
    by (simp add: running_def update_step_def sg_objective_state_init_def heap_ok_def)
qed

lemma invalidate_round_running:
  assumes go: "running st s" and head: "head < length (os_invalidated st)"
    and run: "sg_invalidate_round ctx obj head st s = (Inr st', s')"
  shows "running st' s'"
    and "n - card {p. p < n \<and> os_invalid st' ! p} < n - card {p. p < n \<and> os_invalid st ! p} \<or>
      n - card {p. p < n \<and> os_invalid st' ! p} = n - card {p. p < n \<and> os_invalid st ! p} \<and>
      os_invalidated st' = os_invalidated st"
proof -
  define f where "f = record_of (rp_memory s)"
  have inv: "inv (rp_memory s)" and ok: "objective_ok n st" and heap: "heap_ok (os_heap st)"
    using go by (simp_all add: running_def)
  let ?batch = "drop head (os_invalidated st)"
  from run obtain ids s0 evs s1 ws s2 where
    src: "sg_collect_sources ctx ?batch (Ref (os_invalid st)) s = (Inr ids, s0)"
    and ev: "sg_evaluate_pairs ctx ids obj s0 = (Inr evs, s1)"
    and loop: "rs_fold (\<lambda>(pair, e). sg_update_pair ctx obj pair e) (zip ids evs) (st, []) s1 = (Inr (st', ws), s2)"
    and written: "sg_write_records ctx ws s2 = (Inr (), s')"
    by (auto simp: sg_invalidate_round_def)
  note c = collect_sources_ok[OF inv src]
  have inv0: "inv (rp_memory s0)" using c inv by simp
  note e = evaluate_pairs_ok[OF ctx inv0 ev]
  have "zip ids evs = map (evaluation f (eval f)) ids" using e c by (simp add: zip_evaluations f_def)
  with update_loop[of f "eval f" ids st "[]" s1 "(st', ws)" s2] loop
  have r: "(st', ws) = fold (update_pair obj) (map (evaluation f (eval f)) ids) (st, [])"
    and mem: "rp_memory s2 = rp_memory s" using e c by auto
  have ids: "set ids \<subseteq> {..<n}" using e by auto
  note step = update_pairs_step[OF ok ids, of obj f "eval f" "[]", folded r]
  show "running st' s'"
    using step heap write_records_ok[OF _ written] inv mem by (simp add: running_def update_step_def)
  have st': "os_invalidated st' = os_invalidated st @ filter (grows obj f (eval f)) ids"
    "\<And>q. q < n \<Longrightarrow> os_invalid st' ! q \<longleftrightarrow> os_invalid st ! q \<or> q \<in> set ids \<and> grows obj f (eval f) q"
    using step by (auto simp: update_step_def)
  show "n - card {p. p < n \<and> os_invalid st' ! p} < n - card {p. p < n \<and> os_invalid st ! p} \<or>
      n - card {p. p < n \<and> os_invalid st' ! p} = n - card {p. p < n \<and> os_invalid st ! p} \<and>
      os_invalidated st' = os_invalidated st"
  proof (cases "filter (grows obj f (eval f)) ids = []")
    case True
    then have "\<not> grows obj f (eval f) q" if "q \<in> set ids" for q using that by (simp add: filter_empty_conv)
    with st'(2) have "{p. p < n \<and> os_invalid st' ! p} = {p. p < n \<and> os_invalid st ! p}" by blast
    with True st'(1) show ?thesis by simp
  next
    case False
    then obtain q where q: "q \<in> set ids" "grows obj f (eval f) q" by (auto simp: filter_empty_conv)
    with ids c have "q < n" "\<not> os_invalid st ! q" by auto
    with q st'(2) count_less[of n "\<lambda>p. os_invalid st ! p" "\<lambda>p. os_invalid st' ! p" q] show ?thesis by simp
  qed
qed

lemma invalidate_ends:
  assumes "running st s"
  shows "\<exists>r s'. sg_invalidate_dependents ctx st obj s = Some (r, s') \<and> (\<forall>st'. r = Inr st' \<longrightarrow> running st' s')"
  unfolding sg_invalidate_dependents_def
proof (rule run_bind_ends[where P = "\<lambda>(head, st). running st"])
  show "\<exists>r s'. rs_while (\<lambda>(head, st). head < length (os_invalidated st))
      (\<lambda>(head, st). rs_bind (sg_invalidate_round ctx obj head st) (\<lambda>st'.
         rs_lift (Inr (length (os_invalidated st), st')))) (0, st) s = Some (r, s') \<and>
      (\<forall>a'. r = Inr a' \<longrightarrow> (case a' of (head, st) \<Rightarrow> running st) s')"
  proof (rule rs_while_ends[where ms = "[\<lambda>((head, st), s). n - card {p. p < n \<and> os_invalid st ! p},
      \<lambda>((head, st), s). length (os_invalidated st) - head]"])
    fix a s1 a' s1'
    assume P: "(case a of (head, st) \<Rightarrow> running st) s1" and go: "case a of (head, st) \<Rightarrow> head < length (os_invalidated st)"
      and one: "(case a of (head, st) \<Rightarrow> rs_bind (sg_invalidate_round ctx obj head st) (\<lambda>st'.
         rs_lift (Inr (length (os_invalidated st), st')))) s1 = (Inr a', s1')"
    obtain head st1 where a: "a = (head, st1)" by fastforce
    from one obtain st2 where round: "sg_invalidate_round ctx obj head st1 s1 = (Inr st2, s1')"
      and a': "a' = (length (os_invalidated st1), st2)" by (auto simp: a)
    have "running st1 s1" "head < length (os_invalidated st1)" using P go by (simp_all add: a)
    from invalidate_round_running[OF this round] this(2)
    show "(case a' of (head, st) \<Rightarrow> running st) s1' \<and> ((a', s1'), (a, s1)) \<in> measures
        [\<lambda>((head, st), s). n - card {p. p < n \<and> os_invalid st ! p}, \<lambda>((head, st), s). length (os_invalidated st) - head]"
      by (auto simp: a a')
  qed (use assms in simp)
qed auto

lemma seed_heap_running:
  "objective_ok n st \<and> heap_ok (os_heap st) \<Longrightarrow>
   objective_ok n (fold (sg_seed_heap_pair obj) es st) \<and> heap_ok (os_heap (fold (sg_seed_heap_pair obj) es st))"
proof (induction es arbitrary: st)
  case (Cons e es)
  obtain p ev where e: "e = (p, ev)" by (cases e)
  have "objective_ok n (sg_seed_heap_pair obj e st) \<and> heap_ok (os_heap (sg_seed_heap_pair obj e st))"
    using Cons.prems by (simp add: e sg_seed_heap_pair_def objective_ok_def sg_heap_push_ok(1) Let_def)
  with Cons.IH show ?case by simp
qed simp

lemma relax_running:
  "fold_res (sg_relax_predecessor ctx obj d) arcs st = Inr st' \<Longrightarrow> objective_ok n st \<and> heap_ok (os_heap st) \<Longrightarrow>
   objective_ok n st' \<and> heap_ok (os_heap st') \<and> os_finalized st' = os_finalized st"
proof (induction arcs arbitrary: st)
  case (Cons arc arcs)
  from Cons.prems(1) obtain st1 where step: "sg_relax_predecessor ctx obj d arc st = Inr st1"
    and rest: "fold_res (sg_relax_predecessor ctx obj d) arcs st1 = Inr st'" by auto
  have "objective_ok n st1 \<and> heap_ok (os_heap st1) \<and> os_finalized st1 = os_finalized st"
    using step Cons.prems(2)
    by (auto simp: sg_relax_predecessor_def objective_ok_def sg_heap_push_ok(1) Let_def split: if_splits)
  with Cons.IH[OF rest] show ?case by simp
qed simp

text \<open>The distance that the evaluation of a pair gives.\<close>

abbreviation "fresh s \<equiv> \<lambda>p. sg_record_distance (eval (record_of (rp_memory s)) p) obj"

lemma rebuild_round_running:
  assumes go: "running st s" and heap: "os_heap st \<noteq> []"
    and run: "sg_rebuild_round ctx obj st s = (Inr st', s')"
  shows "running st' s' \<and>
    (n - card {p. p < n \<and> os_finalized st' ! p} < n - card {p. p < n \<and> os_finalized st ! p} \<or>
     n - card {p. p < n \<and> os_finalized st' ! p} = n - card {p. p < n \<and> os_finalized st ! p} \<and>
     heap_weight (fresh s') (os_heap st') < heap_weight (fresh s) (os_heap st))"
proof -
  let ?d = "he_distance (os_heap st ! 0)" and ?f = "record_of (rp_memory s)"
  have inv: "inv (rp_memory s)" and ok: "objective_ok n st" and hok: "heap_ok (os_heap st)"
    using go by (simp_all add: running_def)
  obtain st1 ids where frontier: "sg_rebuild_frontier ?d st [] = (st1, ids)" by fastforce
  let ?st2 = "sg_unqueue ids st1"
  have ok1: "objective_ok n st1" using rebuild_frontier[OF frontier ok] by auto
  have ok2: "objective_ok n ?st2" using ok1 by (simp add: objective_ok_def)
  have w: "heap_ok (os_heap st1)" "os_finalized st1 = os_finalized st" "\<forall>p \<in> set ids. \<not> os_finalized st ! p"
    "heap_weight (fresh s) (os_heap st1) + (\<Sum>p\<leftarrow>ids. if fresh s p = ?d then 1 else 2) \<le> heap_weight (fresh s) (os_heap st)"
    "heap_weight (fresh s) (os_heap st1) < heap_weight (fresh s) (os_heap st)"
    using rebuild_frontier_weight[OF frontier hok, of "fresh s"] heap by auto
  show ?thesis
  proof (cases "ids = []")
    case True
    with run frontier have "st' = ?st2" "s' = s" by (simp_all add: sg_rebuild_round_def)
    with w ok2 inv show ?thesis by (simp add: running_def)
  next
    case False
    with run frontier obtain evs s1 st3 ws fin s2 s3 where
      ev: "sg_evaluate_pairs ctx ids obj s = (Inr evs, s1)"
      and loop: "rs_fold (sg_finalize_pair obj ?d) (zip ids evs) (?st2, [], []) s1 = (Inr (st3, ws, fin), s2)"
      and written: "sg_write_records ctx ws s2 = (Inr (), s3)"
      and rest: "(if fin \<noteq> [] then sg_relax_invalid_predecessors ctx st3 fin ?d obj else rs_lift (Inr st3)) s3 = (Inr st', s')"
      by (auto simp: sg_rebuild_round_def Let_def)
    note e = evaluate_pairs_ok[OF ctx inv ev]
    have "zip ids evs = map (evaluation ?f (eval ?f)) ids" using e by (simp add: zip_evaluations)
    with finalize_loop[of ?d ?f "eval ?f" ids "(?st2, [], [])" s1 "(st3, ws, fin)" s2] loop
    have r: "fold (finalize_pair obj ?d) (map (evaluation ?f (eval ?f)) ids) (?st2, [], []) = (st3, ws, fin)"
      and mem: "rp_memory s2 = rp_memory s" using e by auto
    have ids: "set ids \<subseteq> {..<n}" using e by auto
    have "heap_ok (os_heap ?st2)" using w(1) by simp
    from finalize_pairs_final[OF ok2 ids this r] have st3: "objective_ok n st3" "heap_ok (os_heap st3)" "set fin \<subseteq> set ids"
      "\<forall>q < n. os_finalized st3 ! q \<longleftrightarrow> os_finalized st ! q \<or> q \<in> set fin"
      "fin = [] \<longrightarrow> ws = [] \<and> (\<forall>p \<in> set ids. fresh s p = ?d \<longrightarrow> ?d = SG_INDEX_NONE) \<and>
         heap_weight (fresh s) (os_heap st3) \<le> heap_weight (fresh s) (os_heap st1) +
           (\<Sum>p\<leftarrow>ids. if fresh s p = SG_INDEX_NONE then 0 else 1)"
      using w(2) by auto
    have m3: "inv (rp_memory s3)" "record_of (rp_memory s3) = put_records ws ?f"
      using write_records_ok[OF _ written] inv mem by simp_all
    show ?thesis
    proof (cases "fin = []")
      case True
      with rest st3(5) m3(2) have st': "st' = st3" "s' = s3" "record_of (rp_memory s') = ?f" by simp_all
      have "(\<Sum>p\<leftarrow>ids. if fresh s p = SG_INDEX_NONE then 0 else 1) < (\<Sum>p\<leftarrow>ids. if fresh s p = ?d then 1 else 2 :: nat)"
        by (rule sum_list_strict_mono) (use False True st3(5) in auto)
      with w(4) st3(5) True have "heap_weight (fresh s) (os_heap st3) < heap_weight (fresh s) (os_heap st)" by linarith
      moreover have "{p. p < n \<and> os_finalized st3 ! p} = {p. p < n \<and> os_finalized st ! p}" using st3(4) True by auto
      ultimately show ?thesis using st3(1,2) m3(1) st'(3) by (simp add: running_def st'(1,2))
    next
      case nonempty: False
      with rest obtain arcs where relax: "fold_res (sg_relax_predecessor ctx obj ?d) arcs st3 = Inr st'"
        and m: "rp_memory s' = rp_memory s3"
        by (auto simp: sg_relax_invalid_predecessors_def rs_read_incoming_def Let_def split: prod.splits if_splits)
      have st': "objective_ok n st'" "heap_ok (os_heap st')" "os_finalized st' = os_finalized st3"
        using relax_running[OF relax] st3(1,2) by auto
      from nonempty obtain q where "q \<in> set fin" by (cases fin) auto
      with st3(3) ids w(3) have "q < n" "q \<in> set fin" "\<not> os_finalized st ! q" by auto
      with st3(4) st'(3) count_less[of n "\<lambda>p. os_finalized st ! p" "\<lambda>p. os_finalized st' ! p" q]
      have "n - card {p. p < n \<and> os_finalized st' ! p} < n - card {p. p < n \<and> os_finalized st ! p}" by simp
      with st' m m3(1) show ?thesis by (simp add: running_def)
    qed
  qed
qed

lemma rebuild_ends:
  assumes go: "running st s"
  shows "\<exists>r s'. sg_rebuild_invalidated ctx st obj s = Some (r, s') \<and> (\<forall>st'. r = Inr st' \<longrightarrow> running st' s')"
  unfolding sg_rebuild_invalidated_def
proof (rule run_bind_ends[where P = running])
  have seeded: "running st1 s1" if seed: "sg_seed_rebuild_heap ctx st obj s = (Inr st1, s1)" for st1 s1
  proof -
    have inv: "inv (rp_memory s)" and st: "objective_ok n st \<and> heap_ok (os_heap st)" using go by (simp_all add: running_def)
    from seed obtain evs where ev: "sg_evaluate_pairs ctx (os_invalidated st) obj s = (Inr evs, s1)"
      and st1: "st1 = fold (sg_seed_heap_pair obj) (zip (os_invalidated st) evs) st"
      by (auto simp: sg_seed_rebuild_heap_def)
    with evaluate_pairs_ok[OF ctx inv ev] inv seed_heap_running[OF st] show ?thesis by (simp add: running_def)
  qed
  show "\<exists>r s'. Some (sg_seed_rebuild_heap ctx st obj s) = Some (r, s') \<and> (\<forall>st'. r = Inr st' \<longrightarrow> running st' s')"
    using seeded by (cases "sg_seed_rebuild_heap ctx st obj s") auto
next
  fix st s
  assume go: "running st s"
  show "\<exists>r s'. rs_while (\<lambda>state. os_heap state \<noteq> []) (sg_rebuild_round ctx obj) st s = Some (r, s') \<and>
      (\<forall>st'. r = Inr st' \<longrightarrow> running st' s')"
  proof (rule rs_while_ends[where ms = "[\<lambda>(st, s). n - card {p. p < n \<and> os_finalized st ! p},
      \<lambda>(st, s). heap_weight (fresh s) (os_heap st)]"])
    fix a s1 a' s1'
    assume "running a s1" "os_heap a \<noteq> []" "sg_rebuild_round ctx obj a s1 = (Inr a', s1')"
    from rebuild_round_running[OF this] show "running a' s1' \<and> ((a', s1'), (a, s1)) \<in> measures
        [\<lambda>(st, s). n - card {p. p < n \<and> os_finalized st ! p}, \<lambda>(st, s). heap_weight (fresh s) (os_heap st)]"
      by auto
  qed (rule go)
qed

text \<open>The sum of all distances is what propagation lowers.\<close>

abbreviation "distance_sum s \<equiv> \<Sum>p < n. sg_record_distance (record_of (rp_memory s) p) obj"

lemma propagate_round_running:
  assumes go: "running st s" and head: "head < length (os_decreases st)"
    and run: "sg_propagate_round ctx obj head st s = (Inr st', s')"
  shows "running st' s' \<and> (distance_sum s' < distance_sum s \<or> distance_sum s' = distance_sum s \<and> os_decreases st' = os_decreases st)"
proof -
  define f where "f = record_of (rp_memory s)"
  have inv: "inv (rp_memory s)" and ok: "objective_ok n st" and heap: "heap_ok (os_heap st)"
    using go by (simp_all add: running_def)
  let ?batch = "drop head (os_decreases st)" and ?st1 = "sg_unqueue (drop head (os_decreases st)) st"
  from run obtain ids s0 evs s1 ws s2 where
    src: "sg_collect_sources ctx ?batch NULL s = (Inr ids, s0)"
    and ev: "sg_evaluate_pairs ctx ids obj s0 = (Inr evs, s1)"
    and loop: "rs_fold (sg_decrease_pair ctx obj) (zip ids evs) (?st1, []) s1 = (Inr (st', ws), s2)"
    and written: "sg_write_records ctx ws s2 = (Inr (), s')"
    by (auto simp: sg_propagate_round_def Let_def)
  note c = collect_sources_ok[OF inv src]
  have inv0: "inv (rp_memory s0)" using c inv by simp
  note e = evaluate_pairs_ok[OF ctx inv0 ev]
  have z: "zip ids evs = map (evaluation f (eval f)) ids" using e c by (simp add: zip_evaluations f_def)
  note loop = loop[unfolded z]
  have ids: "distinct ids" "set ids \<subseteq> {..<n}" using e by auto
  have ok1: "objective_ok n ?st1" using ok by (simp add: objective_ok_def)
  have r: "(st', ws) = fold (decrease_pair obj) (map (evaluation f (eval f)) ids) (?st1, [])"
    and mem: "rp_memory s2 = rp_memory s" using decrease_loop[OF loop] e c by auto
  note le = decrease_loop_le[OF loop]
  have step: "update_step n obj f (eval f) ids (?st1, []) (st', ws)"
    unfolding r by (rule decrease_pairs_step[OF ok1 ids(2) le])
  have inv': "inv (rp_memory s')" and g: "record_of (rp_memory s') = put_records ws f"
    using write_records_ok[OF _ written] inv mem by (simp_all add: f_def)
  let ?w = "updated obj f (eval f)"
  have rec_w: "rec_pair (?w p) = p" if "p \<in> set ids" for p
    using that ids(2) rec_pair_record[OF inv] by (auto simp: rec_pair_updated f_def)
  have "put_records ws f p = (if p \<in> set ids \<and> \<not> sg_record_objective_equal (f p) (?w p) obj then ?w p else f p)" for p
    using step put_batch[OF ids(1) rec_w] by (simp add: update_step_def)
  then have after: "sg_record_distance (record_of (rp_memory s') p) obj =
      (if p \<in> set ids then sg_record_distance (eval f p) obj else sg_record_distance (f p) obj)" for p
    using le[of p] by (auto simp: g updated_def sg_record_objective_equal_iff sg_record_distance_candidate)
  then have smaller: "sg_record_distance (record_of (rp_memory s') p) obj \<le> sg_record_distance (f p) obj" for p
    using le[of p] by auto
  have "running st' s'" using step inv' heap by (simp add: running_def update_step_def)
  moreover have "distance_sum s' < distance_sum s \<or> distance_sum s' = distance_sum s \<and> os_decreases st' = os_decreases st"
  proof (cases "\<exists>p \<in> set ids. shrinks obj f (eval f) p")
    case True
    then obtain p where "p \<in> set ids" "shrinks obj f (eval f) p" by blast
    with ids(2) after[of p] have "p \<in> {..<n}" "sg_record_distance (record_of (rp_memory s') p) obj < sg_record_distance (f p) obj"
      by auto
    with smaller have "distance_sum s' < distance_sum s" unfolding f_def by (intro sum_strict_mono_ex1) auto
    then show ?thesis by simp
  next
    case False
    then have "os_decreases st' = os_decreases st"
      using decrease_pairs_quiet[where ids = ids and obj = obj and f = f and e = "eval f" and st = ?st1 and ws = "[]", folded r] by simp
    moreover have "sg_record_distance (record_of (rp_memory s') p) obj = sg_record_distance (f p) obj" for p
      using after[of p] le[of p] False by (metis linorder_neqE_nat)
    then have "distance_sum s' = distance_sum s" by (simp add: f_def)
    ultimately show ?thesis by simp
  qed
  ultimately show ?thesis by simp
qed

lemma propagate_ends:
  assumes "running st s"
  shows "\<exists>r s'. sg_propagate_decreases ctx st obj s = Some (r, s') \<and> (\<forall>st'. r = Inr st' \<longrightarrow> running st' s')"
  unfolding sg_propagate_decreases_def
proof (rule run_bind_ends[where P = "\<lambda>(head, st). running st"])
  show "\<exists>r s'. rs_while (\<lambda>(head, st). head < length (os_decreases st))
      (\<lambda>(head, st). rs_bind (sg_propagate_round ctx obj head st) (\<lambda>st'.
         rs_lift (Inr (length (os_decreases st), st')))) (0, st) s = Some (r, s') \<and>
      (\<forall>a'. r = Inr a' \<longrightarrow> (case a' of (head, st) \<Rightarrow> running st) s')"
  proof (rule rs_while_ends[where ms = "[\<lambda>((head, st), s). distance_sum s, \<lambda>((head, st), s). length (os_decreases st) - head]"])
    fix a s1 a' s1'
    assume P: "(case a of (head, st) \<Rightarrow> running st) s1" and go: "case a of (head, st) \<Rightarrow> head < length (os_decreases st)"
      and one: "(case a of (head, st) \<Rightarrow> rs_bind (sg_propagate_round ctx obj head st) (\<lambda>st'.
         rs_lift (Inr (length (os_decreases st), st')))) s1 = (Inr a', s1')"
    obtain head st1 where a: "a = (head, st1)" by fastforce
    from one obtain st2 where round: "sg_propagate_round ctx obj head st1 s1 = (Inr st2, s1')"
      and a': "a' = (length (os_decreases st1), st2)" by (auto simp: a)
    have "running st1 s1" "head < length (os_decreases st1)" using P go by (simp_all add: a)
    from propagate_round_running[OF this round] this(2)
    show "(case a' of (head, st) \<Rightarrow> running st) s1' \<and> ((a', s1'), (a, s1)) \<in> measures
        [\<lambda>((head, st), s). distance_sum s, \<lambda>((head, st), s). length (os_decreases st) - head]"
      by (auto simp: a a')
  qed (use assms in simp)
qed auto

lemma one_objective_ends:
  assumes inv: "inv (rp_memory s)"
  shows "\<exists>r s'. sg_repair_one_objective ctx seeds obj s = Some (r, s') \<and> (\<forall>u. r = Inr u \<longrightarrow> inv (rp_memory s'))"
  unfolding sg_repair_one_objective_def ctx
proof (rule run_bind_ends[where P = running])
  show "\<exists>r s'. Some (sg_seed_objective_changes ctx (sg_objective_state_init n) seeds obj s) = Some (r, s') \<and>
      (\<forall>st. r = Inr st \<longrightarrow> running st s')"
    using seed_running[OF inv] by (cases "sg_seed_objective_changes ctx (sg_objective_state_init n) seeds obj s") auto
qed (intro run_bind_ends[where P = running] invalidate_ends rebuild_ends propagate_ends; auto simp: running_def)+

end

end
