(* ===== verification/Sync_Snapshot_Store.thy ===== *)
theory Sync_Snapshot_Store
  imports Sync_Snapshot_Write Sync_Repair_Ends Sync_Oracle_Exact
begin

text \<open>
  The callbacks of src/snapshot.c as a store in the sense of src/dynamic.c: the records read are those
  of the snapshot, the outgoing arcs are the transitions of its automaton on pairs, and the incoming
  arcs, which come from the reverse columns, are exactly the same arcs looked at from their targets.
\<close>

section \<open>The shape of a live snapshot\<close>

abbreviation automaton_at :: "sg_snapshot_memory \<Rightarrow> nat \<Rightarrow> sg_automaton" where
  "automaton_at m a \<equiv> sn_automaton (snapshot_at m a)"

lemma snapshot_shape:
  assumes "memory_ok m" "live m a"
  defines "A \<equiv> automaton_at m a" and "T \<equiv> topology_at m (sn_topology (snapshot_at m a))"
  shows "wf_automaton A" "sg_pair_count (au_state_count A) = Some (pair_total A)"
    "snapshot_pairs (snapshot_at m a) = pair_total A"
    "tp_state_count T = au_state_count A" "tp_pair_count T = pair_total A"
    "p < pair_total A \<Longrightarrow> (tp_first T ! p, tp_second T ! p) = state_pairs (au_state_count A) ! p"
    "b < au_action_count A \<Longrightarrow> t < au_state_count A \<Longrightarrow> q < au_state_count A \<Longrightarrow>
       sg_reverse_has (snapshot_at m a) b t q \<longleftrightarrow> delta A q b = t"
    "pair_total A \<le> SIZE_MAX"
proof -
  note ok = memory_okD(1)[OF assms(1,2)]
  show wf: "wf_automaton A" using snapshot_okD(1)[OF ok] by (simp add: A_def)
  have T: "topology_ok (au_state_count A) T"
    using links_okD(3)[OF snapshot_okD(3)[OF ok]] by (simp add: A_def T_def)
  then show count: "sg_pair_count (au_state_count A) = Some (pair_total A)"
    using wf_automatonD(6)[OF wf] by (simp add: sg_pair_count_Some topology_ok_def length_state_pairs)
  show "snapshot_pairs (snapshot_at m a) = pair_total A"
    by (simp add: snapshot_pairs_def A_def length_state_pairs)
  show "tp_state_count T = au_state_count A" "tp_pair_count T = pair_total A"
    using T by (simp_all add: topology_ok_def length_state_pairs)
  show "(tp_first T ! p, tp_second T ! p) = state_pairs (au_state_count A) ! p" if "p < pair_total A"
    using T that by (simp add: topology_ok_def)
  show "sg_reverse_has (snapshot_at m a) b t q \<longleftrightarrow> delta A q b = t"
    if "b < au_action_count A" "t < au_state_count A" "q < au_state_count A"
    using snapshot_okD(4)[OF ok] that by (simp add: reverse_ok_def A_def Let_def)
  have "au_state_count A * (au_state_count A + 1) \<le> SIZE_MAX" using T by (simp add: topology_ok_def)
  then show "pair_total A \<le> SIZE_MAX" by (simp only: length_state_pairs)
qed

text \<open>A pair is the index of its two states.\<close>

lemma pair_index_inverse:
  assumes "sg_pair_count n = Some (length (state_pairs n))" "p < length (state_pairs n)" "state_pairs n ! p = (f, s)"
  shows "f \<le> s" "f < n" "s < n" "sg_pair_index n f s = p" "sg_pair_index n s f = p"
proof -
  show fs: "f \<le> s" "s < n" using assms(2,3) by (auto elim: state_pairs_nth)
  then show "f < n" by simp
  note i = pair_index_position[OF assms(1) this fs(2)]
  show "sg_pair_index n f s = p"
    using i(1,2) fs(1) assms(2,3) distinct_state_pairs[of n] by (auto simp: nth_eq_iff_index_eq[symmetric] min_def max_def)
  then show "sg_pair_index n s f = p" by (simp add: sg_pair_index_commute)
qed

section \<open>Reading records\<close>

lemma read_records_loop:
  assumes "fold_res (sg_snapshot_read_pair (Ref a) m) ids rs = Inr rs'"
    and "memory_ok m" "live m a"
  shows "set ids \<subseteq> {..<snapshot_pairs (snapshot_at m a)} \<and> rs' = rs @ map (snapshot_record m a) ids"
  using assms(1)
proof (induction ids arbitrary: rs)
  case (Cons p ids)
  have "tp_pair_count (topology_at m (sn_topology (snapshot_at m a))) = snapshot_pairs (snapshot_at m a)"
    using topology_pair_count snapshot_okD(3)[OF memory_okD(1)[OF assms(2,3)]] by blast
  moreover from Cons.prems obtain rs1 where "sg_snapshot_read_pair (Ref a) m p rs = Inr rs1"
    and rest: "fold_res (sg_snapshot_read_pair (Ref a) m) ids rs1 = Inr rs'"
    by (auto split: sum.splits)
  ultimately have "p < snapshot_pairs (snapshot_at m a)" "rs1 = rs @ [snapshot_record m a p]"
    by (auto simp: sg_snapshot_read_pair_def sg_snapshot_record_const_def Let_def snapshot_record_def content_def
        split: if_splits)
  with Cons.IH[OF rest] show ?case by simp
qed simp

section \<open>Outgoing arcs\<close>

lemma outgoing_arc:
  assumes "memory_ok m" "live m a" "p < pair_total (automaton_at m a)"
  shows "sg_snapshot_outgoing_arc (snapshot_at m a) (topology_at m (sn_topology (snapshot_at m a))) p b =
    graph_arc (pair_next (automaton_at m a)) (pair_differ (automaton_at m a)) p b"
  using snapshot_shape(6)[OF assms, symmetric] snapshot_shape(4)[OF assms(1,2)]
  by (simp add: sg_snapshot_outgoing_arc_def graph_arc_def pair_next_def pair_differ_def Let_def)

lemma outgoing_loop:
  assumes "memory_ok m" "live m a"
    and "fold_res (sg_snapshot_outgoing_pair (snapshot_at m a) (topology_at m (sn_topology (snapshot_at m a)))) ids arcs = Inr arcs'"
  shows "arcs' = arcs @ concat (map (\<lambda>p. map (graph_arc (pair_next (automaton_at m a)) (pair_differ (automaton_at m a)) p)
    [0..<au_action_count (automaton_at m a)]) ids)"
  using assms(3)
proof (induction ids arbitrary: arcs)
  case (Cons p ids)
  have p: "p < pair_total (automaton_at m a)"
    using Cons.prems snapshot_shape(5)[OF assms(1,2)] by (auto simp: sg_snapshot_outgoing_pair_def split: if_splits)
  let ?block = "\<lambda>p. map (graph_arc (pair_next (automaton_at m a)) (pair_differ (automaton_at m a)) p)
    [0..<au_action_count (automaton_at m a)]"
  let ?step = "sg_snapshot_outgoing_pair (snapshot_at m a) (topology_at m (sn_topology (snapshot_at m a)))"
  have "?step p arcs = Inr (arcs @ ?block p)"
    using p snapshot_shape(5)[OF assms(1,2)]
    by (simp add: sg_snapshot_outgoing_pair_def outgoing_arc[OF assms(1,2) p] sg_automaton_action_count_def)
  with Cons.prems have "fold_res ?step ids (arcs @ ?block p) = Inr arcs'" by simp
  from Cons.IH[OF this] show ?case by simp
qed simp

lemma outgoing_error: "fold_res (sg_snapshot_outgoing_pair s t) ids arcs = Inl e \<Longrightarrow> e = SG_ERR_INVALID_ARGUMENT"
  by (induction ids arbitrary: arcs) (auto simp: sg_snapshot_outgoing_pair_def rbind_def split: sum.splits if_splits)

section \<open>Incoming arcs\<close>

lemma foldl_append_if:
  "foldl (\<lambda>xs x. if P x then xs @ [f x] else xs) ys l = ys @ map f (filter P l)"
  "foldl (\<lambda>xs x. if \<not> P x then xs else xs @ g x) zs l = zs @ concat (map g (filter P l))"
  "foldl (\<lambda>xs x. xs @ g x) zs l = zs @ concat (map g l)"
  by (induction l arbitrary: ys zs) auto

text \<open>The ordered pairs of states that the nested loops of one action meet.\<close>

definition incoming_states :: "sg_automaton \<Rightarrow> nat \<times> nat \<Rightarrow> nat \<Rightarrow> (nat \<times> nat) list" where
  "incoming_states A = (\<lambda>(ft, st) b.
     concat (map (\<lambda>f. map (Pair f) (filter (\<lambda>s. delta A s b = st) [(if ft = st then f else 0)..<au_state_count A]))
       (filter (\<lambda>f. delta A f b = ft) [0..<au_state_count A])))"

lemma incoming_states_iff:
  "(f, s) \<in> set (incoming_states A (ft, st) b) \<longleftrightarrow> f < au_state_count A \<and> s < au_state_count A \<and>
     delta A f b = ft \<and> delta A s b = st \<and> (ft = st \<longrightarrow> f \<le> s)"
  by (auto simp: incoming_states_def image_iff)

definition incoming_arc :: "sg_automaton \<Rightarrow> nat \<Rightarrow> nat \<Rightarrow> nat \<times> nat \<Rightarrow> sg_pair_arc" where
  "incoming_arc A target b = (\<lambda>(f, s).
     \<lparr>arc_source_pair = sg_pair_index (au_state_count A) f s, arc_action = b, arc_target_pair = target,
      arc_outputs_differ = (eta A f b \<noteq> eta A s b)\<rparr>)"

lemma incoming_action:
  assumes ok: "memory_ok m" "live m a" and t: "t < pair_total (automaton_at m a)"
    and b: "b < au_action_count (automaton_at m a)"
  shows "sg_incoming_action (snapshot_at m a) (topology_at m (sn_topology (snapshot_at m a))) t b arcs =
    arcs @ map (incoming_arc (automaton_at m a) t b)
      (incoming_states (automaton_at m a) (state_pairs (au_state_count (automaton_at m a)) ! t) b)"
proof -
  define A where "A = automaton_at m a"
  define n where "n = au_state_count A"
  obtain ft st where fs: "state_pairs n ! t = (ft, st)" by fastforce
  note shape = snapshot_shape[OF ok, folded A_def, folded n_def]
  have lt: "ft < n" "st < n" using pair_index_inverse[OF shape(2) t[folded A_def, folded n_def] fs] by simp_all
  have T: "tp_first (topology_at m (sn_topology (snapshot_at m a))) ! t = ft"
    "tp_second (topology_at m (sn_topology (snapshot_at m a))) ! t = st"
    using shape(6)[OF t[folded A_def, folded n_def]] fs by simp_all
  have has: "sg_reverse_has (snapshot_at m a) b x q \<longleftrightarrow> delta A q b = x" if "q < n" "x < n" for q x
    using shape(7)[OF b[folded A_def] that(2,1)] by simp
  have inner: "foldl (\<lambda>arcs s. if sg_reverse_has (snapshot_at m a) b st s
        then sg_append_incoming_arc (snapshot_at m a) (topology_at m (sn_topology (snapshot_at m a))) b f s t arcs
        else arcs) xs [lo..<n] =
      xs @ map (incoming_arc A t b \<circ> Pair f) (filter (\<lambda>s. delta A s b = st) [lo..<n])" for xs f lo
  proof -
    have "filter (sg_reverse_has (snapshot_at m a) b st) [lo..<n] = filter (\<lambda>s. delta A s b = st) [lo..<n]"
      using has lt by (intro filter_cong) auto
    then show ?thesis
      unfolding sg_append_incoming_arc_def foldl_append_if
      by (simp add: incoming_arc_def shape(4) A_def n_def)
  qed
  have outer: "filter (sg_reverse_has (snapshot_at m a) b ft) [0..<n] = filter (\<lambda>f. delta A f b = ft) [0..<n]"
    using has lt by (intro filter_cong) auto
  show ?thesis
    unfolding sg_incoming_action_def Let_def T shape(4) inner foldl_append_if outer
    by (simp add: incoming_states_def A_def[symmetric] n_def[symmetric] fs map_concat comp_def)
qed

lemma min_max_cases:
  "min x y = (u :: nat) \<Longrightarrow> max x y = v \<Longrightarrow> x = u \<and> y = v \<or> y = u \<and> x = v \<and> u \<noteq> v"
  by (auto simp: min_def max_def split: if_splits)

text \<open>These are exactly the arcs of the action that lead to the target.\<close>

lemma incoming_states_arcs:
  assumes wf: "wf_automaton A" and count: "sg_pair_count (au_state_count A) = Some (pair_total A)"
    and t: "t < pair_total A" and b: "b < au_action_count A"
  shows "set (map (incoming_arc A t b) (incoming_states A (state_pairs (au_state_count A) ! t) b)) =
    {graph_arc (pair_next A) (pair_differ A) p b |p. p < pair_total A \<and> pair_next A p b = t}" (is "?L = ?R")
proof -
  define n where "n = au_state_count A"
  obtain ft st where fs: "state_pairs n ! t = (ft, st)" by fastforce
  note inv = pair_index_inverse[OF count[folded n_def]]
  note target = inv[OF t[folded n_def] fs]
  note pos = pair_index_position[OF count[folded n_def]]
  have less: "delta A q b < n" if "q < n" for q using transition_less[OF wf] that b by (simp add: n_def)
  have arc: "incoming_arc A t b (f, s) = graph_arc (pair_next A) (pair_differ A) (sg_pair_index n f s) b \<and>
      sg_pair_index n f s < pair_total A \<and> pair_next A (sg_pair_index n f s) b = t"
    if "f < n" "s < n" "delta A f b = ft" "delta A s b = st" for f s
  proof -
    note i = pos[OF that(1,2)]
    have "pair_next A (sg_pair_index n f s) b = t"
      using i(2) that target(4,5) by (auto simp: pair_next_def n_def[symmetric] min_def max_def)
    moreover have "pair_differ A (sg_pair_index n f s) b \<longleftrightarrow> eta A f b \<noteq> eta A s b"
      using i(2) by (auto simp: pair_differ_def n_def[symmetric] min_def max_def)
    ultimately show ?thesis using i(1) by (simp add: incoming_arc_def graph_arc_def n_def)
  qed
  show ?thesis
  proof
    show "?L \<subseteq> ?R"
    proof
      fix x assume "x \<in> ?L"
      then obtain f s where "x = incoming_arc A t b (f, s)" "f < n" "s < n" "delta A f b = ft" "delta A s b = st"
        unfolding n_def[symmetric] fs by (auto simp: incoming_states_iff n_def[symmetric])
      with arc show "x \<in> ?R" by blast
    qed
    show "?R \<subseteq> ?L"
    proof
      fix x assume "x \<in> ?R"
      then obtain p where p: "p < pair_total A" "pair_next A p b = t" "x = graph_arc (pair_next A) (pair_differ A) p b"
        by blast
      obtain f s where q: "state_pairs n ! p = (f, s)" by fastforce
      note src = inv[OF p(1)[folded n_def] q]
      have "pair_next A p b = sg_pair_index n (delta A f b) (delta A s b)"
        by (simp add: pair_next_def n_def[symmetric] q)
      then have "sg_pair_index n (delta A f b) (delta A s b) = t" using p(2) by simp
      with pos(2)[OF less[OF src(2)] less[OF src(3)]] fs
      have "min (delta A f b) (delta A s b) = ft" "max (delta A f b) (delta A s b) = st" by simp_all
      from min_max_cases[OF this] consider "delta A f b = ft" "delta A s b = st"
        | "delta A s b = ft" "delta A f b = st" "ft \<noteq> st" by blast
      then show "x \<in> ?L"
      proof cases
        case 1
        then have "(f, s) \<in> set (incoming_states A (ft, st) b)" using src by (simp add: incoming_states_iff n_def)
        moreover have "x = incoming_arc A t b (f, s)" using arc[OF src(2,3) 1] p(3) src(4) by simp
        ultimately show ?thesis unfolding n_def[symmetric] fs by auto
      next
        case 2
        then have "(s, f) \<in> set (incoming_states A (ft, st) b)" using src by (simp add: incoming_states_iff n_def)
        moreover have "x = incoming_arc A t b (s, f)" using arc[OF src(3,2) 2(1,2)] p(3) src(5) by simp
        ultimately show ?thesis unfolding n_def[symmetric] fs by auto
      qed
    qed
  qed
qed

text \<open>No arc is there twice.\<close>

lemma distinct_incoming:
  assumes wf: "wf_automaton A" and count: "sg_pair_count (au_state_count A) = Some (pair_total A)"
    and t: "t < pair_total A"
  shows "distinct (map (incoming_arc A t b) (incoming_states A (state_pairs (au_state_count A) ! t) b))"
proof -
  define n where "n = au_state_count A"
  obtain ft st where fs: "state_pairs n ! t = (ft, st)" by fastforce
  note pos = pair_index_position[OF count[folded n_def]]
  have "distinct (concat (map (\<lambda>f. map (Pair f) (filter P [g f..<n])) xs))" if "distinct xs" for P g and xs :: "nat list"
    using that by (induction xs) (auto simp: distinct_map inj_on_def)
  then have "distinct (incoming_states A (ft, st) b)" by (simp add: incoming_states_def n_def)
  moreover have "inj_on (incoming_arc A t b) (set (incoming_states A (ft, st) b))"
  proof (rule inj_onI)
    fix x y assume xy: "x \<in> set (incoming_states A (ft, st) b)" "y \<in> set (incoming_states A (ft, st) b)"
      and eq: "incoming_arc A t b x = incoming_arc A t b y"
    obtain f s f' s' where [simp]: "x = (f, s)" "y = (f', s')" by fastforce
    have in1: "f < n" "s < n" "delta A f b = ft" "delta A s b = st" "ft = st \<Longrightarrow> f \<le> s"
      and in2: "f' < n" "s' < n" "delta A f' b = ft" "delta A s' b = st" "ft = st \<Longrightarrow> f' \<le> s'"
      using xy by (simp_all add: incoming_states_iff n_def)
    have "sg_pair_index n f s = sg_pair_index n f' s'" using eq by (simp add: incoming_arc_def n_def)
    then have "(min f s, max f s) = (min f' s', max f' s')" using pos(2)[OF in1(1,2)] pos(2)[OF in2(1,2)] by simp
    then show "x = y" using in1 in2 by (auto simp: min_def max_def split: if_splits)
  qed
  ultimately show ?thesis unfolding n_def[symmetric] fs by (simp add: distinct_map)
qed

text \<open>All arcs into one target, and then into a list of targets in which repetitions are skipped.\<close>

definition arcs_into :: "sg_automaton \<Rightarrow> nat set \<Rightarrow> sg_pair_arc set" where
  "arcs_into A targets = {graph_arc (pair_next A) (pair_differ A) p b |p b.
     p < pair_total A \<and> b < au_action_count A \<and> pair_next A p b \<in> targets}"

definition incoming_block :: "sg_automaton \<Rightarrow> nat \<Rightarrow> sg_pair_arc list" where
  "incoming_block A t = concat (map (\<lambda>b. map (incoming_arc A t b)
     (incoming_states A (state_pairs (au_state_count A) ! t) b)) [0..<au_action_count A])"

lemma incoming_block:
  assumes "wf_automaton A" "sg_pair_count (au_state_count A) = Some (pair_total A)" "t < pair_total A"
  shows "set (incoming_block A t) = arcs_into A {t}" "distinct (incoming_block A t)"
proof -
  have "set (map (incoming_arc A t b) (incoming_states A (state_pairs (au_state_count A) ! t) b)) =
      {graph_arc (pair_next A) (pair_differ A) p b |p. p < pair_total A \<and> pair_next A p b = t}"
    if "b < au_action_count A" for b by (rule incoming_states_arcs[OF assms that])
  moreover have "set (concat (map g [0..<k])) = (\<Union>b \<in> {..<k}. set (g b))" for g :: "nat \<Rightarrow> sg_pair_arc list" and k
    by auto
  ultimately have "set (incoming_block A t) = (\<Union>b \<in> {..<au_action_count A}.
      {graph_arc (pair_next A) (pair_differ A) p b |p. p < pair_total A \<and> pair_next A p b = t})"
    unfolding incoming_block_def by (simp add: atLeast0LessThan)
  then show "set (incoming_block A t) = arcs_into A {t}" by (auto simp: arcs_into_def)
  have action: "arc_action x = b" if "x \<in> set (map (incoming_arc A t b) (incoming_states A (state_pairs (au_state_count A) ! t) b))"
    for x b using that by (auto simp: incoming_arc_def)
  have "distinct (concat (map (\<lambda>b. map (incoming_arc A t b)
     (incoming_states A (state_pairs (au_state_count A) ! t) b)) [0..<k])) \<and>
     arc_action ` set (concat (map (\<lambda>b. map (incoming_arc A t b)
     (incoming_states A (state_pairs (au_state_count A) ! t) b)) [0..<k])) \<subseteq> {..<k}" for k
  proof (induction k)
    case (Suc k)
    have "arc_action ` set (map (incoming_arc A t k) (incoming_states A (state_pairs (au_state_count A) ! t) k)) \<subseteq> {k}"
      using action by blast
    with Suc distinct_incoming[OF assms, of k] show ?case by (fastforce simp del: set_map)
  qed simp
  then show "distinct (incoming_block A t)" by (simp add: incoming_block_def)
qed

lemma incoming_target:
  assumes ok: "memory_ok m" "live m a" and t: "targets ! i < pair_total (automaton_at m a)"
  shows "sg_incoming_target (snapshot_at m a) (topology_at m (sn_topology (snapshot_at m a))) targets i arcs =
    Inr (if \<exists>j < i. targets ! j = targets ! i then arcs
         else arcs @ incoming_block (automaton_at m a) (targets ! i))"
proof -
  have "foldl (\<lambda>arcs action. sg_incoming_action (snapshot_at m a) (topology_at m (sn_topology (snapshot_at m a)))
        (targets ! i) action arcs) arcs [0..<j] =
      arcs @ concat (map (\<lambda>b. map (incoming_arc (automaton_at m a) (targets ! i) b)
        (incoming_states (automaton_at m a) (state_pairs (au_state_count (automaton_at m a)) ! (targets ! i)) b)) [0..<j])"
    if "j \<le> au_action_count (automaton_at m a)" for j
    using that by (induction j) (simp_all add: incoming_action[OF ok t])
  from this[of "au_action_count (automaton_at m a)"] t snapshot_shape(5)[OF ok] show ?thesis
    by (auto simp: sg_incoming_target_def Let_def incoming_block_def sg_automaton_action_count_def list_ex_iff)
qed

lemma incoming_loop:
  assumes ok: "memory_ok m" "live m a" and "j \<le> length targets"
  defines "run \<equiv> fold_res (sg_incoming_target (snapshot_at m a) (topology_at m (sn_topology (snapshot_at m a))) targets)
    [0..<j] []"
  shows "if set (take j targets) \<subseteq> {..<pair_total (automaton_at m a)}
    then \<exists>arcs. run = Inr arcs \<and> distinct arcs \<and> set arcs = arcs_into (automaton_at m a) (set (take j targets))
    else run = Inl SG_ERR_INVALID_ARGUMENT"
  using assms(3) unfolding run_def
proof (induction j)
  case 0
  then show ?case by (simp add: arcs_into_def)
next
  case (Suc j)
  let ?A = "automaton_at m a"
  let ?run = "fold_res (sg_incoming_target (snapshot_at m a) (topology_at m (sn_topology (snapshot_at m a))) targets)"
  have tk: "set (take (Suc j) targets) = insert (targets ! j) (set (take j targets))"
    using Suc.prems by (simp add: take_Suc_conv_app_nth)
  show ?case
  proof (cases "set (take j targets) \<subseteq> {..<pair_total ?A}")
    case False
    with Suc show ?thesis by (auto simp: tk)
  next
    case True
    with Suc obtain arcs where run: "?run [0..<j] [] = Inr arcs" and arcs: "distinct arcs"
      "set arcs = arcs_into ?A (set (take j targets))" by (meson Suc_leD)
    show ?thesis
    proof (cases "targets ! j < pair_total ?A")
      case False
      with run snapshot_shape(5)[OF ok] True show ?thesis by (simp add: tk sg_incoming_target_def)
    next
      case t: True
      note block = incoming_block[OF snapshot_shape(1,2)[OF ok] t]
      have seen: "(\<exists>i < j. targets ! i = targets ! j) \<longleftrightarrow> targets ! j \<in> set (take j targets)"
        using Suc.prems by (auto simp: in_set_conv_nth)
      have "?run [0..<Suc j] [] = sg_incoming_target (snapshot_at m a)
          (topology_at m (sn_topology (snapshot_at m a))) targets j arcs"
        using run by (simp add: rbind_def split: sum.split)
      then have next_run: "?run [0..<Suc j] [] = Inr (if targets ! j \<in> set (take j targets) then arcs
          else arcs @ incoming_block ?A (targets ! j))"
        unfolding incoming_target[OF ok t] seen .
      have range: "set (take (Suc j) targets) \<subseteq> {..<pair_total ?A}" using True t by (simp add: tk)
      show ?thesis
      proof (cases "targets ! j \<in> set (take j targets)")
        case True
        then have "set (take (Suc j) targets) = set (take j targets)" by (simp add: tk insert_absorb)
        with next_run arcs True range show ?thesis by (simp only: if_True) blast
      next
        case False
        have "set arcs \<inter> set (incoming_block ?A (targets ! j)) = {}"
          using False by (auto simp: arcs block arcs_into_def graph_arc_def)
        then have "distinct (arcs @ incoming_block ?A (targets ! j))" using arcs(1) block(2) by simp
        moreover have "set (arcs @ incoming_block ?A (targets ! j)) = arcs_into ?A (set (take (Suc j) targets))"
          by (auto simp: arcs block arcs_into_def tk)
        ultimately show ?thesis using next_run False range by (simp only: if_True if_False) blast
      qed
    qed
  qed
qed

lemma read_incoming_store:
  assumes ok: "memory_ok m" "live m a"
  shows "if set targets \<subseteq> {..<pair_total (automaton_at m a)}
    then \<exists>arcs. sg_snapshot_store_read_incoming a m targets = (SG_OK, arcs) \<and> distinct arcs \<and>
      set arcs = arcs_into (automaton_at m a) (set targets)
    else sg_snapshot_store_read_incoming a m targets = (SG_ERR_INVALID_ARGUMENT, [])"
proof -
  let ?A = "automaton_at m a"
  let ?run = "fold_res (sg_incoming_target (snapshot_at m a) (topology_at m (sn_topology (snapshot_at m a))) targets)
    [0..<length targets] []"
  have "sg_snapshot_store_read_incoming a m targets =
      (case ?run of Inl status \<Rightarrow> (status, []) | Inr arcs \<Rightarrow> (SG_OK, arcs))"
    by (simp add: sg_snapshot_store_read_incoming_def Let_def)
  with incoming_loop[OF ok order_refl, of targets] show ?thesis
    unfolding take_all[OF order_refl] by (cases "set targets \<subseteq> {..<pair_total ?A}") (auto simp only: if_True if_False sum.case)
qed

section \<open>A snapshot is a store\<close>

text \<open>
  The invariant of a run of operations that began in the memory \<open>m0\<close>: only records of \<open>a\<close> have changed,
  and every record still names its own pair.
\<close>

definition snapshot_inv :: "nat \<Rightarrow> sg_snapshot_memory \<Rightarrow> sg_snapshot_memory \<Rightarrow> bool" where
  "snapshot_inv a m0 m \<longleftrightarrow> memory_ok m0 \<and> live m0 a \<and> memory_ok m \<and> writes_to a (snapshot_record m a) m0 m \<and>
     (\<forall>p < pair_total (automaton_at m0 a). rec_pair (snapshot_record m a p) = p)"

lemma snapshot_invD:
  assumes "snapshot_inv a m0 m"
  shows "memory_ok m0" "live m0 a" "memory_ok m" "live m a" "automaton_at m a = automaton_at m0 a"
    "writes_to a (snapshot_record m a) m0 m"
    "p < pair_total (automaton_at m0 a) \<Longrightarrow> rec_pair (snapshot_record m a p) = p"
proof -
  show "memory_ok m0" "live m0 a" "memory_ok m" "writes_to a (snapshot_record m a) m0 m"
    using assms by (simp_all add: snapshot_inv_def)
  then show "live m a" by (simp add: writes_to_def)
  have "snapshot_core (snapshot_at m a) = snapshot_core (snapshot_at m0 a)"
    using \<open>live m0 a\<close> \<open>writes_to a (snapshot_record m a) m0 m\<close> unfolding writes_to_def by blast
  then show "automaton_at m a = automaton_at m0 a" by (rule snapshot_core_eq(2))
  show "p < pair_total (automaton_at m0 a) \<Longrightarrow> rec_pair (snapshot_record m a p) = p"
    using assms by (simp add: snapshot_inv_def)
qed

lemma rec_pair_put_records: "rec_pair (f p) = p \<Longrightarrow> rec_pair (put_records rs f p) = p"
  by (induction rs arbitrary: f) auto

lemma sg_snapshot_store_simps:
  assumes "memory_ok m0" "live m0 a"
  shows "st_state_count (sg_snapshot_store a m0) = au_state_count (automaton_at m0 a)"
    "st_action_count (sg_snapshot_store a m0) = au_action_count (automaton_at m0 a)"
    "st_pair_count (sg_snapshot_store a m0) = pair_total (automaton_at m0 a)"
  using snapshot_shape(4,5)[OF assms] by (simp_all add: sg_snapshot_store_def Let_def sg_automaton_action_count_def)

lemma sg_snapshot_store_callbacks [simp]:
  "st_read_records (sg_snapshot_store a m0) = Some (sg_snapshot_store_read_records a)"
  "st_read_outgoing (sg_snapshot_store a m0) = Some (sg_snapshot_store_read_outgoing a)"
  "st_read_incoming (sg_snapshot_store a m0) = Some (sg_snapshot_store_read_incoming a)"
  "st_write_records (sg_snapshot_store a m0) = Some (sg_snapshot_store_write_records a)"
  by (simp_all add: sg_snapshot_store_def Let_def)

interpretation snapshot_store: pair_store "sg_snapshot_store a m0" "snapshot_inv a m0" "\<lambda>m. snapshot_record m a"
  "pair_next (automaton_at m0 a)" "pair_differ (automaton_at m0 a)" for a m0
proof
  fix m
  assume inv: "snapshot_inv a m0 m"
  note D = snapshot_invD[OF inv]
  note count = sg_snapshot_store_simps[OF D(1,2)]
  show "st_pair_count (sg_snapshot_store a m0) \<le> SIZE_MAX" using snapshot_shape(8)[OF D(1,2)] by (simp add: count)
  show "rec_pair (snapshot_record m a p) = p" if "p < st_pair_count (sg_snapshot_store a m0)" for p
    using D(7) that by (simp add: count)
  show "set ids \<subseteq> {..<st_pair_count (sg_snapshot_store a m0)} \<and> rs = map (snapshot_record m a) ids"
    if "the (st_read_records (sg_snapshot_store a m0)) m ids = Inr rs" for ids rs
    using read_records_loop[of a m ids "[]" rs] that D snapshot_shape(3)[OF D(3,4)]
    by (simp add: count sg_snapshot_store_read_records_def sg_pair_snapshot_read_def)
  show "arcs = concat (map (\<lambda>p. map (graph_arc (pair_next (automaton_at m0 a)) (pair_differ (automaton_at m0 a)) p)
      [0..<st_action_count (sg_snapshot_store a m0)]) ids)"
    if "the (st_read_outgoing (sg_snapshot_store a m0)) m ids = (SG_OK, arcs)" for ids arcs
    using outgoing_loop[OF D(3,4), of ids "[]" arcs] that
    by (auto simp: count D(5) sg_snapshot_store_read_outgoing_def Let_def sg_automaton_action_count_def
        dest!: outgoing_error split: option.splits sum.splits)
  show "set arcs = {graph_arc (pair_next (automaton_at m0 a)) (pair_differ (automaton_at m0 a)) p b |p b.
      p < st_pair_count (sg_snapshot_store a m0) \<and> b < st_action_count (sg_snapshot_store a m0) \<and>
      pair_next (automaton_at m0 a) p b \<in> set ids}"
    if "the (st_read_incoming (sg_snapshot_store a m0)) m ids = (SG_OK, arcs)" for ids arcs
    using read_incoming_store[OF D(3,4), of ids] that by (auto simp: count D(5) arcs_into_def split: if_splits)
  show "snapshot_inv a m0 m' \<and> (\<exists>done. prefix done rs \<and> snapshot_record m' a = put_records done (snapshot_record m a) \<and>
      (status = SG_OK \<longrightarrow> done = rs))"
    if "the (st_write_records (sg_snapshot_store a m0)) m rs = (status, m')" for rs status m'
  proof -
    from that have "sg_snapshot_store_write_records a m rs = (status, m')" by simp
    from write_records_store[OF D(3,4) this] obtain ws where ws: "memory_ok m'" "prefix ws rs"
      "writes_to a (put_records ws (snapshot_record m a)) m m'" "status = SG_OK \<longrightarrow> ws = rs"
      by blast
    have rec: "snapshot_record m' a = put_records ws (snapshot_record m a)" using ws(3) D(4) by (simp add: writes_to_def)
    then have "snapshot_inv a m0 m'"
      using ws D writes_to_trans[OF D(6) ws(3)] rec_pair_put_records by (simp add: snapshot_inv_def)
    with ws rec show ?thesis by blast
  qed
qed

interpretation snapshot_repair: repair_run "sg_snapshot_store a m0" "snapshot_inv a m0" "\<lambda>m. snapshot_record m a"
  "pair_next (automaton_at m0 a)" "pair_differ (automaton_at m0 a)"
  "\<lparr>rc_store = sg_snapshot_store a m0, rc_repair_budget = budget, rc_diagonal = diagonal\<rparr>" obj
  for a m0 budget diagonal obj
  by unfold_locales simp

end
