(* ===== verification/Sync_Repair_Frame.thy ===== *)
theory Sync_Repair_Frame
  imports Sync_Repair_Step
begin

text \<open>
  What every repair keeps, whether it succeeds or stops with an error: the memory changes only through
  the callback that writes, an error is never the status SG_OK, and the number of touched pairs stays
  within the budget until the step that exceeds it.
\<close>

section \<open>Operations that keep a predicate\<close>

text \<open>\<open>P\<close> holds before and after a success, \<open>R\<close> after an error.\<close>

definition keeps ::
  "('m sg_repair_state \<Rightarrow> bool) \<Rightarrow> ('m sg_repair_state \<Rightarrow> bool) \<Rightarrow> ('m, 'a) repair \<Rightarrow> bool" where
  "keeps P R m \<longleftrightarrow>
     (\<forall>s. P s \<longrightarrow> (case m s of (Inl e, s') \<Rightarrow> e \<noteq> SG_OK \<and> R s' | (Inr _, s') \<Rightarrow> P s'))"

definition keeps_run ::
  "('m sg_repair_state \<Rightarrow> bool) \<Rightarrow> ('m sg_repair_state \<Rightarrow> bool) \<Rightarrow> ('m sg_repair_state \<Rightarrow> ('a res \<times> 'm sg_repair_state) option) \<Rightarrow> bool" where
  "keeps_run P R m \<longleftrightarrow>
     (\<forall>s. P s \<longrightarrow> (case m s of None \<Rightarrow> True | Some (Inl e, s') \<Rightarrow> e \<noteq> SG_OK \<and> R s' | Some (Inr _, s') \<Rightarrow> P s'))"

named_theorems keeps

lemma keepsI:
  assumes "\<And>s e s'. P s \<Longrightarrow> m s = (Inl e, s') \<Longrightarrow> e \<noteq> SG_OK \<and> R s'"
    and "\<And>s x s'. P s \<Longrightarrow> m s = (Inr x, s') \<Longrightarrow> P s'"
  shows "keeps P R m"
  using assms by (auto simp: keeps_def split: prod.split sum.split)

lemma keeps_Inl: "keeps P R m \<Longrightarrow> P s \<Longrightarrow> m s = (Inl e, s') \<Longrightarrow> e \<noteq> SG_OK \<and> R s'"
  by (auto simp: keeps_def dest!: spec[of _ s])

lemma keeps_Inr: "keeps P R m \<Longrightarrow> P s \<Longrightarrow> m s = (Inr x, s') \<Longrightarrow> P s'"
  by (auto simp: keeps_def dest!: spec[of _ s])

lemma keeps_bind [keeps]: "keeps P R m \<Longrightarrow> (\<And>x. keeps P R (f x)) \<Longrightarrow> keeps P R (rs_bind m f)"
  by (rule keepsI) (auto simp: rs_bind_def dest: keeps_Inl keeps_Inr split: prod.splits sum.splits)

lemma keeps_if [keeps]: "(c \<Longrightarrow> keeps P R m) \<Longrightarrow> (\<not> c \<Longrightarrow> keeps P R m') \<Longrightarrow> keeps P R (if c then m else m')"
  by simp

lemma keeps_prod [keeps]: "(\<And>a b. keeps P R (f a b)) \<Longrightarrow> keeps P R (case x of (a, b) \<Rightarrow> f a b)"
  by (cases x) simp

lemma keeps_prod_app [keeps]: "(\<And>a b. keeps P R (f a b y)) \<Longrightarrow> keeps P R ((case x of (a, b) \<Rightarrow> f a b) y)"
  by (cases x) simp

lemma keeps_return [keeps]: "keeps P R (Pair (Inr x))"
  by (rule keepsI) simp_all

lemma keeps_option [keeps]: "keeps P R m \<Longrightarrow> (\<And>a. keeps P R (f a)) \<Longrightarrow> keeps P R (case x of None \<Rightarrow> m | Some a \<Rightarrow> f a)"
  by (cases x) simp_all

lemma keeps_Let [keeps]: "(\<And>y. keeps P R (f y)) \<Longrightarrow> keeps P R (let y = x in f y)"
  by simp

lemma keeps_fold [keeps]: "(\<And>x a. keeps P R (f x a)) \<Longrightarrow> keeps P R (rs_fold f xs a)"
proof (induction xs arbitrary: a)
  case Nil
  show ?case by (rule keepsI) (simp_all add: rs_lift_def)
next
  case (Cons x xs)
  from Cons.IH Cons.prems show ?case unfolding rs_fold.simps by (intro keeps_bind) simp_all
qed

lemma keeps_run_bind [keeps]:
  assumes m: "keeps_run P R m" and f: "\<And>x. keeps_run P R (f x)"
  shows "keeps_run P R (\<lambda>s. run_bind (m s) f)"
  unfolding keeps_run_def
proof (intro allI impI)
  fix s assume P: "P s"
  note first = m[unfolded keeps_run_def, rule_format, OF P]
  show "case run_bind (m s) f of None \<Rightarrow> True | Some (Inl e, s') \<Rightarrow> e \<noteq> SG_OK \<and> R s' | Some (Inr _, s') \<Rightarrow> P s'"
  proof (cases "m s")
    case (Some y)
    obtain r s1 where y: "y = (r, s1)" by fastforce
    with first Some f[unfolded keeps_run_def, rule_format, of s1] show ?thesis
      by (cases r) (simp_all add: run_bind_def)
  qed (simp add: run_bind_def)
qed

lemma keeps_run_Some [keeps]: "keeps P R m \<Longrightarrow> keeps_run P R (\<lambda>s. Some (m s))"
  by (simp add: keeps_def keeps_run_def)

lemma keeps_run_prod [keeps]: "(\<And>a b. keeps_run P R (f a b)) \<Longrightarrow> keeps_run P R (case x of (a, b) \<Rightarrow> f a b)"
  by (cases x) simp

lemma keeps_run_while [keeps]:
  fixes body :: "'a \<Rightarrow> ('m, 'a) repair"
  assumes body: "\<And>a. keeps P R (body a)"
  shows "keeps_run P R (rs_while cond body a)"
proof -
  define Q where "Q = (\<lambda>c b (a :: 'a) s (y :: 'a res \<times> 'm sg_repair_state). c = cond \<longrightarrow> b = body \<longrightarrow> P s \<longrightarrow>
      (case y of (Inl e, s') \<Rightarrow> e \<noteq> SG_OK \<and> R s' | (Inr _, s') \<Rightarrow> P s'))"
  have "Q cond body a s y" if "rs_while cond body a s = Some y" for s y
  proof (rule rs_while.raw_induct[OF _ that])
    fix F c b a s y
    assume IH: "\<And>c b a s y. F c b a s = Some y \<Longrightarrow> Q c b a s y"
      and run: "(if c a then case b a s of (Inl status, s) \<Rightarrow> Some (Inl status, s) | (Inr a, s) \<Rightarrow> F c b a s
        else Some (Inr a, s)) = Some y"
    show "Q c b a s y"
      unfolding Q_def
    proof (intro impI)
      assume eq: "c = cond" "b = body" and P: "P s"
      show "case y of (Inl e, s') \<Rightarrow> e \<noteq> SG_OK \<and> R s' | (Inr _, s') \<Rightarrow> P s'"
      proof (cases "cond a")
        case False
        with run eq P show ?thesis by auto
      next
        case True
        show ?thesis
        proof (cases "body a s")
          case (Pair r s1)
          with run eq True P body[of a] IH[of cond body _ s1 y] show ?thesis
            by (cases r) (auto simp: Q_def dest: keeps_Inl keeps_Inr)
        qed
      qed
    qed
  qed
  then show ?thesis by (auto simp: keeps_run_def Q_def split: option.split)
qed

lemma keeps_lift:
  assumes "r \<noteq> Inl SG_OK" "\<And>s. P s \<Longrightarrow> R s"
  shows "keeps P R (rs_lift r)"
  using assms by (intro keepsI) (auto simp: rs_lift_def)

lemma fold_res_not_ok: "(\<And>x a. f x a \<noteq> Inl SG_OK) \<Longrightarrow> fold_res f xs a \<noteq> Inl SG_OK"
  by (induction xs arbitrary: a) (auto simp: rbind_def split: sum.splits)

section \<open>The pure steps\<close>

lemma pure_steps_not_ok:
  "sg_evaluation_start ctx ids obj i x \<noteq> Inl SG_OK"
  "sg_check_arc ctx pos arc y \<noteq> Inl SG_OK"
  "sg_relax_arc ctx obj pos at evs \<noteq> Inl SG_OK"
  "sg_collect_source ctx excluded arc z \<noteq> Inl SG_OK"
  "sg_relax_predecessor ctx obj d arc st \<noteq> Inl SG_OK"
  by (auto simp: sg_evaluation_start_def sg_check_arc_def sg_relax_arc_def sg_arc_distance_def sg_collect_source_def
      sg_relax_predecessor_def Let_def rbind_def split: prod.splits option.splits sum.splits if_splits)

section \<open>The frame of a repair\<close>

text \<open>
  A memory predicate that the writing callback keeps and, of the callbacks that read, only that a
  failure is not reported as SG_OK.
\<close>

locale repair_frame =
  fixes ctx :: "'m sg_repair_context" and good :: "'m \<Rightarrow> bool"
  assumes good_write: "good m \<Longrightarrow> the (st_write_records (rc_store ctx)) m rs = (status, m') \<Longrightarrow> good m'"
    and read_status: "the (st_read_records (rc_store ctx)) m ids \<noteq> Inl SG_OK"
begin

definition within :: "nat \<Rightarrow> 'm sg_repair_state \<Rightarrow> bool" where
  "within extra s \<longleftrightarrow> good (rp_memory s) \<and> rm_pair_records_touched (rp_metrics s) \<le> rc_repair_budget ctx + extra"

abbreviation "safe \<equiv> keeps (within 0) (within 1)"
abbreviation "safe_run \<equiv> keeps_run (within 0) (within 1)"

lemma within_weaken: "within 0 s \<Longrightarrow> within 1 s"
  by (simp add: within_def)

lemma safe_lift [keeps]: "r \<noteq> Inl SG_OK \<Longrightarrow> safe (rs_lift r)"
  by (rule keeps_lift[OF _ within_weaken])

lemma safe_metrics [keeps]:
  "(\<And>m. rm_pair_records_touched (f m) = rm_pair_records_touched m) \<Longrightarrow> safe (rs_metrics f)"
  by (rule keepsI) (auto simp: rs_metrics_def within_def)

lemma safe_reads [keeps]:
  "safe (rs_read_records ctx ids)" "safe (rs_read_outgoing ctx ids)" "safe (rs_read_incoming ctx ids)"
  by (rule keepsI; use read_status in \<open>auto simp: rs_read_records_def rs_read_outgoing_def rs_read_incoming_def
      within_def Let_def split: prod.splits if_splits\<close>)+

lemma safe_mark [keeps]: "safe (sg_mark_touched ctx p)"
  by (rule keepsI) (auto simp: sg_mark_touched_def Let_def within_def split: if_splits)

lemma safe_write [keeps]: "safe (sg_write_records ctx rs)"
  by (rule keepsI) (auto simp: sg_write_records_def Let_def within_def intro: good_write split: prod.splits if_splits)

lemma safe_pure [keeps]:
  "safe (rs_lift (fold_res (sg_evaluation_start ctx ids obj) xs a))"
  "safe (rs_lift (fold_res (sg_check_arc ctx pos) ys b))"
  "safe (rs_lift (fold_res (sg_relax_arc ctx obj pos) zs c))"
  "safe (rs_lift (fold_res (sg_collect_source ctx excluded) us d))"
  "safe (rs_lift (fold_res (sg_relax_predecessor ctx obj dist) vs e))"
  by (intro safe_lift fold_res_not_ok pure_steps_not_ok)+

lemma safe_evaluate [keeps]: "safe (sg_evaluate_pairs ctx ids obj)"
  unfolding sg_evaluate_pairs_def by (intro keeps) simp_all

lemma safe_collect [keeps]: "safe (sg_collect_sources ctx ids excluded)"
  unfolding sg_collect_sources_def by (intro keeps) simp_all

lemma safe_collect_write [keeps]: "safe (sg_collect_write obj p cur cand x)"
  unfolding sg_collect_write_def
  by (cases x; simp only: prod.case; intro keeps) (simp_all add: sg_count_changed_def)

lemma safe_invalidate_pair [keeps]: "safe (sg_invalidate_pair obj p st)"
  unfolding sg_invalidate_pair_def by (intro keeps) (simp_all add: sg_count_invalidated_def)

lemma safe_update [keeps]: "safe (sg_update_pair ctx obj p e x)"
  unfolding sg_update_pair_def by (intro keeps)

lemma safe_seed_pair [keeps]: "safe (sg_seed_pair ctx obj x y)"
  unfolding sg_seed_pair_def
  by (cases x; cases y; simp only: prod.case; intro keeps) simp_all

lemma safe_seed: "safe (sg_seed_objective_changes ctx st seeds obj)"
  unfolding sg_seed_objective_changes_def by (intro keeps) simp_all

lemma safe_invalidate: "safe_run (sg_invalidate_dependents ctx st obj)"
  unfolding sg_invalidate_dependents_def sg_invalidate_round_def by (intro keeps) simp_all

lemma safe_finalize [keeps]: "safe (sg_finalize_pair obj d x y)"
  unfolding sg_finalize_pair_def
  by (cases x; cases y; simp only: prod.case; intro keeps) simp_all

lemma safe_rebuild: "safe_run (sg_rebuild_invalidated ctx st obj)"
  unfolding sg_rebuild_invalidated_def sg_seed_rebuild_heap_def sg_rebuild_round_def sg_relax_invalid_predecessors_def
  by (intro keeps) simp_all

lemma safe_decrease [keeps]: "safe (sg_decrease_pair ctx obj x y)"
  unfolding sg_decrease_pair_def
  by (cases x; cases y; simp only: prod.case; intro keeps) simp_all

lemma safe_propagate: "safe_run (sg_propagate_decreases ctx st obj)"
  unfolding sg_propagate_decreases_def sg_propagate_round_def by (intro keeps) simp_all

lemma safe_one_objective: "safe_run (sg_repair_one_objective ctx seeds obj)"
  unfolding sg_repair_one_objective_def
  by (intro keeps safe_seed safe_invalidate safe_rebuild safe_propagate)

lemma safe_both_objectives:
  "safe_run (\<lambda>s. run_bind (sg_repair_one_objective ctx seeds SG_REPAIR_MERGE s) (\<lambda>_ s.
     sg_repair_one_objective ctx seeds SG_REPAIR_RESOLUTION s))"
  by (intro keeps_run_bind safe_one_objective)

end

end
