(* ===== verification/Sync_Snapshot_Repair.thy ===== *)
theory Sync_Snapshot_Repair
  imports Sync_Snapshot_Store Sync_Repair_Frame
begin

text \<open>
  What a repair of a snapshot leaves: records that fit each other for both objectives, so that every
  distance is the length of a word, and the other snapshots as they were.
\<close>

section \<open>Records that fit an automaton\<close>

text \<open>
  The record of a pair fits if it is that of a root on the diagonal, and elsewhere either unreachable or
  the best candidate over the distances of the successor pairs.
\<close>

definition pair_fits ::
  "sg_automaton \<Rightarrow> sg_repair_objective \<Rightarrow> (nat \<Rightarrow> sg_pair_record) \<Rightarrow> nat \<Rightarrow> bool" where
  "pair_fits A obj f p \<longleftrightarrow>
     (reachable_flag obj (f p) \<longleftrightarrow> sg_record_distance (f p) obj \<noteq> SG_INDEX_NONE) \<and>
     (if pair_equal A p then sg_candidate_of (f p) obj = root_candidate
      else sg_candidate_of (f p) obj = no_candidate \<or>
           sg_candidate_of (f p) obj = best_candidate obj (pair_next A) (pair_differ A) f (au_action_count A) p)"

lemma settled_pair_fits:
  assumes "st_action_count (rc_store ctx) = au_action_count A" "rc_diagonal ctx ! p = pair_equal A p"
  shows "settled ctx obj (pair_next A) (pair_differ A) f p \<longleftrightarrow> pair_fits A obj f p"
  using assms by (simp add: settled_def record_fits_def pair_fits_def)

text \<open>Only the fields of the objective count.\<close>

lemma pair_fits_cong:
  assumes "\<And>p. sg_record_objective_equal (f p) (g p) obj"
  shows "pair_fits A obj f p \<longleftrightarrow> pair_fits A obj g p"
proof -
  have eq: "reachable_flag obj (f p) = reachable_flag obj (g p)" "sg_candidate_of (f p) obj = sg_candidate_of (g p) obj" for p
    using assms[of p] by (simp_all add: sg_record_objective_equal_iff)
  then have "sg_record_distance (f p) obj = sg_record_distance (g p) obj" for p
    by (simp add: sg_record_distance_candidate)
  moreover from this have "best_candidate obj target differ f k p = best_candidate obj target differ g k p" for target differ k
    by (intro best_candidate_cong) (simp add: arc_reach_def)
  ultimately show ?thesis by (simp add: pair_fits_def eq)
qed

section \<open>The diagonal\<close>

lemma diagonal_loop:
  assumes wf: "wf_automaton A" and count: "sg_pair_count (au_state_count A) = Some (pair_total A)"
    and "j \<le> au_state_count A"
  shows "\<exists>diagonal. fold_res (sg_repair_diagonal (au_state_count A) (pair_total A)) [0..<j]
      (replicate (pair_total A) False) = Inr diagonal \<and> length diagonal = pair_total A \<and>
    (\<forall>p < pair_total A. diagonal ! p \<longleftrightarrow> pair_equal A p \<and> fst (state_pairs (au_state_count A) ! p) < j)"
  using assms(3)
proof (induction j)
  case (Suc j)
  then obtain diagonal where run: "fold_res (sg_repair_diagonal (au_state_count A) (pair_total A)) [0..<j]
      (replicate (pair_total A) False) = Inr diagonal" and l: "length diagonal = pair_total A"
    and d: "\<forall>p < pair_total A. diagonal ! p \<longleftrightarrow> pair_equal A p \<and> fst (state_pairs (au_state_count A) ! p) < j"
    by auto
  let ?i = "sg_pair_index (au_state_count A) j j"
  have i: "?i < pair_total A" "state_pairs (au_state_count A) ! ?i = (j, j)"
    using pair_index_position[OF count, of j j] Suc.prems by simp_all
  have "pair_equal A p \<and> fst (state_pairs (au_state_count A) ! p) < Suc j \<longleftrightarrow>
      p = ?i \<or> pair_equal A p \<and> fst (state_pairs (au_state_count A) ! p) < j" if p: "p < pair_total A" for p
  proof -
    obtain f s where fs: "state_pairs (au_state_count A) ! p = (f, s)" by fastforce
    have "sg_pair_index (au_state_count A) f s = p" by (rule pair_index_inverse(4)[OF count p fs])
    then show ?thesis using i(2) fs by (auto simp: pair_equal_def less_Suc_eq)
  qed
  with d l i(1) have after: "length (diagonal[?i := True]) = pair_total A"
    "\<forall>p < pair_total A. diagonal[?i := True] ! p \<longleftrightarrow> pair_equal A p \<and> fst (state_pairs (au_state_count A) ! p) < Suc j"
    by (simp_all add: nth_list_update)
  have "sg_repair_diagonal (au_state_count A) (pair_total A) j diagonal = Inr (diagonal[?i := True])"
    using i(1) by (simp add: sg_repair_diagonal_def Let_def)
  with run have "fold_res (sg_repair_diagonal (au_state_count A) (pair_total A)) [0..<Suc j]
      (replicate (pair_total A) False) = Inr (diagonal[?i := True])" by (simp add: rbind_def)
  with after show ?case by blast
qed simp

section \<open>The repair\<close>

text \<open>The context that the repair of a snapshot works with.\<close>

definition repair_context :: "nat \<Rightarrow> sg_snapshot_memory \<Rightarrow> nat \<Rightarrow> sg_snapshot_memory sg_repair_context" where
  "repair_context a m budget = \<lparr>rc_store = sg_snapshot_store a m, rc_repair_budget = budget,
     rc_diagonal = map (pair_equal (automaton_at m a)) [0..<pair_total (automaton_at m a)]\<rparr>"

definition repair_start :: "nat \<Rightarrow> sg_snapshot_memory \<Rightarrow> sg_snapshot_memory sg_repair_state" where
  "repair_start a m = \<lparr>rp_memory = m, rp_metrics = sg_metrics_zero,
     rp_touched = replicate (pair_total (automaton_at m a)) False\<rparr>"

lemma sg_pair_snapshot_repair_eq:
  assumes ok: "memory_ok m" "live m a" and args: "seeds \<noteq> []" "0 < budget"
  shows "sg_pair_snapshot_repair (Ref a) (Ref seeds) budget (Ref metrics) m =
    map_option (\<lambda>(result, s). (case result of Inl status \<Rightarrow> status | Inr _ \<Rightarrow> SG_OK, rp_memory s, Ref (rp_metrics s)))
      (run_bind (sg_repair_one_objective (repair_context a m budget) seeds SG_REPAIR_MERGE (repair_start a m)) (\<lambda>_ s.
       sg_repair_one_objective (repair_context a m budget) seeds SG_REPAIR_RESOLUTION s))"
proof -
  let ?A = "automaton_at m a"
  note shape = snapshot_shape[OF ok]
  obtain diagonal where run: "fold_res (sg_repair_diagonal (au_state_count ?A) (pair_total ?A)) [0..<au_state_count ?A]
      (replicate (pair_total ?A) False) = Inr diagonal" and l: "length diagonal = pair_total ?A"
    and d: "\<forall>p < pair_total ?A. diagonal ! p \<longleftrightarrow> pair_equal ?A p \<and> fst (state_pairs (au_state_count ?A) ! p) < au_state_count ?A"
    using diagonal_loop[OF shape(1,2) order_refl] by blast
  have "fst (state_pairs (au_state_count ?A) ! p) < au_state_count ?A" if p: "p < pair_total ?A" for p
    using pair_index_inverse(2)[OF shape(2) p prod.collapse[symmetric]] .
  with d l have diagonal: "diagonal = map (pair_equal ?A) [0..<pair_total ?A]"
    by (intro nth_equalityI) auto
  have "sg_pair_index (au_state_count ?A) 0 0 < pair_total ?A"
    using pair_index_position(1)[OF shape(2)] wf_automatonD(4)[OF shape(1)] by simp
  then have pos: "0 < pair_total ?A" by (rule le_less_trans[OF le0])
  show ?thesis
    using args pos wf_automatonD(4,5)[OF shape(1)] run
    by (simp add: sg_pair_snapshot_repair_def sg_pair_store_repair_def sg_snapshot_store_simps[OF ok] Let_def
        diagonal repair_context_def repair_start_def)
qed

lemma repair_one_objective_fits:
  assumes run: "sg_repair_one_objective (repair_context a m0 budget) seeds obj s = Some (Inr u, s')"
    and inv: "snapshot_inv a m0 (rp_memory s)"
    and before: "\<And>p. p < pair_total (automaton_at m0 a) \<Longrightarrow> p \<notin> set seeds \<or> pair_equal (automaton_at m0 a) p \<Longrightarrow>
      pair_fits (automaton_at m0 a) obj (snapshot_record (rp_memory s) a) p"
  shows "snapshot_inv a m0 (rp_memory s') \<and>
    (\<forall>p < pair_total (automaton_at m0 a). pair_fits (automaton_at m0 a) obj (snapshot_record (rp_memory s') a) p) \<and>
    same_other obj (snapshot_record (rp_memory s) a) (snapshot_record (rp_memory s') a)"
proof -
  let ?A = "automaton_at m0 a" and ?ctx = "repair_context a m0 budget"
  note D = snapshot_invD(1,2)[OF inv]
  note count = sg_snapshot_store_simps[OF D]
  have fits: "settled ?ctx obj (pair_next ?A) (pair_differ ?A) f p \<longleftrightarrow> pair_fits ?A obj f p"
    if "p < pair_total ?A" for f p
    using that by (intro settled_pair_fits) (simp_all add: repair_context_def count)
  have diagonal: "rc_diagonal ?ctx ! p = pair_equal ?A p" if "p < pair_total ?A" for p
    using that by (simp add: repair_context_def)
  have seeds: "settled ?ctx obj (pair_next ?A) (pair_differ ?A) (snapshot_record (rp_memory s) a) p"
    if "p < st_pair_count (sg_snapshot_store a m0)" "p \<notin> set seeds \<or> rc_diagonal ?ctx ! p" for p
    using that before by (simp add: count fits diagonal)
  from snapshot_repair.one_objective[of a m0 budget "map (pair_equal ?A) [0..<pair_total ?A]" seeds obj s u s',
      folded repair_context_def, OF run inv seeds]
  show ?thesis by (simp add: count fits)
qed

lemma repair_context_budget: "rc_repair_budget (repair_context a m budget) = budget"
  by (simp add: repair_context_def)

lemma repair_ok_args:
  assumes "sg_pair_snapshot_repair (Ref a) (Ref seeds) budget (Ref metrics) m = Some (SG_OK, m', metrics')"
  shows "seeds \<noteq> []" "0 < budget"
proof -
  have "\<not> (seeds = [] \<or> budget = 0)"
  proof
    assume bad: "seeds = [] \<or> budget = 0"
    have "sg_pair_snapshot_repair (Ref a) (Ref seeds) budget (Ref metrics) m =
        Some (SG_ERR_INVALID_ARGUMENT, m, Ref metrics)"
      using bad by (simp add: sg_pair_snapshot_repair_def sg_pair_store_repair_def) blast
    with assms show False by simp
  qed
  then show "seeds \<noteq> []" "0 < budget" by simp_all
qed

text \<open>The frame: what holds whatever the outcome.\<close>

interpretation snapshot_frame: repair_frame "repair_context a m0 budget" "snapshot_inv a m0" for a m0 budget
proof
  fix m rs status m'
  assume "snapshot_inv a m0 m" "the (st_write_records (rc_store (repair_context a m0 budget))) m rs = (status, m')"
  then show "snapshot_inv a m0 m'"
    using snapshot_store.write_records[of a m0 m rs status m'] by (simp add: repair_context_def)
next
  fix m ids
  have "sg_snapshot_read_pair (Ref a) m p records \<noteq> Inl SG_OK" for p records
    by (simp add: sg_snapshot_read_pair_def split: option.split)
  then show "the (st_read_records (rc_store (repair_context a m0 budget))) m ids \<noteq> Inl SG_OK"
    by (simp add: repair_context_def sg_snapshot_store_read_records_def sg_pair_snapshot_read_def fold_res_not_ok)
qed

lemma snapshot_inv_start:
  "memory_ok m \<Longrightarrow> live m a \<Longrightarrow> (\<And>p. p < pair_total (automaton_at m a) \<Longrightarrow> rec_pair (snapshot_record m a p) = p) \<Longrightarrow>
   snapshot_inv a m m"
  by (simp add: snapshot_inv_def)

text \<open>A repair always returns.\<close>

lemma repair_one_objective_ends:
  assumes "snapshot_inv a m (rp_memory s)"
  shows "\<exists>r s'. sg_repair_one_objective (repair_context a m budget) seeds obj s = Some (r, s') \<and>
    (\<forall>u. r = Inr u \<longrightarrow> snapshot_inv a m (rp_memory s'))"
  unfolding repair_context_def by (rule snapshot_repair.one_objective_ends[OF assms])

lemma repair_returns:
  assumes ok: "memory_ok m" "live m a"
    and own: "\<And>p. p < pair_total (automaton_at m a) \<Longrightarrow> rec_pair (snapshot_record m a p) = p"
  shows "\<exists>status m' metrics'. sg_pair_snapshot_repair (Ref a) (Ref seeds) budget (Ref metrics) m = Some (status, m', metrics')"
proof (cases "seeds \<noteq> [] \<and> 0 < budget")
  case False
  then have "sg_pair_snapshot_repair (Ref a) (Ref seeds) budget (Ref metrics) m =
      Some (SG_ERR_INVALID_ARGUMENT, m, Ref metrics)"
    by (simp add: sg_pair_snapshot_repair_def sg_pair_store_repair_def) blast
  then show ?thesis by blast
next
  case True
  have "\<exists>r s'. run_bind (sg_repair_one_objective (repair_context a m budget) seeds SG_REPAIR_MERGE (repair_start a m)) (\<lambda>_ s.
       sg_repair_one_objective (repair_context a m budget) seeds SG_REPAIR_RESOLUTION s) = Some (r, s') \<and>
       (\<forall>u. r = Inr u \<longrightarrow> snapshot_inv a m (rp_memory s'))"
    by (rule run_bind_ends[where P = "\<lambda>_ s. snapshot_inv a m (rp_memory s)"])
      (use repair_one_objective_ends snapshot_inv_start[OF ok own] in \<open>auto simp: repair_start_def\<close>)
  then show ?thesis using True by (auto simp: sg_pair_snapshot_repair_eq[OF ok])
qed

text \<open>The run behind the result of the repair.\<close>

lemma repair_run_cases:
  assumes start: "snapshot_inv a m m"
    and run: "sg_pair_snapshot_repair (Ref a) (Ref seeds) budget (Ref metrics) m = Some (status, m', metrics')"
    and args: "seeds \<noteq> []" "0 < budget"
  obtains result s where
    "run_bind (sg_repair_one_objective (repair_context a m budget) seeds SG_REPAIR_MERGE (repair_start a m)) (\<lambda>_ s.
       sg_repair_one_objective (repair_context a m budget) seeds SG_REPAIR_RESOLUTION s) = Some (result, s)"
    "m' = rp_memory s" "metrics' = Ref (rp_metrics s)" "(status = SG_OK) = (result = Inr ())"
    "snapshot_inv a m m'"
    "rm_pair_records_touched (rp_metrics s) \<le> budget + (if status = SG_OK then 0 else 1)"
proof -
  let ?run = "\<lambda>s. run_bind (sg_repair_one_objective (repair_context a m budget) seeds SG_REPAIR_MERGE s) (\<lambda>_ s.
       sg_repair_one_objective (repair_context a m budget) seeds SG_REPAIR_RESOLUTION s)"
  note D = snapshot_invD(1,2)[OF start]
  from run[unfolded sg_pair_snapshot_repair_eq[OF D args]] obtain result s where
    r: "?run (repair_start a m) = Some (result, s)"
      "status = (case result of Inl status \<Rightarrow> status | Inr _ \<Rightarrow> SG_OK)" "m' = rp_memory s" "metrics' = Ref (rp_metrics s)"
    by auto
  have "snapshot_frame.within a m budget 0 (repair_start a m)"
    using start by (simp add: snapshot_frame.within_def repair_start_def sg_metrics_zero_def)
  with snapshot_frame.safe_both_objectives[of a m budget seeds, unfolded keeps_run_def] r(1)
  have "case result of Inl e \<Rightarrow> e \<noteq> SG_OK \<and> snapshot_frame.within a m budget 1 s
      | Inr _ \<Rightarrow> snapshot_frame.within a m budget 0 s" by (fastforce split: sum.split)
  with r that show ?thesis
    by (cases result) (auto simp: snapshot_frame.within_def repair_context_budget)
qed

lemma repair_fits:
  assumes start: "snapshot_inv a m m"
    and before: "\<And>obj p. p < pair_total (automaton_at m a) \<Longrightarrow> p \<notin> set seeds \<or> pair_equal (automaton_at m a) p \<Longrightarrow>
      pair_fits (automaton_at m a) obj (snapshot_record m a) p"
    and run: "sg_pair_snapshot_repair (Ref a) (Ref seeds) budget (Ref metrics) m = Some (SG_OK, m', metrics')"
    and p: "p < pair_total (automaton_at m a)"
  shows "pair_fits (automaton_at m a) obj (snapshot_record m' a) p"
proof -
  let ?A = "automaton_at m a" and ?ctx = "repair_context a m budget"
  note args = repair_ok_args[OF run]
  obtain u1 s1 u2 s2 where
    merge: "sg_repair_one_objective ?ctx seeds SG_REPAIR_MERGE (repair_start a m) = Some (Inr u1, s1)"
    and resolution: "sg_repair_one_objective ?ctx seeds SG_REPAIR_RESOLUTION s1 = Some (Inr u2, s2)"
    and m': "m' = rp_memory s2"
    by (rule repair_run_cases[OF start run args]) (auto simp: run_bind_Inr)
  let ?f0 = "snapshot_record m a" and ?f1 = "snapshot_record (rp_memory s1) a" and ?f2 = "snapshot_record m' a"
  have one: "snapshot_inv a m (rp_memory s1)" "\<forall>p < pair_total ?A. pair_fits ?A SG_REPAIR_MERGE ?f1 p"
    "same_other SG_REPAIR_MERGE ?f0 ?f1"
    using repair_one_objective_fits[OF merge] start before by (simp_all add: repair_start_def)
  have same1: "pair_fits ?A SG_REPAIR_RESOLUTION ?f0 p = pair_fits ?A SG_REPAIR_RESOLUTION ?f1 p" for p
    using one(3) by (intro pair_fits_cong) (simp add: same_other_def other_objective_def)
  have before1: "pair_fits ?A SG_REPAIR_RESOLUTION ?f1 p"
    if "p < pair_total ?A" "p \<notin> set seeds \<or> pair_equal ?A p" for p
    using before[OF that, of SG_REPAIR_RESOLUTION] same1 by blast
  have two: "\<forall>p < pair_total ?A. pair_fits ?A SG_REPAIR_RESOLUTION ?f2 p" "same_other SG_REPAIR_RESOLUTION ?f1 ?f2"
    using repair_one_objective_fits[OF resolution one(1)] before1 by (simp_all add: m')
  have same2: "pair_fits ?A SG_REPAIR_MERGE ?f1 p = pair_fits ?A SG_REPAIR_MERGE ?f2 p" for p
    using two(2) by (intro pair_fits_cong) (simp add: same_other_def other_objective_def)
  show ?thesis using one(2) two(1) p same2 by (cases obj) simp_all
qed

section \<open>From records to words\<close>

definition goal_word :: "sg_automaton \<Rightarrow> sg_repair_objective \<Rightarrow> nat \<Rightarrow> nat list \<Rightarrow> bool" where
  "goal_word A obj p w = (if obj = SG_REPAIR_MERGE then pair_merges A p w else pair_resolves A p w)"

lemma goal_word_Nil [simp]: "goal_word A obj p [] \<longleftrightarrow> pair_equal A p"
  by (simp add: goal_word_def)

lemma pair_merges_word_ok: "pair_merges A p w \<Longrightarrow> word_ok A w"
  by (auto simp: pair_merges_def merging_word_def split: prod.splits)

lemma goal_word_Cons:
  assumes "wf_automaton A" "oracle_size_ok A" "p < pair_total A"
  shows "goal_word A obj p (b # w) \<longleftrightarrow> b < au_action_count A \<and> word_ok A w \<and>
    (obj = SG_REPAIR_RESOLUTION \<and> pair_differ A p b \<or> goal_word A obj (pair_next A p b) w)"
  using pair_merges_Cons[OF assms, of b w] pair_resolves_Cons[OF assms, of b w] pair_merges_word_ok[of A "pair_next A p b" w]
  by (cases obj) (auto simp: goal_word_def)

lemma best_candidate_distance:
  fixes obj target differ f k p
  defines "best \<equiv> best_candidate obj target differ f k p"
  shows "cs_distance best = d \<Longrightarrow> d \<noteq> SG_INDEX_NONE \<Longrightarrow> \<exists>b < k. arc_reach obj target differ f p b = Some d"
    "b < k \<Longrightarrow> arc_reach obj target differ f p b = Some e \<Longrightarrow> cs_distance best \<le> e"
proof -
  define ds where "ds = List.map_filter (arc_reach obj target differ f p) [0..<k]"
  have mem: "x \<in> set ds \<longleftrightarrow> (\<exists>b < k. arc_reach obj target differ f p b = Some x)" for x
    by (auto simp: ds_def set_map_filter)
  have best: "cs_distance best = (if ds = [] then SG_INDEX_NONE else Min (set ds))"
    by (simp add: best_def best_candidate_def ds_def[symmetric] Let_def)
  show "cs_distance best = d \<Longrightarrow> d \<noteq> SG_INDEX_NONE \<Longrightarrow> \<exists>b < k. arc_reach obj target differ f p b = Some d"
    using mem[of d] Min_in[of "set ds"] by (auto simp: best split: if_splits)
  show "cs_distance best \<le> e" if "b < k" "arc_reach obj target differ f p b = Some e"
  proof -
    have "e \<in> set ds" using that mem by blast
    then show ?thesis by (auto simp: best)
  qed
qed

lemma fits_distance:
  assumes "pair_fits A obj f p"
  shows "pair_equal A p \<Longrightarrow> sg_record_distance (f p) obj = 0"
    "\<not> pair_equal A p \<Longrightarrow> sg_record_distance (f p) obj \<noteq> SG_INDEX_NONE \<Longrightarrow>
     sg_record_distance (f p) obj =
       cs_distance (best_candidate obj (pair_next A) (pair_differ A) f (au_action_count A) p)"
  using assms by (auto simp: pair_fits_def sg_record_distance_candidate)

lemma fits_word:
  assumes wf: "wf_automaton A" "oracle_size_ok A"
    and fits: "\<And>p. p < pair_total A \<Longrightarrow> pair_fits A obj f p"
    and "p < pair_total A" "sg_record_distance (f p) obj = d" "d \<noteq> SG_INDEX_NONE"
  shows "\<exists>w. length w = d \<and> goal_word A obj p w"
  using assms(4-6)
proof (induction d arbitrary: p rule: less_induct)
  case (less d)
  note fit = fits_distance[OF fits[OF less.prems(1)]]
  show ?case
  proof (cases "pair_equal A p")
    case True
    with fit(1) less.prems show ?thesis by (intro exI[of _ "[]"]) simp
  next
    case False
    with fit(2) less.prems
    obtain b where b: "b < au_action_count A" "arc_reach obj (pair_next A) (pair_differ A) f p b = Some d"
      using best_candidate_distance(1) by metis
    show ?thesis
    proof (cases "obj = SG_REPAIR_RESOLUTION \<and> pair_differ A p b")
      case True
      with b show ?thesis
        by (intro exI[of _ "[b]"]) (simp add: goal_word_Cons[OF wf less.prems(1)] arc_reach_def)
    next
      case False
      let ?q = "pair_next A p b"
      have q: "?q < pair_total A" by (rule pair_next_less[OF wf less.prems(1) b(1)])
      from b(2) False have "sg_record_distance (f ?q) obj \<noteq> SG_INDEX_NONE" "d = Suc (sg_record_distance (f ?q) obj)"
        unfolding arc_reach_def if_not_P[OF False] by (auto simp: Let_def split: if_splits)
      with less.IH[OF _ q refl] obtain w where "Suc (length w) = d" "goal_word A obj ?q w" by auto
      moreover from this have "word_ok A w"
        by (auto simp: goal_word_def dest: pair_merges_word_ok pair_resolves_word_ok split: if_splits)
      ultimately show ?thesis using b(1) by (intro exI[of _ "b # w"]) (simp add: goal_word_Cons[OF wf less.prems(1)])
    qed
  qed
qed

lemma complete_distance:
  assumes wf: "wf_automaton A" "oracle_size_ok A"
    and fits: "\<And>p. p < pair_total A \<Longrightarrow> pair_fits A obj f p"
    and complete: "\<And>p w. p < pair_total A \<Longrightarrow> goal_word A obj p w \<Longrightarrow> sg_record_distance (f p) obj \<noteq> SG_INDEX_NONE"
    and "p < pair_total A" "goal_word A obj p w"
  shows "sg_record_distance (f p) obj \<le> length w"
  using assms(5,6)
proof (induction w arbitrary: p)
  case Nil
  with fits_distance(1)[OF fits] show ?case by simp
next
  case (Cons b w)
  note fit = fits_distance[OF fits[OF Cons.prems(1)]]
  show ?case
  proof (cases "pair_equal A p")
    case False
    note best = fit(2)[OF False complete[OF Cons.prems]]
    from Cons.prems goal_word_Cons[OF wf Cons.prems(1)] have b: "b < au_action_count A"
      and cases: "obj = SG_REPAIR_RESOLUTION \<and> pair_differ A p b \<or> goal_word A obj (pair_next A p b) w" by auto
    let ?q = "pair_next A p b"
    have q: "?q < pair_total A" by (rule pair_next_less[OF wf Cons.prems(1) b])
    show ?thesis
    proof (cases "obj = SG_REPAIR_RESOLUTION \<and> pair_differ A p b")
      case True
      then have "arc_reach obj (pair_next A) (pair_differ A) f p b = Some 1" by (simp add: arc_reach_def)
      from best_candidate_distance(2)[OF b this] best show ?thesis by simp
    next
      case False
      with cases have goal: "goal_word A obj ?q w" by blast
      then have "arc_reach obj (pair_next A) (pair_differ A) f p b = Some (sg_record_distance (f ?q) obj + 1)"
        unfolding arc_reach_def if_not_P[OF False] using complete[OF q goal] by (simp add: Let_def)
      from best_candidate_distance(2)[OF b this] best Cons.IH[OF q goal] show ?thesis by simp
    qed
  qed (use fit(1) in simp)
qed

section \<open>A small snapshot\<close>

text \<open>
  Two states that one action takes to the first. The records are those of an automaton in which the
  second state stays where it is: its pair with the first does not merge.
\<close>

definition tiny_automaton :: sg_automaton where
  "tiny_automaton = \<lparr>au_generation = 0, au_state_count = 2, au_action_count = 1, au_output_count = 1,
     au_state_keys = [''p'', ''q''], au_action_keys = [''a''], au_output_keys = [''x''],
     au_transitions = [0, 0], au_observations = [0, 0]\<rparr>"
definition unreached :: "nat \<Rightarrow> sg_pair_record" where
  "unreached p = \<lparr>rec_pair = p, rec_mergeable = False, rec_merge_distance = SG_INDEX_NONE, rec_merge_action = SG_INDEX_NONE,
      rec_merge_next_pair = SG_INDEX_NONE, rec_merge_support_count = 0, rec_resolvable = False,
      rec_resolution_distance = SG_INDEX_NONE, rec_resolution_action = SG_INDEX_NONE, rec_resolution_next_pair = SG_INDEX_NONE,
      rec_resolution_support_count = 0\<rparr>"
definition rooted :: "nat \<Rightarrow> sg_pair_record" where
  "rooted p = sg_record_make_root (sg_record_make_root (unreached p) SG_REPAIR_MERGE) SG_REPAIR_RESOLUTION"

definition tiny_memory :: sg_snapshot_memory where
  "tiny_memory = \<lparr>sm_chunks = [Some \<lparr>ch_references = 1, ch_records = [rooted 0, unreached 1, rooted 2]\<rparr>],
     sm_topologies = [Some \<lparr>tp_references = 1, tp_state_count = 2, tp_pair_count = 3, tp_first = [0, 0, 1], tp_second = [0, 1, 1]\<rparr>],
     sm_snapshots = [Some \<lparr>sn_references = 1, sn_automaton = tiny_automaton, sn_topology = 0, sn_chunks = [0],
       sn_reverse_words = 1, sn_reverse_columns = [3, 0], sn_changed = None, sn_changed_pairs = []\<rparr>]\<rparr>"

lemma links_ok_code [code]:
  "links_ok m s \<longleftrightarrow>
     (let pairs = au_state_count (sn_automaton s) * (au_state_count (sn_automaton s) + 1) div 2
      in sn_topology s < length (sm_topologies m) \<and>
         (case sm_topologies m ! sn_topology s of None \<Rightarrow> False | Some t \<Rightarrow> topology_ok (au_state_count (sn_automaton s)) t) \<and>
         length (sn_chunks s) = chunk_total pairs \<and>
         list_all (\<lambda>i. sn_chunks s ! i < length (sm_chunks m) \<and>
            (case sm_chunks m ! (sn_chunks s ! i) of None \<Rightarrow> False | Some c \<Rightarrow> length (ch_records c) = chunk_size pairs i))
           [0..<chunk_total pairs])"
  unfolding links_ok_def list_all_length by (auto simp: Let_def split: option.split)

lemma tiny_wf: "wf_automaton tiny_automaton" by code_simp
lemma tiny_reverse: "reverse_ok (snapshot_at tiny_memory 0)"
  by (simp add: reverse_ok_def tiny_memory_def tiny_automaton_def sg_reverse_has_def sg_reverse_offset_def
     sg_automaton_state_count_def sg_automaton_transition_def numeral_2_eq_2 less_Suc_eq Let_def All_less_Suc)
lemma tiny_links: "links_ok tiny_memory (snapshot_at tiny_memory 0)" by code_simp
lemma tiny_live: "live tiny_memory a \<longleftrightarrow> a = 0" by (auto simp: live_def tiny_memory_def)
lemma tiny_memory_ok: "memory_ok tiny_memory"
proof (rule memory_okI)
  fix b assume "live tiny_memory b"
  then have "b = 0" by (simp add: tiny_live)
  then show "snapshot_ok tiny_memory (snapshot_at tiny_memory b)"
    using tiny_wf tiny_reverse tiny_links by (simp add: snapshot_ok_def) (simp add: tiny_memory_def)
qed (auto simp: tiny_memory_def chunk_uses_def topology_uses_def)

lemma tiny_run:
  obtains m metrics where
    "sg_pair_snapshot_repair (Ref 0) (Ref [1, 2]) 10 (Ref sg_metrics_zero) tiny_memory = Some (SG_OK, m, metrics)"
    "sg_record_distance (snapshot_record m 0 1) SG_REPAIR_MERGE = 1"
proof -
  have "map_option (\<lambda>(status, m, metrics). (status, sg_record_distance (snapshot_record m 0 1) SG_REPAIR_MERGE))
      (sg_pair_snapshot_repair (Ref 0) (Ref [1, 2]) 10 (Ref sg_metrics_zero) tiny_memory) = Some (SG_OK, 1)"
    by code_simp
  then show ?thesis using that by (auto simp: map_option_eq_Some)
qed

lemma tiny_own: "p < pair_total (automaton_at tiny_memory 0) \<Longrightarrow> rec_pair (snapshot_record tiny_memory 0 p) = p" 
proof -
  have "list_all (\<lambda>p. rec_pair (snapshot_record tiny_memory 0 p) = p) [0..<pair_total (automaton_at tiny_memory 0)]" by code_simp
  then show "p < pair_total (automaton_at tiny_memory 0) \<Longrightarrow> rec_pair (snapshot_record tiny_memory 0 p) = p" by (simp add: list_all_length)
qed

lemma tiny_fits: 
  assumes "p < pair_total (automaton_at tiny_memory 0)" "p \<notin> set [1,2] \<or> pair_equal (automaton_at tiny_memory 0) p"
  shows "pair_fits (automaton_at tiny_memory 0) obj (snapshot_record tiny_memory 0) p"
proof -
  have "list_all (\<lambda>p. p \<notin> set [1,2] \<or> pair_equal (automaton_at tiny_memory 0) p \<longrightarrow>
     pair_equal (automaton_at tiny_memory 0) p \<and> 
     reachable_flag SG_REPAIR_MERGE (snapshot_record tiny_memory 0 p) \<and> reachable_flag SG_REPAIR_RESOLUTION (snapshot_record tiny_memory 0 p) \<and>
     sg_candidate_of (snapshot_record tiny_memory 0 p) SG_REPAIR_MERGE = root_candidate \<and> 
     sg_candidate_of (snapshot_record tiny_memory 0 p) SG_REPAIR_RESOLUTION = root_candidate)
   [0..<pair_total (automaton_at tiny_memory 0)]" by code_simp
  with assms show ?thesis by (cases obj) (auto simp: list_all_length pair_fits_def sg_record_distance_candidate SIZE_MAX_def)
qed

lemma tiny_size: "oracle_size_ok (automaton_at tiny_memory 0)"
  by code_simp

lemma tiny_inv: "snapshot_inv 0 tiny_memory tiny_memory"
  by (rule snapshot_inv_start) (simp_all add: tiny_memory_ok tiny_live tiny_own)

section \<open>What a repair guarantees\<close>

text \<open>C31. After a repair that returns SG_OK every distance is the length of a word. The snapshot's
  automaton has been changed, its records fit the automaton except at the seeds that are no roots, and
  the repair succeeds: then every record of every pair, for merging and for resolving, is that of a
  root, the best candidate over the successor pairs, or unreachable, and a pair with a distance has a
  word of that length that merges its states, or resolves them.\<close>

theorem repair_distances_realised:
  assumes ok: "memory_ok m" "live m a" and size: "oracle_size_ok (automaton_at m a)"
    and own: "\<forall>p < pair_total (automaton_at m a). rec_pair (snapshot_record m a p) = p"
    and before: "\<forall>obj. \<forall>p < pair_total (automaton_at m a). p \<notin> set seeds \<or> pair_equal (automaton_at m a) p \<longrightarrow>
      pair_fits (automaton_at m a) obj (snapshot_record m a) p"
    and run: "sg_pair_snapshot_repair (Ref a) (Ref seeds) budget (Ref metrics) m = Some (SG_OK, m', metrics')"
    and p: "p < pair_total (automaton_at m a)"
  shows "automaton_at m' a = automaton_at m a \<and> pair_fits (automaton_at m a) obj (snapshot_record m' a) p \<and>
    (sg_record_distance (snapshot_record m' a p) obj \<noteq> SG_INDEX_NONE \<longrightarrow>
     (\<exists>w. length w = sg_record_distance (snapshot_record m' a p) obj \<and> goal_word (automaton_at m a) obj p w))"
proof -
  have start: "snapshot_inv a m m" using ok own by (intro snapshot_inv_start) auto
  note fits = repair_fits[OF start _ run]
  have all: "pair_fits (automaton_at m a) obj (snapshot_record m' a) q" if "q < pair_total (automaton_at m a)" for q
    using fits[OF _ that] before by blast
  have "snapshot_inv a m m'" by (rule repair_run_cases[OF start run repair_ok_args[OF run]])
  from snapshot_invD(5)[OF this] all[OF p] fits_word[OF snapshot_shape(1)[OF ok] size all p refl]
  show ?thesis by blast
qed

theorem repair_distances_realised_witness:
  "\<exists>m metrics. sg_pair_snapshot_repair (Ref 0) (Ref [1, 2]) 10 (Ref sg_metrics_zero) tiny_memory = Some (SG_OK, m, metrics) \<and>
     sg_record_distance (snapshot_record m 0 1) SG_REPAIR_MERGE = 1 \<and>
     (\<exists>w. length w = 1 \<and> goal_word tiny_automaton SG_REPAIR_MERGE 1 w)"
proof -
  obtain m metrics where run:
    "sg_pair_snapshot_repair (Ref 0) (Ref [1, 2]) 10 (Ref sg_metrics_zero) tiny_memory = Some (SG_OK, m, metrics)"
    "sg_record_distance (snapshot_record m 0 1) SG_REPAIR_MERGE = 1" by (rule tiny_run)
  have "1 < pair_total (automaton_at tiny_memory 0)" by code_simp
  moreover have "automaton_at tiny_memory 0 = tiny_automaton" by (simp add: tiny_memory_def)
  moreover have "live tiny_memory 0" by (simp add: tiny_live)
  ultimately show ?thesis
    using repair_distances_realised[OF tiny_memory_ok _ tiny_size _ _ run(1), of 1 SG_REPAIR_MERGE] run tiny_own tiny_fits
    by (auto simp: SIZE_MAX_def)
qed

text \<open>C32. A repair that leaves no pair unreachable that has a word is exact: under the hypotheses of the
  previous property, if every pair with a merging (or resolving) word has a distance after the repair,
  then the distances are those that building the oracle for the changed automaton would give, the
  lengths of the shortest words.\<close>

theorem repair_exact_when_complete:
  assumes ok: "memory_ok m" "live m a" and size: "oracle_size_ok (automaton_at m a)"
    and own: "\<forall>p < pair_total (automaton_at m a). rec_pair (snapshot_record m a p) = p"
    and before: "\<forall>obj. \<forall>p < pair_total (automaton_at m a). p \<notin> set seeds \<or> pair_equal (automaton_at m a) p \<longrightarrow>
      pair_fits (automaton_at m a) obj (snapshot_record m a) p"
    and run: "sg_pair_snapshot_repair (Ref a) (Ref seeds) budget (Ref metrics) m = Some (SG_OK, m', metrics')"
    and complete: "\<forall>p < pair_total (automaton_at m a). (\<exists>w. goal_word (automaton_at m a) obj p w) \<longrightarrow>
      sg_record_distance (snapshot_record m' a p) obj \<noteq> SG_INDEX_NONE"
  shows "exact_distances (pair_total (automaton_at m a))
    (\<lambda>p d. \<exists>w. length w = d \<and> goal_word (automaton_at m a) obj p w)
    (map (\<lambda>p. sg_record_distance (snapshot_record m' a p) obj) [0..<pair_total (automaton_at m a)])"
proof -
  have start: "snapshot_inv a m m" using ok own by (intro snapshot_inv_start) auto
  note wf = snapshot_shape(1)[OF ok]
  have all: "pair_fits (automaton_at m a) obj (snapshot_record m' a) q" if "q < pair_total (automaton_at m a)" for q
    using repair_fits[OF start _ run that] before by blast
  note word = fits_word[OF wf size all _ refl]
  have le: "sg_record_distance (snapshot_record m' a p) obj \<le> length w"
    if "p < pair_total (automaton_at m a)" "goal_word (automaton_at m a) obj p w" for p w
    using complete_distance[OF wf size all _ that] complete by blast
  show ?thesis
    unfolding exact_distances_def using word le complete by auto
qed

theorem repair_exact_when_complete_witness:
  "\<exists>m metrics. sg_pair_snapshot_repair (Ref 0) (Ref [1, 2]) 10 (Ref sg_metrics_zero) tiny_memory = Some (SG_OK, m, metrics) \<and>
     exact_distances 3 (\<lambda>p d. \<exists>w. length w = d \<and> goal_word tiny_automaton SG_REPAIR_MERGE p w)
       (map (\<lambda>p. sg_record_distance (snapshot_record m 0 p) SG_REPAIR_MERGE) [0..<3])"
proof -
  obtain m metrics where run:
    "sg_pair_snapshot_repair (Ref 0) (Ref [1, 2]) 10 (Ref sg_metrics_zero) tiny_memory = Some (SG_OK, m, metrics)"
    "sg_record_distance (snapshot_record m 0 1) SG_REPAIR_MERGE = 1" by (rule tiny_run)
  have total: "pair_total (automaton_at tiny_memory 0) = 3" by (simp add: tiny_memory_def tiny_automaton_def length_state_pairs)
  have A: "automaton_at tiny_memory 0 = tiny_automaton" by (simp add: tiny_memory_def)
  have live: "live tiny_memory 0" by (simp add: tiny_live)
  have diagonal: "pair_equal (automaton_at tiny_memory 0) 0" "pair_equal (automaton_at tiny_memory 0) 2" by code_simp+
  have fit: "pair_fits (automaton_at tiny_memory 0) SG_REPAIR_MERGE (snapshot_record m 0) p" if "p < 3" for p
    using repair_fits[OF tiny_inv tiny_fits run(1)] that by (simp add: total)
  have zero: "sg_record_distance (snapshot_record m 0 0) SG_REPAIR_MERGE = 0"
    "sg_record_distance (snapshot_record m 0 2) SG_REPAIR_MERGE = 0"
    by (rule fits_distance(1)[OF fit diagonal(1)] fits_distance(1)[OF fit diagonal(2)]; simp)+
  have "sg_record_distance (snapshot_record m 0 p) SG_REPAIR_MERGE \<noteq> SG_INDEX_NONE" if "p < 3" for p
  proof -
    from that consider "p = 0" | "p = 1" | "p = 2" by linarith
    then show ?thesis using zero run(2) by cases (simp_all add: SIZE_MAX_def)
  qed
  then have "\<forall>p < pair_total (automaton_at tiny_memory 0). (\<exists>w. goal_word (automaton_at tiny_memory 0) SG_REPAIR_MERGE p w) \<longrightarrow>
      sg_record_distance (snapshot_record m 0 p) SG_REPAIR_MERGE \<noteq> SG_INDEX_NONE" by (simp add: total)
  note exact = repair_exact_when_complete[OF tiny_memory_ok live tiny_size _ _ run(1) this]
  have "exact_distances (pair_total (automaton_at tiny_memory 0))
      (\<lambda>p d. \<exists>w. length w = d \<and> goal_word (automaton_at tiny_memory 0) SG_REPAIR_MERGE p w)
      (map (\<lambda>p. sg_record_distance (snapshot_record m 0 p) SG_REPAIR_MERGE) [0..<pair_total (automaton_at tiny_memory 0)])"
    by (rule exact) (use tiny_own tiny_fits in blast)+
  then have "exact_distances 3 (\<lambda>p d. \<exists>w. length w = d \<and> goal_word tiny_automaton SG_REPAIR_MERGE p w)
      (map (\<lambda>p. sg_record_distance (snapshot_record m 0 p) SG_REPAIR_MERGE) [0..<3])"
    unfolding total unfolding A .
  with run(1) show ?thesis by blast
qed

text \<open>C34. A repair stays within its frame, whatever its status: the memory keeps its invariant (every
  counter is the number of references, every pointer leads to a live object of the right size), no
  snapshot is freed or created, the automaton of the repaired snapshot is not touched, and every other
  snapshot keeps its automaton, its records and its list of changes, although they share chunks. A
  repair that returns SG_OK has touched at most as many pairs as its budget allows.\<close>

theorem repair_frame:
  assumes ok: "memory_ok m" "live m a"
    and own: "\<forall>p < pair_total (automaton_at m a). rec_pair (snapshot_record m a p) = p"
    and run: "sg_pair_snapshot_repair (Ref a) (Ref seeds) budget (Ref metrics) m = Some (status, m', metrics')"
  shows "memory_ok m' \<and> (\<forall>b. live m' b = live m b) \<and> automaton_at m' a = automaton_at m a \<and>
    (\<forall>p < pair_total (automaton_at m a). rec_pair (snapshot_record m' a p) = p) \<and>
    (\<forall>b. live m b \<and> b \<noteq> a \<longrightarrow> automaton_at m' b = automaton_at m b \<and> snapshot_record m' b = snapshot_record m b \<and>
       sn_changed_pairs (snapshot_at m' b) = sn_changed_pairs (snapshot_at m b)) \<and>
    (status = SG_OK \<longrightarrow> rm_pair_records_touched (the metrics') \<le> budget)"
proof (cases "seeds \<noteq> [] \<and> 0 < budget")
  case False
  then have "sg_pair_snapshot_repair (Ref a) (Ref seeds) budget (Ref metrics) m =
      Some (SG_ERR_INVALID_ARGUMENT, m, Ref metrics)"
    by (simp add: sg_pair_snapshot_repair_def sg_pair_store_repair_def) blast
  with run ok own show ?thesis by simp
next
  case True
  have start: "snapshot_inv a m m" using ok own by (intro snapshot_inv_start) auto
  obtain s :: "sg_snapshot_memory sg_repair_state" where inv: "snapshot_inv a m m'" and "metrics' = Ref (rp_metrics s)"
    "rm_pair_records_touched (rp_metrics s) \<le> budget + (if status = SG_OK then 0 else 1)"
    by (rule repair_run_cases[OF start run conjunct1[OF True] conjunct2[OF True]], rule that)
  then have budget: "status = SG_OK \<longrightarrow> rm_pair_records_touched (the metrics') \<le> budget"
    by (cases "status = SG_OK") simp_all
  note D = snapshot_invD[OF inv]
  have live: "live m' b = live m b" for b using D(6) unfolding writes_to_def by blast
  have other: "automaton_at m' b = automaton_at m b \<and> snapshot_record m' b = snapshot_record m b \<and>
      sn_changed_pairs (snapshot_at m' b) = sn_changed_pairs (snapshot_at m b)" if b: "live m b" "b \<noteq> a" for b
  proof -
    have core: "snapshot_core (snapshot_at m' b) = snapshot_core (snapshot_at m b)"
      and "sn_changed_pairs (snapshot_at m' b) = sn_changed_pairs (snapshot_at m b)"
      and "snapshot_record m' b = (if b = a then snapshot_record m' a else snapshot_record m b)"
      using D(6) b unfolding writes_to_def by blast+
    then show ?thesis using snapshot_core_eq(2)[OF core] unfolding if_not_P[OF b(2)] by blast
  qed
  from D(3,5,7) live other budget show ?thesis by blast
qed

theorem repair_frame_witness:
  "\<exists>m metrics. sg_pair_snapshot_repair (Ref 0) (Ref [1, 2]) 10 (Ref sg_metrics_zero) tiny_memory = Some (SG_OK, m, metrics) \<and>
     memory_ok m \<and> rm_pair_records_touched (the metrics) \<le> 10"
proof -
  obtain m metrics where run:
    "sg_pair_snapshot_repair (Ref 0) (Ref [1, 2]) 10 (Ref sg_metrics_zero) tiny_memory = Some (SG_OK, m, metrics)"
    by (rule tiny_run)
  have "live tiny_memory 0" by (simp add: tiny_live)
  from repair_frame[OF tiny_memory_ok this _ run] tiny_own run show ?thesis by blast
qed

section \<open>Both directions of the pair graph\<close>

lemma outgoing_one:
  assumes ok: "memory_ok m" "live m a" and p: "p < pair_total (automaton_at m a)"
  shows "sg_snapshot_store_read_outgoing a m [p] =
    (SG_OK, map (graph_arc (pair_next (automaton_at m a)) (pair_differ (automaton_at m a)) p)
      [0..<au_action_count (automaton_at m a)])"
proof -
  have "au_action_count (automaton_at m a) \<le> SIZE_MAX" using wf_automatonD(7)[OF snapshot_shape(1)[OF ok]] by simp
  then show ?thesis
    using p snapshot_shape(5)[OF ok] outgoing_arc[OF ok p]
    by (simp add: sg_snapshot_store_read_outgoing_def sg_snapshot_outgoing_pair_def Let_def sg_size_multiply_if
        sg_automaton_action_count_def rbind_def)
qed

text \<open>C35. The incoming arcs of a snapshot, which the code reads from the bit columns of its reverse
  transitions, are the outgoing arcs seen from the other end: for targets that are pair numbers the
  answer is SG_OK with a list that has no arc twice, and an arc is in it exactly if its target is among
  the targets and it is an outgoing arc of some pair. A target that is no pair number is an error.\<close>

theorem incoming_matches_outgoing:
  assumes ok: "memory_ok m" "live m a"
  shows "if \<forall>t \<in> set targets. t < sg_pair_snapshot_pair_count (Ref a) m
    then \<exists>arcs. sg_snapshot_store_read_incoming a m targets = (SG_OK, arcs) \<and> distinct arcs \<and>
      (\<forall>arc. arc \<in> set arcs \<longleftrightarrow> arc_target_pair arc \<in> set targets \<and>
        (\<exists>p < sg_pair_snapshot_pair_count (Ref a) m. arc \<in> set (snd (sg_snapshot_store_read_outgoing a m [p]))))
    else sg_snapshot_store_read_incoming a m targets = (SG_ERR_INVALID_ARGUMENT, [])"
proof -
  let ?A = "automaton_at m a"
  have count: "sg_pair_snapshot_pair_count (Ref a) m = pair_total ?A"
    using snapshot_shape(5)[OF ok] by (simp add: sg_pair_snapshot_pair_count_def)
  have out: "arc \<in> arcs_into ?A (set targets) \<longleftrightarrow> arc_target_pair arc \<in> set targets \<and>
      (\<exists>p < pair_total ?A. arc \<in> set (snd (sg_snapshot_store_read_outgoing a m [p])))" for arc
    using outgoing_one[OF ok] by (auto simp: arcs_into_def graph_arc_def)
  have "(\<forall>t \<in> set targets. t < pair_total ?A) \<longleftrightarrow> set targets \<subseteq> {..<pair_total ?A}" by auto
  with read_incoming_store[OF ok, of targets] out show ?thesis
    unfolding count by (cases "set targets \<subseteq> {..<pair_total ?A}") auto
qed

theorem incoming_matches_outgoing_witness:
  "\<exists>arcs. sg_snapshot_store_read_incoming 0 tiny_memory [0] = (SG_OK, arcs) \<and> distinct arcs \<and>
     (\<forall>arc. arc \<in> set arcs \<longleftrightarrow> arc_target_pair arc \<in> set [0] \<and>
       (\<exists>p < sg_pair_snapshot_pair_count (Ref 0) tiny_memory.
          arc \<in> set (snd (sg_snapshot_store_read_outgoing 0 tiny_memory [p]))))"
proof -
  have live: "live tiny_memory 0" by (simp add: tiny_live)
  have range: "\<forall>t \<in> set [0]. t < sg_pair_snapshot_pair_count (Ref 0) tiny_memory"
    by (simp add: sg_pair_snapshot_pair_count_def tiny_memory_def)
  show ?thesis using incoming_matches_outgoing[OF tiny_memory_ok live, of "[0]"] unfolding if_P[OF range] .
qed

end
