(* ===== verification/Sync_Snapshot_Steps.thy ===== *)
theory Sync_Snapshot_Steps
  imports Sync_Snapshot_Make Sync_Snapshot_Repair
begin

text \<open>
  Building a snapshot from an oracle, changing a cell, and the memory as a state machine: whatever
  sequence of operations runs, the memory keeps its invariant.
\<close>

section \<open>What others see\<close>

definition unseen :: "nat set \<Rightarrow> sg_snapshot_memory \<Rightarrow> sg_snapshot_memory \<Rightarrow> bool" where
  "unseen A m m' \<longleftrightarrow> (\<forall>b. b \<notin> A \<longrightarrow> live m' b = live m b \<and>
     (live m b \<longrightarrow> snapshot_core (snapshot_at m' b) = snapshot_core (snapshot_at m b) \<and>
        sn_changed (snapshot_at m' b) = sn_changed (snapshot_at m b) \<and>
        sn_changed_pairs (snapshot_at m' b) = sn_changed_pairs (snapshot_at m b) \<and>
        snapshot_record m' b = snapshot_record m b))"

lemma untouched_unseen: "untouched A m m' \<Longrightarrow> unseen A m m'"
  by (simp add: untouched_def unseen_def)

lemma writes_to_unseen:
  assumes "writes_to a f m m'"
  shows "unseen {a} m m'"
  unfolding unseen_def
proof (intro allI impI)
  fix b assume "b \<notin> {a}"
  then have ne: "b \<noteq> a" by simp
  have "live m' b = live m b" using assms unfolding writes_to_def by blast
  moreover have "snapshot_core (snapshot_at m' b) = snapshot_core (snapshot_at m b) \<and>
      sn_changed (snapshot_at m' b) = sn_changed (snapshot_at m b) \<and>
      sn_changed_pairs (snapshot_at m' b) = sn_changed_pairs (snapshot_at m b) \<and>
      snapshot_record m' b = snapshot_record m b" if "live m b"
  proof -
    have "snapshot_record m' b = (if b = a then f else snapshot_record m b)"
      using assms that unfolding writes_to_def by blast
    then have "snapshot_record m' b = snapshot_record m b" unfolding if_not_P[OF ne] .
    with assms that ne show ?thesis unfolding writes_to_def by blast
  qed
  ultimately show "live m' b = live m b \<and>
     (live m b \<longrightarrow> snapshot_core (snapshot_at m' b) = snapshot_core (snapshot_at m b) \<and>
        sn_changed (snapshot_at m' b) = sn_changed (snapshot_at m b) \<and>
        sn_changed_pairs (snapshot_at m' b) = sn_changed_pairs (snapshot_at m b) \<and>
        snapshot_record m' b = snapshot_record m b)" by blast
qed

lemma unseen_trans: "unseen A m m1 \<Longrightarrow> unseen A m1 m2 \<Longrightarrow> unseen A m m2"
  by (simp add: unseen_def)

lemma unseen_refl [simp]: "unseen A m m"
  by (simp add: unseen_def)

section \<open>Allocation\<close>

lemma allocate_chunks_ok:
  assumes "counted m (\<lambda>c. count_list addresses c) et"
    and "sg_snapshot_allocate_chunks pairs [j..<j + k] addresses m = (addresses', m')"
  shows "counted m' (\<lambda>c. count_list addresses' c) et \<and> sm_snapshots m' = sm_snapshots m \<and> sm_topologies m' = sm_topologies m \<and>
    addresses' = addresses @ [length (sm_chunks m)..<length (sm_chunks m) + k] \<and>
    sm_chunks m' = sm_chunks m @ map (\<lambda>i. Some \<lparr>ch_references = 1, ch_records = replicate (chunk_size pairs i) sg_pair_record_zero\<rparr>) [j..<j + k]"
  using assms
proof (induction k arbitrary: j m addresses)
  case (Suc k)
  have upt: "[j..<j + Suc k] = j # [Suc j..<Suc j + k]" by (simp add: upt_conv_Cons del: upt_Suc)
  obtain a m1 where create: "sg_record_chunk_create (chunk_size pairs j) m = (a, m1)" by fastforce
  have size: "(if pairs - j * SG_SNAPSHOT_RECORD_CHUNK < SG_SNAPSHOT_RECORD_CHUNK
      then pairs - j * SG_SNAPSHOT_RECORD_CHUNK else SG_SNAPSHOT_RECORD_CHUNK) = chunk_size pairs j"
    by (simp add: chunk_size_def)
  have rest: "sg_snapshot_allocate_chunks pairs [Suc j..<Suc j + k] (addresses @ [a]) m1 = (addresses', m')"
    using Suc.prems(2) unfolding upt by (simp add: Let_def size create del: upt_Suc)
  note c = counted_chunk_create[OF Suc.prems(1) create]
  have "count_list addresses a = 0" using counted_unused(3)[OF Suc.prems(1)] c by simp
  then have "counted m1 (\<lambda>c. count_list (addresses @ [a]) c) et"
    using c by (intro counted_cong[OF conjunct1[OF c]]) auto
  note ih = Suc.IH[OF this rest]
  have addresses: "addresses' = addresses @ [length (sm_chunks m)..<length (sm_chunks m) + Suc k]"
    using ih c by (simp add: upt_conv_Cons del: upt_Suc)
  have "sm_chunks m' = sm_chunks m @
      map (\<lambda>i. Some \<lparr>ch_references = 1, ch_records = replicate (chunk_size pairs i) sg_pair_record_zero\<rparr>) [j..<j + Suc k]"
    using ih c unfolding upt by simp
  moreover have "sm_snapshots m' = sm_snapshots m" "sm_topologies m' = sm_topologies m" using ih c by simp_all
  ultimately show ?case using conjunct1[OF ih] addresses by blast
qed simp

lemma chunk_total_eq: "pairs div SG_SNAPSHOT_RECORD_CHUNK + (if pairs mod SG_SNAPSHOT_RECORD_CHUNK \<noteq> 0 then 1 else 0) = chunk_total pairs"
  by (simp add: chunk_total_def)

lemma sg_snapshot_allocate_ok:
  assumes ok: "memory_ok m" and wf: "wf_automaton A" and run: "sg_snapshot_allocate A m = (r, m')"
  shows "memory_ok m' \<and> (case r of
      Inl e \<Rightarrow> e = SG_ERR_ALLOC \<and> untouched {} m m'
    | Inr b \<Rightarrow> untouched {b} m m' \<and> \<not> live m b \<and> live m' b \<and> sn_references (snapshot_at m' b) = 1 \<and>
        sn_automaton (snapshot_at m' b) = A \<and> sn_changed_pairs (snapshot_at m' b) = [] \<and> sn_changed (snapshot_at m' b) = None)"
proof -
  have gen: "A\<lparr>au_generation := au_generation A\<rparr> = A" by simp
  have clone: "sg_automaton_clone_generation (Ref A) (sg_automaton_generation (Ref A)) = Inr A"
    unfolding clone_generation_wf[OF wf] by (simp add: sg_automaton_generation_def)
  have n: "au_state_count A < SIZE_MAX" by (rule wf_automatonD(6)[OF wf])
  obtain t0 m1 where topology: "sg_pair_topology_create (sg_automaton_state_count (Ref A)) m = (t0, m1)" by fastforce
  show ?thesis
  proof (cases t0)
    case (Inl e)
    then have "m1 = m" "e = SG_ERR_ALLOC" using topology by (auto simp: sg_pair_topology_create_def Let_def split: option.splits)
    with run clone topology Inl have "r = Inl SG_ERR_ALLOC" "m' = m" by (simp_all add: sg_snapshot_allocate_def)
    with ok show ?thesis by (simp add: untouched_def)
  next
    case (Inr t)
    have create: "sg_pair_topology_create (au_state_count A) m = (Inr t, m1)"
      using topology Inr by (simp add: sg_automaton_state_count_def)
    note c1 = counted_topology_create[OF ok[folded counted_memory_ok] create n]
    then obtain tp where tp: "sm_topologies m1 = sm_topologies m @ [Some tp]" "topology_ok (au_state_count A) tp" by blast
    have at: "topology_at m1 t = tp" using c1 tp by simp
    define pairs where "pairs = au_state_count A * (au_state_count A + 1) div 2"
    have pairs: "tp_pair_count tp = pairs" using tp(2) by (simp add: topology_ok_def pairs_def)
    obtain chunks m2 where alloc: "sg_snapshot_allocate_chunks pairs [0..<chunk_total pairs] [] m1 = (chunks, m2)" by fastforce
    have "counted m1 (\<lambda>c. count_list [] c) ((\<lambda>_. 0)(t := 1))" using conjunct1[OF c1] by simp
    note c2 = allocate_chunks_ok[OF this, of pairs 0 "chunk_total pairs", unfolded add_0, OF alloc]
    have c2: "counted m2 (\<lambda>c. count_list chunks c) ((\<lambda>_. 0)(t := 1))" "sm_snapshots m2 = sm_snapshots m1" "sm_topologies m2 = sm_topologies m1"
      "chunks = [length (sm_chunks m1)..<length (sm_chunks m1) + chunk_total pairs]"
      "sm_chunks m2 = sm_chunks m1 @ map (\<lambda>i. Some \<lparr>ch_references = 1, ch_records = replicate (chunk_size pairs i) sg_pair_record_zero\<rparr>) [0..<chunk_total pairs]"
      using c2 by blast+
    have snaps: "sm_snapshots m2 = sm_snapshots m" using c1 c2 by simp
    have kept: "chunks_kept m m2" using c1 c2(5) by (intro chunks_kept_same) simp
    define created where "created = \<lparr>sn_references = 1, sn_automaton = A, sn_topology = t, sn_chunks = chunks,
                         sn_reverse_words = 0, sn_reverse_columns = [], sn_changed = None, sn_changed_pairs = []\<rparr>"
    have def: "sg_snapshot_allocate A m = (case sg_reverse_columns_build created of
        Inl status \<Rightarrow> (let (address, m) = sg_snapshot_create created m2 in (Inl status, sg_pair_snapshot_release (Ref address) m))
      | Inr created \<Rightarrow> (let (address, m) = sg_snapshot_create created m2 in (Inr address, m)))"
      unfolding sg_snapshot_allocate_def clone topology Inr
      by (simp add: Let_def at pairs chunk_total_eq[unfolded Let_def, simplified] alloc created_def split: sum.split del: upt_Suc)
    have wfc: "wf_automaton (sn_automaton created)" using wf by (simp add: created_def)
    note build = sg_reverse_columns_build_ok[OF wfc]
    show ?thesis
    proof (cases "sg_reverse_columns_build created")
      case (Inl e)
      obtain b m3 where mk: "sg_snapshot_create created m2 = (b, m3)" by fastforce
      have refs: "sn_references created = 1" by (simp add: created_def)
      from run def Inl mk have r: "r = Inl e" and m': "m' = sg_pair_snapshot_release (Ref b) m3" by simp_all
      have ctc: "counted m2 (\<lambda>c. count_list (sn_chunks created) c) ((\<lambda>_. 0)(sn_topology created := 1))"
        using c2(1) by (simp add: created_def)
      from error_path_ok[OF ok ctc kept snaps m'[unfolded release_created[OF mk refs]]] r build Inl show ?thesis by simp
    next
      case (Inr s)
      with build obtain w cols where s: "reverse_ok s" "s = created\<lparr>sn_reverse_words := w, sn_reverse_columns := cols\<rparr>" by auto
      obtain b where mk: "sg_snapshot_create s m2 = (b, m')" and r: "r = Inr b"
        using run def Inr by (auto split: prod.splits)
      have inner: "inner_ok s" using s wf by (simp add: inner_ok_def created_def)
      have tl: "t = length (sm_topologies m)" using c1 by simp
      have fields: "sn_automaton s = A" "sn_topology s = t" "sn_chunks s = chunks" by (simp_all add: s(2) created_def)
      have chunk: "chunks ! i < length (sm_chunks m2) \<and>
          (\<exists>c. sm_chunks m2 ! (chunks ! i) = Some c \<and> length (ch_records c) = chunk_size pairs i)"
        if "i < chunk_total pairs" for i
        using that unfolding c2(4,5) by (simp add: nth_append del: upt_Suc)
      have "length chunks = chunk_total pairs" by (simp add: c2(4))
      with chunk have links: "links_ok m2 s"
        unfolding links_ok_def Let_def fields pairs_def[symmetric] by (simp add: tp c2(3) tl)
      have ctc: "counted m2 (\<lambda>c. count_list (sn_chunks s) c) ((\<lambda>_. 0)(sn_topology s := 1))"
        using c2(1) by (simp add: s created_def)
      from create_path_ok[OF ok ctc kept snaps inner links mk] r show ?thesis by (simp add: s created_def)
    qed
  qed
qed

section \<open>Filling from an oracle\<close>

lemma sg_snapshot_fill_pair_ok:
  assumes ok: "memory_ok m" and a: "live m a" and run: "sg_snapshot_fill_pair a orc p m = (status, m')"
    and p: "p < snapshot_pairs (snapshot_at m a)"
  shows "memory_ok m' \<and> sn_changed_pairs (snapshot_at m' a) = sn_changed_pairs (snapshot_at m a) \<and> (\<exists>f. writes_to a f m m' \<and>
     (status = SG_OK \<longrightarrow> (\<exists>r. sg_pair_oracle_record (Ref orc) p = Inr r \<and> f = (snapshot_record m a)(p := r))))"
proof -
  obtain ptr m1 where mut: "sg_snapshot_record_mutable a p m = (ptr, m1)" by fastforce
  let ?c = "sn_chunks (snapshot_at m1 a) ! (p div SG_SNAPSHOT_RECORD_CHUNK)"
  from sg_snapshot_record_mutable_ok[OF ok a p mut]
  have ok1: "memory_ok m1" and view: "same_view m m1"
    and ptr: "ptr = Ref (?c, p mod SG_SNAPSHOT_RECORD_CHUNK)" and one: "chunk_uses m1 ?c = 1"
    by (auto simp: Let_def)
  note w1 = same_view_writes[OF view a]
  have a1: "live m1 a" using view a by (simp add: same_view_def)
  have changes: "sn_changed_pairs (snapshot_at m1 a) = sn_changed_pairs (snapshot_at m a)"
    using view a by (auto simp: same_view_def)
  have core: "snapshot_core (snapshot_at m1 a) = snapshot_core (snapshot_at m a)" and rec: "snapshot_record m1 a = snapshot_record m a"
    using w1 a by (auto simp: writes_to_def)
  have p1: "p < snapshot_pairs (snapshot_at m1 a)" using p snapshot_core_eq(6)[OF core] by simp
  show ?thesis
  proof (cases "sg_pair_oracle_record (Ref orc) p")
    case (Inl e)
    then have "status \<noteq> SG_OK" "m' = m1" using run mut ptr by (auto simp: sg_snapshot_fill_pair_def)
    with ok1 w1 changes show ?thesis by blast
  next
    case (Inr r)
    then have m': "m' = sg_record_store (?c, p mod SG_SNAPSHOT_RECORD_CHUNK) r m1"
      using run mut ptr by (auto simp: sg_snapshot_fill_pair_def Let_def split: sum.splits prod.splits if_splits)
    from record_store_ok[OF ok1 a1 p1 refl one, of r]
    have "memory_ok m'" "writes_to a ((snapshot_record m a)(p := r)) m1 m'" by (simp_all add: m' rec)
    moreover have "snapshot_at m' a = snapshot_at m1 a"
      by (simp add: m' sg_record_store_def chunk_update_def Let_def)
    ultimately show ?thesis using Inr writes_to_trans[OF w1] changes by auto
  qed
qed

lemma fill_loop:
  assumes ok: "memory_ok m" and a: "live m a" and "j \<le> snapshot_pairs (snapshot_at m a)"
    and "fold_status (sg_snapshot_fill_pair a orc) [i..<j] m = (status, m')" "i \<le> j"
    and "\<forall>q < i. sg_pair_oracle_record (Ref orc) q = Inr (snapshot_record m a q)"
  shows "memory_ok m' \<and> sn_changed_pairs (snapshot_at m' a) = sn_changed_pairs (snapshot_at m a) \<and>
    (\<exists>f. writes_to a f m m') \<and> (status = SG_OK \<longrightarrow>
     (\<forall>q < j. sg_pair_oracle_record (Ref orc) q = Inr (snapshot_record m' a q)))"
  using assms
proof (induction "j - i" arbitrary: i m)
  case 0
  then have "m' = m" "i = j" by simp_all
  with 0 writes_to_refl show ?case by blast
next
  case (Suc k)
  then have upt: "[i..<j] = i # [Suc i..<j]" by (simp add: upt_conv_Cons)
  obtain st m1 where one: "sg_snapshot_fill_pair a orc i m = (st, m1)" by fastforce
  have i: "i < snapshot_pairs (snapshot_at m a)" using Suc by simp
  from sg_snapshot_fill_pair_ok[OF Suc.prems(1,2) one i] obtain f where
    ok1: "memory_ok m1" and changes: "sn_changed_pairs (snapshot_at m1 a) = sn_changed_pairs (snapshot_at m a)"
    and w: "writes_to a f m m1"
    and f: "st = SG_OK \<longrightarrow> (\<exists>r. sg_pair_oracle_record (Ref orc) i = Inr r \<and> f = (snapshot_record m a)(i := r))" by blast
  show ?case
  proof (cases "st = SG_OK")
    case False
    with Suc.prems(4) one upt have "m' = m1" "status \<noteq> SG_OK" by auto
    with ok1 changes w show ?thesis by blast
  next
    case True
    have live1: "live m1 a" and rec: "snapshot_record m1 a = f"
      and core: "snapshot_core (snapshot_at m1 a) = snapshot_core (snapshot_at m a)"
      using w Suc.prems(2) by (auto simp: writes_to_def)
    have filled: "\<forall>q < Suc i. sg_pair_oracle_record (Ref orc) q = Inr (snapshot_record m1 a q)"
      using f True Suc.prems(6) by (auto simp: rec less_Suc_eq)
    have rest: "fold_status (sg_snapshot_fill_pair a orc) [Suc i..<j] m1 = (status, m')"
      using Suc.prems(4) one upt True by simp
    have "k = j - Suc i" "Suc i \<le> j" "j \<le> snapshot_pairs (snapshot_at m1 a)"
      using Suc snapshot_core_eq(6)[OF core] by simp_all
    from Suc.hyps(1)[OF this(1) ok1 live1 this(3) rest this(2) filled] w changes show ?thesis using writes_to_trans by metis
  qed
qed

lemma sg_pair_snapshot_from_oracle_ok:
  assumes ok: "memory_ok m" and wf: "wf_automaton A" and run: "sg_pair_snapshot_from_oracle (Ref A) (Ref orc) m = (r, m')"
  shows "memory_ok m' \<and> (case r of
      Inl e \<Rightarrow> e \<noteq> SG_OK \<and> unseen {} m m'
    | Inr b \<Rightarrow> unseen {b} m m' \<and> \<not> live m b \<and> live m' b \<and> sn_references (snapshot_at m' b) = 1 \<and>
        automaton_at m' b = A \<and> sn_changed_pairs (snapshot_at m' b) = [] \<and> po_pair_count orc = pair_total A \<and>
        (\<forall>p < pair_total A. sg_pair_oracle_record (Ref orc) p = Inr (snapshot_record m' b p)))"
proof -
  obtain c m1 where alloc: "sg_snapshot_allocate A m = (c, m1)" by fastforce
  note al = sg_snapshot_allocate_ok[OF ok wf alloc]
  show ?thesis
  proof (cases c)
    case (Inl e)
    with run alloc have "r = Inl e" "m' = m1" by (simp_all add: sg_pair_snapshot_from_oracle_def)
    with al Inl show ?thesis by (auto dest: untouched_unseen)
  next
    case (Inr b)
    with al have ok1: "memory_ok m1" and b: "untouched {b} m m1" "\<not> live m b" "live m1 b" "sn_references (snapshot_at m1 b) = 1"
      "automaton_at m1 b = A" "sn_changed_pairs (snapshot_at m1 b) = []" by auto
    obtain status m2 where fill: "sg_snapshot_fill_from_oracle b orc m1 = (status, m2)" by fastforce
    have pairs: "snapshot_pairs (snapshot_at m1 b) = pair_total A" using snapshot_shape(3)[OF ok1 b(3)] b(5) by simp
    have "memory_ok m2 \<and> sn_changed_pairs (snapshot_at m2 b) = sn_changed_pairs (snapshot_at m1 b) \<and>
      (\<exists>f. writes_to b f m1 m2) \<and> (status = SG_OK \<longrightarrow> po_pair_count orc = pair_total A \<and>
        (\<forall>q < pair_total A. sg_pair_oracle_record (Ref orc) q = Inr (snapshot_record m2 b q)))"
    proof (cases "sg_pair_oracle_pair_count (Ref orc) = pair_total A")
      case True
      then have "fold_status (sg_snapshot_fill_pair b orc) [0..<pair_total A] m1 = (status, m2)"
        using fill snapshot_shape(5)[OF ok1 b(3)] b(5) by (simp add: sg_snapshot_fill_from_oracle_def Let_def)
      from fill_loop[OF ok1 b(3) _ this] True show ?thesis by (simp add: pairs sg_pair_oracle_pair_count_def)
    next
      case False
      then have "m2 = m1" "status \<noteq> SG_OK"
        using fill snapshot_shape(5)[OF ok1 b(3)] b(5) by (auto simp: sg_snapshot_fill_from_oracle_def Let_def)
      with ok1 writes_to_refl show ?thesis by blast
    qed
    then obtain f where ok2: "memory_ok m2" and changes: "sn_changed_pairs (snapshot_at m2 b) = sn_changed_pairs (snapshot_at m1 b)"
      and w: "writes_to b f m1 m2" and rec: "status = SG_OK \<longrightarrow> po_pair_count orc = pair_total A \<and>
        (\<forall>q < pair_total A. sg_pair_oracle_record (Ref orc) q = Inr (snapshot_record m2 b q))" by blast
    have live2: "live m2 b" and core: "snapshot_core (snapshot_at m2 b) = snapshot_core (snapshot_at m1 b)"
      using w b(3) by (auto simp: writes_to_def)
    have un: "unseen {b} m m2" using untouched_unseen[OF b(1)] writes_to_unseen[OF w] by (rule unseen_trans)
    show ?thesis
    proof (cases "status = SG_OK")
      case True
      with run alloc Inr fill have "r = Inr b" "m' = m2" by (simp_all add: sg_pair_snapshot_from_oracle_def)
      with True un b live2 ok2 rec changes snapshot_core_eq(1,2)[OF core] show ?thesis by simp
    next
      case False
      with run alloc Inr fill have r: "r = Inl status" and m': "m' = sg_pair_snapshot_release (Ref b) m2"
        by (simp_all add: sg_pair_snapshot_from_oracle_def)
      note rel = sg_pair_snapshot_release_ok[OF ok2 live2, folded m']
      have dead: "\<not> live m' b" using rel(3) b(4) snapshot_core_eq(1)[OF core] by simp
      have "unseen {b} m m'" using un untouched_unseen[OF rel(2)] by (rule unseen_trans)
      then have "unseen {} m m'" using dead b(2) unfolding unseen_def by (metis singletonD)
      with r False rel(1) show ?thesis by simp
    qed
  qed
qed

end
