(* ===== verification/Sync_Snapshot_Machine.thy ===== *)
theory Sync_Snapshot_Machine
  imports Sync_Snapshot_Steps
begin

text \<open>
  Changing a cell of a snapshot, and the memory of snapshots as a state machine: every operation of
  snapshot.c that a client can call is a step, the invariant of the memory is kept by every step, and
  a step is seen only through the snapshot it is called on.
\<close>

section \<open>Changing a cell of an automaton\<close>

lemma set_cell_wf:
  assumes wf: "wf_automaton A" and set: "sg_automaton_set_cell (Ref A) x b t out = Inr A'"
  shows "x < au_state_count A" "b < au_action_count A" "t < au_state_count A" "out < au_output_count A"
    "wf_automaton A'" "au_state_count A' = au_state_count A" "au_action_count A' = au_action_count A"
    "au_output_count A' = au_output_count A" "au_generation A' = au_generation A"
    "y < au_state_count A \<Longrightarrow> c < au_action_count A \<Longrightarrow> delta A' y c = (if y = x \<and> c = b then t else delta A y c)"
    "y < au_state_count A \<Longrightarrow> c < au_action_count A \<Longrightarrow> eta A' y c = (if y = x \<and> c = b then out else eta A y c)"
proof -
  let ?cell = "x * au_action_count A + b"
  from set show r: "x < au_state_count A" "b < au_action_count A" "t < au_state_count A" "out < au_output_count A"
    by (auto simp: sg_automaton_set_cell_def split: if_splits)
  with set have A': "A' = A\<lparr>au_transitions := (au_transitions A)[?cell := t],
      au_observations := (au_observations A)[?cell := out]\<rparr>"
    by (simp add: sg_automaton_set_cell_def Let_def)
  show "au_state_count A' = au_state_count A" "au_action_count A' = au_action_count A"
    "au_output_count A' = au_output_count A" "au_generation A' = au_generation A" by (simp_all add: A')
  show "wf_automaton A'"
    using wf r set_update_subset_insert[of "au_transitions A" ?cell t] set_update_subset_insert[of "au_observations A" ?cell out]
    unfolding wf_automaton_def by (auto simp: A')
  have lengths: "?cell < length (au_transitions A)" "?cell < length (au_observations A)"
    using wf cell_less[OF r(1,2)] by (simp_all add: wf_automaton_def)
  show "delta A' y c = (if y = x \<and> c = b then t else delta A y c)"
    "eta A' y c = (if y = x \<and> c = b then out else eta A y c)" if "y < au_state_count A" "c < au_action_count A"
    using that lengths cell_inj[OF that(2) r(2), of y x]
    by (auto simp: A' sg_automaton_transition_def sg_automaton_observation_def nth_list_update)
qed

lemma transition_none:
  assumes "wf_automaton A"
  shows "sg_automaton_transition (Ref A) x b = SG_INDEX_NONE \<longleftrightarrow> \<not> (x < au_state_count A \<and> b < au_action_count A)"
    "sg_automaton_observation (Ref A) x b = SG_INDEX_NONE \<longleftrightarrow> \<not> (x < au_state_count A \<and> b < au_action_count A)"
  using transition_less[OF assms, of x b] observation_less[OF assms, of x b] wf_automatonD(6)[OF assms]
    size_okD[OF wf_automatonD(3)[OF assms]]
  by (auto simp: sg_automaton_transition_def sg_automaton_observation_def)

section \<open>Changing a cell of a snapshot\<close>

lemma reverse_ok_set_cell:
  assumes rev: "reverse_ok s" and wf: "wf_automaton (sn_automaton s)"
    and set: "sg_automaton_set_cell (Ref (sn_automaton s)) x b t out = Inr A'"
    and s': "s' = (let s1 = s\<lparr>sn_automaton := A'\<rparr>
       in if delta (sn_automaton s) x b \<noteq> t
          then sg_reverse_set (sg_reverse_set s1 b (delta (sn_automaton s) x b) x False) b t x True else s1)"
  shows "reverse_ok s'"
proof -
  define A where "A = sn_automaton s"
  define s1 where "s1 = s\<lparr>sn_automaton := A'\<rparr>"
  note c = set_cell_wf[OF wf set, folded A_def]
  have shape: "columns_shape s1" using rev c(6,7)
    by (simp add: s1_def columns_shape_def reverse_ok_def Let_def column_words_def A_def[symmetric] mult.commute mult.left_commute)
  have A1: "sn_automaton s1 = A'" by (simp add: s1_def)
  have d: "delta A x b < au_state_count A" using transition_less[OF wf] c(1,2) by (simp add: A_def)
  have has1: "sg_reverse_has s1 a q p \<longleftrightarrow> delta A p a = q"
    if "a < au_action_count A" "q < au_state_count A" "p < au_state_count A" for a q p
  proof -
    have "sg_reverse_has s1 a q p = sg_reverse_has s a q p"
      using c(6) by (simp add: s1_def sg_reverse_has_def sg_reverse_offset_def sg_automaton_state_count_def A_def)
    with rev that show ?thesis by (simp add: reverse_ok_def Let_def A_def)
  qed
  have "sg_reverse_has s' a q p \<longleftrightarrow> delta A' p a = q"
    if r: "a < au_action_count A" "q < au_state_count A" "p < au_state_count A" for a q p
  proof (cases "delta A x b = t")
    case True
    then have "s' = s1" by (simp add: s' s1_def A_def[symmetric])
    with has1[OF r] c(10)[OF r(3,1)] True show ?thesis by auto
  next
    case False
    then have s'2: "s' = sg_reverse_set (sg_reverse_set s1 b (delta A x b) x False) b t x True"
      by (simp add: s' s1_def A_def[symmetric])
    have "sg_reverse_has (sg_reverse_set s1 b (delta A x b) x False) a q p \<longleftrightarrow>
        (if a = b \<and> q = delta A x b \<and> p = x then False else sg_reverse_has s1 a q p)"
      using shape c(1,2,6,7) d r by (intro reverse_has_set) (simp_all add: A1)
    moreover have "sg_reverse_has s' a q p \<longleftrightarrow>
        (if a = b \<and> q = t \<and> p = x then True else sg_reverse_has (sg_reverse_set s1 b (delta A x b) x False) a q p)"
      unfolding s'2 using shape c(1,2,3,6,7) r by (intro reverse_has_set) (simp_all add: A1)
    ultimately show ?thesis using has1[OF r] c(10)[OF r(3,1)] False by auto
  qed
  moreover have "columns_shape s'" "sn_automaton s' = A'" using shape by (simp_all add: s' s1_def[symmetric] A1 Let_def)
  ultimately show ?thesis using c(6,7)
    by (simp add: reverse_ok_def columns_shape_def Let_def column_words_def)
qed

lemma sg_pair_snapshot_set_cell_ok:
  assumes ok: "memory_ok m" and a: "live m a"
    and run: "sg_pair_snapshot_set_cell (Ref a) x b t out (Ref flag) m = (status, changed, m')"
  defines "A \<equiv> automaton_at m a"
  shows "memory_ok m' \<and> unseen {a} m m' \<and> live m' a \<and> snapshot_record m' a = snapshot_record m a \<and>
    sn_references (snapshot_at m' a) = sn_references (snapshot_at m a) \<and>
    (if x < au_state_count A \<and> b < au_action_count A \<and> t < au_state_count A \<and> out < au_output_count A
     then status = SG_OK \<and> changed = Ref (delta A x b \<noteq> t \<or> eta A x b \<noteq> out) \<and>
       sg_automaton_set_cell (Ref A) x b t out = Inr (automaton_at m' a)
     else status = SG_ERR_INVALID_ARGUMENT \<and> m' = m)"
proof -
  define s where "s = snapshot_at m a"
  have sok: "snapshot_ok m s" using memory_okD(1)[OF ok a] by (simp add: s_def)
  have A: "sn_automaton s = A" by (simp add: s_def A_def)
  note wf = snapshot_okD(1)[OF sok, unfolded A]
  note none = transition_none[OF wf, of x b]
  note def = run[unfolded sg_pair_snapshot_set_cell_def prod.case option.case Let_def s_def[symmetric] A]
  show ?thesis
  proof (cases "x < au_state_count A \<and> b < au_action_count A")
    case False
    with def none have "status = SG_ERR_INVALID_ARGUMENT" "m' = m" by simp_all
    with False ok a show ?thesis by auto
  next
    case range: True
    note less = transition_less[OF wf conjunct1[OF range] conjunct2[OF range]]
      observation_less[OF wf conjunct1[OF range] conjunct2[OF range]]
    show ?thesis
    proof (cases "delta A x b = t \<and> eta A x b = out")
      case True
      with def none range have "status = SG_OK" "m' = m" "changed = Ref False" by simp_all
      moreover have "(au_transitions A)[x * au_action_count A + b := t] = au_transitions A"
        "(au_observations A)[x * au_action_count A + b := out] = au_observations A"
        using True range by (auto simp: sg_automaton_transition_def sg_automaton_observation_def)
      then have "sg_automaton_set_cell (Ref A) x b t out = Inr A"
        using range less True by (cases A) (simp add: sg_automaton_set_cell_def)
      ultimately show ?thesis using True range less ok a by (simp add: A_def)
    next
      case change: False
      show ?thesis
      proof (cases "sg_automaton_set_cell (Ref A) x b t out")
        case (Inl e)
        with range have "\<not> (t < au_state_count A \<and> out < au_output_count A)" "e = SG_ERR_INVALID_ARGUMENT"
          by (auto simp: sg_automaton_set_cell_def Let_def split: if_splits)
        moreover have "status = e" "m' = m" using def none range change Inl by (simp_all split: if_splits)
        ultimately show ?thesis using ok a range by auto
      next
        case (Inr A')
        define s' where "s' = (let s1 = s\<lparr>sn_automaton := A'\<rparr>
           in if delta A x b \<noteq> t then sg_reverse_set (sg_reverse_set s1 b (delta A x b) x False) b t x True else s1)"
        note c = set_cell_wf[OF wf Inr]
        have r: "status = SG_OK" "changed = Ref True" "m' = snapshot_update a (Some s') m"
          using def none range change Inr by (auto simp: s'_def Let_def split: if_splits)
        have eqs: "sn_chunks s' = sn_chunks s" "sn_topology s' = sn_topology s" "sn_automaton s' = A'"
          "sn_references s' = sn_references s" "sn_changed s' = sn_changed s"
          by (simp_all add: s'_def Let_def)
        have pairs: "snapshot_pairs s' = snapshot_pairs s" by (simp add: snapshot_pairs_def eqs(3) A c(6))
        have "reverse_ok s'"
          using reverse_ok_set_cell[OF snapshot_okD(4,1)[OF sok], unfolded A, OF Inr s'_def] .
        then have inner: "inner_ok s'"
          using sok c(5) by (simp add: snapshot_ok_iff inner_ok_def eqs pairs)
        have "au_state_count (sn_automaton s') = au_state_count (sn_automaton s)" by (simp add: eqs A c(6))
        note u = snapshot_update_same_chunks[OF ok a, of s', folded r(3) s_def, OF eqs(1,2) disjI2[OF this] inner]
        have records: "snapshot_record m' b = snapshot_record m b" for b
          using pairs by (auto simp: fun_eq_iff snapshot_record_def u(3,4) s_def)
        have "unseen {a} m m'" by (simp add: unseen_def u(2,3) records)
        with u(1,2) a records change range c r(1,2) Inr show ?thesis
          by (simp add: u(3) eqs(3,4) s_def[symmetric])
      qed
    qed
  qed
qed

section \<open>The list of changes\<close>

lemma sg_pair_snapshot_clear_changes_ok:
  assumes ok: "memory_ok m" and a: "live m a"
  defines "m' \<equiv> sg_pair_snapshot_clear_changes (Ref a) m"
  shows "memory_ok m'" "unseen {a} m m'" "live m' a" "automaton_at m' a = automaton_at m a"
    "snapshot_record m' a = snapshot_record m a"
proof -
  define s where "s = snapshot_at m a"
  define s' where "s' = s\<lparr>sn_changed := NULL, sn_changed_pairs := []\<rparr>"
  have m': "m' = snapshot_update a (Some s') m"
    by (simp add: m'_def sg_pair_snapshot_clear_changes_def s_def s'_def)
  have eqs: "sn_chunks s' = sn_chunks s" "sn_topology s' = sn_topology s" "sn_automaton s' = sn_automaton s"
    by (simp_all add: s'_def)
  have "inner_ok s" using memory_okD(1)[OF ok a] by (simp add: snapshot_ok_iff s_def)
  then have inner: "inner_ok s'" by (auto simp: inner_ok_def s'_def)
  note u = snapshot_update_same_chunks[OF ok a, of s', folded m' s_def, OF eqs(1,2) disjI1[OF eqs(3)] inner]
  have records: "snapshot_record m' b = snapshot_record m b" for b
    by (auto simp: fun_eq_iff snapshot_record_def u(3,4) snapshot_pairs_def eqs s_def)
  show "memory_ok m'" "live m' a" "automaton_at m' a = automaton_at m a"
    using u a eqs by (simp_all add: s_def)
  show "snapshot_record m' a = snapshot_record m a" by (rule records)
  show "unseen {a} m m'" by (simp add: unseen_def u(2,3) records)
qed

section \<open>The memory as a state machine\<close>

text \<open>
  The calls that change the memory. The label is the set of the snapshots that the call is made on: a
  call that creates a snapshot has none. A client calls with a snapshot that it holds a reference to.
\<close>

inductive memory_step :: "nat set \<Rightarrow> sg_snapshot_memory \<Rightarrow> sg_snapshot_memory \<Rightarrow> bool" where
  step_from_oracle: "wf_automaton A \<Longrightarrow> sg_pair_snapshot_from_oracle (Ref A) (Ref orc) m = (r, m') \<Longrightarrow> memory_step {} m m'"
| step_build: "wf_automaton A \<Longrightarrow> sg_pair_snapshot_build (Ref A) m = (r, m') \<Longrightarrow> memory_step {} m m'"
| step_restore: "wf_automaton A \<Longrightarrow> sg_pair_snapshot_restore (Ref A) (Ref records) m = (r, m') \<Longrightarrow> memory_step {} m m'"
| step_clone: "live m a \<Longrightarrow> sg_pair_snapshot_clone (Ref a) g m = (r, m') \<Longrightarrow> memory_step {} m m'"
| step_retain: "live m a \<Longrightarrow> sg_pair_snapshot_retain (Ref a) m = m' \<Longrightarrow> memory_step {a} m m'"
| step_release: "live m a \<Longrightarrow> sg_pair_snapshot_release (Ref a) m = m' \<Longrightarrow> memory_step {a} m m'"
| step_set_cell: "live m a \<Longrightarrow> sg_pair_snapshot_set_cell (Ref a) x b t out (Ref flag) m = (status, changed, m') \<Longrightarrow>
    memory_step {a} m m'"
| step_repair: "live m a \<Longrightarrow> sg_pair_snapshot_repair (Ref a) (Ref seeds) budget (Ref metrics) m = Some (status, m', metrics') \<Longrightarrow>
    memory_step {a} m m'"
| step_clear_changes: "live m a \<Longrightarrow> sg_pair_snapshot_clear_changes (Ref a) m = m' \<Longrightarrow> memory_step {a} m m'"

text \<open>A run of the machine from one memory to another, with the snapshots that its calls were made on.\<close>

inductive memory_run :: "nat set \<Rightarrow> sg_snapshot_memory \<Rightarrow> sg_snapshot_memory \<Rightarrow> bool" where
  run_none: "memory_run {} m m"
| run_step: "memory_run T m m1 \<Longrightarrow> memory_step U m1 m2 \<Longrightarrow> memory_run (T \<union> U) m m2"

text \<open>The records of a live snapshot have the number of their pair in their first field.\<close>

definition named :: "sg_snapshot_memory \<Rightarrow> nat \<Rightarrow> bool" where
  "named m a \<longleftrightarrow> (\<forall>p < pair_total (automaton_at m a). rec_pair (snapshot_record m a p) = p)"

definition machine_inv :: "sg_snapshot_memory \<Rightarrow> bool" where
  "machine_inv m \<longleftrightarrow> memory_ok m \<and> (\<forall>a. live m a \<longrightarrow> named m a)"

text \<open>The snapshots outside \<open>T\<close> are as they were; there may be new ones.\<close>

definition others_kept :: "nat set \<Rightarrow> sg_snapshot_memory \<Rightarrow> sg_snapshot_memory \<Rightarrow> bool" where
  "others_kept T m m' \<longleftrightarrow> (\<forall>a. live m a \<longrightarrow> a \<notin> T \<longrightarrow> live m' a \<and>
     snapshot_core (snapshot_at m' a) = snapshot_core (snapshot_at m a) \<and>
     sn_changed (snapshot_at m' a) = sn_changed (snapshot_at m a) \<and>
     sn_changed_pairs (snapshot_at m' a) = sn_changed_pairs (snapshot_at m a) \<and>
     snapshot_record m' a = snapshot_record m a)"

lemma others_kept_refl [simp]: "others_kept T m m"
  by (simp add: others_kept_def)

lemma others_kept_trans: "others_kept T m m1 \<Longrightarrow> others_kept U m1 m2 \<Longrightarrow> others_kept (T \<union> U) m m2"
  by (simp add: others_kept_def)

lemma unseen_others_kept: "unseen T m m' \<Longrightarrow> others_kept T m m'"
  by (simp add: unseen_def others_kept_def)

lemma unseen_machine_inv:
  assumes inv: "machine_inv m" and ok: "memory_ok m'" and un: "unseen T m m'"
    and T: "\<And>b. b \<in> T \<Longrightarrow> live m' b \<Longrightarrow> named m' b"
  shows "machine_inv m'"
  unfolding machine_inv_def
proof (intro conjI allI impI)
  fix b assume b: "live m' b"
  show "named m' b"
  proof (cases "b \<in> T")
    case False
    with un b have "live m b" "snapshot_record m' b = snapshot_record m b"
      "automaton_at m' b = automaton_at m b"
      unfolding unseen_def using snapshot_core_eq(2) by blast+
    with inv show ?thesis by (simp add: machine_inv_def named_def)
  qed (use T b in blast)
qed (rule ok)

text \<open>A call on a snapshot that leaves its records and its number of states as they were.\<close>

lemma same_records_step:
  assumes "machine_inv m" "live m a" "memory_ok m'" "unseen {a} m m'"
    and "live m' a \<Longrightarrow> snapshot_record m' a = snapshot_record m a \<and>
      au_state_count (automaton_at m' a) = au_state_count (automaton_at m a)"
  shows "machine_inv m' \<and> others_kept {a} m m'"
  using unseen_machine_inv[OF assms(1,3,4)] unseen_others_kept[OF assms(4)] assms(1,2,5)
  by (auto simp: machine_inv_def named_def)

text \<open>A call that creates a snapshot.\<close>

lemma create_step:
  assumes inv: "machine_inv m" and ok: "memory_ok m'"
    and r: "case r of Inl e \<Rightarrow> unseen {} m m' | Inr b \<Rightarrow> unseen {b} m m' \<and> \<not> live m b \<and> named m' b"
  shows "machine_inv m' \<and> others_kept {} m m'"
proof (cases r)
  case (Inl e)
  with r unseen_machine_inv[OF inv ok, of "{}"] unseen_others_kept show ?thesis by auto
next
  case (Inr b)
  with r have un: "unseen {b} m m'" and b: "\<not> live m b" "named m' b" by simp_all
  from unseen_others_kept[OF un] b(1) have "others_kept {} m m'" by (auto simp: others_kept_def)
  with unseen_machine_inv[OF inv ok un] b(2) show ?thesis by auto
qed

lemma from_oracle_step:
  assumes inv: "machine_inv m" and wf: "wf_automaton A"
    and run: "sg_pair_snapshot_from_oracle (Ref A) (Ref orc) m = (r, m')"
  shows "machine_inv m' \<and> others_kept {} m m'"
proof -
  note ok = sg_pair_snapshot_from_oracle_ok[OF _ wf run]
  have rec: "sg_pair_oracle_record (Ref orc) p = Inr x \<Longrightarrow> rec_pair x = p" for p x
    by (auto simp: sg_pair_oracle_record_def split: if_splits)
  show ?thesis
    using inv ok rec by (intro create_step[where r = r]) (auto simp: machine_inv_def named_def split: sum.splits)
qed

lemma repair_step:
  assumes inv: "machine_inv m" and a: "live m a"
    and run: "sg_pair_snapshot_repair (Ref a) (Ref seeds) budget (Ref metrics) m = Some (status, m', metrics')"
  shows "machine_inv m' \<and> others_kept {a} m m'"
proof (cases "seeds \<noteq> [] \<and> 0 < budget")
  case False
  then have "sg_pair_snapshot_repair (Ref a) (Ref seeds) budget (Ref metrics) m =
      Some (SG_ERR_INVALID_ARGUMENT, m, Ref metrics)"
    by (simp add: sg_pair_snapshot_repair_def sg_pair_store_repair_def) blast
  with run inv show ?thesis by simp
next
  case True
  have start: "snapshot_inv a m m" using inv a by (intro snapshot_inv_start) (auto simp: machine_inv_def named_def)
  have "snapshot_inv a m m'"
    by (rule repair_run_cases[OF start run conjunct1[OF True] conjunct2[OF True]])
  note D = snapshot_invD[OF this]
  have un: "unseen {a} m m'" by (rule writes_to_unseen[OF D(6)])
  have "named m' a" using D(5,7) by (simp add: named_def)
  with unseen_machine_inv[OF inv D(3) un] unseen_others_kept[OF un] show ?thesis by auto
qed

lemma memory_step_inv:
  assumes "memory_step T m m'" "machine_inv m"
  shows "machine_inv m' \<and> others_kept T m m'"
  using assms
proof (induction rule: memory_step.induct)
  case (step_from_oracle A orc m r m')
  then show ?case using from_oracle_step by blast
next
  case (step_build A m r m')
  then show ?case using from_oracle_step by (auto simp: sg_pair_snapshot_build_def split: sum.splits)
next
  case (step_restore A records m r m')
  then show ?case using from_oracle_step by (auto simp: sg_pair_snapshot_restore_def split: sum.splits)
next
  case (step_clone m a g r m')
  then have ok: "memory_ok m" and a: "named m a" by (auto simp: machine_inv_def)
  note clone = sg_pair_snapshot_clone_ok[OF ok step_clone(1,2)]
  with a step_clone(3) show ?case
    by (intro create_step[where r = r]) (auto simp: named_def untouched_unseen split: sum.splits)
next
  case (step_retain m a m')
  then have ok: "memory_ok m" by (simp add: machine_inv_def)
  note retain = sg_pair_snapshot_retain_ok[OF ok step_retain(1), unfolded step_retain(2)]
  show ?case by (rule same_records_step[OF step_retain(3,1) retain(1) untouched_unseen[OF retain(2)]]) (simp add: retain)
next
  case (step_release m a m')
  then have ok: "memory_ok m" by (simp add: machine_inv_def)
  note release = sg_pair_snapshot_release_ok[OF ok step_release(1), unfolded step_release(2)]
  have "snapshot_record m' a = snapshot_record m a \<and> au_state_count (automaton_at m' a) = au_state_count (automaton_at m a)"
    if "live m' a" using release(3) that by (auto split: if_splits)
  then show ?case by (rule same_records_step[OF step_release(3,1) release(1) untouched_unseen[OF release(2)]])
next
  case (step_set_cell m a x b t out flag status changed m')
  then have ok: "memory_ok m" by (simp add: machine_inv_def)
  note cell = sg_pair_snapshot_set_cell_ok[OF ok step_set_cell(1,2)]
  have wf: "wf_automaton (automaton_at m a)" by (rule snapshot_okD(1)[OF memory_okD(1)[OF ok step_set_cell(1)]])
  have "au_state_count (automaton_at m' a) = au_state_count (automaton_at m a)"
    using cell set_cell_wf(6)[OF wf] by (auto split: if_splits)
  with cell show ?case by (intro same_records_step[OF step_set_cell(3,1)]) blast+
next
  case (step_repair m a seeds budget metrics status m' metrics')
  then show ?case using repair_step by blast
next
  case (step_clear_changes m a m')
  then have ok: "memory_ok m" by (simp add: machine_inv_def)
  note clear = sg_pair_snapshot_clear_changes_ok[OF ok step_clear_changes(1), unfolded step_clear_changes(2)]
  show ?case by (rule same_records_step[OF step_clear_changes(3,1) clear(1,2)]) (simp add: clear)
qed

lemma machine_inv_empty: "machine_inv sg_memory_empty"
  by (simp add: machine_inv_def memory_ok_def live_def sg_memory_empty_def)

lemma memory_run_inv:
  "memory_run T m m' \<Longrightarrow> machine_inv m \<Longrightarrow> machine_inv m' \<and> others_kept T m m'"
proof (induction rule: memory_run.induct)
  case (run_step T m m1 U m2)
  with memory_step_inv[OF run_step(2)] others_kept_trans show ?case by blast
qed simp

section \<open>What a client sees\<close>

lemma sg_pair_snapshot_record_eq:
  assumes "memory_ok m" "live m a"
  shows "sg_pair_snapshot_record (Ref a) p m =
    (if p < pair_total (automaton_at m a) then Inr (snapshot_record m a p) else Inl SG_ERR_INVALID_ARGUMENT)"
    "sg_pair_snapshot_pair_count (Ref a) m = pair_total (automaton_at m a)"
  using snapshot_shape(3,5)[OF assms]
  by (simp_all add: sg_pair_snapshot_record_def sg_pair_snapshot_read_def sg_snapshot_read_pair_def
      sg_snapshot_record_const_def snapshot_record_def content_def rbind_def Let_def sg_pair_snapshot_pair_count_def)

lemma chunk_uses_dead: "(\<And>a. \<not> live m a) \<Longrightarrow> chunk_uses m c = 0 \<and> topology_uses m t = 0"
  by (auto simp: chunk_uses_def topology_uses_def live_def sum_list_eq_0_iff in_set_conv_nth)

text \<open>A concrete run: a snapshot is restored, cloned, and a cell of the clone is changed.\<close>

lemma tiny_life:
  obtains m1 m2 m3 where
    "sg_pair_snapshot_restore (Ref tiny_automaton) (Ref (map unreached [0, 1, 2])) sg_memory_empty = (Inr 0, m1)"
    "sg_pair_snapshot_clone (Ref 0) 7 m1 = (Inr 1, m2)"
    "sg_pair_snapshot_set_cell (Ref 1) 0 0 1 0 (Ref False) m2 = (SG_OK, Ref True, m3)"
    "live m1 0" "live m2 0" "live m2 1" "live m3 0"
proof -
  have "case sg_pair_snapshot_restore (Ref tiny_automaton) (Ref (map unreached [0, 1, 2])) sg_memory_empty of
      (Inr x, m) \<Rightarrow> (x = 0 \<and> live m 0 \<and> (case sg_pair_snapshot_clone (Ref 0) 7 m of
        (Inr y, m) \<Rightarrow> y = 1 \<and> live m 0 \<and> live m 1 \<and>
          (case sg_pair_snapshot_set_cell (Ref 1) 0 0 1 0 (Ref False) m of
             (status, changed, m) \<Rightarrow> status = SG_OK \<and> changed = Ref True \<and> live m 0)
      | _ \<Rightarrow> False))
    | _ \<Rightarrow> False"
    by code_simp
  with that show ?thesis by (auto split: prod.splits sum.splits)
qed

lemma tiny_life_run:
  assumes "sg_pair_snapshot_restore (Ref tiny_automaton) (Ref (map unreached [0, 1, 2])) sg_memory_empty = (Inr 0, m1)"
    "sg_pair_snapshot_clone (Ref 0) 7 m1 = (Inr 1, m2)" "live m1 0"
  shows "memory_run {} sg_memory_empty m2"
  using run_step[OF run_step[OF run_none step_restore[OF tiny_wf assms(1)]] step_clone[OF assms(3,2)]] by simp

section \<open>The properties\<close>

text \<open>C36. Whatever sequence of calls of snapshot.c runs from the empty memory (building a snapshot from an
  oracle, from an automaton or from stored records, cloning, retaining, releasing, changing a cell,
  repairing with any outcome, clearing the list of changes), the memory keeps its invariant: the counter
  of every chunk and topology is the number of places that point to it, every pointer of a live snapshot
  leads to a live object of the right size, the bit columns are those of its automaton. Every pair of a live
  snapshot can be read and its record names the pair. When the last snapshot is gone, so is every chunk
  and every topology: nothing leaks.\<close>

theorem reachable_memory_ok:
  assumes "memory_run T sg_memory_empty m"
  shows "memory_ok m \<and>
    (\<forall>a p. live m a \<and> p < sg_pair_snapshot_pair_count (Ref a) m \<longrightarrow>
       (\<exists>r. sg_pair_snapshot_record (Ref a) p m = Inr r \<and> rec_pair r = p)) \<and>
    ((\<forall>a. \<not> live m a) \<longrightarrow> set (sm_chunks m) \<subseteq> {None} \<and> set (sm_topologies m) \<subseteq> {None})"
proof -
  have ok: "memory_ok m" and named: "live m a \<Longrightarrow> named m a" for a
    using memory_run_inv[OF assms machine_inv_empty] by (auto simp: machine_inv_def)
  have "\<exists>r. sg_pair_snapshot_record (Ref a) p m = Inr r \<and> rec_pair r = p"
    if "live m a" "p < sg_pair_snapshot_pair_count (Ref a) m" for a p
    using that named[OF that(1)] by (simp add: sg_pair_snapshot_record_eq[OF ok that(1)] named_def)
  moreover have "set (sm_chunks m) \<subseteq> {None} \<and> set (sm_topologies m) \<subseteq> {None}" if "\<forall>a. \<not> live m a"
  proof -
    have uses: "chunk_uses m c = 0" "topology_uses m t = 0" for c t using chunk_uses_dead that by blast+
    have "sm_chunks m ! c = None" if "c < length (sm_chunks m)" for c
      using memory_okD(2)[OF ok that] uses by (cases "sm_chunks m ! c") auto
    moreover have "sm_topologies m ! t = None" if "t < length (sm_topologies m)" for t
      using memory_okD(4)[OF ok that] uses by (cases "sm_topologies m ! t") auto
    ultimately show ?thesis by (auto simp: in_set_conv_nth)
  qed
  ultimately show ?thesis using ok by blast
qed

theorem reachable_memory_ok_witness:
  "\<exists>m. memory_run {} sg_memory_empty m \<and> live m 0 \<and> live m 1 \<and> memory_ok m"
proof -
  obtain m1 m2 m3 where life:
    "sg_pair_snapshot_restore (Ref tiny_automaton) (Ref (map unreached [0, 1, 2])) sg_memory_empty = (Inr 0, m1)"
    "sg_pair_snapshot_clone (Ref 0) 7 m1 = (Inr 1, m2)" "live m1 0" "live m2 0" "live m2 1" by (rule tiny_life)
  note run = tiny_life_run[OF life(1-3)]
  from run life(4,5) conjunct1[OF reachable_memory_ok[OF run]] show ?thesis by blast
qed

text \<open>C37. Snapshots are isolated from each other although they share chunks and topologies: in every
  reachable memory, whatever run of calls follows, a snapshot that none of the calls is made on is alive
  afterwards, has the automaton, the reference count and the list of changes it had, and every record
  reads the same. In particular nothing that is done to a clone is seen through its source, and the other
  way round.\<close>

theorem snapshots_isolated:
  assumes "memory_run T sg_memory_empty m" "memory_run U m m'" "live m a" "a \<notin> U"
  shows "live m' a \<and> sg_pair_snapshot_automaton (Ref a) m' = sg_pair_snapshot_automaton (Ref a) m \<and>
    sn_references (snapshot_at m' a) = sn_references (snapshot_at m a) \<and>
    sg_pair_snapshot_changed_pairs (Ref a) m' = sg_pair_snapshot_changed_pairs (Ref a) m \<and>
    (\<forall>p. sg_pair_snapshot_record (Ref a) p m' = sg_pair_snapshot_record (Ref a) p m)"
proof -
  have inv: "machine_inv m" using memory_run_inv[OF assms(1) machine_inv_empty] by blast
  from memory_run_inv[OF assms(2) inv] have ok: "memory_ok m" "memory_ok m'" and others: "others_kept U m m'"
    using inv by (auto simp: machine_inv_def)
  from others assms(3,4) have live: "live m' a" and core: "snapshot_core (snapshot_at m' a) = snapshot_core (snapshot_at m a)"
    and same: "sn_changed_pairs (snapshot_at m' a) = sn_changed_pairs (snapshot_at m a)" "snapshot_record m' a = snapshot_record m a"
    unfolding others_kept_def by blast+
  show ?thesis
    using live same snapshot_core_eq(1,2)[OF core] sg_pair_snapshot_record_eq(1)[OF ok(1) assms(3)] sg_pair_snapshot_record_eq(1)[OF ok(2) live]
    by (simp add: sg_pair_snapshot_automaton_def sg_pair_snapshot_changed_pairs_def)
qed

theorem snapshots_isolated_witness:
  "\<exists>m m'. memory_run {} sg_memory_empty m \<and> live m 0 \<and> memory_run {1} m m' \<and>
     sg_pair_snapshot_set_cell (Ref 1) 0 0 1 0 (Ref False) m = (SG_OK, Ref True, m') \<and>
     sg_pair_snapshot_automaton (Ref 0) m' = sg_pair_snapshot_automaton (Ref 0) m"
proof -
  obtain m1 m2 m3 where life:
    "sg_pair_snapshot_restore (Ref tiny_automaton) (Ref (map unreached [0, 1, 2])) sg_memory_empty = (Inr 0, m1)"
    "sg_pair_snapshot_clone (Ref 0) 7 m1 = (Inr 1, m2)" "live m1 0" "live m2 0" "live m2 1"
    and cell: "sg_pair_snapshot_set_cell (Ref 1) 0 0 1 0 (Ref False) m2 = (SG_OK, Ref True, m3)" by (rule tiny_life)
  note run = tiny_life_run[OF life(1-3)]
  have more: "memory_run {1} m2 m3" using run_step[OF run_none step_set_cell[OF life(5) cell]] by simp
  from snapshots_isolated[OF run more life(4)] run more life(4) cell show ?thesis by auto
qed

text \<open>C38. The round trip between oracles and snapshots: making a snapshot from an oracle either fails, and
  then the same snapshots are alive and every record of theirs reads as it did, or it gives a new snapshot with one
  reference, the given automaton and no changes, from which every pair number reads what the oracle
  reads: the same record, or the same error if the number is out of range.\<close>

theorem snapshot_reads_oracle:
  assumes ok: "memory_ok m" and wf: "wf_automaton A"
    and run: "sg_pair_snapshot_from_oracle (Ref A) (Ref orc) m = (result, m')"
  shows "memory_ok m' \<and> (case result of
      Inl e \<Rightarrow> e \<noteq> SG_OK \<and> (\<forall>b. live m' b = live m b) \<and>
        (\<forall>b p. live m b \<longrightarrow> sg_pair_snapshot_record (Ref b) p m' = sg_pair_snapshot_record (Ref b) p m)
    | Inr a \<Rightarrow> \<not> live m a \<and> live m' a \<and> sn_references (snapshot_at m' a) = 1 \<and>
        sg_pair_snapshot_automaton (Ref a) m' = Ref A \<and> sg_pair_snapshot_changed_count (Ref a) m' = 0 \<and>
        (\<forall>p. sg_pair_snapshot_record (Ref a) p m' = sg_pair_oracle_record (Ref orc) p))"
proof -
  note made = sg_pair_snapshot_from_oracle_ok[OF ok wf run]
  then have ok': "memory_ok m'" by blast
  show ?thesis
  proof (cases result)
    case (Inl e)
    with made have un: "e \<noteq> SG_OK" "unseen {} m m'" by simp_all
    have "sg_pair_snapshot_record (Ref b) p m' = sg_pair_snapshot_record (Ref b) p m" if "live m b" for b p
    proof -
      from un(2) that have live: "live m' b" and core: "snapshot_core (snapshot_at m' b) = snapshot_core (snapshot_at m b)"
        and "snapshot_record m' b = snapshot_record m b" unfolding unseen_def by blast+
      then show ?thesis
        using snapshot_core_eq(2)[OF core] by (simp add: sg_pair_snapshot_record_eq[OF ok that] sg_pair_snapshot_record_eq[OF ok' live])
    qed
    with Inl un ok' show ?thesis by (simp add: unseen_def)
  next
    case (Inr a)
    with made have a: "\<not> live m a" "live m' a" "sn_references (snapshot_at m' a) = 1" "automaton_at m' a = A"
      "sn_changed_pairs (snapshot_at m' a) = []" and count: "po_pair_count orc = pair_total A"
      and records: "\<forall>p < pair_total A. sg_pair_oracle_record (Ref orc) p = Inr (snapshot_record m' a p)" by simp_all
    have "sg_pair_snapshot_record (Ref a) p m' = sg_pair_oracle_record (Ref orc) p" for p
      using records count by (cases "p < pair_total A")
        (simp_all add: sg_pair_snapshot_record_eq[OF ok' a(2)] a(4) sg_pair_oracle_record_def)
    with a Inr ok' show ?thesis
      by (simp add: sg_pair_snapshot_automaton_def sg_pair_snapshot_changed_count_def)
  qed
qed

theorem snapshot_reads_oracle_witness:
  "\<exists>orc m. sg_pair_snapshot_from_oracle (Ref tiny_automaton) (Ref orc) sg_memory_empty = (Inr 0, m) \<and>
     sg_pair_snapshot_record (Ref 0) 1 m = sg_pair_oracle_record (Ref orc) 1"
proof -
  obtain m1 m2 m3 where
    "sg_pair_snapshot_restore (Ref tiny_automaton) (Ref (map unreached [0, 1, 2])) sg_memory_empty = (Inr 0, m1)"
    by (rule tiny_life)
  then obtain orc where run: "sg_pair_snapshot_from_oracle (Ref tiny_automaton) (Ref orc) sg_memory_empty = (Inr 0, m1)"
    by (auto simp: sg_pair_snapshot_restore_def split: sum.splits)
  have "memory_ok sg_memory_empty" using machine_inv_empty by (simp add: machine_inv_def)
  from snapshot_reads_oracle[OF this tiny_wf run] run show ?thesis by auto
qed

text \<open>C39. Changing a cell of a snapshot: if the state, the action, the target and the output are numbers
  of its automaton the call succeeds, the flag says whether the cell had other values, and the automaton
  afterwards has exactly this one transition and observation replaced; otherwise the call is an invalid
  argument and the memory is as it was. The bit columns follow the new transition, no record of the snapshot
  and nothing of another snapshot changes.\<close>

theorem set_cell_replaces_one_cell:
  assumes ok: "memory_ok m" "live m a"
    and run: "sg_pair_snapshot_set_cell (Ref a) x b t out (Ref flag) m = (status, changed, m')"
  shows "let A = automaton_at m a; A' = automaton_at m' a in
    if x < au_state_count A \<and> b < au_action_count A \<and> t < au_state_count A \<and> out < au_output_count A
    then status = SG_OK \<and> changed = Ref (delta A x b \<noteq> t \<or> eta A x b \<noteq> out) \<and> memory_ok m' \<and>
      wf_automaton A' \<and> au_state_count A' = au_state_count A \<and> au_action_count A' = au_action_count A \<and>
      (\<forall>y < au_state_count A. \<forall>c < au_action_count A.
         delta A' y c = (if y = x \<and> c = b then t else delta A y c) \<and>
         eta A' y c = (if y = x \<and> c = b then out else eta A y c) \<and>
         (\<forall>q < au_state_count A. sg_reverse_has (snapshot_at m' a) c q y = (delta A' y c = q))) \<and>
      (\<forall>d p. live m d \<longrightarrow> live m' d \<and> sg_pair_snapshot_record (Ref d) p m' = sg_pair_snapshot_record (Ref d) p m \<and>
         (d \<noteq> a \<longrightarrow> automaton_at m' d = automaton_at m d))
    else status = SG_ERR_INVALID_ARGUMENT \<and> m' = m"
proof -
  note cell = sg_pair_snapshot_set_cell_ok[OF ok run]
  define A where "A = automaton_at m a"
  define A' where "A' = automaton_at m' a"
  have wf: "wf_automaton A" by (simp add: A_def snapshot_okD(1)[OF memory_okD(1)[OF ok]])
  let ?range = "x < au_state_count A \<and> b < au_action_count A \<and> t < au_state_count A \<and> out < au_output_count A"
  show ?thesis
  proof (cases ?range)
    case False
    with cell show ?thesis unfolding Let_def A_def[symmetric] by simp
  next
    case True
    from cell have ok': "memory_ok m'" and un: "unseen {a} m m'" and live: "live m' a"
      and rec: "snapshot_record m' a = snapshot_record m a" by blast+
    from cell True have r: "status = SG_OK" "changed = Ref (delta A x b \<noteq> t \<or> eta A x b \<noteq> out)"
      and set: "sg_automaton_set_cell (Ref A) x b t out = Inr A'" unfolding A_def[symmetric] A'_def[symmetric] by simp_all
    note new = set_cell_wf[OF wf set]
    have columns: "sg_reverse_has (snapshot_at m' a) c q y = (delta A' y c = q)"
      if "c < au_action_count A" "q < au_state_count A" "y < au_state_count A" for c q y
      using snapshot_shape(7)[OF ok' live, folded A'_def] that new(6,7) by simp
    have other: "live m' d \<and> sg_pair_snapshot_record (Ref d) p m' = sg_pair_snapshot_record (Ref d) p m \<and>
        (d \<noteq> a \<longrightarrow> automaton_at m' d = automaton_at m d)" if d: "live m d" for d p
    proof (cases "d = a")
      case True
      with live rec new(6) show ?thesis
        by (simp add: sg_pair_snapshot_record_eq[OF ok] sg_pair_snapshot_record_eq[OF ok' live] A_def[symmetric] A'_def[symmetric])
    next
      case False
      with un d have live': "live m' d" and core: "snapshot_core (snapshot_at m' d) = snapshot_core (snapshot_at m d)"
        and "snapshot_record m' d = snapshot_record m d" unfolding unseen_def by blast+
      with snapshot_core_eq(2)[OF core] show ?thesis
        by (simp add: sg_pair_snapshot_record_eq[OF ok(1) d] sg_pair_snapshot_record_eq[OF ok' live'])
    qed
    show ?thesis
      unfolding Let_def A_def[symmetric] A'_def[symmetric] if_P[OF True]
      using r ok' new(5-7,10,11) columns other by blast
  qed
qed

theorem set_cell_replaces_one_cell_witness:
  "\<exists>changed m. sg_pair_snapshot_set_cell (Ref 0) 0 0 1 0 (Ref False) tiny_memory = (SG_OK, changed, m) \<and>
     changed = Ref True \<and> delta (automaton_at m 0) 0 0 = 1 \<and> delta (automaton_at m 0) 1 0 = 0"
proof -
  obtain status changed m where run: "sg_pair_snapshot_set_cell (Ref 0) 0 0 1 0 (Ref False) tiny_memory = (status, changed, m)"
    by (metis prod_cases3)
  have live: "live tiny_memory 0" by (simp add: tiny_live)
  have A: "automaton_at tiny_memory 0 = tiny_automaton" by (simp add: tiny_memory_def)
  have "delta tiny_automaton 0 0 = 0" "delta tiny_automaton 1 0 = 0" by code_simp+
  with set_cell_replaces_one_cell[OF tiny_memory_ok live run] run show ?thesis
    unfolding A Let_def by (auto simp: tiny_automaton_def)
qed

text \<open>C33. Every repair returns. In every reachable memory, for every live snapshot, whatever pairs are
  given as seeds, in whatever order and number, and whatever the budget, the repair ends with a status:
  none of its three loops (invalidating, rebuilding, propagating) runs for ever, although a rebuilt pair
  can be put back on the heap and a propagated decrease can queue a pair again. The memory it leaves is
  again a reachable one. Seeds that are missing or a budget of zero are refused with the memory as it
  was.\<close>

theorem repairs_return:
  assumes reachable: "memory_run T sg_memory_empty m" and live: "live m a"
  shows "\<exists>status m' metrics'.
    sg_pair_snapshot_repair (Ref a) (Ref seeds) budget (Ref metrics) m = Some (status, m', metrics') \<and>
    memory_run (T \<union> {a}) sg_memory_empty m' \<and>
    (seeds = [] \<or> budget = 0 \<longrightarrow> status = SG_ERR_INVALID_ARGUMENT \<and> m' = m \<and> metrics' = Ref metrics)"
proof -
  have "memory_ok m" "named m a"
    using memory_run_inv[OF reachable machine_inv_empty] live by (auto simp: machine_inv_def)
  then obtain status m' metrics' where
    run: "sg_pair_snapshot_repair (Ref a) (Ref seeds) budget (Ref metrics) m = Some (status, m', metrics')"
    using repair_returns[of m a seeds budget metrics] live unfolding named_def by blast
  moreover have "sg_pair_snapshot_repair (Ref a) (Ref seeds) budget (Ref metrics) m =
      Some (SG_ERR_INVALID_ARGUMENT, m, Ref metrics)" if "seeds = [] \<or> budget = 0"
    using that by (simp add: sg_pair_snapshot_repair_def sg_pair_store_repair_def) blast
  ultimately show ?thesis using run_step[OF reachable step_repair[OF live run]] by fastforce
qed

theorem repairs_return_witness:
  "\<exists>m status m' metrics'. memory_run {} sg_memory_empty m \<and> live m 1 \<and>
     sg_pair_snapshot_repair (Ref 1) (Ref [2, 1, 0]) 5 (Ref sg_metrics_zero) m = Some (status, m', metrics') \<and>
     memory_run {1} sg_memory_empty m'"
proof -
  obtain m1 m2 m3 where life:
    "sg_pair_snapshot_restore (Ref tiny_automaton) (Ref (map unreached [0, 1, 2])) sg_memory_empty = (Inr 0, m1)"
    "sg_pair_snapshot_clone (Ref 0) 7 m1 = (Inr 1, m2)" "live m1 0" "live m2 0" "live m2 1" by (rule tiny_life)
  note run = tiny_life_run[OF life(1-3)]
  from repairs_return[OF run life(5), of "[2, 1, 0]" 5 sg_metrics_zero] run life(5) show ?thesis by auto
qed

end
