(* ===== verification/Sync_Cache.thy ===== *)
theory Sync_Cache
  imports Sync_Snapshot_Machine
begin

text \<open>
  The cache of snapshots (src/snapshot_cache.c): a doubly linked list of entries from the newest to the
  oldest, each with a key, the size of its snapshot and a counted reference to it. The entries live in
  a heap of their own: an address is an index and a freed entry is \<open>None\<close>. The mutex makes the calls run
  one after another, which is how they are modelled; allocation succeeds. Sizes are \<open>size_t\<close>, so sums and
  differences are taken modulo \<open>2 ^ 64\<close>. A loop along the pointers is a partial function.
\<close>

section \<open>Entries and the cache\<close>

record sg_snapshot_cache_entry =
  ce_model :: string
  ce_token :: string
  ce_oracle_epoch :: "64 word"
  ce_generation :: "64 word"
  ce_bytes :: nat
  ce_snapshot :: "nat ptr"
  ce_newer :: "nat ptr"
  ce_older :: "nat ptr"

record sg_snapshot_cache =
  ca_maximum_bytes :: nat
  ca_bytes :: nat
  ca_newest :: "nat ptr"
  ca_oldest :: "nat ptr"
  ca_entries :: "sg_snapshot_cache_entry option list"

abbreviation entry_at :: "sg_snapshot_cache \<Rightarrow> nat \<Rightarrow> sg_snapshot_cache_entry" where
  "entry_at c e \<equiv> the (ca_entries c ! e)"

definition entry_update :: "nat \<Rightarrow> sg_snapshot_cache_entry option \<Rightarrow> sg_snapshot_cache \<Rightarrow> sg_snapshot_cache" where
  "entry_update e entry c = c\<lparr>ca_entries := (ca_entries c)[e := entry]\<rparr>"

definition size_minus :: "nat \<Rightarrow> nat \<Rightarrow> nat" where
  "size_minus x y = (x + (2 ^ 64 - y)) mod 2 ^ 64"

section \<open>The list of entries\<close>

definition sg_cache_entry_free ::
  "nat ptr \<Rightarrow> sg_snapshot_cache \<Rightarrow> sg_snapshot_memory \<Rightarrow> sg_snapshot_cache \<times> sg_snapshot_memory" where
  "sg_cache_entry_free entry c m =
     (case entry of
        NULL \<Rightarrow> (c, m)
      | Ref e \<Rightarrow> (entry_update e None c, sg_pair_snapshot_release (ce_snapshot (entry_at c e)) m))"

definition sg_cache_unlink :: "nat \<Rightarrow> sg_snapshot_cache \<Rightarrow> sg_snapshot_cache" where
  "sg_cache_unlink e c =
     (let c = (case ce_newer (entry_at c e) of
                 Ref newer \<Rightarrow> entry_update newer (Some ((entry_at c newer)\<lparr>ce_older := ce_older (entry_at c e)\<rparr>)) c
               | NULL \<Rightarrow> c\<lparr>ca_newest := ce_older (entry_at c e)\<rparr>);
          c = (case ce_older (entry_at c e) of
                 Ref older \<Rightarrow> entry_update older (Some ((entry_at c older)\<lparr>ce_newer := ce_newer (entry_at c e)\<rparr>)) c
               | NULL \<Rightarrow> c\<lparr>ca_oldest := ce_newer (entry_at c e)\<rparr>)
      in entry_update e (Some ((entry_at c e)\<lparr>ce_newer := NULL, ce_older := NULL\<rparr>)) c)"

definition sg_cache_link_newest :: "nat \<Rightarrow> sg_snapshot_cache \<Rightarrow> sg_snapshot_cache" where
  "sg_cache_link_newest e c =
     (let c = entry_update e (Some ((entry_at c e)\<lparr>ce_newer := NULL, ce_older := ca_newest c\<rparr>)) c;
          c = (case ca_newest c of
                 Ref newest \<Rightarrow> entry_update newest (Some ((entry_at c newest)\<lparr>ce_newer := Ref e\<rparr>)) c
               | NULL \<Rightarrow> c\<lparr>ca_oldest := Ref e\<rparr>)
      in c\<lparr>ca_newest := Ref e\<rparr>)"

definition sg_cache_pop_oldest :: "sg_snapshot_cache \<Rightarrow> nat ptr \<times> sg_snapshot_cache" where
  "sg_cache_pop_oldest c =
     (case ca_oldest c of
        NULL \<Rightarrow> (NULL, c)
      | Ref e \<Rightarrow>
          let c = c\<lparr>ca_oldest := ce_newer (entry_at c e)\<rparr>;
              c = (case ca_oldest c of
                     Ref oldest \<Rightarrow> entry_update oldest (Some ((entry_at c oldest)\<lparr>ce_older := NULL\<rparr>)) c
                   | NULL \<Rightarrow> c\<lparr>ca_newest := NULL\<rparr>)
          in (Ref e, entry_update e (Some ((entry_at c e)\<lparr>ce_newer := NULL, ce_older := NULL\<rparr>)) c))"

definition sg_cache_key_equal ::
  "sg_snapshot_cache_entry \<Rightarrow> string \<Rightarrow> 64 word \<Rightarrow> 64 word \<Rightarrow> string \<Rightarrow> bool" where
  "sg_cache_key_equal entry model oracle_epoch generation token \<longleftrightarrow>
     ce_oracle_epoch entry = oracle_epoch \<and> ce_generation entry = generation \<and>
     ce_model entry = model \<and> ce_token entry = token"

text \<open>The loop that looks for a key, used by \<open>lookup\<close> and \<open>insert\<close>.\<close>

partial_function (option) sg_cache_find ::
  "sg_snapshot_cache \<Rightarrow> string \<Rightarrow> 64 word \<Rightarrow> 64 word \<Rightarrow> string \<Rightarrow> nat ptr \<Rightarrow> nat ptr option" where
  "sg_cache_find c model oracle_epoch generation token entry =
     (case entry of
        NULL \<Rightarrow> Some NULL
      | Ref e \<Rightarrow>
          if sg_cache_key_equal (entry_at c e) model oracle_epoch generation token then Some (Ref e)
          else sg_cache_find c model oracle_epoch generation token (ce_older (entry_at c e)))"

section \<open>The operations\<close>

definition sg_snapshot_cache_create :: "nat \<Rightarrow> sg_snapshot_cache res" where
  "sg_snapshot_cache_create maximum_bytes =
     Inr \<lparr>ca_maximum_bytes = maximum_bytes, ca_bytes = 0, ca_newest = NULL, ca_oldest = NULL, ca_entries = []\<rparr>"

partial_function (option) sg_cache_free_loop ::
  "nat ptr \<Rightarrow> sg_snapshot_cache \<Rightarrow> sg_snapshot_memory \<Rightarrow> (sg_snapshot_cache \<times> sg_snapshot_memory) option" where
  "sg_cache_free_loop entry c m =
     (case entry of
        NULL \<Rightarrow> Some (c, m)
      | Ref e \<Rightarrow>
          let older = ce_older (entry_at c e); (c, m) = sg_cache_entry_free entry c m
          in sg_cache_free_loop older c m)"

definition sg_snapshot_cache_free ::
  "sg_snapshot_cache ptr \<Rightarrow> sg_snapshot_memory \<Rightarrow> sg_snapshot_memory option" where
  "sg_snapshot_cache_free cache m =
     (case cache of
        NULL \<Rightarrow> Some m
      | Ref c \<Rightarrow>
          let entry = ca_newest c; c = c\<lparr>ca_newest := NULL, ca_oldest := NULL, ca_bytes := 0\<rparr>
          in map_option snd (sg_cache_free_loop entry c m))"

definition sg_snapshot_cache_lookup ::
  "sg_snapshot_cache ptr \<Rightarrow> string ptr \<Rightarrow> 64 word \<Rightarrow> 64 word \<Rightarrow> string ptr \<Rightarrow> sg_snapshot_memory \<Rightarrow>
     (nat ptr \<times> sg_snapshot_cache ptr \<times> sg_snapshot_memory) option" where
  "sg_snapshot_cache_lookup cache model oracle_epoch generation token m =
     (case (cache, model, token) of
        (Ref c, Ref model, Ref token) \<Rightarrow>
          (case sg_cache_find c model oracle_epoch generation token (ca_newest c) of
             None \<Rightarrow> None
           | Some NULL \<Rightarrow> Some (NULL, Ref c, m)
           | Some (Ref e) \<Rightarrow>
               let c = (if ca_newest c \<noteq> Ref e then sg_cache_link_newest e (sg_cache_unlink e c) else c);
                   snapshot = ce_snapshot (entry_at c e)
               in Some (snapshot, Ref c, sg_pair_snapshot_retain snapshot m))
      | _ \<Rightarrow> Some (NULL, cache, m))"

text \<open>The loop that makes room.\<close>

partial_function (option) sg_cache_evict ::
  "nat \<Rightarrow> sg_snapshot_cache \<Rightarrow> sg_snapshot_memory \<Rightarrow> (sg_snapshot_cache \<times> sg_snapshot_memory) option" where
  "sg_cache_evict remaining_bytes c m =
     (if ca_bytes c > remaining_bytes \<and> ca_oldest c \<noteq> NULL
      then (case sg_cache_pop_oldest c of
              (NULL, c) \<Rightarrow> Some (c, m)
            | (Ref evicted, c) \<Rightarrow>
                let c = c\<lparr>ca_bytes := size_minus (ca_bytes c) (ce_bytes (entry_at c evicted))\<rparr>;
                    (c, m) = sg_cache_entry_free (Ref evicted) c m
                in sg_cache_evict remaining_bytes c m)
      else Some (c, m))"

definition sg_snapshot_cache_insert ::
  "sg_snapshot_cache ptr \<Rightarrow> string ptr \<Rightarrow> 64 word \<Rightarrow> 64 word \<Rightarrow> string ptr \<Rightarrow> nat ptr \<Rightarrow> bool ptr \<Rightarrow>
     sg_snapshot_memory \<Rightarrow> (sg_status \<times> bool ptr \<times> sg_snapshot_cache ptr \<times> sg_snapshot_memory) option" where
  "sg_snapshot_cache_insert cache model oracle_epoch generation token snapshot stored m =
     (case (cache, model, token, snapshot, stored) of
        (Ref c, Ref model, Ref token, Ref _, Ref _) \<Rightarrow>
          let bytes = sg_pair_snapshot_memory_bytes snapshot m
          in if ca_maximum_bytes c = 0 \<or> bytes > ca_maximum_bytes c then Some (SG_OK, Ref False, Ref c, m)
             else let created = length (ca_entries c);
                      c = c\<lparr>ca_entries := ca_entries c @
                        [Some \<lparr>ce_model = model, ce_token = token, ce_oracle_epoch = oracle_epoch,
                               ce_generation = generation, ce_bytes = bytes, ce_snapshot = snapshot,
                               ce_newer = NULL, ce_older = NULL\<rparr>]\<rparr>;
                      m = sg_pair_snapshot_retain snapshot m
                  in (case sg_cache_find c model oracle_epoch generation token (ca_newest c) of
                        None \<Rightarrow> None
                      | Some existing \<Rightarrow>
                          let c = (case existing of
                                     NULL \<Rightarrow> c
                                   | Ref e \<Rightarrow>
                                       let c = sg_cache_unlink e c
                                       in c\<lparr>ca_bytes := size_minus (ca_bytes c) (ce_bytes (entry_at c e))\<rparr>);
                              remaining_bytes = size_minus (ca_maximum_bytes c) (ce_bytes (entry_at c created))
                          in (case sg_cache_evict remaining_bytes c m of
                                None \<Rightarrow> None
                              | Some (c, m) \<Rightarrow>
                                  let c = sg_cache_link_newest created c;
                                      c = c\<lparr>ca_bytes := (ca_bytes c + ce_bytes (entry_at c created)) mod 2 ^ 64\<rparr>;
                                      (c, m) = sg_cache_entry_free existing c m
                                  in Some (SG_OK, Ref True, Ref c, m)))
      | _ \<Rightarrow> Some (SG_ERR_INVALID_ARGUMENT, stored, cache, m))"

definition sg_snapshot_cache_bytes :: "sg_snapshot_cache ptr \<Rightarrow> nat" where
  "sg_snapshot_cache_bytes cache = (case cache of NULL \<Rightarrow> 0 | Ref c \<Rightarrow> ca_bytes c)"

end
