(* ===== verification/Sync_Cache_Lru.thy ===== *)
theory Sync_Cache_Lru
  imports Sync_Cache
begin

text \<open>
  The cache refines a list of items, the newest first: a hit moves its item to the front, an insertion
  replaces the item with the same key and drops the oldest ones until the sizes fit. The pointers are
  described by segments of a doubly linked list.
\<close>

section \<open>Segments\<close>

text \<open>
  From \<open>x\<close> the pointers \<open>f\<close> lead through the addresses to \<open>q\<close>; the pointers \<open>g\<close> lead back from the last
  one, \<open>y\<close>, to \<open>p\<close>.
\<close>

primrec seg ::
  "(nat \<Rightarrow> nat ptr) \<Rightarrow> (nat \<Rightarrow> nat ptr) \<Rightarrow> nat ptr \<Rightarrow> nat ptr \<Rightarrow> nat list \<Rightarrow> nat ptr \<Rightarrow> nat ptr \<Rightarrow> bool" where
  "seg f g p x [] q y \<longleftrightarrow> x = q \<and> y = p"
| "seg f g p x (e # es) q y \<longleftrightarrow> x = Ref e \<and> g e = p \<and> seg f g (Ref e) (f e) es q y"

lemma seg_append: "seg f g p x (as @ bs) q y \<longleftrightarrow> (\<exists>u v. seg f g p x as u v \<and> seg f g v u bs q y)"
  by (induction as arbitrary: p x) auto

lemma seg_cong: "(\<And>e. e \<in> set es \<Longrightarrow> f e = f' e \<and> g e = g' e) \<Longrightarrow> seg f g p x es q y = seg f' g' p x es q y"
  by (induction es arbitrary: p x) auto

lemma seg_first: "seg f g p x es q y \<Longrightarrow> x = (if es = [] then q else Ref (hd es))"
  by (cases es) auto

lemma seg_last: "seg f g p x es q y \<Longrightarrow> y = (if es = [] then p else Ref (last es))"
  by (induction es arbitrary: p x) auto

lemma seg_relink_last:
  assumes "seg f g p x es q y" "distinct es" "es \<noteq> []"
  shows "seg (f(last es := q')) g p x es q' y"
proof -
  obtain as e where es: "es = as @ [e]" using assms(3) by (metis rev_exhaust)
  with assms(1) obtain u v where seg: "seg f g p x as u v" "u = Ref e" "g e = v" "y = Ref e"
    by (auto simp: seg_append)
  moreover have "seg (f(e := q')) g p x as u v"
    using seg(1) assms(2) es by (subst seg_cong[of as _ f _ g]) auto
  ultimately show ?thesis by (auto simp: es seg_append)
qed

lemma seg_relink_first:
  assumes "seg f g p x es q y" "distinct es" "es \<noteq> []"
  shows "seg f (g(hd es := p')) p' x es q y"
proof -
  obtain e bs where es: "es = e # bs" using assms(3) by (cases es) auto
  with assms(1,2) have "seg f g (Ref e) (f e) bs q y" "e \<notin> set bs" "x = Ref e" by auto
  moreover from this have "seg f (g(e := p')) (Ref e) (f e) bs q y"
    by (subst seg_cong[of bs _ f _ g]) auto
  ultimately show ?thesis by (simp add: es)
qed

section \<open>The links of a cache\<close>

definition alive :: "sg_snapshot_cache \<Rightarrow> nat \<Rightarrow> bool" where
  "alive c e \<longleftrightarrow> e < length (ca_entries c) \<and> ca_entries c ! e \<noteq> None"

definition older_of :: "sg_snapshot_cache \<Rightarrow> nat \<Rightarrow> nat ptr" where
  "older_of c e = ce_older (entry_at c e)"

definition newer_of :: "sg_snapshot_cache \<Rightarrow> nat \<Rightarrow> nat ptr" where
  "newer_of c e = ce_newer (entry_at c e)"

definition linked :: "sg_snapshot_cache \<Rightarrow> nat list \<Rightarrow> bool" where
  "linked c es \<longleftrightarrow> distinct es \<and> (\<forall>e \<in> set es. alive c e) \<and>
     seg (older_of c) (newer_of c) NULL (ca_newest c) es NULL (ca_oldest c)"

text \<open>What an entry holds apart from its links.\<close>

record lru_item =
  li_key :: "string \<times> 64 word \<times> 64 word \<times> string"
  li_bytes :: nat
  li_snapshot :: "nat ptr"

definition item_of :: "sg_snapshot_cache \<Rightarrow> nat \<Rightarrow> lru_item" where
  "item_of c e = (let entry = entry_at c e
     in \<lparr>li_key = (ce_model entry, ce_oracle_epoch entry, ce_generation entry, ce_token entry),
         li_bytes = ce_bytes entry, li_snapshot = ce_snapshot entry\<rparr>)"

text \<open>From \<open>c\<close> to \<open>c'\<close> the entries \<open>D\<close> are freed; the others keep their items.\<close>

definition entries_kept :: "nat set \<Rightarrow> sg_snapshot_cache \<Rightarrow> sg_snapshot_cache \<Rightarrow> bool" where
  "entries_kept D c c' \<longleftrightarrow> ca_maximum_bytes c' = ca_maximum_bytes c \<and>
     (\<forall>e. alive c' e \<longleftrightarrow> alive c e \<and> e \<notin> D) \<and> (\<forall>e. alive c' e \<longrightarrow> item_of c' e = item_of c e)"

lemma entries_kept_refl [simp]: "entries_kept {} c c"
  by (simp add: entries_kept_def)

lemma entries_kept_trans: "entries_kept D c c1 \<Longrightarrow> entries_kept D' c1 c2 \<Longrightarrow> entries_kept (D \<union> D') c c2"
  by (auto simp: entries_kept_def)

lemma items_kept:
  "entries_kept D c c' \<Longrightarrow> \<forall>e \<in> set es. alive c' e \<Longrightarrow> map (item_of c') es = map (item_of c) es"
  by (simp add: entries_kept_def)

lemma links_fields [simp]:
  "alive (c\<lparr>ca_newest := x\<rparr>) = alive c" "alive (c\<lparr>ca_oldest := x\<rparr>) = alive c" "alive (c\<lparr>ca_bytes := k\<rparr>) = alive c"
  "older_of (c\<lparr>ca_newest := x\<rparr>) = older_of c" "older_of (c\<lparr>ca_oldest := x\<rparr>) = older_of c" "older_of (c\<lparr>ca_bytes := k\<rparr>) = older_of c"
  "newer_of (c\<lparr>ca_newest := x\<rparr>) = newer_of c" "newer_of (c\<lparr>ca_oldest := x\<rparr>) = newer_of c" "newer_of (c\<lparr>ca_bytes := k\<rparr>) = newer_of c"
  "item_of (c\<lparr>ca_newest := x\<rparr>) = item_of c" "item_of (c\<lparr>ca_oldest := x\<rparr>) = item_of c" "item_of (c\<lparr>ca_bytes := k\<rparr>) = item_of c"
  by (simp_all add: alive_def older_of_def newer_of_def item_of_def fun_eq_iff)

lemma entry_update_fields [simp]:
  "ca_newest (entry_update e x c) = ca_newest c" "ca_oldest (entry_update e x c) = ca_oldest c"
  "ca_bytes (entry_update e x c) = ca_bytes c" "ca_maximum_bytes (entry_update e x c) = ca_maximum_bytes c"
  by (simp_all add: entry_update_def)

lemma entry_update_links:
  assumes "alive c n"
  shows "alive (entry_update n (Some entry) c) = alive c"
    "older_of (entry_update n (Some ((entry_at c n)\<lparr>ce_older := x\<rparr>)) c) = (older_of c)(n := x)"
    "newer_of (entry_update n (Some ((entry_at c n)\<lparr>ce_older := x\<rparr>)) c) = newer_of c"
    "item_of (entry_update n (Some ((entry_at c n)\<lparr>ce_older := x\<rparr>)) c) = item_of c"
    "older_of (entry_update n (Some ((entry_at c n)\<lparr>ce_newer := x\<rparr>)) c) = older_of c"
    "newer_of (entry_update n (Some ((entry_at c n)\<lparr>ce_newer := x\<rparr>)) c) = (newer_of c)(n := x)"
    "item_of (entry_update n (Some ((entry_at c n)\<lparr>ce_newer := x\<rparr>)) c) = item_of c"
    "older_of (entry_update n (Some ((entry_at c n)\<lparr>ce_newer := x, ce_older := y\<rparr>)) c) = (older_of c)(n := y)"
    "newer_of (entry_update n (Some ((entry_at c n)\<lparr>ce_newer := x, ce_older := y\<rparr>)) c) = (newer_of c)(n := x)"
    "item_of (entry_update n (Some ((entry_at c n)\<lparr>ce_newer := x, ce_older := y\<rparr>)) c) = item_of c"
  using assms
  by (auto simp: alive_def older_of_def newer_of_def item_of_def entry_update_def fun_eq_iff nth_list_update Let_def)

text \<open>The three operations on the list.\<close>

lemma unlink_linked:
  assumes "linked c (as @ e # bs)"
  shows "linked (sg_cache_unlink e c) (as @ bs) \<and> entries_kept {} c (sg_cache_unlink e c) \<and>
    ca_bytes (sg_cache_unlink e c) = ca_bytes c"
proof -
  define f where "f = older_of c"
  define g where "g = newer_of c"
  from assms obtain v where as: "seg f g NULL (ca_newest c) as (Ref e) v" and ev: "g e = v"
    and bs: "seg f g (Ref e) (f e) bs NULL (ca_oldest c)" and dist: "distinct (as @ e # bs)"
    and alive: "\<forall>n \<in> set (as @ e # bs). alive c n"
    by (auto simp: linked_def seg_append f_def g_def)
  have v: "v = (if as = [] then NULL else Ref (last as))" by (rule seg_last[OF as])
  have w: "f e = (if bs = [] then NULL else Ref (hd bs))" by (rule seg_first[OF bs])
  define c1 where "c1 = (case v of
      Ref newer \<Rightarrow> entry_update newer (Some ((entry_at c newer)\<lparr>ce_older := f e\<rparr>)) c
    | NULL \<Rightarrow> c\<lparr>ca_newest := f e\<rparr>)"
  have ne: "as \<noteq> [] \<Longrightarrow> last as \<in> set as" "bs \<noteq> [] \<Longrightarrow> hd bs \<in> set bs" by simp_all
  have disjoint: "set as \<inter> set bs = {}" "e \<notin> set as" "e \<notin> set bs" using dist by auto
  have apart: "as \<noteq> [] \<Longrightarrow> last as \<notin> set bs \<and> last as \<noteq> e" "bs \<noteq> [] \<Longrightarrow> hd bs \<notin> set as \<and> hd bs \<noteq> e"
    using disjoint ne by blast+
  have c1: "older_of c1 = (if as = [] then f else f(last as := f e))" "newer_of c1 = g" "alive c1 = alive c"
    "item_of c1 = item_of c" "ca_bytes c1 = ca_bytes c" "ca_maximum_bytes c1 = ca_maximum_bytes c" "ca_oldest c1 = ca_oldest c"
    "ca_newest c1 = (if as = [] then f e else ca_newest c)"
    using alive ne(1) by (cases "as = []"; simp add: c1_def v entry_update_links f_def g_def)+
  have f1: "older_of c1 e = f e" "newer_of c1 e = v" using c1(1,2) apart(1) ev by auto
  have as1: "seg (older_of c1) (newer_of c1) NULL (ca_newest c1) as (f e) v"
    using as seg_relink_last[OF as] dist v by (cases "as = []") (simp_all add: c1)
  have bs1: "seg (older_of c1) (newer_of c1) (Ref e) (f e) bs NULL (ca_oldest c1)"
  proof -
    have "seg (older_of c1) (newer_of c1) (Ref e) (f e) bs NULL (ca_oldest c) =
        seg f g (Ref e) (f e) bs NULL (ca_oldest c)"
      using apart(1) by (intro seg_cong) (auto simp: c1)
    with bs show ?thesis by (simp add: c1)
  qed
  define c2 where "c2 = (case f e of
      Ref older \<Rightarrow> entry_update older (Some ((entry_at c1 older)\<lparr>ce_newer := v\<rparr>)) c1
    | NULL \<Rightarrow> c1\<lparr>ca_oldest := v\<rparr>)"
  have c2: "newer_of c2 = (if bs = [] then newer_of c1 else (newer_of c1)(hd bs := v))" "older_of c2 = older_of c1"
    "alive c2 = alive c" "item_of c2 = item_of c" "ca_bytes c2 = ca_bytes c" "ca_maximum_bytes c2 = ca_maximum_bytes c"
    "ca_newest c2 = ca_newest c1" "ca_oldest c2 = (if bs = [] then v else ca_oldest c1)"
    using alive ne(2) c1(3-6) by (cases "bs = []"; simp add: c2_def w entry_update_links)+
  have as2: "seg (older_of c2) (newer_of c2) NULL (ca_newest c2) as (f e) v"
  proof -
    have "seg (older_of c2) (newer_of c2) NULL (ca_newest c2) as (f e) v =
        seg (older_of c1) (newer_of c1) NULL (ca_newest c1) as (f e) v"
      unfolding c2(7) using apart(2) by (intro seg_cong) (auto simp: c2)
    with as1 show ?thesis by simp
  qed
  have bs2: "seg (older_of c2) (newer_of c2) v (f e) bs NULL (ca_oldest c2)"
    using bs1 seg_relink_first[OF bs1] dist w by (cases "bs = []") (simp_all add: c2)
  have fold: "sg_cache_unlink e c = entry_update e (Some ((entry_at c2 e)\<lparr>ce_newer := NULL, ce_older := NULL\<rparr>)) c2"
    unfolding sg_cache_unlink_def Let_def older_of_def[symmetric] newer_of_def[symmetric]
      f_def[symmetric] g_def[symmetric] ev c1_def[symmetric] f1 c2_def[symmetric] by (rule refl)
  have e: "alive c2 e" using alive c2(3) by simp
  note u = entry_update_links[OF e]
  have "seg (older_of (sg_cache_unlink e c)) (newer_of (sg_cache_unlink e c)) NULL (ca_newest c2) (as @ bs) NULL (ca_oldest c2) =
      seg (older_of c2) (newer_of c2) NULL (ca_newest c2) (as @ bs) NULL (ca_oldest c2)"
    unfolding fold using dist by (intro seg_cong) (auto simp: u)
  with as2 bs2 have "seg (older_of (sg_cache_unlink e c)) (newer_of (sg_cache_unlink e c)) NULL (ca_newest c2) (as @ bs) NULL (ca_oldest c2)"
    by (auto simp: seg_append)
  with dist alive show ?thesis by (simp add: linked_def entries_kept_def fold u c2)
qed

lemma linked_snocD:
  assumes "linked c (as @ [e])"
  shows "ca_oldest c = Ref e" "older_of c e = NULL" "newer_of c e = (if as = [] then NULL else Ref (last as))"
    "alive c e" "e \<notin> set as"
proof -
  from assms obtain v where as: "seg (older_of c) (newer_of c) NULL (ca_newest c) as (Ref e) v" "newer_of c e = v"
    by (auto simp: linked_def seg_append)
  from assms show "ca_oldest c = Ref e" "older_of c e = NULL" "alive c e" "e \<notin> set as"
    by (auto simp: linked_def seg_append)
  show "newer_of c e = (if as = [] then NULL else Ref (last as))" using seg_last[OF as(1)] as(2) by simp
qed

text \<open>Popping the oldest entry is unlinking it.\<close>

lemma pop_oldest_unlink:
  assumes "linked c (as @ [e])"
  shows "sg_cache_pop_oldest c = (Ref e, sg_cache_unlink e c)"
proof (cases "as = []")
  case True
  with linked_snocD[OF assms] show ?thesis
    by (simp add: sg_cache_pop_oldest_def sg_cache_unlink_def Let_def older_of_def newer_of_def entry_update_def)
next
  case False
  then have ne: "last as \<noteq> e" using linked_snocD(5)[OF assms] last_in_set[OF False] by metis
  with False linked_snocD[OF assms] show ?thesis
    by (simp add: sg_cache_pop_oldest_def sg_cache_unlink_def Let_def older_of_def newer_of_def entry_update_def)
qed

lemma link_newest_linked:
  assumes linked: "linked c es" and e: "alive c e" "e \<notin> set es"
  shows "linked (sg_cache_link_newest e c) (e # es) \<and> entries_kept {} c (sg_cache_link_newest e c) \<and>
    ca_bytes (sg_cache_link_newest e c) = ca_bytes c"
proof -
  define f where "f = older_of c"
  define g where "g = newer_of c"
  from linked have seg: "seg f g NULL (ca_newest c) es NULL (ca_oldest c)" and dist: "distinct es"
    and alive: "\<forall>n \<in> set es. alive c n" by (simp_all add: linked_def f_def g_def)
  have first: "ca_newest c = (if es = [] then NULL else Ref (hd es))" by (rule seg_first[OF seg])
  define c1 where "c1 = entry_update e (Some ((entry_at c e)\<lparr>ce_newer := NULL, ce_older := ca_newest c\<rparr>)) c"
  note c1 = entry_update_links(8-10)[OF e(1), where x = NULL and y = "ca_newest c", folded c1_def f_def g_def]
    entry_update_fields[of e "Some ((entry_at c e)\<lparr>ce_newer := NULL, ce_older := ca_newest c\<rparr>)" c, folded c1_def]
  have alive1: "alive c1 = alive c" unfolding c1_def by (rule entry_update_links(1)[OF e(1)])
  have seg1: "seg (older_of c1) (newer_of c1) NULL (ca_newest c1) es NULL (ca_oldest c1)"
  proof -
    have "seg (older_of c1) (newer_of c1) NULL (ca_newest c) es NULL (ca_oldest c) =
        seg f g NULL (ca_newest c) es NULL (ca_oldest c)"
      using e(2) by (intro seg_cong) (auto simp: c1)
    with seg show ?thesis by (simp add: c1)
  qed
  define c2 where "c2 = (case ca_newest c1 of
      Ref newest \<Rightarrow> entry_update newest (Some ((entry_at c1 newest)\<lparr>ce_newer := Ref e\<rparr>)) c1
    | NULL \<Rightarrow> c1\<lparr>ca_oldest := Ref e\<rparr>)"
  have newest1: "ca_newest c1 = (if es = [] then NULL else Ref (hd es))" using first by (simp add: c1)
  have c2: "newer_of c2 = (if es = [] then newer_of c1 else (newer_of c1)(hd es := Ref e))" "older_of c2 = older_of c1"
    "alive c2 = alive c" "item_of c2 = item_of c" "ca_bytes c2 = ca_bytes c" "ca_maximum_bytes c2 = ca_maximum_bytes c"
    "ca_oldest c2 = (if es = [] then Ref e else ca_oldest c1)"
    using alive by (cases "es = []"; simp add: c2_def newest1 alive1 c1 entry_update_links)+
  have seg2: "seg (older_of c2) (newer_of c2) (Ref e) (ca_newest c) es NULL (ca_oldest c2)"
    using seg1 seg_relink_first[OF seg1 dist, of "Ref e"] first by (cases "es = []") (simp_all add: c1 c2)
  have fold: "sg_cache_link_newest e c = c2\<lparr>ca_newest := Ref e\<rparr>"
    unfolding sg_cache_link_newest_def Let_def c1_def[symmetric] c2_def[symmetric] by (rule refl)
  have hd: "es \<noteq> [] \<Longrightarrow> hd es \<noteq> e" using e(2) hd_in_set by metis
  have "older_of c2 e = ca_newest c" "newer_of c2 e = NULL"
    using hd by (auto simp: c2 c1)
  with seg2 dist alive e show ?thesis by (simp add: fold linked_def entries_kept_def c2)
qed

section \<open>Looking for a key\<close>

definition cache_key :: "string \<Rightarrow> 64 word \<Rightarrow> 64 word \<Rightarrow> string \<Rightarrow> string \<times> 64 word \<times> 64 word \<times> string" where
  "cache_key model oracle_epoch generation token = (model, oracle_epoch, generation, token)"

lemma key_equal_item:
  "sg_cache_key_equal (entry_at c e) model oracle_epoch generation token \<longleftrightarrow>
     li_key (item_of c e) = cache_key model oracle_epoch generation token"
  by (auto simp: sg_cache_key_equal_def item_of_def Let_def cache_key_def)

lemma sg_cache_find_seg:
  "seg (older_of c) g p x es NULL y \<Longrightarrow>
   sg_cache_find c model oracle_epoch generation token x =
     Some (find (\<lambda>e. li_key (item_of c e) = cache_key model oracle_epoch generation token) es)"
proof (induction es arbitrary: p x)
  case Nil
  then show ?case by (subst sg_cache_find.simps) simp
next
  case (Cons e es)
  then show ?case by (subst sg_cache_find.simps) (auto simp: key_equal_item older_of_def)
qed

section \<open>References\<close>

definition refs :: "sg_snapshot_memory \<Rightarrow> nat ptr \<Rightarrow> nat" where
  "refs m s = (case s of NULL \<Rightarrow> 0 | Ref a \<Rightarrow> if live m a then sn_references (snapshot_at m a) else 0)"

lemma refs_retain:
  assumes ok: "memory_ok m" and s: "0 < refs m s"
  shows "memory_ok (sg_pair_snapshot_retain s m)" "refs (sg_pair_snapshot_retain s m) = (refs m)(s := refs m s + 1)"
proof -
  obtain a where a: "s = Ref a" "live m a" using s by (auto simp: refs_def split: option.splits if_splits)
  note retain = sg_pair_snapshot_retain_ok[OF ok a(2)]
  show "memory_ok (sg_pair_snapshot_retain s m)" using retain a by simp
  show "refs (sg_pair_snapshot_retain s m) = (refs m)(s := refs m s + 1)"
  proof
    fix t
    show "refs (sg_pair_snapshot_retain s m) t = ((refs m)(s := refs m s + 1)) t"
      using retain a by (cases t) (auto simp: refs_def untouched_def)
  qed
qed

lemma refs_release:
  assumes ok: "memory_ok m" and s: "0 < refs m s"
  shows "memory_ok (sg_pair_snapshot_release s m)" "refs (sg_pair_snapshot_release s m) = (refs m)(s := refs m s - 1)"
proof -
  obtain a where a: "s = Ref a" "live m a" using s by (auto simp: refs_def split: option.splits if_splits)
  note release = sg_pair_snapshot_release_ok[OF ok a(2)]
  show "memory_ok (sg_pair_snapshot_release s m)" using release a by simp
  show "refs (sg_pair_snapshot_release s m) = (refs m)(s := refs m s - 1)"
  proof
    fix t
    show "refs (sg_pair_snapshot_release s m) t = ((refs m)(s := refs m s - 1)) t"
      using release(2,3) a by (cases t) (auto simp: refs_def untouched_def split: if_splits)
  qed
qed

section \<open>The list of items\<close>

definition lru_total :: "lru_item list \<Rightarrow> nat" where
  "lru_total xs = sum_list (map li_bytes xs)"

definition held :: "lru_item list \<Rightarrow> nat ptr \<Rightarrow> nat" where
  "held xs s = count_list (map li_snapshot xs) s"

text \<open>A hit moves the item to the front.\<close>

definition lru_lookup :: "string \<times> 64 word \<times> 64 word \<times> string \<Rightarrow> lru_item list \<Rightarrow> nat ptr \<times> lru_item list" where
  "lru_lookup key xs =
     (case find (\<lambda>x. li_key x = key) xs of
        None \<Rightarrow> (NULL, xs)
      | Some x \<Rightarrow> (li_snapshot x, x # filter (\<lambda>y. li_key y \<noteq> key) xs))"

text \<open>The oldest items are dropped until the sizes fit.\<close>

function lru_fit :: "nat \<Rightarrow> lru_item list \<Rightarrow> lru_item list" where
  "lru_fit limit xs = (if lru_total xs \<le> limit \<or> xs = [] then xs else lru_fit limit (butlast xs))"
  by auto
termination by (relation "measure (\<lambda>(limit, xs). length xs)") auto

declare lru_fit.simps [simp del]

definition lru_insert :: "nat \<Rightarrow> lru_item \<Rightarrow> lru_item list \<Rightarrow> lru_item list" where
  "lru_insert maximum item xs =
     (if maximum = 0 \<or> li_bytes item > maximum then xs
      else item # lru_fit (maximum - li_bytes item) (filter (\<lambda>y. li_key y \<noteq> li_key item) xs))"

lemma lru_list_simps [simp]:
  "lru_total [] = 0" "lru_total (x # xs) = li_bytes x + lru_total xs" "lru_total (xs @ ys) = lru_total xs + lru_total ys"
  "held [] s = 0" "held (x # xs) s = (if li_snapshot x = s then 1 else 0) + held xs s" "held (xs @ ys) s = held xs s + held ys s"
  by (simp_all add: lru_total_def held_def)

lemma lru_fit_Nil [simp]: "lru_fit limit [] = []"
  by (simp add: lru_fit.simps)

lemma lru_fit_snoc: "lru_fit limit (xs @ [x]) = (if lru_total (xs @ [x]) \<le> limit then xs @ [x] else lru_fit limit xs)"
  by (subst lru_fit.simps) simp

lemma lru_fit_total: "lru_total (lru_fit limit xs) \<le> limit"
  by (induction xs rule: rev_induct) (simp_all add: lru_fit_snoc)

lemma find_unique:
  assumes "distinct (map h es)" "es = as @ e # bs" "h e = k"
  shows "find (\<lambda>x. h x = k) es = Some e" "filter (\<lambda>x. h x \<noteq> k) es = as @ bs"
proof -
  have "k \<notin> h ` set as" "k \<notin> h ` set bs" using assms by auto
  then have "\<forall>x \<in> set as. h x \<noteq> k" "\<forall>x \<in> set bs. h x \<noteq> k" by blast+
  then show "find (\<lambda>x. h x = k) es = Some e" "filter (\<lambda>x. h x \<noteq> k) es = as @ bs"
    unfolding assms(2) using assms(3) by (induction as) (auto simp: filter_id_conv)
qed

lemma find_key_cases:
  assumes "distinct (map h es)"
  obtains (none) "find (\<lambda>x. h x = k) es = None" "filter (\<lambda>x. h x \<noteq> k) es = es"
  | (hit) as e bs where "es = as @ e # bs" "h e = k" "find (\<lambda>x. h x = k) es = Some e" "filter (\<lambda>x. h x \<noteq> k) es = as @ bs"
proof (cases "k \<in> h ` set es")
  case True
  then obtain e where "e \<in> set es" "h e = k" by auto
  from split_list[OF this(1)] obtain as bs where "es = as @ e # bs" by auto
  from hit[OF this \<open>h e = k\<close> find_unique[OF assms this \<open>h e = k\<close>]] show ?thesis .
next
  case False
  then have "find (\<lambda>x. h x = k) es = None" "filter (\<lambda>x. h x \<noteq> k) es = es"
    by (auto simp: find_None_iff filter_id_conv)
  then show ?thesis by (rule none)
qed

lemma find_map: "find P (map f xs) = map_option f (find (\<lambda>x. P (f x)) xs)"
  by (induction xs) auto

section \<open>The refinement\<close>

text \<open>The cache \<open>c\<close> with the memory \<open>m\<close> stands for the items \<open>xs\<close>.\<close>

definition cache_rep :: "sg_snapshot_cache \<Rightarrow> sg_snapshot_memory \<Rightarrow> lru_item list \<Rightarrow> bool" where
  "cache_rep c m xs \<longleftrightarrow>
     (\<exists>es. linked c es \<and> (\<forall>e. alive c e \<longleftrightarrow> e \<in> set es) \<and> xs = map (item_of c) es) \<and>
     distinct (map li_key xs) \<and> ca_bytes c = lru_total xs \<and> lru_total xs \<le> ca_maximum_bytes c \<and>
     ca_maximum_bytes c \<le> SIZE_MAX \<and> memory_ok m \<and> (\<forall>s. held xs s \<le> refs m s)"

lemma size_minus_eq: "y \<le> x \<Longrightarrow> x \<le> SIZE_MAX \<Longrightarrow> size_minus x y = x - y"
proof -
  assume *: "y \<le> x" "x \<le> SIZE_MAX"
  then have "x + (2 ^ 64 - y) = (x - y) + 2 ^ 64" "x - y < 2 ^ 64" by (simp_all add: SIZE_MAX_def)
  then show ?thesis by (simp only: size_minus_def mod_add_self2 mod_less)
qed

lemma linked_bytes [simp]: "linked (c\<lparr>ca_bytes := k\<rparr>) es = linked c es"
  by (simp add: linked_def)

lemma entries_kept_bytes [simp]:
  "entries_kept D c (c'\<lparr>ca_bytes := k\<rparr>) = entries_kept D c c'"
  by (simp add: entries_kept_def)

lemma entry_free_facts:
  assumes e: "alive c e" and m: "memory_ok m" "0 < refs m (li_snapshot (item_of c e))"
    and free: "sg_cache_entry_free (Ref e) c m = (c', m')"
  shows "alive c' n \<longleftrightarrow> alive c n \<and> n \<noteq> e" "n \<noteq> e \<Longrightarrow> entry_at c' n = entry_at c n"
    "ca_maximum_bytes c' = ca_maximum_bytes c" "ca_newest c' = ca_newest c" "ca_oldest c' = ca_oldest c" "ca_bytes c' = ca_bytes c"
    "memory_ok m'" "refs m' s + (if li_snapshot (item_of c e) = s then 1 else 0) = refs m s"
proof -
  have c': "c' = entry_update e None c" and m': "m' = sg_pair_snapshot_release (li_snapshot (item_of c e)) m"
    using free by (auto simp: sg_cache_entry_free_def item_of_def Let_def)
  show "alive c' n \<longleftrightarrow> alive c n \<and> n \<noteq> e"
    using e by (auto simp: alive_def c' entry_update_def nth_list_update)
  show "n \<noteq> e \<Longrightarrow> entry_at c' n = entry_at c n" by (simp add: c' entry_update_def)
  show "ca_maximum_bytes c' = ca_maximum_bytes c" "ca_newest c' = ca_newest c" "ca_oldest c' = ca_oldest c" "ca_bytes c' = ca_bytes c"
    by (simp_all add: c')
  show "memory_ok m'" using refs_release(1)[OF m] by (simp add: m')
  show "refs m' s + (if li_snapshot (item_of c e) = s then 1 else 0) = refs m s"
    using refs_release(2)[OF m] m(2) by (auto simp: m')
qed

lemma entry_free_ok:
  assumes linked: "linked c es" and e: "alive c e" "e \<notin> set es"
    and m: "memory_ok m" "0 < refs m (li_snapshot (item_of c e))"
    and free: "sg_cache_entry_free (Ref e) c m = (c', m')"
  shows "linked c' es \<and> entries_kept {e} c c' \<and> ca_bytes c' = ca_bytes c \<and> memory_ok m' \<and>
    (\<forall>s. refs m' s + (if li_snapshot (item_of c e) = s then 1 else 0) = refs m s)"
proof -
  note facts = entry_free_facts[OF e(1) m free]
  have "item_of c' n = item_of c n" if "n \<noteq> e" for n by (simp add: item_of_def facts(2)[OF that])
  then have "entries_kept {e} c c'" by (auto simp: entries_kept_def facts(1,3))
  moreover have "seg (older_of c') (newer_of c') NULL (ca_newest c) es NULL (ca_oldest c) =
      seg (older_of c) (newer_of c) NULL (ca_newest c) es NULL (ca_oldest c)"
    using e(2) facts(2) by (intro seg_cong) (metis older_of_def newer_of_def)
  then have "linked c' es" using linked e(2) by (auto simp: linked_def facts(1,4,5))
  ultimately show ?thesis using facts(6-8) by simp
qed

text \<open>Freeing all entries gives back every reference.\<close>

lemma sg_cache_free_loop_ok:
  assumes "seg (older_of c) g p x es NULL y" "distinct es" "\<forall>e \<in> set es. alive c e" "memory_ok m"
    and "\<And>s. held (map (item_of c) es) s \<le> refs m s"
  shows "\<exists>c' m'. sg_cache_free_loop x c m = Some (c', m') \<and> memory_ok m' \<and>
    (\<forall>s. refs m' s + held (map (item_of c) es) s = refs m s)"
  using assms
proof (induction es arbitrary: c m p x)
  case Nil
  then have "sg_cache_free_loop x c m = Some (c, m)" by (subst sg_cache_free_loop.simps) simp
  with Nil show ?case by simp
next
  case (Cons e es)
  then have x: "x = Ref e" and rest: "seg (older_of c) g (Ref e) (older_of c e) es NULL y" and e: "alive c e" "e \<notin> set es"
    by auto
  obtain c1 m1 where free: "sg_cache_entry_free (Ref e) c m = (c1, m1)" by fastforce
  have pos: "0 < refs m (li_snapshot (item_of c e))"
    using Cons.prems(5)[of "li_snapshot (item_of c e)"] by simp
  note facts = entry_free_facts[OF e(1) Cons.prems(4) pos free]
  have at: "n \<noteq> e \<Longrightarrow> older_of c1 n = older_of c n \<and> item_of c1 n = item_of c n" for n
    by (simp add: older_of_def item_of_def facts(2))
  have "seg (older_of c1) g (Ref e) (older_of c e) es NULL y = seg (older_of c) g (Ref e) (older_of c e) es NULL y"
    using at e(2) by (intro seg_cong) metis
  with rest have rest1: "seg (older_of c1) g (Ref e) (older_of c e) es NULL y" by simp
  have items: "map (item_of c1) es = map (item_of c) es" using at e(2) by (intro map_cong refl) metis
  have "held (map (item_of c1) es) s \<le> refs m1 s" for s
    using Cons.prems(5)[of s] facts(8)[of s] unfolding items by (simp split: if_splits)
  moreover have "\<forall>n \<in> set es. alive c1 n" using Cons.prems(3) facts(1) e(2) by auto
  ultimately obtain c' m' where IH: "sg_cache_free_loop (older_of c e) c1 m1 = Some (c', m')" "memory_ok m'"
    "\<And>s. refs m' s + held (map (item_of c1) es) s = refs m1 s"
    using Cons.IH[OF rest1 _ _ facts(7)] Cons.prems(2) by auto
  have "sg_cache_free_loop x c m = Some (c', m')"
    using IH(1) free by (subst sg_cache_free_loop.simps) (simp add: x older_of_def)
  moreover have "refs m' s + held (map (item_of c) (e # es)) s = refs m s" for s
    using IH(3)[of s] facts(8)[of s] unfolding items by simp
  ultimately show ?case using IH(2) by blast
qed

lemma sg_cache_evict_ok:
  assumes "linked c es" "memory_ok m" "\<And>s. held (map (item_of c) es) s \<le> refs m s"
    and "ca_bytes c = lru_total (map (item_of c) es)" "ca_bytes c \<le> SIZE_MAX"
  shows "\<exists>c' m' keep. sg_cache_evict limit c m = Some (c', m') \<and> set keep \<subseteq> set es \<and> linked c' keep \<and>
    entries_kept (set es - set keep) c c' \<and> map (item_of c) keep = lru_fit limit (map (item_of c) es) \<and>
    ca_bytes c' = lru_total (map (item_of c) keep) \<and> memory_ok m' \<and>
    (\<forall>s. refs m' s + held (map (item_of c) es) s = refs m s + held (map (item_of c) keep) s)"
  using assms
proof (induction es arbitrary: c m rule: rev_induct)
  case Nil
  then have "ca_oldest c = NULL" by (simp add: linked_def)
  then have run: "sg_cache_evict limit c m = Some (c, m)" by (subst sg_cache_evict.simps) simp
  from Nil show ?case by (intro exI[of _ c] exI[of _ m] exI[of _ "[]"]) (simp add: run)
next
  case (snoc e es)
  note last = linked_snocD[OF snoc.prems(1)]
  show ?case
  proof (cases "ca_bytes c \<le> limit")
    case True
    then have run: "sg_cache_evict limit c m = Some (c, m)" by (subst sg_cache_evict.simps) simp
    from True snoc.prems show ?thesis
      by (intro exI[of _ c] exI[of _ m] exI[of _ "es @ [e]"]) (simp add: run lru_fit_snoc)
  next
    case False
    define c1 where "c1 = sg_cache_unlink e c"
    from unlink_linked[of c es e "[]"] snoc.prems(1)
    have linked1: "linked c1 es" and kept1: "entries_kept {} c c1" and bytes1: "ca_bytes c1 = ca_bytes c"
      by (simp_all add: c1_def)
    have alive1: "alive c1 = alive c" and item1: "alive c x \<Longrightarrow> item_of c1 x = item_of c x" for x
      using kept1 by (auto simp: entries_kept_def fun_eq_iff)
    have e1: "alive c1 e" "item_of c1 e = item_of c e" using last(4) alive1 item1 by simp_all
    define c2 where "c2 = c1\<lparr>ca_bytes := size_minus (ca_bytes c1) (ce_bytes (entry_at c1 e))\<rparr>"
    have "ce_bytes (entry_at c1 e) = li_bytes (item_of c e)" unfolding e1(2)[symmetric] by (simp add: item_of_def Let_def)
    then have bytes2: "ca_bytes c2 = lru_total (map (item_of c) es)"
      using snoc.prems(4,5) bytes1 by (simp add: c2_def size_minus_eq)
    obtain c3 m3 where free: "sg_cache_entry_free (Ref e) c2 m = (c3, m3)" by fastforce
    have pos: "0 < refs m (li_snapshot (item_of c2 e))"
      using snoc.prems(3)[of "li_snapshot (item_of c e)"] e1 by (simp add: c2_def)
    have linked2: "linked c2 es" and alive2: "alive c2 e" using linked1 e1 by (simp_all add: c2_def)
    note f = entry_free_ok[OF linked2 alive2 last(5) snoc.prems(2) pos free]
    have kept2: "entries_kept {} c c2" using kept1 by (simp add: c2_def)
    have kept3: "entries_kept {e} c c3" using entries_kept_trans[OF kept2, of "{e}" c3] f by simp
    have "\<forall>x \<in> set es. alive c3 x" using f by (simp add: linked_def)
    note items3 = items_kept[OF kept3 this]
    have run: "sg_cache_evict limit c m = sg_cache_evict limit c3 m3"
      using False last(1) pop_oldest_unlink[OF snoc.prems(1)] free
      by (subst sg_cache_evict.simps) (simp add: c1_def[symmetric] c2_def[symmetric] Let_def)
    have refs3: "refs m3 s + (if li_snapshot (item_of c e) = s then 1 else 0) = refs m s" for s
      using f e1(2) by (simp add: c2_def)
    have "held (map (item_of c3) es) s \<le> refs m3 s" for s
      using snoc.prems(3)[of s] refs3[of s] unfolding items3 by (simp split: if_splits)
    moreover have "ca_bytes c3 = lru_total (map (item_of c3) es)" "ca_bytes c3 \<le> SIZE_MAX"
      using f bytes2 snoc.prems(4,5) unfolding items3 by simp_all
    ultimately obtain c' m' keep where IH: "sg_cache_evict limit c3 m3 = Some (c', m')" "set keep \<subseteq> set es" "linked c' keep"
      "entries_kept (set es - set keep) c3 c'" "map (item_of c3) keep = lru_fit limit (map (item_of c3) es)"
      "ca_bytes c' = lru_total (map (item_of c3) keep)" "memory_ok m'"
      "\<forall>s. refs m' s + held (map (item_of c3) es) s = refs m3 s + held (map (item_of c3) keep) s"
      using snoc.IH[of c3 m3] f by blast
    have "\<forall>x \<in> set keep. alive c3 x" using IH(2) f by (auto simp: linked_def)
    note keep3 = items_kept[OF kept3 this]
    have "entries_kept (set (es @ [e]) - set keep) c c'"
    proof -
      have "{e} \<union> (set es - set keep) = set (es @ [e]) - set keep" using IH(2) last(5) by auto
      with entries_kept_trans[OF kept3 IH(4)] show ?thesis by simp
    qed
    moreover have "lru_fit limit (map (item_of c) (es @ [e])) = lru_fit limit (map (item_of c) es)"
      using False snoc.prems(4) by (simp add: lru_fit_snoc)
    moreover have "refs m' s + held (map (item_of c) (es @ [e])) s = refs m s + held (map (item_of c) keep) s" for s
      using spec[OF IH(8), of s] refs3[of s] unfolding items3 keep3 by simp
    ultimately show ?thesis
      using IH(1-3,5-7) unfolding run items3 keep3 by (intro exI[of _ c'] exI[of _ m'] exI[of _ keep]) auto
  qed
qed

section \<open>The operations\<close>

lemma cache_repE:
  assumes "cache_rep c m xs"
  obtains es where "linked c es" "\<And>e. alive c e \<longleftrightarrow> e \<in> set es" "xs = map (item_of c) es"
    "distinct (map (\<lambda>e. li_key (item_of c e)) es)"
    "ca_bytes c = lru_total (map (item_of c) es)" "ca_bytes c \<le> ca_maximum_bytes c" "ca_maximum_bytes c \<le> SIZE_MAX"
    "memory_ok m" "\<And>s. held (map (item_of c) es) s \<le> refs m s"
  using assms by (auto simp: cache_rep_def comp_def)

lemma find_linked:
  assumes "linked c es"
  shows "sg_cache_find c model oracle_epoch generation token (ca_newest c) =
    Some (find (\<lambda>e. li_key (item_of c e) = cache_key model oracle_epoch generation token) es)"
  using assms by (intro sg_cache_find_seg[where g = "newer_of c" and p = NULL and y = "ca_oldest c"]) (simp add: linked_def)

lemma linked_newest: "linked c (e # es) \<Longrightarrow> ca_newest c = Ref e"
  by (simp add: linked_def)

lemma held_filter: "held (as @ x # bs) s = (if li_snapshot x = s then 1 else 0) + held (as @ bs) s"
  by simp

text \<open>Moving an entry to the front.\<close>

lemma promote_linked:
  assumes linked: "linked c (as @ e # bs)"
  defines "c' \<equiv> (if ca_newest c \<noteq> Ref e then sg_cache_link_newest e (sg_cache_unlink e c) else c)"
  shows "linked c' (e # as @ bs) \<and> entries_kept {} c c' \<and> ca_bytes c' = ca_bytes c"
proof (cases "as = []")
  case True
  with linked linked_newest[of c e bs] show ?thesis by (simp add: c'_def)
next
  case False
  then have first: "as = hd as # tl as" by simp
  have "ca_newest c = Ref (hd as)" by (rule linked_newest[of c "hd as" "tl as @ e # bs"]) (use linked first in \<open>metis append_Cons\<close>)
  moreover have dist: "distinct (as @ e # bs)" and alive: "alive c e" using linked by (auto simp: linked_def)
  then have "hd as \<noteq> e" using hd_in_set[OF False] by auto
  ultimately have c': "c' = sg_cache_link_newest e (sg_cache_unlink e c)" by (simp add: c'_def)
  note u = unlink_linked[OF linked]
  have "alive (sg_cache_unlink e c) e" "e \<notin> set (as @ bs)" using u alive dist by (auto simp: entries_kept_def)
  from link_newest_linked[OF conjunct1[OF u] this] u show ?thesis
    unfolding c' using entries_kept_trans[of "{}" c "sg_cache_unlink e c" "{}"] by auto
qed

lemma sg_snapshot_cache_lookup_ok:
  assumes rep: "cache_rep c m xs" and look: "lru_lookup (cache_key model oracle_epoch generation token) xs = (snapshot, ys)"
  shows "\<exists>c' m'. sg_snapshot_cache_lookup (Ref c) (Ref model) oracle_epoch generation (Ref token) m = Some (snapshot, Ref c', m') \<and>
    cache_rep c' m' ys \<and> ca_maximum_bytes c' = ca_maximum_bytes c \<and> ca_bytes c' = ca_bytes c \<and>
    (\<forall>s. refs m' s = refs m s + (if s = snapshot \<and> snapshot \<noteq> NULL then 1 else 0))"
proof -
  from rep obtain es where linked: "linked c es" and alive: "\<And>e. alive c e \<longleftrightarrow> e \<in> set es" and xs: "xs = map (item_of c) es"
    and keys: "distinct (map (\<lambda>e. li_key (item_of c e)) es)"
    and bytes: "ca_bytes c = lru_total (map (item_of c) es)" "ca_bytes c \<le> ca_maximum_bytes c" "ca_maximum_bytes c \<le> SIZE_MAX"
    and m: "memory_ok m" "\<And>s. held (map (item_of c) es) s \<le> refs m s" by (rule cache_repE) blast
  define key where "key = cache_key model oracle_epoch generation token"
  note found = find_linked[OF linked, of model oracle_epoch generation token, folded key_def]
  show ?thesis
  proof (rule find_key_cases[OF keys, of key])
    assume "find (\<lambda>e. li_key (item_of c e) = key) es = None"
    with look found have "snapshot = NULL" "ys = xs"
      "sg_snapshot_cache_lookup (Ref c) (Ref model) oracle_epoch generation (Ref token) m = Some (NULL, Ref c, m)"
      by (simp_all add: lru_lookup_def key_def xs find_map sg_snapshot_cache_lookup_def)
    with rep show ?thesis by auto
  next
    fix as e bs
    assume es: "es = as @ e # bs" and key: "li_key (item_of c e) = key"
      and hit: "find (\<lambda>e. li_key (item_of c e) = key) es = Some e" and rest: "filter (\<lambda>e. li_key (item_of c e) \<noteq> key) es = as @ bs"
    define c' where "c' = (if ca_newest c \<noteq> Ref e then sg_cache_link_newest e (sg_cache_unlink e c) else c)"
    note p = promote_linked[OF linked[unfolded es], folded c'_def]
    have alive': "alive c' = alive c" and "\<forall>x \<in> set (e # as @ bs). alive c' x"
      using p by (auto simp: entries_kept_def linked_def fun_eq_iff)
    then have items: "map (item_of c') (e # as @ bs) = map (item_of c) (e # as @ bs)" using p by (intro items_kept) auto
    have snap: "snapshot = li_snapshot (item_of c e)" and ys: "ys = map (item_of c) (e # as @ bs)"
      using look hit rest by (simp_all add: lru_lookup_def key_def[symmetric] xs find_map filter_map comp_def)
    have at: "ce_snapshot (entry_at c' e) = snapshot" using items by (simp add: snap item_of_def Let_def)
    define m' where "m' = sg_pair_snapshot_retain snapshot m"
    have run: "sg_snapshot_cache_lookup (Ref c) (Ref model) oracle_epoch generation (Ref token) m = Some (snapshot, Ref c', m')"
      using found hit by (simp add: sg_snapshot_cache_lookup_def c'_def[symmetric] Let_def at m'_def key_def)
    have pos: "0 < refs m snapshot" using m(2)[of snapshot] by (simp add: es snap)
    note r = refs_retain[OF m(1) pos, folded m'_def]
    have "distinct (map li_key ys)" using keys by (auto simp: ys es comp_def)
    moreover have "held ys s \<le> refs m' s" for s
    proof -
      have "held ys s = held (map (item_of c) es) s" by (simp add: ys es)
      also have "\<dots> \<le> refs m s" by (rule m(2))
      also have "\<dots> \<le> refs m' s" by (simp add: r(2))
      finally show ?thesis .
    qed
    moreover have "ca_bytes c' = lru_total ys" using p bytes by (simp add: ys es)
    moreover have "linked c' (e # as @ bs) \<and> (\<forall>x. alive c' x \<longleftrightarrow> x \<in> set (e # as @ bs)) \<and> ys = map (item_of c') (e # as @ bs)"
      using p items alive alive' by (auto simp: ys es)
    ultimately have "cache_rep c' m' ys"
      using p bytes r(1) by (auto simp: cache_rep_def entries_kept_def)
    moreover have "snapshot \<noteq> NULL" using pos by (cases snapshot) (simp_all add: refs_def)
    ultimately show ?thesis using run p r(2) by (intro exI[of _ c'] exI[of _ m']) (simp add: entries_kept_def)
  qed
qed

text \<open>Adding an entry to the heap, and unlinking the one with the same key.\<close>

lemma created_entry:
  fixes c :: sg_snapshot_cache and entry :: sg_snapshot_cache_entry
  defines "c' \<equiv> c\<lparr>ca_entries := ca_entries c @ [Some entry]\<rparr>" and "created \<equiv> length (ca_entries c)"
  shows "alive c' e \<longleftrightarrow> alive c e \<or> e = created" "\<not> alive c created" "alive c e \<Longrightarrow> item_of c' e = item_of c e"
    "item_of c' created = \<lparr>li_key = (ce_model entry, ce_oracle_epoch entry, ce_generation entry, ce_token entry),
         li_bytes = ce_bytes entry, li_snapshot = ce_snapshot entry\<rparr>"
    "linked c es \<Longrightarrow> linked c' es" "ca_newest c' = ca_newest c"
proof -
  have at: "entry_at c' e = entry_at c e" if "alive c e" for e using that by (simp add: c'_def alive_def nth_append)
  show alive: "alive c' e \<longleftrightarrow> alive c e \<or> e = created" for e by (auto simp: c'_def created_def alive_def nth_append)
  show "\<not> alive c created" by (simp add: created_def alive_def)
  show "alive c e \<Longrightarrow> item_of c' e = item_of c e" by (simp add: item_of_def at)
  show "item_of c' created = \<lparr>li_key = (ce_model entry, ce_oracle_epoch entry, ce_generation entry, ce_token entry),
         li_bytes = ce_bytes entry, li_snapshot = ce_snapshot entry\<rparr>"
    by (simp add: item_of_def c'_def created_def)
  show newest: "ca_newest c' = ca_newest c" by (simp add: c'_def)
  assume l: "linked c es"
  then have "seg (older_of c') (newer_of c') NULL (ca_newest c) es NULL (ca_oldest c) =
      seg (older_of c) (newer_of c) NULL (ca_newest c) es NULL (ca_oldest c)"
    by (intro seg_cong) (auto simp: linked_def older_of_def newer_of_def at)
  with l show "linked c' es" by (auto simp: linked_def alive newest) (simp add: c'_def)
qed

lemma remove_existing:
  assumes linked: "linked c es" and keys: "distinct (map (\<lambda>e. li_key (item_of c e)) es)"
    and bytes: "ca_bytes c = lru_total (map (item_of c) es)" "ca_bytes c \<le> SIZE_MAX"
    and existing: "find (\<lambda>e. li_key (item_of c e) = key) es = existing"
  defines "c' \<equiv> (case existing of NULL \<Rightarrow> c
     | Ref e \<Rightarrow> let c = sg_cache_unlink e c in c\<lparr>ca_bytes := size_minus (ca_bytes c) (ce_bytes (entry_at c e))\<rparr>)"
    and "rest \<equiv> filter (\<lambda>e. li_key (item_of c e) \<noteq> key) es"
  shows "linked c' rest \<and> entries_kept {} c c' \<and> ca_bytes c' = lru_total (map (item_of c) rest) \<and>
    (case existing of NULL \<Rightarrow> rest = es
     | Ref e \<Rightarrow> set es = insert e (set rest) \<and> e \<notin> set rest \<and>
         (\<forall>s. held (map (item_of c) es) s = held (map (item_of c) rest) s + (if li_snapshot (item_of c e) = s then 1 else 0)))"
proof (rule find_key_cases[OF keys, of key])
  assume "find (\<lambda>e. li_key (item_of c e) = key) es = None" "filter (\<lambda>e. li_key (item_of c e) \<noteq> key) es = es"
  with assms show ?thesis by (simp add: c'_def rest_def)
next
  fix as e bs
  assume es: "es = as @ e # bs" and "li_key (item_of c e) = key"
    and hit: "find (\<lambda>e. li_key (item_of c e) = key) es = Some e" and "filter (\<lambda>e. li_key (item_of c e) \<noteq> key) es = as @ bs"
  then have rest: "rest = as @ bs" and ex: "existing = Ref e" using existing by (simp_all add: rest_def)
  note u = unlink_linked[OF linked[unfolded es]]
  have "alive c e" "e \<notin> set rest" using linked by (auto simp: linked_def es rest)
  then have "item_of (sg_cache_unlink e c) e = item_of c e" using u by (auto simp: entries_kept_def)
  then have "ce_bytes (entry_at (sg_cache_unlink e c) e) = li_bytes (item_of c e)"
    by (metis item_of_def lru_item.select_convs(2))
  then have c': "c' = (sg_cache_unlink e c)\<lparr>ca_bytes := lru_total (map (item_of c) rest)\<rparr>"
    using bytes u by (simp add: c'_def ex Let_def size_minus_eq es rest)
  with u \<open>e \<notin> set rest\<close> show ?thesis by (simp add: ex es rest)
qed

lemma held_subset_pos: "x \<in> set xs \<Longrightarrow> 0 < held xs (li_snapshot x)"
  by (induction xs) auto

lemma filter_total:
  "lru_total (map f (filter P es)) \<le> lru_total (map f es)" "held (map f (filter P es)) s \<le> held (map f es) s"
  by (induction es) auto

text \<open>What the entry with the same key contributes.\<close>

definition replaced :: "sg_snapshot_cache \<Rightarrow> nat list \<Rightarrow> nat list \<Rightarrow> nat ptr \<Rightarrow> bool" where
  "replaced c es rest existing \<longleftrightarrow>
     (case existing of NULL \<Rightarrow> rest = es
      | Ref e \<Rightarrow> set es = insert e (set rest) \<and> e \<notin> set rest \<and>
          (\<forall>s. held (map (item_of c) es) s = held (map (item_of c) rest) s + (if li_snapshot (item_of c e) = s then 1 else 0)))"

lemma make_room:
  assumes linked: "linked c es" and keys: "distinct (map (\<lambda>e. li_key (item_of c e)) es)"
    and bytes: "ca_bytes c = lru_total (map (item_of c) es)" "ca_bytes c \<le> SIZE_MAX"
    and m: "memory_ok m" "\<And>s. held (map (item_of c) es) s \<le> refs m s"
    and existing: "find (\<lambda>e. li_key (item_of c e) = key) es = existing"
  defines "c2 \<equiv> (case existing of NULL \<Rightarrow> c
     | Ref e \<Rightarrow> let c = sg_cache_unlink e c in c\<lparr>ca_bytes := size_minus (ca_bytes c) (ce_bytes (entry_at c e))\<rparr>)"
    and "rest \<equiv> filter (\<lambda>e. li_key (item_of c e) \<noteq> key) es"
  shows "entries_kept {} c c2 \<and> replaced c es rest existing \<and>
    (\<exists>c3 m3 keep. sg_cache_evict limit c2 m = Some (c3, m3) \<and> set keep \<subseteq> set rest \<and> linked c3 keep \<and>
      entries_kept (set rest - set keep) c c3 \<and> map (item_of c) keep = lru_fit limit (map (item_of c) rest) \<and>
      ca_bytes c3 = lru_total (map (item_of c) keep) \<and> memory_ok m3 \<and>
      (\<forall>s. refs m3 s + held (map (item_of c) rest) s = refs m s + held (map (item_of c) keep) s))"
proof -
  note removed = remove_existing[OF linked keys bytes existing, folded c2_def rest_def]
  then have kept2: "entries_kept {} c c2" and linked2: "linked c2 rest" by blast+
  have items2: "map (item_of c2) rest = map (item_of c) rest"
    using linked2 by (intro items_kept[OF kept2]) (simp add: linked_def)
  have evictable: "held (map (item_of c2) rest) s \<le> refs m s" for s
    using m(2)[of s] filter_total(2)[of "item_of c" "\<lambda>e. li_key (item_of c e) \<noteq> key" es s, folded rest_def]
    unfolding items2 by linarith
  have bytes2: "ca_bytes c2 = lru_total (map (item_of c2) rest)" "ca_bytes c2 \<le> SIZE_MAX"
    unfolding items2 using removed bytes filter_total(1)[of "item_of c" "\<lambda>e. li_key (item_of c e) \<noteq> key" es, folded rest_def]
    by simp_all
  obtain c3 m3 keep where evict: "sg_cache_evict limit c2 m = Some (c3, m3)" "set keep \<subseteq> set rest" "linked c3 keep"
    "entries_kept (set rest - set keep) c2 c3" "map (item_of c2) keep = lru_fit limit (map (item_of c2) rest)"
    "ca_bytes c3 = lru_total (map (item_of c2) keep)" "memory_ok m3"
    "\<And>s. refs m3 s + held (map (item_of c2) rest) s = refs m s + held (map (item_of c2) keep) s"
    using sg_cache_evict_ok[OF linked2 m(1) evictable bytes2] by blast
  have keep2: "map (item_of c2) keep = map (item_of c) keep"
    using linked2 evict(2) by (intro items_kept[OF kept2]) (auto simp: linked_def)
  have "entries_kept (set rest - set keep) c c3" using entries_kept_trans[OF kept2 evict(4)] by simp
  then have "\<exists>c3 m3 keep. sg_cache_evict limit c2 m = Some (c3, m3) \<and> set keep \<subseteq> set rest \<and> linked c3 keep \<and>
      entries_kept (set rest - set keep) c c3 \<and> map (item_of c) keep = lru_fit limit (map (item_of c) rest) \<and>
      ca_bytes c3 = lru_total (map (item_of c) keep) \<and> memory_ok m3 \<and>
      (\<forall>s. refs m3 s + held (map (item_of c) rest) s = refs m s + held (map (item_of c) keep) s)"
    using evict(1-3,5-8) unfolding items2 keep2 by blast
  with kept2 removed show ?thesis by (simp add: replaced_def)
qed

lemma put_newest:
  assumes alive: "\<And>e. alive c e \<longleftrightarrow> e \<in> set es \<or> e = created" and new: "created \<notin> set es" "item_of c created = item"
    and rest: "replaced c es rest existing" "set rest \<subseteq> set es" "set keep \<subseteq> set rest"
    and c3: "linked c3 keep" "entries_kept (set rest - set keep) c c3" "ca_bytes c3 = lru_total (map (item_of c) keep)"
    and m3: "memory_ok m3" "\<And>s. held (map (item_of c) es) s \<le> refs m3 s + held (map (item_of c) rest) s"
    and room: "li_bytes item + lru_total (map (item_of c) keep) \<le> SIZE_MAX"
  defines "c4 \<equiv> sg_cache_link_newest created c3"
  defines "c5 \<equiv> c4\<lparr>ca_bytes := (ca_bytes c4 + ce_bytes (entry_at c4 created)) mod 2 ^ 64\<rparr>"
  assumes free: "sg_cache_entry_free existing c5 m3 = (c6, m6)"
  shows "linked c6 (created # keep) \<and> (\<forall>e. alive c6 e \<longleftrightarrow> e \<in> set (created # keep)) \<and>
    map (item_of c6) (created # keep) = item # map (item_of c) keep \<and>
    ca_bytes c6 = li_bytes item + lru_total (map (item_of c) keep) \<and> ca_maximum_bytes c6 = ca_maximum_bytes c \<and>
    memory_ok m6 \<and> (\<forall>s. refs m6 s + held (map (item_of c) es) s = refs m3 s + held (map (item_of c) rest) s)"
proof -
  have "alive c3 created" "created \<notin> set keep" using c3(2) alive new(1) rest(2,3) by (auto simp: entries_kept_def)
  note link = link_newest_linked[OF c3(1) this, folded c4_def]
  have kept5: "entries_kept (set rest - set keep) c c5"
    using entries_kept_trans[OF c3(2), of "{}" c4] link by (simp add: c5_def)
  have linked5: "linked c5 (created # keep)" using link by (simp add: c5_def)
  then have items5: "map (item_of c5) (created # keep) = item # map (item_of c) keep"
    using items_kept[OF kept5, of "created # keep"] new(2) by (simp add: linked_def)
  have "item_of c4 created = item" using items5 by (simp add: c5_def)
  then have "ce_bytes (entry_at c4 created) = li_bytes item" by (metis item_of_def lru_item.select_convs(2))
  then have bytes5: "ca_bytes c5 = li_bytes item + lru_total (map (item_of c) keep)"
    using link c3(3) room by (simp add: c5_def SIZE_MAX_def add.commute)
  show ?thesis
  proof (cases existing)
    case None
    then have eq: "c6 = c5" "m6 = m3" and "rest = es" using free rest(1) by (simp_all add: sg_cache_entry_free_def replaced_def)
    then have "alive c5 e \<longleftrightarrow> e \<in> set (created # keep)" for e using kept5 alive rest(3) new(1) by (auto simp: entries_kept_def)
    then show ?thesis using linked5 items5 m3(1) kept5 bytes5 \<open>rest = es\<close> by (simp add: eq entries_kept_def)
  next
    case (Some e)
    with rest(1) have e: "set es = insert e (set rest)" "e \<notin> set rest"
      and held: "held (map (item_of c) es) s = held (map (item_of c) rest) s + (if li_snapshot (item_of c e) = s then 1 else 0)" for s
      by (simp_all add: replaced_def)
    have e5: "alive c5 e" "e \<notin> set (created # keep)" using kept5 alive e rest(3) new(1) by (auto simp: entries_kept_def)
    have item5: "item_of c5 e = item_of c e" using kept5 e5(1) by (simp add: entries_kept_def)
    have pos5: "0 < refs m3 (li_snapshot (item_of c5 e))"
      using m3(2)[of "li_snapshot (item_of c e)"] held[of "li_snapshot (item_of c e)"] unfolding item5 by simp
    note f = entry_free_ok[OF linked5 e5 m3(1) pos5 free[unfolded Some]]
    have "alive c6 n \<longleftrightarrow> n \<in> set (created # keep)" for n using f kept5 alive rest(3) new(1) e by (auto simp: entries_kept_def)
    moreover have "map (item_of c6) (created # keep) = map (item_of c5) (created # keep)"
      using f by (intro items_kept[of "{e}"]) (auto simp: linked_def)
    moreover have "refs m6 s + held (map (item_of c) es) s = refs m3 s + held (map (item_of c) rest) s" for s
    proof -
      have "refs m6 s + (if li_snapshot (item_of c e) = s then 1 else 0) = refs m3 s" using f item5 by simp
      with held[of s] show ?thesis by simp
    qed
    ultimately show ?thesis using f items5 kept5 bytes5 by (simp add: entries_kept_def)
  qed
qed

lemma sg_snapshot_cache_insert_ok:
  assumes rep: "cache_rep c m xs" and a: "live m a"
    and item: "item = \<lparr>li_key = cache_key model oracle_epoch generation token,
     li_bytes = sg_pair_snapshot_memory_bytes (Ref a) m, li_snapshot = Ref a\<rparr>"
    and ys: "ys = lru_insert (ca_maximum_bytes c) item xs"
  shows "\<exists>c' m'. sg_snapshot_cache_insert (Ref c) (Ref model) oracle_epoch generation (Ref token) (Ref a) (Ref flag) m =
      Some (SG_OK, Ref (ca_maximum_bytes c \<noteq> 0 \<and> li_bytes item \<le> ca_maximum_bytes c), Ref c', m') \<and>
    cache_rep c' m' ys \<and> ca_maximum_bytes c' = ca_maximum_bytes c \<and>
    (\<forall>s. refs m' s + held xs s = refs m s + held ys s)"
proof (cases "ca_maximum_bytes c = 0 \<or> li_bytes item > ca_maximum_bytes c")
  case True
  then have "sg_snapshot_cache_insert (Ref c) (Ref model) oracle_epoch generation (Ref token) (Ref a) (Ref flag) m =
      Some (SG_OK, Ref False, Ref c, m)" by (auto simp: sg_snapshot_cache_insert_def item Let_def)
  moreover have "ys = xs" using True by (auto simp: ys lru_insert_def)
  ultimately show ?thesis using rep True by auto
next
  case room: False
  from rep obtain es where linked: "linked c es" and alive: "\<And>e. alive c e \<longleftrightarrow> e \<in> set es" and xs: "xs = map (item_of c) es"
    and keys: "distinct (map (\<lambda>e. li_key (item_of c e)) es)"
    and bytes: "ca_bytes c = lru_total (map (item_of c) es)" "ca_bytes c \<le> ca_maximum_bytes c" "ca_maximum_bytes c \<le> SIZE_MAX"
    and m: "memory_ok m" "\<And>s. held (map (item_of c) es) s \<le> refs m s" by (rule cache_repE) blast
  define key where "key = cache_key model oracle_epoch generation token"
  define created where "created = length (ca_entries c)"
  define c1 where "c1 = c\<lparr>ca_entries := ca_entries c @ [Some \<lparr>ce_model = model, ce_token = token,
     ce_oracle_epoch = oracle_epoch, ce_generation = generation, ce_bytes = sg_pair_snapshot_memory_bytes (Ref a) m,
     ce_snapshot = Ref a, ce_newer = NULL, ce_older = NULL\<rparr>]\<rparr>"
  note fresh_c = created_entry(2)[of c, folded created_def]
  note new = created_entry(1,3-6)[where c = c and entry = "\<lparr>ce_model = model, ce_token = token,
     ce_oracle_epoch = oracle_epoch, ce_generation = generation, ce_bytes = sg_pair_snapshot_memory_bytes (Ref a) m,
     ce_snapshot = Ref a, ce_newer = NULL, ce_older = NULL\<rparr>", folded c1_def created_def]
  have item1: "item_of c1 created = item" by (simp add: new(3) item cache_key_def)
  have items1: "map (item_of c1) es = xs" using new(2) alive by (simp add: xs)
  have linked1: "linked c1 es" by (rule new(4)[OF linked])
  have alive1: "alive c1 e \<longleftrightarrow> e \<in> set es \<or> e = created" for e by (simp add: new(1) alive)
  have created: "created \<notin> set es" using fresh_c alive by blast
  have fields1: "ca_bytes c1 = ca_bytes c" "ca_maximum_bytes c1 = ca_maximum_bytes c" by (simp_all add: c1_def)
  define m1 where "m1 = sg_pair_snapshot_retain (Ref a) m"
  have "0 < refs m (Ref a)" using a snapshot_okD(2)[OF memory_okD(1)[OF m(1) a]] by (simp add: refs_def)
  note r1 = refs_retain[OF m(1) this, folded m1_def]
  define existing where "existing = find (\<lambda>e. li_key (item_of c1 e) = key) es"
  have found: "sg_cache_find c1 model oracle_epoch generation token (ca_newest c1) = Some existing"
    using find_linked[OF linked1] by (simp add: existing_def key_def)
  define c2 where "c2 = (case existing of NULL \<Rightarrow> c1
     | Ref e \<Rightarrow> let c = sg_cache_unlink e c1 in c\<lparr>ca_bytes := size_minus (ca_bytes c) (ce_bytes (entry_at c e))\<rparr>)"
  define rest where "rest = filter (\<lambda>e. li_key (item_of c1 e) \<noteq> key) es"
  define limit where "limit = ca_maximum_bytes c - li_bytes item"
  have keys1: "distinct (map (\<lambda>e. li_key (item_of c1 e)) es)"
    using keys items1 xs by (metis (no_types, lifting) list.map_comp comp_def map_eq_conv)
  have bytes1: "ca_bytes c1 = lru_total (map (item_of c1) es)" "ca_bytes c1 \<le> SIZE_MAX"
    unfolding items1 using bytes fields1 by (simp_all add: xs)
  have held1: "held (map (item_of c1) es) s \<le> refs m1 s" for s
    using m(2)[of s, folded xs] unfolding items1 r1(2) by auto
  from make_room[OF linked1 keys1 bytes1 r1(1) held1 existing_def[symmetric], of limit, folded c2_def rest_def]
  obtain c3 m3 keep where kept2: "entries_kept {} c1 c2" and replaced: "replaced c1 es rest existing"
    and evict: "sg_cache_evict limit c2 m1 = Some (c3, m3)" and keep: "set keep \<subseteq> set rest" and linked3: "linked c3 keep"
    and kept3: "entries_kept (set rest - set keep) c1 c3" and fit: "map (item_of c1) keep = lru_fit limit (map (item_of c1) rest)"
    and bytes3: "ca_bytes c3 = lru_total (map (item_of c1) keep)" and ok3: "memory_ok m3"
    and refs3: "\<And>s. refs m3 s + held (map (item_of c1) rest) s = refs m1 s + held (map (item_of c1) keep) s" by blast
  have sub: "set rest \<subseteq> set es" by (auto simp: rest_def)
  have ys': "ys = item # map (item_of c1) keep"
  proof -
    have "filter (\<lambda>y. li_key y \<noteq> key) xs = map (item_of c1) rest"
      unfolding items1[symmetric] by (simp add: filter_map rest_def comp_def)
    then show ?thesis using room by (simp add: ys lru_insert_def item key_def fit limit_def)
  qed
  have total: "lru_total ys \<le> ca_maximum_bytes c"
    using lru_fit_total[of limit "map (item_of c1) rest"] room by (simp add: ys' fit limit_def) arith
  have remaining: "size_minus (ca_maximum_bytes c2) (ce_bytes (entry_at c2 created)) = limit"
  proof -
    have "item_of c2 created = item" using kept2 alive1 item1 by (simp add: entries_kept_def)
    then have "ce_bytes (entry_at c2 created) = li_bytes item" by (metis item_of_def lru_item.select_convs(2))
    then show ?thesis using room bytes(3) kept2 fields1 by (simp add: entries_kept_def size_minus_eq limit_def)
  qed
  define c4 where "c4 = sg_cache_link_newest created c3"
  obtain c6 m6 where free: "sg_cache_entry_free existing
      (c4\<lparr>ca_bytes := (ca_bytes c4 + ce_bytes (entry_at c4 created)) mod 2 ^ 64\<rparr>) m3 = (c6, m6)" by fastforce
  have enough: "held (map (item_of c1) es) s \<le> refs m3 s + held (map (item_of c1) rest) s" for s
    using held1[of s] refs3[of s] by linarith
  have "li_bytes item + lru_total (map (item_of c1) keep) \<le> SIZE_MAX" using total bytes(3) by (simp add: ys')
  note final = put_newest[OF alive1 created item1 replaced sub keep linked3 kept3 bytes3 ok3 enough this free[unfolded c4_def]]
  have run: "sg_snapshot_cache_insert (Ref c) (Ref model) oracle_epoch generation (Ref token) (Ref a) (Ref flag) m =
      Some (SG_OK, Ref True, Ref c6, m6)"
    using room evict free remaining
    by (simp add: sg_snapshot_cache_insert_def item Let_def c1_def[symmetric] m1_def[symmetric] created_def[symmetric] found
        c2_def[symmetric] c4_def[symmetric])
  have refs6: "refs m6 s + held xs s = refs m s + held ys s" for s
  proof -
    have "refs m6 s + held xs s = refs m3 s + held (map (item_of c1) rest) s" using final unfolding items1 by blast
    then show ?thesis using refs3[of s] by (simp add: ys' item r1(2))
  qed
  have "held ys s \<le> refs m6 s" for s using refs6[of s] m(2)[of s, folded xs] by linarith
  moreover have "distinct (map li_key ys)"
  proof -
    have "distinct keep" "inj_on (\<lambda>e. li_key (item_of c1 e)) (set es)"
      using linked3 keys1 by (auto simp: linked_def distinct_map)
    then show ?thesis using keep sub unfolding ys' by (auto simp: distinct_map inj_on_def item key_def rest_def)
  qed
  moreover have "\<exists>es. linked c6 es \<and> (\<forall>e. alive c6 e \<longleftrightarrow> e \<in> set es) \<and> ys = map (item_of c6) es"
    using final ys' by (intro exI[of _ "created # keep"]) auto
  ultimately have "cache_rep c6 m6 ys" using final total bytes(3) fields1 by (simp add: cache_rep_def ys')
  with run refs6 final fields1 room show ?thesis by (intro exI[of _ c6] exI[of _ m6]) auto
qed

lemma sg_snapshot_cache_free_ok:
  assumes "cache_rep c m xs"
  shows "\<exists>m'. sg_snapshot_cache_free (Ref c) m = Some m' \<and> memory_ok m' \<and> (\<forall>s. refs m' s + held xs s = refs m s)"
proof -
  from assms obtain es where linked: "linked c es" and xs: "xs = map (item_of c) es"
    and m: "memory_ok m" "\<And>s. held (map (item_of c) es) s \<le> refs m s" by (rule cache_repE) blast
  let ?c = "c\<lparr>ca_newest := NULL, ca_oldest := NULL, ca_bytes := 0\<rparr>"
  have "seg (older_of ?c) (newer_of c) NULL (ca_newest c) es NULL (ca_oldest c)" "distinct es" "\<forall>e \<in> set es. alive ?c e"
    using linked by (simp_all add: linked_def)
  from sg_cache_free_loop_ok[OF this m(1)] m(2)
  obtain c' m' where "sg_cache_free_loop (ca_newest c) ?c m = Some (c', m')" "memory_ok m'"
    "\<forall>s. refs m' s + held xs s = refs m s" by (auto simp: xs)
  then show ?thesis by (simp add: sg_snapshot_cache_free_def Let_def)
qed

lemma cache_rep_create:
  assumes "memory_ok m" "maximum \<le> SIZE_MAX"
  shows "\<exists>c. sg_snapshot_cache_create maximum = Inr c \<and> ca_maximum_bytes c = maximum \<and> cache_rep c m []"
  using assms by (simp add: sg_snapshot_cache_create_def cache_rep_def linked_def alive_def)

section \<open>The property\<close>

text \<open>C40. The cache of snapshots refines a list of items with the most recently used first. A new cache is
  the empty list. While the pointers of a cache stand for a list, its keys are distinct and its byte
  count is the sum of the sizes, at most the maximum. A lookup ends, returns the snapshot of the item
  with the key, or NULL, and moves the item to the front; the caller gets a reference of its own. An
  insertion of a live snapshot ends and stores it exactly if the cache has a maximum that its size does not
  exceed: it becomes the front, the item with the same key is gone, and the oldest ones are dropped until the
  sizes fit. Every reference that the cache takes or gives back is one of its items: what the others
  hold does not change. Freeing the cache gives back exactly the references of its items.\<close>

theorem cache_refines_lru:
  fixes model token :: string and oracle_epoch generation :: "64 word"
  assumes rep: "cache_rep c m xs" and a: "live m a" and maximum: "maximum \<le> SIZE_MAX"
  defines "key \<equiv> (model, oracle_epoch, generation, token)"
  defines "item \<equiv> \<lparr>li_key = key, li_bytes = sg_pair_snapshot_memory_bytes (Ref a) m, li_snapshot = Ref a\<rparr>"
  defines "ys \<equiv> lru_insert (ca_maximum_bytes c) item xs"
  shows "(\<exists>c'. sg_snapshot_cache_create maximum = Inr c' \<and> ca_maximum_bytes c' = maximum \<and> cache_rep c' m []) \<and>
    distinct (map li_key xs) \<and> sg_snapshot_cache_bytes (Ref c) = lru_total xs \<and> lru_total xs \<le> ca_maximum_bytes c \<and>
    (case lru_lookup key xs of (snapshot, zs) \<Rightarrow>
       \<exists>c' m'. sg_snapshot_cache_lookup (Ref c) (Ref model) oracle_epoch generation (Ref token) m = Some (snapshot, Ref c', m') \<and>
         cache_rep c' m' zs \<and> ca_maximum_bytes c' = ca_maximum_bytes c \<and>
         (\<forall>s. refs m' s = refs m s + (if s = snapshot \<and> snapshot \<noteq> NULL then 1 else 0))) \<and>
    (\<exists>c' m'. sg_snapshot_cache_insert (Ref c) (Ref model) oracle_epoch generation (Ref token) (Ref a) (Ref flag) m =
         Some (SG_OK, Ref (ca_maximum_bytes c \<noteq> 0 \<and> li_bytes item \<le> ca_maximum_bytes c), Ref c', m') \<and>
       cache_rep c' m' ys \<and> ca_maximum_bytes c' = ca_maximum_bytes c \<and>
       (\<forall>s. refs m' s + held xs s = refs m s + held ys s)) \<and>
    (\<exists>m'. sg_snapshot_cache_free (Ref c) m = Some m' \<and> memory_ok m' \<and> (\<forall>s. refs m' s + held xs s = refs m s))"
proof -
  have key: "cache_key model oracle_epoch generation token = key" by (simp add: key_def cache_key_def)
  have "case lru_lookup key xs of (snapshot, zs) \<Rightarrow>
       \<exists>c' m'. sg_snapshot_cache_lookup (Ref c) (Ref model) oracle_epoch generation (Ref token) m = Some (snapshot, Ref c', m') \<and>
         cache_rep c' m' zs \<and> ca_maximum_bytes c' = ca_maximum_bytes c \<and>
         (\<forall>s. refs m' s = refs m s + (if s = snapshot \<and> snapshot \<noteq> NULL then 1 else 0))"
    using sg_snapshot_cache_lookup_ok[OF rep, of model oracle_epoch generation token] by (fastforce simp: key split: prod.split)
  moreover note sg_snapshot_cache_insert_ok[OF rep a, of item model oracle_epoch generation token ys flag, unfolded key,
      OF item_def[THEN meta_eq_to_obj_eq] ys_def[THEN meta_eq_to_obj_eq]]
  moreover have "memory_ok m" "distinct (map li_key xs)" "ca_bytes c = lru_total xs" "lru_total xs \<le> ca_maximum_bytes c"
    using rep by (simp_all add: cache_rep_def)
  ultimately show ?thesis
    using cache_rep_create[OF _ maximum] sg_snapshot_cache_free_ok[OF rep] by (simp add: sg_snapshot_cache_bytes_def)
qed

theorem cache_refines_lru_witness:
  "\<exists>c c' m'. sg_snapshot_cache_create 600 = Inr c \<and>
     sg_snapshot_cache_insert (Ref c) (Ref ''m'') 1 2 (Ref ''t'') (Ref 0) (Ref False) tiny_memory =
       Some (SG_OK, Ref True, Ref c', m') \<and> cache_rep c' m' [\<lparr>li_key = (''m'', 1, 2, ''t''), li_bytes = 512, li_snapshot = Ref 0\<rparr>] \<and>
     refs m' (Ref 0) = 2"
proof -
  have live: "live tiny_memory 0" by (simp add: tiny_live)
  have max: "600 \<le> SIZE_MAX" by (simp add: SIZE_MAX_def)
  obtain c where c: "sg_snapshot_cache_create 600 = Inr c" "ca_maximum_bytes c = 600" "cache_rep c tiny_memory []"
    using cache_rep_create[OF tiny_memory_ok max] by blast
  have bytes: "sg_pair_snapshot_memory_bytes (Ref 0) tiny_memory = 512"
    by (simp add: sg_pair_snapshot_memory_bytes_def tiny_memory_def tiny_automaton_def Let_def
        sg_automaton_state_count_def sg_automaton_action_count_def)
  have "refs tiny_memory (Ref 0) = 1" using live by (simp add: refs_def) (simp add: tiny_memory_def)
  with cache_refines_lru[OF c(3) live max, of "''m''" 1 2 "''t''" False] c show ?thesis
    by (auto simp: bytes lru_insert_def)
qed

end
