(* ===== verification/Sync_Oracle_Restore.thy ===== *)
theory Sync_Oracle_Restore
  imports Sync_Oracle_Records
begin

text \<open>
  Which lists of records src/oracle.c restores: those that have one record for every pair, in any order,
  and whose records are consistent with those of the successor pairs. The conditions are stated on the
  records and the automaton, without the tables of the code.
\<close>

section \<open>Consistent records\<close>

definition record_at :: "sg_pair_record list \<Rightarrow> nat \<Rightarrow> sg_pair_record" where
  "record_at rs p = the (find (\<lambda>r. rec_pair r = p) rs)"

text \<open>A record without the flag says that there is no word.\<close>

definition known_merge :: "sg_pair_record \<Rightarrow> nat" where
  "known_merge r = (if rec_mergeable r then rec_merge_distance r else SG_INDEX_NONE)"

definition known_resolution :: "sg_pair_record \<Rightarrow> nat" where
  "known_resolution r = (if rec_resolvable r then rec_resolution_distance r else SG_INDEX_NONE)"

definition one_step :: "nat \<Rightarrow> nat \<Rightarrow> bool" where
  "one_step d e \<longleftrightarrow> e \<noteq> SG_INDEX_NONE \<and> e + 1 = d"

definition merge_consistent :: "sg_automaton \<Rightarrow> sg_pair_record list \<Rightarrow> nat \<Rightarrow> bool" where
  "merge_consistent A rs p \<longleftrightarrow>
     (let r = record_at rs p; d = known_merge r; dist = (\<lambda>q. known_merge (record_at rs q));
          steps = {a. a < au_action_count A \<and> one_step d (dist (pair_next A p a))}
      in if d = SG_INDEX_NONE \<or> d = 0
         then (d = 0 \<longrightarrow> pair_equal A p) \<and> rec_merge_support_count r = 0 \<and>
              (rec_mergeable r \<longrightarrow> rec_merge_action r = SG_INDEX_NONE \<and> rec_merge_next_pair r = SG_INDEX_NONE)
         else rec_merge_action r \<in> steps \<and> rec_merge_next_pair r = pair_next A p (rec_merge_action r) \<and>
              rec_merge_support_count r = card steps)"

text \<open>For resolving, an action also counts if the outputs differ and the distance is one.\<close>

definition resolution_consistent :: "sg_automaton \<Rightarrow> sg_pair_record list \<Rightarrow> nat \<Rightarrow> bool" where
  "resolution_consistent A rs p \<longleftrightarrow>
     (let r = record_at rs p; d = known_resolution r; dist = (\<lambda>q. known_resolution (record_at rs q));
          steps = {a. a < au_action_count A \<and>
            (if pair_differ A p a then d = 1 else one_step d (dist (pair_next A p a)))}
      in if d = SG_INDEX_NONE \<or> d = 0
         then (d = 0 \<longrightarrow> pair_equal A p) \<and> rec_resolution_support_count r = 0 \<and>
              (rec_resolvable r \<longrightarrow> rec_resolution_action r = SG_INDEX_NONE \<and>
                 rec_resolution_next_pair r = SG_INDEX_NONE)
         else rec_resolution_action r \<in> steps \<and>
              rec_resolution_next_pair r = (if pair_differ A p (rec_resolution_action r) then SG_INDEX_NONE
                                            else pair_next A p (rec_resolution_action r)) \<and>
              rec_resolution_support_count r = card steps)"

section \<open>The loop over the records\<close>

text \<open>What the tables hold of a record.\<close>

definition holds_record :: "sg_pair_oracle \<Rightarrow> nat \<Rightarrow> sg_pair_record \<Rightarrow> bool" where
  "holds_record orc p r \<longleftrightarrow>
     po_merge_distance orc ! p = known_merge r \<and>
     po_merge_action orc ! p = (if rec_mergeable r then rec_merge_action r else SG_INDEX_NONE) \<and>
     po_merge_next orc ! p = (if rec_mergeable r then rec_merge_next_pair r else SG_INDEX_NONE) \<and>
     po_merge_support_count orc ! p = rec_merge_support_count r \<and>
     po_resolution_distance orc ! p = known_resolution r \<and>
     po_resolution_action orc ! p = (if rec_resolvable r then rec_resolution_action r else SG_INDEX_NONE) \<and>
     po_resolution_next orc ! p = (if rec_resolvable r then rec_resolution_next_pair r else SG_INDEX_NONE) \<and>
     po_resolution_support_count orc ! p = rec_resolution_support_count r"

lemma restore_record_step:
  assumes run: "sg_restore_record r (cr, seen) = Inr (cr', seen')"
    and len: "oracle_lengths c cr" "po_pair_count cr = c" "length seen = c"
  shows "rec_pair r < c" "\<not> seen ! rec_pair r" "seen' = seen[rec_pair r := True]" "holds_record cr' (rec_pair r) r"
    "q < c \<Longrightarrow> q \<noteq> rec_pair r \<Longrightarrow> holds_record cr' q r' \<longleftrightarrow> holds_record cr q r'"
    "oracle_lengths c cr'" "po_pair_count cr' = c" "oracle_base cr' = oracle_base cr"
proof -
  have ok: "\<not> (rec_pair r \<ge> c \<or> seen ! rec_pair r)"
  proof
    assume "rec_pair r \<ge> c \<or> seen ! rec_pair r"
    with run len(2) show False by (simp add: sg_restore_record_def Let_def)
  qed
  then show p: "rec_pair r < c" "\<not> seen ! rec_pair r" by simp_all
  note eqs = run[unfolded sg_restore_record_def Let_def prod.case len(2) if_not_P[OF ok] sum.inject prod.inject]
  show "seen' = seen[rec_pair r := True]" using eqs by simp
  have l: "length (po_merge_distance cr) = c" "length (po_merge_action cr) = c" "length (po_merge_next cr) = c"
    "length (po_merge_support_count cr) = c" "length (po_resolution_distance cr) = c"
    "length (po_resolution_action cr) = c" "length (po_resolution_next cr) = c"
    "length (po_resolution_support_count cr) = c" using len(1) by (simp_all add: oracle_lengths_def)
  show "holds_record cr' (rec_pair r) r"
    unfolding eqs[THEN conjunct1, symmetric] using l p by (simp add: holds_record_def known_merge_def known_resolution_def)
  show "holds_record cr' q r' \<longleftrightarrow> holds_record cr q r'" if "q < c" "q \<noteq> rec_pair r"
    unfolding eqs[THEN conjunct1, symmetric] using that(2) by (simp add: holds_record_def)
  show "oracle_lengths c cr'" "oracle_base cr' = oracle_base cr" using restore_record_frame[OF run] len(1) by simp_all
  show "po_pair_count cr' = c" unfolding eqs[THEN conjunct1, symmetric] using len(2) by simp
qed

lemma restore_loop_result:
  "fold_res sg_restore_record rs (cr, seen) = Inr (cr', seen') \<Longrightarrow> oracle_lengths c cr \<Longrightarrow> po_pair_count cr = c \<Longrightarrow>
   length seen = c \<Longrightarrow>
   distinct (map rec_pair rs) \<and> (\<forall>r \<in> set rs. rec_pair r < c \<and> \<not> seen ! rec_pair r) \<and>
   (\<forall>q < c. seen' ! q \<longleftrightarrow> seen ! q \<or> q \<in> rec_pair ` set rs) \<and>
   (\<forall>r \<in> set rs. holds_record cr' (rec_pair r) r) \<and>
   (\<forall>q < c. q \<notin> rec_pair ` set rs \<longrightarrow> (\<forall>r. holds_record cr' q r \<longleftrightarrow> holds_record cr q r)) \<and>
   oracle_lengths c cr' \<and> po_pair_count cr' = c \<and> oracle_base cr' = oracle_base cr"
proof (induction rs arbitrary: cr seen)
  case (Cons r rs)
  then obtain cr1 seen1 where one: "sg_restore_record r (cr, seen) = Inr (cr1, seen1)"
    and rest: "fold_res sg_restore_record rs (cr1, seen1) = Inr (cr', seen')" by auto
  note s = restore_record_step[OF one Cons.prems(2-4)]
  have "length seen1 = c" using s(3) Cons.prems(4) by simp
  note IH = Cons.IH[OF rest s(6,7) this]
  have fresh: "rec_pair r \<notin> rec_pair ` set rs" using IH s(1,3) Cons.prems(4) by auto
  have "\<forall>x \<in> set rs. \<not> seen ! rec_pair x" 
    using IH s(3) fresh by (metis imageI nth_list_update_neq)
  moreover have "seen1 ! q \<longleftrightarrow> seen ! q \<or> q = rec_pair r" if "q < c" for q
    using s(1,3) Cons.prems(4) by (auto simp: nth_list_update)
  then have "\<forall>q < c. seen' ! q \<longleftrightarrow> seen ! q \<or> q \<in> rec_pair ` set (r # rs)" using IH by auto
  ultimately show ?case using IH s fresh by auto
qed simp

lemma restore_loop_accepts:
  "distinct (map rec_pair rs) \<Longrightarrow> \<forall>r \<in> set rs. rec_pair r < c \<and> \<not> seen ! rec_pair r \<Longrightarrow> oracle_lengths c cr \<Longrightarrow>
   po_pair_count cr = c \<Longrightarrow> length seen = c \<Longrightarrow>
   \<exists>cr' seen'. fold_res sg_restore_record rs (cr, seen) = Inr (cr', seen')"
proof (induction rs arbitrary: cr seen)
  case (Cons r rs)
  then obtain cr1 seen1 where one: "sg_restore_record r (cr, seen) = Inr (cr1, seen1)"
    by (simp add: sg_restore_record_def Let_def)
  note s = restore_record_step[OF one Cons.prems(3-5)]
  have "\<forall>x \<in> set rs. rec_pair x < c \<and> \<not> seen1 ! rec_pair x"
    using Cons.prems(1,2) s(3) by (metis distinct.simps(2) list.set_intros(2) list.simps(9) nth_list_update_neq imageI list.set_map)
  with Cons.IH[of seen1 cr1] Cons.prems(1,5) s(3,6,7) one show ?case by auto
qed simp

section \<open>Validation\<close>

lemma card_filter_upt: "card {a. a < k \<and> Q a} = length (filter Q [0..<k])" for k :: nat
proof -
  have "{a. a < k \<and> Q a} = set (filter Q [0..<k])" by auto
  then show ?thesis by (metis distinct_card distinct_filter distinct_upt)
qed

lemma tablesD:
  assumes tables: "oracle_tables A orc"
  shows "wf_automaton A" "oracle_size_ok A" "po_automaton orc = A" "po_pair_count orc = pair_total A"
  "p < pair_total A \<Longrightarrow> po_first orc ! p = po_second orc ! p \<longleftrightarrow> pair_equal A p"
  "p < pair_total A \<Longrightarrow> a < au_action_count A \<Longrightarrow> po_next orc ! (p * au_action_count A + a) = pair_next A p a"
  "p < pair_total A \<Longrightarrow> a < au_action_count A \<Longrightarrow> po_outputs_differ orc ! (p * au_action_count A + a) = pair_differ A p a"
  "p < pair_total A \<Longrightarrow> a < au_action_count A \<Longrightarrow> pair_next A p a < pair_total A"
  using tables pair_next_less by (auto simp: oracle_tables_def pair_equal_def split: prod.splits)

lemma merge_valid_consistent:
  assumes tables: "oracle_tables A orc" and records: "\<And>q. q < pair_total A \<Longrightarrow> holds_record orc q (record_at rs q)"
    and p: "p < pair_total A"
  shows "sg_merge_record_valid orc p \<longleftrightarrow> merge_consistent A rs p"
proof -
  note tablesD = tablesD[OF tables]
  let ?r = "record_at rs p" and ?k = "au_action_count A"
  let ?S = "\<lambda>a. one_step (known_merge ?r) (known_merge (record_at rs (pair_next A p a)))"
  note h = records[OF p, unfolded holds_record_def]
  have dist: "po_merge_distance orc ! q = known_merge (record_at rs q)" if "q < pair_total A" for q
    using records[OF that] by (simp add: holds_record_def)
  have sup: "sg_merge_supports orc p a \<longleftrightarrow> ?S a" if "a < ?k" for a
    using that p by (simp add: sg_merge_supports_def tablesD dist one_step_def Let_def)
  have "filter (sg_merge_supports orc p) [0..<?k] = filter ?S [0..<?k]" by (rule filter_cong) (auto simp: sup)
  then have count: "foldl (\<lambda>count a. if sg_merge_supports orc p a then count + 1 else count) 0 [0..<?k] =
      card {a. a < ?k \<and> ?S a}" by (simp add: foldl_count card_filter_upt)
  consider "known_merge ?r = SG_INDEX_NONE" | "known_merge ?r = 0" | "known_merge ?r \<noteq> SG_INDEX_NONE" "known_merge ?r \<noteq> 0"
    by blast
  then show ?thesis
  proof cases
    case 1
    then show ?thesis using h by (auto simp: sg_merge_record_valid_def merge_consistent_def SIZE_MAX_def Let_def)
  next
    case 2
    then have "rec_mergeable ?r" by (auto simp: known_merge_def SIZE_MAX_def split: if_splits)
    with 2 show ?thesis using h tablesD(5)[OF p] by (auto simp: sg_merge_record_valid_def merge_consistent_def SIZE_MAX_def Let_def)
  next
    case 3
    then have m: "rec_mergeable ?r" by (auto simp: known_merge_def split: if_splits)
    let ?b = "rec_merge_action ?r" and ?M = "{a. a < ?k \<and> ?S a}"
    obtain N where N: "N = card ?M" by blast
    have "sg_merge_record_valid orc p \<longleftrightarrow>
        ?b < ?k \<and> rec_merge_next_pair ?r < pair_total A \<and> po_next orc ! (p * ?k + ?b) = rec_merge_next_pair ?r \<and>
        po_merge_distance orc ! rec_merge_next_pair ?r \<noteq> SG_INDEX_NONE \<and>
        po_merge_distance orc ! rec_merge_next_pair ?r + 1 = known_merge ?r \<and> N \<noteq> 0 \<and>
        rec_merge_support_count ?r = N"
      using 3 m h count[folded N] by (simp add: sg_merge_record_valid_def tablesD(3,4) Let_def)
    also have "\<dots> \<longleftrightarrow> ?b \<in> ?M \<and> rec_merge_next_pair ?r = pair_next A p ?b \<and> rec_merge_support_count ?r = N"
    proof (cases "?b < ?k")
      case True
      have "N \<noteq> 0" if "?b \<in> ?M" using that N by (auto simp: card_eq_0_iff)
      then show ?thesis using True tablesD(6,8)[OF p True] by (auto simp: dist one_step_def)
    qed simp
    also have "\<dots> \<longleftrightarrow> merge_consistent A rs p" using 3 N by (simp add: merge_consistent_def Let_def)
    finally show ?thesis .
  qed
qed

lemma resolution_valid_consistent:
  assumes tables: "oracle_tables A orc" and records: "\<And>q. q < pair_total A \<Longrightarrow> holds_record orc q (record_at rs q)"
    and p: "p < pair_total A"
  shows "sg_resolution_record_valid orc p \<longleftrightarrow> resolution_consistent A rs p"
proof -
  note tablesD = tablesD[OF tables]
  let ?r = "record_at rs p" and ?k = "au_action_count A"
  let ?S = "\<lambda>a. if pair_differ A p a then known_resolution ?r = 1
    else one_step (known_resolution ?r) (known_resolution (record_at rs (pair_next A p a)))"
  note h = records[OF p, unfolded holds_record_def]
  have dist: "po_resolution_distance orc ! q = known_resolution (record_at rs q)" if "q < pair_total A" for q
    using records[OF that] by (simp add: holds_record_def)
  have sup: "sg_resolution_immediate orc p a \<or> sg_resolution_via_next orc p a \<longleftrightarrow> ?S a" if "a < ?k" for a
    using that p by (simp add: sg_resolution_immediate_def sg_resolution_via_next_def tablesD dist one_step_def Let_def)
  have "filter (\<lambda>a. sg_resolution_immediate orc p a \<or> sg_resolution_via_next orc p a) [0..<?k] = filter ?S [0..<?k]"
    by (rule filter_cong) (auto simp: sup simp del: if_split)
  then have count: "foldl (\<lambda>count a. if sg_resolution_immediate orc p a \<or> sg_resolution_via_next orc p a
      then count + 1 else count) 0 [0..<?k] = card {a. a < ?k \<and> ?S a}"
    unfolding card_filter_upt by (simp only: foldl_count add_0)
  consider "known_resolution ?r = SG_INDEX_NONE" | "known_resolution ?r = 0"
    | "known_resolution ?r \<noteq> SG_INDEX_NONE" "known_resolution ?r \<noteq> 0"
    by blast
  then show ?thesis
  proof cases
    case 1
    then show ?thesis using h by (auto simp: sg_resolution_record_valid_def resolution_consistent_def SIZE_MAX_def Let_def)
  next
    case 2
    then have "rec_resolvable ?r" by (auto simp: known_resolution_def SIZE_MAX_def split: if_splits)
    with 2 show ?thesis using h tablesD(5)[OF p]
      by (auto simp: sg_resolution_record_valid_def resolution_consistent_def SIZE_MAX_def Let_def)
  next
    case 3
    then have m: "rec_resolvable ?r" by (auto simp: known_resolution_def split: if_splits)
    let ?b = "rec_resolution_action ?r" and ?M = "{a. a < ?k \<and> ?S a}" and ?next = "rec_resolution_next_pair ?r"
    obtain N where N: "N = card ?M" by blast
    have "sg_resolution_record_valid orc p \<longleftrightarrow>
        ?b < ?k \<and> N \<noteq> 0 \<and> rec_resolution_support_count ?r = N \<and>
        (if ?next = SG_INDEX_NONE then known_resolution ?r = 1 \<and> po_outputs_differ orc ! (p * ?k + ?b)
         else ?next < pair_total A \<and> \<not> po_outputs_differ orc ! (p * ?k + ?b) \<and> po_next orc ! (p * ?k + ?b) = ?next \<and>
           po_resolution_distance orc ! ?next \<noteq> SG_INDEX_NONE \<and> po_resolution_distance orc ! ?next + 1 = known_resolution ?r)"
      using 3 m h count[folded N] by (simp add: sg_resolution_record_valid_def tablesD(3,4) Let_def)
    also have "\<dots> \<longleftrightarrow> ?b \<in> ?M \<and> ?next = (if pair_differ A p ?b then SG_INDEX_NONE else pair_next A p ?b) \<and>
        rec_resolution_support_count ?r = N"
    proof (cases "?b < ?k")
      case True
      have card: "N \<noteq> 0" if "?b \<in> ?M" using that N by (auto simp: card_eq_0_iff)
      have small: "pair_next A p ?b \<noteq> SG_INDEX_NONE"
        using tablesD(8)[OF p True] pair_total_small[OF tablesD(2)] by simp
      show ?thesis
      proof (cases "pair_differ A p ?b")
        case differ: True
        then show ?thesis using True card tablesD(7)[OF p True] by auto
      next
        case False
        then show ?thesis using True card tablesD(6,7,8)[OF p True] small by (auto simp: dist one_step_def)
      qed
    qed simp
    also have "\<dots> \<longleftrightarrow> resolution_consistent A rs p" using 3 N by (simp add: resolution_consistent_def Let_def)
    finally show ?thesis .
  qed
qed

section \<open>Restoring\<close>

definition complete_records :: "nat \<Rightarrow> sg_pair_record list \<Rightarrow> bool" where
  "complete_records c rs \<longleftrightarrow> distinct (map rec_pair rs) \<and> rec_pair ` set rs = {..<c}"

text \<open>What a record reads as: without the flag, or with the distance NONE, the pair has no word.\<close>

definition normal_record :: "sg_pair_record \<Rightarrow> sg_pair_record" where
  "normal_record r = r\<lparr>rec_mergeable := (known_merge r \<noteq> SG_INDEX_NONE), rec_merge_distance := known_merge r,
     rec_merge_action := (if rec_mergeable r then rec_merge_action r else SG_INDEX_NONE),
     rec_merge_next_pair := (if rec_mergeable r then rec_merge_next_pair r else SG_INDEX_NONE),
     rec_resolvable := (known_resolution r \<noteq> SG_INDEX_NONE), rec_resolution_distance := known_resolution r,
     rec_resolution_action := (if rec_resolvable r then rec_resolution_action r else SG_INDEX_NONE),
     rec_resolution_next_pair := (if rec_resolvable r then rec_resolution_next_pair r else SG_INDEX_NONE)\<rparr>"

lemma holds_record_reads:
  "holds_record orc (rec_pair r) r \<Longrightarrow> rec_pair r < po_pair_count orc \<Longrightarrow>
   sg_pair_oracle_record (Ref orc) (rec_pair r) = Inr (normal_record r)"
  by (simp add: sg_pair_oracle_record_def holds_record_def normal_record_def)

lemma record_at_in:
  assumes "distinct (map rec_pair rs)" "r \<in> set rs"
  shows "record_at rs (rec_pair r) = r"
  using assms by (induction rs) (auto simp: record_at_def)

text \<open>The tables when the loop over the records starts.\<close>

lemma restore_start:
  assumes wf: "wf_automaton A" and size: "oracle_size_ok A"
  obtains o1 where "sg_oracle_allocate A = Inr o1" "po_pair_count o1 = pair_total A"
    "oracle_tables A (sg_oracle_fill_pairs o1)" "oracle_lengths (pair_total A) (sg_oracle_fill_pairs o1)"
    "po_pair_count (sg_oracle_fill_pairs o1) = pair_total A"
proof -
  obtain o1 where o1: "sg_oracle_allocate A = Inr o1" "po_automaton o1 = A" "po_pair_count o1 = pair_total A"
    "length (po_first o1) = pair_total A" "length (po_second o1) = pair_total A"
    "length (po_next o1) = pair_total A * au_action_count A"
    "length (po_outputs_differ o1) = pair_total A * au_action_count A" "oracle_lengths (pair_total A) o1"
    using sg_oracle_allocate_ok[OF wf size] by (auto simp: oracle_lengths_def)
  have "oracle_tables A (sg_oracle_fill_pairs o1)" using sg_oracle_fill_pairs_tables[OF wf size] o1 by simp
  with o1 that show ?thesis by (simp add: sg_oracle_fill_pairs_eq oracle_lengths_def)
qed

lemma restore_run:
  assumes wf: "wf_automaton A" and size: "oracle_size_ok A"
  shows "sg_pair_oracle_restore (Ref A) (Ref rs) = Inl SG_ERR_INVALID_MODEL \<or>
      (\<exists>orc. sg_pair_oracle_restore (Ref A) (Ref rs) = Inr orc)"
    "(\<exists>orc. sg_pair_oracle_restore (Ref A) (Ref rs) = Inr orc) \<longleftrightarrow> complete_records (pair_total A) rs \<and>
      (\<forall>p < pair_total A. merge_consistent A rs p \<and> resolution_consistent A rs p)"
    "sg_pair_oracle_restore (Ref A) (Ref rs) = Inr orc \<Longrightarrow> r \<in> set rs \<Longrightarrow>
      sg_pair_oracle_record (Ref orc) (rec_pair r) = Inr (normal_record r)"
proof -
  let ?c = "pair_total A"
  obtain o1 where o1: "sg_oracle_allocate A = Inr o1" "po_pair_count o1 = ?c" "oracle_tables A (sg_oracle_fill_pairs o1)"
    "oracle_lengths ?c (sg_oracle_fill_pairs o1)" "po_pair_count (sg_oracle_fill_pairs o1) = ?c"
    by (rule restore_start[OF wf size])
  let ?loop = "fold_res sg_restore_record rs (sg_oracle_fill_pairs o1, replicate ?c False)"
  define run where "run = ?loop"
  have res: "sg_pair_oracle_restore (Ref A) (Ref rs) = (if length rs \<noteq> ?c then Inl SG_ERR_INVALID_MODEL
      else rbind run (\<lambda>(orc, seen).
        if list_all (\<lambda>p. seen ! p \<and> sg_merge_record_valid orc p \<and> sg_resolution_record_valid orc p) [0..<po_pair_count orc]
        then Inr orc else Inl SG_ERR_INVALID_MODEL))"
    using o1(1,2) by (simp add: sg_pair_oracle_restore_def run_def)
  have error: "run = Inl e \<Longrightarrow> e = SG_ERR_INVALID_MODEL" for e
  proof -
    have "fold_res sg_restore_record rs a = Inl e \<Longrightarrow> e = SG_ERR_INVALID_MODEL" for a
      by (induction rs arbitrary: a) (auto simp: sg_restore_record_def rbind_def Let_def split: sum.splits prod.splits if_splits)
    then show "run = Inl e \<Longrightarrow> e = SG_ERR_INVALID_MODEL" by (simp add: run_def)
  qed
  show "sg_pair_oracle_restore (Ref A) (Ref rs) = Inl SG_ERR_INVALID_MODEL \<or>
      (\<exists>orc. sg_pair_oracle_restore (Ref A) (Ref rs) = Inr orc)"
    unfolding res using error by (cases run) (auto simp: rbind_def split: prod.splits)
  have finished: "distinct (map rec_pair rs)" "\<forall>r \<in> set rs. rec_pair r < ?c" "\<forall>q < ?c. seen ! q \<longleftrightarrow> q \<in> rec_pair ` set rs"
      "\<forall>r \<in> set rs. holds_record orc (rec_pair r) r" "oracle_tables A orc" "po_pair_count orc = ?c"
    if "run = Inr (orc, seen)" for orc seen
    using restore_loop_result[OF that[unfolded run_def] o1(4,5)] oracle_tables_base[of orc "sg_oracle_fill_pairs o1"] o1(3)
    by auto
  show "sg_pair_oracle_record (Ref orc) (rec_pair r) = Inr (normal_record r)"
    if "sg_pair_oracle_restore (Ref A) (Ref rs) = Inr orc" "r \<in> set rs"
  proof -
    from that(1)[unfolded res] obtain seen where "run = Inr (orc, seen)" by (auto simp: rbind_def split: if_splits sum.splits)
    from finished[OF this] that(2) show ?thesis by (intro holds_record_reads) auto
  qed
  have valid: "sg_merge_record_valid orc p \<and> sg_resolution_record_valid orc p \<longleftrightarrow>
      merge_consistent A rs p \<and> resolution_consistent A rs p"
    if run: "run = Inr (orc, seen)" and c: "complete_records ?c rs" and p: "p < ?c" for orc seen p
  proof -
    have "holds_record orc q (record_at rs q)" if "q < ?c" for q
    proof -
      have "q \<in> rec_pair ` set rs" using c that by (simp add: complete_records_def)
      then obtain r where "r \<in> set rs" "rec_pair r = q" by blast
      with finished(1,4)[OF run] record_at_in[of rs r] show ?thesis by auto
    qed
    then show ?thesis
      using merge_valid_consistent[OF finished(5)[OF run] _ p] resolution_valid_consistent[OF finished(5)[OF run] _ p] by blast
  qed
  show "(\<exists>orc. sg_pair_oracle_restore (Ref A) (Ref rs) = Inr orc) \<longleftrightarrow> complete_records ?c rs \<and>
      (\<forall>p < ?c. merge_consistent A rs p \<and> resolution_consistent A rs p)"
  proof
    assume "\<exists>orc. sg_pair_oracle_restore (Ref A) (Ref rs) = Inr orc"
    then obtain orc seen where run: "run = Inr (orc, seen)"
      and all: "\<forall>p < po_pair_count orc. seen ! p \<and> sg_merge_record_valid orc p \<and> sg_resolution_record_valid orc p"
      unfolding res by (auto simp: rbind_def list_all_iff split: if_splits sum.splits)
    have "complete_records ?c rs" using finished(1-3,6)[OF run] all by (auto simp: complete_records_def)
    with valid[OF run this] all finished(6)[OF run] show "complete_records ?c rs \<and>
      (\<forall>p < ?c. merge_consistent A rs p \<and> resolution_consistent A rs p)" by simp
  next
    assume ok: "complete_records ?c rs \<and> (\<forall>p < ?c. merge_consistent A rs p \<and> resolution_consistent A rs p)"
    then have d: "distinct (map rec_pair rs)" "rec_pair ` set rs = {..<?c}" by (simp_all add: complete_records_def)
    have "length rs = card (set (map rec_pair rs))" using distinct_card[OF d(1)] by simp
    then have len: "length rs = ?c" using d(2) by simp
    have "rec_pair r < ?c" if "r \<in> set rs" for r using d(2) that by blast
    then have "\<forall>r \<in> set rs. rec_pair r < ?c \<and> \<not> replicate ?c False ! rec_pair r" by simp
    from restore_loop_accepts[OF d(1) this o1(4,5)] obtain orc seen where run: "run = Inr (orc, seen)"
      by (auto simp: run_def)
    have "\<forall>p < ?c. seen ! p \<and> sg_merge_record_valid orc p \<and> sg_resolution_record_valid orc p"
      using valid[OF run] ok finished(3)[OF run] d(2) by auto
    then show "\<exists>orc. sg_pair_oracle_restore (Ref A) (Ref rs) = Inr orc"
      unfolding res by (simp add: len run rbind_def list_all_iff finished(6)[OF run])
  qed
qed

text \<open>C23. Restoring accepts exactly the consistent lists. It needs one record for every pair, in any
  order, and for each objective every record must either say that there is no word, or be that of a pair
  of equal states with distance zero, or name as its witness an action whose successor pair is recorded one
  step closer (or, for resolving, whose outputs differ at distance one), with that successor, and count
  all such actions. Any other list is refused as an invalid model, an automaton with too many pairs for
  size_t as a failed allocation. After success every record reads back, with the fields of an absent word
  reset.\<close>

theorem restore_accepts_iff:
  assumes wf: "wf_automaton A"
  shows "case sg_pair_oracle_restore (Ref A) (Ref rs) of
      Inl e \<Rightarrow> e = (if oracle_size_ok A then SG_ERR_INVALID_MODEL else SG_ERR_ALLOC) \<and>
        \<not> (oracle_size_ok A \<and> complete_records (pair_total A) rs \<and>
           (\<forall>p < pair_total A. merge_consistent A rs p \<and> resolution_consistent A rs p))
    | Inr orc \<Rightarrow> oracle_size_ok A \<and> complete_records (pair_total A) rs \<and>
        (\<forall>p < pair_total A. merge_consistent A rs p \<and> resolution_consistent A rs p) \<and>
        (\<forall>r \<in> set rs. sg_pair_oracle_record (Ref orc) (rec_pair r) = Inr (normal_record r))"
proof (cases "oracle_size_ok A")
  case True
  note run = restore_run[OF wf True, where rs = rs]
  show ?thesis
  proof (cases "sg_pair_oracle_restore (Ref A) (Ref rs)")
    case (Inl e)
    with run(1,2) True show ?thesis by simp
  next
    case (Inr orc)
    with run(2) run(3)[OF Inr] True show ?thesis by simp
  qed
next
  case False
  have "sg_oracle_allocate A = Inl SG_ERR_ALLOC"
    using sg_oracle_allocate_Inr[OF wf] False
    by (cases "sg_oracle_allocate A") (auto simp: sg_oracle_allocate_def split: option.splits)
  with False show ?thesis by (simp add: sg_pair_oracle_restore_def rbind_def)
qed

text \<open>One state has one pair; a list without its record, or with two of them, is refused.\<close>

theorem restore_accepts_iff_witness:
  "(\<exists>orc. sg_pair_oracle_restore (Ref point_automaton) (Ref [unreachable_record 0]) = Inr orc \<and>
     sg_pair_oracle_record (Ref orc) 0 = Inr (unreachable_record 0)) \<and>
   sg_pair_oracle_restore (Ref point_automaton) (Ref []) = Inl SG_ERR_INVALID_MODEL \<and>
   sg_pair_oracle_restore (Ref point_automaton) (Ref [unreachable_record 0, unreachable_record 0]) =
     Inl SG_ERR_INVALID_MODEL"
proof -
  have wf: "wf_automaton point_automaton" by code_simp
  have size: "oracle_size_ok point_automaton" "pair_total point_automaton = 1" by code_simp+
  let ?r = "unreachable_record 0"
  have r: "rec_pair ?r = 0" "\<not> rec_mergeable ?r" "\<not> rec_resolvable ?r" "known_merge ?r = SG_INDEX_NONE"
    "known_resolution ?r = SG_INDEX_NONE" "normal_record ?r = ?r" "record_at [?r] 0 = ?r"
    by (simp_all add: unreachable_record_def known_merge_def known_resolution_def normal_record_def record_at_def)
  have counts: "rec_merge_support_count ?r = 0" "rec_resolution_support_count ?r = 0" by (simp_all add: unreachable_record_def)
  have "complete_records 1 [?r]" by (auto simp: complete_records_def r)
  moreover have "merge_consistent point_automaton [?r] 0 \<and> resolution_consistent point_automaton [?r] 0"
    by (simp add: merge_consistent_def resolution_consistent_def r counts SIZE_MAX_def)
  ultimately have one: "\<exists>orc. sg_pair_oracle_restore (Ref point_automaton) (Ref [?r]) = Inr orc \<and>
      sg_pair_oracle_record (Ref orc) 0 = Inr ?r"
    using restore_accepts_iff[OF wf, of "[?r]"] size r by (simp split: sum.splits)
  have "\<not> complete_records 1 []" "\<not> complete_records 1 [?r, ?r]" by (auto simp: complete_records_def)
  with one show ?thesis
    using restore_accepts_iff[OF wf, of "[]"] restore_accepts_iff[OF wf, of "[?r, ?r]"] size by (simp split: sum.splits)
qed

end
