(* ===== verification/Spec2Isabelle.thy ===== *)
theory Spec2Isabelle
  imports Sync_Builder Sync_Goal Sync_Disambiguate Sync_Monitor Sync_Explain Sync_Cache_Lru Sync_Oracle_Restore
begin

text \<open>
  A verification library for sync-kgraph, the C library and Memgraph module that plans how to
  synchronize, home or disambiguate a deterministic machine whose current state is not known.

  The program. An automaton (src/src/sync.c, src/src/sync_internal.h) has states, actions and
  outputs with string keys, a total transition table and a total observation table. A builder
  collects keys and cells and builds the automaton if the description is complete and
  deterministic. A pair oracle (src/src/oracle.c) computes, by backward breadth-first searches over
  the unordered pairs of states, the shortest words that merge two states or tell them apart; its
  records can be persisted and restored. The planners (src/src/planner.c) use these records, through
  a record source that may be untrusted, as a heuristic and fall back to exact searches: for a
  synchronizing word (one state left), for a word into a goal set, and for a word after which every
  observation branch has few states. Monitors compare the execution of a plan with reports of a
  localizer and with observed outputs, and an explanation replays a plan for a visitor. When cells of
  the automaton change, the pair records need not be computed anew: a repair (src/src/dynamic.c)
  invalidates, rebuilds and propagates the distances of the affected pairs through a store of callbacks.
  Snapshots (src/src/snapshot.c) hold the records of one generation of an automaton in counted chunks
  that clones share until one of them is written, and a cache (src/src/snapshot_cache.c) keeps recently
  used snapshots within a number of bytes.

  The theories and the code they model.
  \<^item> \<open>Sync_Prelude\<close>: status codes as errors of a sum type, pointers that may be NULL as options, size_t
    bounds, folds that may fail, lemmas on tables and counting sort that the components share.
  \<^item> \<open>Sync_Automaton\<close>, \<open>Sync_Builder\<close>: sync.c, the automaton with its invariant \<open>wf_automaton\<close>, the
    accessors, and the builder. A successful build gives exactly the described tables, and a build
    succeeds exactly on complete deterministic descriptions. \<open>Sync_Example\<close>: a machine for witnesses.
  \<^item> \<open>Sync_Result\<close>: enumerations and their names, the growing action word as a refinement of lists,
    plan results, clock arithmetic.
  \<^item> \<open>Sync_Bitset\<close>: the bitsets of planner.c at the level of 64-bit words, with Kernighan's population
    count; the locale \<open>state_set\<close> is what the planners use of them. \<open>Sync_Motion\<close>: images of state
    sets under actions and words. \<open>Sync_Partition\<close>: the partition of a support by output traces, the
    metrics of a plan, and canonical support partitions.
  \<^item> \<open>Sync_Pairs\<close>, \<open>Sync_Oracle\<close>: the numbering of pairs and the code of oracle.c. \<open>Sync_Levels\<close>: the
    locale of level-by-level searches; \<open>Sync_Oracle_Tables\<close>, \<open>Sync_Oracle_Exact\<close>, \<open>Sync_Oracle_Build\<close>,
    \<open>Sync_Oracle_Records\<close>: the tables, the exact distances, the witnesses and the records.
    \<open>Sync_Oracle_Restore\<close>: the lists of records that are restored are exactly the complete and consistent
    ones; consistency does not make a table exact (\<open>restore_accepts_inexact\<close>).
  \<^item> \<open>Sync_Record_Source\<close>: the loading of witness words from a record source. Every record is checked
    against the automaton, so a word that is reported available is right whatever the source says;
    the locale \<open>record_source\<close> says what a good source adds, and the oracle's reader interprets it.
  \<^item> \<open>Sync_Search\<close>: what the forward searches of planner.c share (locale \<open>forward_search\<close>: search trees,
    frontiers, shortest words, exhaustion). \<open>Sync_Subset\<close>, \<open>Sync_Plan\<close>: synchronizing plans.
    \<open>Sync_Allowed\<close>: plans over a restricted alphabet. \<open>Sync_Goal\<close>: goal plans.
    \<open>Sync_Partition_Search\<close>, \<open>Sync_Disambiguate\<close>: disambiguation plans.
  \<^item> \<open>Sync_Monitor\<close>, \<open>Sync_Explain\<close>: the monitors and the explanation of a plan.
  \<^item> \<open>Sync_Heap\<close>: the binary heap of dynamic.c as a priority queue. \<open>Sync_Repair\<close>, \<open>Sync_Repair_Phases\<close>:
    the code of a repair, in a monad of state and errors. \<open>Sync_Repair_Eval\<close>: the evaluation of pairs, and
    the locale \<open>pair_store\<close> with the laws of the callbacks. \<open>Sync_Repair_Step\<close>, \<open>Sync_Repair_Sound\<close>,
    \<open>Sync_Repair_Final\<close>: the phases keep every settled record settled (locale \<open>repair_run\<close>).
    \<open>Sync_Repair_Ends\<close>: every loop of a repair ends, by lexicographic measures.
    \<open>Sync_Repair_Frame\<close>: what holds whatever the outcome (locale \<open>repair_frame\<close>).
  \<^item> \<open>Sync_Snapshot\<close>: the code of snapshot.c on a memory of chunks, topologies and snapshots.
    \<open>Sync_Snapshot_Memory\<close>: the invariant \<open>memory_ok\<close>, counters included. \<open>Sync_Snapshot_Write\<close>: writing with
    copy on write. \<open>Sync_Snapshot_Store\<close>, \<open>Sync_Snapshot_Repair\<close>: a snapshot interprets \<open>pair_store\<close>,
    \<open>repair_run\<close> and \<open>repair_frame\<close>, so the repair theorems hold of it. \<open>Sync_Snapshot_Life\<close>,
    \<open>Sync_Snapshot_Make\<close>, \<open>Sync_Snapshot_Steps\<close>: retaining, releasing, cloning, allocating and filling.
    \<open>Sync_Snapshot_Machine\<close>: changing a cell, and all calls as the steps of a state machine with its
    invariant and the isolation of snapshots.
  \<^item> \<open>Sync_Cache\<close>: the code of snapshot_cache.c on a heap of linked entries. \<open>Sync_Cache_Lru\<close>: segments of
    the doubly linked list, and the refinement of a least-recently-used list by the cache.

  How the code is represented. A function that returns a status and fills out-parameters returns a
  sum: an error or the results. Where an out-parameter becomes a result, the check that its
  pointer is not NULL has no counterpart. A definition has the name of the C function it models; the body of a
  loop has a name of its own. Arguments that may be NULL are options. Strings are lists of
  characters. Arrays are lists; the lengths that the code passes beside them are the lengths of the
  lists unless a definition takes a count. Indices and counts are natural numbers; where the code
  computes sizes it checks for overflow, and these checks and the errors they give are kept, as are
  the places where size_t can wrap. 64-bit words of bitsets, generations and times are words.
  SG_INDEX_NONE is \<open>SIZE_MAX\<close>. Allocation itself is taken to succeed. The readings of the clock are
  arguments. A record source and a visitor are functions, parameters of the model. The oracle holds its
  automaton by value, so that the comparison of automaton pointers is one of automata. The queue arrays
  of the searches are lists whose capacity is not modelled.

  Termination and bounds. The loops of the planners end because every round spends one unit of the
  budget, the loops over pairs because every round settles new pairs; both are termination proofs or
  proofs about \<open>while\<close>, not fuel. The record loading has as fuel the number of pairs plus one, the
  bound that the code itself uses. A synchronizing query of \<open>n\<close> states is decided within \<open>n + 2 ^ n\<close>
  expansions, a goal query within \<open>2 ^ n\<close>, and a disambiguation query within \<open>2 ^ 2 ^ n + 1\<close>.

  A repair calls its store, which may answer anything: its loops are partial functions, and a repair
  that does not end has the value \<open>None\<close>. For a store that keeps the laws of \<open>pair_store\<close> they all end
  (\<open>Sync_Repair_Ends\<close>). A round of the invalidation that lists a pair makes it invalid; a round of the
  rebuilding makes a pair final, or else lowers the weight of the heap, in which an entry weighs two if
  its distance is out of date and one otherwise; a round of the propagation that queues a pair lowers a
  distance. Snapshots are such a store, so every repair of a snapshot in a reachable memory returns
  (\<open>repairs_return\<close>), and the other theorems on repairs, which speak of a returned status, leave no run
  out. The loops of the cache end by induction along the list.

  What the repair theorems do and do not say. After a successful repair every distance is the length of a
  word, and the distances are exact if no pair that has a word is left unreachable. The code does not
  ensure the latter: a pair that is queued as a decrease and later invalidated is skipped by
  \<open>sg_rebuild_invalidated\<close> and stays unreachable.

  Not modelled: the free functions of automata, oracles and plans, which only release memory (those of
  snapshots and of the cache are modelled, because they count references); failing allocations; threads,
  so that an atomic counter is a number, which does not wrap, and the mutex of the cache is the order of
  its calls; the command line tool (src/src/sync_cli.c) and the Memgraph module (src/src/memgraph/sync_module.c), which are input
  and output around the library.
\<close>

end
